(* ===== verification/Prelude.thy ===== *)
theory Prelude
  imports Main "HOL-Library.Word"
begin

text \<open>
  Shared vocabulary of the development: bytes and byte arrays, the little-endian images of the
  C++ integers, the exceptions and undefined behaviours of the C++ code as values of one sum
  type, and the collections of simplification rules that the component theories extend.
\<close>

unbundle bit_operations_syntax

named_theorems le_simps \<open>little-endian images of integers\<close>
named_theorems xor_simps \<open>masking and unmasking of byte arrays\<close>
named_theorems exn_simps \<open>sequencing of fallible steps\<close>

section \<open>Exceptions and undefined behaviour\<close>

text \<open>
  What a call of the C++ code does beside returning a value: \<open>throw std::runtime_error\<close>,
  the \<open>invalid_argument\<close> and \<open>out_of_range\<close> of \<open>std::stoi\<close> and of the token tree, a failed \<open>assert\<close>, a use the
  standard leaves undefined (a dereferenced null or end iterator, a write past an array), or
  running out of the recursion budget a definition is given.
\<close>

datatype exn =
    Runtime_error string
  | Invalid_argument
  | Out_of_range
  | Assertion_failed
  | Undefined_behaviour
  | Out_of_fuel

type_synonym 'a res = "exn + 'a"

definition bindE :: "'a res \<Rightarrow> ('a \<Rightarrow> 'b res) \<Rightarrow> 'b res" where
  "bindE m f = (case m of Inl e \<Rightarrow> Inl e | Inr a \<Rightarrow> f a)"

lemma bindE_simps [simp, exn_simps]:
  "bindE (Inl e) f = Inl e"
  "bindE (Inr a) f = f a"
  by (simp_all add: bindE_def)

lemma bindE_Inr_iff [exn_simps]:
  "bindE m f = Inr b \<longleftrightarrow> (\<exists>a. m = Inr a \<and> f a = Inr b)"
  by (cases m) auto

lemma bindE_Inl_iff [exn_simps]:
  "bindE m f = Inl e \<longleftrightarrow> m = Inl e \<or> (\<exists>a. m = Inr a \<and> f a = Inl e)"
  by (cases m) auto

lemma bindE_assoc: "bindE (bindE m f) g = bindE m (\<lambda>x. bindE (f x) g)"
  by (cases m) auto

lemma bindE_cong [fundef_cong]:
  "m = m' \<Longrightarrow> (\<And>a. m' = Inr a \<Longrightarrow> f a = f' a) \<Longrightarrow> bindE m f = bindE m' f'"
  by (cases m') auto

text \<open>A loop over a list whose body may fail, threading a state.\<close>

fun foldE :: "('a \<Rightarrow> 's \<Rightarrow> 's res) \<Rightarrow> 'a list \<Rightarrow> 's \<Rightarrow> 's res" where
  "foldE f [] s = Inr s"
| "foldE f (x # xs) s = bindE (f x s) (foldE f xs)"

lemma foldE_append: "foldE f (xs @ ys) s = bindE (foldE f xs s) (foldE f ys)"
proof (induction xs arbitrary: s)
  case Nil
  then show ?case by simp
next
  case (Cons x xs)
  then show ?case by (cases "f x s") simp_all
qed

lemma foldE_invariant:
  assumes "foldE f xs s = Inr t" "P s"
    and "\<And>x s s'. x \<in> set xs \<Longrightarrow> P s \<Longrightarrow> f x s = Inr s' \<Longrightarrow> P s'"
  shows "P t"
  using assms
proof (induction xs arbitrary: s)
  case Nil
  then show ?case by simp
next
  case (Cons x xs)
  from Cons.prems(1) obtain s1 where s1: "f x s = Inr s1" "foldE f xs s1 = Inr t"
    by (auto simp: bindE_Inr_iff)
  with Cons.prems have "P s1" by auto
  with s1 Cons show ?case by auto
qed

text \<open>A loop that collects a value per element.\<close>

fun mapE :: "('a \<Rightarrow> 'b res) \<Rightarrow> 'a list \<Rightarrow> 'b list res" where
  "mapE f [] = Inr []"
| "mapE f (x # xs) = bindE (f x) (\<lambda>y. bindE (mapE f xs) (\<lambda>ys. Inr (y # ys)))"

lemma mapE_Inr: "(\<And>x. x \<in> set xs \<Longrightarrow> f x = Inr (g x)) \<Longrightarrow> mapE f xs = Inr (map g xs)"
  by (induction xs) simp_all

section \<open>Bytes\<close>

type_synonym byte = "8 word"
type_synonym bytes = "byte list"

definition xor_bytes :: "bytes \<Rightarrow> bytes \<Rightarrow> bytes" where
  "xor_bytes xs ys = map2 (\<lambda>a b. a XOR b) xs ys"

lemma length_xor_bytes [simp]: "length (xor_bytes xs ys) = min (length xs) (length ys)"
  by (simp add: xor_bytes_def)

lemma nth_xor_bytes [simp]:
  "i < length xs \<Longrightarrow> i < length ys \<Longrightarrow> xor_bytes xs ys ! i = xs ! i XOR ys ! i"
  by (simp add: xor_bytes_def)

lemma xor_bytes_cancel [xor_simps]:
  "length xs = length ys \<Longrightarrow> xor_bytes (xor_bytes xs ys) ys = xs"
  by (rule nth_equalityI) (simp_all add: xor.assoc)

lemma xor_bytes_commute: "xor_bytes xs ys = xor_bytes ys xs"
  by (rule nth_equalityI) (auto simp: xor.commute)

lemma xor_bytes_cancel_left [xor_simps]:
  "length xs = length ys \<Longrightarrow> xor_bytes ys (xor_bytes xs ys) = xs"
  using xor_bytes_cancel[of xs ys] by (simp add: xor_bytes_commute)

section \<open>Little-endian integers\<close>

text \<open>
  The object representation of an integer on the little-endian targets the code is written for:
  \<open>to_bytes(number)\<close> and the casts of a byte pointer to an int pointer store the two's complement value, lowest byte
  first. An \<open>int\<close> is a HOL integer in the range of 32-bit two's complement.
\<close>

fun le_bytes :: "nat \<Rightarrow> int \<Rightarrow> bytes" where
  "le_bytes 0 x = []"
| "le_bytes (Suc n) x = word_of_int x # le_bytes n (x div 256)"

fun le_uint :: "bytes \<Rightarrow> int" where
  "le_uint [] = 0"
| "le_uint (b # bs) = uint b + 256 * le_uint bs"

definition in_int32 :: "int \<Rightarrow> bool" where
  "in_int32 x \<longleftrightarrow> - (2 ^ 31) \<le> x \<and> x < 2 ^ 31"

definition le_int32 :: "bytes \<Rightarrow> int" where
  "le_int32 bs = (let u = le_uint (take 4 bs) in if u < 2 ^ 31 then u else u - 2 ^ 32)"

lemma length_le_bytes [simp]: "length (le_bytes n x) = n"
  by (induction n arbitrary: x) simp_all

lemma le_uint_le_bytes [le_simps]: "le_uint (le_bytes n x) = x mod 256 ^ n"
proof (induction n arbitrary: x)
  case 0
  then show ?case by simp
next
  case (Suc n)
  have u: "uint (word_of_int x :: byte) = x mod 256"
    by (simp add: uint_word_of_int)
  have "x mod 256 ^ Suc n = x mod (256 * 256 ^ n)" by simp
  also have "\<dots> = 256 * (x div 256 mod 256 ^ n) + x mod 256"
    by (rule zmod_zmult2_eq) simp
  finally show ?case by (simp add: Suc u)
qed

lemma le_bytes_inj: "0 \<le> x \<Longrightarrow> x < 256 ^ n \<Longrightarrow> 0 \<le> y \<Longrightarrow> y < 256 ^ n \<Longrightarrow>
    le_bytes n x = le_bytes n y \<Longrightarrow> x = y"
  by (metis le_uint_le_bytes mod_pos_pos_trivial)

lemma le_int32_le_bytes [le_simps]:
  assumes "in_int32 x"
  shows "le_int32 (le_bytes 4 x @ bs) = x"
proof -
  have u: "le_uint (le_bytes 4 x) = x mod 2 ^ 32"
    by (simp add: le_uint_le_bytes)
  show ?thesis
  proof (cases "0 \<le> x")
    case True
    with assms have "x mod 2 ^ 32 = x" by (simp add: in_int32_def)
    with True assms show ?thesis by (simp add: le_int32_def u in_int32_def Let_def)
  next
    case False
    have "x mod 2 ^ 32 = (x + 2 ^ 32) mod 2 ^ 32" by simp
    also have "\<dots> = x + 2 ^ 32"
      by (rule mod_pos_pos_trivial) (use False assms in \<open>simp_all add: in_int32_def\<close>)
    finally show ?thesis using False assms by (simp add: le_int32_def u in_int32_def Let_def)
  qed
qed

lemma le_bytes_4_int32_inj:
  assumes "in_int32 x" "in_int32 y" "le_bytes 4 x = le_bytes 4 y"
  shows "x = y"
  using assms le_int32_le_bytes[of x "[]"] le_int32_le_bytes[of y "[]"] by simp

text \<open>The shift-and-mask form in which some of the code writes the same bytes.\<close>

lemma le_bytes_4_shifts:
  "le_bytes 4 x = [word_of_int (x AND 255), word_of_int (drop_bit 8 x AND 255),
     word_of_int (drop_bit 16 x AND 255), word_of_int (drop_bit 24 x AND 255)]"
proof -
  have m: "word_of_int (y AND 255) = (word_of_int y :: byte)" for y :: int
  proof -
    have "y AND 255 = take_bit 8 y"
      by (simp add: take_bit_eq_mask mask_eq_exp_minus_1)
    then show ?thesis
      by (simp add: of_int_eq_iff word_of_int_eq_iff)
  qed
  show ?thesis
    by (simp add: numeral_eq_Suc m[unfolded numeral_eq_Suc] drop_bit_eq_div
        zdiv_zmult2_eq[symmetric])
qed

section \<open>Fixed-size buffers\<close>

text \<open>
  \<open>std::copy(src.begin(), src.end(), buf.begin() + off)\<close>: the copy is defined only when the
  source fits, otherwise it writes past the array.
\<close>

definition copy_at :: "nat \<Rightarrow> bytes \<Rightarrow> bytes \<Rightarrow> bytes" where
  "copy_at off src buf = take off buf @ src @ drop (off + length src) buf"

definition copy_into :: "nat \<Rightarrow> bytes \<Rightarrow> bytes \<Rightarrow> bytes res" where
  "copy_into off src buf =
     (if off + length src \<le> length buf then Inr (copy_at off src buf) else Inl Undefined_behaviour)"

lemma length_copy_at [simp]:
  "off + length src \<le> length buf \<Longrightarrow> length (copy_at off src buf) = length buf"
  by (simp add: copy_at_def)

lemma take_copy_at: "n \<le> off \<Longrightarrow> off \<le> length buf \<Longrightarrow> take n (copy_at off src buf) = take n buf"
  by (simp add: copy_at_def min_def)

lemma copy_at_read:
  "off \<le> length buf \<Longrightarrow> take (length src) (drop off (copy_at off src buf)) = src"
  by (simp add: copy_at_def)


lemma map_filter_append: "List.map_filter f (xs @ ys) = List.map_filter f xs @ List.map_filter f ys"
  by (simp add: List.map_filter_def)

lemma map_filter_cong:
  "(\<And>x. x \<in> set xs \<Longrightarrow> f x = g x) \<Longrightarrow> List.map_filter f xs = List.map_filter g xs"
  by (induction xs) (simp_all split: option.split)

end
