(* ===== verification/StdLib.thy ===== *)
theory StdLib
  imports Prelude "HOL-Library.List_Lexorder" "HOL-Library.Char_ord"
begin

text \<open>
  The parts of the C++ standard library (and of boost's string algorithms) that the schemes use:
  \<open>std::map\<close> with its iteration in key order, \<open>std::to_string\<close>, \<open>std::stoi\<close>,
  \<open>boost::split\<close> on one separator, and the passage between \<open>std::string\<close> and byte arrays.
\<close>

section \<open>std::map\<close>

text \<open>
  A map the code iterates over is its list of entries in iteration order, that is in strictly
  increasing key order. Maps the code only looks up and updates are HOL maps.
\<close>

type_synonym ('k, 'v) smap = "('k \<times> 'v) list"

abbreviation sm_get :: "('k, 'v) smap \<Rightarrow> 'k \<Rightarrow> 'v option" where
  "sm_get \<equiv> map_of"

fun sm_put :: "'k::linorder \<Rightarrow> 'v \<Rightarrow> ('k, 'v) smap \<Rightarrow> ('k, 'v) smap" where
  "sm_put k v [] = [(k, v)]"
| "sm_put k v ((a, b) # m) =
     (if k < a then (k, v) # (a, b) # m
      else if k = a then (k, v) # m
      else (a, b) # sm_put k v m)"

definition sm_erase :: "'k \<Rightarrow> ('k, 'v) smap \<Rightarrow> ('k, 'v) smap" where
  "sm_erase k m = filter (\<lambda>e. fst e \<noteq> k) m"

definition sm_wf :: "('k::linorder, 'v) smap \<Rightarrow> bool" where
  "sm_wf m \<longleftrightarrow> sorted_wrt (<) (map fst m)"

locale ordered_map =
  fixes empty :: 'm
    and put :: "'k::linorder \<Rightarrow> 'v \<Rightarrow> 'm \<Rightarrow> 'm"
    and erase :: "'k \<Rightarrow> 'm \<Rightarrow> 'm"
    and get :: "'m \<Rightarrow> 'k \<Rightarrow> 'v option"
    and entries :: "'m \<Rightarrow> ('k \<times> 'v) list"
    and wf :: "'m \<Rightarrow> bool"
  assumes get_empty: "get empty = Map.empty"
    and wf_empty: "wf empty"
    and get_put: "wf m \<Longrightarrow> get (put k v m) = (get m)(k \<mapsto> v)"
    and wf_put: "wf m \<Longrightarrow> wf (put k v m)"
    and get_erase: "wf m \<Longrightarrow> get (erase k m) = (get m)(k := None)"
    and wf_erase: "wf m \<Longrightarrow> wf (erase k m)"
    and entries_get: "wf m \<Longrightarrow> map_of (entries m) = get m"
    and entries_sorted: "wf m \<Longrightarrow> sorted_wrt (<) (map fst (entries m))"
begin

text \<open>Two maps with the same lookups are iterated over in the same way.\<close>

lemma entries_in_iff:
  assumes "wf m"
  shows "(k, v) \<in> set (entries m) \<longleftrightarrow> get m k = Some v"
proof -
  have "distinct (map fst (entries m))"
    using entries_sorted[OF assms] by (metis strict_sorted_iff)
  then show ?thesis
    using entries_get[OF assms] by (metis map_of_eq_Some_iff)
qed

lemma fold_put_get:
  assumes "wf m"
  shows "get (fold (\<lambda>(k, v). put k v) kvs m) = get m ++ map_of (rev kvs) \<and>
         wf (fold (\<lambda>(k, v). put k v) kvs m)"
  using assms
proof (induction kvs arbitrary: m)
  case Nil
  then show ?case by simp
next
  case (Cons kv kvs)
  then show ?case
    by (cases kv) (auto simp: get_put wf_put map_add_def fun_eq_iff split: option.splits)
qed

end

lemma sm_get_put: "sm_get (sm_put k v m) = (sm_get m)(k \<mapsto> v)"
  by (induction k v m rule: sm_put.induct) auto

lemma set_fst_sm_put: "fst ` set (sm_put k v m) = insert k (fst ` set m)"
  by (induction k v m rule: sm_put.induct) auto

lemma length_sm_put: "length (sm_put k v m) \<le> Suc (length m)"
  by (induction k v m rule: sm_put.induct) auto

lemma sm_wf_put: "sm_wf m \<Longrightarrow> sm_wf (sm_put k v m)"
proof (induction k v m rule: sm_put.induct)
  case (2 k v a b m)
  have "\<forall>x \<in> fst ` set (sm_put k v m). a < x" if "\<not> k < a" "k \<noteq> a"
    using 2 that by (auto simp: sm_wf_def set_fst_sm_put)
  with 2 show ?case by (auto simp: sm_wf_def)
qed (simp add: sm_wf_def)

lemma sm_wf_Nil [simp]: "sm_wf []"
  by (simp add: sm_wf_def)

lemma sm_get_erase: "sm_get (sm_erase k m) = (sm_get m)(k := None)"
  by (induction m) (auto simp: sm_erase_def)

lemma sm_wf_erase: "sm_wf m \<Longrightarrow> sm_wf (sm_erase k m)"
  by (induction m) (auto simp: sm_wf_def sm_erase_def)

lemma sm_wf_distinct: "sm_wf m \<Longrightarrow> distinct (map fst m)"
  by (simp add: sm_wf_def strict_sorted_iff)

lemma sm_in_set_iff: "sm_wf m \<Longrightarrow> (k, v) \<in> set m \<longleftrightarrow> sm_get m k = Some v"
  by (simp add: sm_wf_distinct)

interpretation sm: ordered_map "[] :: ('k::linorder, 'v) smap" sm_put sm_erase sm_get "\<lambda>m. m" sm_wf
  by unfold_locales
    (simp_all add: sm_get_put sm_wf_put sm_get_erase sm_wf_erase sm_wf_def[symmetric])

text \<open>A map is determined by its lookups.\<close>

lemma sm_eqI:
  assumes "sm_wf m" "sm_wf m'" "sm_get m = sm_get m'"
  shows "m = m'"
proof -
  have eq: "set m = set m'"
    using assms sm_in_set_iff by (metis prod.collapse subsetI subset_antisym)
  have d: "distinct (map fst m)" "sorted (map fst m)" "distinct (map fst m')" "sorted (map fst m')"
    using assms by (auto simp: sm_wf_def strict_sorted_iff)
  have "inj_on fst (set m \<union> set m')"
    using d(1) eq by (simp add: distinct_map)
  then show ?thesis
    using d eq by (intro map_sorted_distinct_set_unique) auto
qed

section \<open>Strings and bytes\<close>

definition str_bytes :: "string \<Rightarrow> bytes" where
  "str_bytes s = map of_char s"

definition bytes_str :: "bytes \<Rightarrow> string" where
  "bytes_str bs = map (\<lambda>b. char_of (unat b)) bs"

lemma bytes_str_str_bytes [simp]: "bytes_str (str_bytes s) = s"
proof -
  have "char_of (unat (of_char c :: byte)) = c" for c
  proof -
    have "(of_char c :: byte) = of_nat (of_char c)"
      by (rule of_nat_of_char[symmetric])
    moreover have "unat (of_nat (of_char c) :: byte) = (of_char c :: nat)"
      by (simp add: unat_of_nat take_bit_eq_mod)
    ultimately show ?thesis by (metis char_of_char)
  qed
  then show ?thesis by (simp add: bytes_str_def str_bytes_def o_def)
qed

lemma length_str_bytes [simp]: "length (str_bytes s) = length s"
  by (simp add: str_bytes_def)

lemma inj_str_bytes: "inj str_bytes"
  by (rule inj_on_inverseI[where g = bytes_str]) simp

lemma bytes_str_append [simp]: "bytes_str (as @ bs) = bytes_str as @ bytes_str bs"
  by (simp add: bytes_str_def)

lemma str_bytes_bytes_str [simp]: "str_bytes (bytes_str bs) = bs"
proof -
  have "of_char (char_of (unat b)) = b" for b :: byte
  proof -
    have "unat b < 256" using unsigned_less[of b] by simp
    then have "(of_char (char_of (unat b)) :: nat) = unat b" by simp
    then have "(of_nat (of_char (char_of (unat b))) :: byte) = of_nat (unat b)" by (simp only:)
    then show ?thesis by (simp only: of_nat_of_char) simp
  qed
  then show ?thesis by (simp add: str_bytes_def bytes_str_def o_def)
qed

lemma str_bytes_nonzero:
  assumes "CHR 0x00 \<notin> set w" "b \<in> set (str_bytes w)"
  shows "b \<noteq> 0"
proof
  assume "b = 0"
  from assms(2) obtain c where c: "c \<in> set w" "of_char c = b" by (auto simp: str_bytes_def)
  with \<open>b = 0\<close> have "str_bytes [c] = str_bytes [CHR 0x00]" by (simp add: str_bytes_def)
  then have "c = CHR 0x00" using inj_str_bytes by (simp add: inj_eq)
  with assms(1) c(1) show False by simp
qed


text \<open>\<open>s = s.c_str()\<close>: the string is cut at its first zero character.\<close>

definition c_str :: "string \<Rightarrow> string" where
  "c_str s = takeWhile (\<lambda>c. c \<noteq> CHR 0x00) s"


section \<open>Decimal numbers\<close>

text \<open>\<open>std::to_string\<close> of an integer: the decimal digits, with a sign for negative numbers.\<close>

definition digit_char :: "nat \<Rightarrow> char" where
  "digit_char d = char_of (48 + d)"

fun digits :: "nat \<Rightarrow> string" where
  "digits n = (if n < 10 then [digit_char n] else digits (n div 10) @ [digit_char (n mod 10)])"

declare digits.simps [simp del]

definition to_string :: "int \<Rightarrow> string" where
  "to_string x = (if x < 0 then CHR ''-'' # digits (nat (- x)) else digits (nat x))"

text \<open>
  \<open>std::stoi\<close>: leading white space is skipped, an optional sign is read, then as many digits as
  there are; no digit is \<open>invalid_argument\<close>, a value outside \<open>int\<close> is \<open>out_of_range\<close>, and what
  follows the digits is ignored.
\<close>

definition is_digit :: "char \<Rightarrow> bool" where
  "is_digit c \<longleftrightarrow> 48 \<le> (of_char c :: nat) \<and> (of_char c :: nat) \<le> 57"

definition is_space :: "char \<Rightarrow> bool" where
  "is_space c \<longleftrightarrow> (of_char c :: nat) = 32 \<or> (9 \<le> (of_char c :: nat) \<and> (of_char c :: nat) \<le> 13)"

definition digits_val :: "string \<Rightarrow> int" where
  "digits_val ds = foldl (\<lambda>a c. 10 * a + (of_char c - 48)) 0 ds"

definition stoi_unsigned :: "bool \<Rightarrow> string \<Rightarrow> int res" where
  "stoi_unsigned neg s =
     (let ds = takeWhile is_digit s; v = digits_val ds; x = (if neg then - v else v)
      in if ds = [] then Inl Invalid_argument
         else if in_int32 x then Inr x else Inl Out_of_range)"

definition stoi :: "string \<Rightarrow> int res" where
  "stoi s =
     (case dropWhile is_space s of
        [] \<Rightarrow> Inl Invalid_argument
      | c # cs \<Rightarrow>
          if c = CHR ''-'' then stoi_unsigned True cs
          else if c = CHR ''+'' then stoi_unsigned False cs
          else stoi_unsigned False (c # cs))"

lemma is_digit_digit_char [simp]: "d < 10 \<Longrightarrow> is_digit (digit_char d)"
  by (simp add: is_digit_def digit_char_def)

lemma of_char_digit_char: "d < 10 \<Longrightarrow> (of_char (digit_char d) :: int) = 48 + int d"
proof -
  assume "d < 10"
  then have "(of_char (digit_char d) :: nat) = 48 + d" by (simp add: digit_char_def)
  then show ?thesis by (metis of_nat_of_char of_nat_add of_nat_numeral)
qed

lemma digits_not_Nil [simp]: "digits n \<noteq> []"
  by (subst digits.simps) simp

lemma set_digits: "c \<in> set (digits n) \<Longrightarrow> is_digit c"
proof (induction n rule: digits.induct)
  case (1 n)
  show ?case
    by (cases "n < 10") (use 1 in \<open>auto simp: digits.simps[of n]\<close>)
qed

lemma digits_val_snoc: "digits_val (ds @ [c]) = 10 * digits_val ds + (of_char c - 48)"
  by (simp add: digits_val_def)

lemma digits_val_digits [simp]: "digits_val (digits n) = int n"
proof (induction n rule: digits.induct)
  case (1 n)
  show ?case
  proof (cases "n < 10")
    case True
    then show ?thesis by (simp add: digits.simps[of n] digits_val_def of_char_digit_char)
  next
    case False
    with 1 show ?thesis
      by (simp add: digits.simps[of n] digits_val_snoc of_char_digit_char zdiv_int zmod_int)
  qed
qed

lemma takeWhile_digits:
  "(rest = [] \<or> \<not> is_digit (hd rest)) \<Longrightarrow> takeWhile is_digit (digits n @ rest) = digits n"
  using set_digits[of _ n] by (cases rest) (auto simp: takeWhile_append takeWhile_eq_all_conv)

lemma digits_hd:
  obtains c cs where "digits n = c # cs" "is_digit c"
  by (metis digits_not_Nil list.exhaust list.set_intros(1) set_digits)

text \<open>Reading back what was printed, whatever non-digit follows it.\<close>

lemma stoi_to_string_append:
  assumes "in_int32 x" and "rest = [] \<or> \<not> is_digit (hd rest)"
  shows "stoi (to_string x @ rest) = Inr x"
proof (cases "x < 0")
  case True
  then show ?thesis
    using assms takeWhile_digits[of rest "nat (- x)"]
    by (simp add: stoi_def to_string_def is_space_def stoi_unsigned_def)
next
  case False
  obtain c cs where c: "digits (nat x) = c # cs" "is_digit c" by (rule digits_hd)
  then have "\<not> is_space c" "c \<noteq> CHR ''-''" "c \<noteq> CHR ''+''"
    by (auto simp: is_digit_def is_space_def)
  with c False assms takeWhile_digits[of rest "nat x"] show ?thesis
    by (simp add: stoi_def to_string_def stoi_unsigned_def digits_val_digits[of "nat x", simplified c])
qed

lemma stoi_to_string [simp]: "in_int32 x \<Longrightarrow> stoi (to_string x) = Inr x"
  using stoi_to_string_append[of x "[]"] by simp

lemma stoi_Nil [simp]: "stoi [] = Inl Invalid_argument"
  by (simp add: stoi_def)

lemma to_string_not_Nil [simp]: "to_string x \<noteq> []"
  by (simp add: to_string_def)

lemma set_to_string: "c \<in> set (to_string x) \<Longrightarrow> is_digit c \<or> c = CHR ''-''"
  by (auto simp: to_string_def dest: set_digits split: if_splits)

lemma to_string_no_nul: "CHR 0x00 \<notin> set (to_string x)"
  using set_to_string[of "CHR 0x00" x] by (auto simp: is_digit_def)

lemma c_str_to_string [simp]: "c_str (to_string x @ replicate n (CHR 0x00)) = to_string x"
  using to_string_no_nul[of x]
  by (cases n) (auto simp: c_str_def takeWhile_append takeWhile_eq_all_conv)

lemma length_digits: "n < 10 ^ Suc k \<Longrightarrow> length (digits n) \<le> Suc k"
proof (induction k arbitrary: n)
  case 0
  then show ?case by (subst digits.simps) simp
next
  case (Suc k)
  show ?case
  proof (cases "n < 10")
    case True
    then show ?thesis by (subst digits.simps) simp
  next
    case False
    have "n div 10 < 10 ^ Suc k" using Suc.prems by (simp add: less_mult_imp_div_less mult.commute)
    with False Suc.IH show ?thesis by (subst digits.simps) simp
  qed
qed

lemma length_to_string_int32: "in_int32 x \<Longrightarrow> length (to_string x) \<le> 11"
proof (cases "x < 0")
  case True
  assume "in_int32 x"
  with True have "nat (- x) < 10 ^ Suc 9" by (simp add: in_int32_def nat_less_iff)
  from length_digits[OF this] True show ?thesis by (simp add: to_string_def)
next
  case False
  assume "in_int32 x"
  with False have "nat x < 10 ^ Suc 9" by (simp add: in_int32_def nat_less_iff)
  from length_digits[OF this] False show ?thesis by (simp add: to_string_def)
qed

section \<open>Splitting at a separator\<close>

text \<open>\<open>split(tokens, s, is_any_of("#"))\<close>: always at least one token, possibly empty.\<close>

fun split_on :: "char \<Rightarrow> string \<Rightarrow> string list" where
  "split_on sep [] = [[]]"
| "split_on sep (c # cs) =
     (if c = sep then [] # split_on sep cs
      else (case split_on sep cs of [] \<Rightarrow> [[c]] | t # ts \<Rightarrow> (c # t) # ts))"

lemma split_on_not_Nil [simp]: "split_on sep s \<noteq> []"
  by (induction s) (auto split: list.splits)

lemma split_on_no_sep: "sep \<notin> set s \<Longrightarrow> split_on sep s = [s]"
  by (induction s) auto

lemma split_on_append_sep: "sep \<notin> set s \<Longrightarrow> split_on sep (s @ sep # t) = s # split_on sep t"
  by (induction s) auto

lemma split_on_pair:
  "sep \<notin> set a \<Longrightarrow> sep \<notin> set b \<Longrightarrow> split_on sep (a @ [sep] @ b) = [a, b]"
  by (simp add: split_on_append_sep split_on_no_sep)

section \<open>Text in fields of 16 bytes\<close>

text \<open>The maps and ORAMs store a string in an array of 16 bytes, filled up with zeros, and read it back as a C string.\<close>

definition pad_value :: "string \<Rightarrow> bytes" where
  "pad_value str = str_bytes str @ replicate (16 - length str) 0"

lemma copy_value: "length str \<le> 16 \<Longrightarrow> copy_into 0 (str_bytes str) (replicate 16 0) = Inr (pad_value str)"
  by (simp add: copy_into_def copy_at_def pad_value_def str_bytes_def)

lemma pad_value_c_str:
  assumes "CHR 0x00 \<notin> set str"
  shows "c_str (bytes_str (pad_value str)) = str"
proof -
  have "char_of (0 :: nat) = CHR 0x00" by code_simp
  then have "bytes_str (replicate k 0) = replicate k (CHR 0x00)" for k by (simp add: bytes_str_def)
  moreover have "takeWhile (\<lambda>c. c \<noteq> CHR 0x00) (str @ replicate k (CHR 0x00)) = str" for k
  proof -
    have "takeWhile (\<lambda>c. c \<noteq> CHR 0x00) (replicate k (CHR 0x00)) = []" by (cases k) simp_all
    moreover have "takeWhile (\<lambda>c. c \<noteq> CHR 0x00) (str @ replicate k (CHR 0x00)) = str @ takeWhile (\<lambda>c. c \<noteq> CHR 0x00) (replicate k (CHR 0x00))"
      by (rule takeWhile_append2) (use assms in metis)
    ultimately show ?thesis by simp
  qed
  ultimately show ?thesis by (simp add: pad_value_def c_str_def)
qed

end
