(* ===== verification/UpdateLog.thy ===== *)
theory UpdateLog
  imports StdLib
begin

text \<open>
  What the schemes with insertions and deletions are to return. A keyword has a log of updates; a search is
  to return the identifiers inserted more often than deleted, in increasing order. The clients of Mitra and
  Fides compute this with a \<open>std::map\<close> of sums, one adding plus one and one adding minus one per insertion.
\<close>

datatype OP = INS | DEL

definition occurrences :: "OP \<Rightarrow> 'k \<Rightarrow> (OP \<times> 'k) list \<Rightarrow> nat" where
  "occurrences op x log = length (filter (\<lambda>e. e = (op, x)) log)"

definition matching :: "(OP \<times> 'k::linorder) list \<Rightarrow> 'k list" where
  "matching log = sorted_list_of_set {x \<in> snd ` set log. occurrences DEL x log < occurrences INS x log}"

definition tally_add :: "(OP \<Rightarrow> int) \<Rightarrow> OP \<times> 'k::linorder \<Rightarrow> ('k, int) smap \<Rightarrow> ('k, int) smap" where
  "tally_add d e rm =
     sm_put (snd e) ((case sm_get rm (snd e) of None \<Rightarrow> 0 | Some v \<Rightarrow> v) + d (fst e)) rm"

lemma sm_wf_tally: "sm_wf rm \<Longrightarrow> sm_wf (fold (tally_add d) log rm)"
  by (induction log arbitrary: rm) (simp_all add: tally_add_def sm_wf_put)

lemma sm_get_tally_add:
  "sm_get (tally_add d (op, y) rm) x =
     (if x = y then Some ((case sm_get rm y of None \<Rightarrow> 0 | Some v \<Rightarrow> v) + d op) else sm_get rm x)"
  by (simp add: tally_add_def sm_get_put)

lemma occurrences_snoc:
  "occurrences op x (log @ [e]) = occurrences op x log + (if e = (op, x) then 1 else 0)"
  by (simp add: occurrences_def)

lemma sm_get_tally:
  "sm_get (fold (tally_add d) log []) x =
     (if x \<in> snd ` set log
      then Some (d DEL * int (occurrences DEL x log) + d INS * int (occurrences INS x log)) else None)"
proof (induction log rule: rev_induct)
  case Nil
  then show ?case by simp
next
  case (snoc e log)
  obtain op y where e: "e = (op, y)" by force
  have "occurrences o' x log = 0" if "x \<notin> snd ` set log" for o'
    using that by (auto simp: occurrences_def filter_empty_conv intro: rev_image_eqI)
  then show ?case
    using snoc
    by (cases op; cases "x = y"; cases "x \<in> snd ` set log")
      (simp_all add: e sm_get_tally_add occurrences_snoc algebra_simps)
qed

lemma filter_sorted_fst: "sm_wf m \<Longrightarrow> sorted_wrt (<) (map fst (filter P m))"
  by (induction m) (auto simp: sm_wf_def)

text \<open>The entries of the sums that pass a test for more insertions than deletions are the specified result.\<close>

lemma matching_tally:
  assumes "\<And>m n. P (d DEL * int m + d INS * int n) \<longleftrightarrow> m < n"
  shows "map fst (filter (\<lambda>e. P (snd e)) (fold (tally_add d) log [])) = matching log"
proof -
  let ?t = "fold (tally_add d) log []"
  have wf: "sm_wf ?t" by (rule sm_wf_tally) simp
  have "set (map fst (filter (\<lambda>e. P (snd e)) ?t)) =
        {x \<in> snd ` set log. occurrences DEL x log < occurrences INS x log}"
  proof -
    have "x \<in> set (map fst (filter (\<lambda>e. P (snd e)) ?t)) \<longleftrightarrow> (\<exists>n. sm_get ?t x = Some n \<and> P n)" for x
      using sm_in_set_iff[OF wf] by force
    then show ?thesis
      by (intro set_eqI) (simp only: sm_get_tally mem_Collect_eq, simp add: assms)
  qed
  moreover have "sorted_wrt (<) (map fst (filter (\<lambda>e. P (snd e)) ?t))"
    using wf by (rule filter_sorted_fst)
  ultimately show ?thesis
    unfolding matching_def by (metis sorted_list_of_set.idem_if_sorted_distinct strict_sorted_iff)
qed

lemma length_tally: "length (fold (tally_add d) log rm) \<le> length rm + length log"
proof (induction log arbitrary: rm)
  case Nil
  then show ?case by simp
next
  case (Cons e log)
  have "length (tally_add d e rm) \<le> Suc (length rm)"
    by (simp add: tally_add_def length_sm_put)
  with Cons[of "tally_add d e rm"] show ?case by simp
qed


lemma set_matching: "set (matching log) \<subseteq> snd ` set log"
  by (auto simp: matching_def)

lemma length_matching: "length (matching log) \<le> length log"
proof -
  have "length (matching log) = card (set (matching log))"
    by (simp add: matching_def)
  also have "\<dots> \<le> card (set (map snd log))" using set_matching[of log] by (intro card_mono) auto
  also have "\<dots> \<le> length log" using card_length[of "map snd log"] by simp
  finally show ?thesis .
qed

end
