(* ===== verification/Mitra.thy ===== *)
theory Mitra
  imports UpdateLog
begin

text \<open>
  The Mitra scheme: \<open>src/src/mitra/Client.cpp\<close> and \<open>src/src/mitra/Server.cpp\<close>. The client keeps two
  counters per keyword, derives the address and the mask of the \<open>n\<close>-th update of a keyword with a
  pseudo-random function, and sends masked entries to the server, which is a dictionary. A search
  asks for all addresses of the keyword, unmasks the answers and sums insertions and deletions.

  \<open>prg\<close> stands for \<open>sse::crypto::Prg::derive(key, 0, 16, result)\<close> on a 16-byte key and \<open>rnd\<close> for
  the successive results of \<open>rand()\<close>; both are arguments of the definitions.
\<close>

section \<open>State\<close>

fun op_val :: "OP \<Rightarrow> int" where
  "op_val INS = 0"
| "op_val DEL = 1"

type_synonym prf_type = bytes

record server =
  edb :: "prf_type \<rightharpoonup> prf_type"
  DictW :: "prf_type \<rightharpoonup> prf_type"
  useRocksDB :: bool
  s_deleteFiles :: bool

record client =
  FileCnt :: "prf_type \<rightharpoonup> int"
  SrcCnt :: "prf_type \<rightharpoonup> int"
  deleteFiles :: bool
  setupMode :: bool
  totalUpdateCommSize :: int
  totalSearchCommSize :: int
  randIdx :: nat

definition AES_KEY_SIZE :: nat where
  "AES_KEY_SIZE = 16"

definition zero_block :: prf_type where
  "zero_block = replicate AES_KEY_SIZE 0"

section \<open>Server\<close>

text \<open>The constructor overwrites the requested storage mode with \<open>false\<close>.\<close>

definition Server :: "bool \<Rightarrow> bool \<Rightarrow> server" where
  "Server useHDD del =
     \<lparr>edb = Map.empty, DictW = Map.empty, useRocksDB = False, s_deleteFiles = del\<rparr>"

definition server_update :: "prf_type \<Rightarrow> prf_type \<Rightarrow> server \<Rightarrow> server" where
  "server_update addr val s =
     (if useRocksDB s then s\<lparr>edb := (edb s)(addr \<mapsto> val)\<rparr>
      else s\<lparr>DictW := (DictW s)(addr \<mapsto> val)\<rparr>)"

text \<open>
  In memory mode \<open>DictW[KList[i]]\<close> creates a zero entry for a missing address, and an entry equal to
  the zero block counts as missing.
\<close>

fun server_search :: "prf_type list \<Rightarrow> server \<Rightarrow> server \<times> prf_type list" where
  "server_search [] s = (s, [])"
| "server_search (k # ks) s =
     (if useRocksDB s then
        (case edb s k of
           None \<Rightarrow> server_search ks s
         | Some val \<Rightarrow>
             (let s' = (if s_deleteFiles s then s\<lparr>edb := (edb s)(k := None)\<rparr> else s);
                  (s'', r) = server_search ks s'
              in (s'', val # r)))
      else
        (let val = (case DictW s k of None \<Rightarrow> zero_block | Some v \<Rightarrow> v);
             (s'', r) = server_search ks (s\<lparr>DictW := (DictW s)(k \<mapsto> val)\<rparr>)
         in (s'', if val \<noteq> zero_block then val # r else r)))"

section \<open>Masks and addresses\<close>

definition Client :: "bool \<Rightarrow> client" where
  "Client del =
     \<lparr>FileCnt = Map.empty, SrcCnt = Map.empty, deleteFiles = del, setupMode = False,
      totalUpdateCommSize = 0, totalSearchCommSize = 0, randIdx = 0\<rparr>"

definition setSetupMode :: "bool \<Rightarrow> client \<Rightarrow> client" where
  "setSetupMode b c = c\<lparr>setupMode := b\<rparr>"

text \<open>
  \<open>memset\<close> to zero and \<open>copy(keyword.begin(), keyword.end(), k_w.data())\<close>; a keyword of more than 16
  characters is copied past the end of the array.
\<close>

definition keyword_block :: "string \<Rightarrow> prf_type res" where
  "keyword_block keyword = copy_into 0 (str_bytes keyword) zero_block"

text \<open>
  The derivation writes the counters into the caller's keyword buffer, so it returns the buffer as
  it leaves it, and the derived block.
\<close>

definition getAESRandomValue ::
    "(bytes \<Rightarrow> bytes) \<Rightarrow> bool \<Rightarrow> prf_type \<Rightarrow> int \<Rightarrow> int \<Rightarrow> int \<Rightarrow> prf_type \<times> prf_type" where
  "getAESRandomValue prg del keyword op srcCnt fileCnt =
     (let k1 = (if del then copy_at (AES_KEY_SIZE - 9) (le_bytes 4 srcCnt) keyword else keyword);
          k2 = k1[AES_KEY_SIZE - 5 := word_of_int (op AND 255)];
          k3 = copy_at (AES_KEY_SIZE - 4) (le_bytes 4 fileCnt) k2
      in (k3, prg k3))"

definition rand_byte :: "(nat \<Rightarrow> nat) \<Rightarrow> nat \<Rightarrow> byte" where
  "rand_byte rnd i = of_nat (rnd i mod 255)"

definition bitwiseXOR_op :: "(nat \<Rightarrow> nat) \<Rightarrow> nat \<Rightarrow> int \<Rightarrow> int \<Rightarrow> prf_type \<Rightarrow> prf_type" where
  "bitwiseXOR_op rnd ri input1 op input2 =
     [input2 ! 0 XOR word_of_int (input1 AND 255),
      input2 ! 1 XOR word_of_int (drop_bit 8 input1 AND 255),
      input2 ! 2 XOR word_of_int (drop_bit 16 input1 AND 255),
      input2 ! 3 XOR word_of_int (drop_bit 24 input1 AND 255),
      input2 ! 4 XOR word_of_int (op AND 255)]
     @ map (\<lambda>i. rand_byte rnd (ri + (i - 5)) XOR input2 ! i) [5..<AES_KEY_SIZE]"

definition bitwiseXOR :: "prf_type \<Rightarrow> prf_type \<Rightarrow> prf_type" where
  "bitwiseXOR input1 input2 = xor_bytes input1 input2"

section \<open>Updates\<close>

definition updateRequest ::
    "(bytes \<Rightarrow> bytes) \<Rightarrow> (nat \<Rightarrow> nat) \<Rightarrow> OP \<Rightarrow> string \<Rightarrow> int \<Rightarrow> client \<Rightarrow>
     (client \<times> prf_type \<times> prf_type) res" where
  "updateRequest prg rnd op keyword ind c =
     bindE (keyword_block keyword) (\<lambda>k_w.
       let fileCnt = (case FileCnt c k_w of None \<Rightarrow> 1 | Some n \<Rightarrow> n + 1);
           c1 = c\<lparr>FileCnt := (FileCnt c)(k_w \<mapsto> fileCnt)\<rparr>;
           srcCnt = (if deleteFiles c then (case SrcCnt c k_w of None \<Rightarrow> 0 | Some n \<Rightarrow> n) else 0);
           c2 = (if deleteFiles c then c1\<lparr>SrcCnt := (SrcCnt c)(k_w \<mapsto> srcCnt)\<rparr> else c1);
           (k_w1, addr) = getAESRandomValue prg (deleteFiles c) k_w 0 srcCnt fileCnt;
           (k_w2, r) = getAESRandomValue prg (deleteFiles c) k_w1 1 srcCnt fileCnt;
           val = bitwiseXOR_op rnd (randIdx c) ind (op_val op) r
       in Inr (c2\<lparr>totalUpdateCommSize := 16 * 2, randIdx := randIdx c + 11\<rparr>, addr, val))"

definition update ::
    "(bytes \<Rightarrow> bytes) \<Rightarrow> (nat \<Rightarrow> nat) \<Rightarrow> OP \<Rightarrow> string \<Rightarrow> int \<Rightarrow> client \<times> server \<Rightarrow>
     (client \<times> server) res" where
  "update prg rnd op keyword ind cs =
     (case cs of (c, s) \<Rightarrow>
        bindE (updateRequest prg rnd op keyword ind c) (\<lambda>(c', addr, val).
          Inr (c', if setupMode c then s else server_update addr val s)))"

section \<open>Searches\<close>

text \<open>The address loop, for the counters given by the list; it leaves the buffer modified.\<close>

fun request_tokens ::
    "(bytes \<Rightarrow> bytes) \<Rightarrow> bool \<Rightarrow> int \<Rightarrow> int list \<Rightarrow> prf_type \<Rightarrow> prf_type \<times> prf_type list" where
  "request_tokens prg del srcCnt [] k_w = (k_w, [])"
| "request_tokens prg del srcCnt (i # is) k_w =
     (let (k_w1, r) = getAESRandomValue prg del k_w 0 srcCnt i;
          (k_w2, rs) = request_tokens prg del srcCnt is k_w1
      in (k_w2, r # rs))"

text \<open>The loop over the answers: unmask, and add \<open>2 * op - 1\<close> to the identifier's entry.\<close>

fun decode_entries ::
    "(bytes \<Rightarrow> bytes) \<Rightarrow> bool \<Rightarrow> int \<Rightarrow> int \<Rightarrow> prf_type list \<Rightarrow> prf_type \<Rightarrow> (int, int) smap \<Rightarrow>
     prf_type \<times> (int, int) smap" where
  "decode_entries prg del srcCnt cnt [] k_w rm = (k_w, rm)"
| "decode_entries prg del srcCnt cnt (e # es) k_w rm =
     (let (k_w1, tmp) = getAESRandomValue prg del k_w 1 srcCnt cnt;
          plaintextBytes = bitwiseXOR tmp e;
          plaintext = le_int32 plaintextBytes;
          old = (case sm_get rm plaintext of None \<Rightarrow> 0 | Some v \<Rightarrow> v)
      in decode_entries prg del srcCnt (cnt + 1) es k_w1
           (sm_put plaintext (old + (2 * uint (plaintextBytes ! 4) - 1)) rm))"

text \<open>
  The loop over the sums, in key order: identifiers with a negative sum are results, and in
  cleaning mode each is encrypted again under the next search counter.
\<close>

fun clean_entries ::
    "(bytes \<Rightarrow> bytes) \<Rightarrow> (nat \<Rightarrow> nat) \<Rightarrow> bool \<Rightarrow> int \<Rightarrow> (int \<times> int) list \<Rightarrow> prf_type \<Rightarrow> int \<Rightarrow> nat \<Rightarrow>
     prf_type \<times> int \<times> nat \<times> int list \<times> (prf_type \<times> prf_type) list" where
  "clean_entries prg rnd del srcCnt [] k_w fileCnt ri = (k_w, fileCnt, ri, [], [])"
| "clean_entries prg rnd del srcCnt ((x, n) # es) k_w fileCnt ri =
     (if n < 0 then
        (if del then
           (let fileCnt' = fileCnt + 1;
                (k_w1, addr) = getAESRandomValue prg del k_w 0 srcCnt fileCnt';
                (k_w2, r) = getAESRandomValue prg del k_w1 1 srcCnt fileCnt';
                val = bitwiseXOR_op rnd ri x (op_val INS) r;
                (k_w3, fc, ri', res, prs) = clean_entries prg rnd del srcCnt es k_w2 fileCnt' (ri + 11)
            in (k_w3, fc, ri', x # res, (addr, val) # prs))
         else
           (let (k_w3, fc, ri', res, prs) = clean_entries prg rnd del srcCnt es k_w fileCnt ri
            in (k_w3, fc, ri', x # res, prs)))
      else clean_entries prg rnd del srcCnt es k_w fileCnt ri)"

definition search ::
    "(bytes \<Rightarrow> bytes) \<Rightarrow> (nat \<Rightarrow> nat) \<Rightarrow> string \<Rightarrow> client \<times> server \<Rightarrow>
     ((client \<times> server) \<times> int list) res" where
  "search prg rnd keyword cs =
     (case cs of (c, s) \<Rightarrow>
      bindE (keyword_block keyword) (\<lambda>k_w.
        case FileCnt c k_w of
          None \<Rightarrow> Inr ((c\<lparr>totalSearchCommSize := 0\<rparr>, s), [])
        | Some fileCnt \<Rightarrow>
            let del = deleteFiles c;
                srcCnt = (if del then (case SrcCnt c k_w of None \<Rightarrow> 0 | Some n \<Rightarrow> n) else 0);
                c1 = (if del then c\<lparr>SrcCnt := (SrcCnt c)(k_w \<mapsto> srcCnt)\<rparr> else c);
                (k1, KList) = request_tokens prg del srcCnt [1..fileCnt] k_w;
                (s1, encIndexes) = server_search KList s;
                (k2, remove) = decode_entries prg del srcCnt 1 encIndexes k1 [];
                c2 = (if del then
                        c1\<lparr>SrcCnt := (SrcCnt c1)
                            (k2 \<mapsto> (case SrcCnt c1 k2 of None \<Rightarrow> 0 | Some n \<Rightarrow> n) + 1)\<rparr>
                      else c1);
                (k3, fc, ri, finalRes, prs) =
                  clean_entries prg rnd del (if del then srcCnt + 1 else srcCnt) remove k2
                    (if del then 0 else fileCnt) (randIdx c);
                s2 = fold (\<lambda>(a, v). server_update a v) prs s1;
                c3 = (if del then c2\<lparr>FileCnt := (FileCnt c2)(k3 \<mapsto> fc)\<rparr> else c2);
                size = (if del then fc * 2 * 16 else 0)
                         + 16 * int (length KList) + int (length encIndexes) * 16
            in Inr ((c3\<lparr>totalSearchCommSize := size, randIdx := ri\<rparr>, s2), finalRes)))"

text \<open>The two halves of a search in client/server mode.\<close>

definition searchRequest ::
    "(bytes \<Rightarrow> bytes) \<Rightarrow> string \<Rightarrow> client \<Rightarrow> (client \<times> prf_type \<times> prf_type list) res" where
  "searchRequest prg keyword c =
     bindE (keyword_block keyword) (\<lambda>k_w.
       case FileCnt c k_w of
         None \<Rightarrow> Inr (c\<lparr>totalSearchCommSize := 0\<rparr>, k_w, [])
       | Some fileCnt \<Rightarrow>
           let del = deleteFiles c;
               srcCnt = (if del then (case SrcCnt c k_w of None \<Rightarrow> 0 | Some n \<Rightarrow> n) else 0);
               c1 = (if del then c\<lparr>SrcCnt := (SrcCnt c)(k_w \<mapsto> srcCnt)\<rparr> else c);
               (k1, KList) = request_tokens prg del srcCnt [1..fileCnt] k_w
           in Inr (c1\<lparr>totalSearchCommSize := 16 * int (length KList)\<rparr>, k1, KList))"

definition searchProcess ::
    "(bytes \<Rightarrow> bytes) \<Rightarrow> (nat \<Rightarrow> nat) \<Rightarrow> prf_type list \<Rightarrow> prf_type \<Rightarrow> client \<Rightarrow>
     client \<times> int list \<times> (prf_type, prf_type) smap" where
  "searchProcess prg rnd encIndexes k_w c =
     (let del = deleteFiles c;
          srcCnt = (if del then (case SrcCnt c k_w of None \<Rightarrow> 0 | Some n \<Rightarrow> n) else 0);
          c1 = (if del then c\<lparr>SrcCnt := (SrcCnt c)(k_w \<mapsto> srcCnt)\<rparr> else c);
          (k2, remove) = decode_entries prg del srcCnt 1 encIndexes k_w [];
          c2 = (if del then
                  c1\<lparr>SrcCnt := (SrcCnt c1)
                      (k2 \<mapsto> (case SrcCnt c1 k2 of None \<Rightarrow> 0 | Some n \<Rightarrow> n) + 1)\<rparr>
                else c1);
          (k3, fc, ri, finalRes, prs) =
            clean_entries prg rnd del (if del then srcCnt + 1 else srcCnt) remove k2 0 (randIdx c);
          cleaningPairs =
            fold (\<lambda>(a, v) m. if sm_get m a = None then sm_put a v m else m) prs [];
          c3 = (if del then c2\<lparr>FileCnt := (FileCnt c2)(k3 \<mapsto> fc)\<rparr> else c2)
      in (c3\<lparr>totalSearchCommSize := totalSearchCommSize c
                + (if del then fc * 2 * 16 else 0) + int (length encIndexes) * 16,
             randIdx := ri\<rparr>,
          finalRes, cleaningPairs))"


section \<open>Derivation inputs\<close>

text \<open>
  The block the derivation is keyed with: the keyword's first 11 bytes (7 in cleaning mode), the
  search counter in cleaning mode, the purpose and the update counter.
\<close>

definition key_len :: "bool \<Rightarrow> nat" where
  "key_len del = (if del then 7 else 11)"

definition prf_input :: "bool \<Rightarrow> prf_type \<Rightarrow> int \<Rightarrow> int \<Rightarrow> int \<Rightarrow> prf_type" where
  "prf_input del k op srcCnt fileCnt =
     take (key_len del) k @ (if del then le_bytes 4 srcCnt else [])
       @ [word_of_int (op AND 255)] @ le_bytes 4 fileCnt"

lemma getAESRandomValue_eq:
  assumes "length k = 16"
  shows "getAESRandomValue prg del k op srcCnt fileCnt =
           (prf_input del k op srcCnt fileCnt, prg (prf_input del k op srcCnt fileCnt))"
proof -
  have "(let k1 = (if del then copy_at 7 (le_bytes 4 srcCnt) k else k);
             k2 = k1[11 := word_of_int (op AND 255)]
         in copy_at 12 (le_bytes 4 fileCnt) k2) = prf_input del k op srcCnt fileCnt"
    using assms
    by (intro nth_equalityI)
      (auto simp: prf_input_def key_len_def copy_at_def nth_append nth_Cons' nth_list_update min_def
        split: if_splits)
  then show ?thesis
    by (cases del) (simp_all add: getAESRandomValue_def AES_KEY_SIZE_def Let_def)
qed

lemma length_prf_input [simp]: "length k = 16 \<Longrightarrow> length (prf_input del k op s f) = 16"
  by (simp add: prf_input_def key_len_def)

lemma take_prf_input [simp]:
  "length k = 16 \<Longrightarrow> take (key_len del) (prf_input del k op s f) = take (key_len del) k"
  by (simp add: prf_input_def key_len_def)

lemma prf_input_cong:
  "take (key_len del) k = take (key_len del) k' \<Longrightarrow> prf_input del k op s f = prf_input del k' op s f"
  by (simp add: prf_input_def)

lemma prf_input_inj:
  assumes "length k = 16" "length k' = 16"
    and "prf_input del k op s f = prf_input del k' op' s' f'"
  shows "take (key_len del) k = take (key_len del) k' \<and> (del \<longrightarrow> le_bytes 4 s = le_bytes 4 s')
         \<and> le_bytes 4 f = le_bytes 4 f'"
  using assms by (cases del) (auto simp: prf_input_def key_len_def append_eq_append_conv)

lemma request_tokens_eq:
  assumes "length k = 16"
  shows "snd (request_tokens prg del s is k) = map (\<lambda>i. prg (prf_input del k 0 s i)) is \<and>
         fst (request_tokens prg del s is k) = (if is = [] then k else prf_input del k 0 s (last is))"
  using assms
proof (induction "is" arbitrary: k)
  case Nil
  then show ?case by simp
next
  case (Cons i "is")
  let ?k = "prf_input del k 0 s i"
  have c: "prf_input del ?k 0 s j = prf_input del k 0 s j" for j
    by (rule prf_input_cong) (simp add: Cons.prems)
  have "length ?k = 16" using Cons.prems by simp
  from Cons.IH[OF this] show ?case
    by (auto simp: getAESRandomValue_eq[OF Cons.prems] c split: prod.splits if_splits)
qed

section \<open>Unmasking\<close>

definition enc_entry :: "(nat \<Rightarrow> nat) \<Rightarrow> prf_type \<Rightarrow> nat \<Rightarrow> OP \<times> int \<Rightarrow> prf_type" where
  "enc_entry rnd m ri e = bitwiseXOR_op rnd ri (snd e) (op_val (fst e)) m"

lemma length_enc_entry [simp]: "length (enc_entry rnd m ri e) = 16"
  by (simp add: enc_entry_def bitwiseXOR_op_def AES_KEY_SIZE_def)

lemma op_val_byte: "uint (word_of_int (op_val op AND 255) :: byte) = op_val op"
  by (cases op) simp_all

lemma xor_cancel_byte: "(m :: byte) XOR (m XOR x) = x"
  by (simp add: xor.assoc[symmetric])

lemma decode_enc_prefix:
  assumes "length m = 16"
  shows "take 5 (bitwiseXOR m (enc_entry rnd m ri e)) =
           le_bytes 4 (snd e) @ [word_of_int (op_val (fst e) AND 255)]"
proof -
  obtain m0 m1 m2 m3 m4 ms where m: "m = m0 # m1 # m2 # m3 # m4 # ms"
    using assms by (auto simp: length_Suc_conv numeral_eq_Suc)
  show ?thesis
    by (simp add: m bitwiseXOR_def enc_entry_def bitwiseXOR_op_def xor_bytes_def le_bytes_4_shifts
        xor_cancel_byte)
qed

lemma decode_enc:
  assumes "length m = 16" "in_int32 x"
  shows "le_int32 (bitwiseXOR m (enc_entry rnd m ri (op, x))) = x"
    and "uint (bitwiseXOR m (enc_entry rnd m ri (op, x)) ! 4) = op_val op"
proof -
  let ?p = "bitwiseXOR m (enc_entry rnd m ri (op, x))"
  have t: "take 5 ?p = le_bytes 4 x @ [word_of_int (op_val op AND 255)]"
    using decode_enc_prefix[OF assms(1), of rnd ri "(op, x)"] by simp
  have "take 4 ?p = take 4 (take 5 ?p)" by (simp add: min_def)
  also have "\<dots> = le_bytes 4 x" by (simp add: t)
  finally have "le_int32 ?p = le_int32 (le_bytes 4 x @ [])"
    by (simp add: le_int32_def)
  then show "le_int32 ?p = x" using assms(2) by (simp only: le_int32_le_bytes)
  have "?p ! 4 = take 5 ?p ! 4" by simp
  then show "uint (?p ! 4) = op_val op" by (simp only: t) (simp add: nth_append op_val_byte)
qed


section \<open>What a search is to return\<close>

text \<open>The client adds \<open>2 * op - 1\<close>: minus one for an insertion, and takes the negative sums as results.\<close>

definition delta :: "OP \<Rightarrow> int" where
  "delta op = 2 * op_val op - 1"

lemma matching_negative: "map fst (filter (\<lambda>e. snd e < 0) (fold (tally_add delta) log [])) = matching log"
  by (rule matching_tally) (auto simp: delta_def)

lemma decode_entries_eq:
  assumes "length k = 16"
    and "\<forall>i < length log. length (prg (prf_input del k 1 s (cnt + int i))) = 16"
    and "\<forall>e \<in> set log. in_int32 (snd e)"
    and "length es = length log"
    and "\<forall>i < length log. \<exists>ri. es ! i = enc_entry rnd (prg (prf_input del k 1 s (cnt + int i))) ri (log ! i)"
  shows "decode_entries prg del s cnt es k rm =
    (if log = [] then k else prf_input del k 1 s (cnt + int (length log) - 1), fold (tally_add delta) log rm)"
  using assms
proof (induction log arbitrary: es k cnt rm)
  case Nil
  then show ?case by simp
next
  case (Cons e log)
  obtain op x where e: "e = (op, x)" by force
  obtain y ys where es: "es = y # ys" using Cons.prems(4) by (cases es) auto
  let ?k = "prf_input del k 1 s cnt"
  let ?m = "prg ?k"
  have m: "length ?m = 16" using Cons.prems(2) by (auto dest: spec[of _ 0])
  have x: "in_int32 x" using Cons.prems(3) e by simp
  obtain ri where y: "y = enc_entry rnd ?m ri (op, x)"
    using Cons.prems(5) es e by (auto dest: spec[of _ 0])
  have c: "prf_input del ?k 1 s j = prf_input del k 1 s j" for j
    by (rule prf_input_cong) (simp add: Cons.prems(1))
  have step: "\<And>i. i < length log \<Longrightarrow> Suc i < length (e # log)" by simp
  have "decode_entries prg del s (cnt + 1) ys ?k (tally_add delta e rm) =
    (if log = [] then ?k else prf_input del ?k 1 s (cnt + 1 + int (length log) - 1),
     fold (tally_add delta) log (tally_add delta e rm))"
  proof (rule Cons.IH)
    show "length ?k = 16" using Cons.prems(1) by simp
    show "\<forall>i<length log. length (prg (prf_input del ?k 1 s (cnt + 1 + int i))) = 16"
    proof (intro allI impI)
      fix i assume "i < length log"
      with Cons.prems(2)[rule_format, of "Suc i"]
      show "length (prg (prf_input del ?k 1 s (cnt + 1 + int i))) = 16"
        by (simp add: c algebra_simps)
    qed
    show "\<forall>e\<in>set log. in_int32 (snd e)" using Cons.prems(3) by simp
    show "length ys = length log" using Cons.prems(4) es by simp
    show "\<forall>i<length log. \<exists>ri. ys ! i = enc_entry rnd (prg (prf_input del ?k 1 s (cnt + 1 + int i))) ri (log ! i)"
    proof (intro allI impI)
      fix i assume "i < length log"
      with Cons.prems(5)[rule_format, of "Suc i"]
      show "\<exists>ri. ys ! i = enc_entry rnd (prg (prf_input del ?k 1 s (cnt + 1 + int i))) ri (log ! i)"
        by (simp add: c es algebra_simps)
    qed
  qed
  moreover have "decode_entries prg del s cnt es k rm = decode_entries prg del s (cnt + 1) ys ?k (tally_add delta e rm)"
    by (simp add: es getAESRandomValue_eq[OF Cons.prems(1)] y decode_enc[OF m x] tally_add_def e delta_def)
  ultimately show ?case by (simp add: c algebra_simps)
qed

lemma clean_entries_results:
  "fst (snd (snd (snd (clean_entries prg rnd del s es k fc ri)))) = map fst (filter (\<lambda>e. snd e < 0) es)"
  by (induction es arbitrary: k fc ri) (auto simp: Let_def case_prod_beta)


section \<open>Runs of the scheme\<close>

datatype action = Update OP string int | Search string

fun mitra_run ::
    "(bytes \<Rightarrow> bytes) \<Rightarrow> (nat \<Rightarrow> nat) \<Rightarrow> action list \<Rightarrow> client \<times> server \<Rightarrow> ((client \<times> server) \<times> int list list) res" where
  "mitra_run prg rnd [] cs = Inr (cs, [])"
| "mitra_run prg rnd (Update op w x # acts) cs =
     bindE (update prg rnd op w x cs) (mitra_run prg rnd acts)"
| "mitra_run prg rnd (Search w # acts) cs =
     bindE (search prg rnd w cs) (\<lambda>(cs', r).
     bindE (mitra_run prg rnd acts cs') (\<lambda>(cs'', rs). Inr (cs'', r # rs)))"

text \<open>What the searches of a run are to return, from the logs of the keywords.\<close>

fun mitra_spec :: "(string \<Rightarrow> (OP \<times> int) list) \<Rightarrow> action list \<Rightarrow> int list list" where
  "mitra_spec L [] = []"
| "mitra_spec L (Update op w x # acts) = mitra_spec (L(w := L w @ [(op, x)])) acts"
| "mitra_spec L (Search w # acts) = matching (L w) # mitra_spec L acts"

text \<open>
  The conditions on a run: keywords short enough for the derivation block and free of zero
  characters, identifiers in \<open>int\<close>; no masked entry happens to be the zero block (each is with
  probability \<open>2\<^sup>-\<^sup>1\<^sup>2\<^sup>8\<close>, and the server takes that block for a missing entry); the derivation returns blocks and
  does not collide on the addresses of the keywords of the run.
\<close>

definition kw_ok :: "bool \<Rightarrow> string \<Rightarrow> bool" where
  "kw_ok del w \<longleftrightarrow> length w \<le> key_len del \<and> CHR 0x00 \<notin> set w"

fun act_ok :: "bool \<Rightarrow> action \<Rightarrow> bool" where
  "act_ok del (Update op w x) \<longleftrightarrow> kw_ok del w \<and> in_int32 x"
| "act_ok del (Search w) \<longleftrightarrow> kw_ok del w"

fun act_keyword :: "action \<Rightarrow> string" where
  "act_keyword (Update op w x) = w"
| "act_keyword (Search w) = w"

fun no_zero_entry :: "(bytes \<Rightarrow> bytes) \<Rightarrow> (nat \<Rightarrow> nat) \<Rightarrow> action list \<Rightarrow> client \<times> server \<Rightarrow> bool" where
  "no_zero_entry prg rnd [] cs \<longleftrightarrow> True"
| "no_zero_entry prg rnd (Update op w x # acts) cs \<longleftrightarrow>
     (case updateRequest prg rnd op w x (fst cs) of
        Inl e \<Rightarrow> False
      | Inr (c', addr, val) \<Rightarrow> val \<noteq> zero_block \<and> no_zero_entry prg rnd acts (c', server_update addr val (snd cs)))"
| "no_zero_entry prg rnd (Search w # acts) cs \<longleftrightarrow>
     (case search prg rnd w cs of
        Inl e \<Rightarrow> False
      | Inr (cs', r) \<Rightarrow> no_zero_entry prg rnd acts cs')"

definition kw_block :: "string \<Rightarrow> prf_type" where
  "kw_block w = str_bytes w @ replicate (16 - length w) 0"

text \<open>
  The inputs of the addresses for the keywords \<open>K\<close> and up to \<open>N\<close> updates of each, with the two search counters a keyword
  can have.
\<close>

definition address_inputs :: "bool \<Rightarrow> string set \<Rightarrow> int \<Rightarrow> prf_type set" where
  "address_inputs del K N =
     {prf_input del (kw_block w) 0 s f | w s f. w \<in> K \<and> (s = 0 \<or> s = 1) \<and> 0 < f \<and> f \<le> N}"

definition prf_good :: "(bytes \<Rightarrow> bytes) \<Rightarrow> bool \<Rightarrow> string set \<Rightarrow> int \<Rightarrow> bool" where
  "prf_good prg del K N \<longleftrightarrow>
     N < 2 ^ 31 \<and> inj_on prg (address_inputs del K N) \<and> (\<forall>k. length k = 16 \<longrightarrow> length (prg k) = 16)"

lemma length_kw_block [simp]: "kw_ok del w \<Longrightarrow> length (kw_block w) = 16"
  by (cases del) (auto simp: kw_block_def kw_ok_def key_len_def)

lemma keyword_block_eq: "kw_ok del w \<Longrightarrow> keyword_block w = Inr (kw_block w)"
  by (cases del) (auto simp: keyword_block_def copy_into_def copy_at_def zero_block_def AES_KEY_SIZE_def
      kw_ok_def key_len_def kw_block_def)

lemma take_kw_block:
  "kw_ok del w \<Longrightarrow> take (key_len del) (kw_block w) = str_bytes w @ replicate (key_len del - length w) 0"
  by (cases del) (auto simp: kw_ok_def key_len_def kw_block_def)

lemma str_bytes_zero_inj:
  assumes "CHR 0x00 \<notin> set v" "CHR 0x00 \<notin> set w"
    and "str_bytes v @ replicate m 0 = str_bytes w @ replicate n 0"
  shows "v = w"
proof -
  have z: "takeWhile (\<lambda>b. b \<noteq> 0) (str_bytes u @ replicate i 0) = str_bytes u"
    if "CHR 0x00 \<notin> set u" for u i
  proof -
    have "\<forall>b \<in> set (str_bytes u). b \<noteq> 0" using str_bytes_nonzero[OF that] by blast
    then show ?thesis
      by (cases i) (auto simp: takeWhile_append takeWhile_eq_all_conv)
  qed
  from assms have "str_bytes v = str_bytes w" by (metis z)
  then show ?thesis using inj_str_bytes by (simp add: inj_eq)
qed

lemma kw_block_inj:
  "kw_ok del v \<Longrightarrow> kw_ok del w \<Longrightarrow>
   take (key_len del) (kw_block v) = take (key_len del) (kw_block w) \<longleftrightarrow> v = w"
  by (auto simp: take_kw_block dest: str_bytes_zero_inj[rotated 2] simp: kw_ok_def)


section \<open>The invariant of a run\<close>

definition addr_of :: "(bytes \<Rightarrow> bytes) \<Rightarrow> bool \<Rightarrow> string \<Rightarrow> int \<Rightarrow> int \<Rightarrow> prf_type" where
  "addr_of prg del w s f = prg (prf_input del (kw_block w) 0 s f)"

definition mask_of :: "(bytes \<Rightarrow> bytes) \<Rightarrow> bool \<Rightarrow> string \<Rightarrow> int \<Rightarrow> prf_type" where
  "mask_of prg del w f = prg (prf_input del (kw_block w) 1 0 f)"

definition stored ::
    "(bytes \<Rightarrow> bytes) \<Rightarrow> (nat \<Rightarrow> nat) \<Rightarrow> bool \<Rightarrow> string \<Rightarrow> (OP \<times> int) list \<Rightarrow> (prf_type \<rightharpoonup> prf_type) \<Rightarrow> bool" where
  "stored prg rnd del w log D \<longleftrightarrow>
     (\<forall>i < length log. \<exists>ri. D (addr_of prg del w 0 (1 + int i)) =
           Some (enc_entry rnd (mask_of prg del w (1 + int i)) ri (log ! i)) \<and>
         enc_entry rnd (mask_of prg del w (1 + int i)) ri (log ! i) \<noteq> zero_block)"

definition mitra_inv ::
    "(bytes \<Rightarrow> bytes) \<Rightarrow> (nat \<Rightarrow> nat) \<Rightarrow> bool \<Rightarrow> int \<Rightarrow> (string \<Rightarrow> (OP \<times> int) list) \<Rightarrow> client \<times> server \<Rightarrow> bool" where
  "mitra_inv prg rnd del N L cs \<longleftrightarrow>
     deleteFiles (fst cs) = del \<and> \<not> setupMode (fst cs) \<and> \<not> useRocksDB (snd cs) \<and>
     (\<forall>w. kw_ok del w \<longrightarrow>
        FileCnt (fst cs) (kw_block w) = (if L w = [] then None else Some (int (length (L w)))) \<and>
        (SrcCnt (fst cs) (kw_block w) = None \<or> SrcCnt (fst cs) (kw_block w) = Some 0) \<and>
        int (length (L w)) \<le> N \<and> (\<forall>e \<in> set (L w). in_int32 (snd e)) \<and>
        stored prg rnd del w (L w) (DictW (snd cs)))"

lemma mitra_inv_init: "0 \<le> N \<Longrightarrow> mitra_inv prg rnd del N (\<lambda>_. []) (Client del, Server hdd del)"
  by (simp add: mitra_inv_def Client_def Server_def stored_def)

lemma addr_of_inj:
  assumes "prf_good prg del K N" "kw_ok del v" "kw_ok del w" "v \<in> K" "w \<in> K"
    and "s = 0 \<or> s = 1" "s' = 0 \<or> s' = 1" "0 < f" "f \<le> N" "0 < f'" "f' \<le> N"
    and "addr_of prg del v s f = addr_of prg del w s' f'"
  shows "v = w \<and> f = f' \<and> (del \<longrightarrow> s = s')"
proof -
  have N: "N < 2 ^ 31" using assms(1) by (simp add: prf_good_def)
  have "prf_input del (kw_block v) 0 s f \<in> address_inputs del K N"
    "prf_input del (kw_block w) 0 s' f' \<in> address_inputs del K N"
    using assms unfolding address_inputs_def by blast+
  with assms(1,12) have eq: "prf_input del (kw_block v) 0 s f = prf_input del (kw_block w) 0 s' f'"
    by (auto simp: prf_good_def addr_of_def inj_on_def)
  from prf_input_inj[OF _ _ this] assms(2,3)
  have p: "take (key_len del) (kw_block v) = take (key_len del) (kw_block w)"
    "del \<longrightarrow> le_bytes 4 s = le_bytes 4 s'" "le_bytes 4 f = le_bytes 4 f'" by simp_all
  have "in_int32 f" "in_int32 f'" "in_int32 s" "in_int32 s'"
    using assms(6-11) N by (auto simp: in_int32_def)
  with p show ?thesis
    using kw_block_inj[OF assms(2,3)] le_bytes_4_int32_inj by blast
qed

lemma server_search_present:
  assumes "\<not> useRocksDB s" "\<forall>k \<in> set ks. \<exists>v. DictW s k = Some v \<and> v \<noteq> zero_block"
  shows "server_search ks s = (s, map (\<lambda>k. the (DictW s k)) ks)"
  using assms
proof (induction ks)
  case Nil
  then show ?case by simp
next
  case (Cons k ks)
  then obtain v where v: "DictW s k = Some v" "v \<noteq> zero_block" by auto
  then have "s\<lparr>DictW := (DictW s)(k \<mapsto> v)\<rparr> = s" by (simp add: fun_upd_idem)
  with Cons v show ?case by simp
qed

text \<open>A buffer the derivation has written to is never the block of an admissible keyword.\<close>

lemma prf_input_not_kw_block:
  assumes "0 < f" "f < 2 ^ 31" "kw_ok del w" "length k = 16"
  shows "prf_input del k op s f \<noteq> kw_block w"
proof
  assume eq: "prf_input del k op s f = kw_block w"
  have "drop 12 (prf_input del k op s f) = le_bytes 4 f"
    using assms(4) by (cases del) (simp_all add: prf_input_def key_len_def)
  moreover have "drop 12 (kw_block w) = replicate 4 0"
    using assms(3) by (cases del) (auto simp: kw_block_def kw_ok_def key_len_def)
  moreover have "le_bytes 4 0 = replicate 4 (0 :: byte)"
    by (simp add: numeral_eq_Suc)
  ultimately have "le_bytes 4 f = le_bytes 4 0" using eq by simp
  with assms show False
    using le_bytes_4_int32_inj[of f 0] by (simp add: in_int32_def)
qed

lemma clean_entries_plain:
  "clean_entries prg rnd False s es k fc ri =
     (k, fc, ri, map fst (filter (\<lambda>e. snd e < 0) es), [])"
  by (induction es arbitrary: k fc ri) auto

lemma clean_entries_written:
  assumes "length k = 16" "take (key_len True) k = take (key_len True) (kw_block w)" "kw_ok True w"
    and "clean_entries prg rnd True s es k fc ri = (k', fc', ri', res, prs)"
  shows "fc \<le> fc' \<and> fc' \<le> fc + int (length es)
       \<and> (\<forall>(a, v) \<in> set prs. \<exists>f. fc < f \<and> f \<le> fc' \<and> a = addr_of prg True w s f)
       \<and> (k' = k \<or> (\<exists>op f. fc < f \<and> f \<le> fc' \<and> k' = prf_input True (kw_block w) op s f))"
  using assms
proof (induction es arbitrary: k fc ri k' fc' ri' res prs)
  case Nil
  then show ?case by simp
next
  case (Cons e es)
  obtain x n where e: "e = (x, n)" by force
  show ?case
  proof (cases "n < 0")
    case False
    with Cons.prems e have "clean_entries prg rnd True s es k fc ri = (k', fc', ri', res, prs)" by simp
    from Cons.IH[OF Cons.prems(1-3) this] show ?thesis by force
  next
    case True
    let ?k1 = "prf_input True k 0 s (fc + 1)"
    let ?k2 = "prf_input True ?k1 1 s (fc + 1)"
    have l1: "length ?k1 = 16" and l2: "length ?k2 = 16" using Cons.prems(1) by simp_all
    have k1: "?k1 = prf_input True (kw_block w) 0 s (fc + 1)"
      using Cons.prems(2) by (rule prf_input_cong)
    have k2: "?k2 = prf_input True (kw_block w) 1 s (fc + 1)"
      by (rule prf_input_cong) (simp add: Cons.prems)
    obtain k'' fc'' ri'' res'' prs'' where r:
      "clean_entries prg rnd True s es ?k2 (fc + 1) (ri + 11) = (k'', fc'', ri'', res'', prs'')"
      by (metis prod_cases5)
    have "k' = k'' \<and> fc' = fc'' \<and> prs = (prg ?k1, bitwiseXOR_op rnd ri x (op_val INS) (prg ?k2)) # prs''"
      using Cons.prems(4) True
      by (auto simp: e getAESRandomValue_eq[OF Cons.prems(1)] getAESRandomValue_eq[OF l1] r Let_def)
    then have out: "k' = k''" "fc' = fc''"
      "prs = (prg ?k1, bitwiseXOR_op rnd ri x (op_val INS) (prg ?k2)) # prs''" by simp_all
    have "take (key_len True) ?k2 = take (key_len True) (kw_block w)"
      by (simp add: k2 length_kw_block[OF Cons.prems(3)])
    from Cons.IH[OF l2 this Cons.prems(3) r]
    have ih: "fc + 1 \<le> fc''" "fc'' \<le> fc + 1 + int (length es)"
      "\<forall>(a, v) \<in> set prs''. \<exists>f. fc + 1 < f \<and> f \<le> fc'' \<and> a = addr_of prg True w s f"
      "k'' = ?k2 \<or> (\<exists>op f. fc + 1 < f \<and> f \<le> fc'' \<and> k'' = prf_input True (kw_block w) op s f)"
      by auto
    have "prg ?k1 = addr_of prg True w s (fc + 1)" by (simp add: addr_of_def k1)
    then have hd: "\<exists>f. fc < f \<and> f \<le> fc' \<and> prg ?k1 = addr_of prg True w s f"
      using ih(1) by (intro exI[of _ "fc + 1"]) (simp add: out)
    have "\<exists>f. fc < f \<and> f \<le> fc' \<and> a = addr_of prg True w s f" if "(a, v) \<in> set prs''" for a v
    proof -
      from ih(3) that obtain f where "fc + 1 < f" "f \<le> fc''" "a = addr_of prg True w s f" by blast
      then show ?thesis by (intro exI[of _ f]) (simp add: out)
    qed
    with hd have "\<forall>(a, v) \<in> set prs. \<exists>f. fc < f \<and> f \<le> fc' \<and> a = addr_of prg True w s f"
      by (auto simp: out)
    moreover have "\<exists>op f. fc < f \<and> f \<le> fc' \<and> k' = prf_input True (kw_block w) op s f"
      using ih(4)
    proof
      assume "k'' = ?k2"
      then have "fc < fc + 1 \<and> fc + 1 \<le> fc' \<and> k' = prf_input True (kw_block w) 1 s (fc + 1)"
        using ih(1) by (simp add: out k2)
      then show ?thesis by blast
    next
      assume "\<exists>op f. fc + 1 < f \<and> f \<le> fc'' \<and> k'' = prf_input True (kw_block w) op s f"
      then obtain op f where "fc + 1 < f" "f \<le> fc''" "k'' = prf_input True (kw_block w) op s f" by blast
      then have "fc < f \<and> f \<le> fc' \<and> k' = prf_input True (kw_block w) op s f" by (simp add: out)
      then show ?thesis by blast
    qed
    ultimately show ?thesis using ih(1,2) by (simp add: out)
  qed
qed

lemma server_update_mode [simp]: "useRocksDB (server_update a v s) = useRocksDB s"
  by (simp add: server_update_def)

lemma server_update_other: "\<not> useRocksDB s \<Longrightarrow> b \<noteq> a \<Longrightarrow> DictW (server_update a v s) b = DictW s b"
  by (simp add: server_update_def)

lemma fold_server_update_mode [simp]:
  "useRocksDB (fold (\<lambda>(a, v). server_update a v) prs s) = useRocksDB s"
proof (induction prs arbitrary: s)
  case Nil
  show ?case by simp
next
  case (Cons e prs)
  show ?case using Cons[of "case e of (a, v) \<Rightarrow> server_update a v s"] by (cases e) simp
qed

lemma fold_server_update_other:
  assumes "\<not> useRocksDB s" "b \<notin> fst ` set prs"
  shows "DictW (fold (\<lambda>(a, v). server_update a v) prs s) b = DictW s b"
  using assms
proof (induction prs arbitrary: s)
  case Nil
  then show ?case by simp
next
  case (Cons e prs)
  obtain a v where e: "e = (a, v)" by force
  show ?case using Cons.IH[of "server_update a v s"] Cons.prems by (simp add: e server_update_other)
qed

subsection \<open>Every operation keeps the invariant\<close>

lemma updateRequest_eq:
  assumes "mitra_inv prg rnd del N L (c, s)" "kw_ok del w"
  shows "\<exists>c'. updateRequest prg rnd op w x c = Inr (c', addr_of prg del w 0 (1 + int (length (L w))),
                enc_entry rnd (mask_of prg del w (1 + int (length (L w)))) (randIdx c) (op, x)) \<and>
             deleteFiles c' = del \<and> \<not> setupMode c' \<and>
             FileCnt c' = (FileCnt c)(kw_block w \<mapsto> 1 + int (length (L w))) \<and>
             SrcCnt c' = (if del then (SrcCnt c)(kw_block w \<mapsto> 0) else SrcCnt c)"
proof -
  have l: "length (kw_block w) = 16" using assms(2) by simp
  have d: "deleteFiles c = del" "\<not> setupMode c" using assms(1) by (simp_all add: mitra_inv_def)
  have f: "FileCnt c (kw_block w) = (if L w = [] then None else Some (int (length (L w))))"
    and sc: "SrcCnt c (kw_block w) = None \<or> SrcCnt c (kw_block w) = Some 0"
    using assms by (simp_all add: mitra_inv_def)
  have cnt: "(case FileCnt c (kw_block w) of None \<Rightarrow> 1 | Some n \<Rightarrow> n + 1) = 1 + int (length (L w))"
    by (simp add: f)
  have src: "(if del then (case SrcCnt c (kw_block w) of None \<Rightarrow> 0 | Some n \<Rightarrow> n) else 0) = 0"
    using sc by auto
  have b: "prf_input del (prf_input del (kw_block w) 0 0 n) 1 0 n = prf_input del (kw_block w) 1 0 n" for n
    by (rule prf_input_cong) (simp add: l)
  have l2: "length (prf_input del (kw_block w) 0 0 n) = 16" for n using l by simp
  show ?thesis
    unfolding updateRequest_def keyword_block_eq[OF assms(2)] bindE_simps d(1) cnt src
    by (simp add: Let_def getAESRandomValue_eq[OF l] getAESRandomValue_eq[OF l2] b
        addr_of_def mask_of_def enc_entry_def d)
qed

lemma stored_put:
  assumes "stored prg rnd del w log D" "\<forall>i < length log. addr_of prg del w 0 (1 + int i) \<noteq> a"
  shows "stored prg rnd del w log (D(a \<mapsto> v))"
  using assms by (auto simp: stored_def)

lemma stored_snoc:
  assumes "stored prg rnd del w log D"
    and "D (addr_of prg del w 0 (1 + int (length log))) =
           Some (enc_entry rnd (mask_of prg del w (1 + int (length log))) ri e)"
    and "enc_entry rnd (mask_of prg del w (1 + int (length log))) ri e \<noteq> zero_block"
  shows "stored prg rnd del w (log @ [e]) D"
  using assms by (auto simp: stored_def nth_append less_Suc_eq)

lemma mitra_inv_update:
  assumes inv: "mitra_inv prg rnd del N L (c, s)" and w: "kw_ok del w" and x: "in_int32 x"
    and N: "int (length (L w)) < N" and pg: "prf_good prg del K N" and K: "w \<in> K" "\<forall>v. L v \<noteq> [] \<longrightarrow> v \<in> K"
    and req: "updateRequest prg rnd op w x c = Inr (c', addr, val)" and nz: "val \<noteq> zero_block"
  shows "update prg rnd op w x (c, s) = Inr (c', server_update addr val s)"
    and "mitra_inv prg rnd del N (L(w := L w @ [(op, x)])) (c', server_update addr val s)"
proof -
  let ?n = "1 + int (length (L w))"
  from updateRequest_eq[OF inv w, of op x] req
  have a: "addr = addr_of prg del w 0 ?n" and v: "val = enc_entry rnd (mask_of prg del w ?n) (randIdx c) (op, x)"
    and c': "deleteFiles c' = del" "\<not> setupMode c'" "FileCnt c' = (FileCnt c)(kw_block w \<mapsto> ?n)"
      "SrcCnt c' = (if del then (SrcCnt c)(kw_block w \<mapsto> 0) else SrcCnt c)"
    by auto
  have s: "\<not> useRocksDB s" "\<not> setupMode c" using inv by (simp_all add: mitra_inv_def)
  show "update prg rnd op w x (c, s) = Inr (c', server_update addr val s)"
    by (simp add: update_def req s)
  have sep: "addr_of prg del u 0 (1 + int i) \<noteq> addr" if "kw_ok del u" "i < length (L u)" for u i
  proof
    assume "addr_of prg del u 0 (1 + int i) = addr"
    moreover have "1 + int i \<le> N" using inv that by (force simp: mitra_inv_def)
    moreover have "L u \<noteq> []" using that(2) by auto
    then have "u \<in> K" using K(2) by blast
    ultimately have "u = w \<and> 1 + int i = ?n"
      using addr_of_inj[OF pg that(1) w _ K(1), of 0 0 "1 + int i" ?n] N by (auto simp: a)
    then show False using that by auto
  qed
  have "stored prg rnd del u ((L(w := L w @ [(op, x)])) u) ((DictW s)(addr \<mapsto> val))" if "kw_ok del u" for u
  proof -
    have "stored prg rnd del u (L u) ((DictW s)(addr \<mapsto> val))"
      using inv that sep[OF that] by (intro stored_put) (auto simp: mitra_inv_def)
    then show ?thesis
      using nz by (cases "u = w") (auto simp: a v intro: stored_snoc)
  qed
  moreover have "kw_block u \<noteq> kw_block w" if "kw_ok del u" "u \<noteq> w" for u
    using kw_block_inj[OF that(1) w] that(2) by metis
  ultimately show "mitra_inv prg rnd del N (L(w := L w @ [(op, x)])) (c', server_update addr val s)"
    using inv N x unfolding mitra_inv_def
    by (auto simp: c' s server_update_def)
qed

lemma mitra_search_tokens:
  assumes inv: "mitra_inv prg rnd del N L (c, s)" and w: "kw_ok del w" and pg: "prf_good prg del K N"
    and ne: "L w \<noteq> []"
  defines "n \<equiv> int (length (L w))"
  shows "request_tokens prg del 0 [1..n] (kw_block w) =
           (prf_input del (kw_block w) 0 0 n, map (addr_of prg del w 0) [1..n])"
    and "\<exists>es. server_search (map (addr_of prg del w 0) [1..n]) s = (s, es) \<and>
           decode_entries prg del 0 1 es (prf_input del (kw_block w) 0 0 n) [] =
             (prf_input del (kw_block w) 1 0 n, fold (tally_add delta) (L w) [])"
proof -
  have l: "length (kw_block w) = 16" using w by simp
  have "1 \<le> n" using ne by (simp add: n_def Suc_le_eq)
  then have last: "[1..n] \<noteq> []" "last [1..n] = n" by (simp_all add: upto_rec2)
  from request_tokens_eq[OF l, of prg del 0 "[1..n]"] last
  show "request_tokens prg del 0 [1..n] (kw_block w) =
           (prf_input del (kw_block w) 0 0 n, map (addr_of prg del w 0) [1..n])"
    by (auto simp: addr_of_def prod_eq_iff)
  have st: "stored prg rnd del w (L w) (DictW s)" and ids: "\<forall>e \<in> set (L w). in_int32 (snd e)"
    and db: "\<not> useRocksDB s"
    using inv w by (auto simp: mitra_inv_def)
  have up: "[1..n] = map (\<lambda>i. 1 + int i) [0..<length (L w)]"
    by (rule nth_equalityI) (simp_all add: n_def)
  let ?es = "map (\<lambda>k. the (DictW s k)) (map (addr_of prg del w 0) [1..n])"
  have "server_search (map (addr_of prg del w 0) [1..n]) s = (s, ?es)"
    using st by (intro server_search_present[OF db]) (fastforce simp: up stored_def)
  moreover have "decode_entries prg del 0 1 ?es (prf_input del (kw_block w) 0 0 n) [] =
      (if L w = [] then prf_input del (kw_block w) 0 0 n
       else prf_input del (prf_input del (kw_block w) 0 0 n) 1 0 (1 + int (length (L w)) - 1),
       fold (tally_add delta) (L w) [])"
  proof (rule decode_entries_eq[where rnd = rnd])
    have c: "prf_input del (prf_input del (kw_block w) 0 0 n) 1 0 j = prf_input del (kw_block w) 1 0 j" for j
      by (rule prf_input_cong) (simp add: l)
    show "\<forall>i<length (L w). length (prg (prf_input del (prf_input del (kw_block w) 0 0 n) 1 0 (1 + int i))) = 16"
      using pg l by (simp add: prf_good_def)
    show "\<forall>i<length (L w). \<exists>ri. ?es ! i =
        enc_entry rnd (prg (prf_input del (prf_input del (kw_block w) 0 0 n) 1 0 (1 + int i))) ri (L w ! i)"
      using st by (fastforce simp: up stored_def c mask_of_def)
  qed (use l ids in \<open>simp_all add: up\<close>)
  ultimately show "\<exists>es. server_search (map (addr_of prg del w 0) [1..n]) s = (s, es) \<and>
           decode_entries prg del 0 1 es (prf_input del (kw_block w) 0 0 n) [] =
             (prf_input del (kw_block w) 1 0 n, fold (tally_add delta) (L w) [])"
    using ne prf_input_cong[of del "prf_input del (kw_block w) 0 0 n" "kw_block w"] l
    by (auto simp: n_def)
qed


lemma mitra_inv_frame:
  assumes "mitra_inv prg rnd del N L (c, s)" "deleteFiles c' = deleteFiles c" "setupMode c' = setupMode c"
    "FileCnt c' = FileCnt c" "SrcCnt c' = SrcCnt c"
  shows "mitra_inv prg rnd del N L (c', s)"
  using assms by (simp add: mitra_inv_def)

lemma mitra_inv_step:
  assumes "mitra_inv prg rnd del N L (c, s)" "deleteFiles c' = del" "\<not> setupMode c'" "\<not> useRocksDB s'"
    and "\<And>u. kw_ok del u \<Longrightarrow> FileCnt c' (kw_block u) = FileCnt c (kw_block u)"
    and "\<And>u. kw_ok del u \<Longrightarrow>
           SrcCnt c' (kw_block u) = SrcCnt c (kw_block u) \<or> SrcCnt c' (kw_block u) = Some 0"
    and "\<And>u. kw_ok del u \<Longrightarrow> stored prg rnd del u (L u) (DictW s')"
  shows "mitra_inv prg rnd del N L (c', s')"
proof -
  have "SrcCnt c' (kw_block u) = None \<or> SrcCnt c' (kw_block u) = Some 0" if "kw_ok del u" for u
    using assms(1) assms(6)[OF that] that by (auto simp: mitra_inv_def)
  then show ?thesis using assms(1-5,7) by (simp add: mitra_inv_def)
qed

lemma search_plain_state:
  assumes inv: "mitra_inv prg rnd False N L (c, s)" and w: "kw_ok False w" and pg: "prf_good prg False K N"
  shows "\<exists>cs'. search prg rnd w (c, s) = Inr (cs', matching (L w)) \<and> mitra_inv prg rnd False N L cs'"
proof (cases "L w = []")
  case True
  then have "FileCnt c (kw_block w) = None" using inv w by (simp add: mitra_inv_def)
  then have "search prg rnd w (c, s) = Inr ((c\<lparr>totalSearchCommSize := 0\<rparr>, s), [])"
    by (simp add: search_def keyword_block_eq[OF w])
  moreover have "matching (L w) = []" by (simp add: True matching_def)
  ultimately show ?thesis using inv by (simp add: mitra_inv_def)
next
  case False
  have f: "FileCnt c (kw_block w) = Some (int (length (L w)))" and d: "\<not> deleteFiles c"
    using inv w False by (simp_all add: mitra_inv_def)
  note t = mitra_search_tokens[OF inv w pg False]
  from t(2) obtain es where es: "server_search (map (addr_of prg False w 0) [1..int (length (L w))]) s = (s, es)"
    "decode_entries prg False 0 1 es (prf_input False (kw_block w) 0 0 (int (length (L w)))) [] =
       (prf_input False (kw_block w) 1 0 (int (length (L w))), fold (tally_add delta) (L w) [])" by blast
  have "\<exists>c'. search prg rnd w (c, s) = Inr ((c', s), matching (L w)) \<and> deleteFiles c' = deleteFiles c \<and>
      setupMode c' = setupMode c \<and> FileCnt c' = FileCnt c \<and> SrcCnt c' = SrcCnt c"
    by (simp add: search_def keyword_block_eq[OF w] f d t(1) es clean_entries_plain matching_negative Let_def)
  then show ?thesis using mitra_inv_frame[OF inv] by blast
qed

lemma search_clean_state:
  assumes inv: "mitra_inv prg rnd True N L (c, s)" and w: "kw_ok True w" and pg: "prf_good prg True K N"
    and K: "\<forall>v. L v \<noteq> [] \<longrightarrow> v \<in> K"
  shows "\<exists>cs'. search prg rnd w (c, s) = Inr (cs', matching (L w)) \<and> mitra_inv prg rnd True N L cs'"
proof (cases "L w = []")
  case True
  then have "FileCnt c (kw_block w) = None" using inv w by (simp add: mitra_inv_def)
  then have "search prg rnd w (c, s) = Inr ((c\<lparr>totalSearchCommSize := 0\<rparr>, s), [])"
    by (simp add: search_def keyword_block_eq[OF w])
  moreover have "matching (L w) = []" by (simp add: True matching_def)
  ultimately show ?thesis using inv by (simp add: mitra_inv_def)
next
  case False
  let ?n = "int (length (L w))"
  let ?k2 = "prf_input True (kw_block w) 1 0 ?n"
  have f: "FileCnt c (kw_block w) = Some ?n" and d: "deleteFiles c" and db: "\<not> useRocksDB s"
    and N: "?n \<le> N" "0 < ?n" and sm: "\<not> setupMode c"
    and sc: "SrcCnt c (kw_block w) = None \<or> SrcCnt c (kw_block w) = Some 0"
    using inv w False by (auto simp: mitra_inv_def)
  have N31: "N < 2 ^ 31" using pg by (simp add: prf_good_def)
  have l: "length (kw_block w) = 16" using w by simp
  have src: "(case SrcCnt c (kw_block w) of None \<Rightarrow> 0 | Some n \<Rightarrow> n) = 0" using sc by auto
  note t = mitra_search_tokens[OF inv w pg False]
  from t(2) obtain es where es: "server_search (map (addr_of prg True w 0) [1..?n]) s = (s, es)"
    "decode_entries prg True 0 1 es (prf_input True (kw_block w) 0 0 ?n) [] = (?k2, fold (tally_add delta) (L w) [])"
    by blast
  obtain k3 fc ri res prs where cl:
    "clean_entries prg rnd True 1 (fold (tally_add delta) (L w) []) ?k2 0 (randIdx c) = (k3, fc, ri, res, prs)"
    by (metis prod_cases5)
  have res: "res = matching (L w)"
    using clean_entries_results[of prg rnd True 1 "fold (tally_add delta) (L w) []" ?k2 0 "randIdx c"]
    by (simp add: cl matching_negative)
  have "int (length (fold (tally_add delta) (L w) [])) \<le> ?n" using length_tally[of delta "L w" "[]"] by simp
  with clean_entries_written[OF _ _ w cl] l
  have wr: "0 \<le> fc" "fc \<le> ?n" "\<forall>(a, v) \<in> set prs. \<exists>f. 0 < f \<and> f \<le> fc \<and> a = addr_of prg True w 1 f"
    "k3 = ?k2 \<or> (\<exists>op f. 0 < f \<and> f \<le> fc \<and> k3 = prf_input True (kw_block w) op 1 f)" by auto
  have k2: "?k2 \<noteq> kw_block u" if "kw_ok True u" for u
    using N N31 that l by (intro prf_input_not_kw_block) auto
  have k3: "k3 \<noteq> kw_block u" if "kw_ok True u" for u
    using wr(2,4) k2[OF that] N N31 that l prf_input_not_kw_block by fastforce
  let ?s = "fold (\<lambda>(a, v). server_update a v) prs s"
  have out: "\<exists>c'. search prg rnd w (c, s) = Inr ((c', ?s), matching (L w)) \<and> deleteFiles c' \<and> \<not> setupMode c' \<and>
      FileCnt c' = (FileCnt c)(k3 \<mapsto> fc) \<and> (\<exists>v. SrcCnt c' = (SrcCnt c)(kw_block w \<mapsto> 0, ?k2 \<mapsto> v))"
    by (simp add: search_def keyword_block_eq[OF w] f d src t(1) es cl res sm Let_def) blast
  have dict: "DictW ?s (addr_of prg True u 0 (1 + int i)) = DictW s (addr_of prg True u 0 (1 + int i))"
    if "kw_ok True u" "i < length (L u)" for u i
  proof (rule fold_server_update_other[OF db])
    have i: "1 + int i \<le> N" using inv that by (force simp: mitra_inv_def)
    show "addr_of prg True u 0 (1 + int i) \<notin> fst ` set prs"
    proof
      assume "addr_of prg True u 0 (1 + int i) \<in> fst ` set prs"
      with wr(3) obtain g where "0 < g" "g \<le> fc" "addr_of prg True u 0 (1 + int i) = addr_of prg True w 1 g"
        by fastforce
      moreover have "L u \<noteq> []" using that(2) by auto
      then have "u \<in> K" "w \<in> K" using K False by blast+
      ultimately show False using addr_of_inj[OF pg that(1) w, of 0 1 "1 + int i" g] i wr(2) N(1) by simp
    qed
  qed
  then have st: "stored prg rnd True u (L u) (DictW ?s)" if "kw_ok True u" for u
    using inv that by (auto simp: mitra_inv_def stored_def)
  have db': "\<not> useRocksDB ?s" using db by simp
  obtain c' v where c': "search prg rnd w (c, s) = Inr ((c', ?s), matching (L w))" "deleteFiles c'"
    "\<not> setupMode c'" "FileCnt c' = (FileCnt c)(k3 \<mapsto> fc)" "SrcCnt c' = (SrcCnt c)(kw_block w \<mapsto> 0, ?k2 \<mapsto> v)"
    using out by blast
  have cnt: "FileCnt c' (kw_block u) = FileCnt c (kw_block u)"
    "SrcCnt c' (kw_block u) = SrcCnt c (kw_block u) \<or> SrcCnt c' (kw_block u) = Some 0" if "kw_ok True u" for u
    using k2[OF that] k3[OF that] by (auto simp: c'(4,5))
  have "mitra_inv prg rnd True N L (c', ?s)"
    by (rule mitra_inv_step[OF inv _ c'(3) db' cnt st]) (simp_all add: c'(2))
  with c'(1) show ?thesis by blast
qed

lemma mitra_inv_search:
  assumes "mitra_inv prg rnd del N L cs" "kw_ok del w" "prf_good prg del K N" "\<forall>v. L v \<noteq> [] \<longrightarrow> v \<in> K"
  shows "\<exists>cs'. search prg rnd w cs = Inr (cs', matching (L w)) \<and> mitra_inv prg rnd del N L cs'"
proof -
  obtain c s where cs: "cs = (c, s)" by force
  show ?thesis
  proof (cases del)
    case True
    then show ?thesis using assms search_clean_state[of prg rnd N L c s w K] by (simp add: cs)
  next
    case False
    then show ?thesis using assms search_plain_state[of prg rnd N L c s w K] by (simp add: cs)
  qed
qed

lemma mitra_run_inv:
  assumes "mitra_inv prg rnd del N L cs" "prf_good prg del K N" "\<forall>a \<in> set acts. act_ok del a \<and> act_keyword a \<in> K"
    and "no_zero_entry prg rnd acts cs"
    and "\<forall>w. int (length (L w)) + int (length acts) \<le> N" "\<forall>v. L v \<noteq> [] \<longrightarrow> v \<in> K"
  shows "\<exists>cs'. mitra_run prg rnd acts cs = Inr (cs', mitra_spec L acts)"
  using assms
proof (induction acts arbitrary: L cs)
  case Nil
  then show ?case by simp
next
  case (Cons a acts)
  obtain c s where cs: "cs = (c, s)" by force
  show ?case
  proof (cases a)
    case (Search w)
    have w: "kw_ok del w" using Cons.prems(3) by (simp add: Search)
    from mitra_inv_search[OF Cons.prems(1) w Cons.prems(2,6)]
    obtain cs' where r: "search prg rnd w cs = Inr (cs', matching (L w))" "mitra_inv prg rnd del N L cs'" by blast
    have "no_zero_entry prg rnd acts cs'" using Cons.prems(4) by (simp add: Search r)
    moreover have "\<forall>w. int (length (L w)) + int (length acts) \<le> N"
    proof
      fix v show "int (length (L v)) + int (length acts) \<le> N"
        using Cons.prems(5)[rule_format, of v] by simp
    qed
    ultimately obtain cs'' where "mitra_run prg rnd acts cs' = Inr (cs'', mitra_spec L acts)"
      using Cons.IH[OF r(2) Cons.prems(2)] Cons.prems(3,6) by auto
    then show ?thesis by (simp add: Search r)
  next
    case (Update op w x)
    have w: "kw_ok del w" and x: "in_int32 x" and K: "w \<in> K" using Cons.prems(3) by (simp_all add: Update)
    obtain c' addr val where u: "updateRequest prg rnd op w x c = Inr (c', addr, val)" "val \<noteq> zero_block"
      "no_zero_entry prg rnd acts (c', server_update addr val s)"
      using Cons.prems(4) by (auto simp: Update cs split: sum.splits)
    have "int (length (L w)) < N" using Cons.prems(5)[rule_format, of w] by simp
    note st = mitra_inv_update[OF Cons.prems(1)[unfolded cs] w x this Cons.prems(2) K Cons.prems(6) u(1,2)]
    have "\<forall>v. int (length ((L(w := L w @ [(op, x)])) v)) + int (length acts) \<le> N"
    proof
      fix v show "int (length ((L(w := L w @ [(op, x)])) v)) + int (length acts) \<le> N"
        using Cons.prems(5)[rule_format, of v] by (cases "v = w") simp_all
    qed
    then obtain cs'' where "mitra_run prg rnd acts (c', server_update addr val s) =
        Inr (cs'', mitra_spec (L(w := L w @ [(op, x)])) acts)"
      using Cons.IH[OF st(2) Cons.prems(2) _ u(3)] Cons.prems(3,6) K by (metis fun_upd_apply list.set_intros(2))
    then show ?thesis by (simp add: Update cs st(1))
  qed
qed


section \<open>Properties\<close>

text \<open>
  C7. Every run of updates and searches from the initial state of \<open>Client\<close> and \<open>Server\<close>, with or without
  cleaning, completes without an error, and each search returns exactly the identifiers with more
  insertions than deletions so far, in increasing order. Conditions on the run: its keywords have no zero character and at most
  11 characters (7 with cleaning), its identifiers are of type \<open>int\<close>, it has fewer than \<open>2 ^ 31\<close> steps, and no masked entry is the zero
  block. The derivation is required to return blocks and not to collide on the addresses of the keywords of the run.
\<close>

theorem mitra_run_correct:
  assumes "prf_good prg del (act_keyword ` set acts) (int (length acts))" "\<forall>a \<in> set acts. act_ok del a"
    and "no_zero_entry prg rnd acts (Client del, Server hdd del)"
  shows "\<exists>cs. mitra_run prg rnd acts (Client del, Server hdd del) = Inr (cs, mitra_spec (\<lambda>_. []) acts)"
proof -
  have "\<forall>a \<in> set acts. act_ok del a \<and> act_keyword a \<in> act_keyword ` set acts" using assms(2) by blast
  from mitra_run_inv[OF mitra_inv_init assms(1) this assms(3)] show ?thesis by simp
qed

theorem mitra_run_correct_witness:
  "\<exists>cs. mitra_run (\<lambda>k. k) (\<lambda>_. 1)
      [Update INS ''test1'' 7, Update INS ''test1'' 3, Update DEL ''test1'' 7, Update INS ''test2'' 9,
       Search ''test1'', Search ''none'']
      (Client True, Server False True) = Inr (cs, [[3], []])"
proof -
  let ?acts = "[Update INS ''test1'' 7, Update INS ''test1'' 3, Update DEL ''test1'' 7, Update INS ''test2'' 9,
       Search ''test1'', Search ''none'']"
  have "no_zero_entry (\<lambda>k. k) (\<lambda>_. 1) ?acts (Client True, Server False True)" by code_simp
  moreover have "\<forall>a \<in> set ?acts. act_ok True a" by (simp add: kw_ok_def key_len_def in_int32_def)
  moreover have "mitra_spec (\<lambda>_. []) ?acts = [[3], []]" by code_simp
  ultimately show ?thesis
    using mitra_run_correct[of "\<lambda>k. k" True ?acts "\<lambda>_. 1" False] by (simp add: prf_good_def)
qed


text \<open>
  C10. Two keywords of at most 16 characters that agree on the characters the derivation keeps (11, or 7 with
  cleaning) are given the same address and the same mask for the same counters: their entries overwrite
  each other on the server although the client counts them apart.
\<close>

theorem updateRequest_prefix_collision:
  assumes "length v \<le> 16" "length w \<le> 16" "key_len del \<le> length v" "key_len del \<le> length w"
    and "take (key_len del) v = take (key_len del) w"
  shows "\<exists>c1 c2 a x. updateRequest prg rnd op v ind (Client del) = Inr (c1, a, x) \<and>
           updateRequest prg rnd op w ind (Client del) = Inr (c2, a, x)"
proof -
  have b: "keyword_block u = Inr (kw_block u)" "length (kw_block u) = 16" if "length u \<le> 16" for u
    using that by (auto simp: keyword_block_def copy_into_def copy_at_def zero_block_def AES_KEY_SIZE_def kw_block_def)
  have "take (key_len del) (kw_block v) = take (key_len del) (kw_block w)"
    using assms(3-5) by (simp add: kw_block_def str_bytes_def take_map)
  then have p: "prf_input del (kw_block v) o1 s f = prf_input del (kw_block w) o1 s f" for o1 s f
    by (rule prf_input_cong)
  show ?thesis
    using b[OF assms(1)] b[OF assms(2)]
    by (simp add: updateRequest_def Client_def Let_def getAESRandomValue_eq p)
qed

theorem updateRequest_prefix_collision_witness:
  "\<exists>c1 c2 a x. updateRequest (\<lambda>k. k) (\<lambda>_. 1) INS ''keyword-one'' 5 (Client True) = Inr (c1, a, x) \<and>
     updateRequest (\<lambda>k. k) (\<lambda>_. 1) INS ''keyword-two'' 5 (Client True) = Inr (c2, a, x)"
  using updateRequest_prefix_collision[of "''keyword-one''" "''keyword-two''" True] by (simp add: key_len_def)

text \<open>
  A keyword of more than 16 characters is copied past the end of the derivation block: no update
  and no search of the client is defined for it.
\<close>

lemma long_keyword_undefined:
  assumes "16 < length w"
  shows "update prg rnd op w ind cs = Inl Undefined_behaviour \<and> search prg rnd w cs = Inl Undefined_behaviour"
  using assms
  by (simp add: update_def updateRequest_def search_def keyword_block_def copy_into_def zero_block_def
      AES_KEY_SIZE_def case_prod_beta)

end
