(* ===== verification/MitraNet.thy ===== *)
theory MitraNet
  imports Mitra
begin

text \<open>
  Mitra as a client and a server: \<open>src/src/mitra/MitraServerRunner.cpp\<close> (the handlers of the gRPC service,
  which answer \<open>FAILED_PRECONDITION\<close> before \<open>setup\<close>) and \<open>src/src/mitra/MitraClientRunner.cpp\<close> (which splits
  a search into a request, the server's answer, and the processing of the answer followed by a batch update
  in cleaning mode). A call through the stub is a call of the handler; timers and console output are left out.
\<close>

section \<open>The server's handlers\<close>

datatype status = OK | FAILED_PRECONDITION string

type_synonym server_runner = "server option"

definition MitraServerRunner :: server_runner where
  "MitraServerRunner = None"

definition not_set_up :: status where
  "not_set_up = FAILED_PRECONDITION ''The server is not set up''"

definition runner_setup :: "bool \<Rightarrow> bool \<Rightarrow> server_runner \<Rightarrow> server_runner \<times> status" where
  "runner_setup usehdd cleaningMode r = (Some (Server usehdd cleaningMode), OK)"

definition runner_update :: "prf_type \<Rightarrow> prf_type \<Rightarrow> server_runner \<Rightarrow> server_runner \<times> status" where
  "runner_update addr val r =
     (case r of
        None \<Rightarrow> (r, not_set_up)
      | Some s \<Rightarrow> (Some (server_update addr val s), OK))"

definition runner_batchUpdate ::
    "(prf_type \<times> prf_type) list \<Rightarrow> server_runner \<Rightarrow> server_runner \<times> status" where
  "runner_batchUpdate mes r =
     (case r of
        None \<Rightarrow> (r, not_set_up)
      | Some s \<Rightarrow> (Some (fold (\<lambda>(a, v). server_update a v) mes s), OK))"

definition runner_search ::
    "prf_type list \<Rightarrow> server_runner \<Rightarrow> server_runner \<times> status \<times> prf_type list" where
  "runner_search addresses r =
     (case r of
        None \<Rightarrow> (r, not_set_up, [])
      | Some s \<Rightarrow> (let (s', tokens) = server_search addresses s in (Some s', OK, tokens)))"

section \<open>The client's calls\<close>

record client_runner =
  runner_client :: client
  cleaningFiles :: bool

type_synonym net = "client_runner \<times> server_runner"

definition MitraClientRunner :: "bool \<Rightarrow> bool \<Rightarrow> server_runner \<Rightarrow> net" where
  "MitraClientRunner usehdd del r =
     (\<lparr>runner_client = Client del, cleaningFiles = del\<rparr>, fst (runner_setup usehdd del r))"

text \<open>A failed call is printed and otherwise ignored: the client's counters have moved on.\<close>

definition net_update ::
    "(bytes \<Rightarrow> bytes) \<Rightarrow> (nat \<Rightarrow> nat) \<Rightarrow> OP \<Rightarrow> string \<Rightarrow> int \<Rightarrow> net \<Rightarrow> net res" where
  "net_update prg rnd op keyword index n =
     (case n of (cr, r) \<Rightarrow>
        bindE (updateRequest prg rnd op keyword index (runner_client cr)) (\<lambda>(c, addr, val).
          Inr (cr\<lparr>runner_client := c\<rparr>, fst (runner_update addr val r))))"

definition net_search ::
    "(bytes \<Rightarrow> bytes) \<Rightarrow> (nat \<Rightarrow> nat) \<Rightarrow> string \<Rightarrow> net \<Rightarrow> (net \<times> int list) res" where
  "net_search prg rnd keyword n =
     (case n of (cr, r) \<Rightarrow>
        bindE (searchRequest prg keyword (runner_client cr)) (\<lambda>(c1, k_w, addresses).
          let (r1, _, tokens) = runner_search addresses r;
              (c2, result, cleaningPairs) = searchProcess prg rnd tokens k_w c1;
              r2 = (if cleaningFiles cr then fst (runner_batchUpdate cleaningPairs r1) else r1)
          in Inr ((cr\<lparr>runner_client := c2\<rparr>, r2), result)))"

fun net_run ::
    "(bytes \<Rightarrow> bytes) \<Rightarrow> (nat \<Rightarrow> nat) \<Rightarrow> action list \<Rightarrow> net \<Rightarrow> (net \<times> int list list) res" where
  "net_run prg rnd [] n = Inr (n, [])"
| "net_run prg rnd (Update op w x # acts) n =
     bindE (net_update prg rnd op w x n) (net_run prg rnd acts)"
| "net_run prg rnd (Search w # acts) n =
     bindE (net_search prg rnd w n) (\<lambda>(n', r).
     bindE (net_run prg rnd acts n') (\<lambda>(n'', rs). Inr (n'', r # rs)))"

section \<open>The calls refine the local operations\<close>

definition net_rel :: "net \<Rightarrow> client \<times> server \<Rightarrow> bool" where
  "net_rel n cs \<longleftrightarrow> (\<exists>cr t. n = (cr, Some (snd cs)) \<and> \<not> cleaningFiles cr \<and> \<not> deleteFiles (fst cs) \<and>
      \<not> setupMode (fst cs) \<and> fst cs = runner_client cr\<lparr>totalSearchCommSize := t\<rparr>)"

lemma updateRequest_frame:
  "updateRequest prg rnd op w x (c\<lparr>totalSearchCommSize := t\<rparr>) =
     bindE (updateRequest prg rnd op w x c) (\<lambda>(c', a, v). Inr (c'\<lparr>totalSearchCommSize := t\<rparr>, a, v))"
  by (cases "keyword_block w") (simp_all add: updateRequest_def Let_def case_prod_beta)

lemma updateRequest_modes:
  "updateRequest prg rnd op w x c = Inr (c', a, v) \<Longrightarrow> deleteFiles c' = deleteFiles c \<and> setupMode c' = setupMode c"
  by (cases "keyword_block w"; cases "deleteFiles c")
    (auto simp: updateRequest_def Let_def case_prod_beta)

lemma clean_entries_no_pairs:
  assumes "clean_entries prg rnd False s es k fc ri = (k3, fc', ri', res, prs)"
  shows "k3 = k \<and> ri' = ri \<and> prs = [] \<and> res = map fst (filter (\<lambda>e. snd e < 0) es)"
  using assms by (simp add: clean_entries_plain)

lemma net_update_refines:
  assumes "net_rel n cs" "update prg rnd op w x cs = Inr cs'"
  shows "\<exists>n'. net_update prg rnd op w x n = Inr n' \<and> net_rel n' cs'"
proof -
  obtain cr t where r: "n = (cr, Some (snd cs))" "\<not> cleaningFiles cr" "\<not> deleteFiles (fst cs)"
    "\<not> setupMode (fst cs)" "fst cs = runner_client cr\<lparr>totalSearchCommSize := t\<rparr>"
    using assms(1) unfolding net_rel_def by blast
  obtain s where cs: "cs = (runner_client cr\<lparr>totalSearchCommSize := t\<rparr>, s)" using r(5) by (cases cs) auto
  from assms(2) obtain c1 a v where u: "updateRequest prg rnd op w x (runner_client cr) = Inr (c1, a, v)"
    and cs': "cs' = (c1\<lparr>totalSearchCommSize := t\<rparr>, server_update a v s)"
    using r(4) by (auto simp: update_def cs updateRequest_frame bindE_Inr_iff)
  have "net_update prg rnd op w x n = Inr (cr\<lparr>runner_client := c1\<rparr>, Some (server_update a v s))"
    by (simp add: net_update_def r(1) u cs runner_update_def)
  moreover have "net_rel (cr\<lparr>runner_client := c1\<rparr>, Some (server_update a v s)) cs'"
    using r updateRequest_modes[OF u] by (auto simp: net_rel_def cs' cs)
  ultimately show ?thesis by blast
qed

lemma net_search_refines:
  assumes "net_rel n cs" "search prg rnd w cs = Inr (cs', res)"
  shows "\<exists>n'. net_search prg rnd w n = Inr (n', res) \<and> net_rel n' cs'"
proof -
  obtain cr t where r: "n = (cr, Some (snd cs))" "\<not> cleaningFiles cr" "\<not> deleteFiles (fst cs)"
    "\<not> setupMode (fst cs)" "fst cs = runner_client cr\<lparr>totalSearchCommSize := t\<rparr>"
    using assms(1) unfolding net_rel_def by blast
  obtain s where cs: "cs = (runner_client cr\<lparr>totalSearchCommSize := t\<rparr>, s)" using r(5) by (cases cs) auto
  obtain k where k: "keyword_block w = Inr k"
    using assms(2) by (cases "keyword_block w") (auto simp: search_def cs)
  have d: "\<not> deleteFiles (runner_client cr)" "\<not> setupMode (runner_client cr)" using r(3,4) cs by simp_all
  show ?thesis
  proof (cases "FileCnt (runner_client cr) k")
    case None
    then have "cs' = (runner_client cr\<lparr>totalSearchCommSize := 0\<rparr>, s)" "res = []"
      using assms(2) by (simp_all add: search_def cs k)
    moreover have "net_search prg rnd w n = Inr ((cr\<lparr>runner_client := runner_client cr\<lparr>totalSearchCommSize := 0\<rparr>\<rparr>, Some s), [])"
      using None d by (simp add: net_search_def searchRequest_def r(1,2) cs k runner_search_def searchProcess_def)
    ultimately show ?thesis using r(2) d by (auto simp: net_rel_def intro!: exI[of _ 0])
  next
    case (Some fc)
    obtain k1 KList where t: "request_tokens prg False 0 [1..fc] k = (k1, KList)" by force
    obtain s1 es where ss: "server_search KList s = (s1, es)" by force
    obtain k2 rm where de: "decode_entries prg False 0 1 es k1 [] = (k2, rm)" by force
    have a: "\<exists>u. cs' = (runner_client cr\<lparr>totalSearchCommSize := u\<rparr>, s1)" "res = map fst (filter (\<lambda>e. snd e < 0) rm)"
      using assms(2) d by (auto simp: search_def cs k Some t ss de clean_entries_plain Let_def)
    have "\<exists>u. net_search prg rnd w n =
        Inr ((cr\<lparr>runner_client := runner_client cr\<lparr>totalSearchCommSize := u\<rparr>\<rparr>, Some s1), map fst (filter (\<lambda>e. snd e < 0) rm))"
      using d by (simp add: net_search_def searchRequest_def r(1,2) cs k Some t ss de runner_search_def
          searchProcess_def clean_entries_plain) blast
    with a show ?thesis using r(2) d by (fastforce simp: net_rel_def)
  qed
qed

lemma net_run_refines:
  assumes "net_rel n cs" "mitra_run prg rnd acts cs = Inr (cs', rs)"
  shows "\<exists>n'. net_run prg rnd acts n = Inr (n', rs) \<and> net_rel n' cs'"
  using assms
proof (induction acts arbitrary: n cs cs' rs)
  case Nil
  then show ?case by simp
next
  case (Cons a acts)
  show ?case
  proof (cases a)
    case (Update op w x)
    then obtain cs1 where c: "update prg rnd op w x cs = Inr cs1" "mitra_run prg rnd acts cs1 = Inr (cs', rs)"
      using Cons.prems(2) by (auto simp: bindE_Inr_iff)
    from net_update_refines[OF Cons.prems(1) c(1)] Cons.IH[OF _ c(2)] show ?thesis
      by (fastforce simp: Update)
  next
    case (Search w)
    then obtain cs1 r rs' where c: "search prg rnd w cs = Inr (cs1, r)" "mitra_run prg rnd acts cs1 = Inr (cs', rs')"
      "rs = r # rs'"
      using Cons.prems(2) by (auto simp: bindE_Inr_iff)
    from net_search_refines[OF Cons.prems(1) c(1)] Cons.IH[OF _ c(2)] show ?thesis
      by (fastforce simp: Search c(3))
  qed
qed


text \<open>The only errors are those of the keyword block, on both sides.\<close>

lemma net_update_error: "update prg rnd op w x cs = Inl e \<Longrightarrow> net_rel n cs \<Longrightarrow> net_update prg rnd op w x n = Inl e"
  by (cases "keyword_block w")
    (auto simp: net_rel_def update_def net_update_def updateRequest_def case_prod_beta Let_def)

lemma net_search_error: "search prg rnd w cs = Inl e \<Longrightarrow> net_rel n cs \<Longrightarrow> net_search prg rnd w n = Inl e"
  by (cases "keyword_block w")
    (auto simp: net_rel_def search_def net_search_def searchRequest_def case_prod_beta Let_def split: option.splits if_splits)

lemma net_run_error:
  assumes "net_rel n cs" "mitra_run prg rnd acts cs = Inl e"
  shows "net_run prg rnd acts n = Inl e"
  using assms
proof (induction acts arbitrary: n cs)
  case (Cons a acts)
  show ?case
  proof (cases a)
    case (Update op w x)
    show ?thesis
    proof (cases "update prg rnd op w x cs")
      case (Inl d)
      then show ?thesis using Cons.prems net_update_error[OF Inl Cons.prems(1)] by (simp add: Update)
    next
      case (Inr cs1)
      from net_update_refines[OF Cons.prems(1) Inr] obtain n1 where n1: "net_update prg rnd op w x n = Inr n1" "net_rel n1 cs1" by blast
      have "mitra_run prg rnd acts cs1 = Inl e" using Cons.prems(2) by (simp add: Update Inr)
      from Cons.IH[OF n1(2) this] n1(1) show ?thesis by (simp add: Update)
    qed
  next
    case (Search w)
    show ?thesis
    proof (cases "search prg rnd w cs")
      case (Inl d)
      then show ?thesis using Cons.prems net_search_error[OF Inl Cons.prems(1)] by (simp add: Search)
    next
      case (Inr y)
      obtain cs1 q where y: "y = (cs1, q)" by (rule prod.exhaust)
      from net_search_refines[OF Cons.prems(1) Inr[unfolded y]] obtain n1 where
        n1: "net_search prg rnd w n = Inr (n1, q)" "net_rel n1 cs1" by blast
      have "mitra_run prg rnd acts cs1 = Inl e"
        using Cons.prems(2) by (cases "mitra_run prg rnd acts cs1") (auto simp: Search Inr y)
      from Cons.IH[OF n1(2) this] n1(1) show ?thesis by (simp add: Search)
    qed
  qed
qed simp

lemma net_rel_init: "net_rel (MitraClientRunner hdd False r) (Client False, Server hdd False)"
proof -
  have "Client False = Client False\<lparr>totalSearchCommSize := 0\<rparr>" by (simp add: Client_def)
  then show ?thesis
    by (simp add: net_rel_def MitraClientRunner_def runner_setup_def Client_def)
qed

lemma DictW_batch:
  "\<not> useRocksDB s \<Longrightarrow> DictW (fold (\<lambda>(a, v). server_update a v) prs s) = DictW s ++ map_of (rev prs)"
proof (induction prs arbitrary: s)
  case Nil
  then show ?case by simp
next
  case (Cons e prs)
  obtain a v where e: "e = (a, v)" by force
  have "DictW (server_update a v s) = DictW s ++ [a \<mapsto> v]" using Cons.prems by (simp add: server_update_def)
  moreover have "\<not> useRocksDB (server_update a v s)" using Cons.prems by simp
  ultimately have "DictW (fold (\<lambda>(a, v). server_update a v) prs (server_update a v s)) =
      DictW s ++ ([a \<mapsto> v] ++ map_of (rev prs))"
    using Cons.IH by (simp only: map_add_assoc not_False_eq_True)
  then show ?case by (simp add: e map_add_assoc)
qed

lemma server_search_values:
  assumes "\<not> useRocksDB s" "\<forall>a. D a = DictW s a \<or> (D a = None \<and> DictW s a = Some zero_block)"
  shows "snd (server_search as s) = filter (\<lambda>v. v \<noteq> zero_block) (List.map_filter D as)"
  using assms
proof (induction "as" arbitrary: s)
  case Nil
  then show ?case by (simp add: List.map_filter_def)
next
  case (Cons a as)
  let ?v = "case DictW s a of None \<Rightarrow> zero_block | Some v \<Rightarrow> v"
  let ?s = "s\<lparr>DictW := (DictW s)(a \<mapsto> ?v)\<rparr>"
  have "snd (server_search as ?s) = filter (\<lambda>v. v \<noteq> zero_block) (List.map_filter D as)"
  proof (rule Cons.IH)
    show "\<not> useRocksDB ?s" using Cons.prems(1) by simp
    show "\<forall>b. D b = DictW ?s b \<or> D b = None \<and> DictW ?s b = Some zero_block"
    proof
      fix b show "D b = DictW ?s b \<or> D b = None \<and> DictW ?s b = Some zero_block"
        using Cons.prems(2)[rule_format, of b] by (cases "b = a"; cases "DictW s b") auto
    qed
  qed
  then show ?case
    using Cons.prems(1) Cons.prems(2)[rule_format, of a]
    by (cases "D a") (auto simp: Let_def case_prod_beta List.map_filter_def split: option.splits)
qed

lemma batch_search:
  assumes "\<not> useRocksDB s" "DictW s = Map.empty"
  shows "snd (server_search as (fold (\<lambda>(a, v). server_update a v) prs s)) =
           filter (\<lambda>v. v \<noteq> zero_block) (List.map_filter (map_of (rev prs)) as)"
  using assms by (intro server_search_values) (simp_all add: DictW_batch)

section \<open>Properties\<close>

text \<open>
  C8. Without cleaning, the client runner against the server's handlers refines the local client and server: for every generator and
  every run of updates and searches, keywords of any length included, the run over the network fails with the error of the local run, or
  completes with the same search results and ends in the same server and in the same client but for its counter of transmitted bytes.
\<close>

theorem net_run_correct:
  "case mitra_run prg rnd acts (Client False, Server hdd False) of
     Inl e \<Rightarrow> net_run prg rnd acts (MitraClientRunner hdd False r) = Inl e
   | Inr (cs, rs) \<Rightarrow> \<exists>n. net_run prg rnd acts (MitraClientRunner hdd False r) = Inr (n, rs) \<and> net_rel n cs"
  using net_run_refines[OF net_rel_init, of prg rnd acts hdd] net_run_error[OF net_rel_init, of prg rnd acts hdd]
  by (auto split: sum.split)

text \<open>
  With cleaning, a search for a keyword that has no entry yet breaks later searches for it: the client
  leaves a search counter of 1 behind, derives the addresses and masks of the next updates with it, and
  then, having lost the keyword block it overwrote, unmasks the answers with counter 0. With the rotation
  by seven bytes as derivation, the search after inserting 7 answers 6; the local scheme answers 7.
\<close>

lemma net_cleaning_counterexample:
  "bindE (net_run (rotate 7) (\<lambda>_. 1) [Search ''a'', Update INS ''a'' 7, Search ''a'']
            (MitraClientRunner False True None)) (\<lambda>(n, rs). Inr rs) = Inr [[], [6]] \<and>
   bindE (mitra_run (rotate 7) (\<lambda>_. 1) [Search ''a'', Update INS ''a'' 7, Search ''a'']
            (Client True, Server False True)) (\<lambda>(n, rs). Inr rs) = Inr [[], [7]] \<and>
   mitra_spec (\<lambda>_. []) [Search ''a'', Update INS ''a'' 7, Search ''a''] = [[], [7]]"
  by code_simp

text \<open>
  C9. Before \<open>setup\<close> every handler answers \<open>FAILED_PRECONDITION\<close> and leaves the server as it is; \<open>setup\<close>
  discards whatever was stored, and after it a search answers the values of the last batch update, in the
  order asked, without the addresses never written.
\<close>

theorem handlers_setup:
  "runner_update a v MitraServerRunner = (MitraServerRunner, not_set_up) \<and>
   runner_batchUpdate prs MitraServerRunner = (MitraServerRunner, not_set_up) \<and>
   runner_search as MitraServerRunner = (MitraServerRunner, not_set_up, []) \<and>
   (let (r1, st1) = runner_batchUpdate prs (fst (runner_setup hdd del r));
        (r2, st2, tokens) = runner_search as r1
    in st1 = OK \<and> st2 = OK \<and>
       tokens = filter (\<lambda>v. v \<noteq> zero_block) (List.map_filter (map_of (rev prs)) as))"
  using batch_search[of "Server hdd del" "as" prs]
  by (auto simp: runner_update_def runner_batchUpdate_def runner_search_def runner_setup_def
      MitraServerRunner_def Server_def split: prod.splits)

end
