(* ===== verification/Prg.thy ===== *)
theory Prg
  imports Prelude
begin

text \<open>
  The pseudo-random generator \<open>sse::crypto::Prg\<close> (\<open>src/third_party/crypto/src/prg.cpp\<close>): the block cipher in
  counter mode, with a byte offset into its output. \<open>aes\<close> stands for \<open>AES_encrypt\<close> with the expanded key.
  The interface the rest of the code relies on is the locale \<open>prg_stream\<close>: a derivation of \<open>n\<close> bytes at an
  offset is a window of one key stream. It is interpreted on the model of \<open>derive\<close>.
\<close>

section \<open>The generator\<close>

definition kKeySize :: nat where
  "kKeySize = 16"

definition AES_BLOCK_SIZE :: nat where
  "AES_BLOCK_SIZE = 16"

text \<open>\<open>AES_encrypt\<close> writes sixteen bytes into its output, whatever the cipher is taken to be.\<close>

definition fit :: "nat \<Rightarrow> bytes \<Rightarrow> bytes" where
  "fit n bs = take n (bs @ replicate n 0)"

text \<open>Block \<open>i\<close> of the input buffer: \<open>((size_t*)in)[2*i]\<close> is the block's number, the rest is zero.\<close>

definition ctr_block :: "nat \<Rightarrow> bytes" where
  "ctr_block i = le_bytes 8 (int i) @ replicate 8 0"

definition derive_bytes :: "(bytes \<Rightarrow> bytes \<Rightarrow> bytes) \<Rightarrow> bytes \<Rightarrow> nat \<Rightarrow> nat \<Rightarrow> bytes" where
  "derive_bytes aes k offset len =
     (let extra_len = offset mod AES_BLOCK_SIZE;
          block_offset = offset div AES_BLOCK_SIZE;
          max_block_index = (len + offset) div AES_BLOCK_SIZE
             + (if (len + offset) mod AES_BLOCK_SIZE \<noteq> 0 then 1 else 0);
          block_in = map ctr_block [block_offset..<max_block_index];
          tmp = concat (map (\<lambda>b. fit AES_BLOCK_SIZE (aes k b)) block_in)
      in take len (drop extra_len tmp))"

definition prg_derive :: "(bytes \<Rightarrow> bytes \<Rightarrow> bytes) \<Rightarrow> bytes \<Rightarrow> nat \<Rightarrow> nat \<Rightarrow> bytes res" where
  "prg_derive aes k offset len =
     (if len = 0 then Inl Invalid_argument else Inr (derive_bytes aes k offset len))"

section \<open>The key stream\<close>

definition keystream :: "(bytes \<Rightarrow> bytes \<Rightarrow> bytes) \<Rightarrow> bytes \<Rightarrow> nat \<Rightarrow> byte" where
  "keystream aes k j = fit 16 (aes k (ctr_block (j div 16))) ! (j mod 16)"

lemma length_fit [simp]: "length (fit n bs) = n"
  by (simp add: fit_def)

lemma map_div_mod_block:
  assumes "\<And>i. length (f i) = (16 :: nat)"
  shows "map (\<lambda>j. f (j div 16) ! (j mod 16)) [a * 16..<a * 16 + 16] = f a"
proof (rule nth_equalityI)
  fix i assume "i < length (map (\<lambda>j. f (j div 16) ! (j mod 16)) [a * 16..<a * 16 + 16])"
  then have "i < 16" by simp
  then have "(a * 16 + i) div 16 = a" "(a * 16 + i) mod 16 = i" by simp_all
  with \<open>i < 16\<close> show "map (\<lambda>j. f (j div 16) ! (j mod 16)) [a * 16..<a * 16 + 16] ! i = f a ! i" by simp
qed (simp add: assms)

lemma concat_blocks:
  assumes "\<And>i. length (f i) = (16 :: nat)" "a \<le> b"
  shows "concat (map f [a..<b]) = map (\<lambda>j. f (j div 16) ! (j mod 16)) [a * 16..<b * 16]"
  using assms(2)
proof (induction b)
  case 0
  then show ?case by simp
next
  case (Suc b)
  show ?case
  proof (cases "a = Suc b")
    case True
    then show ?thesis by simp
  next
    case False
    with Suc have ab: "a \<le> b" and ih: "concat (map f [a..<b]) =
        map (\<lambda>j. f (j div 16) ! (j mod 16)) [a * 16..<b * 16]" by simp_all
    have "[a * 16..<Suc b * 16] = [a * 16..<b * 16] @ [b * 16..<b * 16 + 16]"
      using upt_add_eq_append[of "a * 16" "b * 16" 16] ab by (simp add: algebra_simps)
    then show ?thesis
      using ab ih map_div_mod_block[of f b, OF assms(1)] by simp
  qed
qed

lemma derive_bytes_window: "derive_bytes aes k offset len = map (keystream aes k) [offset..<offset + len]"
proof -
  let ?m = "(len + offset) div 16 + (if (len + offset) mod 16 \<noteq> 0 then 1 else 0)"
  let ?f = "\<lambda>i. fit 16 (aes k (ctr_block i))"
  have m: "offset div 16 \<le> ?m" "offset + len \<le> ?m * 16"
    using div_le_mono[of offset "len + offset" 16] by auto
  have "derive_bytes aes k offset len = take len (drop (offset mod 16) (concat (map ?f [offset div 16..<?m])))"
    by (simp add: derive_bytes_def AES_BLOCK_SIZE_def comp_def Let_def)
  also have "\<dots> = take len (drop (offset mod 16) (map (keystream aes k) [offset div 16 * 16..<?m * 16]))"
    using concat_blocks[of ?f, OF _ m(1)] by (simp add: keystream_def[abs_def])
  also have "\<dots> = take len (map (keystream aes k) [offset..<?m * 16])"
    by (simp add: drop_map)
  also have "\<dots> = map (keystream aes k) [offset..<offset + len]"
    using m(2) by (simp add: take_map take_upt)
  finally show ?thesis .
qed

lemma derive_bytes_block:
  "derive_bytes aes k 0 16 = fit 16 (aes k (ctr_block 0))" "derive_bytes aes k 16 16 = fit 16 (aes k (ctr_block 1))"
proof -
  have "[1..<2] = [1 :: nat]" by (simp add: numeral_2_eq_2)
  then show "derive_bytes aes k 16 16 = fit 16 (aes k (ctr_block 1))"
    by (simp add: derive_bytes_def AES_BLOCK_SIZE_def)
qed (simp add: derive_bytes_def AES_BLOCK_SIZE_def)

lemma fit_id: "length bs = n \<Longrightarrow> fit n bs = bs"
  by (simp add: fit_def)

lemma derive_bytes_xor_0: "length k = 16 \<Longrightarrow> derive_bytes xor_bytes k 0 16 = k"
proof -
  assume k: "length k = 16"
  have "ctr_block 0 = replicate 16 0" by (simp add: ctr_block_def numeral_eq_Suc)
  moreover have "xor_bytes k (replicate 16 0) = k" using k by (intro nth_equalityI) simp_all
  ultimately show ?thesis by (simp only: derive_bytes_block fit_id k)
qed

section \<open>The interface\<close>

locale prg_stream =
  fixes prg :: "bytes \<Rightarrow> nat \<Rightarrow> nat \<Rightarrow> bytes"
  assumes prg_length: "length (prg k offset len) = len"
    and prg_append: "prg k offset (m + n) = prg k offset m @ prg k (offset + m) n"
begin

lemma prg_take: "take m (prg k offset (m + n)) = prg k offset m"
  by (simp add: prg_append prg_length)

lemma prg_drop: "drop m (prg k offset (m + n)) = prg k (offset + m) n"
  by (simp add: prg_append prg_length)

lemma prg_double:
  "take n (prg k 0 (2 * n)) = prg k 0 n" "drop n (prg k 0 (2 * n)) = prg k n n"
  using prg_take[of n k 0 n] prg_drop[of n k 0 n] by (simp_all add: mult_2)

end

interpretation stream: prg_stream "derive_bytes aes" for aes
proof unfold_locales
  fix k offset len
  show "length (derive_bytes aes k offset len) = len" by (simp add: derive_bytes_window)
next
  fix k offset m n
  have "[offset..<offset + (m + n)] = [offset..<offset + m] @ [offset + m..<offset + m + n]"
    using upt_add_eq_append[of offset "offset + m" n] by (simp add: add.assoc)
  then show "derive_bytes aes k offset (m + n) = derive_bytes aes k offset m @ derive_bytes aes k (offset + m) n"
    by (simp add: derive_bytes_window)
qed

section \<open>Properties\<close>

text \<open>
  C23. A derivation of at least one byte is a window of the key stream of its key: deriving at an offset gives
  the bytes a longer derivation from zero has there, aligned or not, and has the requested length.
\<close>

theorem prg_derive_window:
  assumes "0 < len"
  shows "\<exists>out. prg_derive aes k offset len = Inr out \<and> length out = len \<and>
           prg_derive aes k 0 (offset + len) = Inr (derive_bytes aes k 0 offset @ out)"
  using assms stream.prg_append[of aes k 0 offset len]
  by (simp add: prg_derive_def stream.prg_length)

theorem prg_derive_window_witness:
  "\<exists>out. prg_derive (\<lambda>k b. xor_bytes k b) (replicate 16 7) 5 20 = Inr out \<and> length out = 20 \<and>
     prg_derive (\<lambda>k b. xor_bytes k b) (replicate 16 7) 0 25 =
       Inr (derive_bytes (\<lambda>k b. xor_bytes k b) (replicate 16 7) 0 5 @ out)"
  using prg_derive_window[of 20 "\<lambda>k b. xor_bytes k b" "replicate 16 7" 5] by simp

end
