(* ===== verification/TokenTree.thy ===== *)
theory TokenTree
  imports Prg "HOL-Library.Multiset"
begin

text \<open>
  The tree of search tokens of Diana (\<open>src/src/diana/token_tree.cpp\<close>): the two children of a node are the first
  and the second half of the generator's output keyed with the node. A keyword's \<open>i\<close>-th update uses leaf \<open>i\<close>; a
  search sends the roots of the subtrees that cover the leaves in use, and the server derives their leaves.
  The callbacks of the code are modelled by the list of their arguments. \<open>prg\<close> is the generator of theory Prg;
  depths are at most 64 (the constant in use is 48), so the 64-bit shifts of the code lose nothing.
\<close>

section \<open>Definitions\<close>

type_synonym token = bytes
type_synonym prg_fun = "bytes \<Rightarrow> nat \<Rightarrow> nat \<Rightarrow> bytes"

definition kTokenSize :: nat where
  "kTokenSize = kKeySize"

fun derive_node_loop :: "prg_fun \<Rightarrow> nat \<Rightarrow> nat \<Rightarrow> nat \<Rightarrow> token \<Rightarrow> token" where
  "derive_node_loop prg node_index msk 0 t = t"
| "derive_node_loop prg node_index msk (Suc n) t =
     (let offset = (if node_index AND msk = 0 then 0 else kTokenSize)
      in derive_node_loop prg node_index (drop_bit 1 msk) n (prg t offset kTokenSize))"

definition derive_node :: "prg_fun \<Rightarrow> token \<Rightarrow> nat \<Rightarrow> nat \<Rightarrow> token" where
  "derive_node prg K node_index depth =
     (if depth = 0 then K
      else derive_node_loop prg node_index (push_bit (depth - 1) 1) depth K)"

text \<open>The leftmost leaf, and the arguments of the callback on the right siblings on the way.\<close>

fun derive_leftmost_node :: "prg_fun \<Rightarrow> token \<Rightarrow> nat \<Rightarrow> token \<times> (token \<times> nat) list" where
  "derive_leftmost_node prg K 0 = (K, [])"
| "derive_leftmost_node prg K (Suc depth) =
     (let right = prg K kTokenSize kTokenSize;
          (t, calls) = derive_leftmost_node prg (prg K 0 kTokenSize) depth
      in (t, (right, depth) # calls))"

text \<open>
  At depth 0 a count other than 1 makes the code continue with a depth that has wrapped around to 255 and a
  shift by it.
\<close>

fun covering_list_aux :: "prg_fun \<Rightarrow> token \<Rightarrow> nat \<Rightarrow> nat \<Rightarrow> (token \<times> nat) list res" where
  "covering_list_aux prg K node_count 0 =
     (if node_count = 0 then Inl Assertion_failed
      else if node_count = 1 then Inr [(K, 0)]
      else Inl Undefined_behaviour)"
| "covering_list_aux prg K node_count (Suc depth) =
     (if node_count = 0 then Inl Assertion_failed
      else
        let siblings_count = 2 ^ Suc depth
        in if node_count = siblings_count then Inr [(K, Suc depth)]
           else
             let K_left = prg K 0 kTokenSize
             in if node_count > siblings_count div 2 then
                  bindE (covering_list_aux prg (prg K kTokenSize kTokenSize)
                           (node_count - siblings_count div 2) depth)
                    (\<lambda>l. Inr ((K_left, depth) # l))
                else covering_list_aux prg K_left node_count depth)"

text \<open>
  The covering of the leaves that are not deleted. The table \<open>tree[depth]\<close> marks present leaves with 2; each
  level is computed from the one below it, where the two children of a full node are reset, and the nodes
  still marked 2 are taken. Only the current row is read again, so the model passes on one row. The sizes of the
  rows are \<open>(int) pow(2, i)\<close> and the indices are of type \<open>int\<close>: a table deeper than 30 is undefined, and up to there
  nothing overflows.
\<close>

fun merge_level :: "nat \<Rightarrow> nat \<Rightarrow> int list \<Rightarrow> int list \<times> (nat \<times> nat) list" where
  "merge_level i j (a # b # row) =
     (let (p, a', b') = (if a + b = 4 then (2, 0, 0)
                         else if a + b < 4 \<and> a + b > 0 then (1, a, b)
                         else (0, a, b));
          t1 = (if i = 0 \<and> p = 2 then [(i, j)] else []);
          t2 = (if p \<noteq> 4 \<and> a' = 2 then [(i + 1, 2 * j)] else []);
          t3 = (if p \<noteq> 4 \<and> b' = 2 then [(i + 1, 2 * j + 1)] else []);
          (ps, ts) = merge_level i (j + 1) row
      in (p # ps, t1 @ t2 @ t3 @ ts))"
| "merge_level i j _ = ([], [])"

fun merge_levels :: "nat \<Rightarrow> int list \<Rightarrow> (nat \<times> nat) list" where
  "merge_levels 0 row = []"
| "merge_levels (Suc i) row =
     (let (row', targetNodes) = merge_level i 0 row in targetNodes @ merge_levels i row')"

definition leaf_row :: "nat \<Rightarrow> nat \<Rightarrow> nat list \<Rightarrow> int list" where
  "leaf_row depth node_count delCnts =
     fold (\<lambda>c row. row[c := 0]) delCnts (map (\<lambda>i. if i < node_count then 2 else 0) [0..<2 ^ depth])"

fun covering_list_del :: "prg_fun \<Rightarrow> token \<Rightarrow> nat \<Rightarrow> nat \<Rightarrow> nat list \<Rightarrow> (token \<times> nat) list res" where
  "covering_list_del prg K node_count depth delCnts =
     (if node_count = 0 then Inl Assertion_failed
      else if node_count > 2 ^ depth div 2 then
        if 30 < depth \<or> node_count > 2 ^ depth \<or> list_ex (\<lambda>c. 2 ^ depth \<le> c) delCnts
        then Inl Undefined_behaviour
        else Inr (map (\<lambda>(l, j). (derive_node prg K j l, depth - l))
                    (merge_levels depth (leaf_row depth node_count delCnts)))
      else case depth of
             0 \<Rightarrow> Inl Undefined_behaviour
           | Suc d \<Rightarrow> covering_list_del prg (prg K 0 kTokenSize) node_count d delCnts)"

declare covering_list_del.simps [simp del]

definition covering_list :: "prg_fun \<Rightarrow> token \<Rightarrow> nat \<Rightarrow> nat \<Rightarrow> (token \<times> nat) list res" where
  "covering_list prg root node_count depth = covering_list_aux prg root node_count depth"

text \<open>The helper is called at depths of at least 1.\<close>

fun derive_all_leaves_aux :: "prg_fun \<Rightarrow> token \<Rightarrow> nat \<Rightarrow> token list" where
  "derive_all_leaves_aux prg K 0 = []"
| "derive_all_leaves_aux prg K (Suc d) =
     (let derived_tokens = prg K 0 (2 * kTokenSize);
          left = take kTokenSize derived_tokens;
          right = drop kTokenSize derived_tokens
      in if d = 0 then [left, right]
         else derive_all_leaves_aux prg left d @ derive_all_leaves_aux prg right d)"

definition derive_all_leaves :: "prg_fun \<Rightarrow> token \<Rightarrow> nat \<Rightarrow> token list" where
  "derive_all_leaves prg K depth = (if depth = 0 then [K] else derive_all_leaves_aux prg K depth)"

text \<open>
  A range of leaves. The children are derived into an array that is local to the block of a branch, and the pointers
  \<open>left_node\<close> and \<open>right_node\<close> are used after the block has ended. A node pointer is therefore an option: \<open>Some\<close> for
  a token that lives, \<open>None\<close> for a pointer to an array that is gone. The tests on the indices do not read the node; the callback
  and the generator do, and reading a dangling pointer is undefined.
\<close>

fun derive_leaves_aux :: "prg_fun \<Rightarrow> token option \<Rightarrow> nat \<Rightarrow> nat \<Rightarrow> nat \<Rightarrow> token list res" where
  "derive_leaves_aux prg K 0 start_index end_index =
     (if start_index \<noteq> 0 then Inl Out_of_range
      else case K of None \<Rightarrow> Inl Undefined_behaviour | Some k \<Rightarrow> Inr [k])"
| "derive_leaves_aux prg K (Suc d) start_index end_index =
     (if start_index = 0 \<and> end_index = 2 ^ Suc d - 1 then
        (case K of None \<Rightarrow> Inl Undefined_behaviour | Some k \<Rightarrow> Inr (derive_all_leaves_aux prg k (Suc d)))
      else
        let half_node_count = 2 ^ d;
            need_left = (start_index \<le> half_node_count - 1);
            need_right = (end_index \<ge> half_node_count)
        in if \<not> need_left \<and> \<not> need_right then Inl Out_of_range
           else if K = None then Inl Undefined_behaviour
           else
             let left_node = None;
                 right_node = None;
                 left_end = (if need_right then half_node_count - 1 else end_index);
                 right_start = (if need_left then 0 else start_index - half_node_count)
             in bindE (if need_left then derive_leaves_aux prg left_node d start_index left_end else Inr [])
                  (\<lambda>ls. bindE (if need_right
                                then derive_leaves_aux prg right_node d right_start (end_index - half_node_count)
                                else Inr [])
                          (\<lambda>rs. Inr (ls @ rs))))"

definition derive_leaves :: "prg_fun \<Rightarrow> token \<Rightarrow> nat \<Rightarrow> nat \<Rightarrow> nat \<Rightarrow> token list res" where
  "derive_leaves prg K depth start_index end_index = derive_leaves_aux prg (Some K) depth start_index end_index"

section \<open>Nodes by the bits of their index\<close>

fun node :: "prg_fun \<Rightarrow> token \<Rightarrow> nat \<Rightarrow> nat \<Rightarrow> token" where
  "node prg K i 0 = K"
| "node prg K i (Suc d) = node prg (prg K (if bit i d then kTokenSize else 0) kTokenSize) i d"

lemma derive_node_loop_node:
  "derive_node_loop prg i (2 ^ d) (Suc d) K = node prg K i (Suc d)"
proof (induction d arbitrary: K)
  case 0
  then show ?case using and_exp_eq_0_iff_not_bit[of i 0] by simp
next
  case (Suc d)
  have "drop_bit 1 (2 ^ Suc d :: nat) = 2 ^ d" by (simp add: drop_bit_Suc)
  then show ?case
    using Suc and_exp_eq_0_iff_not_bit[of i "Suc d"]
    by (simp only: derive_node_loop.simps(2)[of _ _ _ "Suc d"] node.simps(2)[of _ _ _ "Suc d"] Let_def)
      (simp del: power_Suc derive_node_loop.simps node.simps)
qed

lemma derive_node_eq: "derive_node prg K i d = node prg K i d"
proof (cases d)
  case (Suc d')
  have "derive_node_loop prg i (push_bit d' 1) (Suc d') K = node prg K i (Suc d')"
    using derive_node_loop_node[of prg i d' K] by (simp only: push_bit_of_1)
  then show ?thesis by (simp only: derive_node_def Suc) simp
qed (simp add: derive_node_def)

lemma node_cong: "(\<And>k. k < d \<Longrightarrow> bit i k = bit j k) \<Longrightarrow> node prg K i d = node prg K j d"
  by (induction d arbitrary: K) simp_all

lemma node_left: "i < 2 ^ d \<Longrightarrow> node prg K i (Suc d) = node prg (prg K 0 kTokenSize) i d"
  by (simp add: bit_iff_odd)

lemma node_right: "i < 2 ^ d \<Longrightarrow> node prg K (2 ^ d + i) (Suc d) = node prg (prg K kTokenSize kTokenSize) i d"
proof -
  assume i: "i < 2 ^ d"
  have "bit (2 ^ d + i) k = bit i k" if "k < d" for k
  proof -
    have "(2 ^ d + i) div 2 ^ k = 2 ^ (d - k) + i div 2 ^ k"
      using that by (simp add: div_plus_div_distrib_dvd_left le_imp_power_dvd power_diff)
    moreover have "even ((2 :: nat) ^ (d - k))" using that by simp
    ultimately show ?thesis by (simp add: bit_iff_odd)
  qed
  moreover have "(2 ^ d + i) div 2 ^ d = Suc 0"
    using i div_add_self1[of "2 ^ d :: nat" i] by simp
  then have "bit (2 ^ d + i) d" by (simp add: bit_iff_odd)
  ultimately show ?thesis using node_cong[of d "2 ^ d + i" i] by simp
qed

lemma node_snoc: "node prg K (2 * j + b) (Suc l) =
    prg (node prg K j l) (if odd b then kTokenSize else 0) kTokenSize" if "b < 2"
proof (induction l arbitrary: K)
  case 0
  then show ?case using that by (simp add: bit_0)
next
  case (Suc l)
  have "bit (2 * j + b) (Suc l) = bit j l" using that by (simp add: bit_Suc)
  then show ?case using Suc by simp
qed


lemma node_fixpoint:
  assumes "prg K 0 kTokenSize = K"
  shows "node prg K 0 d = K" "node prg K 1 (Suc d) = prg K kTokenSize kTokenSize"
proof -
  show "node prg K 0 d = K" using assms by (induction d) simp_all
  show "node prg K 1 (Suc d) = prg K kTokenSize kTokenSize"
  proof (induction d)
    case (Suc d)
    have "\<not> bit (1 :: nat) (Suc d)" by (simp add: bit_Suc)
    then have "node prg K 1 (Suc (Suc d)) = node prg K 1 (Suc d)"
      using assms by (simp only: node.simps(2)[of _ _ _ "Suc d"] if_False)
    with Suc show ?case by simp
  qed (simp add: bit_0)
qed

lemma leaf_row_eq:
  "leaf_row d n dels = map (\<lambda>i. if i < n \<and> i \<notin> set dels then 2 else 0) [0..<2 ^ d]"
proof -
  have "fold (\<lambda>c row. row[c := 0]) dels (map f [0..<m]) = map (\<lambda>i. if i \<in> set dels then 0 else f i) [0..<m]"
    for f :: "nat \<Rightarrow> int" and m
  proof (induction dels arbitrary: f)
    case (Cons c dels)
    have "(map f [0..<m])[c := 0] = map (\<lambda>i. if i = c then 0 else f i) [0..<m]"
      by (rule nth_equalityI) (auto simp: nth_list_update)
    then show ?case using Cons[of "\<lambda>i. if i = c then 0 else f i"] by auto
  qed simp
  then show ?thesis by (auto simp: leaf_row_def)
qed

text \<open>A range inside the tree reads its node.\<close>

lemma derive_leaves_aux_dangling:
  assumes "s \<le> e" "s < 2 ^ d"
  shows "derive_leaves_aux prg None d s e = Inl Undefined_behaviour"
proof (cases d)
  case (Suc d')
  have "s \<le> 2 ^ d' - 1 \<or> 2 ^ d' \<le> e" using assms(1) by linarith
  then have "(\<not> s \<le> 2 ^ d' - 1 \<and> \<not> 2 ^ d' \<le> e) = False" by blast
  then show ?thesis by (simp only: Suc derive_leaves_aux.simps(2) Let_def option.case if_False if_True simp_thms if_cancel)
qed (use assms in simp)

lemma derive_leaves_whole:
  "derive_leaves prg K d 0 (2 ^ d - 1) = Inr (derive_all_leaves prg K d)"
  by (cases d) (simp_all add: derive_leaves_def derive_all_leaves_def del: derive_all_leaves_aux.simps)

lemma derive_leaves_part:
  assumes "s \<le> e" "s < 2 ^ d" "s \<noteq> 0 \<or> e \<noteq> 2 ^ d - 1" "0 < d"
  shows "derive_leaves prg K d s e = Inl Undefined_behaviour"
proof -
  obtain d' where d: "d = Suc d'" using assms(4) by (cases d) auto
  let ?h = "2 ^ d' :: nat"
  have h: "s \<le> ?h - 1 \<longleftrightarrow> s < ?h" using zero_less_power[of "2 :: nat" d'] by linarith
  have ne: "\<not> (s = 0 \<and> e = 2 ^ Suc d' - 1)" using assms(3) d by simp
  show ?thesis
  proof (cases "s < ?h")
    case True
    then have "derive_leaves_aux prg None d' s (if ?h \<le> e then ?h - 1 else e) = Inl Undefined_behaviour"
      using assms(1) by (intro derive_leaves_aux_dangling) auto
    with True show ?thesis
      by (simp only: derive_leaves_def d derive_leaves_aux.simps(2) ne h Let_def) simp
  next
    case False
    then have "derive_leaves_aux prg None d' (s - ?h) (e - ?h) = Inl Undefined_behaviour" "?h \<le> e"
      using assms(1,2) d by (auto intro!: derive_leaves_aux_dangling)
    with False show ?thesis
      by (simp only: derive_leaves_def d derive_leaves_aux.simps(2) ne h Let_def) simp
  qed
qed

section \<open>Leaves and coverings over a key stream\<close>

context prg_stream
begin

lemmas prg_halves = prg_double[of kTokenSize]

definition leaves :: "token \<Rightarrow> nat \<Rightarrow> token list" where
  "leaves K d = map (\<lambda>i. node prg K i d) [0..<2 ^ d]"

lemma map_node_right:
  "b \<le> 2 ^ d \<Longrightarrow> map (\<lambda>i. node prg K i (Suc d)) [2 ^ d + a..<2 ^ d + b] =
     map (\<lambda>i. node prg (prg K kTokenSize kTokenSize) i d) [a..<b]"
  by (rule nth_equalityI) (simp_all add: node_right add.assoc del: node.simps)

lemma map_node_left:
  "b \<le> 2 ^ d \<Longrightarrow> map (\<lambda>i. node prg K i (Suc d)) [a..<b] =
     map (\<lambda>i. node prg (prg K 0 kTokenSize) i d) [a..<b]"
  by (rule nth_equalityI) (simp_all add: node_left del: node.simps)

lemma leaves_Suc: "leaves K (Suc d) = leaves (prg K 0 kTokenSize) d @ leaves (prg K kTokenSize kTokenSize) d"
proof -
  have "[0..<2 ^ Suc d] = [0..<2 ^ d] @ [2 ^ d + 0..<2 ^ d + 2 ^ d :: nat]"
    using upt_add_eq_append[of 0 "2 ^ d" "2 ^ d"] by (simp add: mult_2)
  then show ?thesis
    unfolding leaves_def by (simp only: map_append map_node_left[OF order_refl] map_node_right[OF order_refl])
qed

lemma derive_all_leaves_aux_eq: "derive_all_leaves_aux prg K (Suc d) = leaves K (Suc d)"
proof (induction d arbitrary: K)
  case 0
  then show ?case by (simp only: leaves_Suc) (simp add: leaves_def prg_halves)
next
  case (Suc d)
  have "derive_all_leaves_aux prg K (Suc (Suc d)) =
      derive_all_leaves_aux prg (prg K 0 kTokenSize) (Suc d) @
      derive_all_leaves_aux prg (prg K kTokenSize kTokenSize) (Suc d)"
    by (simp only: derive_all_leaves_aux.simps(2)[of _ _ "Suc d"] Let_def prg_halves nat.distinct if_False)
  then show ?case by (simp only: Suc leaves_Suc[of K "Suc d"])
qed

lemma derive_all_leaves_eq: "derive_all_leaves prg K d = leaves K d"
  by (cases d) (simp_all only: derive_all_leaves_def derive_all_leaves_aux_eq, simp_all add: leaves_def)

lemma covering_list_eq:
  assumes "0 < n" "n \<le> 2 ^ d"
  shows "\<exists>l. covering_list_aux prg K n d = Inr l \<and>
           concat (map (\<lambda>(t, dep). derive_all_leaves prg t dep) l) = map (\<lambda>i. node prg K i d) [0..<n]"
  using assms
proof (induction d arbitrary: K n)
  case 0
  then have "n = 1" by simp
  then show ?case by (simp add: derive_all_leaves_def)
next
  case (Suc d)
  consider "n = 2 ^ Suc d" | "n \<noteq> 2 ^ Suc d" "2 ^ d < n" | "n \<le> 2 ^ d" by linarith
  then show ?case
  proof cases
    case 1
    then show ?thesis
      using Suc.prems by (auto simp: derive_all_leaves_eq leaves_def simp del: node.simps)
  next
    case 2
    let ?R = "prg K kTokenSize kTokenSize"
    obtain l where l: "covering_list_aux prg ?R (n - 2 ^ d) d = Inr l"
      "concat (map (\<lambda>(t, dep). derive_all_leaves prg t dep) l) = map (\<lambda>i. node prg ?R i d) [0..<n - 2 ^ d]"
    proof -
      have "0 < n - 2 ^ d" "n - 2 ^ d \<le> 2 ^ d" using Suc.prems 2 by simp_all
      from Suc.IH[OF this, of ?R] show ?thesis using that by blast
    qed
    have "[0..<n] = [0..<2 ^ d] @ [2 ^ d + 0..<2 ^ d + (n - 2 ^ d)]"
      using upt_add_eq_append[of 0 "2 ^ d" "n - 2 ^ d"] 2 by simp
    then have "map (\<lambda>i. node prg K i (Suc d)) [0..<n] =
        leaves (prg K 0 kTokenSize) d @ map (\<lambda>i. node prg ?R i d) [0..<n - 2 ^ d]"
      using Suc.prems map_node_right[of "n - 2 ^ d" d K 0] by (simp only: map_append map_node_left[OF order_refl])
        (simp add: leaves_def del: node.simps)
    then show ?thesis
      using 2 l by (simp add: derive_all_leaves_eq del: node.simps)
  next
    case 3
    then show ?thesis
      using Suc.IH[of n "prg K 0 kTokenSize"] Suc.prems by (simp add: map_node_left[OF 3, of K 0] del: node.simps)
  qed
qed


text \<open>The first subtree of a covering is the largest that fits.\<close>

lemma covering_list_first:
  assumes "0 < n" "n \<le> 2 ^ d"
  shows "\<exists>t dep l. covering_list_aux prg K n d = Inr ((t, dep) # l) \<and> n < 2 ^ Suc dep"
  using assms
proof (induction d arbitrary: K n)
  case 0
  then have "n = 1" by simp
  then show ?case by simp
next
  case (Suc d)
  consider "n = 2 ^ Suc d" | "n \<noteq> 2 ^ Suc d" "2 ^ d < n" | "n \<le> 2 ^ d" by linarith
  then show ?case
  proof cases
    case 2
    then have "0 < n - 2 ^ d" "n - 2 ^ d \<le> 2 ^ d" using Suc.prems by simp_all
    then obtain l where "covering_list_aux prg (prg K kTokenSize kTokenSize) (n - 2 ^ d) d = Inr l"
      using covering_list_eq by blast
    then show ?thesis using 2 Suc.prems by simp
  next
    case 3
    then show ?thesis using Suc.IH[of n "prg K 0 kTokenSize"] Suc.prems by simp
  qed simp
qed

lemma covering_list_aux_errors:
  "covering_list_aux prg K 0 d = Inl Assertion_failed"
  "2 ^ d < n \<Longrightarrow> covering_list_aux prg K n d = Inl Undefined_behaviour"
proof -
  show "covering_list_aux prg K 0 d = Inl Assertion_failed" by (cases d) simp_all
  show "2 ^ d < n \<Longrightarrow> covering_list_aux prg K n d = Inl Undefined_behaviour"
  proof (induction d arbitrary: K n)
    case (Suc d)
    moreover from Suc have "2 ^ d < n - 2 ^ d" "2 ^ d < n" by auto
    ultimately show ?case by simp
  qed simp
qed

subsection \<open>Coverings without the deleted leaves\<close>

definition span :: "token \<Rightarrow> nat \<Rightarrow> nat \<times> nat \<Rightarrow> token multiset" where
  "span K D lj = (case lj of (l, j) \<Rightarrow> mset (leaves (node prg K j l) (D - l)))"

lemma span_split: "l < D \<Longrightarrow> span K D (l, j) = span K D (Suc l, 2 * j) + span K D (Suc l, 2 * j + 1)"
proof -
  assume "l < D"
  then have "D - l = Suc (D - Suc l)" by simp
  then show ?thesis
    using node_snoc[of 0 prg K j l] node_snoc[of 1 prg K j l]
    by (simp add: span_def leaves_Suc del: node.simps)
qed

fun level_cover :: "token \<Rightarrow> nat \<Rightarrow> nat \<Rightarrow> nat \<Rightarrow> int list \<Rightarrow> token multiset" where
  "level_cover K D l j [] = {#}"
| "level_cover K D l j (v # row) = (if v = 2 then span K D (l, j) else {#}) + level_cover K D l (Suc j) row"

definition spans :: "token \<Rightarrow> nat \<Rightarrow> (nat \<times> nat) list \<Rightarrow> token multiset" where
  "spans K D ts = sum_list (map (span K D) ts)"

lemma spans_simps [simp]:
  "spans K D [] = {#}" "spans K D (t # ts) = span K D t + spans K D ts"
  "spans K D (ts @ us) = spans K D ts + spans K D us"
  by (simp_all add: spans_def)

lemma merge_level_cover:
  assumes "set row \<subseteq> {0, 1, 2}" "even (length row)" "i < D" "merge_level i j row = (row', ts)"
  shows "set row' \<subseteq> {0, 1, 2} \<and> length row = 2 * length row' \<and> (\<forall>(l, k) \<in> set ts. l \<le> Suc i) \<and>
    spans K D ts + (if i = 0 then {#} else level_cover K D i j row') = level_cover K D (Suc i) (2 * j) row"
  using assms
proof (induction row arbitrary: j row' ts rule: induct_list012)
  case (3 a b row)
  obtain ps us where m: "merge_level i (Suc j) row = (ps, us)" by force
  have ih: "set ps \<subseteq> {0, 1, 2}" "length row = 2 * length ps" "\<forall>(l, k) \<in> set us. l \<le> Suc i"
    "spans K D us + (if i = 0 then {#} else level_cover K D i (Suc j) ps) =
       level_cover K D (Suc i) (Suc (Suc (2 * j))) row"
    using "3.IH"(1)[OF _ _ "3.prems"(3) m] "3.prems"(1,2) by auto
  have sp: "span K D (i, j) = span K D (Suc i, 2 * j) + span K D (Suc i, Suc (2 * j))"
    using span_split[OF "3.prems"(3), of K j] by simp
  consider "a = 2" "b = 2" | "a = 2" "b \<in> {0, 1}" | "a \<in> {0, 1}" "b = 2" | "a \<in> {0, 1}" "b \<in> {0, 1}"
    using "3.prems"(1) by auto
  then show ?case
    using "3.prems"(4) ih sp by cases (auto simp: m add_ac split: if_splits)
qed auto

lemma merge_levels_cover:
  assumes "set row \<subseteq> {0, 1, 2}" "length row = 2 ^ L" "0 < L" "L \<le> D"
  shows "spans K D (merge_levels L row) = level_cover K D L 0 row \<and> (\<forall>(l, k) \<in> set (merge_levels L row). l \<le> L)"
  using assms
proof (induction L arbitrary: row)
  case (Suc i)
  obtain row' ts where m: "merge_level i 0 row = (row', ts)" by force
  note c = merge_level_cover[OF Suc.prems(1) _ _ m, of D K]
  have r: "set row' \<subseteq> {0, 1, 2}" "length row' = 2 ^ i" "\<forall>(l, k) \<in> set ts. l \<le> Suc i"
    "spans K D ts + (if i = 0 then {#} else level_cover K D i 0 row') = level_cover K D (Suc i) 0 row"
    using c Suc.prems by auto
  show ?case
  proof (cases "i = 0")
    case True
    then show ?thesis using r m by auto
  next
    case False
    then have "spans K D (merge_levels i row') = level_cover K D i 0 row' \<and>
        (\<forall>(l, k) \<in> set (merge_levels i row'). l \<le> i)"
      using Suc.IH[OF r(1,2)] Suc.prems(4) by simp
    then show ?thesis using r False by (auto simp: m)
  qed
qed simp


lemma level_cover_leaves:
  "level_cover K D D j (map f [j..<m]) =
     mset (map (\<lambda>k. node prg K k D) (filter (\<lambda>k. f k = 2) [j..<m]))"
proof (induction "m - j" arbitrary: j)
  case 0
  then show ?case by simp
next
  case (Suc x)
  then have j: "[j..<m] = j # [Suc j..<m]" by (simp add: upt_conv_Cons)
  from Suc have "level_cover K D D (Suc j) (map f [Suc j..<m]) =
     mset (map (\<lambda>k. node prg K k D) (filter (\<lambda>k. f k = 2) [Suc j..<m]))" by simp
  then show ?case by (simp add: j span_def leaves_def)
qed

lemma spans_tokens:
  "\<forall>(l, k) \<in> set ts. l \<le> D \<Longrightarrow>
   mset (concat (map (\<lambda>(t, dep). derive_all_leaves prg t dep) (map (\<lambda>(l, j). (derive_node prg K j l, D - l)) ts))) =
     spans K D ts"
  by (induction ts) (auto simp: derive_all_leaves_eq derive_node_eq span_def)

lemma covering_list_del_cover:
  assumes "2 \<le> n" "n \<le> 2 ^ d" "\<forall>c \<in> set dels. c < n" "n \<le> 2 ^ 30"
  shows "\<exists>l. covering_list_del prg K n d dels = Inr l \<and>
    mset (concat (map (\<lambda>(t, dep). derive_all_leaves prg t dep) l)) =
      mset (map (\<lambda>i. node prg K i d) (filter (\<lambda>i. i \<notin> set dels) [0..<n]))"
  using assms(2)
proof (induction d arbitrary: K)
  case 0
  with assms(1) show ?case by simp
next
  case (Suc d)
  show ?case
  proof (cases "n \<le> 2 ^ d")
    case True
    have "map (\<lambda>i. node prg K i (Suc d)) (filter (\<lambda>i. i \<notin> set dels) [0..<n]) =
        map (\<lambda>i. node prg (prg K 0 kTokenSize) i d) (filter (\<lambda>i. i \<notin> set dels) [0..<n])"
      using True by (intro map_cong) (simp_all add: node_left del: node.simps)
    moreover have "covering_list_del prg K n (Suc d) dels = covering_list_del prg (prg K 0 kTokenSize) n d dels"
      using True assms(1) by (simp add: covering_list_del.simps[of _ _ _ "Suc d"])
    ultimately show ?thesis
      using Suc.IH[OF True, of "prg K 0 kTokenSize"] by (simp only: simp_thms)
  next
    case False
    let ?D = "Suc d"
    let ?f = "\<lambda>i. if i < n \<and> i \<notin> set dels then 2 else 0 :: int"
    let ?ts = "merge_levels ?D (map ?f [0..<2 ^ ?D])"
    have c: "spans K ?D ?ts = level_cover K ?D ?D 0 (map ?f [0..<2 ^ ?D])" "\<forall>(l, k) \<in> set ?ts. l \<le> ?D"
      using merge_levels_cover[of "map ?f [0..<2 ^ ?D]" ?D ?D K] by auto
    have dels: "\<not> list_ex (\<lambda>c. 2 ^ ?D \<le> c) dels" using assms(3) Suc.prems by (auto simp: list_ex_iff)
    have "(2 :: nat) ^ d < 2 ^ 30" using False assms(4) by linarith
    then have "d < 30" by (rule power_less_imp_less_exp[rotated]) simp
    then have "\<not> 30 < ?D" by simp
    have "covering_list_del prg K n ?D dels = Inr (map (\<lambda>(l, j). (derive_node prg K j l, ?D - l)) ?ts)"
      using False assms(1) Suc.prems dels \<open>\<not> 30 < ?D\<close> leaf_row_eq[of ?D n dels]
      by (simp add: covering_list_del.simps[of _ _ _ "Suc d"] del: merge_levels.simps)
    moreover have "filter (\<lambda>k. ?f k = 2) [0..<2 ^ ?D] = filter (\<lambda>i. i \<notin> set dels) [0..<n]"
    proof -
      have "[0..<2 ^ ?D] = [0..<n] @ [n..<2 ^ ?D]"
        using upt_add_eq_append[of 0 n "2 ^ ?D - n"] Suc.prems by simp
      then show ?thesis by (simp only: filter_append) (auto simp: filter_empty_conv intro: filter_cong)
    qed
    ultimately show ?thesis
      using spans_tokens[OF c(2), of K] c(1) level_cover_leaves[of K ?D 0 ?f "2 ^ ?D"] by (simp only: simp_thms)
        (metis (no_types, lifting))
  qed
qed

lemma covering_list_del_single:
  "covering_list_del prg K 1 d dels =
     (if list_ex (\<lambda>c. 1 \<le> c) dels then Inl Undefined_behaviour else Inr [])"
proof (induction d arbitrary: K)
  case 0
  then show ?case by (simp add: covering_list_del.simps[of _ _ _ 0])
next
  case (Suc d)
  then show ?case by (simp add: covering_list_del.simps[of _ _ _ "Suc d"])
qed

end

section \<open>Properties\<close>

text \<open>
  The recursive derivation of all leaves of a subtree gives, in order, what \<open>derive_node\<close> gives for each
  leaf index.
\<close>

theorem derive_all_leaves_nodes:
  "derive_all_leaves (derive_bytes aes) K d = map (\<lambda>i. derive_node (derive_bytes aes) K i d) [0..<2 ^ d]"
  by (simp add: stream.derive_all_leaves_eq stream.leaves_def derive_node_eq)

text \<open>
  C22. The derivation of a range of leaves is defined only when the range is the whole subtree: then it gives all
  leaves, in order, as \<open>derive_node\<close> gives them one by one. A range inside the subtree that is not the whole of it
  reads a child through a pointer whose array is gone.
\<close>

theorem derive_leaves_range:
  assumes "s \<le> e" "e < 2 ^ d"
  shows "derive_leaves (derive_bytes aes) K d s e =
     (if s = 0 \<and> e = 2 ^ d - 1 then Inr (map (\<lambda>i. derive_node (derive_bytes aes) K i d) [0..<2 ^ d])
      else Inl Undefined_behaviour)"
proof (cases "s = 0 \<and> e = 2 ^ d - 1")
  case True
  then show ?thesis
    by (simp add: derive_leaves_whole[unfolded One_nat_def] stream.derive_all_leaves_eq stream.leaves_def derive_node_eq)
next
  case False
  with assms have "0 < d" by (cases d) auto
  with False assms show ?thesis using derive_leaves_part[of s e d] by auto
qed

theorem derive_leaves_range_witness:
  "derive_leaves (derive_bytes xor_bytes) (replicate 16 1) 3 0 7 =
     Inr (map (\<lambda>i. derive_node (derive_bytes xor_bytes) (replicate 16 1) i 3) [0..<8]) \<and>
   derive_leaves (derive_bytes xor_bytes) (replicate 16 1) 3 2 5 = Inl Undefined_behaviour"
  using derive_leaves_range[of 0 7 3 xor_bytes "replicate 16 1"] derive_leaves_range[of 2 5 3 xor_bytes "replicate 16 1"]
  by simp

text \<open>
  C20. The covering list of the first \<open>n\<close> leaves of a tree, for \<open>n\<close> between 1 and the number of leaves, exists, and
  the leaves of its subtrees are exactly the leaves \<open>0\<close> to \<open>n - 1\<close>, each once and in order.
\<close>

theorem covering_list_exact:
  assumes "0 < n" "n \<le> 2 ^ d"
  shows "\<exists>l. covering_list (derive_bytes aes) K n d = Inr l \<and>
           concat (map (\<lambda>(t, dep). derive_all_leaves (derive_bytes aes) t dep) l) =
             map (\<lambda>i. derive_node (derive_bytes aes) K i d) [0..<n]"
  using stream.covering_list_eq[OF assms, of aes K] by (simp add: covering_list_def derive_node_eq)

theorem covering_list_exact_witness:
  "\<exists>l. covering_list (derive_bytes xor_bytes) (replicate 16 1) 11 48 = Inr l \<and>
     concat (map (\<lambda>(t, dep). derive_all_leaves (derive_bytes xor_bytes) t dep) l) =
       map (\<lambda>i. derive_node (derive_bytes xor_bytes) (replicate 16 1) i 48) [0..<11]"
  by (rule covering_list_exact) simp_all

text \<open>
  C21. The covering list that leaves out deleted counters, for at least two and at most \<open>2 ^ 30\<close> leaves in use: the
  leaves of its subtrees are exactly the leaves below \<open>n\<close> that are not deleted, each once.
\<close>

theorem covering_list_del_exact:
  assumes "2 \<le> n" "n \<le> 2 ^ d" "\<forall>c \<in> set dels. c < n" "n \<le> 2 ^ 30"
  shows "\<exists>l. covering_list_del (derive_bytes aes) K n d dels = Inr l \<and>
    mset (concat (map (\<lambda>(t, dep). derive_all_leaves (derive_bytes aes) t dep) l)) =
      mset (map (\<lambda>i. derive_node (derive_bytes aes) K i d) (filter (\<lambda>i. i \<notin> set dels) [0..<n]))"
  using stream.covering_list_del_cover[OF assms, of aes K] by (simp only: derive_node_eq)

theorem covering_list_del_exact_witness:
  "\<exists>l. covering_list_del (derive_bytes xor_bytes) (replicate 16 1) 9 48 [2, 5] = Inr l \<and>
    mset (concat (map (\<lambda>(t, dep). derive_all_leaves (derive_bytes xor_bytes) t dep) l)) =
      mset (map (\<lambda>i. derive_node (derive_bytes xor_bytes) (replicate 16 1) i 48)
        (filter (\<lambda>i. i \<notin> set [2, 5]) [0..<9]))"
  by (rule covering_list_del_exact) simp_all

text \<open>
  With one leaf in use the covering list that leaves out deleted counters is empty, even when nothing is
  deleted: at depth 0 no level is merged and no node is taken.
\<close>

lemma covering_list_del_one:
  "covering_list_del (derive_bytes aes) K 1 d [] = Inr [] \<and> covering_list_del (derive_bytes aes) K 1 d [0] = Inr []"
  by (simp only: stream.covering_list_del_single) simp

end
