(* ===== verification/Diana.thy ===== *)
theory Diana
  imports TokenTree StdLib
begin

text \<open>
  Diana's client and server: \<open>src/src/diana/diana_client.hpp\<close>, \<open>src/src/diana/diana_server.hpp\<close>,
  \<open>src/src/diana/diana_common.cpp\<close> and \<open>src/src/diana/types.hpp\<close>. The client keeps the last counter of each
  keyword, stores the \<open>i\<close>-th index of a keyword under a token derived from leaf \<open>i\<close> of the keyword's tree, and
  searches with a covering list. The server derives the leaves, sequentially or with several threads.

  An index of the template type \<open>T\<close> is its \<open>sizeof(T)\<close> bytes. \<open>hash\<close> stands for \<open>crypto::Hash::hash\<close>; the two
  keyed functions of a client are fields of its record. Counters are 32-bit and wrap around.
\<close>

section \<open>Types and masks\<close>

definition kUpdateTokenSize :: nat where
  "kUpdateTokenSize = 16"

definition kTreeDepth :: nat where
  "kTreeDepth = 48"

definition kKeywordIndexSize :: nat where
  "kKeywordIndexSize = 16"

record SearchRequest =
  token_list :: "(token \<times> nat) list"
  add_count :: nat
  kw_token :: bytes

record UpdateRequest =
  ur_token :: bytes
  ur_index :: bytes

record diana_client =
  ramCounter :: "string \<rightharpoonup> nat"
  root_prf :: "bytes \<Rightarrow> bytes"
  kw_token_prf :: "bytes \<Rightarrow> bytes"

record diana_server =
  usehdd :: bool
  d_edb :: "bytes \<rightharpoonup> bytes"
  curMap :: "bytes \<rightharpoonup> bytes"
  delCntMap :: "bytes \<rightharpoonup> bytes"

definition xor_mask :: "bytes \<Rightarrow> bytes \<Rightarrow> bytes" where
  "xor_mask index msk = xor_bytes index msk"

definition gen_update_token_mask :: "prg_fun \<Rightarrow> token \<Rightarrow> nat \<Rightarrow> bytes \<times> bytes" where
  "gen_update_token_mask prg search_token mask_len =
     (prg search_token 0 kUpdateTokenSize, prg search_token kUpdateTokenSize mask_len)"

section \<open>Client\<close>

definition DianaClient :: "(bytes \<Rightarrow> bytes) \<Rightarrow> (bytes \<Rightarrow> bytes) \<Rightarrow> diana_client" where
  "DianaClient rp kp = \<lparr>ramCounter = Map.empty, root_prf = rp, kw_token_prf = kp\<rparr>"

definition get_keyword_index :: "(string \<Rightarrow> bytes) \<Rightarrow> string \<Rightarrow> bytes" where
  "get_keyword_index hash kw = take kKeywordIndexSize (hash kw)"

definition get_match_count :: "diana_client \<Rightarrow> string \<Rightarrow> nat" where
  "get_match_count c kw = (case ramCounter c kw of None \<Rightarrow> 0 | Some n \<Rightarrow> n)"

definition search_request ::
    "prg_fun \<Rightarrow> (string \<Rightarrow> bytes) \<Rightarrow> diana_client \<Rightarrow> string \<Rightarrow> SearchRequest res" where
  "search_request prg hash c keyword =
     (let kw_index = get_keyword_index hash keyword
      in case ramCounter c keyword of
           None \<Rightarrow> Inr \<lparr>token_list = [], add_count = 0, kw_token = []\<rparr>
         | Some kw_counter \<Rightarrow>
             (let cnt = (kw_counter + 1) mod 2 ^ 32;
                  root = root_prf c kw_index
              in bindE (covering_list prg root cnt kTreeDepth) (\<lambda>l.
                   Inr \<lparr>token_list = l, add_count = cnt, kw_token = kw_token_prf c kw_index\<rparr>)))"

definition search_request_del ::
    "prg_fun \<Rightarrow> (string \<Rightarrow> bytes) \<Rightarrow> diana_client \<Rightarrow> string \<Rightarrow> nat list \<Rightarrow> SearchRequest res" where
  "search_request_del prg hash c keyword delCnts =
     (let kw_index = get_keyword_index hash keyword
      in case ramCounter c keyword of
           None \<Rightarrow> Inr \<lparr>token_list = [], add_count = 0, kw_token = []\<rparr>
         | Some kw_counter \<Rightarrow>
             (let cnt = (kw_counter + 1) mod 2 ^ 32;
                  root = root_prf c kw_index
              in bindE (if delCnts = [] then covering_list prg root cnt kTreeDepth
                        else covering_list_del prg root cnt kTreeDepth delCnts) (\<lambda>l.
                   Inr \<lparr>token_list = l, add_count = cnt, kw_token = kw_token_prf c kw_index\<rparr>)))"

definition next_counter :: "(string \<rightharpoonup> nat) \<Rightarrow> string \<Rightarrow> nat" where
  "next_counter m keyword = (case m keyword of None \<Rightarrow> 0 | Some n \<Rightarrow> (n + 1) mod 2 ^ 32)"

definition make_request ::
    "prg_fun \<Rightarrow> (string \<Rightarrow> bytes) \<Rightarrow> diana_client \<Rightarrow> string \<Rightarrow> bytes \<Rightarrow> nat \<Rightarrow> UpdateRequest" where
  "make_request prg hash c keyword index kw_counter =
     (let kw_index = get_keyword_index hash keyword;
          root = root_prf c kw_index;
          st = derive_node prg root kw_counter kTreeDepth;
          (tok, msk) = gen_update_token_mask prg st (length index)
      in \<lparr>ur_token = tok, ur_index = xor_mask index msk\<rparr>)"

definition update_request ::
    "prg_fun \<Rightarrow> (string \<Rightarrow> bytes) \<Rightarrow> string \<Rightarrow> bytes \<Rightarrow> diana_client \<Rightarrow>
     diana_client \<times> UpdateRequest \<times> nat" where
  "update_request prg hash keyword index c =
     (let kw_counter = next_counter (ramCounter c) keyword;
          c' = c\<lparr>ramCounter := (ramCounter c)(keyword \<mapsto> kw_counter)\<rparr>
      in (c', make_request prg hash c keyword index kw_counter, kw_counter))"

fun get_counters_and_increment ::
    "(string \<times> bytes) list \<Rightarrow> diana_client \<Rightarrow> diana_client \<times> (string \<times> bytes \<times> nat) list" where
  "get_counters_and_increment [] c = (c, [])"
| "get_counters_and_increment ((keyword, index) # us) c =
     (let kw_counter = next_counter (ramCounter c) keyword;
          (c', r) = get_counters_and_increment us (c\<lparr>ramCounter := (ramCounter c)(keyword \<mapsto> kw_counter)\<rparr>)
      in (c', (keyword, index, kw_counter) # r))"

definition bulk_update_request ::
    "prg_fun \<Rightarrow> (string \<Rightarrow> bytes) \<Rightarrow> (string \<times> bytes) list \<Rightarrow> diana_client \<Rightarrow>
     diana_client \<times> UpdateRequest list" where
  "bulk_update_request prg hash update_list c =
     (let (c', counter_list) = get_counters_and_increment update_list c
      in (c', map (\<lambda>(keyword, index, kw_counter). make_request prg hash c' keyword index kw_counter)
                counter_list))"

definition remove_keyword :: "string \<Rightarrow> diana_client \<Rightarrow> diana_client \<times> bool" where
  "remove_keyword kw c = (c\<lparr>ramCounter := (ramCounter c)(kw := None)\<rparr>, True)"

section \<open>Server\<close>

definition DianaServer :: "bool \<Rightarrow> diana_server" where
  "DianaServer hdd = \<lparr>usehdd = hdd, d_edb = Map.empty, curMap = Map.empty, delCntMap = Map.empty\<rparr>"

text \<open>The database overwrites an entry; \<open>std::map::insert\<close> keeps the old one.\<close>

definition diana_update :: "UpdateRequest \<Rightarrow> diana_server \<Rightarrow> diana_server" where
  "diana_update req s =
     (if usehdd s then s\<lparr>d_edb := (d_edb s)(ur_token req \<mapsto> ur_index req)\<rparr>
      else case curMap s (ur_token req) of
             None \<Rightarrow> s\<lparr>curMap := (curMap s)(ur_token req \<mapsto> ur_index req)\<rparr>
           | Some _ \<Rightarrow> s)"

definition retrieve_entry :: "bytes \<Rightarrow> bool \<Rightarrow> diana_server \<Rightarrow> diana_server \<times> bytes option" where
  "retrieve_entry key delete_key s =
     (let found = (if usehdd s then d_edb s key else curMap s key);
          s' = (if delete_key \<and> found \<noteq> None then
                  (if usehdd s then s\<lparr>d_edb := (d_edb s)(key := None)\<rparr>
                   else s\<lparr>curMap := (curMap s)(key := None)\<rparr>)
                else s)
      in (s', found))"

definition get_unmask ::
    "prg_fun \<Rightarrow> nat \<Rightarrow> bool \<Rightarrow> token \<Rightarrow> diana_server \<Rightarrow> diana_server \<times> bytes option" where
  "get_unmask prg sz delete_key key s =
     (let (ut, msk) = gen_update_token_mask prg key sz;
          (s', found) = retrieve_entry ut delete_key s
      in (s', map_option (\<lambda>index. xor_mask index msk) found))"

text \<open>The callback of a search on the derived leaves: the indexes it posts.\<close>

fun unmask_keys ::
    "prg_fun \<Rightarrow> nat \<Rightarrow> bool \<Rightarrow> token list \<Rightarrow> diana_server \<Rightarrow> diana_server \<times> bytes list" where
  "unmask_keys prg sz del [] s = (s, [])"
| "unmask_keys prg sz del (k # ks) s =
     (let (s1, r) = get_unmask prg sz del k s;
          (s2, rs) = unmask_keys prg sz del ks s1
      in (s2, case r of None \<Rightarrow> rs | Some index \<Rightarrow> index # rs))"

fun search_tokens ::
    "prg_fun \<Rightarrow> nat \<Rightarrow> bool \<Rightarrow> (token \<times> nat) list \<Rightarrow> diana_server \<Rightarrow> diana_server \<times> bytes list" where
  "search_tokens prg sz del [] s = (s, [])"
| "search_tokens prg sz del ((t, depth) # ts) s =
     (let (s1, r) = unmask_keys prg sz del (derive_all_leaves prg t depth) s;
          (s2, rs) = search_tokens prg sz del ts s1
      in (s2, r @ rs))"

definition diana_search ::
    "prg_fun \<Rightarrow> nat \<Rightarrow> bool \<Rightarrow> SearchRequest \<Rightarrow> diana_server \<Rightarrow> diana_server \<times> bytes list" where
  "diana_search prg sz del req s = search_tokens prg sz del (token_list req) s"

text \<open>The naive search; \<open>1 << depth\<close> is a shift of an \<open>int\<close>.\<close>

fun search_simple_tokens ::
    "prg_fun \<Rightarrow> nat \<Rightarrow> bool \<Rightarrow> (token \<times> nat) list \<Rightarrow> diana_server \<Rightarrow> (diana_server \<times> bytes list) res" where
  "search_simple_tokens prg sz del [] s = Inr (s, [])"
| "search_simple_tokens prg sz del ((t, depth) # ts) s =
     (if 31 \<le> depth then Inl Undefined_behaviour
      else
        let (s1, r) = unmask_keys prg sz del (map (\<lambda>i. derive_node prg t i depth) [0..<2 ^ depth]) s
        in bindE (search_simple_tokens prg sz del ts s1) (\<lambda>(s2, rs). Inr (s2, r @ rs)))"

definition search_simple ::
    "prg_fun \<Rightarrow> nat \<Rightarrow> bool \<Rightarrow> SearchRequest \<Rightarrow> diana_server \<Rightarrow> (diana_server \<times> bytes list) res" where
  "search_simple prg sz del req s = search_simple_tokens prg sz del (token_list req) s"

subsection \<open>The threads\<close>

text \<open>The leaves one thread derives: those numbered \<open>min_index\<close> to \<open>max_index\<close> in the whole list.\<close>

fun job_leaves :: "prg_fun \<Rightarrow> (token \<times> nat) list \<Rightarrow> nat \<Rightarrow> nat \<Rightarrow> token list res" where
  "job_leaves prg [] loc_min loc_max = Inr []"
| "job_leaves prg ((t, depth) # ts) loc_min loc_max =
     (let leaf_count = 2 ^ depth
      in if leaf_count \<le> loc_min then job_leaves prg ts (loc_min - leaf_count) (loc_max - leaf_count)
         else if leaf_count > loc_max then derive_leaves prg t depth loc_min loc_max
         else bindE (derive_leaves prg t depth loc_min (leaf_count - 1)) (\<lambda>ls.
              bindE (job_leaves prg ts 0 (loc_max - leaf_count)) (\<lambda>rs. Inr (ls @ rs))))"

text \<open>The body begins with \<open>req.token_list.begin()\<close> before it tests for the end of the list.\<close>

definition job ::
    "prg_fun \<Rightarrow> nat \<Rightarrow> bool \<Rightarrow> SearchRequest \<Rightarrow> nat \<times> nat \<Rightarrow> diana_server \<Rightarrow> (diana_server \<times> bytes list) res" where
  "job prg sz del req rng s =
     (if token_list req = [] then Inl Undefined_behaviour
      else bindE (job_leaves prg (token_list req) (fst rng) (snd rng)) (\<lambda>ks.
             Inr (unmask_keys prg sz del ks s)))"

fun thread_ranges :: "nat \<Rightarrow> nat \<Rightarrow> nat \<Rightarrow> nat \<Rightarrow> nat \<Rightarrow> nat \<Rightarrow> nat \<Rightarrow> (nat \<times> nat) list" where
  "thread_ranges n step remaining mn mx t 0 = []"
| "thread_ranges n step remaining mn mx t (Suc k) =
     (let mx' = (if t < remaining then mx + 1 else mx)
      in (mn, min mx' n - 1) # thread_ranges n step remaining mx' (mx' + step) (t + 1) k)"

text \<open>
  The threads in the order of their creation, which is the order in which their result lists are joined. They share the
  server's store only; without deletion of results they only read it, so every interleaving gives these results.
\<close>

fun run_jobs ::
    "prg_fun \<Rightarrow> nat \<Rightarrow> bool \<Rightarrow> SearchRequest \<Rightarrow> (nat \<times> nat) list \<Rightarrow> diana_server \<Rightarrow>
     (diana_server \<times> bytes list) res" where
  "run_jobs prg sz del req [] s = Inr (s, [])"
| "run_jobs prg sz del req (r # rs) s =
     bindE (job prg sz del req r s) (\<lambda>(s1, xs).
     bindE (run_jobs prg sz del req rs s1) (\<lambda>(s2, ys). Inr (s2, xs @ ys)))"

text \<open>
  Threads that delete their results erase from the same \<open>std::map\<close> without a lock, which is undefined. The database
  of the other mode may be used by several threads.
\<close>

definition search_simple_parallel ::
    "prg_fun \<Rightarrow> nat \<Rightarrow> bool \<Rightarrow> SearchRequest \<Rightarrow> nat \<Rightarrow> diana_server \<Rightarrow> (diana_server \<times> bytes list) res" where
  "search_simple_parallel prg sz del req threads_count s =
     (if threads_count = 0 then Inl Assertion_failed
      else if add_count req = 0 then Inr (s, [])
      else
        let n = add_count req;
            threads = min threads_count n;
            step = n div threads;
            remaining = n mod threads
        in if del \<and> \<not> usehdd s \<and> 1 < threads then Inl Undefined_behaviour
           else run_jobs prg sz del req (thread_ranges n step remaining 0 step 0 threads) s)"


section \<open>Searches derive the same leaves\<close>

lemma unmask_keys_append:
  "unmask_keys prg sz del (ks @ ls) s =
     (let (s1, r) = unmask_keys prg sz del ks s; (s2, rs) = unmask_keys prg sz del ls s1 in (s2, r @ rs))"
proof (induction ks arbitrary: s)
  case (Cons k ks)
  show ?case by (simp add: Cons.IH Let_def case_prod_beta split: option.splits)
qed simp

definition all_leaves :: "prg_fun \<Rightarrow> (token \<times> nat) list \<Rightarrow> token list" where
  "all_leaves prg ts = concat (map (\<lambda>(t, dep). derive_all_leaves prg t dep) ts)"

lemma search_tokens_leaves: "search_tokens prg sz del ts s = unmask_keys prg sz del (all_leaves prg ts) s"
  by (induction ts arbitrary: s) (auto simp: all_leaves_def unmask_keys_append Let_def case_prod_beta)

text \<open>A number of leaves that the subtrees of a token list make up from its beginning, or that is beyond all of them.\<close>

fun cut :: "(token \<times> nat) list \<Rightarrow> nat \<Rightarrow> bool" where
  "cut [] m = True"
| "cut ((t, d) # ts) m = (m = 0 \<or> 2 ^ d \<le> m \<and> cut ts (m - 2 ^ d))"

definition aligned :: "(token \<times> nat) list \<Rightarrow> (nat \<times> nat) list \<Rightarrow> bool" where
  "aligned ts rs = list_all (\<lambda>(a, b). cut ts a \<and> cut ts (Suc b)) rs"

lemma cut_0 [simp]: "cut ts 0"
  by (cases ts) auto

lemma cut_all: "(\<Sum>(t, d) \<leftarrow> ts. 2 ^ d) \<le> m \<Longrightarrow> cut ts m"
  by (induction ts arbitrary: m) auto

lemma derive_leaves_inside:
  assumes "s \<le> e" "e < 2 ^ d"
  shows "derive_leaves prg K d s e =
     (if s = 0 \<and> e = 2 ^ d - 1 then Inr (derive_all_leaves prg K d) else Inl Undefined_behaviour)"
proof (cases "s = 0 \<and> e = 2 ^ d - 1")
  case True
  then show ?thesis by (simp add: derive_leaves_whole[unfolded One_nat_def])
next
  case False
  with assms have "0 < d" by (cases d) auto
  with False assms show ?thesis using derive_leaves_part[of s e d] by auto
qed

lemma thread_ranges_cover:
  assumes "mx = mn + step" "0 < step" "mn + k * step + (remaining - t) = n" "remaining - t \<le> k"
  shows "concat (map (\<lambda>(a, b). [a..<Suc b]) (thread_ranges n step remaining mn mx t k)) = [mn..<n] \<and>
         (\<forall>(a, b) \<in> set (thread_ranges n step remaining mn mx t k). a \<le> b \<and> b < n)"
  using assms
proof (induction k arbitrary: mn mx t)
  case 0
  then show ?case by simp
next
  case (Suc k)
  define m where "m = (if t < remaining then mx + 1 else mx)"
  have le: "m \<le> n" "mn < m" using Suc.prems by (auto simp: m_def split: if_splits)
  have ih: "concat (map (\<lambda>(a, b). [a..<Suc b]) (thread_ranges n step remaining m (m + step) (t + 1) k)) = [m..<n] \<and>
      (\<forall>(a, b) \<in> set (thread_ranges n step remaining m (m + step) (t + 1) k). a \<le> b \<and> b < n)"
    using Suc.prems by (intro Suc.IH) (auto simp: m_def split: if_splits)
  have "[mn..<n] = [mn..<m] @ [m..<n]"
    using upt_add_eq_append[of mn m "n - m"] le by simp
  moreover have "Suc (min m n - 1) = m" "mn \<le> min m n - 1" "min m n - 1 < n" using le by auto
  moreover have "thread_ranges n step remaining mn mx t (Suc k) =
      (mn, min m n - 1) # thread_ranges n step remaining m (m + step) (t + 1) k"
    by (simp add: m_def)
  ultimately show ?case using ih
    by (simp only: list.map concat.simps prod.case list.set ball_simps simp_thms) blast
qed

context prg_stream
begin

lemma length_leaves [simp]: "length (derive_all_leaves prg t d) = 2 ^ d"
  by (simp add: derive_all_leaves_eq leaves_def)

lemma job_leaves_slice:
  "mn \<le> mx \<Longrightarrow> job_leaves prg ts mn mx =
     (if cut ts mn \<and> cut ts (Suc mx) then Inr (take (Suc mx - mn) (drop mn (all_leaves prg ts)))
      else Inl Undefined_behaviour)"
proof (induction ts arbitrary: mn mx)
  case Nil
  then show ?case by (simp add: all_leaves_def)
next
  case (Cons e ts)
  obtain t d where e: "e = (t, d)" by force
  let ?c = "2 ^ d :: nat"
  have al: "all_leaves prg (e # ts) = derive_all_leaves prg t d @ all_leaves prg ts" by (simp add: all_leaves_def e)
  have len: "length (derive_all_leaves prg t d) = ?c" by simp
  consider "?c \<le> mn" | "mn < ?c" "mx < ?c" | "mn < ?c" "?c \<le> mx" by linarith
  then show ?case
  proof cases
    case 1
    moreover from 1 have "mn \<noteq> 0" by (cases mn) auto
    ultimately have "Suc (mx - ?c) - (mn - ?c) = Suc mx - mn" "Suc mx - ?c = Suc (mx - ?c)" "mn \<noteq> 0" "?c \<le> Suc mx"
      using Cons.prems by (simp_all add: Suc_diff_le)
    then show ?thesis using 1 Cons.IH[of "mn - ?c" "mx - ?c"] Cons.prems by (simp add: e al[unfolded e] Let_def)
  next
    case 2
    then have "cut (e # ts) mn \<and> cut (e # ts) (Suc mx) \<longleftrightarrow> mn = 0 \<and> mx = ?c - 1" by (auto simp: e)
    moreover have "job_leaves prg (e # ts) mn mx = derive_leaves prg t d mn mx" using 2 by (simp add: e)
    ultimately show ?thesis
      using derive_leaves_inside[OF Cons.prems 2(2), of prg t] len
      by (simp add: al del: derive_all_leaves_aux.simps cut.simps One_nat_def)
  next
    case 3
    show ?thesis
    proof (cases "mn = 0")
      case True
      have "job_leaves prg (e # ts) mn mx = bindE (job_leaves prg ts 0 (mx - ?c)) (\<lambda>rs. Inr (derive_all_leaves prg t d @ rs))"
        using 3 derive_leaves_whole[of prg t d] by (simp add: e True)
      moreover have n: "Suc mx - ?c = Suc (mx - ?c)" using 3 by simp
      moreover have "cut (e # ts) (Suc mx) = cut ts (Suc (mx - ?c))" using 3 by (simp add: e n)
      moreover have "take (Suc mx) (all_leaves prg (e # ts)) = derive_all_leaves prg t d @ take (Suc (mx - ?c)) (all_leaves prg ts)"
        using 3 len by (simp add: al n)
      ultimately show ?thesis using True Cons.IH[of 0 "mx - ?c"] by (simp del: cut.simps take_Suc)
    next
      case False
      have "derive_leaves prg t d mn (?c - 1) = Inl Undefined_behaviour"
        using 3 False derive_leaves_inside[of mn "?c - 1" d prg t] by simp
      then show ?thesis using 3 False by (simp add: e)
    qed
  qed
qed

lemma run_jobs_ranges:
  assumes "token_list req \<noteq> []" "\<forall>(a, b) \<in> set rs. a \<le> b"
    and "concat (map (\<lambda>(a, b). [a..<Suc b]) rs) = [mn..<n]"
  shows "run_jobs prg sz del req rs s =
    (if aligned (token_list req) rs
     then Inr (unmask_keys prg sz del (take (n - mn) (drop mn (all_leaves prg (token_list req)))) s)
     else Inl Undefined_behaviour)"
  using assms(2,3)
proof (induction rs arbitrary: mn s)
  case Nil
  then have "[mn..<n] = []" by simp
  then have "n - mn = 0" by (simp only: upt_eq_Nil_conv) auto
  then show ?case by (simp add: aligned_def)
next
  case (Cons r rs)
  obtain a b where r: "r = (a, b)" by force
  have ab: "a \<le> b" using Cons.prems r by simp
  have c: "a # [Suc a..<Suc b] @ concat (map (\<lambda>(a, b). [a..<Suc b]) rs) = [mn..<n]"
    using Cons.prems(2) ab by (simp add: r upt_conv_Cons[of a "Suc b"] del: upt_Suc)
  then have mn: "a = mn" "mn < n" by (cases "mn < n"; simp add: upt_conv_Cons)+
  have eq: "[mn..<Suc b] @ concat (map (\<lambda>(a, b). [a..<Suc b]) rs) = [mn..<n]"
    using Cons.prems(2) mn by (simp add: r)
  then have "length [mn..<Suc b] \<le> length [mn..<n]" by (metis length_append le_add1)
  then have bn: "Suc b \<le> n" using ab mn by simp
  then have "[mn..<n] = [mn..<Suc b] @ [Suc b..<n]"
    using upt_add_eq_append[of mn "Suc b" "n - Suc b"] ab mn by (simp del: upt_Suc)
  with eq have tl: "concat (map (\<lambda>(a, b). [a..<Suc b]) rs) = [Suc b..<n]" by simp
  have "n - mn = (Suc b - mn) + (n - Suc b)" "Suc b - mn + mn = Suc b" using bn ab mn by simp_all
  then have "take (n - mn) (drop mn xs) = take (Suc b - mn) (drop mn xs) @ take (n - Suc b) (drop (Suc b) xs)"
    for xs :: "token list"
    by (simp only: take_add drop_drop)
  moreover have "\<forall>(a, b) \<in> set rs. a \<le> b" using Cons.prems by simp
  ultimately show ?case
    using assms(1) ab mn(1) Cons.IH[OF _ tl]
    by (simp add: r job_def job_leaves_slice unmask_keys_append case_prod_beta Let_def aligned_def)
qed

lemma length_all_leaves: "length (all_leaves prg ts) = (\<Sum>(t, d) \<leftarrow> ts. 2 ^ d)"
  by (induction ts) (auto simp: all_leaves_def)

lemma search_simple_parallel_cuts:
  assumes "token_list req \<noteq> []" "0 < threads" "length (all_leaves prg (token_list req)) \<le> add_count req"
    and "t = min threads (add_count req)" "del \<longrightarrow> t = 1 \<or> usehdd s"
  shows "search_simple_parallel prg sz del req threads s =
    (if aligned (token_list req) (thread_ranges (add_count req) (add_count req div t) (add_count req mod t) 0 (add_count req div t) 0 t)
     then Inr (diana_search prg sz del req s) else Inl Undefined_behaviour)"
proof -
  let ?n = "add_count req"
  have "all_leaves prg (token_list req) \<noteq> []"
    using assms(1) by (cases "token_list req") (auto simp: all_leaves_def dest: arg_cong[of _ _ length])
  then have n: "0 < ?n" using assms(3) by (cases "?n = 0") auto
  then have t: "0 < t" "0 < ?n div t" using assms(2,4) by (simp_all add: div_greater_zero_iff)
  have "t * (?n div t) + ?n mod t = ?n" "?n mod t \<le> t"
    using mod_less_divisor[OF t(1), of ?n] by (simp_all only: mult_div_mod_eq less_imp_le)
  then have c: "concat (map (\<lambda>(a, b). [a..<Suc b]) (thread_ranges ?n (?n div t) (?n mod t) 0 (?n div t) 0 t)) = [0..<?n]"
    "\<forall>(a, b) \<in> set (thread_ranges ?n (?n div t) (?n mod t) 0 (?n div t) 0 t). a \<le> b"
    using thread_ranges_cover[of "?n div t" 0 "?n div t" t "?n mod t" 0 ?n] t(2) by auto
  have "\<not> (del \<and> \<not> usehdd s \<and> 1 < t)" using assms(5) by auto
  then have "search_simple_parallel prg sz del req threads s =
      run_jobs prg sz del req (thread_ranges ?n (?n div t) (?n mod t) 0 (?n div t) 0 t) s"
    using n assms(2) unfolding search_simple_parallel_def Let_def assms(4)[symmetric] by auto
  then show ?thesis
    using run_jobs_ranges[OF assms(1) c(2,1), of sz del s] assms(3)
    by (simp add: diana_search_def search_tokens_leaves)
qed

lemma search_simple_parallel_eq:
  assumes "token_list req \<noteq> []" "0 < threads" "threads = 1 \<or> add_count req = 1"
    and "length (all_leaves prg (token_list req)) \<le> add_count req"
  shows "search_simple_parallel prg sz del req threads s = Inr (diana_search prg sz del req s)"
proof -
  have "all_leaves prg (token_list req) \<noteq> []"
    using assms(1) by (cases "token_list req") (auto simp: all_leaves_def dest: arg_cong[of _ _ length])
  then have n: "0 < add_count req" using assms(4) by (cases "add_count req = 0") auto
  then have t: "min threads (add_count req) = 1" using assms(2,3) by auto
  have "cut (token_list req) (add_count req)" using assms(4) by (intro cut_all) (simp add: length_all_leaves)
  with n have "aligned (token_list req) (thread_ranges (add_count req) (add_count req) 0 0 (add_count req) 0 (Suc 0))"
    by (simp add: aligned_def)
  then show ?thesis
    using search_simple_parallel_cuts[OF assms(1,2,4) t[symmetric], of del s sz] by simp
qed

text \<open>Eight threads always cut the first subtree of a covering of at least two leaves.\<close>

lemma eight_threads_cut:
  assumes "2 \<le> n" "n < 2 ^ Suc d" "t = min 8 n"
  shows "\<not> aligned ((k, d) # ts) (thread_ranges n (n div t) (n mod t) 0 (n div t) 0 t)"
proof -
  have "2 \<le> t" "t \<le> n" using assms(1,3) by simp_all
  then obtain t' where t: "t = Suc t'" "2 \<le> t" "t \<le> n" by (cases t) simp_all
  define m where "m = (if 0 < n mod t then n div t + 1 else n div t)"
  have "0 < m" "m \<le> n" using t assms(1) by (auto simp: m_def div_greater_zero_iff Suc_le_eq)
  moreover have "m < 2 ^ d"
  proof (cases "n \<le> 8")
    case True
    then have "t = n" using assms(3) by simp
    then have "m = 1" using t by (simp add: m_def)
    moreover have "0 < d" using assms(1,2) by (cases d) auto
    ultimately show ?thesis using one_less_power[of "2 :: nat" d] by simp
  next
    case False
    then have "t = 8" using assms(3) by simp
    then have "m \<le> n div 8 + 1" by (simp add: m_def)
    moreover have "2 * (n div 8 + 1) \<le> n" using False by presburger
    ultimately have "2 * m < 2 * 2 ^ d" using assms(2) by simp
    then show ?thesis by simp
  qed
  ultimately have "\<not> cut ((k, d) # ts) (Suc (min m n - 1))" by auto
  moreover have "thread_ranges n (n div t) (n mod t) 0 (n div t) 0 t = (0, min m n - 1) # thread_ranges n (n div t) (n mod t) m (m + n div t) 1 t'"
    by (simp add: t(1) m_def Let_def)
  ultimately show ?thesis by (simp add: aligned_def del: cut.simps)
qed

lemma search_simple_eq:
  assumes "\<forall>(t, d) \<in> set (token_list req). d < 31"
  shows "search_simple prg sz del req s = Inr (diana_search prg sz del req s)"
proof -
  have "\<forall>(t, d) \<in> set ts. d < 31 \<Longrightarrow> search_simple_tokens prg sz del ts s = Inr (search_tokens prg sz del ts s)" for ts
    by (induction ts arbitrary: s)
      (auto simp: derive_all_leaves_eq leaves_def derive_node_eq case_prod_beta Let_def)
  with assms show ?thesis by (simp add: search_simple_def diana_search_def)
qed

end


section \<open>Updates followed by a search\<close>

text \<open>An update as the interface and the runners perform it: the client's request, applied by the server.\<close>

definition diana_insert ::
    "prg_fun \<Rightarrow> (string \<Rightarrow> bytes) \<Rightarrow> string \<times> bytes \<Rightarrow> diana_client \<times> diana_server \<Rightarrow> diana_client \<times> diana_server" where
  "diana_insert prg hash u cs =
     (let (c', req, _) = update_request prg hash (fst u) (snd u) (fst cs)
      in (c', diana_update req (snd cs)))"

definition entries :: "(string \<times> bytes) list \<Rightarrow> string \<Rightarrow> bytes list" where
  "entries us kw = map snd (filter (\<lambda>u. fst u = kw) us)"

definition leaf_token :: "prg_fun \<Rightarrow> (string \<Rightarrow> bytes) \<Rightarrow> (bytes \<Rightarrow> bytes) \<Rightarrow> string \<Rightarrow> nat \<Rightarrow> token" where
  "leaf_token prg hash rp kw i = derive_node prg (rp (get_keyword_index hash kw)) i kTreeDepth"

definition stored_token :: "prg_fun \<Rightarrow> (string \<Rightarrow> bytes) \<Rightarrow> (bytes \<Rightarrow> bytes) \<Rightarrow> string \<times> nat \<Rightarrow> bytes" where
  "stored_token prg hash rp ki = fst (gen_update_token_mask prg (leaf_token prg hash rp (fst ki) (snd ki)) 0)"

text \<open>No two updates in use share a token.\<close>

definition tokens_distinct ::
    "prg_fun \<Rightarrow> (string \<Rightarrow> bytes) \<Rightarrow> (bytes \<Rightarrow> bytes) \<Rightarrow> (string \<times> bytes) list \<Rightarrow> bool" where
  "tokens_distinct prg hash rp us \<longleftrightarrow>
     inj_on (stored_token prg hash rp) {(kw, i). i < length (entries us kw)}"

definition lookup :: "diana_server \<Rightarrow> bytes \<Rightarrow> bytes option" where
  "lookup s = (if usehdd s then d_edb s else curMap s)"

definition diana_inv ::
    "prg_fun \<Rightarrow> (string \<Rightarrow> bytes) \<Rightarrow> (bytes \<Rightarrow> bytes) \<Rightarrow> (string \<times> bytes) list \<Rightarrow> diana_client \<times> diana_server \<Rightarrow> bool" where
  "diana_inv prg hash rp us cs \<longleftrightarrow>
     root_prf (fst cs) = rp \<and>
     (\<forall>kw. ramCounter (fst cs) kw =
        (if entries us kw = [] then None else Some (length (entries us kw) - 1))) \<and>
     (\<forall>kw i. i < length (entries us kw) \<longrightarrow>
        lookup (snd cs) (stored_token prg hash rp (kw, i)) =
          Some (ur_index (make_request prg hash (fst cs) kw (entries us kw ! i) i))) \<and>
     dom (lookup (snd cs)) \<subseteq> stored_token prg hash rp ` {(kw, i). i < length (entries us kw)}"

lemma entries_snoc: "entries (us @ [u]) kw = entries us kw @ (if fst u = kw then [snd u] else [])"
  by (simp add: entries_def)

lemma length_entries: "length (entries us kw) \<le> length us"
  by (simp add: entries_def le_trans[OF length_filter_le])

lemma ur_token_make_request:
  "root_prf c = rp \<Longrightarrow> ur_token (make_request prg hash c kw x i) = stored_token prg hash rp (kw, i)"
  by (simp add: make_request_def stored_token_def leaf_token_def gen_update_token_mask_def Let_def)

lemma make_request_frame: "root_prf c' = root_prf c \<Longrightarrow> make_request prg hash c' = make_request prg hash c"
  by (simp add: make_request_def fun_eq_iff)

lemma lookup_diana_update:
  "lookup s (ur_token req) = None \<Longrightarrow> lookup (diana_update req s) = (lookup s)(ur_token req \<mapsto> ur_index req)"
  by (auto simp: lookup_def diana_update_def split: option.splits)

text \<open>A cipher on which the first two tokens of a keyword are simple to compute.\<close>

lemma stored_token_xor:
  assumes "length (rp (get_keyword_index hash kw)) = 16"
  shows "stored_token (derive_bytes xor_bytes) hash rp (kw, 0) = rp (get_keyword_index hash kw)"
    and "stored_token (derive_bytes xor_bytes) hash rp (kw, 1) = xor_bytes (rp (get_keyword_index hash kw)) (ctr_block 1)"
proof -
  let ?K = "rp (get_keyword_index hash kw)"
  have K: "derive_bytes xor_bytes ?K 0 kTokenSize = ?K"
    using assms by (simp add: kTokenSize_def kKeySize_def derive_bytes_xor_0)
  have x: "length (xor_bytes ?K (ctr_block 1)) = 16" using assms by (simp add: ctr_block_def)
  have "node (derive_bytes xor_bytes) ?K 1 kTreeDepth = xor_bytes ?K (ctr_block 1)"
    using node_fixpoint(2)[where prg = "derive_bytes xor_bytes", OF K, of 47] x
    by (simp only: kTreeDepth_def kTokenSize_def kKeySize_def derive_bytes_block fit_id eval_nat_numeral(3)[symmetric]) simp
  then show "stored_token (derive_bytes xor_bytes) hash rp (kw, 1) = xor_bytes ?K (ctr_block 1)"
    using x by (simp add: stored_token_def leaf_token_def derive_node_eq gen_update_token_mask_def
        kUpdateTokenSize_def derive_bytes_xor_0 del: One_nat_def)
  show "stored_token (derive_bytes xor_bytes) hash rp (kw, 0) = ?K"
    using assms by (simp add: stored_token_def leaf_token_def derive_node_eq gen_update_token_mask_def
        kUpdateTokenSize_def derive_bytes_xor_0 node_fixpoint(1)[where prg = "derive_bytes xor_bytes", OF K])
qed

lemma diana_inv_init: "diana_inv prg hash rp [] (DianaClient rp kp, DianaServer hdd)"
  by (simp add: diana_inv_def DianaClient_def DianaServer_def entries_def lookup_def)

lemma diana_inv_counter:
  assumes "diana_inv prg hash rp us (c, s)" "length us < 2 ^ 32"
  shows "next_counter (ramCounter c) kw = length (entries us kw)"
  using assms length_entries[of us kw] by (auto simp: diana_inv_def next_counter_def)

lemma diana_inv_insert:
  assumes inv: "diana_inv prg hash rp us cs" and inj: "tokens_distinct prg hash rp (us @ [u])"
    and len: "length us < 2 ^ 32"
  shows "diana_inv prg hash rp (us @ [u]) (diana_insert prg hash u cs)"
proof -
  obtain c s where cs: "cs = (c, s)" by force
  obtain kw x where u: "u = (kw, x)" by force
  let ?n = "length (entries us kw)"
  let ?S = "\<lambda>us. {(kw, i). i < length (entries us kw)}"
  have rp: "root_prf c = rp" and dom: "dom (lookup s) \<subseteq> stored_token prg hash rp ` ?S us"
    using inv by (simp_all add: diana_inv_def cs)
  have cnt: "next_counter (ramCounter c) kw = ?n"
    using diana_inv_counter[OF inv[unfolded cs] len] .
  let ?c = "c\<lparr>ramCounter := (ramCounter c)(kw \<mapsto> ?n)\<rparr>"
  let ?r = "make_request prg hash c kw x ?n"
  have t: "ur_token ?r = stored_token prg hash rp (kw, ?n)" by (rule ur_token_make_request[OF rp])
  have sub: "?S us \<subseteq> ?S (us @ [u])" by (auto simp: entries_snoc)
  have fresh: "stored_token prg hash rp ki \<noteq> stored_token prg hash rp (kw, ?n)" if "ki \<in> ?S us" for ki
  proof
    assume eq: "stored_token prg hash rp ki = stored_token prg hash rp (kw, ?n)"
    have "(kw, ?n) \<in> ?S (us @ [u])" by (simp add: entries_snoc u)
    with eq that sub inj have "ki = (kw, ?n)" by (auto simp: tokens_distinct_def inj_on_def)
    with that show False by simp
  qed
  have "lookup s (ur_token ?r) = None"
  proof (rule ccontr)
    assume "lookup s (ur_token ?r) \<noteq> None"
    with dom obtain ki where "ki \<in> ?S us" "stored_token prg hash rp (kw, ?n) = stored_token prg hash rp ki"
      by (auto simp: t)
    with fresh show False by metis
  qed
  note lk = lookup_diana_update[OF this]
  have ins: "diana_insert prg hash u cs = (?c, diana_update ?r s)"
    by (simp add: diana_insert_def cs u update_request_def cnt Let_def)
  have st: "lookup (diana_update ?r s) (stored_token prg hash rp (k, i)) =
      Some (ur_index (make_request prg hash ?c k (entries (us @ [u]) k ! i) i))"
    if i: "i < length (entries (us @ [u]) k)" for k i
  proof (cases "i < length (entries us k)")
    case True
    then have "stored_token prg hash rp (k, i) \<noteq> stored_token prg hash rp (kw, ?n)"
      using fresh[of "(k, i)"] by simp
    then show ?thesis
      using inv True by (simp add: lk t diana_inv_def cs entries_snoc nth_append make_request_frame[of ?c c])
  next
    case False
    with i have "k = kw" "i = ?n" by (auto simp: entries_snoc u split: if_splits)
    then show ?thesis by (simp add: lk t entries_snoc u make_request_frame[of ?c c])
  qed
  have "dom (lookup (diana_update ?r s)) \<subseteq> stored_token prg hash rp ` ?S (us @ [u])"
  proof -
    have "(kw, ?n) \<in> ?S (us @ [u])" by (simp add: entries_snoc u)
    then have "stored_token prg hash rp (kw, ?n) \<in> stored_token prg hash rp ` ?S (us @ [u])" by (rule imageI)
    moreover have "dom (lookup s) \<subseteq> stored_token prg hash rp ` ?S (us @ [u])"
      using dom sub by (blast intro: order_trans image_mono)
    ultimately show ?thesis by (simp only: lk t dom_fun_upd) auto
  qed
  moreover have "ramCounter ?c k = (if entries (us @ [u]) k = [] then None
      else Some (length (entries (us @ [u]) k) - 1))" for k
    using inv by (auto simp: diana_inv_def cs entries_snoc u)
  ultimately show ?thesis using st rp by (simp add: ins diana_inv_def)
qed

lemma tokens_distinct_prefix:
  "tokens_distinct prg hash rp (us @ vs) \<Longrightarrow> tokens_distinct prg hash rp us"
  unfolding tokens_distinct_def by (erule inj_on_subset) (auto simp: entries_def)

lemma diana_inv_run:
  assumes "tokens_distinct prg hash rp us" "length us \<le> 2 ^ 32"
  shows "diana_inv prg hash rp us (fold (diana_insert prg hash) us (DianaClient rp kp, DianaServer hdd))"
  using assms
proof (induction us rule: rev_induct)
  case Nil
  then show ?case by (simp add: diana_inv_init)
next
  case (snoc u us)
  then show ?case
    using diana_inv_insert[OF snoc.IH[OF tokens_distinct_prefix[OF snoc.prems(1)]] snoc.prems(1)] by simp
qed

context prg_stream
begin

lemma get_unmask_stored:
  assumes "root_prf c = rp" "length x = sz"
    and "lookup s (stored_token prg hash rp (kw, i)) = Some (ur_index (make_request prg hash c kw x i))"
  shows "get_unmask prg sz False (leaf_token prg hash rp kw i) s = (s, Some x)"
  using assms
  by (auto simp: get_unmask_def retrieve_entry_def lookup_def stored_token_def make_request_def leaf_token_def
      gen_update_token_mask_def xor_mask_def prg_length xor_simps Let_def split: if_splits)

lemma unmask_keys_stored:
  assumes "\<forall>i < n. get_unmask prg sz False (f i) s = (s, Some (xs ! i))" "length xs = n"
  shows "unmask_keys prg sz False (map f [0..<n]) s = (s, xs)"
  using assms
proof (induction n arbitrary: f xs)
  case 0
  then show ?case by simp
next
  case (Suc n)
  obtain x ys where xs: "xs = x # ys" using Suc.prems(2) by (cases xs) auto
  have "unmask_keys prg sz False (map (\<lambda>i. f (Suc i)) [0..<n]) s = (s, ys)"
    using Suc.prems by (intro Suc.IH) (auto simp: xs)
  moreover have "get_unmask prg sz False (f 0) s = (s, Some x)" using Suc.prems by (auto simp: xs)
  moreover have "map f [0..<Suc n] = f 0 # map (\<lambda>i. f (Suc i)) [0..<n]"
    by (simp only: upt_rec[of 0 "Suc n"] map_Suc_upt[symmetric] list.map map_map comp_def zero_less_Suc if_True)
  ultimately show ?case by (simp only: unmask_keys.simps Let_def prod.case option.case xs)
qed

lemma search_request_leaves:
  assumes inv: "diana_inv prg hash rp us (c, s)" and "length us < 2 ^ 32"
  shows "\<exists>req. search_request prg hash c kw = Inr req \<and> add_count req = length (entries us kw) \<and>
    (entries us kw \<noteq> [] \<longrightarrow> token_list req \<noteq> []) \<and>
    all_leaves prg (token_list req) = map (leaf_token prg hash rp kw) [0..<length (entries us kw)]"
proof (cases "entries us kw = []")
  case True
  then show ?thesis using inv by (simp add: diana_inv_def search_request_def all_leaves_def)
next
  case False
  let ?n = "length (entries us kw)"
  let ?root = "rp (get_keyword_index hash kw)"
  have n: "0 < ?n" "?n < 2 ^ 32" using False length_entries[of us kw] assms(2) by auto
  then have "?n \<le> 2 ^ kTreeDepth" by (simp add: kTreeDepth_def)
  from covering_list_eq[OF n(1) this, of ?root] obtain l where
    l: "covering_list prg ?root ?n kTreeDepth = Inr l" "all_leaves prg l = map (leaf_token prg hash rp kw) [0..<?n]"
    by (auto simp: covering_list_def all_leaves_def leaf_token_def derive_node_eq)
  have c: "ramCounter c kw = Some (?n - 1)" "root_prf c = rp" using inv False by (simp_all add: diana_inv_def)
  moreover have "l \<noteq> []" using l(2) n(1) by (auto simp: all_leaves_def)
  moreover have "(?n - 1 + 1) mod 2 ^ 32 = ?n" using n by simp
  ultimately show ?thesis using l by (simp add: search_request_def Let_def)
qed

lemma search_after_updates:
  assumes inv: "diana_inv prg hash rp us (c, s)" and "length us < 2 ^ 32" "\<forall>u \<in> set us. length (snd u) = sz"
  shows "\<exists>req. search_request prg hash c kw = Inr req \<and> add_count req = length (entries us kw) \<and>
    (entries us kw \<noteq> [] \<longrightarrow> token_list req \<noteq> []) \<and>
    length (all_leaves prg (token_list req)) = add_count req \<and>
    diana_search prg sz False req s = (s, entries us kw)"
proof -
  let ?n = "length (entries us kw)"
  obtain req where r: "search_request prg hash c kw = Inr req" "add_count req = ?n" "entries us kw \<noteq> [] \<longrightarrow> token_list req \<noteq> []"
    "all_leaves prg (token_list req) = map (leaf_token prg hash rp kw) [0..<?n]"
    using search_request_leaves[OF inv assms(2)] by blast
  have "length x = sz" if "x \<in> set (entries us kw)" for x using assms(3) that by (auto simp: entries_def)
  then have "get_unmask prg sz False (leaf_token prg hash rp kw i) s = (s, Some (entries us kw ! i))" if "i < ?n" for i
    using that inv by (intro get_unmask_stored[of c]) (auto simp: diana_inv_def)
  then have "unmask_keys prg sz False (map (leaf_token prg hash rp kw) [0..<?n]) s = (s, entries us kw)"
    by (intro unmask_keys_stored) simp_all
  then show ?thesis using r by (simp add: diana_search_def search_tokens_leaves)
qed


lemma eight_threads_undefined:
  assumes inv: "diana_inv prg hash rp us (c, s)" and us: "length us < 2 ^ 32" and n: "2 \<le> length (entries us kw)"
  shows "\<exists>req. search_request prg hash c kw = Inr req \<and> search_simple_parallel prg sz del req 8 s = Inl Undefined_behaviour"
proof -
  let ?n = "length (entries us kw)"
  obtain req where r: "search_request prg hash c kw = Inr req" "add_count req = ?n" "entries us kw \<noteq> [] \<longrightarrow> token_list req \<noteq> []"
    "all_leaves prg (token_list req) = map (leaf_token prg hash rp kw) [0..<?n]"
    using search_request_leaves[OF inv us, of kw] by blast
  have c: "ramCounter c kw = Some (?n - 1)" using inv n by (auto simp: diana_inv_def)
  have l: "0 < ?n" "?n < 2 ^ 32" using n length_entries[of us kw] us by auto
  then have "?n \<le> 2 ^ kTreeDepth" by (simp add: kTreeDepth_def)
  then obtain t d ts where "covering_list_aux prg (root_prf c (get_keyword_index hash kw)) ?n kTreeDepth = Inr ((t, d) # ts)" "?n < 2 ^ Suc d"
    using covering_list_first[OF l(1)] by blast
  moreover have "(?n - 1 + 1) mod 2 ^ 32 = ?n" using l by simp
  ultimately have tl: "token_list req = (t, d) # ts" "?n < 2 ^ Suc d" using r(1) c by (auto simp: search_request_def covering_list_def Let_def)
  show ?thesis
  proof (cases "del \<and> \<not> usehdd s")
    case True
    then have "search_simple_parallel prg sz del req 8 s = Inl Undefined_behaviour"
      using n unfolding search_simple_parallel_def Let_def r(2) by auto
    then show ?thesis using r(1) by blast
  next
    case False
    have e: "min 8 (add_count req) = min 8 ?n" by (simp add: r(2))
    have "token_list req \<noteq> []" "length (all_leaves prg (token_list req)) \<le> add_count req" using r n by auto
    from search_simple_parallel_cuts[OF this(1) _ this(2) e[symmetric], of del s sz]
    have "search_simple_parallel prg sz del req 8 s = Inl Undefined_behaviour"
      using False eight_threads_cut[OF n tl(2) refl, of t ts] by (simp add: r(2) tl(1) del: thread_ranges.simps)
    then show ?thesis using r(1) by blast
  qed
qed

lemma unmask_keys_map:
  "\<forall>k \<in> set ks. get_unmask prg sz False k s = (s, Some (g k)) \<Longrightarrow> unmask_keys prg sz False ks s = (s, map g ks)"
  by (induction ks) simp_all

lemma search_del_after_updates:
  assumes inv: "diana_inv prg hash rp us (c, s)" and "length us < 2 ^ 32" "\<forall>u \<in> set us. length (snd u) = sz"
    and "2 \<le> length (entries us kw)" "dels \<noteq> []" "\<forall>d \<in> set dels. d < length (entries us kw)"
    and "length (entries us kw) \<le> 2 ^ 30"
  shows "\<exists>req xs. search_request_del prg hash c kw dels = Inr req \<and> add_count req = length (entries us kw) \<and>
    length (all_leaves prg (token_list req)) \<le> add_count req \<and>
    diana_search prg sz False req s = (s, xs) \<and>
    mset xs = mset (map (\<lambda>i. entries us kw ! i) (filter (\<lambda>i. i \<notin> set dels) [0..<length (entries us kw)]))"
proof -
  let ?n = "length (entries us kw)"
  let ?root = "rp (get_keyword_index hash kw)"
  let ?is = "filter (\<lambda>i. i \<notin> set dels) [0..<?n]"
  let ?lt = "leaf_token prg hash rp kw"
  have n: "?n < 2 ^ 32" using length_entries[of us kw] assms(2) by auto
  then have "?n \<le> 2 ^ kTreeDepth" by (simp add: kTreeDepth_def)
  from covering_list_del_cover[OF assms(4) this assms(6,7), of ?root] obtain l where
    l: "covering_list_del prg ?root ?n kTreeDepth dels = Inr l" "mset (all_leaves prg l) = mset (map ?lt ?is)"
    unfolding all_leaves_def leaf_token_def derive_node_eq by blast
  have c: "ramCounter c kw = Some (?n - 1)" "root_prf c = rp" using inv assms(4) by (auto simp: diana_inv_def)
  have "length x = sz" if "x \<in> set (entries us kw)" for x using assms(3) that by (auto simp: entries_def)
  then have g: "get_unmask prg sz False (?lt i) s = (s, Some (entries us kw ! i))" if "i < ?n" for i
    using that inv c(2) by (intro get_unmask_stored[of c]) (auto simp: diana_inv_def)
  define g where "g k = the (snd (get_unmask prg sz False k s))" for k
  have gi: "g (?lt i) = entries us kw ! i" if "i < ?n" for i using g[OF that] by (simp add: g_def)
  have "set (all_leaves prg l) = set (map ?lt ?is)" using l(2) by (metis set_mset_mset)
  then have "\<forall>k \<in> set (all_leaves prg l). get_unmask prg sz False k s = (s, Some (g k))"
    using g by (auto simp: gi)
  from unmask_keys_map[OF this] have u: "unmask_keys prg sz False (all_leaves prg l) s = (s, map g (all_leaves prg l))" .
  have "mset (map g (all_leaves prg l)) = mset (map g (map ?lt ?is))" by (simp only: mset_map l(2))
  also have "map g (map ?lt ?is) = map (\<lambda>i. entries us kw ! i) ?is" by (simp add: gi)
  finally have m: "mset (map g (all_leaves prg l)) = mset (map (\<lambda>i. entries us kw ! i) ?is)" .
  have "length (all_leaves prg l) = length ?is" using l(2) by (metis length_map mset_eq_length)
  also have "\<dots> \<le> ?n" using length_filter_le[of _ "[0..<?n]"] by simp
  finally have "length (all_leaves prg l) \<le> ?n" .
  moreover have "(?n - 1 + 1) mod 2 ^ 32 = ?n" using n assms(4) by simp
  ultimately show ?thesis
    using l(1) c assms(5) u m
    by (simp add: search_request_del_def diana_search_def search_tokens_leaves Let_def)
qed

end

section \<open>Properties\<close>

text \<open>
  C13. After any sequence of updates through the client, a search for a keyword returns exactly the indexes
  stored for it, in the order of insertion: the server's sequential search does, and so does the parallel search with
  one thread, as the interface calls it. The tokens of the updates are required not to collide.
\<close>

theorem diana_search_correct:
  assumes "tokens_distinct (derive_bytes aes) hash rp us" "length us < 2 ^ 32" "\<forall>u \<in> set us. length (snd u) = sz"
    and "fold (diana_insert (derive_bytes aes) hash) us (DianaClient rp kp, DianaServer hdd) = (c, s)"
  shows "\<exists>req. search_request (derive_bytes aes) hash c kw = Inr req \<and>
    diana_search (derive_bytes aes) sz False req s = (s, entries us kw) \<and>
    search_simple_parallel (derive_bytes aes) sz False req 1 s = Inr (s, entries us kw)"
proof -
  have "diana_inv (derive_bytes aes) hash rp us (c, s)"
    using diana_inv_run[OF assms(1), of kp hdd] assms(2,4) by simp
  from stream.search_after_updates[OF this assms(2,3), of kw] obtain req where
    r: "search_request (derive_bytes aes) hash c kw = Inr req" "add_count req = length (entries us kw)"
      "entries us kw \<noteq> [] \<longrightarrow> token_list req \<noteq> []"
      "length (all_leaves (derive_bytes aes) (token_list req)) = add_count req"
      "diana_search (derive_bytes aes) sz False req s = (s, entries us kw)" by blast
  moreover have "search_simple_parallel (derive_bytes aes) sz False req 1 s = Inr (s, entries us kw)"
  proof (cases "entries us kw = []")
    case True
    then show ?thesis using r by (simp add: search_simple_parallel_def)
  next
    case False
    then show ?thesis using r stream.search_simple_parallel_eq[of req 1 aes sz False s] by simp
  qed
  ultimately show ?thesis by blast
qed

theorem diana_search_correct_witness:
  "\<exists>c s req. fold (diana_insert (derive_bytes xor_bytes) (\<lambda>kw. str_bytes kw @ replicate 16 0))
        [(''a'', [1, 2]), (''b'', [3, 4])] (DianaClient (\<lambda>b. b) (\<lambda>b. b), DianaServer False) = (c, s) \<and>
    search_request (derive_bytes xor_bytes) (\<lambda>kw. str_bytes kw @ replicate 16 0) c ''a'' = Inr req \<and>
    diana_search (derive_bytes xor_bytes) 2 False req s = (s, [[1, 2]]) \<and>
    search_simple_parallel (derive_bytes xor_bytes) 2 False req 1 s = Inr (s, [[1, 2]])"
proof -
  let ?hash = "\<lambda>kw. str_bytes kw @ replicate 16 0"
  let ?us = "[(''a'', [1, 2]), (''b'', [3, 4])] :: (string \<times> bytes) list"
  obtain c s where f: "fold (diana_insert (derive_bytes xor_bytes) ?hash) ?us
      (DianaClient (\<lambda>b. b) (\<lambda>b. b), DianaServer False) = (c, s)" by force
  have S: "{(kw, i). i < length (entries ?us kw)} = {(''a'', 0), (''b'', 0)}"
    by (auto simp: entries_def split: if_splits)
  have "stored_token (derive_bytes xor_bytes) ?hash (\<lambda>b. b) (''a'', 0) \<noteq>
      stored_token (derive_bytes xor_bytes) ?hash (\<lambda>b. b) (''b'', 0)"
    by (simp add: stored_token_xor get_keyword_index_def kKeywordIndexSize_def str_bytes_def)
  then have "tokens_distinct (derive_bytes xor_bytes) ?hash (\<lambda>b. b) ?us"
    unfolding tokens_distinct_def S by simp
  from diana_search_correct[OF this _ _ f, of 2 "''a''"] f show ?thesis
    by (simp add: entries_def)
qed

text \<open>
  C14. A search that leaves out deleted counters returns, for a keyword with at least two and at most \<open>2 ^ 30\<close> entries,
  exactly the entries whose counters are not deleted, each once. The tokens of the updates are required not to collide.
\<close>

theorem diana_search_del_correct:
  assumes "tokens_distinct (derive_bytes aes) hash rp us" "length us < 2 ^ 32" "\<forall>u \<in> set us. length (snd u) = sz"
    and "2 \<le> length (entries us kw)" "dels \<noteq> []" "\<forall>d \<in> set dels. d < length (entries us kw)"
    and "length (entries us kw) \<le> 2 ^ 30"
    and "fold (diana_insert (derive_bytes aes) hash) us (DianaClient rp kp, DianaServer hdd) = (c, s)"
  shows "\<exists>req xs. search_request_del (derive_bytes aes) hash c kw dels = Inr req \<and>
    diana_search (derive_bytes aes) sz False req s = (s, xs) \<and>
    mset xs = mset (map (\<lambda>i. entries us kw ! i) (filter (\<lambda>i. i \<notin> set dels) [0..<length (entries us kw)]))"
proof -
  have "diana_inv (derive_bytes aes) hash rp us (c, s)"
    using diana_inv_run[OF assms(1), of kp hdd] assms(2,8) by simp
  from stream.search_del_after_updates[OF this assms(2-7)] show ?thesis by blast
qed

theorem diana_search_del_correct_witness:
  "\<exists>c s req xs. fold (diana_insert (derive_bytes xor_bytes) (\<lambda>kw. str_bytes kw @ replicate 16 0))
        [(''a'', [1]), (''a'', [2])] (DianaClient (\<lambda>b. b) (\<lambda>b. b), DianaServer True) = (c, s) \<and>
    search_request_del (derive_bytes xor_bytes) (\<lambda>kw. str_bytes kw @ replicate 16 0) c ''a'' [0] = Inr req \<and>
    diana_search (derive_bytes xor_bytes) 1 False req s = (s, xs) \<and> mset xs = {#[2]#}"
proof -
  let ?hash = "\<lambda>kw. str_bytes kw @ replicate 16 0"
  let ?us = "[(''a'', [1]), (''a'', [2])] :: (string \<times> bytes) list"
  obtain c s where f: "fold (diana_insert (derive_bytes xor_bytes) ?hash) ?us
      (DianaClient (\<lambda>b. b) (\<lambda>b. b), DianaServer True) = (c, s)" by force
  have S: "{(kw, i). i < length (entries ?us kw)} = {(''a'', 0), (''a'', 1)}"
    by (auto simp: entries_def less_Suc_eq split: if_splits)
  have "stored_token (derive_bytes xor_bytes) ?hash (\<lambda>b. b) (''a'', 0) \<noteq>
      stored_token (derive_bytes xor_bytes) ?hash (\<lambda>b. b) (''a'', 1)"
    by (simp add: stored_token_xor get_keyword_index_def kKeywordIndexSize_def str_bytes_def del: One_nat_def) code_simp
  then have "tokens_distinct (derive_bytes xor_bytes) ?hash (\<lambda>b. b) ?us"
    unfolding tokens_distinct_def S by simp
  from diana_search_del_correct[OF this _ _ _ _ _ _ f, of 1 "''a''" "[0]"] f show ?thesis
    by (simp add: entries_def upt_rec)
qed

text \<open>
  C15. The parallel search, for any number of threads, against the sequential one: when the range of every thread begins
  and ends between two subtrees of the request, it gives the results of the sequential search in the same order;
  when a range cuts a subtree, the thread reads a dangling pointer. With one thread nothing is cut, and the results
  are the same also when they are deleted. The request has a token and covers at most as many leaves as it counts.
\<close>

theorem parallel_search_sequential:
  assumes "token_list req \<noteq> []" "0 < threads" "(\<Sum>(t, d) \<leftarrow> token_list req. 2 ^ d) \<le> add_count req"
    and "t = min threads (add_count req)"
  shows "search_simple_parallel (derive_bytes aes) sz False req threads s =
      (if aligned (token_list req) (thread_ranges (add_count req) (add_count req div t) (add_count req mod t) 0 (add_count req div t) 0 t)
       then Inr (diana_search (derive_bytes aes) sz False req s) else Inl Undefined_behaviour) \<and>
    search_simple_parallel (derive_bytes aes) sz del req 1 s = Inr (diana_search (derive_bytes aes) sz del req s)"
proof -
  have l: "length (all_leaves (derive_bytes aes) (token_list req)) \<le> add_count req"
    using assms(3) by (simp only: stream.length_all_leaves)
  show ?thesis
    using stream.search_simple_parallel_cuts[OF assms(1,2) l assms(4), of False s sz]
      stream.search_simple_parallel_eq[OF assms(1) _ _ l, of 1 sz del s] by simp
qed

theorem parallel_search_sequential_witness:
  "search_simple_parallel (derive_bytes xor_bytes) 8 False
      \<lparr>token_list = [(replicate 16 1, 1), (replicate 16 2, 1)], add_count = 4, kw_token = []\<rparr> 2 (DianaServer False) =
    Inr (diana_search (derive_bytes xor_bytes) 8 False
      \<lparr>token_list = [(replicate 16 1, 1), (replicate 16 2, 1)], add_count = 4, kw_token = []\<rparr> (DianaServer False)) \<and>
   search_simple_parallel (derive_bytes xor_bytes) 8 False
      \<lparr>token_list = [(replicate 16 1, 2)], add_count = 4, kw_token = []\<rparr> 2 (DianaServer False) = Inl Undefined_behaviour"
proof -
  let ?r = "\<lparr>token_list = [(replicate 16 1, 1), (replicate 16 2, 1)], add_count = 4, kw_token = []\<rparr>"
  let ?q = "\<lparr>token_list = [(replicate 16 1, 2)], add_count = 4, kw_token = []\<rparr>"
  have "thread_ranges 4 (4 div 2) (4 mod 2) 0 (4 div 2) 0 2 = [(0, 1), (2, 3)]" by code_simp
  then show ?thesis
    using parallel_search_sequential[of ?r 2 2 xor_bytes 8 "DianaServer False"]
      parallel_search_sequential[of ?q 2 2 xor_bytes 8 "DianaServer False"]
    by (simp add: aligned_def)
qed

text \<open>
  C25. A request that counts entries but has no token makes every thread read the end of the list; the covering
  list is empty in this way when the only entry of a keyword has been deleted.
\<close>

theorem empty_covering_undefined:
  assumes "ramCounter c kw = Some 0" "0 < threads"
  shows "\<exists>req. search_request_del (derive_bytes aes) hash c kw [0] = Inr req \<and> token_list req = [] \<and>
    search_simple_parallel (derive_bytes aes) sz del req threads s = Inl Undefined_behaviour"
proof -
  obtain k where k: "min threads 1 = Suc k" using assms(2) by (cases "min threads 1") auto
  have "covering_list_del (derive_bytes aes) K 1 d [0] = Inr []" for K d
    by (simp only: stream.covering_list_del_single) simp
  then show ?thesis
    using assms k by (auto simp: search_request_del_def search_simple_parallel_def job_def Let_def)
qed

theorem empty_covering_undefined_witness:
  "\<exists>req. search_request_del (derive_bytes xor_bytes) (\<lambda>kw. replicate 64 0)
      ((DianaClient (\<lambda>b. b) (\<lambda>b. b))\<lparr>ramCounter := [''a'' \<mapsto> 0]\<rparr>) ''a'' [0] = Inr req \<and> token_list req = [] \<and>
    search_simple_parallel (derive_bytes xor_bytes) 8 False req 1 (DianaServer False) = Inl Undefined_behaviour"
  by (rule empty_covering_undefined) simp_all

text \<open>
  The request list of a bulk update, and the counters it leaves, are those of one update request after
  the other.
\<close>

lemma bulk_update_sequential:
  "bulk_update_request prg hash us c =
     fold (\<lambda>(kw, x) (c, rs). let (c', r, _) = update_request prg hash kw x c in (c', rs @ [r])) us (c, [])"
proof -
  define F where "F = (\<lambda>(kw, x) (c, rs). let (c', r, _) = update_request prg hash kw x c in (c', rs @ [r]))"
  have "fold F us (c, rs) =
      (let (c', l) = get_counters_and_increment us c
       in (c', rs @ map (\<lambda>(k, x, n). make_request prg hash c k x n) l)) \<and>
    root_prf (fst (get_counters_and_increment us c)) = root_prf c" for rs
  proof (induction us arbitrary: c rs)
    case Nil
    then show ?case by simp
  next
    case (Cons u us)
    obtain k x where u: "u = (k, x)" by force
    let ?n = "next_counter (ramCounter c) k"
    let ?c = "c\<lparr>ramCounter := (ramCounter c)(k \<mapsto> ?n)\<rparr>"
    have "F u (c, rs) = (?c, rs @ [make_request prg hash c k x ?n])"
      by (simp add: F_def u update_request_def Let_def)
    then show ?case
      using Cons[of ?c "rs @ [make_request prg hash c k x ?n]"] make_request_frame[of ?c c]
      by (simp add: u Let_def case_prod_beta)
  qed
  from this[of "[]"] show ?thesis
    using make_request_frame[of "fst (get_counters_and_increment us c)" c]
    by (simp add: bulk_update_request_def case_prod_beta Let_def) (simp add: F_def case_prod_beta Let_def)
qed

end
