(* ===== verification/Utilities.thy ===== *)
theory Utilities
  imports StdLib
begin

text \<open>
  The helper class \<open>Utilities\<close> (\<open>src/src/utils/Utilities.cpp\<close>): base64, the exclusive-or of strings, and the
  encryption of a short string into one block. The OpenSSL calls are the fields of the record \<open>evp\<close>: AES-CBC
  encryption with padding, decryption (\<open>None\<close> when the padding is wrong, after which the code aborts), and the
  content the local buffer of \<open>decode\<close> happens to have before it is written, which may differ from call to call.
\<close>

section \<open>Base64\<close>

definition base64_chars :: string where
  "base64_chars = ''ABCDEFGHIJKLMNOPQRSTUVWXYZabcdefghijklmnopqrstuvwxyz0123456789+/''"

definition is_base64 :: "char \<Rightarrow> bool" where
  "is_base64 c \<longleftrightarrow>
     (CHR ''A'' \<le> c \<and> c \<le> CHR ''Z'') \<or> (CHR ''a'' \<le> c \<and> c \<le> CHR ''z'') \<or>
     (CHR ''0'' \<le> c \<and> c \<le> CHR ''9'') \<or> c = CHR ''+'' \<or> c = CHR ''/''"

text \<open>\<open>char_array_4\<close> from \<open>char_array_3\<close>, and back.\<close>

definition array_4 :: "byte \<Rightarrow> byte \<Rightarrow> byte \<Rightarrow> byte list" where
  "array_4 a b c =
     [drop_bit 2 (a AND 0xfc),
      push_bit 4 (a AND 0x03) + drop_bit 4 (b AND 0xf0),
      push_bit 2 (b AND 0x0f) + drop_bit 6 (c AND 0xc0),
      c AND 0x3f]"

definition array_3 :: "byte \<Rightarrow> byte \<Rightarrow> byte \<Rightarrow> byte \<Rightarrow> byte list" where
  "array_3 w x y z =
     [push_bit 2 w + drop_bit 4 (x AND 0x30),
      push_bit 4 (x AND 0xf) + drop_bit 2 (y AND 0x3c),
      push_bit 6 (y AND 0x3) + z]"

definition base64_char :: "byte \<Rightarrow> char" where
  "base64_char b = base64_chars ! unat b"

text \<open>\<open>base64_chars.find\<close>, cast to \<open>unsigned char\<close>: 255 when the character is not there.\<close>

definition base64_find :: "char \<Rightarrow> byte" where
  "base64_find c =
     (case filter (\<lambda>p. fst p = c) (zip base64_chars [0..<64]) of
        [] \<Rightarrow> 255
      | p # _ \<Rightarrow> of_nat (snd p))"

fun base64_encode :: "bytes \<Rightarrow> string" where
  "base64_encode (a # b # c # bs) = map base64_char (array_4 a b c) @ base64_encode bs"
| "base64_encode [a, b] = map base64_char (take 3 (array_4 a b 0)) @ ''=''"
| "base64_encode [a] = map base64_char (take 2 (array_4 a 0 0)) @ ''==''"
| "base64_encode [] = []"

fun base64_groups :: "string \<Rightarrow> bytes" where
  "base64_groups (w # x # y # z # cs) =
     array_3 (base64_find w) (base64_find x) (base64_find y) (base64_find z) @ base64_groups cs"
| "base64_groups [w, x, y] = take 2 (array_3 (base64_find w) (base64_find x) (base64_find y) (base64_find (CHR 0x00)))"
| "base64_groups [w, x] = take 1 (array_3 (base64_find w) (base64_find x) (base64_find (CHR 0x00)) (base64_find (CHR 0x00)))"
| "base64_groups [w] = []"
| "base64_groups [] = []"

definition base64_decode :: "string \<Rightarrow> bytes" where
  "base64_decode s = base64_groups (takeWhile (\<lambda>c. c \<noteq> CHR ''='' \<and> is_base64 c) s)"

section \<open>Exclusive-or of strings\<close>

text \<open>The lengths are read into 16-bit integers; the result keeps the characters past them.\<close>

definition XOR_str :: "string \<Rightarrow> string \<Rightarrow> string" where
  "XOR_str val key =
     (let klen = length key mod 2 ^ 16;
          vlen = length val mod 2 ^ 16;
          key' = (if klen < vlen then key @ replicate (vlen - klen) CHR '' '' else key)
      in bytes_str (xor_bytes (str_bytes (take vlen val)) (str_bytes (take vlen key'))) @ drop vlen val)"

section \<open>Short strings in one block\<close>

record evp =
  evp_encrypt :: "bytes \<Rightarrow> bytes"
  evp_decrypt :: "bytes \<Rightarrow> bytes option"
  stack_content :: "bytes \<Rightarrow> bytes"

text \<open>
  A keyword of up to 11 characters is followed by zeros, so \<open>strlen\<close> finds its end. The bytes from 12 on are
  not initialised, and a keyword of more than 16 characters is written past the buffer.
\<close>

definition convertToArray :: "string \<Rightarrow> bytes res" where
  "convertToArray addr =
     (if length addr < 16 then Inl Undefined_behaviour else Inr (take 16 (str_bytes addr)))"

definition encode :: "evp \<Rightarrow> string \<Rightarrow> bytes res" where
  "encode E keyword =
     (if 12 \<le> length keyword then Inl Undefined_behaviour
      else Inr (take 16 (evp_encrypt E (takeWhile (\<lambda>b. b \<noteq> 0) (str_bytes keyword)))))"

definition decode :: "evp \<Rightarrow> bytes \<Rightarrow> string res" where
  "decode E ciphertext =
     (case evp_decrypt E (take 16 ciphertext) of
        None \<Rightarrow> Inl (Runtime_error ''abort'')
      | Some p \<Rightarrow>
          (let plaintext = take 16 (p @ drop (length p) (stack_content E ciphertext))
           in Inr (bytes_str (takeWhile (\<lambda>b. b \<noteq> 0) plaintext))))"

section \<open>Base64 round trip\<close>

lemma length_base64_chars: "length base64_chars = 64"
  by (simp add: base64_chars_def)

lemma base64_char_table:
  "list_all (\<lambda>i. base64_find (base64_chars ! i) = of_nat i \<and> is_base64 (base64_chars ! i) \<and> base64_chars ! i \<noteq> CHR ''='')
     [0..<64]"
  by code_simp

lemma base64_char_ok:
  assumes "unat b < 64"
  shows "base64_find (base64_char b) = b" "is_base64 (base64_char b)" "base64_char b \<noteq> CHR ''=''"
  using base64_char_table assms by (auto simp: list_all_iff base64_char_def)

lemma byte_masks: fixes a :: byte
  shows "a AND 0x03 = take_bit 2 a" "a AND 0x0f = take_bit 4 a" "a AND 0x3f = take_bit 6 a"
  by (simp_all add: take_bit_eq_mask mask_eq_exp_minus_1)

lemma byte_fields: fixes a :: byte
  shows "drop_bit 2 (a AND 0xfc) = take_bit 6 (drop_bit 2 a)"
  "drop_bit 4 (a AND 0xf0) = take_bit 4 (drop_bit 4 a)" "drop_bit 6 (a AND 0xc0) = take_bit 2 (drop_bit 6 a)"
  "drop_bit 4 (a AND 0x30) = take_bit 2 (drop_bit 4 a)"  "drop_bit 2 (a AND 0x3c) = take_bit 4 (drop_bit 2 a)"
  by (simp_all add: drop_bit_and byte_masks)

lemma byte_uints: fixes a b :: byte
  shows "uint (take_bit n a) = uint a mod 2 ^ n" and "uint (drop_bit n a) = uint a div 2 ^ n"
    and "uint (push_bit n a) = uint a * 2 ^ n mod 256" and "uint (a + b) = (uint a + uint b) mod 256"
proof -
  show "uint (take_bit n a) = uint a mod 2 ^ n" by (simp only: unsigned_take_bit_eq) (simp only: take_bit_eq_mod)
  have "take_bit 8 (uint a) = uint a" using take_bit_int_eq_self[of "uint a" 8] uint_lt2p[of a] by simp
  then show "uint (drop_bit n a) = uint a div 2 ^ n" by (simp only: unsigned_drop_bit_eq) (simp add: drop_bit_eq_div)
  show "uint (push_bit n a) = uint a * 2 ^ n mod 256"
    by (simp only: unsigned_push_bit_eq) (simp add: take_bit_eq_mod push_bit_eq_mult)
  show "uint (a + b) = (uint a + uint b) mod 256" by (simp add: uint_word_ariths)
qed


lemma div_fields:
  assumes "0 \<le> x" "x < (256 :: int)"
  shows "x div 4 mod 64 = x div 4" "x div 16 mod 16 = x div 16" "x div 64 mod 4 = x div 64"
    "x div 4 < 64" "y mod 4 * 16 + x div 16 < 64" "y mod 16 * 4 + x div 64 < 64"
    "(y mod 4 * 16 + x div 16) div 16 = y mod 4" "(y mod 16 * 4 + x div 64) div 4 = y mod 16"
    "(y mod 4 * 16 + x div 16) mod 256 = y mod 4 * 16 + x div 16"
    "(y mod 16 * 4 + x div 64) mod 256 = y mod 16 * 4 + x div 64"
proof -
  show r: "x div 4 < 64" "y mod 4 * 16 + x div 16 < 64" "y mod 16 * 4 + x div 64 < 64"
    using assms by linarith+
  show "(y mod 4 * 16 + x div 16) div 16 = y mod 4" "(y mod 16 * 4 + x div 64) div 4 = y mod 16"
    using assms by linarith+
  show "x div 4 mod 64 = x div 4" "x div 16 mod 16 = x div 16" "x div 64 mod 4 = x div 64"
    using assms by (auto intro!: mod_pos_pos_trivial)
  show "(y mod 4 * 16 + x div 16) mod 256 = y mod 4 * 16 + x div 16"
    "(y mod 16 * 4 + x div 64) mod 256 = y mod 16 * 4 + x div 64"
    using assms r by (auto intro!: mod_pos_pos_trivial)
qed

lemma uint_byte: "0 \<le> uint (a :: byte)" "uint (a :: byte) < 256"
  using uint_lt2p[of a] by simp_all


lemma array_4_uint:
  "map uint (array_4 a b c) =
     [uint a div 4, uint a mod 4 * 16 + uint b div 16, uint b mod 16 * 4 + uint c div 64, uint c mod 64]"
  by (simp add: array_4_def byte_masks byte_fields byte_uints div_fields[OF uint_byte])
lemma array_3_uint:
  "map uint (array_3 w x y z) =
     [(uint w * 4 + uint x div 16 mod 4) mod 256, (uint x mod 16 * 16 + uint y div 4 mod 16) mod 256, (uint y mod 4 * 64 + uint z) mod 256]"
  by (simp add: array_3_def byte_masks byte_fields byte_uints mod_add_left_eq)

lemma array_3_4:
  assumes "array_4 a b c = [w, x, y, z]"
  shows "array_3 w x y z = [a, b, c]"
proof -
  have q: "uint w = uint a div 4" "uint x = uint a mod 4 * 16 + uint b div 16"
    "uint y = uint b mod 16 * 4 + uint c div 64" "uint z = uint c mod 64"
    using array_4_uint[of a b c] assms by simp_all
  have "map uint (array_3 w x y z) = map uint [a, b, c]"
    unfolding array_3_uint q by (simp add: div_fields[OF uint_byte] uint_byte)
  then show ?thesis by (simp only: inj_map_eq_map[OF inj_on_inverseI[where g = word_of_int, OF word_of_int_uint]])
qed

lemma array_4_small: "\<forall>i \<in> set (array_4 a b c). unat i < 64"
proof -
  have "\<forall>i \<in> set (map uint (array_4 a b c)). i < 64"
    unfolding array_4_uint by (simp add: div_fields[OF uint_byte])
  then have "\<forall>i \<in> set (array_4 a b c). uint i < 64" by simp
  then show ?thesis by (metis nat_less_numeral_power_cancel_iff nat_uint_eq numeral_One of_nat_less_iff of_nat_numeral uint_nat)
qed

lemma base64_group:
  assumes "array_4 a b c = [w, x, y, z]"
  shows "array_3 (base64_find (base64_char w)) (base64_find (base64_char x)) (base64_find (base64_char y))
           (base64_find (base64_char z)) = [a, b, c]"
    and "\<forall>c \<in> set (map base64_char [w, x, y, z]). c \<noteq> CHR ''='' \<and> is_base64 c"
  using array_4_small[of a b c] array_3_4[OF assms] by (simp_all add: assms base64_char_ok)

lemma base64_round_trip: "base64_decode (base64_encode bs) = bs"
proof (induction bs rule: base64_encode.induct)
  case (1 a b c bs)
  obtain w x y z where q: "array_4 a b c = [w, x, y, z]" by (simp add: array_4_def)
  show ?case using 1 base64_group[OF q] by (simp add: base64_decode_def q)
next
  case (2 a b)
  obtain w x y z where q: "array_4 a b 0 = [w, x, y, z]" by (simp add: array_4_def)
  have "take 2 (array_3 w' x' y' z') = take 2 (array_3 w' x' y' z'')" for w' x' y' z' z''
    by (simp add: array_3_def)
  then have "take 2 (array_3 (base64_find (base64_char w)) (base64_find (base64_char x)) (base64_find (base64_char y)) n) =
      [a, b]" for n
    using base64_group(1)[OF q] by (metis take_Cons_numeral take0 pred_numeral_simps(2) take_Suc_Cons numeral_2_eq_2)
  then show ?case using base64_group(2)[OF q] by (simp add: base64_decode_def q)
next
  case (3 a)
  obtain w x y z where q: "array_4 a 0 0 = [w, x, y, z]" by (simp add: array_4_def)
  have "take 1 (array_3 w' x' y' z') = take 1 (array_3 w' x' y'' z'')" for w' x' y' z' y'' z''
    by (simp add: array_3_def)
  then have "take 1 (array_3 (base64_find (base64_char w)) (base64_find (base64_char x)) m n) = [a]" for m n
    using base64_group(1)[OF q] by (metis One_nat_def take_Suc_Cons take0)
  then show ?case using base64_group(2)[OF q] by (simp add: base64_decode_def q)
qed (simp add: base64_decode_def)

section \<open>Encryption of a short string\<close>

text \<open>
  What OpenSSL documents of AES-CBC with padding: a text shorter than a block gives one block, and the decryption gives
  the text back.
\<close>

definition evp_good :: "evp \<Rightarrow> bool" where
  "evp_good E \<longleftrightarrow>
     (\<forall>p. length p < 12 \<longrightarrow> length (evp_encrypt E p) = 16 \<and> evp_decrypt E (evp_encrypt E p) = Some p)"

text \<open>
  \<open>decode\<close> ignores the length that the decryption returns and goes on reading bytes of its buffer that nothing has written. Nothing in the
  code determines them. A number that was encoded is read back when no such byte is a decimal digit, because the parser then
  stops after the number. This is a hypothesis of its own wherever it is needed.
\<close>

definition buffer_ends_numbers :: "evp \<Rightarrow> bool" where
  "buffer_ends_numbers E \<longleftrightarrow>
     (\<forall>c. length (stack_content E c) = 16 \<and> (\<forall>b \<in> set (stack_content E c). \<not> is_digit (char_of (unat b))))"

lemma decode_after_encode:
  assumes "evp_good E" "buffer_ends_numbers E" "length w < 12" "CHR 0x00 \<notin> set w"
  shows "\<exists>b r. encode E w = Inr b \<and> length b = 16 \<and> decode E b = Inr (w @ r) \<and> (r = [] \<or> \<not> is_digit (hd r))"
proof -
  let ?c = "evp_encrypt E (str_bytes w)"
  let ?r = "takeWhile (\<lambda>b. b \<noteq> 0) (take (16 - length w) (drop (length w) (stack_content E ?c)))"
  have z: "\<forall>b \<in> set (str_bytes w). b \<noteq> 0" using assms(4) str_bytes_nonzero by blast
  have E: "length ?c = 16" "evp_decrypt E ?c = Some (str_bytes w)" using assms(1,3) by (simp_all add: evp_good_def)
  have "encode E w = Inr ?c" using assms(3) E z by (simp add: encode_def takeWhile_eq_all_conv[THEN iffD2])
  moreover have "decode E ?c = Inr (w @ bytes_str ?r)"
    using assms(3) E z by (simp add: decode_def takeWhile_append2 bytes_str_append)
  moreover have "\<not> is_digit (hd (bytes_str ?r))" if "bytes_str ?r \<noteq> []"
  proof -
    have "b \<in> set (stack_content E ?c)" if "b \<in> set ?r" for b
      using set_takeWhileD[OF that] in_set_takeD in_set_dropD by metis
    moreover have "hd (bytes_str ?r) = char_of (unat (hd ?r))" "?r \<noteq> []" using that by (auto simp: bytes_str_def hd_map)
    moreover have "hd ?r \<in> set ?r" using \<open>?r \<noteq> []\<close> by (rule hd_in_set)
    ultimately show ?thesis using assms(2) unfolding buffer_ends_numbers_def by metis
  qed
  ultimately show ?thesis using E(1) by blast
qed

section \<open>Properties\<close>

text \<open>
  C24. Decoding the base64 text of a byte string gives the byte string back, whatever its length.
\<close>

theorem base64_decode_encode: "base64_decode (base64_encode bs) = bs"
  by (rule base64_round_trip)

text \<open>
  The exclusive-or with a key is its own inverse on strings of fewer than 65536 characters, for a key of
  any such length: a shorter key is padded, a longer one is cut.
\<close>

theorem XOR_str_involution:
  assumes "length val < 2 ^ 16" "length key < 2 ^ 16"
  shows "XOR_str (XOR_str val key) key = val \<and> length (XOR_str val key) = length val"
proof -
  define k where "k = take (length val) (if length key < length val
      then key @ replicate (length val - length key) CHR '' '' else key)"
  have k: "length k = length val" by (simp add: k_def)
  have x: "XOR_str v key = bytes_str (xor_bytes (str_bytes v) (str_bytes k))" if "length v = length val" for v
    using assms that by (auto simp: XOR_str_def k_def Let_def)
  have l: "length (XOR_str val key) = length val" by (simp add: x k bytes_str_def str_bytes_def)
  have "xor_bytes (str_bytes val) (str_bytes k) = str_bytes (XOR_str val key)" by (simp add: x)
  then have "XOR_str (XOR_str val key) key = bytes_str (xor_bytes (xor_bytes (str_bytes val) (str_bytes k)) (str_bytes k))"
    using x[OF l] by simp
  then show ?thesis using k l by (simp add: xor_simps)
qed

theorem XOR_str_involution_witness:
  "XOR_str (XOR_str ''secret'' ''key'') ''key'' = ''secret'' \<and> length (XOR_str ''secret'' ''key'') = 6"
  using XOR_str_involution[of "''secret''" "''key''"] by simp

end
