(* ===== verification/DianaInterface.thy ===== *)
theory DianaInterface
  imports Diana Utilities
begin

text \<open>
  Diana as the program uses it: \<open>src/src/diana/DianaInterface.cpp\<close> keeps one tree for insertions and one for
  deletions. An insertion also records, under a hash of keyword and index, its encrypted counter; a deletion
  stores that hash in the second tree. A search first collects the counters of the deleted entries, then
  asks for the remaining leaves of the first tree. \<open>src/src/diana/DianaClientRunner.cpp\<close> and
  \<open>src/src/diana/DianaServerRunner.cpp\<close> split the same operations between a client and a server.
  Indexes are 64-bit integers; communication statistics, timers and the key files are left out.
\<close>

section \<open>State\<close>

record diana_iface =
  deleteResults :: bool
  keywordsToken :: "string \<rightharpoonup> string"
  keywordsCounter :: "string \<rightharpoonup> int"
  if_setupMode :: bool
  clientDel :: diana_client
  clientIns :: diana_client

record diana_servers =
  serverDel :: diana_server
  serverIns :: diana_server

definition initializeClient :: "bool \<Rightarrow> diana_client \<Rightarrow> diana_client \<Rightarrow> diana_iface" where
  "initializeClient del cd ci =
     \<lparr>deleteResults = del, keywordsToken = Map.empty, keywordsCounter = Map.empty, if_setupMode = False,
      clientDel = cd, clientIns = ci\<rparr>"

definition initializeServers :: "bool \<Rightarrow> diana_servers" where
  "initializeServers hdd = \<lparr>serverDel = DianaServer hdd, serverIns = DianaServer hdd\<rparr>"

definition setSetupMode_if :: "bool \<Rightarrow> diana_iface \<Rightarrow> diana_iface" where
  "setSetupMode_if b f = f\<lparr>if_setupMode := b\<rparr>"

section \<open>Insertion and deletion\<close>

text \<open>The key under which the trees know a keyword: the keyword and the number of its current epoch.\<close>

definition current_key :: "string \<Rightarrow> diana_iface \<Rightarrow> diana_iface \<times> string" where
  "current_key keyword f =
     (case keywordsToken f keyword of
        Some key \<Rightarrow> (f, key)
      | None \<Rightarrow>
          (let key = keyword @ to_string 1
           in (f\<lparr>keywordsCounter := (keywordsCounter f)(keyword \<mapsto> 1),
                keywordsToken := (keywordsToken f)(keyword \<mapsto> key)\<rparr>, key)))"

definition delete_key :: "(string \<Rightarrow> bytes) \<Rightarrow> string \<Rightarrow> nat \<Rightarrow> bytes" where
  "delete_key hash key ind = take kUpdateTokenSize (hash (key @ ''|'' @ to_string (int ind)))"

definition index_bytes :: "nat \<Rightarrow> bytes" where
  "index_bytes ind = le_bytes 8 (int ind)"

definition insert_request ::
    "prg_fun \<Rightarrow> (string \<Rightarrow> bytes) \<Rightarrow> evp \<Rightarrow> string \<Rightarrow> nat \<Rightarrow> diana_iface \<Rightarrow>
     (diana_iface \<times> UpdateRequest \<times> bytes \<times> bytes) res" where
  "insert_request prg hash E keyword ind f =
     (let (f1, key) = current_key keyword f;
          (ci, u_req, kw_counter) = update_request prg hash key (index_bytes ind) (clientIns f1);
          delCntMapKey = delete_key hash key ind
      in bindE (encode E (to_string (int kw_counter))) (\<lambda>delCntMapValue.
           Inr (f1\<lparr>clientIns := ci\<rparr>, u_req, delCntMapKey, delCntMapValue)))"

definition apply_insert :: "UpdateRequest \<times> bytes \<times> bytes \<Rightarrow> diana_servers \<Rightarrow> diana_servers" where
  "apply_insert m sv =
     (case m of (u_req, k, v) \<Rightarrow>
        sv\<lparr>serverIns := diana_update u_req (serverIns sv),
           serverDel := (serverDel sv)\<lparr>delCntMap := (delCntMap (serverDel sv))(k \<mapsto> v)\<rparr>\<rparr>)"

definition insertKeyword ::
    "prg_fun \<Rightarrow> (string \<Rightarrow> bytes) \<Rightarrow> evp \<Rightarrow> string \<Rightarrow> nat \<Rightarrow> diana_iface \<times> diana_servers \<Rightarrow>
     (diana_iface \<times> diana_servers) res" where
  "insertKeyword prg hash E keyword ind fs =
     bindE (insert_request prg hash E keyword ind (fst fs)) (\<lambda>(f', m).
       Inr (f', if if_setupMode (fst fs) then snd fs else apply_insert m (snd fs)))"

definition delete_request ::
    "prg_fun \<Rightarrow> (string \<Rightarrow> bytes) \<Rightarrow> string \<Rightarrow> nat \<Rightarrow> diana_iface \<Rightarrow> diana_iface \<times> UpdateRequest" where
  "delete_request prg hash keyword ind f =
     (let (f1, key) = current_key keyword f;
          (cd, u_req, _) = update_request prg hash key (delete_key hash key ind) (clientDel f1)
      in (f1\<lparr>clientDel := cd\<rparr>, u_req))"

definition apply_delete :: "UpdateRequest \<Rightarrow> diana_servers \<Rightarrow> diana_servers" where
  "apply_delete u_req sv = sv\<lparr>serverDel := diana_update u_req (serverDel sv)\<rparr>"

definition deleteKeyword ::
    "prg_fun \<Rightarrow> (string \<Rightarrow> bytes) \<Rightarrow> string \<Rightarrow> nat \<Rightarrow> diana_iface \<times> diana_servers \<Rightarrow>
     diana_iface \<times> diana_servers" where
  "deleteKeyword prg hash keyword ind fs =
     (let (f', u_req) = delete_request prg hash keyword ind (fst fs) in (f', apply_delete u_req (snd fs)))"

section \<open>Search\<close>

text \<open>\<open>keywordsToken[keyword]\<close> creates an empty key for an unknown keyword.\<close>

definition search_key :: "string \<Rightarrow> diana_iface \<Rightarrow> diana_iface \<times> string" where
  "search_key keyword f =
     (case keywordsToken f keyword of
        Some key \<Rightarrow> (f, key)
      | None \<Rightarrow> (f\<lparr>keywordsToken := (keywordsToken f)(keyword \<mapsto> [])\<rparr>, []))"

definition searchDeletedKeyword ::
    "prg_fun \<Rightarrow> (string \<Rightarrow> bytes) \<Rightarrow> string \<Rightarrow> diana_iface \<Rightarrow> (diana_iface \<times> SearchRequest) res" where
  "searchDeletedKeyword prg hash keyword f =
     (let (f1, key) = search_key keyword f
      in bindE (search_request prg hash (clientDel f1) key) (\<lambda>req. Inr (f1, req)))"

text \<open>\<open>delCntMap[item]\<close> for each entry of the deletion tree; a missing one is created as a zero block.\<close>

fun lookup_counters :: "bytes list \<Rightarrow> diana_server \<Rightarrow> diana_server \<times> bytes list" where
  "lookup_counters [] s = (s, [])"
| "lookup_counters (k # ks) s =
     (let v = (case delCntMap s k of None \<Rightarrow> replicate kUpdateTokenSize 0 | Some v \<Rightarrow> v);
          (s', vs) = lookup_counters ks (s\<lparr>delCntMap := (delCntMap s)(k \<mapsto> v)\<rparr>)
      in (s', v # vs))"

fun decode_counters :: "evp \<Rightarrow> bytes list \<Rightarrow> nat list res" where
  "decode_counters E [] = Inr []"
| "decode_counters E (v # vs) =
     bindE (decode E v) (\<lambda>cnt.
     bindE (stoi cnt) (\<lambda>n.
     bindE (decode_counters E vs) (\<lambda>ns. Inr (nat (n mod 2 ^ 32) # ns))))"

definition searchInsertedKeyword ::
    "prg_fun \<Rightarrow> (string \<Rightarrow> bytes) \<Rightarrow> evp \<Rightarrow> string \<Rightarrow> bytes list \<Rightarrow> diana_iface \<Rightarrow>
     (diana_iface \<times> SearchRequest) res" where
  "searchInsertedKeyword prg hash E keyword resDel f =
     (let (f1, key) = search_key keyword f
      in bindE (decode_counters E resDel) (\<lambda>delCnts.
         bindE (search_request_del prg hash (clientIns f1) key delCnts) (\<lambda>req. Inr (f1, req))))"

definition processSearch :: "string \<Rightarrow> diana_iface \<Rightarrow> diana_iface" where
  "processSearch keyword f =
     (if deleteResults f then
        (let n = (case keywordsCounter f keyword of None \<Rightarrow> 0 | Some n \<Rightarrow> n) + 1
         in f\<lparr>keywordsCounter := (keywordsCounter f)(keyword \<mapsto> n),
              keywordsToken := (keywordsToken f)(keyword \<mapsto> keyword @ to_string n)\<rparr>)
      else f)"

definition searchDelete ::
    "prg_fun \<Rightarrow> SearchRequest \<Rightarrow> diana_servers \<Rightarrow> (diana_servers \<times> bytes list) res" where
  "searchDelete prg req sv =
     bindE (search_simple_parallel prg kUpdateTokenSize False req 1 (serverDel sv)) (\<lambda>(s1, resDel).
       let (s2, vs) = lookup_counters resDel s1 in Inr (sv\<lparr>serverDel := s2\<rparr>, vs))"

definition searchInsert ::
    "prg_fun \<Rightarrow> SearchRequest \<Rightarrow> diana_servers \<Rightarrow> (diana_servers \<times> nat list) res" where
  "searchInsert prg req sv =
     bindE (search_simple_parallel prg 8 False req 1 (serverIns sv)) (\<lambda>(s1, resIns).
       Inr (sv\<lparr>serverIns := s1\<rparr>, map (\<lambda>b. nat (le_uint b)) resIns))"

definition searchKeyword ::
    "prg_fun \<Rightarrow> (string \<Rightarrow> bytes) \<Rightarrow> evp \<Rightarrow> string \<Rightarrow> diana_iface \<times> diana_servers \<Rightarrow>
     ((diana_iface \<times> diana_servers) \<times> nat list) res" where
  "searchKeyword prg hash E keyword fs =
     (let (f1, key) = search_key keyword (fst fs)
      in bindE (search_request prg hash (clientDel f1) key) (\<lambda>del_s_req.
         bindE (searchDelete prg del_s_req (snd fs)) (\<lambda>(sv1, vs).
         bindE (decode_counters E vs) (\<lambda>delCnts.
         bindE (search_request_del prg hash (clientIns f1) key delCnts) (\<lambda>ins_s_req.
         bindE (searchInsert prg ins_s_req sv1) (\<lambda>(sv2, resIns).
           if deleteResults f1 then
             bindE (foldE (\<lambda>item. insertKeyword prg hash E keyword item) resIns (processSearch keyword f1, sv2))
               (\<lambda>fs'. Inr (fs', resIns))
           else Inr ((f1, sv2), resIns)))))))"

section \<open>Client and server\<close>

text \<open>
  The handlers use the two servers without testing whether \<open>setup\<close> has created them. A client's call through
  the stub is a call of the handler.
\<close>

definition setup_handler :: "bool \<Rightarrow> diana_servers option" where
  "setup_handler hdd = Some (initializeServers hdd)"

definition handler ::
    "(diana_servers \<Rightarrow> (diana_servers \<times> 'a) res) \<Rightarrow> diana_servers option \<Rightarrow> (diana_servers option \<times> 'a) res" where
  "handler h r =
     (case r of
        None \<Rightarrow> Inl Undefined_behaviour
      | Some sv \<Rightarrow> bindE (h sv) (\<lambda>(sv', a). Inr (Some sv', a)))"

definition insertKeyword_handler where
  "insertKeyword_handler m = handler (\<lambda>sv. Inr (apply_insert m sv, ()))"

definition batchInsertKeyword_handler where
  "batchInsertKeyword_handler ms = handler (\<lambda>sv. Inr (fold apply_insert ms sv, ()))"

definition deleteKeyword_handler where
  "deleteKeyword_handler u_req = handler (\<lambda>sv. Inr (apply_delete u_req sv, ()))"

definition remote_insertKeyword ::
    "prg_fun \<Rightarrow> (string \<Rightarrow> bytes) \<Rightarrow> evp \<Rightarrow> string \<Rightarrow> nat \<Rightarrow> diana_iface \<times> diana_servers option \<Rightarrow>
     (diana_iface \<times> diana_servers option) res" where
  "remote_insertKeyword prg hash E keyword index fr =
     bindE (insert_request prg hash E keyword index (fst fr)) (\<lambda>(f', m).
       if if_setupMode f' then Inr (f', snd fr)
       else bindE (insertKeyword_handler m (snd fr)) (\<lambda>(r', _). Inr (f', r')))"

definition remote_deleteKeyword ::
    "prg_fun \<Rightarrow> (string \<Rightarrow> bytes) \<Rightarrow> string \<Rightarrow> nat \<Rightarrow> diana_iface \<times> diana_servers option \<Rightarrow>
     (diana_iface \<times> diana_servers option) res" where
  "remote_deleteKeyword prg hash keyword index fr =
     (let (f', u_req) = delete_request prg hash keyword index (fst fr)
      in bindE (deleteKeyword_handler u_req (snd fr)) (\<lambda>(r', _). Inr (f', r')))"

text \<open>The insertion requests of a batch, in the client only.\<close>

fun batch_requests ::
    "prg_fun \<Rightarrow> (string \<Rightarrow> bytes) \<Rightarrow> evp \<Rightarrow> string \<Rightarrow> nat list \<Rightarrow> diana_iface \<Rightarrow>
     (diana_iface \<times> (UpdateRequest \<times> bytes \<times> bytes) list) res" where
  "batch_requests prg hash E keyword [] f = Inr (f, [])"
| "batch_requests prg hash E keyword (item # items) f =
     bindE (insert_request prg hash E keyword item f) (\<lambda>(f1, m).
     bindE (batch_requests prg hash E keyword items f1) (\<lambda>(f2, ms). Inr (f2, m # ms)))"

definition remote_searchKeyword ::
    "prg_fun \<Rightarrow> (string \<Rightarrow> bytes) \<Rightarrow> evp \<Rightarrow> string \<Rightarrow> diana_iface \<times> diana_servers option \<Rightarrow>
     ((diana_iface \<times> diana_servers option) \<times> nat list) res" where
  "remote_searchKeyword prg hash E keyword fr =
     bindE (searchDeletedKeyword prg hash keyword (fst fr)) (\<lambda>(f1, delReq).
     bindE (handler (searchDelete prg delReq) (snd fr)) (\<lambda>(r1, ciphers).
     bindE (searchInsertedKeyword prg hash E keyword ciphers f1) (\<lambda>(f2, insReq).
     bindE (handler (searchInsert prg insReq) r1) (\<lambda>(r2, results).
       let f3 = processSearch keyword f2
       in if deleteResults f3 then
            bindE (batch_requests prg hash E keyword results f3) (\<lambda>(f4, ms).
            bindE (batchInsertKeyword_handler ms r2) (\<lambda>(r3, _). Inr ((f4, r3), results)))
          else Inr ((f3, r2), results)))))"


section \<open>The remote operations refine the local ones\<close>

definition remote :: "(diana_iface \<times> diana_servers) \<Rightarrow> diana_iface \<times> diana_servers option" where
  "remote fs = (fst fs, Some (snd fs))"

lemma handler_Some: "handler h (Some sv) = bindE (h sv) (\<lambda>(sv', a). Inr (Some sv', a))"
  by (simp add: handler_def)

lemma current_key_setupMode [simp]: "if_setupMode (fst (current_key w f)) = if_setupMode f"
  by (simp add: current_key_def Let_def split: option.splits)

lemma insert_request_setupMode:
  "insert_request prg hash E w x f = Inr (f', m) \<Longrightarrow> if_setupMode f' = if_setupMode f"
  by (auto simp: insert_request_def Let_def case_prod_beta bindE_Inr_iff)

lemma search_key_again: "search_key w f = (f1, key) \<Longrightarrow> search_key w f1 = (f1, key)"
  by (auto simp: search_key_def split: option.splits)

lemma search_key_modes [simp]:
  "if_setupMode (fst (search_key w f)) = if_setupMode f" "deleteResults (fst (search_key w f)) = deleteResults f"
  by (simp_all add: search_key_def split: option.splits)

lemma processSearch_modes [simp]:
  "if_setupMode (processSearch w f) = if_setupMode f" "deleteResults (processSearch w f) = deleteResults f"
  by (simp_all add: processSearch_def Let_def)

lemma batch_insert:
  assumes "\<not> if_setupMode f"
  shows "foldE (\<lambda>item. insertKeyword prg hash E w item) items (f, sv) =
    bindE (batch_requests prg hash E w items f) (\<lambda>(f', ms). Inr (f', fold apply_insert ms sv))"
  using assms
proof (induction items arbitrary: f sv)
  case Nil
  then show ?case by simp
next
  case (Cons x items)
  show ?case
  proof (cases "insert_request prg hash E w x f")
    case (Inl e)
    then show ?thesis by (simp add: insertKeyword_def)
  next
    case (Inr r)
    obtain f1 m where r: "r = (f1, m)" by (rule prod.exhaust)
    have "\<not> if_setupMode f1" using insert_request_setupMode Inr r Cons.prems by blast
    then show ?thesis
      using Inr r Cons by (simp add: insertKeyword_def bindE_assoc case_prod_beta)
  qed
qed

lemma remote_search_refines:
  assumes "\<not> if_setupMode f"
  shows "remote_searchKeyword prg hash E w (f, Some sv) =
    bindE (searchKeyword prg hash E w (f, sv)) (\<lambda>(fs, r). Inr (remote fs, r))"
proof -
  obtain f1 key where k: "search_key w f = (f1, key)" by force
  have m: "\<not> if_setupMode f1" "deleteResults f1 = deleteResults f"
    using search_key_modes[of w f] assms by (simp_all add: k)
  show ?thesis
  proof (cases "deleteResults f")
    case True
    then show ?thesis
      using m batch_insert[of "processSearch w f1" prg hash E w]
      by (simp add: remote_searchKeyword_def searchKeyword_def searchDeletedKeyword_def searchInsertedKeyword_def
          k search_key_again[OF k] handler_Some bindE_assoc split_def Let_def remote_def batchInsertKeyword_handler_def)
  next
    case False
    then show ?thesis
      using m
      by (simp add: remote_searchKeyword_def searchKeyword_def searchDeletedKeyword_def searchInsertedKeyword_def
          k search_key_again[OF k] handler_Some bindE_assoc split_def Let_def remote_def processSearch_def)
  qed
qed


section \<open>Runs of the interface\<close>

datatype diana_op = Ins string nat | Del string nat

fun diana_step ::
    "prg_fun \<Rightarrow> (string \<Rightarrow> bytes) \<Rightarrow> evp \<Rightarrow> diana_op \<Rightarrow> diana_iface \<times> diana_servers \<Rightarrow> (diana_iface \<times> diana_servers) res" where
  "diana_step prg hash E (Ins w x) fs = insertKeyword prg hash E w x fs"
| "diana_step prg hash E (Del w x) fs = Inr (deleteKeyword prg hash w x fs)"

definition inserted :: "diana_op list \<Rightarrow> string \<Rightarrow> nat list" where
  "inserted ops w = List.map_filter (\<lambda>p. case p of Ins v x \<Rightarrow> if v = w then Some x else None | _ \<Rightarrow> None) ops"

definition deleted :: "diana_op list \<Rightarrow> string \<Rightarrow> nat list" where
  "deleted ops w = List.map_filter (\<lambda>p. case p of Del v x \<Rightarrow> if v = w then Some x else None | _ \<Rightarrow> None) ops"

definition first_key :: "string \<Rightarrow> string" where
  "first_key w = w @ to_string 1"

definition ins_log :: "diana_op list \<Rightarrow> (string \<times> bytes) list" where
  "ins_log ops = List.map_filter
     (\<lambda>p. case p of Ins w x \<Rightarrow> Some (first_key w, index_bytes x) | _ \<Rightarrow> None) ops"

definition del_log :: "(string \<Rightarrow> bytes) \<Rightarrow> diana_op list \<Rightarrow> (string \<times> bytes) list" where
  "del_log hash ops = List.map_filter
     (\<lambda>p. case p of Del w x \<Rightarrow> Some (first_key w, delete_key hash (first_key w) x) | _ \<Rightarrow> None) ops"

lemma map_filter_snoc:
  "List.map_filter f (xs @ [x]) = List.map_filter f xs @ (case f x of None \<Rightarrow> [] | Some y \<Rightarrow> [y])"
  by (simp add: List.map_filter_def split: option.splits)

lemma first_key_inj [simp]: "first_key v = first_key w \<longleftrightarrow> v = w"
  by (simp add: first_key_def)

lemma log_snoc [simp]:
  "inserted (ops @ [Ins v x]) w = inserted ops w @ (if v = w then [x] else [])"
  "inserted (ops @ [Del v x]) w = inserted ops w"
  "deleted (ops @ [Del v x]) w = deleted ops w @ (if v = w then [x] else [])"
  "deleted (ops @ [Ins v x]) w = deleted ops w"
  "ins_log (ops @ [Ins v x]) = ins_log ops @ [(first_key v, index_bytes x)]"
  "ins_log (ops @ [Del v x]) = ins_log ops"
  "del_log hash (ops @ [Del v x]) = del_log hash ops @ [(first_key v, delete_key hash (first_key v) x)]"
  "del_log hash (ops @ [Ins v x]) = del_log hash ops"
  by (simp_all add: inserted_def deleted_def ins_log_def del_log_def map_filter_snoc)

lemma log_nil [simp]: "inserted [] w = []" "deleted [] w = []" "ins_log [] = []" "del_log hash [] = []"
  by (simp_all add: inserted_def deleted_def ins_log_def del_log_def List.map_filter_def)

lemma entries_ins_log: "entries (ins_log ops) (first_key w) = map index_bytes (inserted ops w)"
proof (induction ops rule: rev_induct)
  case (snoc p ops)
  then show ?case by (cases p) (auto simp: entries_snoc)
qed (simp add: entries_def)

lemma entries_del_log:
  "entries (del_log hash ops) (first_key w) = map (delete_key hash (first_key w)) (deleted ops w)"
proof (induction ops rule: rev_induct)
  case (snoc p ops)
  then show ?case by (cases p) (auto simp: entries_snoc)
qed (simp add: entries_def)

lemma length_logs: "length (ins_log ops) \<le> length ops" "length (del_log hash ops) \<le> length ops"
  "length (inserted ops w) \<le> length ops"
  by (simp_all add: ins_log_def del_log_def inserted_def List.map_filter_def le_trans[OF length_filter_le])

text \<open>Counters come back from a block, possibly followed by something that does not begin with a digit.\<close>

definition counters_good :: "evp \<Rightarrow> nat \<Rightarrow> bool" where
  "counters_good E N \<longleftrightarrow>
     (\<forall>i < N. \<exists>b r. encode E (to_string (int i)) = Inr b \<and> decode E b = Inr (to_string (int i) @ r) \<and>
        (r = [] \<or> \<not> is_digit (hd r)))"

lemma evp_counters:
  assumes "evp_good E" "buffer_ends_numbers E" "N \<le> 2 ^ 30"
  shows "counters_good E N"
  unfolding counters_good_def
proof (intro allI impI)
  fix i assume "i < N"
  then have "i < 10 ^ 10" using assms(3) by simp
  then have "length (to_string (int i)) < 12" using length_digits[of i 9] by (simp add: to_string_def)
  then show "\<exists>b r. encode E (to_string (int i)) = Inr b \<and> decode E b = Inr (to_string (int i) @ r) \<and>
      (r = [] \<or> \<not> is_digit (hd r))"
    using decode_after_encode[OF assms(1,2)] to_string_no_nul[of "int i"] by blast
qed

definition counter_block :: "evp \<Rightarrow> nat \<Rightarrow> bytes" where
  "counter_block E i = (case encode E (to_string (int i)) of Inr b \<Rightarrow> b | Inl _ \<Rightarrow> [])"

definition hash_good :: "(string \<Rightarrow> bytes) \<Rightarrow> diana_op list \<Rightarrow> bool" where
  "hash_good hash ops \<longleftrightarrow>
     inj_on (\<lambda>(w, x). delete_key hash (first_key w) x) {(w, x). Ins w x \<in> set ops} \<and>
     (\<forall>w x. Ins w x \<in> set ops \<longrightarrow> kUpdateTokenSize \<le> length (hash (first_key w @ ''|'' @ to_string (int x))))"

definition iface_inv ::
    "prg_fun \<Rightarrow> (string \<Rightarrow> bytes) \<Rightarrow> evp \<Rightarrow> (bytes \<Rightarrow> bytes) \<Rightarrow> (bytes \<Rightarrow> bytes) \<Rightarrow> diana_op list \<Rightarrow>
     diana_iface \<times> diana_servers \<Rightarrow> bool" where
  "iface_inv prg hash E ri rd ops fs \<longleftrightarrow>
     \<not> if_setupMode (fst fs) \<and> \<not> deleteResults (fst fs) \<and>
     (\<forall>w. keywordsToken (fst fs) w = None \<or> keywordsToken (fst fs) w = Some (first_key w)) \<and>
     (\<forall>w. inserted ops w \<noteq> [] \<longrightarrow> keywordsToken (fst fs) w \<noteq> None) \<and>
     diana_inv prg hash ri (ins_log ops) (clientIns (fst fs), serverIns (snd fs)) \<and>
     diana_inv prg hash rd (del_log hash ops) (clientDel (fst fs), serverDel (snd fs)) \<and>
     (\<forall>w i. i < length (inserted ops w) \<longrightarrow>
        delCntMap (serverDel (snd fs)) (delete_key hash (first_key w) (inserted ops w ! i)) =
          Some (counter_block E i))"

lemma diana_inv_frame:
  "diana_inv prg hash rp us (c, s) \<Longrightarrow> lookup s' = lookup s \<Longrightarrow> diana_inv prg hash rp us (c, s')"
  by (simp add: diana_inv_def)

lemma lookup_delCntMap [simp]: "lookup (s\<lparr>delCntMap := m\<rparr>) = lookup s"
  by (simp add: lookup_def)

lemma delCntMap_diana_update [simp]: "delCntMap (diana_update req s) = delCntMap s"
  by (simp add: diana_update_def split: option.splits)

lemma current_key_eq:
  assumes "keywordsToken f w = None \<or> keywordsToken f w = Some (first_key w)" "current_key w f = (f1, key)"
  shows "key = first_key w \<and> keywordsToken f1 = (keywordsToken f)(w \<mapsto> first_key w) \<and>
    if_setupMode f1 = if_setupMode f \<and> deleteResults f1 = deleteResults f \<and> clientIns f1 = clientIns f \<and>
    clientDel f1 = clientDel f"
  using assms by (auto simp: current_key_def first_key_def Let_def fun_eq_iff)

lemma iface_inv_init:
  "iface_inv prg hash E ri rd [] (initializeClient False (DianaClient rd kd) (DianaClient ri ki), initializeServers hdd)"
  using diana_inv_init[of prg hash ri ki hdd] diana_inv_init[of prg hash rd kd hdd]
  by (simp add: iface_inv_def initializeClient_def initializeServers_def)


lemma iface_inv_Ins:
  assumes inv: "iface_inv prg hash E ri rd ops (f, sv)"
    and inj: "tokens_distinct prg hash ri (ins_log (ops @ [Ins w x]))" and len: "length ops < N" and E: "counters_good E N"
    and N: "N \<le> 2 ^ 30"
    and fresh: "\<And>v y. y \<in> set (inserted ops v) \<Longrightarrow> delete_key hash (first_key v) y \<noteq> delete_key hash (first_key w) x"
  shows "\<exists>fs'. insertKeyword prg hash E w x (f, sv) = Inr fs' \<and> iface_inv prg hash E ri rd (ops @ [Ins w x]) fs'"
proof -
  obtain f1 key where k: "current_key w f = (f1, key)" by force
  let ?u = "(first_key w, index_bytes x)"
  let ?n = "length (inserted ops w)"
  let ?dk = "delete_key hash (first_key w) x"
  have f1: "key = first_key w" "keywordsToken f1 = (keywordsToken f)(w \<mapsto> first_key w)"
    "if_setupMode f1 = if_setupMode f" "deleteResults f1 = deleteResults f" "clientIns f1 = clientIns f"
    "clientDel f1 = clientDel f"
    using current_key_eq[OF _ k] inv by (simp_all add: iface_inv_def)
  have i: "diana_inv prg hash ri (ins_log ops) (clientIns f, serverIns sv)" "\<not> if_setupMode f"
    using inv by (simp_all add: iface_inv_def)
  have l: "length (ins_log ops) < 2 ^ 32" using length_logs(1)[of ops] len N by simp
  have "?n < N" using length_logs(3)[of ops w] len by linarith
  then obtain b where b: "encode E (to_string (int ?n)) = Inr b" using E unfolding counters_good_def by blast
  have cb: "counter_block E ?n = b" by (simp add: counter_block_def b)
  obtain ci u_req c where u: "update_request prg hash (first_key w) (index_bytes x) (clientIns f) = (ci, u_req, c)"
    by (metis prod_cases3)
  have c: "c = ?n"
    using diana_inv_counter[OF i(1) l, of "first_key w"] u by (auto simp: update_request_def Let_def entries_ins_log)
  let ?sv = "apply_insert (u_req, ?dk, b) sv"
  have st: "insertKeyword prg hash E w x (f, sv) = Inr (f1\<lparr>clientIns := ci\<rparr>, ?sv)"
    using i(2) by (simp add: insertKeyword_def insert_request_def k f1 u c b)
  have "diana_inv prg hash ri (ins_log ops @ [?u]) (diana_insert prg hash ?u (clientIns f, serverIns sv))"
    using diana_inv_insert[OF i(1) _ l] inj by simp
  then have "diana_inv prg hash ri (ins_log (ops @ [Ins w x])) (ci, serverIns ?sv)"
    by (simp add: diana_insert_def u apply_insert_def)
  moreover have "diana_inv prg hash rd (del_log hash ops) (clientDel f, serverDel ?sv)"
    by (rule diana_inv_frame[of _ _ _ _ _ "serverDel sv"])
      (use inv in \<open>simp_all add: iface_inv_def apply_insert_def\<close>)
  moreover have "delCntMap (serverDel ?sv) (delete_key hash (first_key v) (inserted (ops @ [Ins w x]) v ! j)) =
      Some (counter_block E j)" if "j < length (inserted (ops @ [Ins w x]) v)" for v j
  proof (cases "j < length (inserted ops v)")
    case True
    then have "delete_key hash (first_key v) (inserted ops v ! j) \<noteq> ?dk" using fresh[of "inserted ops v ! j" v] by simp
    then show ?thesis using inv True by (simp add: apply_insert_def iface_inv_def nth_append)
  next
    case False
    with that have "v = w" "j = ?n" by (auto split: if_splits)
    then show ?thesis by (simp add: apply_insert_def cb)
  qed
  ultimately show ?thesis
    using inv st by (auto simp: iface_inv_def f1 split: if_splits)
qed

lemma iface_inv_Del:
  assumes inv: "iface_inv prg hash E ri rd ops (f, sv)"
    and inj: "tokens_distinct prg hash rd (del_log hash (ops @ [Del w x]))" and len: "length ops < 2 ^ 32"
  shows "iface_inv prg hash E ri rd (ops @ [Del w x]) (deleteKeyword prg hash w x (f, sv))"
proof -
  obtain f1 key where k: "current_key w f = (f1, key)" by force
  let ?u = "(first_key w, delete_key hash (first_key w) x)"
  have f1: "key = first_key w" "keywordsToken f1 = (keywordsToken f)(w \<mapsto> first_key w)"
    "if_setupMode f1 = if_setupMode f" "deleteResults f1 = deleteResults f" "clientIns f1 = clientIns f"
    "clientDel f1 = clientDel f"
    using current_key_eq[OF _ k] inv by (simp_all add: iface_inv_def)
  have i: "diana_inv prg hash rd (del_log hash ops) (clientDel f, serverDel sv)"
    using inv by (simp add: iface_inv_def)
  have l: "length (del_log hash ops) < 2 ^ 32" using length_logs(2)[of hash ops] len by simp
  obtain cd u_req c where u: "update_request prg hash (first_key w) (delete_key hash (first_key w) x) (clientDel f) = (cd, u_req, c)"
    by (metis prod_cases3)
  have st: "deleteKeyword prg hash w x (f, sv) = (f1\<lparr>clientDel := cd\<rparr>, apply_delete u_req sv)"
    by (simp add: deleteKeyword_def delete_request_def k f1 u)
  have "diana_inv prg hash rd (del_log hash ops @ [?u]) (diana_insert prg hash ?u (clientDel f, serverDel sv))"
    using diana_inv_insert[OF i _ l] inj by simp
  then have "diana_inv prg hash rd (del_log hash (ops @ [Del w x])) (cd, serverDel (apply_delete u_req sv))"
    by (simp add: diana_insert_def u apply_delete_def)
  then show ?thesis
    using inv by (auto simp: iface_inv_def st f1 apply_delete_def split: if_splits)
qed

text \<open>
  The runs considered: no index is inserted twice for a keyword, hashes and tokens do not collide, and the
  counters fit.
\<close>

definition run_ok ::
    "prg_fun \<Rightarrow> (string \<Rightarrow> bytes) \<Rightarrow> evp \<Rightarrow> (bytes \<Rightarrow> bytes) \<Rightarrow> (bytes \<Rightarrow> bytes) \<Rightarrow> diana_op list \<Rightarrow> bool" where
  "run_ok prg hash E ri rd ops \<longleftrightarrow>
     counters_good E (length ops) \<and> length ops \<le> 2 ^ 30 \<and> (\<forall>w. distinct (inserted ops w)) \<and> hash_good hash ops \<and>
     tokens_distinct prg hash ri (ins_log ops) \<and> tokens_distinct prg hash rd (del_log hash ops)"

lemma inserted_append: "inserted (xs @ ys) w = inserted xs w @ inserted ys w"
  by (simp add: inserted_def map_filter_append)

lemma in_inserted_iff: "x \<in> set (inserted ops w) \<longleftrightarrow> Ins w x \<in> set ops"
  by (induction ops rule: rev_induct) (auto split: diana_op.splits simp: inserted_def map_filter_snoc)

lemma iface_inv_run:
  assumes "run_ok prg hash E ri rd (ops @ rest)"
  shows "\<exists>fs. foldE (diana_step prg hash E) ops (initializeClient False (DianaClient rd kd) (DianaClient ri ki),
      initializeServers hdd) = Inr fs \<and> iface_inv prg hash E ri rd ops fs"
  using assms
proof (induction ops arbitrary: rest rule: rev_induct)
  case Nil
  then show ?case by (simp add: iface_inv_init)
next
  case (snoc p ops)
  from snoc.IH[of "p # rest"] snoc.prems obtain f sv where
    r: "foldE (diana_step prg hash E) ops (initializeClient False (DianaClient rd kd) (DianaClient ri ki),
      initializeServers hdd) = Inr (f, sv)" "iface_inv prg hash E ri rd ops (f, sv)" by auto
  have N: "length (ops @ p # rest) \<le> 2 ^ 30" using snoc.prems by (simp add: run_ok_def)
  have ok: "counters_good E (length (ops @ p # rest))" "\<forall>w. distinct (inserted (ops @ p # rest) w)"
    "hash_good hash (ops @ p # rest)" "tokens_distinct prg hash ri (ins_log (ops @ p # rest))"
    "tokens_distinct prg hash rd (del_log hash (ops @ p # rest))"
    using snoc.prems by (simp_all add: run_ok_def)
  have td: "tokens_distinct prg hash ri (ins_log (ops @ [p]))" "tokens_distinct prg hash rd (del_log hash (ops @ [p]))"
    using ok(4,5) tokens_distinct_prefix[of prg hash ri "ins_log (ops @ [p])" "ins_log rest"]
      tokens_distinct_prefix[of prg hash rd "del_log hash (ops @ [p])" "del_log hash rest"]
    by (simp_all add: ins_log_def del_log_def map_filter_append[symmetric])
  show ?case
  proof (cases p)
    case (Ins w x)
    have d: "distinct (inserted (ops @ [p]) w)"
      using ok(2)[rule_format, of w] inserted_append[of "ops @ [p]" rest w] by simp
    have fresh: "delete_key hash (first_key v) y \<noteq> delete_key hash (first_key w) x" if y: "y \<in> set (inserted ops v)" for v y
    proof
      assume eq: "delete_key hash (first_key v) y = delete_key hash (first_key w) x"
      have "(v, y) = (w, x)"
        by (rule inj_onD[OF conjunct1[OF ok(3)[unfolded hash_good_def]]])
          (use y eq Ins in \<open>simp_all add: in_inserted_iff\<close>)
      with y d show False by (auto simp: Ins)
    qed
    from iface_inv_Ins[OF r(2) td(1)[unfolded Ins] _ ok(1) N fresh] show ?thesis
      using r(1) by (auto simp: foldE_append Ins)
  next
    case (Del w x)
    have "length ops < 2 ^ 32" using N by simp
    from iface_inv_Del[OF r(2) td(2)[unfolded Del] this] show ?thesis
      using r(1) by (simp add: foldE_append Del)
  qed
qed


section \<open>A search after a run\<close>

lemma lookup_counters_present:
  "\<forall>k \<in> set ks. delCntMap s k = Some (g k) \<Longrightarrow> lookup_counters ks s = (s, map g ks)"
proof (induction ks)
  case (Cons k ks)
  have "s\<lparr>delCntMap := (delCntMap s)(k \<mapsto> g k)\<rparr> = s"
    using Cons.prems by (simp add: map_upd_triv)
  then show ?case using Cons by simp
qed simp

lemma decode_counter_blocks:
  assumes "counters_good E N" "N \<le> 2 ^ 30" "\<forall>i \<in> set is. i < N"
  shows "decode_counters E (map (counter_block E) is) = Inr is"
  using assms(3)
proof (induction "is")
  case (Cons i "is")
  have N: "int i < 2 ^ 31" using assms(2) Cons.prems by auto
  obtain b r where b: "encode E (to_string (int i)) = Inr b" "decode E b = Inr (to_string (int i) @ r)"
      "r = [] \<or> \<not> is_digit (hd r)"
    using assms(1) Cons.prems by (auto simp: counters_good_def)
  have "in_int32 (int i)" using N by (simp add: in_int32_def)
  then have "stoi (to_string (int i) @ r) = Inr (int i)" using b(3) by (rule stoi_to_string_append)
  moreover have "int i mod 2 ^ 32 = int i" using N by simp
  ultimately show ?case using Cons b by (simp add: counter_block_def)
qed simp

lemma index_bytes_round_trip: "x < 2 ^ 64 \<Longrightarrow> nat (le_uint (index_bytes x)) = x"
proof -
  assume "x < 2 ^ 64"
  then have "int x < 2 ^ 64" by (metis of_nat_less_iff of_nat_numeral of_nat_power)
  then have "int x mod 256 ^ 8 = int x" by simp
  then show ?thesis by (simp add: index_bytes_def le_uint_le_bytes)
qed

definition position :: "nat list \<Rightarrow> nat \<Rightarrow> nat" where
  "position xs x = (LEAST i. i < length xs \<and> xs ! i = x)"

lemma position_nth: "x \<in> set xs \<Longrightarrow> position xs x < length xs \<and> xs ! position xs x = x"
  unfolding position_def by (rule LeastI_ex) (auto simp: in_set_conv_nth)

lemma position_filter:
  assumes "distinct xs" "set ys \<subseteq> set xs"
  shows "map (\<lambda>i. xs ! i) (filter (\<lambda>i. i \<notin> set (map (position xs) ys)) [0..<length xs]) = filter (\<lambda>x. x \<notin> set ys) xs"
proof -
  have "xs ! i \<in> set ys \<longleftrightarrow> i \<in> position xs ` set ys" if "i < length xs" for i
  proof
    assume "xs ! i \<in> set ys"
    moreover have "position xs (xs ! i) = i"
      using position_nth[of "xs ! i" xs] that assms(1) by (metis nth_eq_iff_index_eq nth_mem)
    ultimately show "i \<in> position xs ` set ys" by (metis imageI)
  next
    assume "i \<in> position xs ` set ys"
    then show "xs ! i \<in> set ys" using position_nth assms(2) by fastforce
  qed
  then have "filter (\<lambda>i. i \<notin> set (map (position xs) ys)) [0..<length xs] = filter (\<lambda>i. xs ! i \<notin> set ys) [0..<length xs]"
    by (intro filter_cong) auto
  then have "map (\<lambda>i. xs ! i) (filter (\<lambda>i. i \<notin> set (map (position xs) ys)) [0..<length xs]) =
      filter (\<lambda>x. x \<notin> set ys) (map (\<lambda>i. xs ! i) [0..<length xs])"
    by (simp add: filter_map comp_def)
  then show ?thesis by (simp add: map_nth)
qed

context prg_stream
begin

lemma search_ins_parallel:
  assumes inv: "diana_inv prg hash rp us (c, s)" and "length us < 2 ^ 32" "\<forall>u \<in> set us. length (snd u) = sz"
    and del: "dels \<noteq> [] \<Longrightarrow> 2 \<le> length (entries us kw) \<and> (\<exists>i < length (entries us kw). i \<notin> set dels)"
    and "\<forall>d \<in> set dels. d < length (entries us kw)" "length (entries us kw) \<le> 2 ^ 30"
  shows "\<exists>req xs. search_request_del prg hash c kw dels = Inr req \<and>
    search_simple_parallel prg sz False req 1 s = Inr (s, xs) \<and>
    mset xs = mset (map (\<lambda>i. entries us kw ! i) (filter (\<lambda>i. i \<notin> set dels) [0..<length (entries us kw)]))"
proof (cases "dels = []")
  case True
  have e: "search_request_del prg hash c kw [] = search_request prg hash c kw"
    by (simp add: search_request_del_def search_request_def Let_def split: option.split)
  from search_after_updates[OF inv assms(2,3), of kw] obtain req where r:
    "search_request prg hash c kw = Inr req" "add_count req = length (entries us kw)"
    "entries us kw \<noteq> [] \<longrightarrow> token_list req \<noteq> []" "length (all_leaves prg (token_list req)) = add_count req"
    "diana_search prg sz False req s = (s, entries us kw)" by blast
  have "search_simple_parallel prg sz False req 1 s = Inr (s, entries us kw)"
  proof (cases "entries us kw = []")
    case True
    then show ?thesis using r by (simp add: search_simple_parallel_def)
  next
    case False
    then show ?thesis using r search_simple_parallel_eq[of req 1 sz False s] by simp
  qed
  then show ?thesis using r e True by (auto simp: map_nth)
next
  case False
  from del[OF False] obtain i where i: "2 \<le> length (entries us kw)" "i < length (entries us kw)" "i \<notin> set dels" by blast
  from search_del_after_updates[OF inv assms(2,3) i(1) False assms(5,6)] obtain req xs where r:
    "search_request_del prg hash c kw dels = Inr req" "add_count req = length (entries us kw)"
    "length (all_leaves prg (token_list req)) \<le> add_count req" "diana_search prg sz False req s = (s, xs)"
    "mset xs = mset (map (\<lambda>i. entries us kw ! i) (filter (\<lambda>i. i \<notin> set dels) [0..<length (entries us kw)]))" by blast
  have "filter (\<lambda>i. i \<notin> set dels) [0..<length (entries us kw)] \<noteq> []"
    using i(2,3) by (auto simp: filter_empty_conv)
  then have "size (mset xs) \<noteq> 0" by (simp only: r(5) size_mset length_map length_0_conv) simp
  then have "xs \<noteq> []" by auto
  then have "token_list req \<noteq> []" using r(4) by (auto simp: diana_search_def)
  then show ?thesis using r search_simple_parallel_eq[of req 1 sz False s] by auto
qed

lemma search_del_parallel:
  assumes inv: "diana_inv prg hash rp us (c, s)" and "length us < 2 ^ 32" "\<forall>u \<in> set us. length (snd u) = sz"
  shows "\<exists>req. search_request prg hash c kw = Inr req \<and>
    search_simple_parallel prg sz False req 1 s = Inr (s, entries us kw)"
proof -
  from search_after_updates[OF inv assms(2,3), of kw] obtain req where r:
    "search_request prg hash c kw = Inr req" "add_count req = length (entries us kw)"
    "entries us kw \<noteq> [] \<longrightarrow> token_list req \<noteq> []" "length (all_leaves prg (token_list req)) = add_count req"
    "diana_search prg sz False req s = (s, entries us kw)" by blast
  show ?thesis
  proof (cases "entries us kw = []")
    case True
    then show ?thesis using r by (simp add: search_simple_parallel_def)
  next
    case False
    then show ?thesis using r search_simple_parallel_eq[of req 1 sz False s] by simp
  qed
qed


lemma ins_log_in: "(k, b) \<in> set (ins_log ops) \<Longrightarrow> length b = 8"
  by (auto simp: ins_log_def List.map_filter_def index_bytes_def split: diana_op.splits)

lemma searchKeyword_after_run:
  assumes inv: "iface_inv prg hash E ri rd ops (f, sv)" and ok: "run_ok prg hash E ri rd ops"
    and sub: "set (deleted ops w) \<subseteq> set (inserted ops w)"
    and left: "deleted ops w \<noteq> [] \<Longrightarrow> \<exists>x \<in> set (inserted ops w). x \<notin> set (deleted ops w)"
    and tok: "inserted ops w \<noteq> []" and range: "\<forall>x \<in> set (inserted ops w). x < 2 ^ 64"
    and dk: "\<forall>u \<in> set (del_log hash ops). length (snd u) = kUpdateTokenSize"
  shows "\<exists>xs. searchKeyword prg hash E w (f, sv) = Inr ((f, sv), xs) \<and>
    mset xs = mset (filter (\<lambda>x. x \<notin> set (deleted ops w)) (inserted ops w))"
proof -
  let ?k = "first_key w"
  let ?ins = "inserted ops w" let ?del = "deleted ops w"
  have E: "counters_good E (length ops)" "length ops \<le> 2 ^ 30" and d: "distinct ?ins" using ok by (simp_all add: run_ok_def)
  have l: "length (ins_log ops) < 2 ^ 32" "length (del_log hash ops) < 2 ^ 32"
    using length_logs(1)[of ops] length_logs(2)[of hash ops] E(2) by simp_all
  have "keywordsToken f w = Some ?k" using inv tok unfolding iface_inv_def by (metis fst_conv)
  then have key: "search_key w f = (f, ?k)" "\<not> deleteResults f"
    using inv by (simp_all add: iface_inv_def search_key_def)
  have i: "diana_inv prg hash ri (ins_log ops) (clientIns f, serverIns sv)"
    "diana_inv prg hash rd (del_log hash ops) (clientDel f, serverDel sv)"
    using inv by (simp_all add: iface_inv_def)
  from search_del_parallel[OF i(2) l(2) dk, of ?k] obtain dreq where dr:
    "search_request prg hash (clientDel f) ?k = Inr dreq"
    "search_simple_parallel prg kUpdateTokenSize False dreq 1 (serverDel sv) =
       Inr (serverDel sv, map (delete_key hash ?k) ?del)" by (auto simp: entries_del_log)
  let ?is = "map (position ?ins) ?del"
  have pos: "position ?ins x < length ?ins" "?ins ! position ?ins x = x" if "x \<in> set ?del" for x
    using position_nth[of x ?ins] sub that by auto
  have cnt: "delCntMap (serverDel sv) (delete_key hash ?k x) = Some (counter_block E (position ?ins x))"
    if "x \<in> set ?del" for x
    using inv pos[OF that] unfolding iface_inv_def by (metis snd_conv)
  define g where "g k = the (delCntMap (serverDel sv) k)" for k
  have "lookup_counters (map (delete_key hash ?k) ?del) (serverDel sv) =
      (serverDel sv, map g (map (delete_key hash ?k) ?del))"
    by (rule lookup_counters_present) (auto simp: cnt g_def)
  also have "map g (map (delete_key hash ?k) ?del) = map (counter_block E) ?is" by (simp add: g_def cnt)
  finally have lk: "lookup_counters (map (delete_key hash ?k) ?del) (serverDel sv) =
      (serverDel sv, map (counter_block E) ?is)" .
  have "\<forall>j \<in> set ?is. j < length ops" using pos(1) length_logs(3)[of ops w] by fastforce
  from decode_counter_blocks[OF E this] have dc: "decode_counters E (map (counter_block E) ?is) = Inr ?is" .
  have ne: "2 \<le> length (entries (ins_log ops) ?k) \<and> (\<exists>j < length (entries (ins_log ops) ?k). j \<notin> set ?is)"
    if "?is \<noteq> []"
  proof -
    from that obtain y where y: "y \<in> set ?del" by (cases ?del) auto
    with left obtain x where x: "x \<in> set ?ins" "x \<notin> set ?del" by force
    then have "x \<noteq> y" "y \<in> set ?ins" using y sub by auto
    then have "2 \<le> card (set ?ins)" using x(1) card_mono[of "set ?ins" "{x, y}"] by simp
    moreover have "position ?ins x \<notin> set ?is" using x pos(2) position_nth[OF x(1)] by auto
    ultimately show ?thesis
      using position_nth[OF x(1)] d by (auto simp: entries_ins_log distinct_card)
  qed
  have "\<forall>j \<in> set ?is. j < length (entries (ins_log ops) ?k)" using pos(1) by (auto simp: entries_ins_log)
  have l8: "\<forall>u \<in> set (ins_log ops). length (snd u) = 8" by (auto dest: ins_log_in)
  have le: "length (entries (ins_log ops) ?k) \<le> 2 ^ 30"
    using length_logs(3)[of ops w] E(2) by (simp add: entries_ins_log)
  from search_ins_parallel[OF i(1) l(1) l8 ne \<open>\<forall>j \<in> set ?is. j < length (entries (ins_log ops) ?k)\<close> le]
  obtain ireq bs where ir:
    "search_request_del prg hash (clientIns f) ?k ?is = Inr ireq"
    "search_simple_parallel prg 8 False ireq 1 (serverIns sv) = Inr (serverIns sv, bs)"
    "mset bs = mset (map (\<lambda>j. map index_bytes ?ins ! j) (filter (\<lambda>j. j \<notin> set ?is) [0..<length ?ins]))"
    unfolding entries_ins_log length_map by blast
  let ?dec = "\<lambda>b. nat (le_uint b)"
  have "mset (map ?dec bs) = mset (map ?dec (map (\<lambda>j. map index_bytes ?ins ! j)
      (filter (\<lambda>j. j \<notin> set ?is) [0..<length ?ins])))"
    by (simp only: mset_map ir(3))
  also have "map ?dec (map (\<lambda>j. map index_bytes ?ins ! j) (filter (\<lambda>j. j \<notin> set ?is) [0..<length ?ins])) =
      map (\<lambda>j. ?ins ! j) (filter (\<lambda>j. j \<notin> set ?is) [0..<length ?ins])"
    using range by (simp add: index_bytes_round_trip)
  also have "\<dots> = filter (\<lambda>x. x \<notin> set ?del) ?ins" by (rule position_filter[OF d sub])
  finally have m: "mset (map ?dec bs) = mset (filter (\<lambda>x. x \<notin> set ?del) ?ins)" .
  have "searchKeyword prg hash E w (f, sv) = Inr ((f, sv), map ?dec bs)"
    using key dr lk dc ir
    by (simp add: searchKeyword_def searchDelete_def searchInsert_def del: map_map list.map_comp)
  with m show ?thesis by blast
qed

end

section \<open>Properties\<close>

text \<open>
  C11. With \<open>deleteResults\<close> off, after any run of at most \<open>2 ^ 30\<close> insertions and deletions through the interface that
  inserts no index twice for a keyword, a search for a keyword that has been inserted returns exactly the indexes inserted for it and not deleted,
  each once, and leaves the state as it is. If entries of the keyword were deleted, each of them was inserted before the search and at least
  one entry is left (a search with none left is undefined). Hypotheses: hashes and tokens in use do not collide and have their documented
  lengths, the cipher decrypts what it encrypts, and the bytes that \<open>decode\<close> reads without having written them are no digits.
\<close>

theorem diana_interface_correct:
  assumes "evp_good E" "buffer_ends_numbers E" "length ops \<le> 2 ^ 30" "\<forall>v. distinct (inserted ops v)"
    and "hash_good hash ops" "tokens_distinct (derive_bytes aes) hash ri (ins_log ops)"
    and "tokens_distinct (derive_bytes aes) hash rd (del_log hash ops)"
    and "set (deleted ops w) \<subseteq> set (inserted ops w)" "inserted ops w \<noteq> []" "\<forall>x \<in> set (inserted ops w). x < 2 ^ 64"
    and "deleted ops w \<noteq> [] \<Longrightarrow> \<exists>x \<in> set (inserted ops w). x \<notin> set (deleted ops w)"
    and "\<forall>u \<in> set (del_log hash ops). length (snd u) = kUpdateTokenSize"
  shows "\<exists>fs xs. foldE (diana_step (derive_bytes aes) hash E) ops
      (initializeClient False (DianaClient rd kd) (DianaClient ri ki), initializeServers hdd) = Inr fs \<and>
    searchKeyword (derive_bytes aes) hash E w fs = Inr (fs, xs) \<and>
    mset xs = mset (filter (\<lambda>x. x \<notin> set (deleted ops w)) (inserted ops w))"
proof -
  have ok: "run_ok (derive_bytes aes) hash E ri rd ops"
    using evp_counters[OF assms(1-3)] assms(3-7) by (simp add: run_ok_def)
  from iface_inv_run[of "derive_bytes aes" hash E ri rd ops "[]" kd ki hdd] ok obtain f sv where
    r: "foldE (diana_step (derive_bytes aes) hash E) ops
      (initializeClient False (DianaClient rd kd) (DianaClient ri ki), initializeServers hdd) = Inr (f, sv)"
      "iface_inv (derive_bytes aes) hash E ri rd ops (f, sv)" by auto
  from stream.searchKeyword_after_run[OF r(2) ok assms(8,11,9,10,12)] r(1) show ?thesis by blast
qed

definition block_evp :: evp where
  "block_evp = \<lparr>evp_encrypt = (\<lambda>p. take 16 (p @ replicate 16 (of_nat (length p)))),
     evp_decrypt = (\<lambda>c. Some (take (unat (last c)) c)), stack_content = (\<lambda>c. replicate 16 120)\<rparr>"

lemma block_evp_good: "evp_good block_evp" "buffer_ends_numbers block_evp"
proof -
  have "length (evp_encrypt block_evp p) = 16 \<and> evp_decrypt block_evp (evp_encrypt block_evp p) = Some p"
    if "length p < 12" for p
  proof -
    let ?n = "of_nat (length p) :: byte"
    have "evp_encrypt block_evp p = p @ replicate (16 - length p) ?n" using that by (simp add: block_evp_def min_def)
    moreover have "last (p @ replicate (16 - length p) ?n) = ?n" using that by (simp add: last_append)
    moreover have "unat ?n = length p" using that by (simp add: unat_of_nat take_bit_nat_eq_self)
    ultimately show ?thesis using that by (simp add: block_evp_def)
  qed
  then show "evp_good block_evp" by (simp add: evp_good_def)
  have "\<not> is_digit (char_of (120 :: nat))" by code_simp
  then show "buffer_ends_numbers block_evp" by (simp add: buffer_ends_numbers_def block_evp_def)
qed

definition padded :: "string \<Rightarrow> bytes" where
  "padded s = str_bytes s @ replicate 64 0"

theorem diana_interface_correct_witness:
  "\<exists>fs xs. foldE (diana_step (derive_bytes xor_bytes) padded block_evp) [Ins ''w'' 5, Ins ''w'' 6, Del ''w'' 5]
      (initializeClient False (DianaClient id id) (DianaClient id id), initializeServers True) = Inr fs \<and>
    searchKeyword (derive_bytes xor_bytes) padded block_evp ''w'' fs = Inr (fs, xs) \<and> mset xs = {#6#}"
proof -
  let ?ops = "[Ins ''w'' 5, Ins ''w'' 6, Del ''w'' 5]"
  have log: "inserted ?ops ''w'' = [5, 6]" "deleted ?ops ''w'' = [5]"
    "ins_log ?ops = [(''w1'', index_bytes 5), (''w1'', index_bytes 6)]"
    "del_log padded ?ops = [(''w1'', delete_key padded ''w1'' 5)]"
    by code_simp+
  have d: "distinct (inserted ?ops v)" for v by (auto simp: inserted_def List.map_filter_def)
  have k: "delete_key padded (first_key ''w'') 5 \<noteq> delete_key padded (first_key ''w'') 6" by code_simp
  have "{(w, x). Ins w x \<in> set ?ops} = {(''w'', 5), (''w'', 6)}" by auto
  with k have h: "hash_good padded ?ops" by (auto simp: hash_good_def padded_def kUpdateTokenSize_def)
  have rt: "length (id (get_keyword_index padded w)) = 16" for w
    by (simp add: get_keyword_index_def padded_def kKeywordIndexSize_def)
  have S: "{(kw, i). i < length (entries (ins_log ?ops) kw)} = {(''w1'', 0), (''w1'', 1)}"
    "{(kw, i). i < length (entries (del_log padded ?ops) kw)} = {(''w1'', 0)}"
    unfolding log by (auto simp: entries_def less_Suc_eq split: if_splits)
  have "id (get_keyword_index padded ''w1'') \<noteq> xor_bytes (id (get_keyword_index padded ''w1'')) (ctr_block 1)" by code_simp
  then have t: "tokens_distinct (derive_bytes xor_bytes) padded id (ins_log ?ops)"
    "tokens_distinct (derive_bytes xor_bytes) padded id (del_log padded ?ops)"
    unfolding tokens_distinct_def S using stored_token_xor[of id padded "''w1''", OF rt] by simp_all
  have d': "\<forall>v. distinct (inserted ?ops v)" using d by blast
  from diana_interface_correct[OF block_evp_good _ d' h t, of "''w''"] show ?thesis
    by (simp add: log delete_key_def padded_def kUpdateTokenSize_def)
qed

text \<open>
  C12. The client runner against the server's handlers behaves as the interface on one machine: insertions,
  deletions and searches, with and without re-insertion of the results, change the state and answer in the
  same way, errors included. Before \<open>setup\<close> the handlers dereference a null pointer.
\<close>

theorem remote_refines_local:
  assumes "\<not> if_setupMode f"
  shows "remote_insertKeyword prg hash E w x (remote (f, sv)) =
      bindE (insertKeyword prg hash E w x (f, sv)) (\<lambda>fs. Inr (remote fs)) \<and>
    remote_deleteKeyword prg hash w x (remote (f, sv)) = Inr (remote (deleteKeyword prg hash w x (f, sv))) \<and>
    remote_searchKeyword prg hash E w (remote (f, sv)) =
      bindE (searchKeyword prg hash E w (f, sv)) (\<lambda>(fs, r). Inr (remote fs, r)) \<and>
    remote_deleteKeyword prg hash w x (f, None) = Inl Undefined_behaviour"
proof -
  have "remote_insertKeyword prg hash E w x (f, Some sv) =
      bindE (insertKeyword prg hash E w x (f, sv)) (\<lambda>fs. Inr (remote fs))"
  proof (cases "insert_request prg hash E w x f")
    case (Inr r)
    obtain f1 m where r: "r = (f1, m)" by (rule prod.exhaust)
    then show ?thesis
      using Inr insert_request_setupMode[of prg hash E w x f f1 m] assms
      by (simp add: remote_insertKeyword_def insertKeyword_def remote_def insertKeyword_handler_def handler_Some)
  qed (simp add: remote_insertKeyword_def insertKeyword_def)
  then show ?thesis
    using remote_search_refines[OF assms]
    by (simp add: remote_def remote_deleteKeyword_def deleteKeyword_def deleteKeyword_handler_def handler_def
        split_def Let_def)
qed

theorem remote_refines_local_witness:
  "\<exists>fs. remote_searchKeyword (derive_bytes xor_bytes) (\<lambda>s. replicate 64 0)
      \<lparr>evp_encrypt = id, evp_decrypt = Some, stack_content = (\<lambda>c. [])\<rparr> ''w''
      (remote (initializeClient True (DianaClient id id) (DianaClient id id), initializeServers False)) = Inr (fs, [])"
proof -
  let ?E = "\<lparr>evp_encrypt = id, evp_decrypt = Some, stack_content = (\<lambda>c. [])\<rparr>"
  let ?f = "initializeClient True (DianaClient id id) (DianaClient id id)"
  have "searchKeyword (derive_bytes xor_bytes) (\<lambda>s. replicate 64 0) ?E ''w'' (?f, initializeServers False) =
      Inr ((processSearch ''w'' (fst (search_key ''w'' ?f)), initializeServers False), [])"
    by (simp add: searchKeyword_def search_key_def initializeClient_def search_request_def search_request_del_def
        DianaClient_def searchDelete_def searchInsert_def search_simple_parallel_def)
  then show ?thesis
    using remote_refines_local[of ?f "derive_bytes xor_bytes" "\<lambda>s. replicate 64 0" ?E "''w''" 0 "initializeServers False"]
    by (simp add: initializeClient_def)
qed

text \<open>
  Searching for keywords that have no entry yet, without re-insertion of results, gives every one of them
  the empty key, under which their later insertions and deletions share one tree and one counter.
\<close>

lemma search_unknown_shares_key:
  assumes "keywordsToken f v = None" "keywordsToken f w = None" "\<not> deleteResults f"
    and "ramCounter (clientDel f) [] = None" "ramCounter (clientIns f) [] = None"
  shows "\<exists>f'. bindE (searchKeyword prg hash E v (f, sv)) (\<lambda>(fs, _). searchKeyword prg hash E w fs) = Inr ((f', sv), []) \<and>
    current_key v f' = (f', []) \<and> current_key w f' = (f', [])"
proof -
  have "searchKeyword prg hash E u (g, sv) = Inr ((g\<lparr>keywordsToken := (keywordsToken g)(u \<mapsto> [])\<rparr>, sv), [])"
    if "keywordsToken g u = None \<or> keywordsToken g u = Some []" "\<not> deleteResults g"
      "ramCounter (clientDel g) [] = None" "ramCounter (clientIns g) [] = None" for g u
  proof -
    have "search_key u g = (g\<lparr>keywordsToken := (keywordsToken g)(u \<mapsto> [])\<rparr>, [])"
      using that(1) by (auto simp: search_key_def map_upd_triv)
    then show ?thesis
      using that(2-4) by (simp add: searchKeyword_def search_request_def search_request_del_def searchDelete_def
          searchInsert_def search_simple_parallel_def)
  qed
  then show ?thesis using assms by (cases "v = w") (simp_all add: current_key_def)
qed

end
