(* ===== verification/Store.thy ===== *)
theory Store
  imports Diana
begin

text \<open>
  The interface the schemes rely on of a server's token store, which is a RocksDB database or a \<open>std::map\<close>:
  a fresh token that is stored is found with its value, other tokens are not affected, and a removed token
  is not found. The database overwrites a present token and the map keeps the old value, so nothing is
  promised for it. The locale is interpreted on the store of Diana's server here and on that of Fides in
  its theory.
\<close>

locale token_store =
  fixes put :: "bytes \<Rightarrow> bytes \<Rightarrow> 's \<Rightarrow> 's"
    and get :: "'s \<Rightarrow> bytes \<Rightarrow> bytes option"
    and del :: "bytes \<Rightarrow> 's \<Rightarrow> 's"
  assumes get_put: "get s k = None \<Longrightarrow> get (put k v s) = (get s)(k \<mapsto> v)"
    and get_del: "get (del k s) = (get s)(k := None)"
begin

lemma get_puts:
  assumes "distinct (map fst kvs)" "\<forall>k \<in> fst ` set kvs. get s k = None"
  shows "get (fold (\<lambda>(k, v). put k v) kvs s) = get s ++ map_of kvs"
  using assms
proof (induction kvs arbitrary: s)
  case Nil
  then show ?case by simp
next
  case (Cons e kvs)
  obtain k v where e: "e = (k, v)" by force
  have g: "get (put k v s) = (get s)(k \<mapsto> v)" using Cons.prems by (intro get_put) (simp add: e)
  have p: "\<forall>k' \<in> fst ` set kvs. get (put k v s) k' = None" "distinct (map fst kvs)"
    using Cons.prems by (auto simp: g e)
  have "get (fold (\<lambda>(k, v). put k v) kvs (put k v s)) = (get s)(k \<mapsto> v) ++ map_of kvs"
    using Cons.IH[OF p(2,1)] by (simp only: g)
  moreover have "(get s)(k \<mapsto> v) ++ map_of kvs = get s ++ (map_of kvs)(k \<mapsto> v)"
    using Cons.prems(1) by (auto simp: e fun_eq_iff map_add_def map_of_eq_None_iff[THEN iffD2] split: option.splits)
  ultimately show ?case by (simp only: e fold_simps prod.case map_of.simps fst_conv snd_conv)
qed

lemma get_dels: "get (fold del ks s) = (\<lambda>k. if k \<in> set ks then None else get s k)"
  by (induction ks arbitrary: s) (auto simp: get_del fun_eq_iff)

text \<open>Reading a list of distinct tokens, removing each that is found, as a search with deletion does.\<close>

fun drain :: "bytes list \<Rightarrow> 's \<Rightarrow> 's \<times> bytes option list" where
  "drain [] s = (s, [])"
| "drain (k # ks) s =
     (let (s', rs) = drain ks (if get s k = None then s else del k s) in (s', get s k # rs))"

lemma drain_eq:
  assumes "distinct ks"
  shows "snd (drain ks s) = map (get s) ks \<and> get (fst (drain ks s)) = (\<lambda>k. if k \<in> set ks then None else get s k)"
  using assms
proof (induction ks arbitrary: s)
  case Nil
  then show ?case by simp
next
  case (Cons k ks)
  let ?s = "if get s k = None then s else del k s"
  have "get ?s = (get s)(k := None)" by (auto simp: get_del fun_eq_iff)
  then show ?case
    using Cons.IH[of ?s] Cons.prems by (auto simp: Let_def case_prod_beta fun_eq_iff)
qed

end

definition diana_put :: "bytes \<Rightarrow> bytes \<Rightarrow> diana_server \<Rightarrow> diana_server" where
  "diana_put k v = diana_update \<lparr>ur_token = k, ur_index = v\<rparr>"

definition diana_del :: "bytes \<Rightarrow> diana_server \<Rightarrow> diana_server" where
  "diana_del k s = (if usehdd s then s\<lparr>d_edb := (d_edb s)(k := None)\<rparr> else s\<lparr>curMap := (curMap s)(k := None)\<rparr>)"

interpretation diana_store: token_store diana_put lookup diana_del
proof unfold_locales
  fix s k v assume "lookup s k = None"
  then show "lookup (diana_put k v s) = (lookup s)(k \<mapsto> v)"
    using lookup_diana_update[of s "\<lparr>ur_token = k, ur_index = v\<rparr>"] by (simp add: diana_put_def)
next
  fix k s show "lookup (diana_del k s) = (lookup s)(k := None)"
    by (simp add: lookup_def diana_del_def)
qed

section \<open>Searches that delete their results\<close>

lemma unmask_keys_drain:
  "unmask_keys prg sz True ks s =
     (fst (diana_store.drain (map (\<lambda>k. fst (gen_update_token_mask prg k sz)) ks) s),
      List.map_filter (\<lambda>(k, r). map_option (\<lambda>v. xor_mask v (snd (gen_update_token_mask prg k sz))) r)
        (zip ks (snd (diana_store.drain (map (\<lambda>k. fst (gen_update_token_mask prg k sz)) ks) s))))"
proof (induction ks arbitrary: s)
  case Nil
  then show ?case by (simp add: List.map_filter_def)
next
  case (Cons k ks)
  have "get_unmask prg sz True k s =
      (if lookup s (fst (gen_update_token_mask prg k sz)) = None then s
       else diana_del (fst (gen_update_token_mask prg k sz)) s,
       map_option (\<lambda>v. xor_mask v (snd (gen_update_token_mask prg k sz))) (lookup s (fst (gen_update_token_mask prg k sz))))"
    by (auto simp: get_unmask_def retrieve_entry_def lookup_def diana_del_def Let_def case_prod_beta)
  then show ?case
    by (simp add: Cons.IH Let_def case_prod_beta List.map_filter_def split: option.splits)
qed

lemma unmask_keys_keep:
  "unmask_keys prg sz False ks s =
     (s, List.map_filter (\<lambda>k. map_option (\<lambda>v. xor_mask v (snd (gen_update_token_mask prg k sz)))
           (lookup s (fst (gen_update_token_mask prg k sz)))) ks)"
  by (induction ks) (auto simp: get_unmask_def retrieve_entry_def lookup_def case_prod_beta Let_def List.map_filter_def split: option.splits)

text \<open>A search that deletes its results returns what one that keeps them does, when the tokens are distinct.\<close>

lemma unmask_keys_delete:
  assumes "distinct (map (\<lambda>k. fst (gen_update_token_mask prg k sz)) ks)"
  shows "snd (unmask_keys prg sz True ks s) = snd (unmask_keys prg sz False ks s)"
proof -
  let ?t = "\<lambda>k. fst (gen_update_token_mask prg k sz)"
  have "List.map_filter (\<lambda>(k, r). map_option (\<lambda>v. xor_mask v (snd (gen_update_token_mask prg k sz))) r) (zip ks (map (lookup s \<circ> ?t) ks)) =
    List.map_filter (\<lambda>k. map_option (\<lambda>v. xor_mask v (snd (gen_update_token_mask prg k sz))) (lookup s (?t k))) ks"
    by (induction ks) (simp_all add: List.map_filter_def)
  then show ?thesis
    using diana_store.drain_eq[OF assms, of s] by (simp add: unmask_keys_drain unmask_keys_keep comp_def)
qed

context prg_stream
begin

lemma search_delete_after_updates:
  assumes inv: "diana_inv prg hash rp us (c, s)" and us: "length us < 2 ^ 32" "\<forall>u \<in> set us. length (snd u) = sz"
    and inj: "tokens_distinct prg hash rp us" and "0 < threads" and one: "length (entries us kw) \<le> 1"
  shows "\<exists>req s'. search_request prg hash c kw = Inr req \<and> add_count req = length (entries us kw) \<and>
    search_simple_parallel prg sz True req threads s = Inr (s', entries us kw)"
proof -
  let ?n = "length (entries us kw)" and ?lt = "leaf_token prg hash rp kw"
  obtain req where r: "search_request prg hash c kw = Inr req" "add_count req = ?n" "entries us kw \<noteq> [] \<longrightarrow> token_list req \<noteq> []"
    "length (all_leaves prg (token_list req)) = add_count req" "diana_search prg sz False req s = (s, entries us kw)"
    using search_after_updates[OF inv us, of kw] by blast
  have l: "all_leaves prg (token_list req) = map ?lt [0..<?n]" using search_request_leaves[OF inv us(1), of kw] r(1) by auto
  have "inj_on (\<lambda>i. stored_token prg hash rp (kw, i)) {..<?n}" using inj by (auto simp: tokens_distinct_def inj_on_def)
  then have "distinct (map (\<lambda>k. fst (gen_update_token_mask prg k sz)) (map ?lt [0..<?n]))"
    by (simp add: distinct_map comp_def stored_token_def gen_update_token_mask_def atLeast0LessThan)
  from unmask_keys_delete[OF this, of s] have "snd (diana_search prg sz True req s) = entries us kw"
    using r(5) by (simp add: diana_search_def search_tokens_leaves l)
  then obtain s' where "diana_search prg sz True req s = (s', entries us kw)" by (metis prod.collapse)
  then have "search_simple_parallel prg sz True req threads s = Inr (if entries us kw = [] then s else s', entries us kw)"
  proof (cases "entries us kw = []")
    case True
    then show ?thesis using r assms(5) by (simp add: search_simple_parallel_def)
  next
    case False
    then have "add_count req = 1" using r(2) one by (cases "entries us kw") auto
    then show ?thesis
      using False r assms(5) search_simple_parallel_eq[of req threads sz True s] \<open>diana_search prg sz True req s = (s', entries us kw)\<close>
      by simp
  qed
  then show ?thesis using r by blast
qed

end

end
