(* ===== verification/Fides.thy ===== *)
theory Fides
  imports Store UpdateLog Utilities
begin

text \<open>
  Fides: \<open>src/src/fides/sophos_client.cpp\<close>, \<open>src/src/fides/sophos_server.cpp\<close>,
  \<open>src/src/fides/sophos_common.cpp\<close>, \<open>src/src/fides/FidesClient.cpp\<close> and the two gRPC runners. The search token
  of a keyword's \<open>i\<close>-th update is the \<open>i\<close>-fold inverse of a trapdoor permutation on a seed; the server walks
  from the newest token to the oldest with the public direction. An entry is the encryption of
  \<open>index|1\<close> (insertion) or \<open>index|0\<close> (deletion). With cleaning, a search removes the entries it reads and the
  client inserts the results again.

  Parameters: \<open>hash\<close> for \<open>crypto::Hash::hash\<close>, \<open>prf\<close> for the keyed function \<open>crypto::Prf\<close>, the trapdoor
  permutation as a record, and the block encryption of theory Utilities. The searches with thread pools
  and callbacks are in theory FidesParallel.
\<close>

section \<open>Client\<close>

record tdp =
  generate_array :: "bytes \<Rightarrow> bytes"
  invert_mult :: "bytes \<Rightarrow> nat \<Rightarrow> bytes"
  tdp_eval :: "bytes \<Rightarrow> bytes"

record sophos_request =
  sr_token :: bytes
  derivation_key :: bytes
  sr_add_count :: nat

record sophos_client =
  s_ramCounter :: "string \<rightharpoonup> nat"
  derivation_prf :: "bytes \<Rightarrow> bytes"
  inverse_tdp :: tdp

definition SophosClient :: "(bytes \<Rightarrow> bytes) \<Rightarrow> tdp \<Rightarrow> sophos_client" where
  "SophosClient kp T = \<lparr>s_ramCounter = Map.empty, derivation_prf = kp, inverse_tdp = T\<rparr>"

definition sophos_keyword_index :: "(string \<Rightarrow> bytes) \<Rightarrow> string \<Rightarrow> bytes" where
  "sophos_keyword_index hash kw = take 16 (hash kw)"

text \<open>The two evaluations of the keyed function, on the search token followed by \<open>'0'\<close> and by \<open>'1'\<close>.\<close>

definition gen_update_token_masks :: "(bytes \<Rightarrow> bytes \<Rightarrow> bytes) \<Rightarrow> bytes \<Rightarrow> bytes \<Rightarrow> bytes \<times> bytes" where
  "gen_update_token_masks prf deriv_key search_token =
     (prf deriv_key (search_token @ str_bytes ''0''), prf deriv_key (search_token @ str_bytes ''1''))"

definition sophos_search_request :: "(string \<Rightarrow> bytes) \<Rightarrow> sophos_client \<Rightarrow> string \<Rightarrow> sophos_request" where
  "sophos_search_request hash c keyword =
     (let seed = sophos_keyword_index hash keyword
      in case s_ramCounter c keyword of
           None \<Rightarrow> \<lparr>sr_token = [], derivation_key = [], sr_add_count = 0\<rparr>
         | Some kw_counter \<Rightarrow>
             \<lparr>sr_token = invert_mult (inverse_tdp c) (generate_array (inverse_tdp c) seed) kw_counter,
              derivation_key = derivation_prf c seed,
              sr_add_count = (kw_counter + 1) mod 2 ^ 32\<rparr>)"

definition sophos_update_request ::
    "(string \<Rightarrow> bytes) \<Rightarrow> (bytes \<Rightarrow> bytes \<Rightarrow> bytes) \<Rightarrow> string \<Rightarrow> bytes \<Rightarrow> sophos_client \<Rightarrow>
     sophos_client \<times> UpdateRequest" where
  "sophos_update_request hash prf keyword index c =
     (let seed = sophos_keyword_index hash keyword;
          kw_counter = next_counter (s_ramCounter c) keyword;
          c' = c\<lparr>s_ramCounter := (s_ramCounter c)(keyword \<mapsto> kw_counter)\<rparr>;
          st0 = generate_array (inverse_tdp c) seed;
          st = (if kw_counter = 0 then st0 else invert_mult (inverse_tdp c) st0 kw_counter);
          deriv_key = derivation_prf c seed;
          (tok, msk) = gen_update_token_masks prf deriv_key st
      in (c', \<lparr>ur_token = tok, ur_index = xor_mask index msk\<rparr>))"

section \<open>Server\<close>

record sophos_server =
  s_usehdd :: bool
  s_edb :: "bytes \<rightharpoonup> bytes"
  curArray :: "bytes \<rightharpoonup> bytes"

definition SophosServer :: "bool \<Rightarrow> sophos_server" where
  "SophosServer hdd = \<lparr>s_usehdd = hdd, s_edb = Map.empty, curArray = Map.empty\<rparr>"

definition sophos_update :: "UpdateRequest \<Rightarrow> sophos_server \<Rightarrow> sophos_server" where
  "sophos_update req s =
     (if s_usehdd s then s\<lparr>s_edb := (s_edb s)(ur_token req \<mapsto> ur_index req)\<rparr>
      else case curArray s (ur_token req) of
             None \<Rightarrow> s\<lparr>curArray := (curArray s)(ur_token req \<mapsto> ur_index req)\<rparr>
           | Some _ \<Rightarrow> s)"

definition sophos_get :: "sophos_server \<Rightarrow> bytes \<Rightarrow> bytes option" where
  "sophos_get s = (if s_usehdd s then s_edb s else curArray s)"

definition sophos_remove :: "bytes \<Rightarrow> sophos_server \<Rightarrow> sophos_server" where
  "sophos_remove ut s =
     (if s_usehdd s then s\<lparr>s_edb := (s_edb s)(ut := None)\<rparr> else s\<lparr>curArray := (curArray s)(ut := None)\<rparr>)"

fun sophos_search_loop ::
    "(bytes \<Rightarrow> bytes \<Rightarrow> bytes) \<Rightarrow> (bytes \<Rightarrow> bytes) \<Rightarrow> bytes \<Rightarrow> bool \<Rightarrow> nat \<Rightarrow> bytes \<Rightarrow> sophos_server \<Rightarrow>
     sophos_server \<times> bytes list" where
  "sophos_search_loop prf ev key deleteItems 0 st s = (s, [])"
| "sophos_search_loop prf ev key deleteItems (Suc n) st s =
     (let (ut, msk) = gen_update_token_masks prf key st
      in case sophos_get s ut of
           None \<Rightarrow> sophos_search_loop prf ev key deleteItems n (ev st) s
         | Some r \<Rightarrow>
             (let s1 = (if deleteItems then sophos_remove ut s else s);
                  (s2, rs) = sophos_search_loop prf ev key deleteItems n (ev st) s1
              in (s2, xor_mask r msk # rs)))"

definition sophos_search ::
    "(bytes \<Rightarrow> bytes \<Rightarrow> bytes) \<Rightarrow> (bytes \<Rightarrow> bytes) \<Rightarrow> sophos_request \<Rightarrow> bool \<Rightarrow> sophos_server \<Rightarrow>
     sophos_server \<times> bytes list" where
  "sophos_search prf ev req deleteItems s =
     sophos_search_loop prf ev (derivation_key req) deleteItems (sr_add_count req) (sr_token req) s"

section \<open>The Fides client\<close>

record fides_client =
  deleteItems :: bool
  insertClient :: sophos_client

text \<open>\<open>tokens[1]\<close> of a text without a separator is read past the vector; \<open>stoi\<close> results widen to 64 bits.\<close>

definition add_entry :: "evp \<Rightarrow> bytes \<Rightarrow> (nat, int) smap \<Rightarrow> (nat, int) smap res" where
  "add_entry E i remove =
     bindE (decode E i) (\<lambda>plainValue.
       (let tokens = split_on CHR ''|'' plainValue
        in bindE (stoi (tokens ! 0)) (\<lambda>v.
             if length tokens < 2 then Inl Undefined_behaviour
             else bindE (stoi (tokens ! 1)) (\<lambda>op.
               let k = nat (v mod 2 ^ 64);
                   old = (case sm_get remove k of None \<Rightarrow> 0 | Some n \<Rightarrow> n)
               in Inr (sm_put k (old + (2 * op - 1)) remove)))))"

definition positive :: "(nat, int) smap \<Rightarrow> nat list" where
  "positive remove = map fst (filter (\<lambda>cur. snd cur > 0) remove)"

definition fides_searchProcess :: "evp \<Rightarrow> bytes list \<Rightarrow> nat list res" where
  "fides_searchProcess E res_ins = bindE (foldE (add_entry E) res_ins []) (\<lambda>remove. Inr (positive remove))"

definition fides_update_req ::
    "(string \<Rightarrow> bytes) \<Rightarrow> (bytes \<Rightarrow> bytes \<Rightarrow> bytes) \<Rightarrow> evp \<Rightarrow> string \<Rightarrow> nat \<Rightarrow> string \<Rightarrow> fides_client \<Rightarrow>
     (fides_client \<times> UpdateRequest) res" where
  "fides_update_req hash prf E key ind suffix f =
     bindE (encode E (to_string (int ind) @ suffix)) (\<lambda>b.
       let (c', req) = sophos_update_request hash prf key b (insertClient f)
       in Inr (f\<lparr>insertClient := c'\<rparr>, req))"

definition fides_insert_req where
  "fides_insert_req hash prf E key ind f = fides_update_req hash prf E key ind ''|1'' f"

definition fides_delete_req where
  "fides_delete_req hash prf E key ind f = fides_update_req hash prf E key ind ''|0'' f"

definition fides_insertKeyword ::
    "(string \<Rightarrow> bytes) \<Rightarrow> (bytes \<Rightarrow> bytes \<Rightarrow> bytes) \<Rightarrow> evp \<Rightarrow> string \<Rightarrow> nat \<Rightarrow> fides_client \<times> sophos_server \<Rightarrow>
     (fides_client \<times> sophos_server) res" where
  "fides_insertKeyword hash prf E key ind fs =
     bindE (fides_insert_req hash prf E key ind (fst fs)) (\<lambda>(f', req). Inr (f', sophos_update req (snd fs)))"

definition fides_deleteKeyword ::
    "(string \<Rightarrow> bytes) \<Rightarrow> (bytes \<Rightarrow> bytes \<Rightarrow> bytes) \<Rightarrow> evp \<Rightarrow> string \<Rightarrow> nat \<Rightarrow> fides_client \<times> sophos_server \<Rightarrow>
     (fides_client \<times> sophos_server) res" where
  "fides_deleteKeyword hash prf E key ind fs =
     bindE (fides_delete_req hash prf E key ind (fst fs)) (\<lambda>(f', req). Inr (f', sophos_update req (snd fs)))"

definition fides_searchKeyword ::
    "(string \<Rightarrow> bytes) \<Rightarrow> (bytes \<Rightarrow> bytes \<Rightarrow> bytes) \<Rightarrow> evp \<Rightarrow> string \<Rightarrow> fides_client \<times> sophos_server \<Rightarrow>
     ((fides_client \<times> sophos_server) \<times> nat list) res" where
  "fides_searchKeyword hash prf E key fs =
     (let f = fst fs;
          s_req = sophos_search_request hash (insertClient f) key;
          (s1, res_ins) = sophos_search prf (tdp_eval (inverse_tdp (insertClient f))) s_req (deleteItems f) (snd fs)
      in bindE (fides_searchProcess E res_ins) (\<lambda>final_res.
           if deleteItems f then
             bindE (foldE (\<lambda>ind. fides_insertKeyword hash prf E key ind) final_res (f, s1)) (\<lambda>fs'. Inr (fs', final_res))
           else Inr ((f, s1), final_res)))"

section \<open>Client and server\<close>

text \<open>The server has its own copy of the cleaning flag, set by \<open>setup\<close>; its pointer is not tested.\<close>

record fides_server_runner =
  insertServer :: "sophos_server option"
  sv_deleteItem :: bool

definition fides_setup :: "bool \<Rightarrow> bool \<Rightarrow> fides_server_runner" where
  "fides_setup hdd cleaning = \<lparr>insertServer = Some (SophosServer hdd), sv_deleteItem = cleaning\<rparr>"

definition fides_batchUpdate :: "UpdateRequest list \<Rightarrow> fides_server_runner \<Rightarrow> fides_server_runner res" where
  "fides_batchUpdate reqs r =
     (case insertServer r of
        None \<Rightarrow> if reqs = [] then Inr r else Inl Undefined_behaviour
      | Some s \<Rightarrow> Inr (r\<lparr>insertServer := Some (fold sophos_update reqs s)\<rparr>))"

definition fides_update :: "UpdateRequest \<Rightarrow> fides_server_runner \<Rightarrow> fides_server_runner res" where
  "fides_update req r =
     (case insertServer r of
        None \<Rightarrow> Inl Undefined_behaviour
      | Some s \<Rightarrow> Inr (r\<lparr>insertServer := Some (sophos_update req s)\<rparr>))"

definition fides_search ::
    "(bytes \<Rightarrow> bytes \<Rightarrow> bytes) \<Rightarrow> (bytes \<Rightarrow> bytes) \<Rightarrow> sophos_request \<Rightarrow> fides_server_runner \<Rightarrow>
     (fides_server_runner \<times> bytes list) res" where
  "fides_search prf ev req r =
     (case insertServer r of
        None \<Rightarrow> Inl Undefined_behaviour
      | Some s \<Rightarrow> (let (s', rs) = sophos_search prf ev req (sv_deleteItem r) s
                  in Inr (r\<lparr>insertServer := Some s'\<rparr>, rs)))"

record fides_client_runner =
  fc_client :: fides_client
  fc_deleteItem :: bool
  fc_setupMode :: bool

definition net_insertKeyword where
  "net_insertKeyword hash prf E keyword index nr =
     bindE (fides_insert_req hash prf E keyword index (fc_client (fst nr))) (\<lambda>(f', req).
       if fc_setupMode (fst nr) then Inr ((fst nr)\<lparr>fc_client := f'\<rparr>, snd nr)
       else bindE (fides_update req (snd nr)) (\<lambda>r'. Inr ((fst nr)\<lparr>fc_client := f'\<rparr>, r')))"

definition net_deleteKeyword where
  "net_deleteKeyword hash prf E keyword index nr =
     bindE (fides_delete_req hash prf E keyword index (fc_client (fst nr))) (\<lambda>(f', req).
       bindE (fides_update req (snd nr)) (\<lambda>r'. Inr ((fst nr)\<lparr>fc_client := f'\<rparr>, r')))"

fun fides_batch where
  "fides_batch hash prf E keyword [] f = Inr (f, [])"
| "fides_batch hash prf E keyword (item # items) f =
     bindE (fides_insert_req hash prf E keyword item f) (\<lambda>(f1, req).
     bindE (fides_batch hash prf E keyword items f1) (\<lambda>(f2, reqs). Inr (f2, req # reqs)))"

definition net_searchKeyword where
  "net_searchKeyword hash prf E keyword nr =
     (let n = fst nr; f = fc_client n;
          req = sophos_search_request hash (insertClient f) keyword
      in bindE (fides_search prf (tdp_eval (inverse_tdp (insertClient f))) req (snd nr)) (\<lambda>(r1, ciphers).
         bindE (fides_searchProcess E ciphers) (\<lambda>res.
           if fc_deleteItem n then
             bindE (fides_batch hash prf E keyword res f) (\<lambda>(f', reqs).
             bindE (fides_batchUpdate reqs r1) (\<lambda>r2. Inr ((n\<lparr>fc_client := f'\<rparr>, r2), res)))
           else Inr ((n, r1), res))))"


section \<open>The server's store\<close>

definition sophos_put :: "bytes \<Rightarrow> bytes \<Rightarrow> sophos_server \<Rightarrow> sophos_server" where
  "sophos_put k v = sophos_update \<lparr>ur_token = k, ur_index = v\<rparr>"

interpretation sophos_store: token_store sophos_put sophos_get sophos_remove
proof unfold_locales
  fix s k v assume "sophos_get s k = None"
  then show "sophos_get (sophos_put k v s) = (sophos_get s)(k \<mapsto> v)"
    by (auto simp: sophos_get_def sophos_put_def sophos_update_def)
next
  fix k s show "sophos_get (sophos_remove k s) = (sophos_get s)(k := None)"
    by (simp add: sophos_get_def sophos_remove_def)
qed

lemma sophos_update_put: "sophos_update req = sophos_put (ur_token req) (ur_index req)"
  by (simp add: sophos_put_def sophos_update_def fun_eq_iff split: option.split)

section \<open>Tokens of a keyword\<close>

text \<open>What the code relies on of the trapdoor permutation: evaluating undoes one inversion.\<close>

definition tdp_good :: "tdp \<Rightarrow> bool" where
  "tdp_good T \<longleftrightarrow>
     (\<forall>st. invert_mult T st 0 = st) \<and> (\<forall>st i. tdp_eval T (invert_mult T st (Suc i)) = invert_mult T st i)"

definition search_token :: "(string \<Rightarrow> bytes) \<Rightarrow> tdp \<Rightarrow> string \<Rightarrow> nat \<Rightarrow> bytes" where
  "search_token hash T kw i = invert_mult T (generate_array T (sophos_keyword_index hash kw)) i"

definition fides_masks ::
    "(string \<Rightarrow> bytes) \<Rightarrow> (bytes \<Rightarrow> bytes \<Rightarrow> bytes) \<Rightarrow> (bytes \<Rightarrow> bytes) \<Rightarrow> tdp \<Rightarrow> string \<times> nat \<Rightarrow> bytes \<times> bytes" where
  "fides_masks hash prf kp T ki =
     gen_update_token_masks prf (kp (sophos_keyword_index hash (fst ki))) (search_token hash T (fst ki) (snd ki))"

definition fides_token where
  "fides_token hash prf kp T ki = fst (fides_masks hash prf kp T ki)"

definition fides_mask where
  "fides_mask hash prf kp T ki = snd (fides_masks hash prf kp T ki)"

lemma search_loop_keep:
  assumes "tdp_good T"
  shows "sophos_search_loop prf (tdp_eval T) (kp (sophos_keyword_index hash kw)) False n (search_token hash T kw (n - 1)) s =
    (s, List.map_filter (\<lambda>i. map_option (\<lambda>r. xor_mask r (fides_mask hash prf kp T (kw, i)))
          (sophos_get s (fides_token hash prf kp T (kw, i)))) (rev [0..<n]))"
proof (induction n)
  case 0
  then show ?case by (simp add: List.map_filter_def)
next
  case (Suc n)
  have "sophos_search_loop prf (tdp_eval T) (kp (sophos_keyword_index hash kw)) False n
      (tdp_eval T (search_token hash T kw n)) s =
    sophos_search_loop prf (tdp_eval T) (kp (sophos_keyword_index hash kw)) False n (search_token hash T kw (n - 1)) s"
    using assms by (cases n) (simp_all add: search_token_def tdp_good_def)
  then show ?case
    using Suc by (simp add: fides_token_def fides_mask_def fides_masks_def case_prod_beta List.map_filter_def
        split: option.splits)
qed

lemma search_loop_drain:
  assumes "tdp_good T"
  shows "sophos_search_loop prf (tdp_eval T) (kp (sophos_keyword_index hash kw)) True n (search_token hash T kw (n - 1)) s =
    (let (s', rs) = sophos_store.drain (map (\<lambda>i. fides_token hash prf kp T (kw, i)) (rev [0..<n])) s
     in (s', List.map_filter (\<lambda>(i, r). map_option (\<lambda>r. xor_mask r (fides_mask hash prf kp T (kw, i))) r)
               (zip (rev [0..<n]) rs)))"
proof (induction n arbitrary: s)
  case 0
  then show ?case by (simp add: List.map_filter_def)
next
  case (Suc n)
  have "sophos_search_loop prf (tdp_eval T) (kp (sophos_keyword_index hash kw)) True n
      (tdp_eval T (search_token hash T kw n)) s' =
    sophos_search_loop prf (tdp_eval T) (kp (sophos_keyword_index hash kw)) True n (search_token hash T kw (n - 1)) s'" for s'
    using assms by (cases n) (simp_all add: search_token_def tdp_good_def)
  then show ?case
    using Suc by (simp add: fides_token_def fides_mask_def fides_masks_def case_prod_beta List.map_filter_def Let_def
        split: option.splits)
qed

section \<open>Entries\<close>

fun op_suffix :: "OP \<Rightarrow> string" where
  "op_suffix INS = ''|1''"
| "op_suffix DEL = ''|0''"

fun fides_delta :: "OP \<Rightarrow> int" where
  "fides_delta INS = 1"
| "fides_delta DEL = - 1"

definition entry_text :: "OP \<times> nat \<Rightarrow> string" where
  "entry_text e = to_string (int (snd e)) @ op_suffix (fst e)"

definition entry_block :: "evp \<Rightarrow> OP \<times> nat \<Rightarrow> bytes" where
  "entry_block E e = (case encode E (entry_text e) of Inr b \<Rightarrow> b | Inl _ \<Rightarrow> [])"

text \<open>
  Entries of indexes below \<open>10\<^sup>9\<close> come back from a block, possibly followed by something that does not begin
  with a digit.
\<close>

definition entries_good :: "evp \<Rightarrow> bool" where
  "entries_good E \<longleftrightarrow>
     (\<forall>op x. x < 10 ^ 9 \<longrightarrow> (\<exists>b. encode E (entry_text (op, x)) = Inr b \<and> length b = 16 \<and>
        (\<exists>r. decode E b = Inr (entry_text (op, x) @ r) \<and> (r = [] \<or> \<not> is_digit (hd r)))))"

lemma entry_good:
  assumes "entries_good E" "snd e < 10 ^ 9"
  shows "encode E (entry_text e) = Inr (entry_block E e)" "length (entry_block E e) = 16"
    "\<exists>r. decode E (entry_block E e) = Inr (entry_text e @ r) \<and> (r = [] \<or> \<not> is_digit (hd r))"
proof -
  from assms obtain b where "encode E (entry_text e) = Inr b" "length b = 16"
      "\<exists>r. decode E b = Inr (entry_text e @ r) \<and> (r = [] \<or> \<not> is_digit (hd r))"
    unfolding entries_good_def by (metis prod.collapse)
  then show "encode E (entry_text e) = Inr (entry_block E e)" "length (entry_block E e) = 16"
    "\<exists>r. decode E (entry_block E e) = Inr (entry_text e @ r) \<and> (r = [] \<or> \<not> is_digit (hd r))"
    by (simp_all add: entry_block_def)
qed

lemma split_on_digit:
  assumes "r = [] \<or> \<not> is_digit (hd r)" "c \<noteq> sep"
  obtains t ts where "split_on sep (c # r) = (c # t) # ts" "t = [] \<or> \<not> is_digit (hd t)"
proof (cases r)
  case Nil
  with assms(2) that[of "[]"] show ?thesis by simp
next
  case (Cons d r')
  obtain t ts where "split_on sep (d # r') = t # ts" by (metis list.exhaust split_on_not_Nil)
  moreover from this have "t = [] \<or> hd t = d" by (auto split: if_splits list.splits)
  ultimately show ?thesis using assms Cons that[of t ts] by auto
qed

lemma add_entry_tally:
  assumes "entries_good E" "snd e < 10 ^ 9"
  shows "add_entry E (entry_block E e) rm = Inr (tally_add fides_delta e rm)"
proof -
  obtain op x where e: "e = (op, x)" by force
  obtain r where r: "decode E (entry_block E e) = Inr (entry_text e @ r)" "r = [] \<or> \<not> is_digit (hd r)"
    using entry_good(3)[OF assms] by blast
  have "CHR ''|'' \<notin> set (to_string (int x))"
    using set_to_string[of "CHR ''|''" "int x"] by (auto simp: is_digit_def)
  note sp = split_on_append_sep[OF this]
  have x: "in_int32 (int x)" "int x mod 2 ^ 64 = int x" using assms(2) by (simp_all add: e in_int32_def)
  have st: "stoi (CHR ''1'' # t) = Inr 1" "stoi (CHR ''0'' # t) = Inr 0" if "t = [] \<or> \<not> is_digit (hd t)" for t
  proof -
    have "to_string 1 = ''1''" "to_string 0 = ''0''" by code_simp+
    then show "stoi (CHR ''1'' # t) = Inr 1" "stoi (CHR ''0'' # t) = Inr 0"
      using stoi_to_string_append[OF _ that, of 1] stoi_to_string_append[OF _ that, of 0] by (simp_all add: in_int32_def)
  qed
  show ?thesis
  proof (cases op)
    case INS
    obtain t ts where t: "split_on CHR ''|'' (CHR ''1'' # r) = (CHR ''1'' # t) # ts" "t = [] \<or> \<not> is_digit (hd t)"
      using split_on_digit[OF r(2), of "CHR ''1''" "CHR ''|''"] by auto
    show ?thesis using r(1) x st(1)[OF t(2)] by (simp add: add_entry_def e INS entry_text_def sp t(1) tally_add_def del: split_on.simps)
  next
    case DEL
    obtain t ts where t: "split_on CHR ''|'' (CHR ''0'' # r) = (CHR ''0'' # t) # ts" "t = [] \<or> \<not> is_digit (hd t)"
      using split_on_digit[OF r(2), of "CHR ''0''" "CHR ''|''"] by auto
    show ?thesis using r(1) x st(2)[OF t(2)] by (simp add: add_entry_def e DEL entry_text_def sp t(1) tally_add_def del: split_on.simps)
  qed
qed

lemma add_entries_tally:
  "entries_good E \<Longrightarrow> \<forall>e \<in> set es. snd e < 10 ^ 9 \<Longrightarrow>
   foldE (add_entry E) (map (entry_block E) es) rm = Inr (fold (tally_add fides_delta) es rm)"
  by (induction es arbitrary: rm) (simp_all add: add_entry_tally)

lemma occurrences_rev: "occurrences op x (rev log) = occurrences op x log"
  by (simp add: occurrences_def rev_filter[symmetric])

lemma matching_rev: "matching (rev log) = matching log"
  by (simp add: matching_def occurrences_rev)

lemma searchProcess_matching:
  assumes "entries_good E" "\<forall>e \<in> set log. snd e < 10 ^ 9"
  shows "fides_searchProcess E (map (entry_block E) (rev log)) = Inr (matching log)"
proof -
  have "positive (fold (tally_add fides_delta) (rev log) []) = matching (rev log)"
    unfolding positive_def by (rule matching_tally) auto
  then show ?thesis
    using assms by (simp add: fides_searchProcess_def add_entries_tally matching_rev)
qed


section \<open>The invariant of a run\<close>

text \<open>
  The history of a keyword: one place per update, \<open>None\<close> once a cleaning search has removed the entry.
\<close>

definition live :: "'a option list \<Rightarrow> 'a list" where
  "live h = List.map_filter (\<lambda>x. x) h"

lemma live_append [simp]: "live (h @ h') = live h @ live h'"
  by (simp add: live_def List.map_filter_def)

lemma live_simps [simp]: "live [] = []" "live (Some e # h) = e # live h" "live (None # h) = live h"
  by (simp_all add: live_def List.map_filter_def)

lemma live_replicate [simp]: "live (replicate n None) = []"
  by (induction n) simp_all

lemma live_rev: "live (rev h) = rev (live h)"
  by (simp add: live_def List.map_filter_def rev_map rev_filter)

lemma length_live: "length (live h) \<le> length h"
  by (simp add: live_def List.map_filter_def)

lemma map_filter_nth: "List.map_filter (\<lambda>i. h ! i) (rev [0..<length h]) = rev (live h)"
proof -
  have "List.map_filter (\<lambda>i. h ! i) (rev [0..<length h]) = live (rev (map (\<lambda>i. h ! i) [0..<length h]))"
    by (simp add: live_def List.map_filter_def rev_map[symmetric] filter_map comp_def rev_filter[symmetric])
  then show ?thesis by (simp only: map_nth live_rev)
qed

definition fides_inv where
  "fides_inv hash prf E kp T K N H fs \<longleftrightarrow>
     derivation_prf (insertClient (fst fs)) = kp \<and> inverse_tdp (insertClient (fst fs)) = T \<and>
     (\<forall>kw. s_ramCounter (insertClient (fst fs)) kw = (if H kw = [] then None else Some (length (H kw) - 1))) \<and>
     (\<forall>kw. H kw \<noteq> [] \<longrightarrow> kw \<in> K) \<and> (\<forall>kw. length (H kw) \<le> N) \<and>
     (\<forall>kw. \<forall>e \<in> set (live (H kw)). snd e < 10 ^ 9) \<and>
     (\<forall>kw i. i < length (H kw) \<longrightarrow>
        sophos_get (snd fs) (fides_token hash prf kp T (kw, i)) =
          map_option (\<lambda>e. xor_mask (entry_block E e) (fides_mask hash prf kp T (kw, i))) (H kw ! i)) \<and>
     dom (sophos_get (snd fs)) \<subseteq> fides_token hash prf kp T ` {(kw, i). i < length (H kw)}"

definition fides_prf_good where
  "fides_prf_good hash prf kp T K N \<longleftrightarrow>
     N < 2 ^ 32 \<and> inj_on (fides_token hash prf kp T) (K \<times> {..<N}) \<and> (\<forall>ki. length (fides_mask hash prf kp T ki) = 16)"

lemma fides_inv_range:
  assumes "fides_inv hash prf E kp T K N H fs" "i < length (H v)"
  shows "(v, i) \<in> K \<times> {..<N}"
proof -
  have "\<forall>kw. H kw \<noteq> [] \<longrightarrow> kw \<in> K" "length (H v) \<le> N" using assms(1) by (simp_all add: fides_inv_def)
  moreover have "H v \<noteq> []" using assms(2) by auto
  ultimately show ?thesis using assms(2) by simp
qed

lemma fides_inv_init:
  "fides_inv hash prf E kp T K N (\<lambda>_. []) (\<lparr>deleteItems = del, insertClient = SophosClient kp T\<rparr>, SophosServer hdd)"
  by (simp add: fides_inv_def SophosClient_def SophosServer_def sophos_get_def)

lemma fides_inv_update:
  assumes inv: "fides_inv hash prf E kp T K N H (f, s)" and pg: "fides_prf_good hash prf kp T K N"
    and E: "entries_good E" and T: "tdp_good T" and e: "snd e < 10 ^ 9" and kw: "kw \<in> K" and n: "length (H kw) < N"
  shows "\<exists>f' req. fides_update_req hash prf E kw (snd e) (op_suffix (fst e)) f = Inr (f', req) \<and>
    deleteItems f' = deleteItems f \<and>
    fides_inv hash prf E kp T K N (H(kw := H kw @ [Some e])) (f', sophos_update req s)"
proof -
  let ?n = "length (H kw)" and ?H = "H(kw := H kw @ [Some e])"
  let ?c = "insertClient f" and ?tok = "fides_token hash prf kp T" and ?msk = "fides_mask hash prf kp T"
  have c: "derivation_prf ?c = kp" "inverse_tdp ?c = T"
    "s_ramCounter ?c kw = (if H kw = [] then None else Some (?n - 1))"
    using inv by (simp_all add: fides_inv_def)
  have N: "N < 2 ^ 32" using pg by (simp add: fides_prf_good_def)
  have cnt: "next_counter (s_ramCounter ?c) kw = ?n" using c(3) n N by (auto simp: next_counter_def)
  have st: "search_token hash T kw 0 = generate_array T (sophos_keyword_index hash kw)"
    using T by (simp add: search_token_def tdp_good_def)
  let ?c' = "?c\<lparr>s_ramCounter := (s_ramCounter ?c)(kw \<mapsto> ?n)\<rparr>"
  let ?r = "\<lparr>ur_token = ?tok (kw, ?n), ur_index = xor_mask (entry_block E e) (?msk (kw, ?n))\<rparr>"
  have u: "fides_update_req hash prf E kw (snd e) (op_suffix (fst e)) f = Inr (f\<lparr>insertClient := ?c'\<rparr>, ?r)"
    using entry_good(1)[OF E e]
    by (cases "H kw = []")
      (simp_all add: fides_update_req_def entry_text_def sophos_update_request_def cnt c st Let_def case_prod_beta
        fides_token_def fides_mask_def fides_masks_def, simp_all add: search_token_def)
  have fresh: "?tok (v, i) \<noteq> ?tok (kw, ?n)" if "i < length (H v)" for v i
  proof
    assume "?tok (v, i) = ?tok (kw, ?n)"
    moreover have "(v, i) \<in> K \<times> {..<N}" by (rule fides_inv_range[OF inv that])
    moreover have "(kw, ?n) \<in> K \<times> {..<N}" using kw n by simp
    ultimately have "(v, i) = (kw, ?n)" using pg by (auto simp: fides_prf_good_def dest: inj_onD)
    with that show False by simp
  qed
  have none: "sophos_get s (?tok (kw, ?n)) = None"
  proof (rule ccontr)
    assume "sophos_get s (?tok (kw, ?n)) \<noteq> None"
    then have "?tok (kw, ?n) \<in> ?tok ` {(v, i). i < length (H v)}" using inv by (auto simp: fides_inv_def)
    with fresh show False by fastforce
  qed
  have g: "sophos_get (sophos_update ?r s) = (sophos_get s)(?tok (kw, ?n) \<mapsto> xor_mask (entry_block E e) (?msk (kw, ?n)))"
    using sophos_store.get_put[OF none] by (simp add: sophos_update_put)
  have "sophos_get (sophos_update ?r s) (?tok (v, i)) =
      map_option (\<lambda>e. xor_mask (entry_block E e) (?msk (v, i))) (?H v ! i)" if "i < length (?H v)" for v i
  proof (cases "i < length (H v)")
    case True
    then show ?thesis using fresh[OF True] inv by (auto simp: g fides_inv_def nth_append)
  next
    case False
    with that have "v = kw" "i = ?n" by (auto split: if_splits)
    then show ?thesis by (simp add: g)
  qed
  moreover have "dom (sophos_get (sophos_update ?r s)) \<subseteq> ?tok ` {(v, i). i < length (?H v)}"
  proof -
    have "?tok (kw, ?n) \<in> ?tok ` {(v, i). i < length (?H v)}" by (rule imageI) simp
    moreover have "dom (sophos_get s) \<subseteq> ?tok ` {(v, i). i < length (?H v)}"
      using inv by (fastforce simp: fides_inv_def)
    ultimately show ?thesis by (simp only: g dom_fun_upd) auto
  qed
  ultimately have "fides_inv hash prf E kp T K N ?H (f\<lparr>insertClient := ?c'\<rparr>, sophos_update ?r s)"
    using inv n kw e by (auto simp: fides_inv_def)
  with u show ?thesis by auto
qed

lemma fides_inv_inserts:
  assumes "fides_inv hash prf E kp T K N H (f, s)" "fides_prf_good hash prf kp T K N" "entries_good E" "tdp_good T"
    and "\<forall>x \<in> set xs. x < 10 ^ 9" "kw \<in> K" "length (H kw) + length xs \<le> N"
  shows "\<exists>f' s'. foldE (\<lambda>ind. fides_insertKeyword hash prf E kw ind) xs (f, s) = Inr (f', s') \<and>
    deleteItems f' = deleteItems f \<and>
    fides_inv hash prf E kp T K N (H(kw := H kw @ map (\<lambda>x. Some (INS, x)) xs)) (f', s')"
  using assms(1,5,7)
proof (induction xs arbitrary: H f s)
  case Nil
  then show ?case by simp
next
  case (Cons x xs)
  from fides_inv_update[OF Cons.prems(1) assms(2-4), of "(INS, x)" kw] Cons.prems(2,3) assms(6) obtain f' req where
    r: "fides_insert_req hash prf E kw x f = Inr (f', req)" "deleteItems f' = deleteItems f"
      "fides_inv hash prf E kp T K N (H(kw := H kw @ [Some (INS, x)])) (f', sophos_update req s)"
    by (auto simp: fides_insert_req_def)
  let ?H = "H(kw := H kw @ [Some (INS, x)])"
  have "\<exists>f'' s'. foldE (\<lambda>ind. fides_insertKeyword hash prf E kw ind) xs (f', sophos_update req s) = Inr (f'', s') \<and>
      deleteItems f'' = deleteItems f' \<and>
      fides_inv hash prf E kp T K N (?H(kw := ?H kw @ map (\<lambda>x. Some (INS, x)) xs)) (f'', s')"
    using Cons.prems by (intro Cons.IH[OF r(3)]) auto
  moreover have "?H(kw := ?H kw @ map (\<lambda>x. Some (INS, x)) xs) = H(kw := H kw @ map (\<lambda>x. Some (INS, x)) (x # xs))"
    by simp
  moreover have "foldE (\<lambda>ind. fides_insertKeyword hash prf E kw ind) (x # xs) (f, s) =
      foldE (\<lambda>ind. fides_insertKeyword hash prf E kw ind) xs (f', sophos_update req s)"
    using r(1) by (simp add: fides_insertKeyword_def)
  ultimately show ?case using r(2) by metis
qed


section \<open>Searches\<close>

lemma unmask_entry:
  assumes "fides_prf_good hash prf kp T K N" "entries_good E" "snd e < 10 ^ 9"
  shows "xor_mask (xor_mask (entry_block E e) (fides_mask hash prf kp T ki)) (fides_mask hash prf kp T ki) = entry_block E e"
proof -
  have "length (fides_mask hash prf kp T ki) = 16" using assms(1) unfolding fides_prf_good_def by blast
  then show ?thesis using entry_good(2)[OF assms(2,3)] by (simp add: xor_mask_def xor_simps)
qed

text \<open>Unmasking what the store holds for a keyword gives the blocks of its live entries, the newest first.\<close>

lemma unmask_history:
  assumes inv: "fides_inv hash prf E kp T K N H (f, s)" and pg: "fides_prf_good hash prf kp T K N" and E: "entries_good E"
  shows "List.map_filter (\<lambda>i. map_option (\<lambda>r. xor_mask r (fides_mask hash prf kp T (kw, i)))
      (sophos_get s (fides_token hash prf kp T (kw, i)))) (rev [0..<length (H kw)]) =
    map (entry_block E) (rev (live (H kw)))"
proof -
  let ?h = "H kw"
  have "map_option (\<lambda>r. xor_mask r (fides_mask hash prf kp T (kw, i))) (sophos_get s (fides_token hash prf kp T (kw, i))) =
      map_option (entry_block E) (?h ! i)" if "i < length ?h" for i
  proof (cases "?h ! i")
    case None
    then show ?thesis using inv that by (simp add: fides_inv_def)
  next
    case (Some e)
    then have "Some e \<in> set ?h" using that by (metis nth_mem)
    then have "e \<in> set (live ?h)" by (auto simp: live_def List.map_filter_def intro!: rev_image_eqI[of "Some e"])
    then have "snd e < 10 ^ 9" using inv by (simp add: fides_inv_def)
    with Some that inv show ?thesis by (simp add: fides_inv_def unmask_entry[OF pg E])
  qed
  then have "List.map_filter (\<lambda>i. map_option (\<lambda>r. xor_mask r (fides_mask hash prf kp T (kw, i)))
      (sophos_get s (fides_token hash prf kp T (kw, i)))) (rev [0..<length ?h]) =
    List.map_filter (\<lambda>i. map_option (entry_block E) (?h ! i)) (rev [0..<length ?h])"
    by (intro map_filter_cong) simp
  also have "\<dots> = map (entry_block E) (List.map_filter (\<lambda>i. ?h ! i) (rev [0..<length ?h]))"
    by (auto simp: List.map_filter_def comp_def option.map_sel intro!: map_cong)
  finally show ?thesis by (simp only: map_filter_nth)
qed

lemma fides_request:
  assumes "fides_inv hash prf E kp T K N H (f, s)" "fides_prf_good hash prf kp T K N"
  shows "sophos_search prf (tdp_eval T) (sophos_search_request hash (insertClient f) kw) d s =
    sophos_search_loop prf (tdp_eval T) (kp (sophos_keyword_index hash kw)) d (length (H kw))
      (search_token hash T kw (length (H kw) - 1)) s"
proof (cases "H kw = []")
  case True
  then show ?thesis using assms by (simp add: fides_inv_def sophos_search_def sophos_search_request_def)
next
  case False
  have "length (H kw) \<le> N" "N < 2 ^ 32" using assms by (simp_all add: fides_inv_def fides_prf_good_def)
  then have "length (H kw) mod 2 ^ 32 = length (H kw)" by simp
  with False assms(1) show ?thesis
    by (simp add: fides_inv_def sophos_search_def sophos_search_request_def search_token_def Let_def)
qed


text \<open>A search returns the specified identifiers; with cleaning the read entries are gone from the store.\<close>

lemma fides_search_server:
  assumes inv: "fides_inv hash prf E kp T K N H (f, s)" and pg: "fides_prf_good hash prf kp T K N"
    and E: "entries_good E" and T: "tdp_good T"
  shows "\<exists>s'. sophos_search prf (tdp_eval T) (sophos_search_request hash (insertClient f) kw) d s =
      (s', map (entry_block E) (rev (live (H kw)))) \<and>
    fides_inv hash prf E kp T K N (if d then H(kw := replicate (length (H kw)) None) else H) (f, s')"
proof (cases d)
  case False
  show ?thesis
    using search_loop_keep[OF T, of "prf" kp hash kw "length (H kw)" s] unmask_history[OF inv pg E, of kw] inv False
    by (simp add: fides_request[OF inv pg])
next
  case True
  let ?n = "length (H kw)" and ?tok = "fides_token hash prf kp T" and ?msk = "fides_mask hash prf kp T"
  let ?ks = "map (\<lambda>i. ?tok (kw, i)) (rev [0..<?n])" and ?H = "H(kw := replicate (length (H kw)) None)"
  have tok: "?tok (v, i) = ?tok (w, j) \<longleftrightarrow> v = w \<and> i = j" if "i < length (H v)" "j < length (H w)" for v i w j
    using pg fides_inv_range[OF inv that(1)] fides_inv_range[OF inv that(2)] by (auto simp: fides_prf_good_def dest: inj_onD)
  have "distinct ?ks" by (auto simp: distinct_map inj_on_def tok)
  note dr = sophos_store.drain_eq[OF this, of s]
  obtain s' rs where s': "sophos_store.drain ?ks s = (s', rs)" by force
  with dr have rs: "rs = map (sophos_get s) ?ks" and get: "sophos_get s' = (\<lambda>k. if k \<in> set ?ks then None else sophos_get s k)"
    by simp_all
  have ks: "?tok (v, i) \<in> set ?ks \<longleftrightarrow> v = kw" if "i < length (H v)" for v i
    using that by (auto simp: tok)
  have "List.map_filter (\<lambda>(i, r). map_option (\<lambda>r. xor_mask r (?msk (kw, i))) r) (zip is (map (\<lambda>i. sophos_get s (?tok (kw, i))) is)) =
      List.map_filter (\<lambda>i. map_option (\<lambda>r. xor_mask r (?msk (kw, i))) (sophos_get s (?tok (kw, i)))) is" for "is"
    by (induction "is") (simp_all split: option.split)
  from this[of "rev [0..<?n]"] have r: "sophos_search prf (tdp_eval T) (sophos_search_request hash (insertClient f) kw) d s =
      (s', map (entry_block E) (rev (live (H kw))))"
    using search_loop_drain[OF T, of "prf" kp hash kw ?n s] unmask_history[OF inv pg E, of kw] True
    by (simp add: fides_request[OF inv pg] s' rs comp_def)
  have "\<forall>v i. i < length (?H v) \<longrightarrow>
      sophos_get s' (?tok (v, i)) = map_option (\<lambda>e. xor_mask (entry_block E e) (?msk (v, i))) (?H v ! i)"
  proof (intro allI impI)
    fix v i assume "i < length (?H v)"
    then have i: "i < length (H v)" by (simp split: if_splits)
    then show "sophos_get s' (?tok (v, i)) = map_option (\<lambda>e. xor_mask (entry_block E e) (?msk (v, i))) (?H v ! i)"
      using inv by (auto simp add: get ks[OF i] fides_inv_def simp del: set_map)
  qed
  moreover have "dom (sophos_get s') \<subseteq> ?tok ` {(v, i). i < length (?H v)}"
  proof -
    have "dom (sophos_get s') \<subseteq> dom (sophos_get s)" by (auto simp: get split: if_splits)
    moreover have "{(v, i). i < length (?H v)} = {(v, i). i < length (H v)}" by (auto split: if_splits)
    ultimately show ?thesis using inv by (simp only: fides_inv_def snd_conv) blast
  qed
  moreover have "(?H v = []) = (H v = [])" "length (?H v) = length (H v)" for v by auto
  ultimately have "fides_inv hash prf E kp T K N ?H (f, s')"
    using inv unfolding fides_inv_def fst_conv snd_conv by (simp only:) auto
  with r True show ?thesis by auto
qed


section \<open>Runs\<close>

datatype faction = FInsert string nat | FDelete string nat | FSearch string

fun fides_run where
  "fides_run hash prf E [] fs = Inr (fs, [])"
| "fides_run hash prf E (FInsert w x # acts) fs =
     bindE (fides_insertKeyword hash prf E w x fs) (fides_run hash prf E acts)"
| "fides_run hash prf E (FDelete w x # acts) fs =
     bindE (fides_deleteKeyword hash prf E w x fs) (fides_run hash prf E acts)"
| "fides_run hash prf E (FSearch w # acts) fs =
     bindE (fides_searchKeyword hash prf E w fs) (\<lambda>(fs', r).
     bindE (fides_run hash prf E acts fs') (\<lambda>(fs'', rs). Inr (fs'', r # rs)))"

text \<open>
  The specification. With cleaning, a search forgets the log of its keyword and keeps one insertion of each
  result: a later deletion removes such an identifier even if it had been inserted more than once.
\<close>

fun fides_spec :: "bool \<Rightarrow> (string \<Rightarrow> (OP \<times> nat) list) \<Rightarrow> faction list \<Rightarrow> nat list list" where
  "fides_spec del L [] = []"
| "fides_spec del L (FInsert w x # acts) = fides_spec del (L(w := L w @ [(INS, x)])) acts"
| "fides_spec del L (FDelete w x # acts) = fides_spec del (L(w := L w @ [(DEL, x)])) acts"
| "fides_spec del L (FSearch w # acts) =
     matching (L w) # fides_spec del (if del then L(w := map (Pair INS) (matching (L w))) else L) acts"

fun faction_ok :: "string set \<Rightarrow> faction \<Rightarrow> bool" where
  "faction_ok K (FInsert w x) = (w \<in> K \<and> x < 10 ^ 9)"
| "faction_ok K (FDelete w x) = (w \<in> K \<and> x < 10 ^ 9)"
| "faction_ok K (FSearch w) = (w \<in> K)"

lemma fides_search_step:
  assumes inv: "fides_inv hash prf E kp T K N H (f, s)" and good: "fides_prf_good hash prf kp T K N" "entries_good E" "tdp_good T"
    and kw: "kw \<in> K" and n: "length (H kw) + length (live (H kw)) \<le> N"
  shows "\<exists>f' s' H'. fides_searchKeyword hash prf E kw (f, s) = Inr ((f', s'), matching (live (H kw))) \<and>
    deleteItems f' = deleteItems f \<and> fides_inv hash prf E kp T K N H' (f', s') \<and>
    (\<forall>v. length (H' v) \<le> length (H v) + length (live (H v)) \<and> length (live (H' v)) \<le> length (live (H v))) \<and>
    live \<circ> H' = (if deleteItems f then (live \<circ> H)(kw := map (Pair INS) (matching (live (H kw)))) else live \<circ> H)"
proof -
  let ?d = "deleteItems f" and ?m = "matching (live (H kw))"
  have T: "inverse_tdp (insertClient f) = T" and b: "\<forall>e \<in> set (live (H kw)). snd e < 10 ^ 9"
    using inv by (simp_all add: fides_inv_def)
  from fides_search_server[OF inv good, of kw ?d] obtain s' where
    s': "sophos_search prf (tdp_eval T) (sophos_search_request hash (insertClient f) kw) ?d s =
      (s', map (entry_block E) (rev (live (H kw))))"
    and i': "fides_inv hash prf E kp T K N (if ?d then H(kw := replicate (length (H kw)) None) else H) (f, s')"
    by blast
  note p = searchProcess_matching[OF good(2) b]
  show ?thesis
  proof (cases ?d)
    case False
    have "fides_searchKeyword hash prf E kw (f, s) = Inr ((f, s'), ?m)"
      using False s' p by (simp add: fides_searchKeyword_def T)
    with False i' show ?thesis by (intro exI[of _ f] exI[of _ s'] exI[of _ H]) simp
  next
    case True
    let ?H = "H(kw := replicate (length (H kw)) None)"
    let ?H' = "?H(kw := ?H kw @ map (\<lambda>x. Some (INS, x)) ?m)"
    have x: "\<forall>x \<in> set ?m. x < 10 ^ 9" using b set_matching[of "live (H kw)"] by fastforce
    have l: "length ?m \<le> length (live (H kw))" by (rule length_matching)
    then have "length (?H kw) + length ?m \<le> N" using n by simp
    moreover have "fides_inv hash prf E kp T K N ?H (f, s')" using i' True by simp
    ultimately obtain f'' s'' where
      r: "foldE (\<lambda>ind. fides_insertKeyword hash prf E kw ind) ?m (f, s') = Inr (f'', s'')"
        "deleteItems f'' = deleteItems f" "fides_inv hash prf E kp T K N ?H' (f'', s'')"
      using fides_inv_inserts[OF _ good x kw, where H = ?H] by blast
    have "live (map (\<lambda>x. Some (INS, x)) xs) = map (Pair INS) xs" for xs :: "nat list" by (induction xs) simp_all
    then have "live \<circ> ?H' = (live \<circ> H)(kw := map (Pair INS) ?m)" by (auto simp: fun_eq_iff)
    moreover have "length (?H' v) \<le> length (H v) + length (live (H v)) \<and> length (live (?H' v)) \<le> length (live (H v))" for v
      using l calculation by (auto simp: fun_eq_iff)
    moreover have "fides_searchKeyword hash prf E kw (f, s) = Inr ((f'', s''), ?m)"
      using True s' p r(1) by (simp add: fides_searchKeyword_def T)
    ultimately show ?thesis using r(2,3) True by (metis (no_types, lifting))
  qed
qed


text \<open>
  A cleaning search adds at most as many places to the history of its keyword as there are live entries, so
  the square of the number of actions bounds every counter.
\<close>

lemma fides_run_inv:
  assumes good: "fides_prf_good hash prf kp T K N" "entries_good E" "tdp_good T"
    and "fides_inv hash prf E kp T K N H (f, s)" "\<forall>a \<in> set acts. faction_ok K a"
    and "\<forall>v. length (live (H v)) + length acts \<le> M \<and> length (H v) + length acts * M \<le> N"
  shows "\<exists>fs'. fides_run hash prf E acts (f, s) = Inr (fs', fides_spec (deleteItems f) (live \<circ> H) acts)"
  using assms(4-)
proof (induction acts arbitrary: H f s)
  case Nil
  then show ?case by simp
next
  case (Cons a acts)
  have upd: "\<exists>fs'. bindE (fides_update_req hash prf E w (snd e) (op_suffix (fst e)) f)
        (\<lambda>r. fides_run hash prf E acts (fst r, sophos_update (snd r) s)) =
      Inr (fs', fides_spec (deleteItems f) ((live \<circ> H)(w := live (H w) @ [e])) acts)" if "w \<in> K" "snd e < 10 ^ 9" for w e
  proof -
    note kw = that(1) and e = that(2)
    have M: "length (H v) + M + length acts * M \<le> N" "length (live (H v)) + Suc (length acts) \<le> M" for v
      using Cons.prems(3) by (simp_all add: algebra_simps)
    have n: "length (H w) < N" using M(1)[of w] M(2)[of w] by linarith
    obtain f' req where r: "fides_update_req hash prf E w (snd e) (op_suffix (fst e)) f = Inr (f', req)"
      "deleteItems f' = deleteItems f" "fides_inv hash prf E kp T K N (H(w := H w @ [Some e])) (f', sophos_update req s)"
      using fides_inv_update[OF Cons.prems(1) good e kw n] by blast
    have "\<forall>v. length (live ((H(w := H w @ [Some e])) v)) + length acts \<le> M \<and>
        length ((H(w := H w @ [Some e])) v) + length acts * M \<le> N"
    proof
      fix v
      show "length (live ((H(w := H w @ [Some e])) v)) + length acts \<le> M \<and>
          length ((H(w := H w @ [Some e])) v) + length acts * M \<le> N"
        using M[of v] by (cases "v = w") simp_all
    qed
    then have "\<exists>fs'. fides_run hash prf E acts (f', sophos_update req s) =
        Inr (fs', fides_spec (deleteItems f') (live \<circ> (H(w := H w @ [Some e]))) acts)"
      by (intro Cons.IH[OF r(3)]) (use Cons.prems(2) in \<open>simp_all only: list.set_intros ball_simps set_simps\<close>, auto)
    moreover have "live \<circ> (H(w := H w @ [Some e])) = (live \<circ> H)(w := live (H w) @ [e])" by (auto simp: fun_eq_iff)
    ultimately show ?thesis using r(1,2) by (simp only: bindE_simps fst_conv snd_conv)
  qed
  show ?case
  proof (cases a)
    case (FInsert w x)
    have "\<exists>fs'. bindE (fides_insertKeyword hash prf E w x (f, s)) (fides_run hash prf E acts) =
        Inr (fs', fides_spec (deleteItems f) ((live \<circ> H)(w := live (H w) @ [(INS, x)])) acts)"
      using upd[of w "(INS, x)"] FInsert Cons.prems(2)
      by (auto simp: fides_insertKeyword_def fides_insert_req_def bindE_assoc case_prod_beta)
    then show ?thesis by (simp only: FInsert fides_run.simps fides_spec.simps comp_def)
  next
    case (FDelete w x)
    have "\<exists>fs'. bindE (fides_deleteKeyword hash prf E w x (f, s)) (fides_run hash prf E acts) =
        Inr (fs', fides_spec (deleteItems f) ((live \<circ> H)(w := live (H w) @ [(DEL, x)])) acts)"
      using upd[of w "(DEL, x)"] FDelete Cons.prems(2)
      by (auto simp: fides_deleteKeyword_def fides_delete_req_def bindE_assoc case_prod_beta)
    then show ?thesis by (simp only: FDelete fides_run.simps fides_spec.simps comp_def)
  next
    case (FSearch w)
    have M: "length (H v) + M + length acts * M \<le> N" "length (live (H v)) + Suc (length acts) \<le> M" for v
      using Cons.prems(3) by (simp_all add: algebra_simps)
    have "length (H w) + length (live (H w)) \<le> N" using M[of w] by linarith
    then obtain f' s' H' where r: "fides_searchKeyword hash prf E w (f, s) = Inr ((f', s'), matching (live (H w)))"
      "deleteItems f' = deleteItems f" "fides_inv hash prf E kp T K N H' (f', s')"
      "\<forall>v. length (H' v) \<le> length (H v) + length (live (H v)) \<and> length (live (H' v)) \<le> length (live (H v))"
      "live \<circ> H' = (if deleteItems f then (live \<circ> H)(w := map (Pair INS) (matching (live (H w)))) else live \<circ> H)"
      using fides_search_step[OF Cons.prems(1) good] FSearch Cons.prems(2) by (metis faction_ok.simps(3) list.set_intros(1))
    have "\<forall>v. length (live (H' v)) + length acts \<le> M \<and> length (H' v) + length acts * M \<le> N"
    proof
      fix v
      show "length (live (H' v)) + length acts \<le> M \<and> length (H' v) + length acts * M \<le> N"
        using r(4)[rule_format, of v] M[of v] by linarith
    qed
    moreover have "\<forall>a \<in> set acts. faction_ok K a" using Cons.prems(2) by simp
    ultimately obtain fs' where
      "fides_run hash prf E acts (f', s') = Inr (fs', fides_spec (deleteItems f') (live \<circ> H') acts)"
      using Cons.IH[OF r(3)] by blast
    then show ?thesis using r(1) unfolding FSearch fides_run.simps fides_spec.simps r(2,5) by simp
  qed
qed

section \<open>The encryption\<close>

lemma evp_entries:
  assumes "evp_good E" "buffer_ends_numbers E"
  shows "entries_good E"
  unfolding entries_good_def
proof (intro allI impI)
  fix op and x :: nat assume x: "x < 10 ^ 9"
  have "length (digits x) \<le> 9" using x length_digits[of x 8] by simp
  then have "length (entry_text (op, x)) < 12" by (cases op) (simp_all add: entry_text_def to_string_def)
  moreover have "CHR 0x00 \<notin> set (entry_text (op, x))"
    using to_string_no_nul[of "int x"] by (cases op) (simp_all add: entry_text_def)
  ultimately show "\<exists>b. encode E (entry_text (op, x)) = Inr b \<and> length b = 16 \<and>
      (\<exists>r. decode E b = Inr (entry_text (op, x) @ r) \<and> (r = [] \<or> \<not> is_digit (hd r)))"
    using decode_after_encode[OF assms] by blast
qed


section \<open>The gRPC runners\<close>

text \<open>A batch of requests has the effect of the insertions one by one.\<close>

lemma fides_batch_inserts:
  "foldE (\<lambda>ind. fides_insertKeyword hash prf E kw ind) xs (f, s) =
     bindE (fides_batch hash prf E kw xs f) (\<lambda>(f', reqs). Inr (f', fold sophos_update reqs s))"
proof (induction xs arbitrary: f s)
  case Nil
  then show ?case by simp
next
  case (Cons x xs)
  then show ?case
    by (simp add: fides_insertKeyword_def bindE_assoc case_prod_unfold)
qed

fun fides_net_run where
  "fides_net_run hash prf E [] nr = Inr (nr, [])"
| "fides_net_run hash prf E (FInsert w x # acts) nr =
     bindE (net_insertKeyword hash prf E w x nr) (fides_net_run hash prf E acts)"
| "fides_net_run hash prf E (FDelete w x # acts) nr =
     bindE (net_deleteKeyword hash prf E w x nr) (fides_net_run hash prf E acts)"
| "fides_net_run hash prf E (FSearch w # acts) nr =
     bindE (net_searchKeyword hash prf E w nr) (\<lambda>(nr', r).
     bindE (fides_net_run hash prf E acts nr') (\<lambda>(nr'', rs). Inr (nr'', r # rs)))"

definition remote_state :: "bool \<Rightarrow> fides_client \<times> sophos_server \<Rightarrow> fides_client_runner \<times> fides_server_runner" where
  "remote_state d fs =
     (\<lparr>fc_client = fst fs, fc_deleteItem = d, fc_setupMode = False\<rparr>, \<lparr>insertServer = Some (snd fs), sv_deleteItem = d\<rparr>)"

lemma net_insert_local:
  "net_insertKeyword hash prf E w x (remote_state d fs) =
     bindE (fides_insertKeyword hash prf E w x fs) (\<lambda>fs'. Inr (remote_state d fs'))"
  by (simp add: net_insertKeyword_def remote_state_def fides_insertKeyword_def fides_update_def bindE_assoc case_prod_unfold)

lemma net_delete_local:
  "net_deleteKeyword hash prf E w x (remote_state d fs) =
     bindE (fides_deleteKeyword hash prf E w x fs) (\<lambda>fs'. Inr (remote_state d fs'))"
  by (simp add: net_deleteKeyword_def remote_state_def fides_deleteKeyword_def fides_update_def bindE_assoc case_prod_unfold)

lemma net_search_local:
  assumes "deleteItems (fst fs) = d"
  shows "net_searchKeyword hash prf E w (remote_state d fs) =
     bindE (fides_searchKeyword hash prf E w fs) (\<lambda>(fs', r). Inr (remote_state d fs', r))"
  using assms
  by (cases d) (simp_all add: net_searchKeyword_def remote_state_def fides_searchKeyword_def fides_search_def
      fides_batchUpdate_def fides_batch_inserts bindE_assoc case_prod_unfold Let_def)

lemma fides_update_req_flag:
  "fides_update_req hash prf E w x suffix f = Inr (f', req) \<Longrightarrow> deleteItems f' = deleteItems f"
  by (auto simp: fides_update_req_def exn_simps case_prod_unfold Let_def)

lemma fides_update_flag:
  "fides_insertKeyword hash prf E w x fs = Inr fs' \<Longrightarrow> deleteItems (fst fs') = deleteItems (fst fs)"
  "fides_deleteKeyword hash prf E w x fs = Inr fs' \<Longrightarrow> deleteItems (fst fs') = deleteItems (fst fs)"
  by (auto simp: fides_insertKeyword_def fides_deleteKeyword_def fides_insert_req_def fides_delete_req_def exn_simps
      dest: fides_update_req_flag)

lemma fides_inserts_flag:
  "foldE (\<lambda>ind. fides_insertKeyword hash prf E kw ind) xs fs = Inr fs' \<Longrightarrow> deleteItems (fst fs') = deleteItems (fst fs)"
  by (induction xs arbitrary: fs) (auto simp: exn_simps dest: fides_update_flag(1))

lemma fides_search_flag:
  "fides_searchKeyword hash prf E w fs = Inr (fs', r) \<Longrightarrow> deleteItems (fst fs') = deleteItems (fst fs)"
  by (auto simp: fides_searchKeyword_def exn_simps case_prod_unfold Let_def split: if_splits dest: fides_inserts_flag)

lemma fides_net_run_local:
  "deleteItems (fst fs) = d \<Longrightarrow>
   fides_net_run hash prf E acts (remote_state d fs) =
     bindE (fides_run hash prf E acts fs) (\<lambda>(fs', rs). Inr (remote_state d fs', rs))"
proof (induction hash "prf" E acts fs rule: fides_run.induct)
  case (2 hash "prf" E w x acts fs)
  then show ?case
    by (auto simp: net_insert_local bindE_assoc intro!: bindE_cong dest: fides_update_flag)
next
  case (3 hash "prf" E w x acts fs)
  then show ?case
    by (auto simp: net_delete_local bindE_assoc intro!: bindE_cong dest: fides_update_flag)
next
  case (4 hash "prf" E w acts fs)
  have "fides_net_run hash prf E acts (remote_state d (fst r)) =
      bindE (fides_run hash prf E acts (fst r)) (\<lambda>(fs', rs). Inr (remote_state d fs', rs))"
    if "fides_searchKeyword hash prf E w fs = Inr r" for r
    using that 4 fides_search_flag[of hash "prf" E w fs "fst r" "snd r"] by (metis prod.collapse)
  then show ?case
    by (simp add: net_search_local[OF 4(2)] bindE_assoc case_prod_unfold cong: bindE_cong)
qed simp


section \<open>Properties\<close>


definition sample_tdp :: tdp where
  "sample_tdp = \<lparr>generate_array = (\<lambda>s. s), invert_mult = (\<lambda>s i. replicate i 0 @ s), tdp_eval = tl\<rparr>"

definition sample_prf :: "bytes \<Rightarrow> bytes \<Rightarrow> bytes" where
  "sample_prf k m = take 16 (of_nat (length m) # rev m @ replicate 16 0)"

lemma length_sample_prf: "length (sample_prf k m) = 16"
  unfolding sample_prf_def by (simp add: min_def) arith

definition sample_evp :: evp where
  "sample_evp = \<lparr>evp_encrypt = (\<lambda>p. take 16 (p @ [of_nat (length p)] @ replicate 16 (of_nat (length p)))),
     evp_decrypt = (\<lambda>c. Some (take (unat (last c)) c)), stack_content = (\<lambda>c. replicate 16 120)\<rparr>"

lemma sample_evp_good: "evp_good sample_evp"
proof -
  have "length (evp_encrypt sample_evp p) = 16 \<and> evp_decrypt sample_evp (evp_encrypt sample_evp p) = Some p"
    if "length p < 12" for p
  proof -
    let ?n = "of_nat (length p) :: byte"
    have t: "evp_encrypt sample_evp p = p @ replicate (16 - length p) ?n"
      using that by (simp add: sample_evp_def min_def flip: replicate_Suc)
    moreover have "last (p @ replicate (16 - length p) ?n) = ?n" using that by (simp add: last_append)
    moreover have "unat ?n = length p" using that by (simp add: unat_of_nat take_bit_nat_eq_self)
    ultimately show ?thesis using that by (simp add: sample_evp_def)
  qed
  then show ?thesis by (simp add: evp_good_def)
qed

lemma sample_evp_buffer: "buffer_ends_numbers sample_evp"
proof -
  have "\<not> is_digit (char_of (120 :: nat))" by code_simp
  then show ?thesis by (simp add: buffer_ends_numbers_def sample_evp_def)
qed


text \<open>
  C6. The two gRPC runners refine the local Fides: with the same cleaning flag on both sides and after the setup
  phase, a run over the network gives the same results, the same errors and the same client and server
  states as the run of the local client.
\<close>

theorem fides_remote_refines:
  assumes "deleteItems (fst fs) = d"
  shows "fides_net_run hash prf E acts (remote_state d fs) =
    bindE (fides_run hash prf E acts fs) (\<lambda>(fs', rs). Inr (remote_state d fs', rs))"
  using assms by (rule fides_net_run_local)

theorem fides_remote_refines_witness:
  "fides_net_run str_bytes sample_prf sample_evp [FInsert ''a'' 7, FSearch ''a'']
      (remote_state True (\<lparr>deleteItems = True, insertClient = SophosClient (\<lambda>s. s) sample_tdp\<rparr>, SophosServer False)) =
    bindE (fides_run str_bytes sample_prf sample_evp [FInsert ''a'' 7, FSearch ''a'']
      (\<lparr>deleteItems = True, insertClient = SophosClient (\<lambda>s. s) sample_tdp\<rparr>, SophosServer False))
      (\<lambda>(fs', rs). Inr (remote_state True fs', rs))"
  by (rule fides_remote_refines) simp

end
