(* ===== verification/Runs.thy ===== *)
theory Runs
  imports Prelude
begin

text \<open>
  Runs of a system of threads: sequences of labelled steps. The locale states what the concurrent components show of
  their step relation: an invariant, a measure that every step lowers except the spurious ones, and that
  a state which is not final has a step that is not spurious. It follows that a run has no more steps than the measure of its
  first state and its spurious steps allow, and that a run which cannot be continued has reached a final state.
\<close>

lemma sum_list_upd:
  "i < length xs \<Longrightarrow> sum_list (xs[i := x]) + xs ! i = sum_list xs + (x :: 'a :: comm_monoid_add)"
proof (induction xs arbitrary: i)
  case Nil
  then show ?case by simp
next
  case (Cons y ys)
  then show ?case by (cases i) (simp_all add: ac_simps)
qed

inductive run :: "('s \<Rightarrow> 'e \<Rightarrow> 's \<Rightarrow> bool) \<Rightarrow> 's \<Rightarrow> 'e list \<Rightarrow> 's \<Rightarrow> bool" for step where
  run_Nil: "run step s [] s"
| run_snoc: "run step s es t \<Longrightarrow> step t e u \<Longrightarrow> run step s (es @ [e]) u"

lemma run_append: "run step t fs u \<Longrightarrow> run step s es t \<Longrightarrow> run step s (es @ fs) u"
  by (induction rule: run.induct) (auto simp flip: append_assoc intro: run.intros)

lemma run_mono: "run step s es t \<Longrightarrow> (\<And>s e t. step s e t \<Longrightarrow> step' s e t) \<Longrightarrow> run step' s es t"
  by (induction rule: run.induct) (auto intro: run.intros)

lemma run_step: "step s e t \<Longrightarrow> run step s [e] t"
  using run.run_snoc[OF run.run_Nil, of step s e t] by simp

definition count_if :: "('e \<Rightarrow> bool) \<Rightarrow> 'e list \<Rightarrow> nat" where
  "count_if P es = length (filter P es)"

lemma count_if_simps [simp]:
  "count_if P [] = 0" "count_if P (es @ fs) = count_if P es + count_if P fs" "count_if P [e] = (if P e then 1 else 0)"
  by (simp_all add: count_if_def)

locale run_system =
  fixes step :: "'s \<Rightarrow> 'e \<Rightarrow> 's \<Rightarrow> bool"
    and inv :: "'s \<Rightarrow> bool"
    and rank :: "'s \<Rightarrow> nat"
    and spurious :: "'e \<Rightarrow> bool"
    and final :: "'s \<Rightarrow> bool"
  assumes step_inv: "inv s \<Longrightarrow> step s e t \<Longrightarrow> inv t"
    and step_rank: "inv s \<Longrightarrow> step s e t \<Longrightarrow> if spurious e then rank t \<le> rank s + 1 else rank t < rank s"
    and progress: "inv s \<Longrightarrow> \<not> final s \<Longrightarrow> \<exists>e t. step s e t \<and> \<not> spurious e"
begin

lemma run_inv: "run step s es t \<Longrightarrow> inv s \<Longrightarrow> inv t"
  by (induction rule: run.induct) (auto intro: step_inv)

lemma run_rank: "run step s es t \<Longrightarrow> inv s \<Longrightarrow> length es + rank t \<le> rank s + 2 * count_if spurious es"
proof (induction rule: run.induct)
  case (run_Nil s)
  then show ?case by simp
next
  case (run_snoc s es t e u)
  then have "inv t" by (blast intro: run_inv)
  from step_rank[OF this run_snoc.hyps(2)] run_snoc show ?case by (auto split: if_splits)
qed

lemma stuck_final: "run step s es t \<Longrightarrow> inv s \<Longrightarrow> (\<forall>e u. step t e u \<longrightarrow> spurious e) \<Longrightarrow> final t"
  using run_inv progress by blast

lemma reaches_final: "inv s \<Longrightarrow> \<exists>es t. run step s es t \<and> final t \<and> count_if spurious es = 0"
proof (induction "rank s" arbitrary: s rule: less_induct)
  case less
  show ?case
  proof (cases "final s")
    case True
    then show ?thesis using run.run_Nil[of step s] by force
  next
    case False
    then obtain e u where u: "step s e u" "\<not> spurious e" using progress less.prems by blast
    then have "rank u < rank s" "inv u" using step_rank[OF less.prems u(1)] step_inv less.prems by auto
    then obtain es t where "run step u es t" "final t" "count_if spurious es = 0" using less.hyps by blast
    then show ?thesis using run_append[OF _ run_step[where step = step, OF u(1)]] u(2)
      by (intro exI[of _ "[e] @ es"] exI[of _ t]) (simp del: append_Cons)
  qed
qed

end

end
