(* ===== verification/ThreadPool.thy ===== *)
theory ThreadPool
  imports Runs "HOL-Library.Multiset"
begin

text \<open>
  The thread pool of \<open>src/src/utils/thread_pool.hpp\<close> as a labelled step relation. A step is a region the code executes under
  \<open>queue_mutex\<close>, a notification, the return of a task, or a step of the thread that joins. A worker is about to take the
  lock, waiting on the condition variable, executing a task, or has returned. Notifications happen after the lock is
  released, so an enqueuing thread is counted in \<open>notifying\<close> between the two; the system may wake a waiting worker without
  a notification. A task that throws stores the exception in its future, so every task returns to the loop.
\<close>

section \<open>State\<close>

datatype 'a worker = Ready | Blocked | Busy 'a | Returned

datatype join_pc = Not_joining | Stop_set | Joining nat

record 'a pool =
  workers :: "'a worker list"
  joinable :: "bool list"
  tasks :: "'a list"
  max_tasks_size :: nat
  stop :: bool
  notifying :: nat
  joining :: join_pc

datatype 'a event =
    Enqueued 'a
  | Notified
  | Taken nat 'a
  | Slept nat
  | Exited nat
  | Woken nat
  | Finished nat 'a
  | Join_called
  | All_notified
  | Joined nat
  | Join_returned

section \<open>Operations\<close>

definition ThreadPool :: "nat \<Rightarrow> 'a pool" where
  "ThreadPool threads =
     \<lparr>workers = replicate threads Ready, joinable = replicate threads True, tasks = [], max_tasks_size = 0,
      stop = False, notifying = 0, joining = Not_joining\<rparr>"

definition enqueue :: "'a \<Rightarrow> 'a pool \<Rightarrow> 'a pool res" where
  "enqueue task p =
     (if stop p then Inl (Runtime_error ''enqueue on stopped ThreadPool'')
      else Inr (p\<lparr>tasks := tasks p @ [task], notifying := notifying p + 1\<rparr>))"

text \<open>\<open>condition.notify_one()\<close> wakes the waiting worker \<open>i\<close>, or none when no worker waits.\<close>

definition wake :: "nat \<Rightarrow> 'a pool \<Rightarrow> 'a pool" where
  "wake i p = p\<lparr>workers := (workers p)[i := Ready]\<rparr>"

definition notified :: "'a pool \<Rightarrow> 'a pool" where
  "notified p = p\<lparr>notifying := notifying p - 1\<rparr>"

text \<open>The locked region of the worker's loop, and what the worker does in it.\<close>

definition worker_check :: "nat \<Rightarrow> 'a pool \<Rightarrow> 'a event \<times> 'a pool" where
  "worker_check i p =
     (if \<not> (stop p \<or> tasks p \<noteq> []) then (Slept i, p\<lparr>workers := (workers p)[i := Blocked]\<rparr>)
      else if stop p \<and> tasks p = [] then (Exited i, p\<lparr>workers := (workers p)[i := Returned]\<rparr>)
      else (Taken i (hd (tasks p)),
            p\<lparr>max_tasks_size := max (max_tasks_size p) (length (tasks p)),
              workers := (workers p)[i := Busy (hd (tasks p))], tasks := tl (tasks p)\<rparr>))"

definition task_done :: "nat \<Rightarrow> 'a pool \<Rightarrow> 'a pool" where
  "task_done i p = p\<lparr>workers := (workers p)[i := Ready]\<rparr>"

text \<open>\<open>join\<close>, which is also the body of the destructor: set the flag, notify all, join each worker that is joinable.\<close>

definition join_stop :: "'a pool \<Rightarrow> 'a pool" where
  "join_stop p = p\<lparr>stop := True, joining := Stop_set\<rparr>"

definition wake_worker :: "'a worker \<Rightarrow> 'a worker" where
  "wake_worker w = (case w of Blocked \<Rightarrow> Ready | _ \<Rightarrow> w)"

definition notify_all :: "'a pool \<Rightarrow> 'a pool" where
  "notify_all p = p\<lparr>workers := map wake_worker (workers p), joining := Joining 0\<rparr>"

definition join_worker :: "nat \<Rightarrow> 'a pool \<Rightarrow> 'a pool option" where
  "join_worker i p =
     (if joinable p ! i
      then if workers p ! i = Returned
           then Some (p\<lparr>joinable := (joinable p)[i := False], joining := Joining (i + 1)\<rparr>) else None
      else Some (p\<lparr>joining := Joining (i + 1)\<rparr>))"

definition join_return :: "'a pool \<Rightarrow> 'a pool" where
  "join_return p = p\<lparr>joining := Not_joining\<rparr>"

inductive pool_step :: "'a pool \<Rightarrow> 'a event \<Rightarrow> 'a pool \<Rightarrow> bool" where
  step_enqueue: "enqueue task p = Inr q \<Longrightarrow> pool_step p (Enqueued task) q"
| step_notify: "notifying p > 0 \<Longrightarrow> i < length (workers p) \<Longrightarrow> workers p ! i = Blocked \<Longrightarrow>
    pool_step p Notified (notified (wake i p))"
| step_notify_none: "notifying p > 0 \<Longrightarrow> Blocked \<notin> set (workers p) \<Longrightarrow> pool_step p Notified (notified p)"
| step_check: "i < length (workers p) \<Longrightarrow> workers p ! i = Ready \<Longrightarrow> worker_check i p = (e, q) \<Longrightarrow> pool_step p e q"
| step_spurious: "i < length (workers p) \<Longrightarrow> workers p ! i = Blocked \<Longrightarrow> pool_step p (Woken i) (wake i p)"
| step_finish: "i < length (workers p) \<Longrightarrow> workers p ! i = Busy task \<Longrightarrow> pool_step p (Finished i task) (task_done i p)"
| step_join: "joining p = Not_joining \<Longrightarrow> pool_step p Join_called (join_stop p)"
| step_notify_all: "joining p = Stop_set \<Longrightarrow> pool_step p All_notified (notify_all p)"
| step_joined: "joining p = Joining i \<Longrightarrow> i < length (workers p) \<Longrightarrow> join_worker i p = Some q \<Longrightarrow> pool_step p (Joined i) q"
| step_join_return: "joining p = Joining (length (workers p)) \<Longrightarrow> pool_step p Join_returned (join_return p)"

lemmas pool_defs = ThreadPool_def enqueue_def wake_def notified_def worker_check_def task_done_def join_stop_def
  notify_all_def join_worker_def join_return_def

text \<open>What a run has enqueued, handed to a worker and finished, in this order.\<close>

fun enqueued_task :: "'a event \<Rightarrow> 'a option" where
  "enqueued_task (Enqueued a) = Some a"
| "enqueued_task _ = None"

fun taken_task :: "'a event \<Rightarrow> 'a option" where
  "taken_task (Taken i a) = Some a"
| "taken_task _ = None"

fun finished_task :: "'a event \<Rightarrow> 'a option" where
  "finished_task (Finished i a) = Some a"
| "finished_task _ = None"

definition enqueued :: "'a event list \<Rightarrow> 'a list" where
  "enqueued es = List.map_filter enqueued_task es"

definition taken :: "'a event list \<Rightarrow> 'a list" where
  "taken es = List.map_filter taken_task es"

definition finished :: "'a event list \<Rightarrow> 'a list" where
  "finished es = List.map_filter finished_task es"

lemma log_simps [simp]:
  "enqueued [] = []" "taken [] = []" "finished [] = []"
  "enqueued (es @ fs) = enqueued es @ enqueued fs" "taken (es @ fs) = taken es @ taken fs"
  "finished (es @ fs) = finished es @ finished fs"
  "enqueued [e] = (case enqueued_task e of None \<Rightarrow> [] | Some a \<Rightarrow> [a])"
  "taken [e] = (case taken_task e of None \<Rightarrow> [] | Some a \<Rightarrow> [a])"
  "finished [e] = (case finished_task e of None \<Rightarrow> [] | Some a \<Rightarrow> [a])"
  by (simp_all add: enqueued_def taken_def finished_def List.map_filter_def split: option.splits)

fun busy_of :: "'a worker \<Rightarrow> 'a multiset" where
  "busy_of (Busy a) = {#a#}"
| "busy_of _ = {#}"

definition busy :: "'a worker list \<Rightarrow> 'a multiset" where
  "busy ws = sum_list (map busy_of ws)"

lemma busy_upd: "i < length ws \<Longrightarrow> busy (ws[i := w]) + busy_of (ws ! i) = busy ws + busy_of w"
  using sum_list_upd[of i "map busy_of ws" "busy_of w"] by (simp add: busy_def map_update)

lemma busy_wake [simp]: "busy (map wake_worker ws) = busy ws"
proof -
  have "busy_of \<circ> wake_worker = (busy_of :: 'a worker \<Rightarrow> _)"
    by (rule ext) (simp add: wake_worker_def split: worker.splits)
  then show ?thesis by (simp add: busy_def)
qed

lemma busy_replicate [simp]: "busy (replicate n Ready) = {#}"
  by (induction n) (simp_all add: busy_def)

text \<open>One step: the queue is first in, first out, and a task that was taken is busy until it is finished.\<close>

lemma step_queue: "pool_step p e q \<Longrightarrow> tasks p @ enqueued [e] = taken [e] @ tasks q"
  by (induction rule: pool_step.induct) (auto simp: pool_defs split: if_splits)

lemma busy_replace: "i < length ws \<Longrightarrow> ws ! i = v \<Longrightarrow> busy_of v = {#} \<Longrightarrow> busy (ws[i := w]) = busy ws + busy_of w"
  using busy_upd[of i ws w] by simp

lemma step_busy: "pool_step p e q \<Longrightarrow> busy (workers p) + mset (taken [e]) = busy (workers q) + mset (finished [e])"
proof (induction rule: pool_step.induct)
  case (step_finish i p task)
  then show ?case using busy_upd[of i "workers p" Ready] by (simp add: task_done_def)
qed (auto simp: pool_defs busy_replace split: if_splits)

section \<open>Invariant\<close>

text \<open>
  The invariant: a worker returns only when the pool is stopped and the queue is empty; while a worker waits and a task is
  queued, some worker will look at the queue or a notification is under way; after the flag is set nobody waits
  once all have been notified; a worker that was joined has returned.
\<close>

definition awake :: "'a worker \<Rightarrow> bool" where
  "awake w \<longleftrightarrow> w \<noteq> Blocked \<and> w \<noteq> Returned"

definition wakeup_inv :: "'a pool \<Rightarrow> bool" where
  "wakeup_inv p \<longleftrightarrow>
     (Returned \<in> set (workers p) \<longrightarrow> stop p \<and> tasks p = []) \<and>
     (Blocked \<in> set (workers p) \<longrightarrow> tasks p \<noteq> [] \<longrightarrow> notifying p > 0 \<or> (\<exists>w\<in>set (workers p). awake w)) \<and>
     (Blocked \<in> set (workers p) \<longrightarrow> stop p \<longrightarrow> joining p = Stop_set)"

definition join_inv :: "'a pool \<Rightarrow> bool" where
  "join_inv p \<longleftrightarrow>
     length (joinable p) = length (workers p) \<and>
     (joining p \<noteq> Not_joining \<longrightarrow> stop p) \<and>
     (\<forall>j<length (workers p). \<not> joinable p ! j \<longrightarrow> workers p ! j = Returned) \<and>
     (\<forall>i. joining p = Joining i \<longrightarrow> i \<le> length (workers p) \<and> (\<forall>j<i. \<not> joinable p ! j)) \<and>
     (stop p \<longrightarrow> joining p = Not_joining \<longrightarrow> (\<forall>j<length (workers p). \<not> joinable p ! j))"

definition pool_inv :: "'a pool \<Rightarrow> bool" where
  "pool_inv p \<longleftrightarrow> wakeup_inv p \<and> join_inv p"

lemma awake_upd: "i < length ws \<Longrightarrow> awake w \<Longrightarrow> \<exists>v\<in>set (ws[i := w]). awake v"
  by (meson set_update_memI)

lemma awake_simps [simp]: "awake Ready" "awake (Busy a)" "\<not> awake Blocked" "\<not> awake Returned"
  by (simp_all add: awake_def)

lemma set_upd_cases: "v \<in> set (ws[i := w]) \<Longrightarrow> v = w \<or> v \<in> set ws"
  by (metis insertE set_update_subset_insert subset_iff)

lemma wake_worker_cases [simp]:
  "wake_worker w \<noteq> Blocked" "Blocked \<noteq> wake_worker w" "wake_worker w = Returned \<longleftrightarrow> w = Returned" "Returned = wake_worker w \<longleftrightarrow> w = Returned"
  by (cases w; simp add: wake_worker_def)+

lemma step_wakeup: "pool_step p e q \<Longrightarrow> wakeup_inv p \<Longrightarrow> wakeup_inv q"
proof (induction rule: pool_step.induct)
  case (step_enqueue task p q)
  then show ?case by (auto simp: wakeup_inv_def enqueue_def split: if_splits)
next
  case (step_notify p i)
  then have "\<exists>w\<in>set ((workers p)[i := Ready]). awake w" by (simp add: awake_upd)
  then show ?case using step_notify by (auto simp: wakeup_inv_def wake_def notified_def dest!: set_upd_cases)
next
  case (step_notify_none p)
  then show ?case by (auto simp: wakeup_inv_def notified_def)
next
  case (step_check i p e q)
  then have "\<exists>w\<in>set ((workers p)[i := Busy t]). awake w" for t by (simp add: awake_upd)
  then show ?case using step_check
    by (auto simp: wakeup_inv_def worker_check_def dest!: set_upd_cases split: if_splits)
next
  case (step_spurious i p)
  then have "\<exists>w\<in>set ((workers p)[i := Ready]). awake w" by (simp add: awake_upd)
  then show ?case using step_spurious by (auto simp: wakeup_inv_def wake_def dest!: set_upd_cases)
next
  case (step_finish i p task)
  then have "\<exists>w\<in>set ((workers p)[i := Ready]). awake w" by (simp add: awake_upd)
  then show ?case using step_finish by (auto simp: wakeup_inv_def task_done_def dest!: set_upd_cases)
next
  case (step_join p)
  then show ?case by (auto simp: wakeup_inv_def join_stop_def)
next
  case (step_notify_all p)
  then show ?case by (auto simp: wakeup_inv_def notify_all_def)
next
  case (step_joined p i q)
  then show ?case by (auto simp: wakeup_inv_def join_worker_def split: if_splits)
next
  case (step_join_return p)
  then show ?case by (auto simp: wakeup_inv_def join_return_def)
qed

lemma step_join_inv: "pool_step p e q \<Longrightarrow> wakeup_inv p \<Longrightarrow> join_inv p \<Longrightarrow> join_inv q"
proof (induction rule: pool_step.induct)
  case (step_joined p i q)
  then show ?case by (auto simp: join_inv_def join_worker_def nth_list_update less_Suc_eq split: if_splits)
qed (auto simp: join_inv_def pool_defs nth_list_update split: if_splits)

lemma step_pool_inv: "pool_step p e q \<Longrightarrow> pool_inv p \<Longrightarrow> pool_inv q"
  using step_wakeup step_join_inv by (auto simp: pool_inv_def)

lemma ThreadPool_inv: "pool_inv (ThreadPool n)"
  by (auto simp: pool_inv_def wakeup_inv_def join_inv_def ThreadPool_def)

lemma step_length [simp]: "pool_step p e q \<Longrightarrow> length (workers q) = length (workers p)"
  by (induction rule: pool_step.induct) (auto simp: pool_defs split: if_splits)

lemma run_pool_inv: "run pool_step p es q \<Longrightarrow> pool_inv p \<Longrightarrow> pool_inv q \<and> length (workers q) = length (workers p)"
  by (induction rule: run.induct) (auto intro: step_pool_inv)

section \<open>Rank\<close>

fun worker_rank :: "'a worker \<Rightarrow> nat" where
  "worker_rank Ready = 2"
| "worker_rank Blocked = 1"
| "worker_rank (Busy a) = 3"
| "worker_rank Returned = 0"

definition workers_rank :: "'a worker list \<Rightarrow> nat" where
  "workers_rank ws = sum_list (map worker_rank ws)"

definition join_rank :: "nat \<Rightarrow> join_pc \<Rightarrow> nat" where
  "join_rank n j = (case j of Not_joining \<Rightarrow> 0 | Stop_set \<Rightarrow> 2 * n + 2 | Joining i \<Rightarrow> n - i + 1)"

definition pool_rank :: "'a pool \<Rightarrow> nat" where
  "pool_rank p = workers_rank (workers p) + 2 * length (tasks p) + 2 * notifying p + join_rank (length (workers p)) (joining p)"

lemma workers_rank_upd:
  "i < length ws \<Longrightarrow> workers_rank (ws[i := w]) + worker_rank (ws ! i) = workers_rank ws + worker_rank w"
  using sum_list_upd[of i "map worker_rank ws" "worker_rank w"] by (simp add: workers_rank_def map_update)

lemma worker_rank_replace:
  "i < length ws \<Longrightarrow> ws ! i = v \<Longrightarrow> workers_rank (ws[i := w]) = workers_rank ws + worker_rank w - worker_rank v"
  using workers_rank_upd[of i ws w] by simp

lemma worker_rank_le: "i < length ws \<Longrightarrow> worker_rank (ws ! i) \<le> workers_rank ws"
  by (simp add: workers_rank_def member_le_sum_list)

lemma workers_rank_wake: "workers_rank (map wake_worker ws) \<le> workers_rank ws + length ws"
proof (induction ws)
  case Nil
  then show ?case by (simp add: workers_rank_def)
next
  case (Cons w ws)
  have "worker_rank (wake_worker w) \<le> worker_rank w + 1" by (cases w) (simp_all add: wake_worker_def)
  with Cons show ?case by (simp add: workers_rank_def)
qed

fun event_rank :: "nat \<Rightarrow> 'a event \<Rightarrow> nat" where
  "event_rank n (Enqueued a) = 4"
| "event_rank n Join_called = 2 * n + 2"
| "event_rank n (Woken i) = 1"
| "event_rank n _ = 0"

fun raising :: "'a event \<Rightarrow> bool" where
  "raising (Enqueued a) = True"
| "raising Join_called = True"
| "raising (Woken i) = True"
| "raising _ = False"

text \<open>A step lowers the rank, except the arrival of a task, the call of \<open>join\<close> and a wake-up without notification.\<close>

lemma step_rank:
  assumes "pool_step p e q" "pool_inv p"
  shows "pool_rank q + (if raising e then 0 else 1) \<le> pool_rank p + event_rank (length (workers p)) e"
  using assms
proof (induction rule: pool_step.induct)
  case (step_enqueue task p q)
  then show ?case by (auto simp: pool_rank_def enqueue_def split: if_splits)
next
  case (step_notify p i)
  then show ?case using worker_rank_le[of i "workers p"] by (simp add: pool_rank_def notified_def wake_def worker_rank_replace)
next
  case (step_notify_none p)
  then show ?case by (simp add: pool_rank_def notified_def)
next
  case (step_check i p e q)
  then show ?case using worker_rank_le[of i "workers p"] by (cases "tasks p") (auto simp: pool_rank_def worker_check_def worker_rank_replace split: if_splits)
next
  case (step_spurious i p)
  then show ?case using worker_rank_le[of i "workers p"] by (simp add: pool_rank_def wake_def worker_rank_replace)
next
  case (step_finish i p task)
  then show ?case using worker_rank_le[of i "workers p"] by (simp add: pool_rank_def task_done_def worker_rank_replace)
next
  case (step_join p)
  then show ?case by (simp add: pool_rank_def join_stop_def join_rank_def)
next
  case (step_notify_all p)
  then show ?case using workers_rank_wake[of "workers p"] by (simp add: pool_rank_def notify_all_def join_rank_def)
next
  case (step_joined p i q)
  then show ?case by (auto simp: pool_rank_def join_worker_def join_rank_def split: if_splits)
next
  case (step_join_return p)
  then show ?case by (simp add: pool_rank_def join_return_def join_rank_def)
qed

section \<open>Joining\<close>

text \<open>The steps from a call of \<open>join\<close> on, without another call.\<close>

definition closing_step :: "'a pool \<Rightarrow> 'a event \<Rightarrow> 'a pool \<Rightarrow> bool" where
  "closing_step p e q \<longleftrightarrow> pool_step p e q \<and> e \<noteq> Join_called"

definition closing :: "'a pool \<Rightarrow> bool" where
  "closing p \<longleftrightarrow> pool_inv p \<and> stop p"

definition joined :: "'a pool \<Rightarrow> bool" where
  "joined p \<longleftrightarrow> joining p = Not_joining \<and> (\<forall>w\<in>set (workers p). w = Returned)"

fun is_woken :: "'a event \<Rightarrow> bool" where
  "is_woken (Woken i) = True"
| "is_woken _ = False"

lemma step_stop: "pool_step p e q \<Longrightarrow> stop p \<Longrightarrow> stop q \<and> enqueued_task e = None"
  by (induction rule: pool_step.induct) (auto simp: pool_defs split: if_splits)

lemma check_not_woken: "worker_check i p = (e, q) \<Longrightarrow> \<not> is_woken e \<and> e \<noteq> Join_called"
  by (auto simp: worker_check_def split: if_splits)

lemma awake_step:
  assumes "i < length (workers p)" "awake (workers p ! i)"
  shows "\<exists>e q. closing_step p e q \<and> \<not> is_woken e"
proof (cases "workers p ! i")
  case Ready
  obtain e q where "worker_check i p = (e, q)" by (cases "worker_check i p")
  then have "closing_step p e q \<and> \<not> is_woken e"
    using assms(1) Ready check_not_woken pool_step.step_check by (fastforce simp: closing_step_def)
  then show ?thesis by blast
next
  case (Busy a)
  then have "closing_step p (Finished i a) (task_done i p)" using assms by (simp add: closing_step_def pool_step.step_finish)
  then show ?thesis by fastforce
qed (use assms in auto)

lemma joining_step:
  assumes inv: "pool_inv p" and j: "joining p = Joining i"
  shows "\<exists>e q. closing_step p e q \<and> \<not> is_woken e"
proof (cases "i < length (workers p)")
  case False
  then have "joining p = Joining (length (workers p))" using inv j by (auto simp: pool_inv_def join_inv_def)
  then have "closing_step p Join_returned (join_return p)" by (simp add: closing_step_def pool_step.step_join_return)
  then show ?thesis by fastforce
next
  case True
  show ?thesis
  proof (cases "joinable p ! i \<and> workers p ! i \<noteq> Returned")
    case False
    then have "join_worker i p \<noteq> None" by (auto simp: join_worker_def)
    then obtain q where "join_worker i p = Some q" by blast
    then have "closing_step p (Joined i) q" using True j by (simp add: closing_step_def pool_step.step_joined)
    then show ?thesis by fastforce
  next
    case t: True
    have "stop p" using inv j by (simp add: pool_inv_def join_inv_def)
    then have "Blocked \<notin> set (workers p)" using inv j by (auto simp: pool_inv_def wakeup_inv_def)
    then have "awake (workers p ! i)" using t True nth_mem[OF True] by (auto simp: awake_def simp del: nth_mem)
    then show ?thesis using True awake_step by blast
  qed
qed

interpretation joins: run_system closing_step closing pool_rank is_woken joined
proof unfold_locales
  fix p q :: "'a pool" and e
  assume c: "closing p" and s: "closing_step p e q"
  then have ps: "pool_step p e q" "e \<noteq> Join_called" "pool_inv p" "stop p" by (auto simp: closing_step_def closing_def)
  then show "closing q" using step_stop step_pool_inv by (auto simp: closing_def)
  from step_rank[OF ps(1,3)] step_stop[OF ps(1,4)] ps(2)
  show "if is_woken e then pool_rank q \<le> pool_rank p + 1 else pool_rank q < pool_rank p"
    by (cases e) auto
next
  fix p :: "'a pool"
  assume c: "closing p" and n: "\<not> joined p"
  show "\<exists>e q. closing_step p e q \<and> \<not> is_woken e"
  proof (cases "joining p")
    case Not_joining
    then have "joined p" using c by (auto simp: closing_def pool_inv_def join_inv_def joined_def in_set_conv_nth)
    with n show ?thesis by simp
  next
    case Stop_set
    then have "closing_step p All_notified (notify_all p)" by (simp add: closing_step_def pool_step.step_notify_all)
    then show ?thesis by fastforce
  next
    case (Joining i)
    then show ?thesis using joining_step c by (auto simp: closing_def)
  qed
qed

section \<open>Properties\<close>

lemma run_logs:
  assumes "run pool_step p es q"
  shows "tasks p @ enqueued es = taken es @ tasks q \<and> busy (workers p) + mset (taken es) = busy (workers q) + mset (finished es)"
  using assms
proof (induction rule: run.induct)
  case (run_Nil s)
  then show ?case by simp
next
  case (run_snoc s es t e u)
  have "tasks s @ enqueued (es @ [e]) = taken (es @ [e]) @ tasks u"
    using run_snoc.IH step_queue[OF run_snoc.hyps(2)] by (simp del: log_simps(7,8,9) flip: append_assoc) simp
  moreover have "busy (workers s) + mset (taken (es @ [e])) = busy (workers u) + mset (finished (es @ [e]))"
    using run_snoc.IH step_busy[OF run_snoc.hyps(2)]
    by (simp del: log_simps(7,8,9) union_assoc) (metis add.assoc add.commute)
  ultimately show ?case by blast
qed

lemma joined_run:
  assumes r: "run closing_step p ks q" and inv: "pool_inv p" "stop p"
    and last: "\<forall>e u. closing_step q e u \<longrightarrow> is_woken e" and n: "workers p \<noteq> []"
  shows "joining q = Not_joining \<and> set (workers q) = {Returned} \<and> tasks q = [] \<and> busy (workers q) = {#}"
proof -
  have "joined q" using joins.stuck_final[OF r] inv last by (simp add: closing_def)
  moreover have "closing q" using joins.run_inv[OF r] inv by (simp add: closing_def)
  moreover have "length (workers q) = length (workers p)"
    using run_mono[OF r, of pool_step] run_pool_inv inv by (auto simp: closing_step_def)
  moreover have "busy ws = {#}" if "\<forall>w\<in>set ws. w = Returned" for ws :: "'a worker list"
    using that by (induction ws) (simp_all add: busy_def)
  ultimately show ?thesis using n by (cases "workers q") (auto simp: joined_def closing_def pool_inv_def wakeup_inv_def)
qed

text \<open>
  C35. No task is lost, repeated or overtaken in the queue: in every run of the pool, with any number of workers and any
  interleaving, the tasks handed to workers followed by the tasks in the queue are the enqueued tasks in their order, and every
  task handed out is either finished, once, or being executed.
\<close>

theorem pool_fifo_exactly_once:
  assumes "run pool_step (ThreadPool n) es p"
  shows "enqueued es = taken es @ tasks p \<and> mset (taken es) = mset (finished es) + busy (workers p)"
  using run_logs[OF assms] by (simp add: ThreadPool_def add.commute)

text \<open>
  C36. No wake-up is lost: whenever a task is queued in a pool with workers, some worker can take or finish a task or a
  notification is under way, so the pool is never stuck with work to do.
\<close>

theorem pool_no_lost_wakeup:
  assumes "run pool_step (ThreadPool n) es p" "0 < n" "tasks p \<noteq> []"
  shows "notifying p > 0 \<or> (\<exists>i a q. pool_step p (Taken i a) q) \<or> (\<exists>i a q. pool_step p (Finished i a) q)"
proof -
  have i: "pool_inv p" "workers p \<noteq> []"
    using run_pool_inv[OF assms(1) ThreadPool_inv] assms(2) by (auto simp: ThreadPool_def)
  have "Returned \<notin> set (workers p)" using i assms(3) by (auto simp: pool_inv_def wakeup_inv_def)
  then have "notifying p > 0 \<or> (\<exists>w\<in>set (workers p). awake w)"
    using i assms(3) by (cases "workers p") (auto simp: pool_inv_def wakeup_inv_def awake_def)
  moreover have "(\<exists>i a q. pool_step p (Taken i a) q) \<or> (\<exists>i a q. pool_step p (Finished i a) q)"
    if "j < length (workers p)" "awake (workers p ! j)" for j
  proof (cases "workers p ! j")
    case Ready
    have "fst (worker_check j p) = Taken j (hd (tasks p))" using assms(3) by (simp add: worker_check_def)
    then have "pool_step p (Taken j (hd (tasks p))) (snd (worker_check j p))"
      using pool_step.step_check[OF that(1) Ready] by (metis surjective_pairing)
    then show ?thesis by blast
  next
    case (Busy a)
    then show ?thesis using pool_step.step_finish[OF that(1)] by blast
  qed (use that in auto)
  ultimately show ?thesis unfolding in_set_conv_nth Bex_def by blast
qed

text \<open>
  C37. A call of \<open>join\<close> returns: after it has set the flag the pool makes at most as many steps as its rank, plus two for each
  spurious wake-up; and when no step is left, the call has returned, every worker has returned, and every
  task that was ever enqueued has been finished exactly once.
\<close>

theorem pool_join_completes:
  assumes "run pool_step (ThreadPool n) es p" "0 < n" "stop p" "run closing_step p ks q"
  shows "length ks \<le> pool_rank p + 2 * count_if is_woken ks \<and>
    ((\<forall>e u. closing_step q e u \<longrightarrow> is_woken e) \<longrightarrow>
      joining q = Not_joining \<and> set (workers q) = {Returned} \<and> mset (finished (es @ ks)) = mset (enqueued (es @ ks)))"
proof -
  have i: "pool_inv p" "workers p \<noteq> []"
    using run_pool_inv[OF assms(1) ThreadPool_inv] assms(2) by (auto simp: ThreadPool_def)
  have b: "length ks \<le> pool_rank p + 2 * count_if is_woken ks"
    using joins.run_rank[OF assms(4)] i assms(3) by (simp add: closing_def)
  have q: "joining q = Not_joining \<and> set (workers q) = {Returned} \<and> tasks q = [] \<and> busy (workers q) = {#}"
    if "\<forall>e u. closing_step q e u \<longrightarrow> is_woken e" using joined_run[OF assms(4) i(1) assms(3) that i(2)] .
  have "run pool_step (ThreadPool n) (es @ ks) q"
    using run_append[OF run_mono[OF assms(4)] assms(1)] by (simp add: closing_step_def)
  from run_logs[OF this] have "enqueued (es @ ks) = taken (es @ ks) @ tasks q"
    "mset (taken (es @ ks)) = busy (workers q) + mset (finished (es @ ks))" by (simp_all add: ThreadPool_def)
  then show ?thesis using b q by (simp del: log_simps)
qed

text \<open>
  After \<open>join\<close> has been called, \<open>enqueue\<close> throws \<open>runtime_error("enqueue on stopped ThreadPool")\<close> whatever happens in the pool; before,
  it always succeeds.
\<close>

lemma enqueue_stopped:
  assumes "run pool_step (ThreadPool n) es p"
  shows "enqueue a p = (if Join_called \<in> set es then Inl (Runtime_error ''enqueue on stopped ThreadPool'')
    else Inr (p\<lparr>tasks := tasks p @ [a], notifying := notifying p + 1\<rparr>))"
proof -
  have "stop u = (stop t \<or> e = Join_called)" if "pool_step t e u" for t u :: "'a pool" and e
    using that by (induction rule: pool_step.induct) (auto simp: pool_defs split: if_splits)
  note st = this
  have "stop p = (stop (ThreadPool n :: 'a pool) \<or> Join_called \<in> set es)"
    using assms by (induction rule: run.induct) (auto simp: st)
  then show ?thesis by (simp add: enqueue_def ThreadPool_def)
qed

section \<open>Witnesses\<close>

text \<open>A pool of one worker: a task is enqueued, \<open>join\<close> is called, the worker finishes the task and returns.\<close>

definition sample :: "nat worker \<Rightarrow> bool \<Rightarrow> nat list \<Rightarrow> nat \<Rightarrow> nat \<Rightarrow> join_pc \<Rightarrow> nat pool" where
  "sample w j ts m k pc = \<lparr>workers = [w], joinable = [j], tasks = ts, max_tasks_size = m, stop = (m = 1 \<or> pc \<noteq> Not_joining),
     notifying = k, joining = pc\<rparr>"

lemmas sample_defs = sample_def pool_defs wake_worker_def closing_step_def

lemma sample_run0: "run pool_step (ThreadPool 1) [Enqueued 5] (sample Ready True [5] 0 1 Not_joining)"
  by (rule run_step, rule pool_step.step_enqueue) (simp add: sample_defs)

lemma sample_run1: "run pool_step (ThreadPool 1) ([Enqueued 5] @ [Join_called]) (sample Ready True [5] 0 1 Stop_set)"
  using run_snoc[OF sample_run0 pool_step.step_join] by (simp add: sample_defs)

lemma sample_step:
  "closing_step (sample Ready True [5] 0 1 Stop_set) (Taken 0 5) (sample (Busy 5) True [] 1 1 Stop_set)"
  "closing_step (sample (Busy 5) True [] 1 1 Stop_set) (Finished 0 5) (sample Ready True [] 1 1 Stop_set)"
  "closing_step (sample Ready True [] 1 1 Stop_set) All_notified (sample Ready True [] 1 1 (Joining 0))"
  "closing_step (sample Ready True [] 1 1 (Joining 0)) (Exited 0) (sample Returned True [] 1 1 (Joining 0))"
  "closing_step (sample Returned True [] 1 1 (Joining 0)) (Joined 0) (sample Returned False [] 1 1 (Joining 1))"
  "closing_step (sample Returned False [] 1 1 (Joining 1)) Join_returned (sample Returned False [] 1 1 Not_joining)"
  "closing_step (sample Returned False [] 1 1 Not_joining) Notified (sample Returned False [] 1 0 Not_joining)"
  using pool_step.step_check[of 0 "sample Ready True [5] 0 1 Stop_set"]
    pool_step.step_finish[of 0 "sample (Busy 5) True [] 1 1 Stop_set" 5]
    pool_step.step_notify_all[of "sample Ready True [] 1 1 Stop_set"]
    pool_step.step_check[of 0 "sample Ready True [] 1 1 (Joining 0)"]
    pool_step.step_joined[of "sample Returned True [] 1 1 (Joining 0)" 0]
    pool_step.step_join_return[of "sample Returned False [] 1 1 (Joining 1)"]
    pool_step.step_notify_none[of "sample Returned False [] 1 1 Not_joining"]
  by (simp_all add: sample_defs)

lemma sample_run2:
  "run closing_step (sample Ready True [5] 0 1 Stop_set)
     ([Taken 0 5] @ [Finished 0 5] @ [All_notified] @ [Exited 0] @ [Joined 0] @ [Join_returned] @ [Notified])
     (sample Returned False [] 1 0 Not_joining)"
  by (rule run_append run_step[where step = closing_step] sample_step)+

lemma sample_stuck: "closing_step (sample Returned False [] 1 0 Not_joining) e u \<Longrightarrow> is_woken e"
  by (auto simp: sample_def closing_step_def enqueue_def elim: pool_step.cases)

theorem pool_fifo_exactly_once_witness:
  "enqueued [Enqueued (5::nat)] = [5] \<and> taken [Enqueued (5::nat)] @ tasks (sample Ready True [5] 0 1 Not_joining) = [5]"
  using pool_fifo_exactly_once[OF sample_run0] by simp

theorem pool_no_lost_wakeup_witness:
  "tasks (sample Ready True [5] 0 1 Not_joining) \<noteq> [] \<and> (notifying (sample Ready True [5] 0 1 Not_joining) > 0 \<or>
     (\<exists>i a q. pool_step (sample Ready True [5] 0 1 Not_joining) (Taken i a) q) \<or>
     (\<exists>i a q. pool_step (sample Ready True [5] 0 1 Not_joining) (Finished i a) q))"
proof -
  have "tasks (sample Ready True [5] 0 1 Not_joining) \<noteq> []" by (simp add: sample_def)
  with pool_no_lost_wakeup[OF sample_run0 _ this] show ?thesis by simp
qed

theorem pool_join_completes_witness:
  "set (workers (sample Returned False [] 1 0 Not_joining)) = {Returned} \<and>
   mset (finished ([Enqueued 5] @ [Join_called] @ [Taken 0 5] @ [Finished 0 5] @ [All_notified] @ [Exited 0] @ [Joined 0] @
     [Join_returned] @ [Notified])) = {#5::nat#}"
proof -
  have "stop (sample Ready True [5] 0 1 Stop_set)" by (simp add: sample_def)
  from pool_join_completes[OF sample_run1 _ this sample_run2] sample_stuck show ?thesis by (simp add: enqueued_def List.map_filter_def)
qed

end
