(* ===== verification/Pipeline.thy ===== *)
theory Pipeline
  imports ThreadPool
begin

text \<open>
  The way the parallel searches of \<open>src/src/fides/sophos_server.cpp\<close> put threads and pools together: threads that only produce jobs for a first
  pool, pools whose jobs may enqueue a job in the next pool, and a result list (or callback) at the end; the calling thread joins the
  producers and then the pools in a given order, and the destructors join every pool again when the function ends. A job is a value; what
  its body hands on is the function \<open>next\<close> of the stage and the job. The body of a job and the return of its task are one step:
  all a body does to shared data is one call under a lock. An exception of \<open>enqueue\<close> is recorded as a failure.

  \<open>returned\<close> is the result list at the return statement; \<open>results\<close> goes on until all destructors have run, as it does when
  the compiler constructs the list in place.
\<close>

datatype main_op = Join nat | Return

record 'j system =
  producers :: "'j list list"
  pools :: "'j pool list"
  results :: "'j list"
  main_ops :: "main_op list"
  active :: "nat option"
  returned :: "'j list option"
  failure :: "exn option"

datatype 'j sys_event = Produced nat | Pool_event nat "'j event" | Main_return

definition deliver :: "nat \<Rightarrow> 'j \<Rightarrow> 'j system \<Rightarrow> 'j system" where
  "deliver k j s =
     (if k < length (pools s)
      then case enqueue j (pools s ! k) of
             Inl e \<Rightarrow> s\<lparr>failure := Some e\<rparr>
           | Inr p \<Rightarrow> s\<lparr>pools := (pools s)[k := p]\<rparr>
      else s\<lparr>results := results s @ [j]\<rparr>)"

definition hand_on :: "(nat \<Rightarrow> 'j \<Rightarrow> 'j option) \<Rightarrow> nat \<Rightarrow> 'j \<Rightarrow> 'j system \<Rightarrow> 'j system" where
  "hand_on next k j s = (case next k j of None \<Rightarrow> s | Some j' \<Rightarrow> deliver (k + 1) j' s)"

definition set_pool :: "nat \<Rightarrow> 'j pool \<Rightarrow> 'j system \<Rightarrow> 'j system" where
  "set_pool k p s = s\<lparr>pools := (pools s)[k := p]\<rparr>"

text \<open>The events of a pool by the thread that makes them.\<close>

fun internal :: "'j event \<Rightarrow> bool" where
  "internal Notified = True"
| "internal (Taken i a) = True"
| "internal (Slept i) = True"
| "internal (Exited i) = True"
| "internal (Woken i) = True"
| "internal _ = False"

fun join_event :: "'j event \<Rightarrow> bool" where
  "join_event All_notified = True"
| "join_event (Joined i) = True"
| "join_event _ = False"

inductive sys_step :: "(nat \<Rightarrow> 'j \<Rightarrow> 'j option) \<Rightarrow> 'j system \<Rightarrow> 'j sys_event \<Rightarrow> 'j system \<Rightarrow> bool" for "next" where
  produce: "t < length (producers s) \<Longrightarrow> producers s ! t = j # js \<Longrightarrow>
    sys_step next s (Produced t) (deliver 0 j (s\<lparr>producers := (producers s)[t := js]\<rparr>))"
| pool_internal: "k < length (pools s) \<Longrightarrow> pool_step (pools s ! k) e p \<Longrightarrow> internal e \<Longrightarrow>
    sys_step next s (Pool_event k e) (set_pool k p s)"
| pool_finish: "k < length (pools s) \<Longrightarrow> pool_step (pools s ! k) (Finished i j) p \<Longrightarrow>
    sys_step next s (Pool_event k (Finished i j)) (hand_on next k j (set_pool k p s))"
| main_call: "(\<forall>xs\<in>set (producers s). xs = []) \<Longrightarrow> active s = None \<Longrightarrow> main_ops s = Join k # ops \<Longrightarrow> k < length (pools s) \<Longrightarrow>
    pool_step (pools s ! k) Join_called p \<Longrightarrow>
    sys_step next s (Pool_event k Join_called) (set_pool k p (s\<lparr>active := Some k, main_ops := ops\<rparr>))"
| main_join: "active s = Some k \<Longrightarrow> k < length (pools s) \<Longrightarrow> pool_step (pools s ! k) e p \<Longrightarrow> join_event e \<Longrightarrow>
    sys_step next s (Pool_event k e) (set_pool k p s)"
| main_joined: "active s = Some k \<Longrightarrow> k < length (pools s) \<Longrightarrow> pool_step (pools s ! k) Join_returned p \<Longrightarrow>
    sys_step next s (Pool_event k Join_returned) (set_pool k p (s\<lparr>active := None\<rparr>))"
| main_return: "(\<forall>xs\<in>set (producers s). xs = []) \<Longrightarrow> active s = None \<Longrightarrow> main_ops s = Return # ops \<Longrightarrow>
    sys_step next s Main_return (s\<lparr>main_ops := ops, returned := Some (results s)\<rparr>)"

definition launch :: "'j list list \<Rightarrow> nat list \<Rightarrow> main_op list \<Rightarrow> 'j system" where
  "launch ps sizes ops =
     \<lparr>producers = ps, pools = map ThreadPool sizes, results = [], main_ops = ops, active = None, returned = None, failure = None\<rparr>"

section \<open>What a job contributes\<close>

fun flow :: "(nat \<Rightarrow> 'j \<Rightarrow> 'j option) \<Rightarrow> nat \<Rightarrow> nat \<Rightarrow> 'j \<Rightarrow> 'j multiset" where
  "flow next 0 k j = {#j#}"
| "flow next (Suc d) k j = (case next k j of None \<Rightarrow> {#} | Some j' \<Rightarrow> flow next d (k + 1) j')"

fun dcost :: "(nat \<Rightarrow> 'j \<Rightarrow> 'j option) \<Rightarrow> nat \<Rightarrow> nat \<Rightarrow> 'j \<Rightarrow> nat" where
  "dcost next 0 k j = 0"
| "dcost next (Suc d) k j = 4 + (case next k j of None \<Rightarrow> 0 | Some j' \<Rightarrow> dcost next d (k + 1) j')"

definition extra :: "(nat \<Rightarrow> 'j \<Rightarrow> 'j option) \<Rightarrow> nat \<Rightarrow> nat \<Rightarrow> 'j \<Rightarrow> nat" where
  "extra next d k j = dcost next d k j - 4"

definition flight :: "'j pool \<Rightarrow> 'j multiset" where
  "flight p = mset (tasks p) + busy (workers p)"

lemma step_flight: "pool_step p e q \<Longrightarrow> flight p + mset (enqueued [e]) = flight q + mset (finished [e])"
proof -
  assume s: "pool_step p e q"
  have "mset (tasks p) + mset (enqueued [e]) = mset (taken [e]) + mset (tasks q)"
    using arg_cong[OF step_queue[OF s], of mset] by simp
  moreover have "busy (workers p) + mset (taken [e]) = busy (workers q) + mset (finished [e])" using step_busy[OF s] .
  ultimately show ?thesis unfolding flight_def by (metis add.assoc add.commute)
qed

lemma sum_nth_upd:
  fixes f :: "nat \<Rightarrow> 'a \<Rightarrow> 'b :: comm_monoid_add"
  assumes "k < length xs"
  shows "(\<Sum>i<length xs. f i (xs[k := x] ! i)) + f k (xs ! k) = (\<Sum>i<length xs. f i (xs ! i)) + f k x"
proof -
  have k: "finite {..<length xs}" "k \<in> {..<length xs}" using assms by auto
  have "(\<Sum>i\<in>{..<length xs} - {k}. f i (xs[k := x] ! i)) = (\<Sum>i\<in>{..<length xs} - {k}. f i (xs ! i))"
    by (rule sum.cong) auto
  then show ?thesis using sum.remove[OF k, of "\<lambda>i. f i (xs[k := x] ! i)"] sum.remove[OF k, of "\<lambda>i. f i (xs ! i)"] assms
    by (simp add: ac_simps)
qed

text \<open>The sum of a weight of the jobs over the producers, the pools and the results.\<close>

definition weigh :: "(nat \<Rightarrow> 'j \<Rightarrow> 'b :: comm_monoid_add) \<Rightarrow> 'j system \<Rightarrow> 'b" where
  "weigh f s = (\<Sum>k<length (pools s). \<Sum>j\<in>#flight (pools s ! k). f k j)"

lemma weigh_set_pool:
  "k < length (pools s) \<Longrightarrow>
   weigh f (set_pool k p s) + (\<Sum>j\<in>#flight (pools s ! k). f k j) = weigh f s + (\<Sum>j\<in>#flight p. f k j)"
  using sum_nth_upd[of k "pools s" "\<lambda>k p. \<Sum>j\<in>#flight p. f k j" p] by (simp add: weigh_def set_pool_def)

lemma exchange:
  fixes v w :: "'b :: cancel_comm_monoid_add"
  assumes "v + x = w + y" "x + a = y + b"
  shows "w + a = v + b"
proof -
  have "x + (w + a) = w + (x + a)" by (simp only: ac_simps)
  also have "\<dots> = (w + y) + b" by (simp only: assms(2) add.assoc)
  also have "\<dots> = (v + x) + b" by (simp only: assms(1))
  also have "\<dots> = x + (v + b)" by (simp only: ac_simps)
  finally show ?thesis by (rule add_left_imp_eq)
qed

lemma weigh_step:
  fixes f :: "nat \<Rightarrow> 'j \<Rightarrow> 'b :: cancel_comm_monoid_add"
  assumes "k < length (pools s)" "pool_step (pools s ! k) e p"
  shows "weigh f s + (\<Sum>j\<in>#mset (enqueued [e]). f k j) = weigh f (set_pool k p s) + (\<Sum>j\<in>#mset (finished [e]). f k j)"
proof -
  let ?F = "\<lambda>M. \<Sum>j\<in>#M. f k j"
  have "?F (flight (pools s ! k)) + ?F (mset (enqueued [e])) = ?F (flight p) + ?F (mset (finished [e]))"
    using step_flight[OF assms(2)] by (metis image_mset_union sum_mset.union)
  with weigh_set_pool[OF assms(1)] show ?thesis by (rule exchange)
qed

lemma weigh_update [simp]:
  "weigh f (s\<lparr>producers := a\<rparr>) = weigh f s" "weigh f (s\<lparr>results := b\<rparr>) = weigh f s" "weigh f (s\<lparr>main_ops := c\<rparr>) = weigh f s"
  "weigh f (s\<lparr>active := d\<rparr>) = weigh f s" "weigh f (s\<lparr>returned := g\<rparr>) = weigh f s"
  by (simp_all add: weigh_def)

text \<open>Whether a job can be delivered to a stage.\<close>

definition open_stage :: "nat \<Rightarrow> 'j system \<Rightarrow> bool" where
  "open_stage k s \<longleftrightarrow> (k < length (pools s) \<longrightarrow> \<not> stop (pools s ! k))"

lemma deliver_open:
  assumes "open_stage k s"
  obtains p where "k < length (pools s)" "pool_step (pools s ! k) (Enqueued j) p" "deliver k j s = set_pool k p s"
  | "k \<ge> length (pools s)" "deliver k j s = s\<lparr>results := results s @ [j]\<rparr>"
proof (cases "k < length (pools s)")
  case True
  then have "\<not> stop (pools s ! k)" using assms by (simp add: open_stage_def)
  then obtain p where p: "enqueue j (pools s ! k) = Inr p" by (simp add: enqueue_def)
  then have "deliver k j s = set_pool k p s" using True by (simp add: deliver_def set_pool_def)
  then show ?thesis using that(1)[OF True pool_step.step_enqueue[OF p]] by blast
next
  case False
  then show ?thesis using that(2) by (simp add: deliver_def)
qed

lemma weigh_deliver:
  fixes f :: "nat \<Rightarrow> 'j \<Rightarrow> 'b :: cancel_comm_monoid_add"
  assumes "open_stage k s"
  shows "weigh f (deliver k j s) = weigh f s + (if k < length (pools s) then f k j else 0)"
  using assms
proof (cases rule: deliver_open[of k s j])
  case (1 p)
  then show ?thesis using weigh_step[OF 1(1,2), of f] by simp
qed simp

section \<open>Conservation\<close>

definition content :: "(nat \<Rightarrow> 'j \<Rightarrow> 'j option) \<Rightarrow> 'j system \<Rightarrow> 'j multiset" where
  "content next s =
     (\<Sum>xs\<leftarrow>producers s. \<Sum>j\<leftarrow>xs. flow next (length (pools s)) 0 j) + weigh (\<lambda>k. flow next (length (pools s) - k) k) s + mset (results s)"

lemma deliver_simps [simp]:
  "length (pools (deliver k j s)) = length (pools s)" "producers (deliver k j s) = producers s"
  "main_ops (deliver k j s) = main_ops s" "active (deliver k j s) = active s" "returned (deliver k j s) = returned s"
  by (simp_all add: deliver_def split: sum.splits)

lemma set_pool_simps [simp]:
  "length (pools (set_pool k p s)) = length (pools s)" "producers (set_pool k p s) = producers s"
  "main_ops (set_pool k p s) = main_ops s" "active (set_pool k p s) = active s" "returned (set_pool k p s) = returned s"
  "results (set_pool k p s) = results s" "failure (set_pool k p s) = failure s"
  by (simp_all add: set_pool_def)

lemma hand_on_simps [simp]:
  "length (pools (hand_on next k j s)) = length (pools s)" "producers (hand_on next k j s) = producers s"
  "main_ops (hand_on next k j s) = main_ops s" "active (hand_on next k j s) = active s"
  "returned (hand_on next k j s) = returned s"
  by (simp_all add: hand_on_def split: option.splits)

lemma content_deliver:
  assumes "open_stage k s"
  shows "content next (deliver k j s) = content next s + flow next (length (pools s) - k) k j"
  using assms
proof (cases rule: deliver_open[of k s j])
  case (1 p)
  then show ?thesis using weigh_deliver[OF assms, of "\<lambda>k. flow next (length (pools s) - k) k" j]
    by (simp add: content_def)
next
  case 2
  then show ?thesis by (simp add: content_def)
qed

lemma content_hand_on:
  assumes "open_stage (k + 1) s" "k < length (pools s)"
  shows "content next (hand_on next k j s) = content next s + flow next (length (pools s) - k) k j"
proof -
  have "length (pools s) - k = Suc (length (pools s) - (k + 1))" using assms(2) by simp
  then show ?thesis using content_deliver[OF assms(1)] by (simp add: hand_on_def split: option.splits)
qed

lemma content_set_pool:
  assumes "k < length (pools s)" "pool_step (pools s ! k) e p"
  shows "content next s + (\<Sum>j\<in>#mset (enqueued [e]). flow next (length (pools s) - k) k j) =
    content next (set_pool k p s) + (\<Sum>j\<in>#mset (finished [e]). flow next (length (pools s) - k) k j)"
  using weigh_step[OF assms, of "\<lambda>k. flow next (length (pools s) - k) k"]
  by (simp add: content_def ac_simps)

section \<open>Invariant\<close>

definition drained :: "'j pool \<Rightarrow> bool" where
  "drained p \<longleftrightarrow> stop p \<and> flight p = {#}"

text \<open>
  The order of the joins: a pool is joined only after the pools before it, and in the end all are. When the flag is set, all are
  joined before the return statement.
\<close>

fun main_ok :: "bool \<Rightarrow> nat \<Rightarrow> nat set \<Rightarrow> main_op list \<Rightarrow> bool" where
  "main_ok b n D [] = ({..<n} \<subseteq> D)"
| "main_ok b n D (Return # ops) = ((b \<longrightarrow> {..<n} \<subseteq> D) \<and> main_ok b n D ops)"
| "main_ok b n D (Join k # ops) = (k < n \<and> {..<k} \<subseteq> D \<and> main_ok b n (insert k D) ops)"

lemma main_ok_mono: "main_ok b n D ops \<Longrightarrow> D \<subseteq> E \<Longrightarrow> main_ok b n E ops"
proof (induction b n D ops arbitrary: E rule: main_ok.induct)
  case (3 b n D k ops)
  have "main_ok b n (insert k E) ops" by (rule 3(1)) (use 3 in auto)
  then show ?case using 3 by auto
qed auto

definition joined_set :: "'j system \<Rightarrow> nat set" where
  "joined_set s = {k. k < length (pools s) \<and> drained (pools s ! k)} \<union> set_option (active s)"

definition pools_inv :: "'j system \<Rightarrow> bool" where
  "pools_inv s \<longleftrightarrow> (\<forall>k<length (pools s). pool_inv (pools s ! k) \<and> workers (pools s ! k) \<noteq> [] \<and>
     (stop (pools s ! k) \<longrightarrow> (\<forall>xs\<in>set (producers s). xs = []) \<and> (\<forall>i<k. drained (pools s ! i))) \<and>
     (joining (pools s ! k) \<noteq> Not_joining \<longleftrightarrow> active s = Some k))"

definition sys_inv :: "bool \<Rightarrow> 'j system \<Rightarrow> bool" where
  "sys_inv b s \<longleftrightarrow> failure s = None \<and> pools_inv s \<and> (\<forall>k. active s = Some k \<longrightarrow> k < length (pools s)) \<and>
     main_ok b (length (pools s)) (joined_set s) (main_ops s)"

lemma step_drained: "pool_step p e q \<Longrightarrow> drained p \<Longrightarrow> drained q"
  using step_flight[of p e q] step_stop[of p e q] by (auto simp: drained_def)

lemma step_joining:
  "pool_step p e q \<Longrightarrow> e \<noteq> Join_called \<Longrightarrow> e \<noteq> Join_returned \<Longrightarrow> joining q = Not_joining \<longleftrightarrow> joining p = Not_joining"
  by (induction rule: pool_step.induct) (auto simp: pool_defs split: if_splits)

lemma step_same_stop: "pool_step p e q \<Longrightarrow> e \<noteq> Join_called \<Longrightarrow> stop q = stop p"
  by (induction rule: pool_step.induct) (auto simp: pool_defs split: if_splits)

lemma drained_joined:
  assumes "pool_inv q" "stop q" "joining q = Not_joining" "workers q \<noteq> []"
  shows "drained q"
proof -
  have r: "\<forall>w\<in>set (workers q). w = Returned"
    using assms by (auto simp: pool_inv_def join_inv_def in_set_conv_nth)
  then have "tasks q = []" using assms by (cases "workers q") (auto simp: pool_inv_def wakeup_inv_def)
  moreover have "busy ws = {#}" if "\<forall>w\<in>set ws. w = Returned" for ws :: "'a worker list"
    using that by (induction ws) (simp_all add: busy_def)
  ultimately show ?thesis using r assms(2) by (simp add: drained_def flight_def)
qed

lemma drained_set_pool:
  assumes "pool_step (pools s ! k) e p" "drained (pools s ! i)"
  shows "drained (pools (set_pool k p s) ! i)"
  using assms step_drained[OF assms(1)] by (cases "i = k"; cases "k < length (pools s)") (auto simp: set_pool_def list_update_beyond)

lemma inv_set_pool:
  assumes inv: "sys_inv b s" and k: "k < length (pools s)" and st: "pool_step (pools s ! k) e p"
    and e: "e \<noteq> Join_called" "e \<noteq> Join_returned"
  shows "sys_inv b (set_pool k p s)"
proof -
  note d = drained_set_pool[OF st]
  have P: "pools_inv s" using inv by (simp add: sys_inv_def)
  have pk: "pool_inv p" "workers p \<noteq> []" "stop p = stop (pools s ! k)" "joining p = Not_joining \<longleftrightarrow> joining (pools s ! k) = Not_joining"
    using P k step_pool_inv[OF st] step_length[OF st] step_same_stop[OF st e(1)] step_joining[OF st e]
    by (auto simp: pools_inv_def)
  have "pools_inv (set_pool k p s)"
    unfolding pools_inv_def
  proof (intro allI impI)
    fix i assume i: "i < length (pools (set_pool k p s))"
    have pi: "pools (set_pool k p s) ! i = (if i = k then p else pools s ! i)" using i k by (simp add: set_pool_def)
    have old: "pool_inv (pools s ! i) \<and> workers (pools s ! i) \<noteq> [] \<and>
      (stop (pools s ! i) \<longrightarrow> (\<forall>xs\<in>set (producers s). xs = []) \<and> (\<forall>j<i. drained (pools s ! j))) \<and>
      (joining (pools s ! i) \<noteq> Not_joining \<longleftrightarrow> active s = Some i)" using P i by (simp add: pools_inv_def)
    have dr: "stop (pools s ! i) \<longrightarrow> (\<forall>j<i. drained (pools (set_pool k p s) ! j))" using old d by blast
    show "pool_inv (pools (set_pool k p s) ! i) \<and> workers (pools (set_pool k p s) ! i) \<noteq> [] \<and>
      (stop (pools (set_pool k p s) ! i) \<longrightarrow> (\<forall>xs\<in>set (producers (set_pool k p s)). xs = []) \<and>
        (\<forall>j<i. drained (pools (set_pool k p s) ! j))) \<and>
      (joining (pools (set_pool k p s) ! i) \<noteq> Not_joining \<longleftrightarrow> active (set_pool k p s) = Some i)"
    proof (cases "i = k")
      case True
      then show ?thesis using old dr pk pi by simp
    next
      case False
      then show ?thesis using old dr pi by simp
    qed
  qed
  moreover have "joined_set s \<subseteq> joined_set (set_pool k p s)" using d by (auto simp: joined_set_def)
  ultimately show ?thesis using inv main_ok_mono by (auto simp: sys_inv_def)
qed

inductive_cases join_called_step: "pool_step p Join_called q"

inductive_cases join_returned_step: "pool_step p Join_returned q"

lemma step_called: "pool_step p Join_called q \<Longrightarrow> q = join_stop p \<and> joining p = Not_joining"
  by (erule join_called_step) (auto simp: worker_check_def split: if_splits)

lemma step_returned: "pool_step p Join_returned q \<Longrightarrow> q = join_return p \<and> joining p = Joining (length (workers p))"
  by (erule join_returned_step) (auto simp: worker_check_def split: if_splits)

lemma inv_call:
  assumes inv: "sys_inv b s" and k: "k < length (pools s)" and st: "pool_step (pools s ! k) Join_called p"
    and m: "active s = None" "main_ops s = Join k # ops" "\<forall>xs\<in>set (producers s). xs = []"
  shows "sys_inv b (set_pool k p (s\<lparr>active := Some k, main_ops := ops\<rparr>))"
proof -
  let ?t = "set_pool k p (s\<lparr>active := Some k, main_ops := ops\<rparr>)"
  have d: "drained (pools ?t ! i)" if "drained (pools s ! i)" for i
    using drained_set_pool[of "s\<lparr>active := Some k, main_ops := ops\<rparr>" k Join_called p i] st that by simp
  have P: "pools_inv s" and M: "main_ok b (length (pools s)) (joined_set s) (Join k # ops)"
    using inv m by (simp_all add: sys_inv_def)
  have pk: "pool_inv p" "workers p \<noteq> []" "joining p \<noteq> Not_joining"
    using P k step_pool_inv[OF st] step_called[OF st] by (auto simp: pools_inv_def join_stop_def)
  have before: "\<forall>i<k. drained (pools s ! i)" using M m(1) by (auto simp: joined_set_def)
  have pi: "pools ?t ! i = (if i = k then p else pools s ! i)" if "i < length (pools s)" for i
    using that k by (simp add: set_pool_def)
  have "pools_inv ?t"
    unfolding pools_inv_def
  proof (intro allI impI)
    fix i assume "i < length (pools ?t)"
    then have i: "i < length (pools s)" by simp
    show "pool_inv (pools ?t ! i) \<and> workers (pools ?t ! i) \<noteq> [] \<and>
      (stop (pools ?t ! i) \<longrightarrow> (\<forall>xs\<in>set (producers ?t). xs = []) \<and> (\<forall>j<i. drained (pools ?t ! j))) \<and>
      (joining (pools ?t ! i) \<noteq> Not_joining \<longleftrightarrow> active ?t = Some i)"
    proof (cases "i = k")
      case True
      then show ?thesis using pi[OF i] pk before d m(3) by simp
    next
      case False
      then show ?thesis using pi[OF i] P i d m(1,3) by (auto simp: pools_inv_def)
    qed
  qed
  moreover have "insert k (joined_set s) \<subseteq> joined_set ?t" using d m(1) by (auto simp: joined_set_def)
  ultimately show ?thesis using inv M k main_ok_mono[of _ _ "insert k (joined_set s)"] by (auto simp: sys_inv_def)
qed

lemma returned_drained:
  assumes "sys_inv b s" "k < length (pools s)" "pool_step (pools s ! k) Join_returned p" "active s = Some k"
  shows "drained p \<and> joining p = Not_joining"
proof -
  have P: "pools_inv s" using assms(1) by (simp add: sys_inv_def)
  have "stop (pools s ! k)" using P assms(2,4) by (auto simp: pools_inv_def pool_inv_def join_inv_def)
  moreover have "joining p = Not_joining" using step_returned[OF assms(3)] by (simp add: join_return_def)
  moreover have "pool_inv p" "workers p \<noteq> []"
    using P assms(2) step_pool_inv[OF assms(3)] step_returned[OF assms(3)] by (auto simp: pools_inv_def join_return_def)
  ultimately show ?thesis using drained_joined step_same_stop[OF assms(3)] by simp
qed

lemma inv_joined:
  assumes inv: "sys_inv b s" and k: "k < length (pools s)" and st: "pool_step (pools s ! k) Join_returned p"
    and a: "active s = Some k"
  shows "sys_inv b (set_pool k p (s\<lparr>active := None\<rparr>))"
proof -
  let ?t = "set_pool k p (s\<lparr>active := None\<rparr>)"
  have d: "drained (pools ?t ! i)" if "drained (pools s ! i)" for i
    using drained_set_pool[of "s\<lparr>active := None\<rparr>" k Join_returned p i] st that by simp
  have P: "pools_inv s" using inv by (simp add: sys_inv_def)
  have sk: "stop (pools s ! k)" using P k a by (auto simp: pools_inv_def pool_inv_def join_inv_def)
  have dp: "drained p" and j: "joining p = Not_joining" using returned_drained[OF inv k st a] by simp_all
  have pk: "pool_inv p" "workers p \<noteq> []"
    using P k step_pool_inv[OF st] step_returned[OF st] by (auto simp: pools_inv_def join_return_def)
  have pi: "pools ?t ! i = (if i = k then p else pools s ! i)" if "i < length (pools s)" for i
    using that k by (simp add: set_pool_def)
  have "pools_inv ?t"
    unfolding pools_inv_def
  proof (intro allI impI)
    fix i assume "i < length (pools ?t)"
    then have i: "i < length (pools s)" by simp
    show "pool_inv (pools ?t ! i) \<and> workers (pools ?t ! i) \<noteq> [] \<and>
      (stop (pools ?t ! i) \<longrightarrow> (\<forall>xs\<in>set (producers ?t). xs = []) \<and> (\<forall>j<i. drained (pools ?t ! j))) \<and>
      (joining (pools ?t ! i) \<noteq> Not_joining \<longleftrightarrow> active ?t = Some i)"
    proof (cases "i = k")
      case True
      then show ?thesis using sk pi[OF i] pk j d P k by (auto simp: pools_inv_def)
    next
      case False
      then show ?thesis using pi[OF i] P i d a by (auto simp: pools_inv_def)
    qed
  qed
  moreover have "joined_set s \<subseteq> joined_set ?t" using d dp k a pi[OF k] by (auto simp: joined_set_def)
  ultimately show ?thesis using inv main_ok_mono by (auto simp: sys_inv_def)
qed

lemma inv_updates:
  "sys_inv b (s\<lparr>results := r\<rparr>) = sys_inv b s"
  by (simp add: sys_inv_def pools_inv_def joined_set_def)

lemma inv_deliver: "sys_inv b s \<Longrightarrow> open_stage k s \<Longrightarrow> sys_inv b (deliver k j s)"
  by (erule deliver_open[of k s j]) (auto simp: inv_updates intro: inv_set_pool)

lemma inv_hand_on: "sys_inv b s \<Longrightarrow> open_stage (k + 1) s \<Longrightarrow> sys_inv b (hand_on next k j s)"
  by (simp add: hand_on_def inv_deliver split: option.splits)

lemma finish_open:
  assumes "sys_inv b s" "k < length (pools s)" "pool_step (pools s ! k) (Finished i j) p"
  shows "open_stage (k + 1) (set_pool k p s)"
proof -
  have "flight (pools s ! k) \<noteq> {#}" using step_flight[OF assms(3)] by auto
  then have "\<not> drained (pools s ! k)" by (simp add: drained_def)
  then have "\<not> stop (pools s ! (k + 1))" if "k + 1 < length (pools s)" using assms(1) that by (auto simp: sys_inv_def pools_inv_def)
  then show ?thesis by (simp add: open_stage_def set_pool_def)
qed

lemma producing:
  assumes "sys_inv b s" "t < length (producers s)" "producers s ! t = j # js"
  shows "sys_inv b (s\<lparr>producers := (producers s)[t := js]\<rparr>)" "open_stage 0 (s\<lparr>producers := (producers s)[t := js]\<rparr>)"
proof -
  have "producers s ! t \<in> set (producers s)" "producers s ! t \<noteq> []" using assms(2,3) nth_mem[OF assms(2)] by simp_all
  then have "\<not> stop (pools s ! k)" if "k < length (pools s)" for k using assms(1) that by (auto simp: sys_inv_def pools_inv_def)
  then show "sys_inv b (s\<lparr>producers := (producers s)[t := js]\<rparr>)" "open_stage 0 (s\<lparr>producers := (producers s)[t := js]\<rparr>)"
    using assms(1) by (auto simp: sys_inv_def pools_inv_def joined_set_def open_stage_def)
qed

lemma internal_events: "internal e \<Longrightarrow> e \<noteq> Join_called \<and> e \<noteq> Join_returned \<and> enqueued [e] = [] \<and> finished [e] = []"
  and join_events: "join_event e \<Longrightarrow> e \<noteq> Join_called \<and> e \<noteq> Join_returned \<and> enqueued [e] = [] \<and> finished [e] = []"
  by (cases e; simp)+

lemma sys_step_inv: "sys_step next s e t \<Longrightarrow> sys_inv b s \<Longrightarrow> sys_inv b t"
proof (induction rule: sys_step.induct)
  case (produce t s j js)
  then show ?case by (intro inv_deliver producing)
next
  case (pool_internal k s e p)
  then show ?case using internal_events[of e] by (intro inv_set_pool[of b s k e]) simp_all
next
  case (pool_finish k s i j p)
  then have "sys_inv b (set_pool k p s)" by (intro inv_set_pool[of b s k "Finished i j"]) simp_all
  then show ?case using finish_open[OF pool_finish(3,1,2)] by (intro inv_hand_on)
next
  case (main_call s k ops p)
  then show ?case by (intro inv_call)
next
  case (main_join s k e p)
  then show ?case using join_events[of e] by (intro inv_set_pool[of b s k e]) simp_all
next
  case (main_joined s k p)
  then show ?case by (intro inv_joined)
next
  case (main_return s ops)
  then show ?case by (simp add: sys_inv_def pools_inv_def joined_set_def)
qed

section \<open>Conservation along steps\<close>

lemma content_updates:
  "content next (s\<lparr>active := a\<rparr>) = content next s" "content next (s\<lparr>main_ops := m\<rparr>) = content next s"
  "content next (s\<lparr>returned := r\<rparr>) = content next s"
  by (simp_all add: content_def)

lemma content_producer:
  assumes "t < length (producers s)" "producers s ! t = j # js"
  shows "content next s = content next (s\<lparr>producers := (producers s)[t := js]\<rparr>) + flow next (length (pools s)) 0 j"
proof -
  let ?f = "\<lambda>xs. \<Sum>j\<leftarrow>xs. flow next (length (pools s)) 0 j"
  have "sum_list (map ?f ((producers s)[t := js])) + ?f (producers s ! t) = sum_list (map ?f (producers s)) + ?f js"
    using sum_list_upd[of t "map ?f (producers s)" "?f js"] assms(1) by (simp add: map_update)
  then have "sum_list (map ?f (producers s)) = sum_list (map ?f ((producers s)[t := js])) + flow next (length (pools s)) 0 j"
    using assms(2) by simp
  then show ?thesis by (simp add: content_def ac_simps)
qed

lemma content_quiet:
  "k < length (pools s) \<Longrightarrow> pool_step (pools s ! k) e p \<Longrightarrow> enqueued [e] = [] \<Longrightarrow> finished [e] = [] \<Longrightarrow>
   content next (set_pool k p s) = content next s"
  using content_set_pool[of k s e p "next"] by simp

lemma sys_step_content: "sys_step next s e t \<Longrightarrow> sys_inv b s \<Longrightarrow> content next t = content next s"
proof (induction rule: sys_step.induct)
  case (produce t s j js)
  then show ?case using producing(2)[of b s t j js] content_deliver[of 0 "s\<lparr>producers := (producers s)[t := js]\<rparr>" "next" j] content_producer[of t s j js "next"]
    by simp
next
  case (pool_internal k s e p)
  then show ?case using internal_events[of e] by (intro content_quiet[of k s e]) simp_all
next
  case (pool_finish k s i j p)
  then show ?case
    using content_set_pool[of k s "Finished i j" p "next"] finish_open[of b s k i j p] content_hand_on[of k "set_pool k p s" "next" j] by simp
next
  case (main_call s k ops p)
  then show ?case using content_quiet[of k "s\<lparr>active := Some k, main_ops := ops\<rparr>" Join_called p "next"] by (simp add: content_updates)
next
  case (main_join s k e p)
  then show ?case using join_events[of e] by (intro content_quiet[of k s e]) simp_all
next
  case (main_joined s k p)
  then show ?case using content_quiet[of k "s\<lparr>active := None\<rparr>" Join_returned p "next"] by (simp add: content_updates)
next
  case (main_return s ops)
  then show ?case by (simp add: content_def)
qed

section \<open>Rank\<close>

definition work :: "(nat \<Rightarrow> 'j \<Rightarrow> 'j option) \<Rightarrow> 'j system \<Rightarrow> nat" where
  "work next s = (\<Sum>k<length (pools s). pool_rank (pools s ! k)) + weigh (\<lambda>k. extra next (length (pools s) - k) k) s"

definition sizes :: "'j system \<Rightarrow> nat list" where
  "sizes s = map (\<lambda>p. length (workers p)) (pools s)"

fun op_rank :: "nat list \<Rightarrow> main_op \<Rightarrow> nat" where
  "op_rank ns (Join k) = 2 * ns ! k + 3"
| "op_rank ns Return = 1"

definition sys_rank :: "(nat \<Rightarrow> 'j \<Rightarrow> 'j option) \<Rightarrow> 'j system \<Rightarrow> nat" where
  "sys_rank next s =
     (\<Sum>xs\<leftarrow>producers s. \<Sum>j\<leftarrow>xs. dcost next (length (pools s)) 0 j + 1) + work next s + (\<Sum>op\<leftarrow>main_ops s. op_rank (sizes s) op)"

lemma sizes_set_pool: "k < length (pools s) \<Longrightarrow> pool_step (pools s ! k) e p \<Longrightarrow> sizes (set_pool k p s) = sizes s"
  using list_update_same_conv[of k "sizes s" "length (workers p)"] by (simp add: sizes_def set_pool_def map_update)

lemma work_step:
  assumes "k < length (pools s)" "pool_step (pools s ! k) e p" "sys_inv b s"
  shows "work next (set_pool k p s) + (\<Sum>j\<in>#mset (finished [e]). extra next (length (pools s) - k) k j) + (if raising e then 0 else 1)
    \<le> work next s + (\<Sum>j\<in>#mset (enqueued [e]). extra next (length (pools s) - k) k j) + event_rank (sizes s ! k) e"
proof -
  have "pool_inv (pools s ! k)" using assms by (simp add: sys_inv_def pools_inv_def)
  from step_rank[OF assms(2) this]
  have r: "pool_rank p + (if raising e then 0 else 1) \<le> pool_rank (pools s ! k) + event_rank (sizes s ! k) e"
    using assms(1) by (simp add: sizes_def)
  have "(\<Sum>i<length (pools s). pool_rank (pools (set_pool k p s) ! i)) + pool_rank (pools s ! k) =
    (\<Sum>i<length (pools s). pool_rank (pools s ! i)) + pool_rank p"
    using sum_nth_upd[OF assms(1), of "\<lambda>_. pool_rank" p] by (simp add: set_pool_def)
  with r weigh_step[OF assms(1,2), of "\<lambda>k. extra next (length (pools s) - k) k"]
  show ?thesis unfolding work_def by (simp only: set_pool_simps)
qed

lemma dcost_extra: "k < n \<Longrightarrow> dcost next (n - k) k j = 4 + extra next (n - k) k j"
  by (cases "n - k") (auto simp: extra_def)

lemma work_deliver:
  assumes "open_stage k s" "sys_inv b s"
  shows "work next (deliver k j s) \<le> work next s + dcost next (length (pools s) - k) k j \<and> sizes (deliver k j s) = sizes s"
  using assms(1)
proof (cases rule: deliver_open[of k s j])
  case (1 p)
  then show ?thesis using work_step[OF 1(1,2) assms(2), of "next"] dcost_extra[OF 1(1), of "next" j] sizes_set_pool[OF 1(1,2)] by simp
next
  case 2
  then show ?thesis by (simp add: work_def sizes_def)
qed

lemma work_hand_on:
  assumes "open_stage (k + 1) s" "sys_inv b s" "k < length (pools s)"
  shows "work next (hand_on next k j s) \<le> work next s + extra next (length (pools s) - k) k j \<and> sizes (hand_on next k j s) = sizes s"
proof -
  have "length (pools s) - k = Suc (length (pools s) - (k + 1))" using assms(3) by simp
  then show ?thesis using work_deliver[OF assms(1,2), of "next"] by (simp add: hand_on_def extra_def split: option.splits)
qed

lemma producers_rank:
  assumes "t < length ps" "ps ! t = j # js"
  shows "(\<Sum>xs\<leftarrow>ps. \<Sum>j\<leftarrow>xs. f j + 1) = (\<Sum>xs\<leftarrow>ps[t := js]. \<Sum>j\<leftarrow>xs. f j + 1) + f j + (1::nat)"
  using sum_list_upd[of t "map (\<lambda>xs. \<Sum>j\<leftarrow>xs. f j + 1) ps" "\<Sum>j\<leftarrow>js. f j + 1"] assms by (simp add: map_update)

definition sys_spurious :: "'j sys_event \<Rightarrow> bool" where
  "sys_spurious e \<longleftrightarrow> (case e of Pool_event k f \<Rightarrow> is_woken f | _ \<Rightarrow> False)"

lemma quiet_rank:
  assumes "k < length (pools s)" "pool_step (pools s ! k) e p" "sys_inv b s" "enqueued [e] = []" "finished [e] = []" "e \<noteq> Join_called"
  shows "if is_woken e then sys_rank next (set_pool k p s) \<le> sys_rank next s + 1 else sys_rank next (set_pool k p s) < sys_rank next s"
  using work_step[OF assms(1-3), of "next"] sizes_set_pool[OF assms(1,2)] assms(4-6) by (cases e) (auto simp: sys_rank_def)

lemma sys_step_rank:
  "sys_step next s e t \<Longrightarrow> sys_inv b s \<Longrightarrow>
   if sys_spurious e then sys_rank next t \<le> sys_rank next s + 1 else sys_rank next t < sys_rank next s"
proof (induction rule: sys_step.induct)
  case (produce t s j js)
  let ?u = "s\<lparr>producers := (producers s)[t := js]\<rparr>"
  have "work next (deliver 0 j ?u) \<le> work next ?u + dcost next (length (pools s)) 0 j" "sizes (deliver 0 j ?u) = sizes ?u"
    using work_deliver[OF producing(2,1)[OF produce(3,1,2)], of "next" j] by simp_all
  moreover have "work next ?u = work next s" "sizes ?u = sizes s" by (simp_all add: work_def sizes_def)
  ultimately show ?case using producers_rank[OF produce(1,2), of "dcost next (length (pools s)) 0"]
    by (simp add: sys_rank_def sys_spurious_def)
next
  case (pool_internal k s e p)
  then show ?case using quiet_rank[OF pool_internal(1,2,4), of "next"] internal_events[of e] by (simp add: sys_spurious_def)
next
  case (pool_finish k s i j p)
  have "sys_inv b (set_pool k p s)" using inv_set_pool[OF pool_finish(3,1,2)] by simp
  with work_hand_on[OF finish_open[OF pool_finish(3,1,2)] this, of "next" j] work_step[OF pool_finish(1,2,3), of "next"]
    sizes_set_pool[OF pool_finish(1,2)] pool_finish(1)
  show ?case by (simp add: sys_rank_def sys_spurious_def)
next
  case (main_call s k ops p)
  have "work next (set_pool k p s) \<le> work next s + 2 * (sizes s ! k) + 2"
    using work_step[OF main_call(4,5,6), of "next"] by simp
  moreover have "work next (set_pool k p (s\<lparr>active := Some k, main_ops := ops\<rparr>)) = work next (set_pool k p s)"
    by (simp add: work_def set_pool_def weigh_def)
  moreover have "sizes (set_pool k p (s\<lparr>active := Some k, main_ops := ops\<rparr>)) = sizes s"
    using sizes_set_pool[OF main_call(4,5)] by (simp add: sizes_def set_pool_def)
  ultimately show ?case using main_call(3) by (simp add: sys_rank_def sys_spurious_def)
next
  case (main_join s k e p)
  moreover have "\<not> is_woken e" using main_join(4) by (cases e) simp_all
  ultimately show ?case using quiet_rank[OF main_join(2,3,5), of "next"] join_events[of e] by (simp add: sys_spurious_def)
next
  case (main_joined s k p)
  have "sys_rank next (set_pool k p (s\<lparr>active := None\<rparr>)) = sys_rank next (set_pool k p s)"
    by (simp add: sys_rank_def work_def weigh_def sizes_def set_pool_def)
  then show ?case using quiet_rank[OF main_joined(2,3,4), of "next"] by (simp add: sys_spurious_def)
next
  case (main_return s ops)
  then show ?case by (simp add: sys_rank_def sys_spurious_def work_def sizes_def)
qed

section \<open>Outcome\<close>

definition sys_final :: "'j system \<Rightarrow> bool" where
  "sys_final s \<longleftrightarrow> (\<forall>xs\<in>set (producers s). xs = []) \<and> main_ops s = [] \<and> active s = None"

lemma active_progress:
  assumes inv: "sys_inv b s" and a: "active s = Some k"
  shows "\<exists>e t. sys_step next s e t \<and> \<not> sys_spurious e"
proof -
  have k: "k < length (pools s)" and P: "pools_inv s" using inv a by (auto simp: sys_inv_def)
  have pk: "pool_inv (pools s ! k)" "joining (pools s ! k) \<noteq> Not_joining" using P k a by (auto simp: pools_inv_def)
  then have stop: "stop (pools s ! k)" by (auto simp: pool_inv_def join_inv_def)
  obtain e p where e: "pool_step (pools s ! k) e p" "e \<noteq> Join_called" "\<not> is_woken e"
  proof (cases "joining (pools s ! k)")
    case Stop_set
    then show ?thesis using that[OF pool_step.step_notify_all] by simp
  next
    case (Joining i)
    then show ?thesis using joining_step[OF pk(1)] that by (auto simp: closing_step_def)
  qed (use pk in simp)
  have "enqueued_task e = None" using step_stop[OF e(1) stop] by simp
  then have "\<exists>t. sys_step next s (Pool_event k e) t"
    using k a e sys_step.pool_internal[OF k e(1)] sys_step.main_join[OF a k e(1)]
    by (cases e) (auto intro: sys_step.pool_finish sys_step.main_joined)
  then show ?thesis using e(3) by (auto simp: sys_spurious_def)
qed

lemma sys_progress:
  assumes inv: "sys_inv b s" and n: "\<not> sys_final s"
  shows "\<exists>e t. sys_step next s e t \<and> \<not> sys_spurious e"
proof (cases "\<forall>xs\<in>set (producers s). xs = []")
  case False
  then obtain t where t: "t < length (producers s)" "producers s ! t \<noteq> []" by (auto simp: in_set_conv_nth)
  then obtain j js where "producers s ! t = j # js" by (auto simp: neq_Nil_conv)
  from sys_step.produce[OF t(1) this, of "next"] show ?thesis by (auto simp: sys_spurious_def)
next
  case True
  show ?thesis
  proof (cases "active s")
    case (Some k)
    then show ?thesis using active_progress inv by blast
  next
    case None
    then obtain op ops where m: "main_ops s = op # ops" using n True by (cases "main_ops s") (auto simp: sys_final_def)
    show ?thesis
    proof (cases op)
      case (Join k)
      then have k: "k < length (pools s)" using inv m by (simp add: sys_inv_def)
      then have "joining (pools s ! k) = Not_joining" using inv None by (auto simp: sys_inv_def pools_inv_def)
      from sys_step.main_call[OF True None _ k pool_step.step_join[OF this], of ops "next"] m Join
      have "sys_step next s (Pool_event k Join_called)
        (set_pool k (join_stop (pools s ! k)) (s\<lparr>active := Some k, main_ops := ops\<rparr>))" by simp
      moreover have "\<not> sys_spurious (Pool_event k Join_called)" by (simp add: sys_spurious_def)
      ultimately show ?thesis by blast
    next
      case Return
      from sys_step.main_return[OF True None, of ops "next"] m Return show ?thesis by (auto simp: sys_spurious_def)
    qed
  qed
qed

interpretation pipeline: run_system "sys_step next" "sys_inv b" "sys_rank next" sys_spurious sys_final for "next" b
  by unfold_locales (blast intro: sys_step_inv, blast dest: sys_step_rank, blast intro: sys_progress)

lemma producers_done: "\<forall>xs\<in>set ps. xs = [] \<Longrightarrow> (\<Sum>xs\<leftarrow>ps. \<Sum>j\<leftarrow>xs. f j) = (0 :: 'b :: comm_monoid_add)"
  by (induction ps) simp_all

lemma content_done:
  assumes "\<forall>xs\<in>set (producers s). xs = []" "{..<length (pools s)} \<subseteq> {k. drained (pools s ! k)}"
  shows "content next s = mset (results s)"
proof -
  have "weigh f s = 0" for f :: "nat \<Rightarrow> 'a \<Rightarrow> 'a multiset"
    unfolding weigh_def by (rule sum.neutral) (use assms(2) in \<open>auto simp: drained_def\<close>)
  then show ?thesis using producers_done[OF assms(1)] by (simp add: content_def)
qed

text \<open>What is known of the list at the return statement.\<close>

definition returned_ok :: "bool \<Rightarrow> (nat \<Rightarrow> 'j \<Rightarrow> 'j option) \<Rightarrow> 'j system \<Rightarrow> bool" where
  "returned_ok b next s \<longleftrightarrow> (Return \<in> set (main_ops s) \<or> returned s \<noteq> None) \<and>
     (\<forall>r. returned s = Some r \<longrightarrow> mset r \<subseteq># content next s \<and> (b \<longrightarrow> mset r = content next s))"

lemma results_content: "mset (results s) \<subseteq># content next s"
  by (simp add: content_def)

lemma step_returned_ok:
  assumes "sys_step next s e t" "sys_inv b s" "returned_ok b next s"
  shows "returned_ok b next t"
  using assms
proof (cases rule: sys_step.cases)
  case (main_return ops)
  have c: "content next t = content next s" using sys_step_content assms by blast
  have "main_ok b (length (pools s)) (joined_set s) (Return # ops)" using assms(2) main_return by (simp add: sys_inv_def)
  then have "b \<Longrightarrow> {..<length (pools s)} \<subseteq> {k. drained (pools s ! k)}" using main_return by (auto simp: joined_set_def)
  then have "b \<Longrightarrow> content next s = mset (results s)" using content_done main_return by blast
  then show ?thesis using main_return c results_content[of s "next"] by (simp add: returned_ok_def)
qed (use sys_step_content[OF assms(1,2)] assms(3) in \<open>auto simp: returned_ok_def\<close>)

lemma ThreadPool_simps [simp]:
  "joining (ThreadPool n) = Not_joining" "\<not> stop (ThreadPool n)" "\<not> drained (ThreadPool n)" "flight (ThreadPool n) = {#}"
  "workers (ThreadPool n) = replicate n Ready" "pool_inv (ThreadPool n)"
  by (simp_all add: ThreadPool_inv drained_def flight_def) (simp_all add: ThreadPool_def)

lemma launch_inv:
  assumes "\<forall>n\<in>set ns. 0 < n" "main_ok b (length ns) {} ops"
  shows "sys_inv b (launch ps ns ops)"
proof -
  show ?thesis using assms main_ok_mono[of b "length ns" "{}" ops]
    by (auto simp: sys_inv_def pools_inv_def joined_set_def launch_def)
qed

definition outcome :: "(nat \<Rightarrow> 'j \<Rightarrow> 'j option) \<Rightarrow> nat \<Rightarrow> 'j list list \<Rightarrow> 'j multiset" where
  "outcome next n ps = (\<Sum>xs\<leftarrow>ps. \<Sum>j\<leftarrow>xs. flow next n 0 j)"

lemma launch_content: "content next (launch ps ns ops) = outcome next (length ns) ps"
proof -
  have "weigh f (launch ps ns ops) = 0" for f :: "nat \<Rightarrow> 'a \<Rightarrow> 'a multiset"
    unfolding weigh_def by (intro sum.neutral) (simp add: launch_def)
  then show ?thesis by (simp add: content_def outcome_def launch_def)
qed

text \<open>
  The outcome of every run from the launch: no \<open>enqueue\<close> fails, the number of steps is bounded, a run that cannot go
  on has finished, and then the results are, up to order, what the jobs of the producers contribute.
\<close>

lemma pipeline_outcome:
  assumes r: "run (sys_step next) (launch ps ns ops) es t" and ns: "\<forall>n\<in>set ns. 0 < n"
    and ops: "main_ok b (length ns) {} ops" "Return \<in> set ops"
  shows "failure t = None"
    and "length es \<le> sys_rank next (launch ps ns ops) + 2 * count_if sys_spurious es"
    and "(\<forall>e u. sys_step next t e u \<longrightarrow> sys_spurious e) \<Longrightarrow> sys_final t"
    and "sys_final t \<Longrightarrow> mset (results t) = outcome next (length ns) ps"
    and "sys_final t \<Longrightarrow> \<exists>l. returned t = Some l \<and> mset l \<subseteq># outcome next (length ns) ps \<and>
           (b \<longrightarrow> mset l = outcome next (length ns) ps)"
proof -
  note i0 = launch_inv[OF ns ops(1), of ps]
  note i = pipeline.run_inv[OF r i0]
  then show "failure t = None" by (simp add: sys_inv_def)
  show "length es \<le> sys_rank next (launch ps ns ops) + 2 * count_if sys_spurious es" using pipeline.run_rank[OF r i0] by simp
  show "(\<forall>e u. sys_step next t e u \<longrightarrow> sys_spurious e) \<Longrightarrow> sys_final t" using pipeline.stuck_final[OF r i0] .
  have "content next t = content next (launch ps ns ops) \<and> returned_ok b next t"
    using r i0
  proof (induction "launch ps ns ops" es t rule: run.induct)
    case run_Nil
    then show ?case using ops(2) by (simp add: returned_ok_def launch_def)
  next
    case (run_snoc es t e u)
    then show ?case using pipeline.run_inv[OF run_snoc.hyps(1) i0] sys_step_content step_returned_ok by metis
  qed
  then have c: "content next t = outcome next (length ns) ps" and ro: "returned_ok b next t" by (simp_all add: launch_content)
  assume f: "sys_final t"
  have "{..<length (pools t)} \<subseteq> {k. drained (pools t ! k)}" using i f by (auto simp: sys_inv_def sys_final_def joined_set_def)
  then show "mset (results t) = outcome next (length ns) ps" using content_done[of t "next"] f c by (simp add: sys_final_def)
  show "\<exists>l. returned t = Some l \<and> mset l \<subseteq># outcome next (length ns) ps \<and> (b \<longrightarrow> mset l = outcome next (length ns) ps)"
    using ro f c by (auto simp: returned_ok_def sys_final_def)
qed

end
