(* ===== verification/FidesParallel.thy ===== *)
theory FidesParallel
  imports Fides Pipeline
begin

text \<open>
  The searches of \<open>src/src/fides/sophos_server.cpp\<close> with a callback and with threads, on the pipeline of threads and pools. They read
  the value of a token into an \<open>index_type\<close>: from the database \<open>memcpy\<close> takes the first eight bytes, lowest first; in
  memory mode the assignment is commented out, so a token that is found leaves the variable uninitialised and its use is undefined. A
  thread or a pool's job that makes such a use hands on the mark \<open>Undefined\<close> in place of a value. The evaluation of
  the trapdoor permutation with an order is \<open>TdpMultPoolImpl::eval\<close> of \<open>src/third_party/crypto/src/tdp.cpp\<close> over the parameter \<open>rsa\<close>, the
  public operation with the \<open>i\<close>-th key; the number of hardware threads is the parameter \<open>hw\<close>.
\<close>

section \<open>Values\<close>

type_synonym index_type = "64 word"

text \<open>\<open>xor_mask(uint64_t, array)\<close> takes the first byte of the mask as the highest.\<close>

definition xor_mask_index :: "index_type \<Rightarrow> bytes \<Rightarrow> index_type" where
  "xor_mask_index n msk =
     n XOR push_bit 56 (ucast (msk ! 0)) XOR push_bit 48 (ucast (msk ! 1)) XOR push_bit 40 (ucast (msk ! 2)) XOR
     push_bit 32 (ucast (msk ! 3)) XOR push_bit 24 (ucast (msk ! 4)) XOR push_bit 16 (ucast (msk ! 5)) XOR
     push_bit 8 (ucast (msk ! 6)) XOR ucast (msk ! 7)"

definition get_index :: "sophos_server \<Rightarrow> bytes \<Rightarrow> index_type option res" where
  "get_index s ut =
     (case sophos_get s ut of
        None \<Rightarrow> Inr None
      | Some v \<Rightarrow> if s_usehdd s then Inr (Some (word_of_int (le_uint (take 8 v)))) else Inl Undefined_behaviour)"

text \<open>The work for one search token that \<open>search_callback\<close>, \<open>derive_access\<close> and the second \<open>access_job\<close> share.\<close>

definition derive_access ::
    "(bytes \<Rightarrow> bytes \<Rightarrow> bytes) \<Rightarrow> bytes \<Rightarrow> sophos_server \<Rightarrow> bytes \<Rightarrow> index_type option res" where
  "derive_access prf key s st =
     (let (ut, msk) = gen_update_token_masks prf key st
      in bindE (get_index s ut) (\<lambda>found. Inr (map_option (\<lambda>r. xor_mask_index r msk) found)))"

text \<open>The values \<open>search_callback\<close> passes to its callback, in order.\<close>

fun search_callback_loop ::
    "(bytes \<Rightarrow> bytes \<Rightarrow> bytes) \<Rightarrow> (bytes \<Rightarrow> bytes) \<Rightarrow> bytes \<Rightarrow> sophos_server \<Rightarrow> nat \<Rightarrow> bytes \<Rightarrow> index_type list res" where
  "search_callback_loop prf ev key s 0 st = Inr []"
| "search_callback_loop prf ev key s (Suc n) st =
     bindE (derive_access prf key s st) (\<lambda>found.
     bindE (search_callback_loop prf ev key s n (ev st)) (\<lambda>vs.
       Inr (case found of None \<Rightarrow> vs | Some v \<Rightarrow> v # vs)))"

definition search_callback where
  "search_callback prf ev req s =
     search_callback_loop prf ev (derivation_key req) s (sr_add_count req) (sr_token req)"

section \<open>Search tokens by threads\<close>

definition tdp_pool_eval :: "(nat \<Rightarrow> bytes \<Rightarrow> bytes) \<Rightarrow> nat \<Rightarrow> bytes \<Rightarrow> nat \<Rightarrow> bytes res" where
  "tdp_pool_eval rsa maximum_order st order =
     (if order = 1 then Inr (rsa 0 st)
      else if order \<le> maximum_order then if order = 0 then Inl Undefined_behaviour else Inr (rsa (order - 1) st)
      else Inl Invalid_argument)"

text \<open>
  \<open>rsa_job\<close>: the tokens of order \<open>index\<close>, \<open>index + N\<close> and so on below \<open>mx\<close>. With \<open>N = 0\<close> the loop does not end.
\<close>

function rsa_loop :: "(bytes \<Rightarrow> nat \<Rightarrow> bytes res) \<Rightarrow> nat \<Rightarrow> nat \<Rightarrow> nat \<Rightarrow> bytes \<Rightarrow> bytes list res" where
  "rsa_loop ev N mx i st =
     (if i < mx
      then if N = 0 then Inl Out_of_fuel
           else bindE (ev st N) (\<lambda>st'. bindE (rsa_loop ev N mx (i + N) st') (\<lambda>ts. Inr (st' # ts)))
      else Inr [])"
  by pat_completeness auto
termination
  by (relation "measure (\<lambda>(ev, N, mx, i, st). mx - i)") auto

declare rsa_loop.simps [simp del]

definition rsa_job :: "(bytes \<Rightarrow> nat \<Rightarrow> bytes res) \<Rightarrow> bytes \<Rightarrow> nat \<Rightarrow> nat \<Rightarrow> nat \<Rightarrow> bytes list res" where
  "rsa_job ev st index mx N =
     bindE (if index \<noteq> 0 then ev st index else Inr st) (\<lambda>local_st.
     bindE (rsa_loop ev N mx (index + N) local_st) (\<lambda>ts.
       Inr (if index < mx then local_st # ts else ts)))"

text \<open>
  The threads \<open>0\<close> to \<open>n_threads - 1\<close>. The counter \<open>t\<close> is a \<open>uint8_t\<close>, so the loop that starts them does not end when there are more
  than 255; an exception in a thread ends the program.
\<close>

definition rsa_threads :: "(bytes \<Rightarrow> nat \<Rightarrow> bytes res) \<Rightarrow> bytes \<Rightarrow> nat \<Rightarrow> nat \<Rightarrow> bytes list list res" where
  "rsa_threads ev st mx n_threads =
     (if n_threads > 255 then Inl Out_of_fuel
      else mapE (\<lambda>t. rsa_job ev st t mx (n_threads mod 256)) [0..<n_threads])"

section \<open>The searches\<close>

datatype job =
    Derive bytes
  | Lookup bytes bytes
  | Decrypt index_type bytes
  | Access bytes
  | Post index_type
  | Value index_type
  | Undefined

text \<open>
  \<open>search_parallel_full\<close>: one pool each for the keyed function, the lookups and the unmasking. The last is not joined before the return
  statement but by its destructor, after the returned list has been constructed. The list is complete when the compiler constructs it in place,
  which the language permits and does not require; otherwise the copy may read the list while the pool appends to it.
\<close>

fun full_job :: "(bytes \<Rightarrow> bytes \<Rightarrow> bytes) \<Rightarrow> bytes \<Rightarrow> sophos_server \<Rightarrow> nat \<Rightarrow> job \<Rightarrow> job option" where
  "full_job prf key s k (Derive st) = Some (Lookup st (prf key (st @ str_bytes ''0'')))"
| "full_job prf key s k (Lookup st token) =
     (case get_index s token of Inl _ \<Rightarrow> Some Undefined | Inr None \<Rightarrow> None | Inr (Some r) \<Rightarrow> Some (Decrypt r st))"
| "full_job prf key s k (Decrypt r st) = Some (Value (xor_mask_index r (prf key (st @ str_bytes ''1''))))"
| "full_job prf key s k Undefined = Some Undefined"
| "full_job prf key s k j = None"

definition search_parallel_full :: "bool \<Rightarrow> nat \<Rightarrow> (bytes \<Rightarrow> nat \<Rightarrow> bytes res) \<Rightarrow> sophos_request \<Rightarrow> job system res" where
  "search_parallel_full in_place hw ev req =
     (let n_threads = (hw + 2 ^ 32 - 3) mod 2 ^ 32
      in bindE (rsa_threads ev (sr_token req) (sr_add_count req) n_threads) (\<lambda>ts.
           if in_place \<or> concat ts = [] then Inr (launch (map (map Derive) ts) [1, 1, 1] [Join 0, Join 1, Join 2, Join 1, Join 0, Return])
           else Inl Undefined_behaviour))"

text \<open>\<open>search_parallel\<close>: a pool for the accesses, whose job uses the variable also when the token is not found.\<close>

fun access_job :: "(bytes \<Rightarrow> bytes \<Rightarrow> bytes) \<Rightarrow> bytes \<Rightarrow> sophos_server \<Rightarrow> nat \<Rightarrow> job \<Rightarrow> job option" where
  "access_job prf key s k (Access st) =
     (let (token, msk) = gen_update_token_masks prf key st
      in case get_index s token of Inr (Some r) \<Rightarrow> Some (Value (xor_mask_index r msk)) | _ \<Rightarrow> Some Undefined)"
| "access_job prf key s k j = None"

definition search_parallel :: "nat \<Rightarrow> (bytes \<Rightarrow> nat \<Rightarrow> bytes res) \<Rightarrow> sophos_request \<Rightarrow> nat \<Rightarrow> job system res" where
  "search_parallel hw ev req access_threads =
     (let n_threads = (hw + 2 ^ 32 - access_threads) mod 2 ^ 32
      in bindE (rsa_threads ev (sr_token req) (sr_add_count req) n_threads) (\<lambda>ts.
           Inr (launch (map (map Access) ts) [access_threads] [Join 0, Return, Join 0])))"

text \<open>\<open>search_parallel_light\<close>: the threads that compute the tokens make the accesses as well.\<close>

definition access_value :: "(bytes \<Rightarrow> bytes \<Rightarrow> bytes) \<Rightarrow> bytes \<Rightarrow> sophos_server \<Rightarrow> bytes \<Rightarrow> job option" where
  "access_value prf key s st =
     (case derive_access prf key s st of Inl _ \<Rightarrow> Some Undefined | Inr found \<Rightarrow> map_option Value found)"

definition search_parallel_light where
  "search_parallel_light prf ev s req thread_count =
     bindE (rsa_threads ev (sr_token req) (sr_add_count req) thread_count) (\<lambda>ts.
       Inr (launch (map (List.map_filter (access_value prf (derivation_key req) s)) ts) [] [Return]))"

text \<open>\<open>search_parallel_callback\<close>: a pool for the accesses and one for the callbacks; the results are the calls of the callback.\<close>

fun post_job :: "(bytes \<Rightarrow> bytes \<Rightarrow> bytes) \<Rightarrow> bytes \<Rightarrow> sophos_server \<Rightarrow> nat \<Rightarrow> job \<Rightarrow> job option" where
  "post_job prf key s k (Access st) =
     (case derive_access prf key s st of Inl _ \<Rightarrow> Some Undefined | Inr found \<Rightarrow> map_option Post found)"
| "post_job prf key s k (Post v) = Some (Value v)"
| "post_job prf key s k Undefined = Some Undefined"
| "post_job prf key s k j = None"

definition search_parallel_callback ::
    "(bytes \<Rightarrow> nat \<Rightarrow> bytes res) \<Rightarrow> sophos_request \<Rightarrow> nat \<Rightarrow> nat \<Rightarrow> nat \<Rightarrow> job system res" where
  "search_parallel_callback ev req rsa_thread_count access_thread_count post_thread_count =
     bindE (rsa_threads ev (sr_token req) (sr_add_count req) rsa_thread_count) (\<lambda>ts.
       Inr (launch (map (map Access) ts) [access_thread_count, post_thread_count] [Join 0, Join 1, Return, Join 1, Join 0]))"

text \<open>\<open>search_parallel_light_callback\<close>: as the light search, with the callback in place of the list.\<close>

definition search_parallel_light_callback where
  "search_parallel_light_callback prf ev s req thread_count =
     bindE (rsa_threads ev (sr_token req) (sr_add_count req) thread_count) (\<lambda>ts.
       Inr (launch (map (List.map_filter (access_value prf (derivation_key req) s)) ts) [] [Return]))"

definition no_job :: "nat \<Rightarrow> job \<Rightarrow> job option" where
  "no_job k j = None"

section \<open>The tokens of all threads\<close>

function stride :: "nat \<Rightarrow> nat \<Rightarrow> nat \<Rightarrow> nat list" where
  "stride N mx i = (if 0 < N \<and> i < mx then i # stride N mx (i + N) else [])"
  by pat_completeness auto
termination
  by (relation "measure (\<lambda>(N, mx, i). mx - i)") auto

declare stride.simps [simp del]

lemma residue_split:
  fixes N i mx :: nat
  assumes "0 < N" "i < mx"
  shows "{j. i \<le> j \<and> j < mx \<and> j mod N = i mod N} = insert i {j. i + N \<le> j \<and> j < mx \<and> j mod N = (i + N) mod N}"
proof -
  have "i + N \<le> j" if "i \<le> j" "j \<noteq> i" "j mod N = i mod N" for j
  proof -
    have "N dvd j - i" using that(1,3) by (simp add: mod_eq_dvd_iff_nat)
    then have "N \<le> j - i" using that(1,2) by (intro dvd_imp_le) auto
    then show ?thesis using that(1) by simp
  qed
  then show ?thesis using assms by auto
qed

lemma mset_stride:
  "0 < N \<Longrightarrow> mset (stride N mx i) = mset_set {j. i \<le> j \<and> j < mx \<and> j mod N = i mod N}"
proof (induction N mx i rule: stride.induct)
  case (1 N mx i)
  show ?case
  proof (cases "i < mx")
    case True
    have "finite {j. i + N \<le> j \<and> j < mx \<and> j mod N = (i + N) mod N}" by simp
    then show ?thesis using 1 True residue_split[OF 1(2) True] by (simp add: stride.simps[of N mx i])
  next
    case False
    then have "{j. i \<le> j \<and> j < mx \<and> j mod N = i mod N} = {}" by auto
    then show ?thesis using False by (simp only: mset_set.empty stride.simps[of N mx i]) simp
  qed
qed

lemma residues:
  "0 < (N :: nat) \<Longrightarrow> (\<Sum>t<N. mset_set {j. t \<le> j \<and> j < mx \<and> j mod N = t mod N}) = mset_set {..<mx}"
proof (induction mx)
  case 0
  then show ?case by simp
next
  case (Suc m)
  have c: "mset_set {j. t \<le> j \<and> j < Suc m \<and> j mod N = t mod N} =
      mset_set {j. t \<le> j \<and> j < m \<and> j mod N = t mod N} + (if t = m mod N then {#m#} else {#})" if "t < N" for t
  proof (cases "t = m mod N")
    case True
    then have "{j. t \<le> j \<and> j < Suc m \<and> j mod N = t mod N} = insert m {j. t \<le> j \<and> j < m \<and> j mod N = t mod N}"
      using that by (auto simp: less_Suc_eq intro: order.trans[OF mod_less_eq_dividend])
    then show ?thesis using True by simp
  next
    case False
    then have "{j. t \<le> j \<and> j < Suc m \<and> j mod N = t mod N} = {j. t \<le> j \<and> j < m \<and> j mod N = t mod N}"
      using that by (auto simp: less_Suc_eq)
    then show ?thesis using False by simp
  qed
  have "(\<Sum>t<N. mset_set {j. t \<le> j \<and> j < Suc m \<and> j mod N = t mod N}) =
    (\<Sum>t<N. mset_set {j. t \<le> j \<and> j < m \<and> j mod N = t mod N} + (if t = m mod N then {#m#} else {#}))"
    using c by (intro sum.cong) auto
  also have "\<dots> = mset_set {..<m} + {#m#}" using Suc by (simp add: sum.distrib)
  finally show ?case by (simp add: lessThan_Suc)
qed

text \<open>The hypothesis on the keys of the pool: the \<open>i\<close>-th has the exponent \<open>e ^ (i + 1)\<close>.\<close>

definition rsa_pool_good :: "(nat \<Rightarrow> bytes \<Rightarrow> bytes) \<Rightarrow> nat \<Rightarrow> bool" where
  "rsa_pool_good rsa m \<longleftrightarrow> (\<forall>i<m. rsa i = rsa 0 ^^ Suc i)"

lemma tdp_pool_eval_order:
  "rsa_pool_good rsa m \<Longrightarrow> 0 < k \<Longrightarrow> k \<le> m \<Longrightarrow> tdp_pool_eval rsa m st k = Inr ((rsa 0 ^^ k) st)"
proof (cases k)
  case (Suc i)
  assume "rsa_pool_good rsa m" "k \<le> m"
  then have r: "rsa i = rsa 0 ^^ k" using Suc unfolding rsa_pool_good_def by (metis Suc_le_eq)
  have "tdp_pool_eval rsa m st k = Inr (rsa i st)" using Suc \<open>k \<le> m\<close> by (auto simp: tdp_pool_eval_def)
  then show ?thesis by (simp only: r)
qed simp

lemma rsa_loop_stride:
  assumes "\<And>st. ev st N = Inr ((f ^^ N) st)" "0 < N"
  shows "rsa_loop ev N mx (b + N) ((f ^^ b) st) = Inr (map (\<lambda>j. (f ^^ j) st) (stride N mx (b + N)))"
proof (induction "mx - b" arbitrary: b rule: less_induct)
  case less
  have s: "(f ^^ N) ((f ^^ b) st) = (f ^^ (b + N)) st" by (simp add: funpow_add add.commute[of b])
  show ?case
  proof (cases "b + N < mx")
    case True
    have "rsa_loop ev N mx (b + N + N) ((f ^^ (b + N)) st) = Inr (map (\<lambda>j. (f ^^ j) st) (stride N mx (b + N + N)))"
      by (rule less) (use True assms(2) in auto)
    then show ?thesis using True assms s by (simp add: rsa_loop.simps[of ev N mx "b + N"] stride.simps[of N mx "b + N"])
  next
    case False
    then show ?thesis by (simp add: rsa_loop.simps[of ev N mx "b + N"] stride.simps[of N mx "b + N"])
  qed
qed

lemma rsa_job_stride:
  assumes "rsa_pool_good rsa m" "t < n" "n \<le> m"
  shows "rsa_job (tdp_pool_eval rsa m) st t mx n = Inr (map (\<lambda>j. (rsa 0 ^^ j) st) (stride n mx t))"
proof -
  have n: "0 < n" using assms(2) by simp
  have "(if t \<noteq> 0 then tdp_pool_eval rsa m st t else Inr st) = Inr ((rsa 0 ^^ t) st)"
    using tdp_pool_eval_order[OF assms(1), of t] assms by auto
  moreover have "rsa_loop (tdp_pool_eval rsa m) n mx (t + n) ((rsa 0 ^^ t) st) = Inr (map (\<lambda>j. (rsa 0 ^^ j) st) (stride n mx (t + n)))"
    using rsa_loop_stride[of "tdp_pool_eval rsa m" n "rsa 0"] tdp_pool_eval_order[OF assms(1) n assms(3)] n by blast
  ultimately show ?thesis using n by (simp add: rsa_job_def stride.simps[of n mx t] stride.simps[of n mx "t + n"])
qed

lemma sum_mset_sum: "(\<Sum>t<n. \<Sum>j\<in>#A t. g j) = (\<Sum>j\<in>#(\<Sum>t<(n::nat). A t). g j)"
  by (induction n) simp_all

lemma rsa_threads_tokens:
  assumes "rsa_pool_good rsa m" "0 < n" "n \<le> m" "n \<le> 255"
  obtains ts where "rsa_threads (tdp_pool_eval rsa m) st mx n = Inr ts"
    "\<And>f :: bytes \<Rightarrow> 'a multiset. (\<Sum>xs\<leftarrow>ts. \<Sum>x\<leftarrow>xs. f x) = (\<Sum>j<mx. f ((rsa 0 ^^ j) st))"
proof
  let ?ts = "map (\<lambda>t. map (\<lambda>j. (rsa 0 ^^ j) st) (stride n mx t)) [0..<n]"
  show "rsa_threads (tdp_pool_eval rsa m) st mx n = Inr ?ts"
    using mapE_Inr[OF rsa_job_stride[OF assms(1) _ assms(3), of _ st mx], of "[0..<n]" "\<lambda>t. t"] assms(4) by (simp add: rsa_threads_def)
  fix f :: "bytes \<Rightarrow> 'a multiset"
  let ?g = "\<lambda>j. f ((rsa 0 ^^ j) st)"
  have "(\<Sum>xs\<leftarrow>?ts. \<Sum>x\<leftarrow>xs. f x) = (\<Sum>t<n. \<Sum>j\<leftarrow>stride n mx t. ?g j)"
    by (simp add: sum_list_distinct_conv_sum_set comp_def atLeast0LessThan)
  also have "\<dots> = (\<Sum>t<n. \<Sum>j\<in>#mset (stride n mx t). ?g j)" by (simp flip: sum_mset_sum_list)
  also have "\<dots> = (\<Sum>j\<in>#(\<Sum>t<n. mset (stride n mx t)). ?g j)"
    by (rule sum_mset_sum)
  also have "\<dots> = (\<Sum>j\<in>#mset_set {..<mx}. ?g j)" using residues[OF assms(2), of mx] mset_stride[OF assms(2)] by simp
  finally show "(\<Sum>xs\<leftarrow>?ts. \<Sum>x\<leftarrow>xs. f x) = (\<Sum>j<mx. ?g j)" by (simp add: sum_unfold_sum_mset)
qed

section \<open>Outcomes\<close>

definition contributes :: "(bytes \<Rightarrow> bytes \<Rightarrow> bytes) \<Rightarrow> bytes \<Rightarrow> sophos_server \<Rightarrow> bytes \<Rightarrow> job multiset" where
  "contributes prf key s st = (case access_value prf key s st of None \<Rightarrow> {#} | Some j \<Rightarrow> {#j#})"

text \<open>With the database no access is undefined.\<close>

lemma derive_access_hdd: "s_usehdd s \<Longrightarrow> \<exists>found. derive_access prf key s st = Inr found"
  by (auto simp: derive_access_def get_index_def case_prod_beta split: option.splits)

lemma callback_contributes:
  assumes "s_usehdd s"
  shows "\<exists>vs. search_callback_loop prf ev key s n st = Inr vs \<and> mset (map Value vs) = (\<Sum>j<n. contributes prf key s ((ev ^^ j) st))"
proof (induction n arbitrary: st)
  case 0
  then show ?case by simp
next
  case (Suc n)
  obtain found where f: "derive_access prf key s st = Inr found" using derive_access_hdd[OF assms] by blast
  obtain vs where vs: "search_callback_loop prf ev key s n (ev st) = Inr vs"
    "mset (map Value vs) = (\<Sum>j<n. contributes prf key s ((ev ^^ j) (ev st)))" using Suc[of "ev st"] by blast
  have "(\<Sum>j<n. contributes prf key s ((ev ^^ j) (ev st))) = (\<Sum>j<n. contributes prf key s ((ev ^^ Suc j) st))"
    by (simp add: funpow_swap1)
  with f vs show ?case
    by (cases found) (simp_all add: sum.lessThan_Suc_shift contributes_def access_value_def del: sum.lessThan_Suc)
qed

text \<open>
  What is shown of a search: in every run from its launch no \<open>enqueue\<close> throws, the number of steps is bounded up to spurious wake-ups, and when no
  step is left the values made and the values of the returned list are \<open>V\<close> up to order.
\<close>

definition search_outcome :: "(nat \<Rightarrow> 'j \<Rightarrow> 'j option) \<Rightarrow> 'j system \<Rightarrow> 'j multiset \<Rightarrow> bool" where
  "search_outcome next S V \<longleftrightarrow>
     (\<forall>es t. run (sys_step next) S es t \<longrightarrow>
        failure t = None \<and> length es \<le> sys_rank next S + 2 * count_if sys_spurious es \<and>
        ((\<forall>e u. sys_step next t e u \<longrightarrow> sys_spurious e) \<longrightarrow>
           mset (results t) = V \<and> (\<exists>l. returned t = Some l \<and> mset l = V)))"

lemma launch_outcome:
  assumes "\<forall>n\<in>set ns. 0 < n" "main_ok True (length ns) {} ops" "Return \<in> set ops" "outcome next (length ns) ps = V"
  shows "search_outcome next (launch ps ns ops) V"
  unfolding search_outcome_def
proof (intro allI impI)
  fix es t assume r: "run (sys_step next) (launch ps ns ops) es t"
  note o = pipeline_outcome[OF r assms(1-3)]
  show "failure t = None \<and> length es \<le> sys_rank next (launch ps ns ops) + 2 * count_if sys_spurious es \<and>
    ((\<forall>e u. sys_step next t e u \<longrightarrow> sys_spurious e) \<longrightarrow>
       mset (results t) = V \<and> (\<exists>l. returned t = Some l \<and> mset l = V))"
    using o(1,2) o(4)[OF o(3)] o(5)[OF o(3)] assms(4) by auto
qed

lemma outcome_map: "outcome next n (map (map f) ts) = (\<Sum>xs\<leftarrow>ts. \<Sum>x\<leftarrow>xs. flow next n 0 (f x))"
  by (simp add: outcome_def comp_def)

lemma outcome_values:
  "outcome next 0 (map (List.map_filter (access_value prf key s)) ts) = (\<Sum>xs\<leftarrow>ts. \<Sum>x\<leftarrow>xs. contributes prf key s x)"
proof -
  have "(\<Sum>j\<leftarrow>List.map_filter (access_value prf key s) sts. flow next 0 0 j) = (\<Sum>x\<leftarrow>sts. contributes prf key s x)" for sts
    by (induction sts) (simp_all add: contributes_def List.map_filter_def split: option.splits)
  then show ?thesis by (simp add: outcome_def comp_def)
qed

lemma post_flow: "flow (post_job prf key s) 2 0 (Access st) = contributes prf key s st"
proof (cases "derive_access prf key s st")
  case (Inr found)
  then show ?thesis by (cases found) (simp_all add: numeral_2_eq_2 contributes_def access_value_def)
qed (simp add: numeral_2_eq_2 contributes_def access_value_def)

lemma full_flow: "flow (full_job prf key s) 3 0 (Derive st) = contributes prf key s st"
  by (auto simp: numeral_3_eq_3 contributes_def access_value_def derive_access_def gen_update_token_masks_def get_index_def split: option.splits)

lemma access_flow:
  "derive_access prf key s st = Inr (Some v) \<Longrightarrow> flow (access_job prf key s) 1 0 (Access st) = contributes prf key s st"
  by (auto simp: contributes_def access_value_def derive_access_def gen_update_token_masks_def get_index_def split: option.splits if_splits)

lemma main_sequences:
  "main_ok True 2 {} [Join 0, Join 1, Return, Join 1, Join 0]" "main_ok True 1 {} [Join 0, Return, Join 0]"
  "main_ok True 0 {} [Return]" "main_ok True 3 {} [Join 0, Join 1, Join 2, Join 1, Join 0, Return]"
  by auto

lemma thread_contributions:
  assumes "rsa_pool_good rsa m" "0 < n" "n \<le> m" "n \<le> 255" "s_usehdd s"
  obtains ts vs where "rsa_threads (tdp_pool_eval rsa m) (sr_token req) (sr_add_count req) n = Inr ts"
    "search_callback prf (rsa 0) req s = Inr vs"
    "(\<Sum>xs\<leftarrow>ts. \<Sum>x\<leftarrow>xs. contributes prf (derivation_key req) s x) = mset (map Value vs)"
    "\<And>f :: bytes \<Rightarrow> job multiset. (\<Sum>xs\<leftarrow>ts. \<Sum>x\<leftarrow>xs. f x) = (\<Sum>j<(sr_add_count req). f ((rsa 0 ^^ j) (sr_token req)))"
proof -
  obtain ts where "rsa_threads (tdp_pool_eval rsa m) (sr_token req) (sr_add_count req) n = Inr ts"
    "\<And>f :: bytes \<Rightarrow> job multiset. (\<Sum>xs\<leftarrow>ts. \<Sum>x\<leftarrow>xs. f x) = (\<Sum>j<(sr_add_count req). f ((rsa 0 ^^ j) (sr_token req)))"
    using rsa_threads_tokens[OF assms(1-4)] by blast
  moreover obtain vs where "search_callback prf (rsa 0) req s = Inr vs"
    "mset (map Value vs) = (\<Sum>j<(sr_add_count req). contributes prf (derivation_key req) s ((rsa 0 ^^ j) (sr_token req)))"
    unfolding search_callback_def using callback_contributes[OF assms(5)] by blast
  ultimately show ?thesis using that[of ts vs] by simp
qed

text \<open>
  C30. With the database as the store, the light and the callback searches of Fides give, in every interleaving of their threads and pools, what the
  sequential \<open>search_callback\<close> gives, up to order: with any number of token threads the pool of keys allows, and any positive number of access
  and callback threads, every run is bounded, no job is rejected, and when it ends the callbacks made (or the list returned) are a permutation of the
  sequential ones. (In memory mode a token that is found leads to the use of an uninitialised variable.)
\<close>

theorem parallel_searches_permute:
  assumes "rsa_pool_good rsa m" "0 < n" "n \<le> m" "n \<le> 255" "0 < a" "0 < p" "s_usehdd s"
  shows "\<exists>vs. search_callback prf (rsa 0) req s = Inr vs \<and>
    (\<exists>S. search_parallel_light prf (tdp_pool_eval rsa m) s req n = Inr S \<and> search_outcome no_job S (mset (map Value vs))) \<and>
    (\<exists>S. search_parallel_light_callback prf (tdp_pool_eval rsa m) s req n = Inr S \<and> search_outcome no_job S (mset (map Value vs))) \<and>
    (\<exists>S. search_parallel_callback (tdp_pool_eval rsa m) req n a p = Inr S \<and>
       search_outcome (post_job prf (derivation_key req) s) S (mset (map Value vs)))"
proof -
  obtain ts vs where ts: "rsa_threads (tdp_pool_eval rsa m) (sr_token req) (sr_add_count req) n = Inr ts"
    and vs: "search_callback prf (rsa 0) req s = Inr vs"
    and V: "(\<Sum>xs\<leftarrow>ts. \<Sum>x\<leftarrow>xs. contributes prf (derivation_key req) s x) = mset (map Value vs)"
    using thread_contributions[OF assms(1-4,7)] by blast
  have "search_outcome no_job (launch (map (List.map_filter (access_value prf (derivation_key req) s)) ts) [] [Return]) (mset (map Value vs))"
    by (rule launch_outcome) (simp_all only: list.size outcome_values V main_sequences, simp_all)
  moreover have "search_outcome (post_job prf (derivation_key req) s)
    (launch (map (map Access) ts) [a, p] [Join 0, Join 1, Return, Join 1, Join 0]) (mset (map Value vs))"
    by (rule launch_outcome) (use main_sequences(1) V assms(5,6) in \<open>simp_all add: outcome_map post_flow flip: numeral_2_eq_2\<close>)
  ultimately show ?thesis
    using vs by (simp add: search_parallel_light_def search_parallel_light_callback_def search_parallel_callback_def ts)
qed

text \<open>
  C38. The two searches that collect a list from pools, with the database as the store: \<open>search_parallel\<close>, when every token of the request is
  stored, and \<open>search_parallel_full\<close>, when the compiler constructs the returned list in place, return a permutation of the values of the sequential
  \<open>search_callback\<close> in every interleaving, in a bounded number of steps. The number of hardware threads exceeds those of the pools.
\<close>

theorem parallel_list_searches:
  assumes "rsa_pool_good rsa m" "hw < 2 ^ 32" "0 < a" "a < hw" "hw - a \<le> m" "hw - a \<le> 255" "s_usehdd s"
  shows "\<exists>vs. search_callback prf (rsa 0) req s = Inr vs \<and>
    ((\<forall>j < sr_add_count req. derive_access prf (derivation_key req) s ((rsa 0 ^^ j) (sr_token req)) \<noteq> Inr None) \<longrightarrow>
      (\<exists>S. search_parallel hw (tdp_pool_eval rsa m) req a = Inr S \<and>
         search_outcome (access_job prf (derivation_key req) s) S (mset (map Value vs)))) \<and>
    (a = 3 \<longrightarrow> (\<exists>S. search_parallel_full True hw (tdp_pool_eval rsa m) req = Inr S \<and>
       search_outcome (full_job prf (derivation_key req) s) S (mset (map Value vs))))"
proof -
  let ?c = "contributes prf (derivation_key req) s" and ?st = "\<lambda>j. (rsa 0 ^^ j) (sr_token req)"
  have n: "0 < hw - a" "(hw + 2 ^ 32 - a) mod 2 ^ 32 = hw - a"
    using assms(2,4) mod_add_self2[of "hw - a" "2 ^ 32"] by simp_all
  obtain ts vs where ts: "rsa_threads (tdp_pool_eval rsa m) (sr_token req) (sr_add_count req) (hw - a) = Inr ts"
    "\<And>f :: bytes \<Rightarrow> job multiset. (\<Sum>xs\<leftarrow>ts. \<Sum>x\<leftarrow>xs. f x) = (\<Sum>j<(sr_add_count req). f (?st j))"
    and vs: "search_callback prf (rsa 0) req s = Inr vs"
    and V: "(\<Sum>xs\<leftarrow>ts. \<Sum>x\<leftarrow>xs. ?c x) = mset (map Value vs)"
    using thread_contributions[OF assms(1) n(1) assms(5-7)] by blast
  have 1: "search_outcome (access_job prf (derivation_key req) s) (launch (map (map Access) ts) [a] [Join 0, Return, Join 0]) (mset (map Value vs))"
    if all: "\<forall>j < sr_add_count req. derive_access prf (derivation_key req) s (?st j) \<noteq> Inr None"
  proof -
    have "flow (access_job prf (derivation_key req) s) 1 0 (Access (?st j)) = ?c (?st j)" if j: "j < sr_add_count req" for j
    proof -
      obtain v where "derive_access prf (derivation_key req) s (?st j) = Inr (Some v)"
        using derive_access_hdd[OF assms(7), of "prf" "derivation_key req" "?st j"] all j by fastforce
      then show ?thesis by (rule access_flow)
    qed
    then have "(\<Sum>j<(sr_add_count req). flow (access_job prf (derivation_key req) s) 1 0 (Access (?st j))) = mset (map Value vs)"
      unfolding V[symmetric] ts(2) by (intro sum.cong) (auto simp del: flow.simps)
    then have "outcome (access_job prf (derivation_key req) s) (length [a]) (map (map Access) ts) = mset (map Value vs)"
      by (simp only: outcome_map ts(2) length_Cons list.size One_nat_def)
    then show ?thesis using main_sequences(2) assms(3) by (intro launch_outcome) simp_all
  qed
  have "outcome (full_job prf (derivation_key req) s) (length [1, 1, 1::nat]) (map (map Derive) ts) = mset (map Value vs)"
    using V by (simp add: outcome_map full_flow del: flow.simps flip: numeral_3_eq_3)
  then have 2: "search_outcome (full_job prf (derivation_key req) s)
    (launch (map (map Derive) ts) [1, 1, 1] [Join 0, Join 1, Join 2, Join 1, Join 0, Return]) (mset (map Value vs))"
    using main_sequences(4) by (intro launch_outcome) (simp_all add: numeral_3_eq_3)
  have "search_parallel hw (tdp_pool_eval rsa m) req a = Inr (launch (map (map Access) ts) [a] [Join 0, Return, Join 0])"
    unfolding search_parallel_def Let_def n(2) ts(1) by simp
  moreover have "search_parallel_full True hw (tdp_pool_eval rsa m) req =
    Inr (launch (map (map Derive) ts) [1, 1, 1] [Join 0, Join 1, Join 2, Join 1, Join 0, Return])" if "a = 3"
    unfolding search_parallel_full_def Let_def n(2)[unfolded that] ts(1)[unfolded that] by simp
  ultimately show ?thesis using 1 2 vs by blast
qed

section \<open>Examples\<close>

definition sample_rsa :: "nat \<Rightarrow> bytes \<Rightarrow> bytes" where
  "sample_rsa i = (\<lambda>st. map (\<lambda>b. b + 1) st) ^^ Suc i"

lemma sample_rsa_good: "rsa_pool_good sample_rsa m"
  by (simp add: rsa_pool_good_def sample_rsa_def)

definition mask_prf :: "bytes \<Rightarrow> bytes \<Rightarrow> bytes" where
  "mask_prf key x = (if last x = 49 then 1 # replicate 15 0 else hd x # replicate 15 0)"

definition sample_request :: sophos_request where
  "sample_request = \<lparr>sr_token = [7], derivation_key = [], sr_add_count = 1\<rparr>"

text \<open>A server with one entry, whose value is sixteen zero bytes under the mask.\<close>

definition sample_server :: sophos_server where
  "sample_server = sophos_update \<lparr>ur_token = 7 # replicate 15 0, ur_index = xor_mask (replicate 16 0) (1 # replicate 15 0)\<rparr>
     (SophosServer True)"

theorem parallel_searches_permute_witness:
  "\<exists>vs S. search_callback mask_prf (sample_rsa 0) sample_request sample_server = Inr vs \<and>
     search_parallel_callback (tdp_pool_eval sample_rsa 8) sample_request 4 2 1 = Inr S \<and>
     search_outcome (post_job mask_prf [] sample_server) S (mset (map Value vs))"
proof -
  have "s_usehdd sample_server" by code_simp
  then show ?thesis
    using parallel_searches_permute[of sample_rsa 8 4 2 1 sample_server mask_prf sample_request] sample_rsa_good
    by (auto simp: sample_request_def)
qed

theorem parallel_list_searches_witness:
  "\<exists>vs S R. search_callback mask_prf (sample_rsa 0) sample_request sample_server = Inr vs \<and>
     search_parallel 4 (tdp_pool_eval sample_rsa 8) sample_request 3 = Inr S \<and>
     search_outcome (access_job mask_prf [] sample_server) S (mset (map Value vs)) \<and>
     search_parallel_full True 4 (tdp_pool_eval sample_rsa 8) sample_request = Inr R \<and>
     search_outcome (full_job mask_prf [] sample_server) R (mset (map Value vs))"
proof -
  have "s_usehdd sample_server" "derive_access mask_prf [] sample_server [7] \<noteq> Inr None" by code_simp+
  then show ?thesis
    using parallel_list_searches[of sample_rsa 8 4 3 sample_server mask_prf sample_request] sample_rsa_good
    by (simp add: sample_request_def) blast
qed

text \<open>
  The searches with an \<open>index_type\<close> do not give the stored value: for an entry whose value is sixteen zero bytes \<open>search\<close>
  returns these, and \<open>search_callback\<close> passes a number that is not zero, because it reads the entry lowest byte first and the mask highest byte first.
\<close>

theorem search_callback_garbled:
  "snd (sophos_search mask_prf (sample_rsa 0) sample_request False sample_server) = [replicate 16 0] \<and>
   search_callback mask_prf (sample_rsa 0) sample_request sample_server = Inr [0x0100000000000001]"
  by code_simp

end
