(* ===== verification/Bid.thy ===== *)
theory Bid
  imports StdLib
begin

text \<open>
  Block identifiers of the oblivious map: \<open>src/src/orion/Bid.cpp\<close> and \<open>src/src/orion/Types.hpp\<close>. The copies under
  \<open>horus\<close> differ in \<open>ID_SIZE\<close> only, which is 16 in Orion and 24 in Horus: the type parameter of an identifier is the number of its
  words of eight bytes, so Orion has identifiers of type \<open>2 Bid\<close> and Horus of type \<open>3 Bid\<close>. An identifier is a byte array; the comparisons are translated loop by loop,
  and the type is made a linear order with the code's \<open>operator<\<close>, which is the order of \<open>std::map<Bid, ...>\<close>.
  The assignment operators and \<open>operator++\<close> end without a return statement; they are modelled by what they
  store.
\<close>

definition ID_SIZE :: "'n::len itself \<Rightarrow> nat" where
  "ID_SIZE n = 8 * LENGTH('n)"

datatype 'n Bid = Bid_array (bid_id: bytes)

definition Bid0 :: "'n::len Bid" where
  "Bid0 = Bid_array (replicate (ID_SIZE TYPE('n)) 0)"

definition Bid_string :: "string \<Rightarrow> 'n::len Bid res" where
  "Bid_string v = bindE (copy_into 0 (str_bytes v) (replicate (ID_SIZE TYPE('n)) 0)) (\<lambda>b. Inr (Bid_array b))"

definition Bid_int :: "int \<Rightarrow> 'n::len Bid" where
  "Bid_int v = Bid_array (copy_at 0 (le_bytes 4 v) (replicate (ID_SIZE TYPE('n)) 0))"

text \<open>\<open>operator++\<close>: the last byte is incremented and the carry goes to the front.\<close>

fun carry :: "nat \<Rightarrow> bytes \<Rightarrow> bytes" where
  "carry 0 b = b"
| "carry (Suc i) b = (if b ! Suc i = 0 then carry i (b[i := b ! i + 1]) else b)"

definition bid_inc :: "'n::len Bid \<Rightarrow> 'n Bid" where
  "bid_inc b = Bid_array (carry (ID_SIZE TYPE('n) - 1) ((bid_id b)[ID_SIZE TYPE('n) - 1 := bid_id b ! (ID_SIZE TYPE('n) - 1) + 1]))"

text \<open>\<open>operator=(int)\<close>: the four bytes from the highest to the lowest.\<close>

definition bid_assign_int :: "int \<Rightarrow> 'n::len Bid" where
  "bid_assign_int v = Bid_array (rev (le_bytes 4 v) @ replicate (ID_SIZE TYPE('n) - 4) 0)"

definition bid_assign_vector :: "bytes \<Rightarrow> 'n::len Bid res" where
  "bid_assign_vector v = (if length v < ID_SIZE TYPE('n) then Inl Undefined_behaviour else Inr (Bid_array (take (ID_SIZE TYPE('n)) v)))"

text \<open>The comparisons with an \<open>int\<close> compare a byte with the shifted, unmasked number.\<close>

definition bid_ne_int :: "'n::len Bid \<Rightarrow> int \<Rightarrow> bool" where
  "bid_ne_int b rhs \<longleftrightarrow> list_ex (\<lambda>i. uint (bid_id b ! (3 - i)) \<noteq> drop_bit (i * 8) rhs) [0..<4]"

definition bid_eq_int :: "'n::len Bid \<Rightarrow> int \<Rightarrow> bool" where
  "bid_eq_int b rhs \<longleftrightarrow> \<not> list_ex (\<lambda>i. uint (bid_id b ! (3 - i)) \<noteq> drop_bit (i * 8) rhs) [0..<4]"

definition bid_ne :: "'n::len Bid \<Rightarrow> 'n Bid \<Rightarrow> bool" where
  "bid_ne b rhs \<longleftrightarrow> list_ex (\<lambda>i. bid_id b ! i \<noteq> bid_id rhs ! i) [0..<4]"

definition bid_eq :: "'n::len Bid \<Rightarrow> 'n Bid \<Rightarrow> bool" where
  "bid_eq b rhs \<longleftrightarrow> \<not> list_ex (\<lambda>i. bid_id b ! i \<noteq> bid_id rhs ! i) [0..<ID_SIZE TYPE('n)]"

fun lt_loop :: "bool \<Rightarrow> bytes \<Rightarrow> bytes \<Rightarrow> bool" where
  "lt_loop dflt (a # as) (b # bs) = (if a < b then True else if a > b then False else lt_loop dflt as bs)"
| "lt_loop dflt _ _ = dflt"

definition bid_lt :: "'n::len Bid \<Rightarrow> 'n Bid \<Rightarrow> bool" where
  "bid_lt a b = lt_loop False (bid_id a) (bid_id b)"

definition bid_le :: "'n::len Bid \<Rightarrow> 'n Bid \<Rightarrow> bool" where
  "bid_le a b = lt_loop True (bid_id a) (bid_id b)"

definition bid_gt :: "'n::len Bid \<Rightarrow> 'n Bid \<Rightarrow> bool" where
  "bid_gt a b = lt_loop False (bid_id b) (bid_id a)"

definition bid_ge :: "'n::len Bid \<Rightarrow> 'n Bid \<Rightarrow> bool" where
  "bid_ge a b = lt_loop True (bid_id b) (bid_id a)"

section \<open>The order\<close>

text \<open>
  Identifiers of the program all have \<open>ID_SIZE\<close> bytes. The order on the type is the lexicographic order, of which
  \<open>operator<\<close> is the restriction to identifiers of one length.
\<close>

instantiation Bid :: (len) linorder
begin

definition less_Bid :: "'n::len Bid \<Rightarrow> 'n Bid \<Rightarrow> bool" where
  "less_Bid a b \<longleftrightarrow> bid_id a < bid_id b"

definition less_eq_Bid :: "'n::len Bid \<Rightarrow> 'n Bid \<Rightarrow> bool" where
  "less_eq_Bid a b \<longleftrightarrow> bid_id a \<le> bid_id b"

instance
  by standard (auto simp: less_Bid_def less_eq_Bid_def intro: Bid.expand)

end

definition bid_wf :: "'n::len Bid \<Rightarrow> bool" where
  "bid_wf b \<longleftrightarrow> length (bid_id b) = ID_SIZE TYPE('n)"

lemma ID_SIZE_ge: "8 \<le> ID_SIZE TYPE('n::len)"
  using len_gt_0[where 'a = 'n] by (simp add: ID_SIZE_def Suc_le_eq)

lemma lt_loop_less: "length as = length bs \<Longrightarrow> lt_loop False as bs \<longleftrightarrow> as < bs"
proof (induction as arbitrary: bs)
  case Nil
  then show ?case by simp
next
  case (Cons a as)
  then show ?case by (cases bs) auto
qed

lemma lt_loop_less_eq: "length as = length bs \<Longrightarrow> lt_loop True as bs \<longleftrightarrow> as \<le> bs"
proof (induction as arbitrary: bs)
  case Nil
  then show ?case by simp
next
  case (Cons a as)
  then show ?case by (cases bs) auto
qed

lemma bid_eq_iff: "bid_wf a \<Longrightarrow> bid_wf b \<Longrightarrow> bid_eq a b \<longleftrightarrow> a = b"
  by (auto simp: bid_eq_def bid_wf_def list_ex_iff intro!: Bid.expand nth_equalityI)

lemma bid_order_iff:
  assumes "bid_wf a" "bid_wf b"
  shows "bid_lt a b \<longleftrightarrow> a < b" "bid_le a b \<longleftrightarrow> a \<le> b" "bid_gt a b \<longleftrightarrow> b < a" "bid_ge a b \<longleftrightarrow> b \<le> a"
  using assms
  by (simp_all add: bid_lt_def bid_le_def bid_gt_def bid_ge_def bid_wf_def less_Bid_def less_eq_Bid_def
      lt_loop_less lt_loop_less_eq)

text \<open>What the code takes for the null identifier: only the first four bytes are looked at.\<close>

lemma bid_null_iff: "bid_wf b \<Longrightarrow> bid_eq_int b 0 \<longleftrightarrow> take 4 (bid_id b) = replicate 4 0"
  for b :: "'n::len Bid"
proof -
  assume "bid_wf b"
  then have "4 \<le> length (bid_id b)" using ID_SIZE_ge[where 'n = 'n] by (simp add: bid_wf_def)
  then obtain b0 b1 b2 b3 bs where b: "bid_id b = b0 # b1 # b2 # b3 # bs"
    by (auto simp: numeral_eq_Suc Suc_le_length_iff)
  have "[0..<4] = [0, 1, 2, 3 :: nat]" by (simp add: upt_rec)
  then show ?thesis by (auto simp: bid_eq_int_def b numeral_3_eq_3 numeral_eq_Suc uint_0_iff)
qed

lemma bid_ne_int_iff: "bid_ne_int b n \<longleftrightarrow> \<not> bid_eq_int b n"
  by (simp add: bid_ne_int_def bid_eq_int_def)

lemma bid_wf_simps [simp]: "bid_wf (Bid0 :: 'n::len Bid)" "bid_wf (Bid_int n :: 'n Bid)" "bid_wf (bid_assign_int n :: 'n Bid)"
  using ID_SIZE_ge[where 'n = 'n] by (simp_all add: bid_wf_def Bid0_def Bid_int_def bid_assign_int_def copy_at_def)

lemma Bid0_null [simp]: "bid_eq_int Bid0 0"
  using ID_SIZE_ge[where 'n = 'a] by (simp add: bid_null_iff) (simp add: Bid0_def min_def)

lemma Bid_int_null [simp]: "bid_eq_int (Bid_int 0) 0"
proof -
  have "le_bytes 4 0 = replicate 4 (0 :: byte)" by (simp add: numeral_eq_Suc)
  then show ?thesis by (simp add: bid_null_iff) (simp add: Bid_int_def copy_at_def)
qed

section \<open>Incrementing\<close>

definition be_value :: "bytes \<Rightarrow> int" where
  "be_value bs = foldl (\<lambda>v b. v * 256 + uint b) 0 bs"

lemma be_value_snoc: "be_value (bs @ [b]) = be_value bs * 256 + uint b"
  by (simp add: be_value_def)

lemma be_value_bounds: "0 \<le> be_value bs \<and> be_value bs < 256 ^ length bs"
proof (induction bs rule: rev_induct)
  case Nil
  then show ?case by (simp add: be_value_def)
next
  case (snoc b bs)
  have "0 \<le> uint b" "uint b < 256" using uint_lt2p[of b] by simp_all
  with snoc show ?case by (simp add: be_value_snoc)
qed

lemma uint_inc: "uint (b + 1 :: byte) = (if b + 1 = 0 then 0 else uint b + 1)" "b + 1 = 0 \<Longrightarrow> uint (b :: byte) = 255"
proof -
  have u: "uint (b + 1) = (uint b + 1) mod 256" by (simp add: uint_word_ariths)
  have b: "0 \<le> uint b" "uint b < 256" using uint_lt2p[of b] by simp_all
  show z: "b + 1 = 0 \<Longrightarrow> uint b = 255" using u b by (cases "uint b = 255") simp_all
  have o: "uint b = 255 \<Longrightarrow> b + 1 = 0" using u by (simp add: uint_0_iff)
  show "uint (b + 1) = (if b + 1 = 0 then 0 else uint b + 1)"
  proof (cases "b + 1 = 0")
    case True
    then show ?thesis by simp
  next
    case False
    then have "uint b < 255" using o b by linarith
    then show ?thesis using u b False by simp
  qed
qed

lemma carry_value: "length (carry i b) = length b \<and> drop (Suc i) (carry i b) = drop (Suc i) b"
proof (induction i arbitrary: b)
  case 0
  then show ?case by simp
next
  case (Suc i)
  have "drop (Suc (Suc i)) (carry i c) = drop (Suc (Suc i)) c" for c
    using arg_cong[OF conjunct2[OF Suc.IH[of c]], of "drop 1"] by simp
  then show ?case using Suc.IH by simp
qed

lemma inc_value:
  assumes "i < length b"
  shows "be_value (take (Suc i) (carry i (b[i := b ! i + 1]))) = (be_value (take (Suc i) b) + 1) mod 256 ^ Suc i"
  using assms
proof (induction i arbitrary: b)
  case 0
  have "uint (b ! 0 + 1) = (uint (b ! 0) + 1) mod 256" by (simp add: uint_word_ariths)
  with 0 show ?case by (cases b) (simp_all add: be_value_def)
next
  case (Suc i)
  let ?b = "b ! Suc i + 1" and ?V = "be_value (take (Suc i) b)"
  have v: "be_value (take (Suc (Suc i)) b) = ?V * 256 + uint (b ! Suc i)"
    using Suc.prems by (simp only: take_Suc_conv_app_nth[of "Suc i" b] be_value_snoc)
  show ?case
  proof (cases "?b = 0")
    case True
    let ?c = "b[Suc i := 0]"
    have c: "carry (Suc i) (b[Suc i := ?b]) = carry i (?c[i := ?c ! i + 1])" using True Suc.prems by simp
    have l: "i < length ?c" using Suc.prems by simp
    note cv = carry_value[of i "?c[i := ?c ! i + 1]"]
    have "drop (Suc i) (carry i (?c[i := ?c ! i + 1])) = drop (Suc i) ?c" using cv l by (simp add: drop_update_cancel)
    then have n: "carry i (?c[i := ?c ! i + 1]) ! Suc i = 0"
      using cv l Suc.prems by (metis Cons_nth_drop_Suc length_list_update nth_list_update_eq nth_via_drop)
    have "be_value (take (Suc (Suc i)) (carry i (?c[i := ?c ! i + 1]))) = be_value (take (Suc i) (carry i (?c[i := ?c ! i + 1]))) * 256 + 0"
      using cv l Suc.prems n by (simp add: take_Suc_conv_app_nth[of "Suc i"] be_value_snoc)
    also have "\<dots> = ((?V + 1) mod 256 ^ Suc i) * 256" using Suc.IH[OF l] by (simp add: take_update_cancel)
    also have "\<dots> = ((?V + 1) * 256) mod 256 ^ Suc (Suc i)"
      using mod_mult_mult2[of "?V + 1" 256 "256 ^ Suc i"] by (simp only: power_Suc[of 256 "Suc i"] mult.commute[of 256 "256 ^ Suc i"])
    also have "\<dots> = (?V * 256 + uint (b ! Suc i) + 1) mod 256 ^ Suc (Suc i)"
      using uint_inc(2)[OF True] by (simp only: distrib_right add.assoc) simp
    finally show ?thesis unfolding c v .
  next
    case False
    have c: "carry (Suc i) (b[Suc i := ?b]) = b[Suc i := ?b]" using False Suc.prems by simp
    have e: "be_value (take (Suc (Suc i)) (b[Suc i := ?b])) = ?V * 256 + (uint (b ! Suc i) + 1)"
      using Suc.prems False uint_inc(1)[of "b ! Suc i"] by (simp add: take_Suc_conv_app_nth[of "Suc i"] be_value_snoc take_update_cancel)
    moreover have "be_value (take (Suc (Suc i)) (b[Suc i := ?b])) < 256 ^ Suc (Suc i)"
      using be_value_bounds[of "take (Suc (Suc i)) (b[Suc i := ?b])"] Suc.prems by simp
    moreover have "0 \<le> ?V" using be_value_bounds by blast
    ultimately show ?thesis unfolding c v by (simp add: algebra_simps)
  qed
qed

section \<open>Properties\<close>

text \<open>
  The comparisons of identifiers: on identifiers of the program's length the four order operators are the
  lexicographic order of the bytes, a linear order as the maps need it, and \<open>operator==\<close> is equality.
\<close>

theorem bid_comparisons:
  fixes a b :: "'n::len Bid"
  assumes "length (bid_id a) = ID_SIZE TYPE('n)" "length (bid_id b) = ID_SIZE TYPE('n)"
  shows "(bid_lt a b \<longleftrightarrow> bid_id a < bid_id b) \<and> (bid_le a b \<longleftrightarrow> bid_id a \<le> bid_id b) \<and>
    (bid_gt a b \<longleftrightarrow> bid_id b < bid_id a) \<and> (bid_ge a b \<longleftrightarrow> bid_id b \<le> bid_id a) \<and> (bid_eq a b \<longleftrightarrow> a = b)"
  using bid_order_iff[of a b] bid_eq_iff[of a b] assms by (simp add: bid_wf_def less_Bid_def less_eq_Bid_def)

theorem bid_comparisons_witness:
  "bid_lt (Bid0 :: 2 Bid) (Bid_int 1) \<and> bid_eq (Bid_int 1 :: 2 Bid) (Bid_int 1)"
proof -
  have "length (bid_id (Bid0 :: 2 Bid)) = ID_SIZE TYPE(2)" "length (bid_id (Bid_int 1 :: 2 Bid)) = ID_SIZE TYPE(2)"
    using bid_wf_simps[where 'n = 2] by (simp_all add: bid_wf_def)
  moreover have "bid_id (Bid0 :: 2 Bid) < bid_id (Bid_int 1 :: 2 Bid)" by code_simp
  ultimately show ?thesis using bid_comparisons by blast
qed

text \<open>
  C29. \<open>operator++\<close> adds one to the identifier read as a big-endian number, modulo 256 to the power of its length: the carry
  loop stops at the first byte that did not wrap, and the largest identifier becomes zero.
\<close>

theorem bid_inc_value:
  fixes b :: "'n::len Bid"
  assumes "length (bid_id b) = ID_SIZE TYPE('n)"
  shows "be_value (bid_id (bid_inc b)) = (be_value (bid_id b) + 1) mod 256 ^ ID_SIZE TYPE('n)"
proof -
  let ?i = "ID_SIZE TYPE('n) - 1"
  have i: "?i < length (bid_id b)" "Suc ?i = ID_SIZE TYPE('n)" using assms ID_SIZE_ge[where 'n = 'n] by simp_all
  have "take (Suc ?i) (bid_id (bid_inc b)) = bid_id (bid_inc b)" "take (Suc ?i) (bid_id b) = bid_id b"
    using carry_value[of ?i "(bid_id b)[?i := bid_id b ! ?i + 1]"] assms i by (simp_all add: bid_inc_def)
  then show ?thesis using inc_value[OF i(1)] i(2) by (simp add: bid_inc_def)
qed

theorem bid_inc_value_witness: "be_value (bid_id (bid_inc (Bid_array (replicate 16 255) :: 2 Bid))) = 0"
proof -
  have "be_value (replicate 16 255) = 2 ^ 128 - 1" by code_simp
  then show ?thesis using bid_inc_value[of "Bid_array (replicate 16 255) :: 2 Bid"] by (simp add: ID_SIZE_def)
qed

text \<open>
  The two inequality tests do not fit the equality tests: identifiers that differ after their fourth byte are
  neither equal nor different, and an identifier never equals a number above 255, not even the one it was
  assigned from.
\<close>

lemma bid_inequality_gaps:
  "\<not> bid_eq (Bid_array (replicate 15 1 @ [1]) :: 2 Bid) (Bid_array (replicate 15 1 @ [2])) \<and>
   \<not> bid_ne (Bid_array (replicate 15 1 @ [1]) :: 2 Bid) (Bid_array (replicate 15 1 @ [2])) \<and>
   \<not> bid_eq_int (bid_assign_int 256 :: 2 Bid) 256"
  by code_simp

end
