(* ===== verification/Aes.thy ===== *)
theory Aes
  imports StdLib
begin

text \<open>
  The encryption of stored blocks: \<open>src/src/orion/AES.cpp\<close>. The OpenSSL calls are the record \<open>cbc\<close>: encryption and
  decryption in CBC mode with padding, and the stream of random initialisation vectors. The vector is
  appended to the ciphertext.
\<close>

definition IV :: nat where "IV = 16"

record cbc =
  cbc_encrypt :: "bytes \<Rightarrow> bytes \<Rightarrow> bytes \<Rightarrow> bytes"
  cbc_decrypt :: "bytes \<Rightarrow> bytes \<Rightarrow> bytes \<Rightarrow> bytes"

definition GetCiphertextLength :: "nat \<Rightarrow> nat" where
  "GetCiphertextLength plen = (plen div 16 + 1) * 16"

text \<open>The ciphertext is written into a buffer of \<open>clen_size\<close> zeros.\<close>

definition EncryptBlock :: "cbc \<Rightarrow> bytes \<Rightarrow> bytes \<Rightarrow> bytes \<Rightarrow> nat \<Rightarrow> nat \<Rightarrow> bytes res" where
  "EncryptBlock A key iv plaintext clen_size plaintext_size =
     (if length plaintext < plaintext_size then Inl Undefined_behaviour
      else copy_into 0 (cbc_encrypt A key iv (take plaintext_size plaintext)) (replicate clen_size 0))"

definition DecryptBlock :: "cbc \<Rightarrow> bytes \<Rightarrow> bytes \<Rightarrow> bytes \<Rightarrow> nat \<Rightarrow> bytes res" where
  "DecryptBlock A key iv ciphertext clen_size =
     (if length ciphertext < clen_size then Inl Undefined_behaviour
      else let p = cbc_decrypt A key iv (take clen_size ciphertext)
           in if clen_size < length p then Inl Undefined_behaviour else Inr p)"

definition Encrypt :: "cbc \<Rightarrow> bytes \<Rightarrow> bytes \<Rightarrow> bytes \<Rightarrow> nat \<Rightarrow> nat \<Rightarrow> bytes res" where
  "Encrypt A iv key plaintext clen_size plaintext_size =
     bindE (EncryptBlock A key iv plaintext clen_size plaintext_size) (\<lambda>c. Inr (c @ iv))"

definition Decrypt :: "cbc \<Rightarrow> bytes \<Rightarrow> bytes \<Rightarrow> nat \<Rightarrow> bytes res" where
  "Decrypt A key ciphertext clen_size =
     (if length ciphertext < IV then Inl Undefined_behaviour
      else DecryptBlock A key (drop (length ciphertext - IV) ciphertext) ciphertext clen_size)"

text \<open>
  What is relied on of the cipher: a plaintext grows to the next multiple of 16 and decryption with the same
  key and vector inverts encryption.
\<close>

definition cbc_good :: "cbc \<Rightarrow> bool" where
  "cbc_good A \<longleftrightarrow> (\<forall>k iv p. length (cbc_encrypt A k iv p) = GetCiphertextLength (length p) \<and>
     cbc_decrypt A k iv (cbc_encrypt A k iv p) = p)"

lemma length_le_GetCiphertextLength: "n \<le> GetCiphertextLength n"
  by (simp add: GetCiphertextLength_def)

lemma Decrypt_after_Encrypt:
  assumes "cbc_good A" "length iv = IV"
  shows "\<exists>c. Encrypt A iv key p (GetCiphertextLength (length p)) (length p) = Inr c \<and>
    length c = GetCiphertextLength (length p) + IV \<and> drop (length c - IV) c = iv \<and>
    Decrypt A key c (GetCiphertextLength (length p)) = Inr p"
proof -
  let ?c = "cbc_encrypt A key iv p"
  have c: "length ?c = GetCiphertextLength (length p)" "cbc_decrypt A key iv ?c = p"
    using assms(1) by (simp_all add: cbc_good_def)
  have "Encrypt A iv key p (GetCiphertextLength (length p)) (length p) = Inr (?c @ iv)"
    by (simp add: Encrypt_def EncryptBlock_def copy_into_def c copy_at_def)
  moreover have "Decrypt A key (?c @ iv) (GetCiphertextLength (length p)) = Inr p"
    using assms(2) length_le_GetCiphertextLength[of "length p"]
    by (simp add: Decrypt_def DecryptBlock_def c Let_def)
  ultimately show ?thesis using assms(2) by (intro exI[of _ "?c @ iv"]) (simp add: c)
qed

section \<open>Properties\<close>


text \<open>A cipher that only pads: it meets the assumptions.\<close>

definition pad_cbc :: cbc where
  "pad_cbc = \<lparr>cbc_encrypt = (\<lambda>k iv p. p @ replicate (16 - length p mod 16) (of_nat (16 - length p mod 16))),
     cbc_decrypt = (\<lambda>k iv c. take (length c - unat (last c)) c)\<rparr>"

lemma pad_cbc_good: "cbc_good pad_cbc"
  unfolding cbc_good_def
proof (intro allI conjI)
  fix k iv p :: bytes
  define n where "n = 16 - length p mod 16"
  have n: "0 < n" "n < 2 ^ 8" using mod_less_divisor[of 16 "length p"] by (simp_all add: n_def)
  have c: "cbc_encrypt pad_cbc k iv p = p @ replicate n (of_nat n)" by (simp add: pad_cbc_def n_def)
  have "length p + n = GetCiphertextLength (length p)"
    unfolding GetCiphertextLength_def n_def by (simp add: algebra_simps minus_mod_eq_mult_div[symmetric])
  then show "length (cbc_encrypt pad_cbc k iv p) = GetCiphertextLength (length p)" by (simp add: c)
  have "unat (last (p @ replicate n (of_nat n :: byte))) = n"
    using n by (simp add: last_append unat_of_nat take_bit_nat_eq_self)
  then show "cbc_decrypt pad_cbc k iv (cbc_encrypt pad_cbc k iv p) = p"
    unfolding c by (simp add: pad_cbc_def)
qed


end
