(* ===== verification/Oram.thy ===== *)
theory Oram
  imports Bid Aes
begin

text \<open>
  The tree ORAM of the oblivious map: \<open>src/src/orion/RAMStore.cpp\<close> and \<open>src/src/orion/ORAM.cpp\<close> (identical to the copies
  under \<open>horus\<close>). Buckets of \<open>Z\<close> blocks form a complete binary tree; a node with position \<open>p\<close> is in the cache or in a
  bucket on the path to leaf \<open>p\<close>. An operation fetches paths into the cache and writes them back at its end.

  A \<open>Node*\<close> that the ORAM hands out is the pointer the cache holds under the node's identifier, and the code
  keeps it there until the write back. The model names it by that identifier and reads and updates the node
  in the cache; a null pointer is \<open>None\<close>, also as a cache entry. Positions are leaf numbers, never negative, and
  are naturals. The values of the two random devices are streams in the state.
\<close>

section \<open>RAMStore\<close>

record ram_store =
  rs_store :: "bytes list"
  rs_size :: nat
  emptyNodes :: nat

definition RAMStore :: "nat \<Rightarrow> nat \<Rightarrow> ram_store" where
  "RAMStore count sz = \<lparr>rs_store = replicate count [], rs_size = sz, emptyNodes = count\<rparr>"

definition ram_Read :: "ram_store \<Rightarrow> nat \<Rightarrow> bytes res" where
  "ram_Read st p = (if p < length (rs_store st) then Inr (rs_store st ! p) else Inl Undefined_behaviour)"

definition ram_Write :: "nat \<Rightarrow> bytes \<Rightarrow> ram_store \<Rightarrow> ram_store res" where
  "ram_Write p b st =
     (if p < length (rs_store st) then Inr (st\<lparr>rs_store := (rs_store st)[p := b]\<rparr>) else Inl Undefined_behaviour)"

definition GetBlockCount :: "ram_store \<Rightarrow> nat" where
  "GetBlockCount st = length (rs_store st)"

definition GetEmptySize :: "ram_store \<Rightarrow> nat" where
  "GetEmptySize st = emptyNodes st"

definition ReduceEmptyNumbers :: "ram_store \<Rightarrow> ram_store" where
  "ReduceEmptyNumbers st = st\<lparr>emptyNodes := (if emptyNodes st = 0 then 2 ^ 64 - 1 else emptyNodes st - 1)\<rparr>"

section \<open>Nodes and their representation\<close>

record 'n node =
  n_key :: "'n Bid"
  n_value :: bytes
  n_pos :: nat
  leftID :: "'n Bid"
  leftPos :: nat
  rightID :: "'n Bid"
  rightPos :: nat
  n_height :: nat

text \<open>
  \<open>to_bytes\<close> copies the object representation. A \<open>Bid\<close> has a virtual destructor, so it starts with a pointer to its
  table, whose value the program never looks at; four bytes of padding follow \<open>pos\<close> and \<open>leftPos\<close>.
\<close>

definition vptr :: bytes where "vptr = replicate 8 0"

definition sizeof_Node :: "'n::len itself \<Rightarrow> nat" where
  "sizeof_Node n = 3 * (8 + ID_SIZE TYPE('n)) + 40"

definition convertNodeToBlock :: "'n::len node \<Rightarrow> bytes" where
  "convertNodeToBlock n =
     vptr @ bid_id (n_key n) @ n_value n @ le_bytes 4 (int (n_pos n)) @ replicate 4 0 @
     vptr @ bid_id (leftID n) @ le_bytes 4 (int (leftPos n)) @ replicate 4 0 @
     vptr @ bid_id (rightID n) @ le_bytes 4 (int (rightPos n)) @ le_bytes 4 (int (n_height n))"

definition slice :: "nat \<Rightarrow> nat \<Rightarrow> bytes \<Rightarrow> bytes" where
  "slice off len b = take len (drop off b)"

definition convertBlockToNode :: "bytes \<Rightarrow> 'n::len node res" where
  "convertBlockToNode b =
     (let w = ID_SIZE TYPE('n)
      in if length b < sizeof_Node TYPE('n) then Inl Undefined_behaviour
         else Inr \<lparr>n_key = Bid_array (slice 8 w b), n_value = slice (w + 8) 16 b, n_pos = nat (le_uint (slice (w + 24) 4 b)),
           leftID = Bid_array (slice (w + 40) w b), leftPos = nat (le_uint (slice (2 * w + 40) 4 b)),
           rightID = Bid_array (slice (2 * w + 56) w b), rightPos = nat (le_uint (slice (3 * w + 56) 4 b)),
           n_height = nat (le_uint (slice (3 * w + 60) 4 b))\<rparr>)"

record 'n Block =
  b_id :: "'n Bid"
  b_data :: bytes

type_synonym 'n Bucket = "'n Block list"

definition Z :: nat where "Z = 4"

definition dummy_block :: "nat \<Rightarrow> 'n::len Block" where
  "dummy_block blockSize = \<lparr>b_id = bid_assign_int 0, b_data = replicate blockSize 0\<rparr>"

section \<open>The state\<close>

record 'n oram =
  o_store :: ram_store
  o_depth :: nat
  blockSize :: nat
  cache :: "('n Bid, 'n node option) smap"
  leafList :: "nat list"
  readviewmap :: "nat list"
  writeviewmap :: "nat list"
  modified :: "'n Bid set"
  readCnt :: nat
  o_key :: bytes
  o_aes :: cbc
  o_ivs :: "nat \<Rightarrow> bytes"
  o_dis :: "nat \<Rightarrow> nat"
  plaintext_size :: nat
  bucketCount :: nat
  clen_size :: nat
  batchWrite :: bool

definition oram_RandomPath :: "'n::len oram \<Rightarrow> nat \<times> 'n oram" where
  "oram_RandomPath s = (o_dis s 0, s\<lparr>o_dis := \<lambda>i. o_dis s (Suc i)\<rparr>)"

definition GenerateIV :: "'n::len oram \<Rightarrow> bytes \<times> 'n oram" where
  "GenerateIV s = (o_ivs s 0, s\<lparr>o_ivs := \<lambda>i. o_ivs s (Suc i)\<rparr>)"

section \<open>Buckets\<close>

fun up :: "nat \<Rightarrow> nat \<Rightarrow> nat" where
  "up 0 leaf = leaf"
| "up (Suc n) leaf = up n ((leaf + 1) div 2 - 1)"

definition GetNodeOnPath :: "'n::len oram \<Rightarrow> nat \<Rightarrow> nat \<Rightarrow> nat" where
  "GetNodeOnPath s leaf curDepth = up (o_depth s - curDepth) (leaf + bucketCount s div 2)"

definition SerialiseBucket :: "'n::len oram \<Rightarrow> 'n Bucket \<Rightarrow> bytes res" where
  "SerialiseBucket s bucket =
     (let buffer = concat (map b_data (take Z bucket))
      in if length buffer = Z * blockSize s then Inr buffer else Inl Assertion_failed)"

fun deserialise :: "nat \<Rightarrow> nat \<Rightarrow> bytes \<Rightarrow> 'n::len Bucket res" where
  "deserialise bs 0 buffer = Inr []"
| "deserialise bs (Suc z) buffer =
     (let data = take bs buffer
      in bindE (convertBlockToNode data) (\<lambda>n.
         bindE (deserialise bs z (drop bs buffer)) (\<lambda>rest. Inr (\<lparr>b_id = n_key n, b_data = data\<rparr> # rest))))"

definition DeserialiseBucket :: "'n::len oram \<Rightarrow> bytes \<Rightarrow> 'n Bucket res" where
  "DeserialiseBucket s buffer =
     (if length buffer = Z * blockSize s then deserialise (blockSize s) Z buffer else Inl Assertion_failed)"

definition ReadBucket :: "'n::len oram \<Rightarrow> nat \<Rightarrow> 'n Bucket res" where
  "ReadBucket s index =
     bindE (ram_Read (o_store s) index) (\<lambda>ciphertext.
     bindE (Decrypt (o_aes s) (o_key s) ciphertext (clen_size s)) (DeserialiseBucket s))"

definition WriteBucket :: "nat \<Rightarrow> 'n::len Bucket \<Rightarrow> 'n oram \<Rightarrow> 'n oram res" where
  "WriteBucket index bucket s =
     bindE (SerialiseBucket s bucket) (\<lambda>b.
       let (iv, s1) = GenerateIV s
       in bindE (Encrypt (o_aes s1) iv (o_key s1) b (clen_size s1) (plaintext_size s1)) (\<lambda>ciphertext.
          bindE (ram_Write index ciphertext (o_store s1)) (\<lambda>st. Inr (s1\<lparr>o_store := st\<rparr>))))"

fun floor_log2 :: "nat \<Rightarrow> nat" where
  "floor_log2 n = (if n < 2 then 0 else Suc (floor_log2 (n div 2)))"

declare floor_log2.simps [simp del]

text \<open>
  The constructor. The logarithm of zero, for \<open>maxSize < Z\<close>, has no integer value.
\<close>

definition ORAM :: "cbc \<Rightarrow> (nat \<Rightarrow> bytes) \<Rightarrow> (nat \<Rightarrow> nat) \<Rightarrow> nat \<Rightarrow> bytes \<Rightarrow> 'n::len oram res" where
  "ORAM A ivs rnd maxSize key =
     (if maxSize < Z then Inl Undefined_behaviour
      else let depth = floor_log2 (maxSize div Z);
               count = 2 ^ (depth + 1) - 1;
               clen = GetCiphertextLength (Z * sizeof_Node TYPE('n));
               s = \<lparr>o_store = RAMStore (Z * count) (IV + clen), o_depth = depth, blockSize = sizeof_Node TYPE('n),
                    cache = [], leafList = [], readviewmap = [], writeviewmap = [], modified = {}, readCnt = 0,
                    o_key = key, o_aes = A, o_ivs = ivs, o_dis = rnd, plaintext_size = sizeof_Node TYPE('n) * Z,
                    bucketCount = count, clen_size = clen, batchWrite = False\<rparr>
           in foldE (\<lambda>i. WriteBucket i (replicate Z (dummy_block (sizeof_Node TYPE('n))))) [0..<count] s)"

section \<open>Paths\<close>

definition cache_block :: "'n::len Block \<Rightarrow> 'n oram \<Rightarrow> 'n oram res" where
  "cache_block b s =
     (if bid_ne_int (b_id b) 0
      then bindE (convertBlockToNode (b_data b)) (\<lambda>n.
             Inr (case sm_get (cache s) (b_id b) of
                    None \<Rightarrow> s\<lparr>cache := sm_put (b_id b) (Some n) (cache s)\<rparr>
                  | Some _ \<Rightarrow> s))
      else Inr s)"

definition fetch_bucket :: "nat \<Rightarrow> 'n::len oram \<Rightarrow> 'n oram res" where
  "fetch_bucket i s =
     (if i \<in> set (readviewmap s) then Inr s
      else let s1 = s\<lparr>readviewmap := readviewmap s @ [i]\<rparr>
           in bindE (ReadBucket s1 i) (\<lambda>bucket. foldE cache_block (take Z bucket) s1))"

definition FetchPath :: "nat \<Rightarrow> 'n::len oram \<Rightarrow> 'n oram res" where
  "FetchPath leaf s =
     foldE (\<lambda>d s. fetch_bucket (GetNodeOnPath s leaf d) s) [0..<Suc (o_depth s)] (s\<lparr>readCnt := readCnt s + 1\<rparr>)"

definition GetIntersectingBlocks :: "'n::len oram \<Rightarrow> nat \<Rightarrow> nat \<Rightarrow> 'n Bid list" where
  "GetIntersectingBlocks s x curDepth =
     (let i = GetNodeOnPath s x curDepth
      in take Z (map fst (filter (\<lambda>b. case snd b of None \<Rightarrow> False
                                    | Some n \<Rightarrow> GetNodeOnPath s (n_pos n) curDepth = i) (cache s))))"

definition take_block :: "'n::len oram \<Rightarrow> 'n Bid \<Rightarrow> 'n Block res" where
  "take_block s bid =
     (case sm_get (cache s) bid of
        Some (Some n) \<Rightarrow> Inr \<lparr>b_id = bid, b_data = convertNodeToBlock n\<rparr>
      | _ \<Rightarrow> Inl Undefined_behaviour)"

fun take_blocks :: "'n::len Bid list \<Rightarrow> 'n oram \<Rightarrow> ('n oram \<times> 'n Bucket) res" where
  "take_blocks [] s = Inr (s, [])"
| "take_blocks (bid # bids) s =
     bindE (take_block s bid) (\<lambda>b.
     bindE (take_blocks bids (s\<lparr>cache := sm_erase bid (cache s)\<rparr>)) (\<lambda>(s', bs). Inr (s', b # bs)))"

definition WritePath :: "nat \<Rightarrow> nat \<Rightarrow> 'n::len oram \<Rightarrow> 'n oram res" where
  "WritePath leaf d s =
     (let i = GetNodeOnPath s leaf d
      in if i \<in> set (writeviewmap s) then Inr s
         else let validBlocks = GetIntersectingBlocks s leaf d
              in bindE (take_blocks validBlocks s) (\<lambda>(s1, bs).
                   WriteBucket i (bs @ replicate (Z - length validBlocks) (dummy_block (blockSize s1)))
                     (s1\<lparr>writeviewmap := writeviewmap s1 @ [i]\<rparr>)))"

section \<open>Access\<close>

definition add_leaf :: "nat \<Rightarrow> 'n::len oram \<Rightarrow> 'n oram" where
  "add_leaf leaf s = (if leaf \<in> set (leafList s) then s else s\<lparr>leafList := leafList s @ [leaf]\<rparr>)"

definition mark_modified :: "'n::len Bid \<Rightarrow> 'n oram \<Rightarrow> 'n oram" where
  "mark_modified bid s = s\<lparr>modified := insert bid (modified s)\<rparr>"

definition set_node :: "'n::len Bid \<Rightarrow> 'n node \<Rightarrow> 'n oram \<Rightarrow> 'n oram" where
  "set_node bid n s = s\<lparr>cache := sm_put bid (Some n) (cache s)\<rparr>"

definition ReadData :: "'n::len oram \<Rightarrow> 'n Bid \<Rightarrow> 'n node option" where
  "ReadData s bid = (case sm_get (cache s) bid of None \<Rightarrow> None | Some n \<Rightarrow> n)"

definition WriteData :: "'n::len Bid \<Rightarrow> 'n node \<Rightarrow> 'n oram \<Rightarrow> 'n oram res" where
  "WriteData bid n s =
     (if 0 < GetEmptySize (o_store s)
      then Inr ((set_node bid n s)\<lparr>o_store := ReduceEmptyNumbers (o_store s)\<rparr>)
      else Inl (Runtime_error ''There is no more space in ORAM''))"

definition Access_read :: "'n::len Bid \<Rightarrow> nat \<Rightarrow> nat \<Rightarrow> 'n oram \<Rightarrow> ('n oram \<times> 'n Bid option) res" where
  "Access_read bid lastLeaf newLeaf s =
     bindE (FetchPath lastLeaf s) (\<lambda>s1.
       Inr (case ReadData s1 bid of
              None \<Rightarrow> (s1, None)
            | Some n \<Rightarrow> (add_leaf lastLeaf (set_node bid (n\<lparr>n_pos := newLeaf\<rparr>) s1), Some bid)))"

definition Access_write :: "'n::len Bid \<Rightarrow> 'n node \<Rightarrow> 'n oram \<Rightarrow> 'n oram res" where
  "Access_write bid n s =
     bindE (if batchWrite s then Inr s else FetchPath (n_pos n) s) (\<lambda>s1.
     bindE (WriteData bid n s1) (\<lambda>s2. Inr (add_leaf (n_pos n) s2)))"

text \<open>Following a pointer the ORAM handed out.\<close>

definition deref :: "'n::len oram \<Rightarrow> 'n Bid \<Rightarrow> 'n node res" where
  "deref s bid = (case sm_get (cache s) bid of Some (Some n) \<Rightarrow> Inr n | _ \<Rightarrow> Inl Undefined_behaviour)"

definition ReadNode_cached :: "'n::len oram \<Rightarrow> 'n Bid \<Rightarrow> 'n Bid res" where
  "ReadNode_cached s bid =
     (if bid_eq_int bid 0 then Inl (Runtime_error ''Node id is not set'')
      else case sm_get (cache s) bid of
             None \<Rightarrow> Inl (Runtime_error ''Node not found in the cache'')
           | Some _ \<Rightarrow> Inr bid)"

definition ReadNode :: "'n::len Bid \<Rightarrow> nat \<Rightarrow> nat \<Rightarrow> 'n oram \<Rightarrow> ('n oram \<times> 'n Bid option) res" where
  "ReadNode bid lastLeaf newLeaf s =
     (if bid_eq_int bid 0 then Inr (s, None)
      else if sm_get (cache s) bid = None \<or> lastLeaf \<notin> set (leafList s)
      then bindE (Access_read bid lastLeaf newLeaf s) (\<lambda>(s1, p).
             Inr (case p of None \<Rightarrow> (s1, None) | Some q \<Rightarrow> (mark_modified bid s1, Some q)))
      else bindE (deref s bid) (\<lambda>n. Inr (set_node bid (n\<lparr>n_pos := newLeaf\<rparr>) (mark_modified bid s), Some bid)))"

definition WriteNode :: "'n::len Bid \<Rightarrow> 'n node \<Rightarrow> 'n oram \<Rightarrow> ('n oram \<times> nat) res" where
  "WriteNode bid n s =
     (if bid_eq_int bid 0 then Inl (Runtime_error ''Node id is not set'')
      else if sm_get (cache s) bid = None
      then bindE (Access_write bid n (mark_modified bid s)) (\<lambda>s1. Inr (s1, n_pos n))
      else Inr (mark_modified bid s, n_pos n))"

section \<open>Operations\<close>

definition start :: "bool \<Rightarrow> 'n::len oram \<Rightarrow> 'n oram" where
  "start batch s = s\<lparr>batchWrite := batch, writeviewmap := [], readviewmap := [], readCnt := 0\<rparr>"

text \<open>
  The padding with fake reads. The bounds \<open>depth * 1.45\<close> and \<open>4.35 * depth\<close> are compared as doubles; the least
  integers that are not below them are the rounded-up quotients.
\<close>

definition fake_read :: "'n::len oram \<Rightarrow> 'n oram res" where
  "fake_read s = (let (rnd, s1) = oram_RandomPath s in FetchPath rnd (add_leaf rnd s1))"

definition pad_bound :: "bool \<Rightarrow> 'n::len oram \<Rightarrow> nat" where
  "pad_bound srch s = (if srch then (145 * o_depth s + 99) div 100 else (435 * o_depth s + 99) div 100)"

definition child_pos :: "'n::len oram \<Rightarrow> 'n Bid \<Rightarrow> nat \<Rightarrow> nat res" where
  "child_pos s c p =
     (if bid_ne_int c 0 \<and> sm_get (cache s) c \<noteq> None then bindE (deref s c) (\<lambda>n. Inr (n_pos n)) else Inr p)"

text \<open>One cached node in the loop over the heights that hands out new positions.\<close>

definition update_pos :: "nat \<Rightarrow> 'n::len Bid \<Rightarrow> 'n oram \<Rightarrow> 'n oram res" where
  "update_pos i k s =
     (case sm_get (cache s) k of
        Some (Some n) \<Rightarrow>
          if n_height n = i then
            let (n1, s1) = (if n_key n \<in> modified s
                            then let (p, s') = oram_RandomPath s in (n\<lparr>n_pos := p\<rparr>, s') else (n, s));
                s2 = set_node k n1 s1
            in bindE (child_pos s2 (leftID n1) (leftPos n1)) (\<lambda>lp.
                 let n2 = n1\<lparr>leftPos := lp\<rparr>; s3 = set_node k n2 s2
                 in bindE (child_pos s3 (rightID n2) (rightPos n2)) (\<lambda>rp.
                    Inr (set_node k (n2\<lparr>rightPos := rp\<rparr>) s3)))
          else Inr s
      | _ \<Rightarrow> Inr s)"

definition update_level :: "nat \<Rightarrow> 'n::len oram \<Rightarrow> 'n oram res" where
  "update_level i s = foldE (update_pos i) (map fst (cache s)) s"

definition root_pos :: "'n::len Bid \<Rightarrow> nat \<Rightarrow> 'n oram \<Rightarrow> 'n oram \<times> nat" where
  "root_pos rootKey rootPos s =
     (case sm_get (cache s) rootKey of
        None \<Rightarrow> (s\<lparr>cache := sm_put rootKey None (cache s)\<rparr>, rootPos)
      | Some None \<Rightarrow> (s, rootPos)
      | Some (Some n) \<Rightarrow> (s, n_pos n))"

definition write_back :: "'n::len oram \<Rightarrow> 'n oram res" where
  "write_back s =
     foldE (\<lambda>d s. foldE (\<lambda>leaf. WritePath leaf d) (leafList s) s) (rev [0..<Suc (o_depth s)]) s"

definition finilize :: "bool \<Rightarrow> 'n::len Bid \<Rightarrow> nat \<Rightarrow> 'n oram \<Rightarrow> ('n oram \<times> nat) res" where
  "finilize srch rootKey rootPos s =
     bindE (if batchWrite s then Inr s else foldE (\<lambda>_. fake_read) [readCnt s..<pad_bound srch s] s) (\<lambda>s1.
     bindE (foldE update_level [0..<o_depth s1 + 3] s1) (\<lambda>s2.
       let (s3, rootPos') = root_pos rootKey rootPos s2
       in bindE (write_back s3) (\<lambda>s4. Inr (s4\<lparr>leafList := [], modified := {}\<rparr>, rootPos'))))"

end
