(* ===== verification/AvlTree.thy ===== *)
theory AvlTree
  imports Oram
begin

text \<open>
  The search tree of the oblivious map: \<open>src/src/orion/AVLTree.cpp\<close>. Every node is read from and written to the ORAM. A
  reference argument \<open>int& pos\<close> is an argument and a result. The recursion is over nodes of the store, so the
  definitions take a bound on its depth; \<open>tree_fuel\<close> exceeds the number of nodes the store admits. The fields
  \<open>leftPos\<close> and \<open>rightPos\<close> of a new node are not set by the code and are read only when the child exists; they are
  zero here. The two operands of a comparison of heights are evaluated from left to right.
\<close>

record 'n avltree =
  a_oram :: "'n oram"
  a_dis :: "nat \<Rightarrow> nat"

definition AVLTree :: "cbc \<Rightarrow> (nat \<Rightarrow> bytes) \<Rightarrow> (nat \<Rightarrow> nat) \<Rightarrow> (nat \<Rightarrow> nat) \<Rightarrow> nat \<Rightarrow> bytes \<Rightarrow> 'n::len avltree res" where
  "AVLTree A ivs rnd rnd' maxSize key =
     bindE (ORAM A ivs rnd maxSize key) (\<lambda>s. Inr \<lparr>a_oram = s, a_dis = rnd'\<rparr>)"

definition tree_fuel :: "'n::len avltree \<Rightarrow> nat" where
  "tree_fuel t = 2 ^ (o_depth (a_oram t) + 3)"

definition avl_RandomPath :: "'n::len avltree \<Rightarrow> nat \<times> 'n avltree" where
  "avl_RandomPath t = (a_dis t 0, t\<lparr>a_dis := \<lambda>i. a_dis t (Suc i)\<rparr>)"

section \<open>Access to nodes\<close>

definition get_node :: "'n::len avltree \<Rightarrow> 'n Bid \<Rightarrow> 'n node res" where
  "get_node t k = deref (a_oram t) k"

definition put_node :: "'n::len Bid \<Rightarrow> 'n node \<Rightarrow> 'n avltree \<Rightarrow> 'n avltree" where
  "put_node k n t = t\<lparr>a_oram := set_node k n (a_oram t)\<rparr>"

definition read_node :: "'n::len Bid \<Rightarrow> nat \<Rightarrow> 'n avltree \<Rightarrow> ('n avltree \<times> 'n Bid option) res" where
  "read_node k leaf t = bindE (ReadNode k leaf leaf (a_oram t)) (\<lambda>(s, p). Inr (t\<lparr>a_oram := s\<rparr>, p))"

definition write_node :: "'n::len Bid \<Rightarrow> 'n node \<Rightarrow> 'n avltree \<Rightarrow> ('n avltree \<times> nat) res" where
  "write_node k n t = bindE (WriteNode k n (a_oram t)) (\<lambda>(s, p). Inr (t\<lparr>a_oram := s\<rparr>, p))"

text \<open>\<open>oram->WriteNode(k, node)\<close> for a node that is already in the cache.\<close>

definition rewrite_node :: "'n::len Bid \<Rightarrow> 'n avltree \<Rightarrow> 'n avltree res" where
  "rewrite_node k t = bindE (get_node t k) (\<lambda>n. bindE (write_node k n t) (\<lambda>(t', _). Inr t'))"

definition avl_height :: "'n::len Bid \<Rightarrow> nat \<Rightarrow> 'n avltree \<Rightarrow> ('n avltree \<times> nat) res" where
  "avl_height key leaf t =
     (if bid_eq_int key 0 then Inr (t, 0)
      else bindE (read_node key leaf t) (\<lambda>(t1, p).
             case p of
               None \<Rightarrow> Inl Undefined_behaviour
             | Some q \<Rightarrow> bindE (get_node t1 q) (\<lambda>n. Inr (t1, n_height n))))"

definition newNode :: "'n::len Bid \<Rightarrow> string \<Rightarrow> 'n avltree \<Rightarrow> ('n avltree \<times> 'n node) res" where
  "newNode key value t =
     bindE (copy_into 0 (str_bytes value) (replicate 16 0)) (\<lambda>v.
       let (p, t1) = avl_RandomPath t
       in Inr (t1, \<lparr>n_key = key, n_value = v, n_pos = p, leftID = bid_assign_int 0, leftPos = 0,
                   rightID = bid_assign_int 0, rightPos = 0, n_height = 1\<rparr>))"

definition set_height :: "'n::len Bid \<Rightarrow> 'n avltree \<Rightarrow> 'n avltree res" where
  "set_height k t =
     bindE (get_node t k) (\<lambda>n.
     bindE (avl_height (leftID n) (leftPos n) t) (\<lambda>(t1, hl).
     bindE (avl_height (rightID n) (rightPos n) t1) (\<lambda>(t2, hr).
     bindE (get_node t2 k) (\<lambda>n'. Inr (put_node k (n'\<lparr>n_height := max hl hr + 1\<rparr>) t2)))))"

definition getBalance :: "'n::len Bid \<Rightarrow> 'n avltree \<Rightarrow> ('n avltree \<times> int) res" where
  "getBalance k t =
     bindE (get_node t k) (\<lambda>n.
     bindE (avl_height (leftID n) (leftPos n) t) (\<lambda>(t1, hl).
     bindE (avl_height (rightID n) (rightPos n) t1) (\<lambda>(t2, hr). Inr (t2, int hl - int hr))))"

section \<open>Rotations\<close>

text \<open>The identifier and position of the middle subtree: those of a fresh node when there is none.\<close>

definition middle :: "'n::len Bid \<Rightarrow> 'n avltree \<Rightarrow> ('n avltree \<times> 'n Bid \<times> nat) res" where
  "middle c t =
     (if bid_eq_int c 0
      then bindE (newNode (Bid_int 0) '''' t) (\<lambda>(t1, T2). Inr (t1, n_key T2, n_pos T2))
      else bindE (ReadNode_cached (a_oram t) c) (\<lambda>q. bindE (get_node t q) (\<lambda>T2. Inr (t, n_key T2, n_pos T2))))"

definition rightRotate :: "'n::len Bid \<Rightarrow> 'n avltree \<Rightarrow> ('n avltree \<times> 'n Bid) res" where
  "rightRotate y t =
     bindE (get_node t y) (\<lambda>yn.
     bindE (ReadNode_cached (a_oram t) (leftID yn)) (\<lambda>x.
     bindE (get_node t x) (\<lambda>xn.
     bindE (middle (rightID xn) t) (\<lambda>(t1, T2_key, T2_pos).
       let t2 = put_node x (xn\<lparr>rightID := n_key yn, rightPos := n_pos yn\<rparr>) t1;
           t3 = put_node y (yn\<lparr>leftID := T2_key, leftPos := T2_pos\<rparr>) t2
       in bindE (set_height y t3) (\<lambda>t4.
          bindE (rewrite_node y t4) (\<lambda>t5.
          bindE (set_height x t5) (\<lambda>t6.
          bindE (rewrite_node x t6) (\<lambda>t7. Inr (t7, x)))))))))"

definition leftRotate :: "'n::len Bid \<Rightarrow> 'n avltree \<Rightarrow> ('n avltree \<times> 'n Bid) res" where
  "leftRotate x t =
     bindE (get_node t x) (\<lambda>xn.
     bindE (ReadNode_cached (a_oram t) (rightID xn)) (\<lambda>y.
     bindE (get_node t y) (\<lambda>yn.
     bindE (middle (leftID yn) t) (\<lambda>(t1, T2_key, T2_pos).
       let t2 = put_node y (yn\<lparr>leftID := n_key xn, leftPos := n_pos xn\<rparr>) t1;
           t3 = put_node x (xn\<lparr>rightID := T2_key, rightPos := T2_pos\<rparr>) t2
       in bindE (set_height x t3) (\<lambda>t4.
          bindE (rewrite_node x t4) (\<lambda>t5.
          bindE (set_height y t5) (\<lambda>t6.
          bindE (rewrite_node y t6) (\<lambda>t7. Inr (t7, y)))))))))"

section \<open>Insertion\<close>

text \<open>The result of a rotation at the root of a subtree: its new root and that root's position.\<close>

definition rotated :: "'n::len avltree \<times> 'n Bid \<Rightarrow> ('n avltree \<times> nat \<times> 'n Bid) res" where
  "rotated r = bindE (get_node (fst r) (snd r)) (\<lambda>n. Inr (fst r, n_pos n, n_key n))"

text \<open>The key of a child of the node, read from the cache, as the four conditions do.\<close>

definition child_key :: "'n::len Bid \<Rightarrow> 'n avltree \<Rightarrow> 'n Bid res" where
  "child_key c t = bindE (ReadNode_cached (a_oram t) c) (\<lambda>q. bindE (get_node t q) (\<lambda>n. Inr (n_key n)))"

definition rebalance_left :: "'n::len Bid \<Rightarrow> 'n avltree \<Rightarrow> ('n avltree \<times> nat \<times> 'n Bid) res" where
  "rebalance_left k t =
     bindE (get_node t k) (\<lambda>n.
     bindE (ReadNode_cached (a_oram t) (leftID n)) (\<lambda>x.
     bindE (leftRotate x t) (\<lambda>(t1, q).
     bindE (get_node t1 q) (\<lambda>res.
     bindE (get_node t1 k) (\<lambda>n1.
     bindE (rewrite_node k (put_node k (n1\<lparr>leftID := n_key res, leftPos := n_pos res\<rparr>) t1)) (\<lambda>t2.
     bindE (rightRotate k t2) rotated))))))"

definition rebalance_right :: "'n::len Bid \<Rightarrow> 'n avltree \<Rightarrow> ('n avltree \<times> nat \<times> 'n Bid) res" where
  "rebalance_right k t =
     bindE (get_node t k) (\<lambda>n.
     bindE (ReadNode_cached (a_oram t) (rightID n)) (\<lambda>x.
     bindE (rightRotate x t) (\<lambda>(t1, q).
     bindE (get_node t1 q) (\<lambda>res.
     bindE (get_node t1 k) (\<lambda>n1.
     bindE (rewrite_node k (put_node k (n1\<lparr>rightID := n_key res, rightPos := n_pos res\<rparr>) t1)) (\<lambda>t2.
     bindE (leftRotate k t2) rotated))))))"

text \<open>
  Steps 2 to 4 of the insertion. A condition reads the child only when the balance asks for it; the third and
  fourth conditions read it again.
\<close>

definition rebalance :: "'n::len Bid \<Rightarrow> nat \<Rightarrow> 'n Bid \<Rightarrow> 'n avltree \<Rightarrow> ('n avltree \<times> nat \<times> 'n Bid) res" where
  "rebalance k p key t =
     bindE (set_height k t) (\<lambda>t1.
     bindE (getBalance k t1) (\<lambda>(t2, balance).
     bindE (get_node t2 k) (\<lambda>n.
       if balance > 1 then
         bindE (child_key (leftID n) t2) (\<lambda>c.
           if bid_lt key c then bindE (rightRotate k t2) rotated
           else if bid_gt key c then rebalance_left k t2
           else bindE (rewrite_node k t2) (\<lambda>t3. Inr (t3, p, n_key n)))
       else if balance < -1 then
         bindE (child_key (rightID n) t2) (\<lambda>c.
           if bid_gt key c then bindE (leftRotate k t2) rotated
           else if bid_lt key c then rebalance_right k t2
           else bindE (rewrite_node k t2) (\<lambda>t3. Inr (t3, p, n_key n)))
       else bindE (rewrite_node k t2) (\<lambda>t3. Inr (t3, p, n_key n)))))"

definition set_value :: "'n::len Bid \<Rightarrow> 'n Bid \<Rightarrow> 'n node \<Rightarrow> string \<Rightarrow> 'n avltree \<Rightarrow> 'n avltree res" where
  "set_value rootKey k n value t =
     bindE (copy_into 0 (str_bytes value) (replicate 16 0)) (\<lambda>v.
     bindE (write_node rootKey (n\<lparr>n_value := v\<rparr>) (put_node k (n\<lparr>n_value := v\<rparr>) t)) (\<lambda>(t', _). Inr t'))"

fun avl_insert :: "nat \<Rightarrow> 'n::len Bid \<Rightarrow> nat \<Rightarrow> 'n Bid \<Rightarrow> string \<Rightarrow> 'n avltree \<Rightarrow> ('n avltree \<times> nat \<times> 'n Bid) res" where
  "avl_insert 0 rootKey p key value t = Inl Out_of_fuel"
| "avl_insert (Suc fuel) rootKey p key value t =
     (if bid_eq_int rootKey 0
      then bindE (newNode key value t) (\<lambda>(t1, nnode).
           bindE (write_node key nnode t1) (\<lambda>(t2, p'). Inr (t2, p', n_key nnode)))
      else bindE (read_node rootKey p t) (\<lambda>(t1, q).
             case q of
               None \<Rightarrow> Inl Undefined_behaviour
             | Some k \<Rightarrow>
                 bindE (get_node t1 k) (\<lambda>n.
                   if bid_lt key (n_key n) then
                     bindE (avl_insert fuel (leftID n) (leftPos n) key value t1) (\<lambda>(t2, lp, lid).
                     bindE (get_node t2 k) (\<lambda>n1.
                       rebalance k p key (put_node k (n1\<lparr>leftID := lid, leftPos := lp\<rparr>) t2)))
                   else if bid_gt key (n_key n) then
                     bindE (avl_insert fuel (rightID n) (rightPos n) key value t1) (\<lambda>(t2, rp, rid).
                     bindE (get_node t2 k) (\<lambda>n1.
                       rebalance k p key (put_node k (n1\<lparr>rightID := rid, rightPos := rp\<rparr>) t2)))
                   else bindE (set_value rootKey k n value t1) (\<lambda>t2. Inr (t2, p, n_key n)))))"

section \<open>Search\<close>

text \<open>
  A head is given by its key and position. A head that is not null but has the null identifier is returned as it
  is, and its value was never set; \<open>OMAP::find\<close> does not search an empty map.
\<close>

definition head_of :: "'n::len avltree \<Rightarrow> 'n Bid option \<Rightarrow> ('n Bid \<times> nat) option res" where
  "head_of t q = (case q of None \<Rightarrow> Inr None | Some k \<Rightarrow> bindE (get_node t k) (\<lambda>n. Inr (Some (n_key n, n_pos n))))"

fun avl_search :: "nat \<Rightarrow> ('n::len Bid \<times> nat) option \<Rightarrow> 'n Bid \<Rightarrow> 'n avltree \<Rightarrow> ('n avltree \<times> 'n node option) res" where
  "avl_search 0 hnd key t = Inl Out_of_fuel"
| "avl_search (Suc fuel) hnd key t =
     (case hnd of
        None \<Rightarrow> Inr (t, None)
      | Some (hk, hp) \<Rightarrow>
          if bid_eq_int hk 0 then Inl Undefined_behaviour
          else bindE (read_node hk hp t) (\<lambda>(t1, q).
            case q of
              None \<Rightarrow> Inl Undefined_behaviour
            | Some k \<Rightarrow>
                bindE (get_node t1 k) (\<lambda>n.
                  if bid_gt (n_key n) key then
                    bindE (read_node (leftID n) (leftPos n) t1) (\<lambda>(t2, c).
                    bindE (head_of t2 c) (\<lambda>h. avl_search fuel h key t2))
                  else if bid_lt (n_key n) key then
                    bindE (read_node (rightID n) (rightPos n) t1) (\<lambda>(t2, c).
                    bindE (head_of t2 c) (\<lambda>h. avl_search fuel h key t2))
                  else Inr (t1, Some n))))"

fun avl_batchSearch :: "nat \<Rightarrow> ('n::len Bid \<times> nat) option \<Rightarrow> 'n Bid list \<Rightarrow> 'n avltree \<Rightarrow> ('n avltree \<times> 'n node list) res" where
  "avl_batchSearch 0 hnd keys t = Inl Out_of_fuel"
| "avl_batchSearch (Suc fuel) hnd keys t =
     (case hnd of
        None \<Rightarrow> Inr (t, [])
      | Some (hk, hp) \<Rightarrow>
          if bid_eq_int hk 0 then Inr (t, [])
          else bindE (read_node hk hp t) (\<lambda>(t1, q).
            case q of
              None \<Rightarrow> Inl Undefined_behaviour
            | Some k \<Rightarrow>
                bindE (get_node t1 k) (\<lambda>n.
                  let leftkeys = filter (\<lambda>bid. bid_gt (n_key n) bid) keys;
                      rightkeys = filter (\<lambda>bid. bid_lt (n_key n) bid) keys;
                      found = map (\<lambda>_. n) (filter (\<lambda>bid. bid_eq (n_key n) bid) keys)
                  in bindE (if leftkeys = [] then Inr (t1, [])
                            else bindE (read_node (leftID n) (leftPos n) t1) (\<lambda>(t2, c).
                                 bindE (head_of t2 c) (\<lambda>h. avl_batchSearch fuel h leftkeys t2))) (\<lambda>(t3, ls).
                     bindE (get_node t3 k) (\<lambda>n'.
                     bindE (if rightkeys = [] then Inr (t3, [])
                            else bindE (read_node (rightID n') (rightPos n') t3) (\<lambda>(t4, c).
                                 bindE (head_of t4 c) (\<lambda>h. avl_batchSearch fuel h rightkeys t4))) (\<lambda>(t5, rs).
                     Inr (t5, found @ ls @ rs)))))))"

definition startOperation :: "bool \<Rightarrow> 'n::len avltree \<Rightarrow> 'n avltree" where
  "startOperation batch t = t\<lparr>a_oram := start batch (a_oram t)\<rparr>"

definition finishOperation :: "bool \<Rightarrow> 'n::len Bid \<Rightarrow> nat \<Rightarrow> 'n avltree \<Rightarrow> ('n avltree \<times> nat) res" where
  "finishOperation srch rootKey rootPos t =
     bindE (finilize srch rootKey rootPos (a_oram t)) (\<lambda>(s, p). Inr (t\<lparr>a_oram := s\<rparr>, p))"

end
