(* ===== verification/Omap.thy ===== *)
theory Omap
  imports AvlTree
begin

text \<open>
  The oblivious map: \<open>src/src/orion/OMAP.cpp\<close> (the copy under \<open>horus\<close> is identical). It keeps the root of the search
  tree and its position. A reference argument is an argument and a result, as in the tree. The member
  \<open>rootPos\<close> is not set by the constructor and is first read after an insertion has set it; it starts as zero.
\<close>

record 'n omap =
  rootKey :: "'n Bid"
  rootPos :: nat
  treeHandler :: "'n avltree"

definition OMAP :: "cbc \<Rightarrow> (nat \<Rightarrow> bytes) \<Rightarrow> (nat \<Rightarrow> nat) \<Rightarrow> (nat \<Rightarrow> nat) \<Rightarrow> nat \<Rightarrow> bytes \<Rightarrow> 'n::len omap res" where
  "OMAP A ivs rnd rnd' maxSize key =
     bindE (AVLTree A ivs rnd rnd' maxSize key) (\<lambda>t. Inr \<lparr>rootKey = bid_assign_int 0, rootPos = 0, treeHandler = t\<rparr>)"

definition finish :: "bool \<Rightarrow> 'n::len Bid \<Rightarrow> nat \<Rightarrow> 'n avltree \<Rightarrow> 'n omap res" where
  "finish srch k p t = bindE (finishOperation srch k p t) (\<lambda>(t', p'). Inr \<lparr>rootKey = k, rootPos = p', treeHandler = t'\<rparr>)"

definition omap_find :: "'n::len Bid \<Rightarrow> 'n omap \<Rightarrow> ('n omap \<times> string) res" where
  "omap_find key m =
     (if bid_eq_int (rootKey m) 0 then Inr (m, '''')
      else let t = startOperation False (treeHandler m)
           in bindE (avl_search (tree_fuel t) (Some (rootKey m, rootPos m)) key t) (\<lambda>(t1, resNode).
                let res = (case resNode of None \<Rightarrow> '''' | Some n \<Rightarrow> c_str (bytes_str (n_value n)))
                in bindE (finish True (rootKey m) (rootPos m) t1) (\<lambda>m'. Inr (m', res))))"

definition insert_root :: "'n::len Bid \<Rightarrow> string \<Rightarrow> 'n Bid \<times> nat \<times> 'n avltree \<Rightarrow> ('n Bid \<times> nat \<times> 'n avltree) res" where
  "insert_root key str = (\<lambda>(k, p, t).
     bindE (avl_insert (tree_fuel t) (if bid_eq_int k 0 then Bid_int 0 else k) p key str t) (\<lambda>(t', p', k'). Inr (k', p', t')))"

definition omap_insert :: "'n::len Bid \<Rightarrow> string \<Rightarrow> 'n omap \<Rightarrow> 'n omap res" where
  "omap_insert key str m =
     bindE (insert_root key str (rootKey m, rootPos m, startOperation False (treeHandler m))) (\<lambda>(k, p, t). finish False k p t)"

definition omap_batchInsert :: "('n::len Bid, string) smap \<Rightarrow> 'n omap \<Rightarrow> 'n omap res" where
  "omap_batchInsert pairs m =
     bindE (foldE (\<lambda>(key, str). insert_root key str) pairs (rootKey m, rootPos m, startOperation True (treeHandler m)))
       (\<lambda>(k, p, t). finish False k p t)"

definition omap_batchSearch :: "'n::len Bid list \<Rightarrow> 'n omap \<Rightarrow> ('n omap \<times> string list) res" where
  "omap_batchSearch keys m =
     (let t = startOperation False (treeHandler m)
      in bindE (avl_batchSearch (tree_fuel t) (Some (rootKey m, rootPos m)) keys t) (\<lambda>(t1, resNodes).
           let result = map (\<lambda>n. bytes_str (n_value n)) resNodes
           in bindE (finish True (rootKey m) (rootPos m) t1) (\<lambda>m'. Inr (m', result))))"

end
