(* ===== verification/Orion.thy ===== *)
theory Orion
  imports Omap
begin

text \<open>
  Orion: \<open>src/src/orion/Orion.cpp\<close>. The index is two oblivious maps. \<open>updt\<close> stores under a keyword and an identifier
  the position of that identifier in the keyword's list, or \<open>-1\<close> once it was removed; \<open>srch\<close> stores under a keyword
  and a position the identifier. A removal moves the last identifier of the list to the place that became
  free. During setup the same updates go to two ordered maps, which \<open>endSetup\<close> loads in one batch.

  The members \<open>remove\<close> and \<open>setupRemove\<close> are the same text over two kinds of map, so their body is one
  definition over the operations on the maps. A counter that leaves the range of \<open>int\<close> is undefined.
\<close>

record orion =
  setupPairs1 :: "(2 Bid, string) smap"
  setupPairs2 :: "(2 Bid, string) smap"
  srch :: "2 omap"
  updt :: "2 omap"
  UpdtCnt :: "(string, int) smap"
  LastIND :: "(string, int) smap"

definition key1 :: bytes where "key1 = replicate 128 0"

definition key2 :: bytes where "key2 = 1 # replicate 127 0"

definition int32 :: "int \<Rightarrow> int res" where
  "int32 x = (if in_int32 x then Inr x else Inl Undefined_behaviour)"

text \<open>Each oblivious map has its own random devices.\<close>

record devices =
  d_ivs :: "nat \<Rightarrow> bytes"
  d_oram :: "nat \<Rightarrow> nat"
  d_avl :: "nat \<Rightarrow> nat"

definition open_map :: "cbc \<Rightarrow> devices \<Rightarrow> nat \<Rightarrow> bytes \<Rightarrow> 2 omap res" where
  "open_map A d maxSize key = OMAP A (d_ivs d) (d_oram d) (d_avl d) maxSize key"

definition Orion :: "cbc \<Rightarrow> devices \<Rightarrow> devices \<Rightarrow> nat \<Rightarrow> orion res" where
  "Orion A d1 d2 maxSize =
     bindE (int32 (int maxSize * 4)) (\<lambda>_.
     bindE (open_map A d1 (maxSize * 4) key1) (\<lambda>s.
     bindE (open_map A d2 (maxSize * 4) key2) (\<lambda>u.
       Inr \<lparr>setupPairs1 = [], setupPairs2 = [], srch = s, updt = u, UpdtCnt = [], LastIND = []\<rparr>)))"

definition createBid :: "string \<Rightarrow> int \<Rightarrow> 2 Bid res" where
  "createBid keyword number =
     bindE (Bid_string keyword) (\<lambda>bid :: 2 Bid. Inr (Bid_array (copy_at (ID_SIZE TYPE(2) - 4) (le_bytes 4 number) (bid_id bid))))"

text \<open>\<open>operator[]\<close> of \<open>map<string, int>\<close>: a missing counter is zero.\<close>

definition count_of :: "(string, int) smap \<Rightarrow> string \<Rightarrow> int" where
  "count_of m w = (case sm_get m w of None \<Rightarrow> 0 | Some n \<Rightarrow> n)"

section \<open>Updates\<close>

definition orion_insert :: "string \<Rightarrow> int \<Rightarrow> orion \<Rightarrow> orion res" where
  "orion_insert keyword ind st =
     bindE (createBid keyword ind) (\<lambda>mapKey.
     bindE (omap_find mapKey (updt st)) (\<lambda>(u, updt_cnt).
       if updt_cnt = '''' then
         bindE (int32 (count_of (UpdtCnt st) keyword + 1)) (\<lambda>c.
         bindE (omap_insert mapKey (to_string c) u) (\<lambda>u1.
         bindE (createBid keyword c) (\<lambda>key.
         bindE (omap_insert key (to_string ind) (srch st)) (\<lambda>s1.
           Inr (st\<lparr>updt := u1, srch := s1, UpdtCnt := sm_put keyword c (UpdtCnt st),
                  LastIND := sm_put keyword ind (LastIND st)\<rparr>)))))
       else Inr (st\<lparr>updt := u\<rparr>)))"

definition setupInsert :: "string \<Rightarrow> int \<Rightarrow> orion \<Rightarrow> orion res" where
  "setupInsert keyword ind st =
     bindE (createBid keyword ind) (\<lambda>mapKey.
     bindE (int32 (count_of (UpdtCnt st) keyword + 1)) (\<lambda>c.
     bindE (createBid keyword c) (\<lambda>key.
       Inr (st\<lparr>setupPairs1 := sm_put mapKey (to_string c) (setupPairs1 st),
              setupPairs2 := sm_put key (to_string ind) (setupPairs2 st),
              UpdtCnt := sm_put keyword c (UpdtCnt st), LastIND := sm_put keyword ind (LastIND st)\<rparr>))))"

definition remove_with ::
  "(2 Bid \<Rightarrow> 's \<Rightarrow> ('s \<times> string) res) \<Rightarrow> (2 Bid \<Rightarrow> string \<Rightarrow> 's \<Rightarrow> 's res) \<Rightarrow> string \<Rightarrow> int \<Rightarrow>
   's \<times> 's \<times> (string, int) smap \<times> (string, int) smap \<Rightarrow> ('s \<times> 's \<times> (string, int) smap \<times> (string, int) smap) res" where
  "remove_with get put keyword ind = (\<lambda>(u, s, cnt, last).
     bindE (createBid keyword ind) (\<lambda>mapKey.
     bindE (get mapKey u) (\<lambda>(u1, updt_cnt).
     bindE (stoi updt_cnt) (\<lambda>n.
       if n > 0 then
         bindE (put mapKey (to_string (-1)) u1) (\<lambda>u2.
         bindE (int32 (count_of cnt keyword - 1)) (\<lambda>c.
           if c > 0 then
             bindE (if c + 1 \<noteq> n
                    then let l = count_of last keyword
                         in bindE (createBid keyword l) (\<lambda>curKey.
                            bindE (put curKey updt_cnt u2) (\<lambda>u3.
                            bindE (createBid keyword n) (\<lambda>curKey2.
                            bindE (put curKey2 (to_string l) s) (\<lambda>s1. Inr (u3, s1)))))
                    else Inr (u2, s)) (\<lambda>(u3, s1).
             bindE (createBid keyword c) (\<lambda>key.
             bindE (get key s1) (\<lambda>(s2, idstr).
             bindE (stoi idstr) (\<lambda>lastID. Inr (u3, s2, sm_put keyword c cnt, sm_put keyword lastID last)))))
           else Inr (u2, s, sm_put keyword c cnt, sm_erase keyword last)))
       else Inr (u1, s, cnt, last)))))"

definition orion_remove :: "string \<Rightarrow> int \<Rightarrow> orion \<Rightarrow> orion res" where
  "orion_remove keyword ind st =
     bindE (remove_with omap_find omap_insert keyword ind (updt st, srch st, UpdtCnt st, LastIND st)) (\<lambda>(u, s, cnt, last).
       Inr (st\<lparr>updt := u, srch := s, UpdtCnt := cnt, LastIND := last\<rparr>))"

text \<open>\<open>operator[]\<close> of \<open>map<Bid, string>\<close>, which creates an empty entry for a missing key.\<close>

definition pairs_get :: "'n::len Bid \<Rightarrow> ('n Bid, string) smap \<Rightarrow> (('n Bid, string) smap \<times> string) res" where
  "pairs_get k m = Inr (case sm_get m k of None \<Rightarrow> (sm_put k '''' m, '''') | Some v \<Rightarrow> (m, v))"

definition pairs_put :: "'n::len Bid \<Rightarrow> string \<Rightarrow> ('n Bid, string) smap \<Rightarrow> ('n Bid, string) smap res" where
  "pairs_put k v m = Inr (sm_put k v m)"

definition setupRemove :: "string \<Rightarrow> int \<Rightarrow> orion \<Rightarrow> orion res" where
  "setupRemove keyword ind st =
     bindE (remove_with pairs_get pairs_put keyword ind (setupPairs1 st, setupPairs2 st, UpdtCnt st, LastIND st)) (\<lambda>(u, s, cnt, last).
       Inr (st\<lparr>setupPairs1 := u, setupPairs2 := s, UpdtCnt := cnt, LastIND := last\<rparr>))"

section \<open>Search and setup\<close>

definition orion_search :: "string \<Rightarrow> orion \<Rightarrow> (orion \<times> int list) res" where
  "orion_search keyword st =
     bindE (mapE (createBid keyword)
       (case sm_get (UpdtCnt st) keyword of None \<Rightarrow> [] | Some n \<Rightarrow> map int [1..<Suc (nat n)])) (\<lambda>bids.
     bindE (omap_batchSearch bids (srch st)) (\<lambda>(s, tmpRes).
     bindE (mapE stoi tmpRes) (\<lambda>result. Inr (st\<lparr>srch := s\<rparr>, result))))"

definition beginSetup :: "orion \<Rightarrow> orion" where
  "beginSetup st = st\<lparr>setupPairs1 := [], setupPairs2 := []\<rparr>"

definition endSetup :: "orion \<Rightarrow> orion res" where
  "endSetup st =
     bindE (omap_batchInsert (setupPairs1 st) (updt st)) (\<lambda>u.
     bindE (omap_batchInsert (setupPairs2 st) (srch st)) (\<lambda>s. Inr (st\<lparr>updt := u, srch := s\<rparr>)))"

end
