(* ===== verification/StringMap.thy ===== *)
theory StringMap
  imports Bid
begin

text \<open>
  The interface between Orion and the maps it keeps its index in: oblivious maps in operation, ordered maps during
  setup. A map stores short strings under identifiers whose first four bytes are not all zero, and has room
  for \<open>N\<close> entries.
\<close>

definition good_key :: "'n::len Bid \<Rightarrow> bool" where
  "good_key k \<longleftrightarrow> bid_wf k \<and> \<not> bid_eq_int k 0"

definition good_value :: "string \<Rightarrow> bool" where
  "good_value v \<longleftrightarrow> length v \<le> 16 \<and> CHR 0x00 \<notin> set v"

locale string_map =
  fixes mfind :: "'n::len Bid \<Rightarrow> 's \<Rightarrow> ('s \<times> string) res"
    and mput :: "'n Bid \<Rightarrow> string \<Rightarrow> 's \<Rightarrow> 's res"
    and mrep :: "nat \<Rightarrow> 's \<Rightarrow> ('n Bid \<Rightarrow> string option) \<Rightarrow> bool"
  assumes find_present: "mrep N s f \<Longrightarrow> f k = Some v \<Longrightarrow> \<exists>s'. mfind k s = Inr (s', v) \<and> mrep N s' f"
    and put: "mrep N s f \<Longrightarrow> good_key k \<Longrightarrow> good_value v \<Longrightarrow> card (insert k (dom f)) \<le> N \<Longrightarrow>
      \<exists>s'. mput k v s = Inr s' \<and> mrep N s' (f(k \<mapsto> v))"
    and entries: "mrep N s f \<Longrightarrow> finite (dom f)" "mrep N s f \<Longrightarrow> f k = Some v \<Longrightarrow> good_key k \<and> good_value v"
begin

text \<open>Overwriting an entry needs no room.\<close>

lemma put_present:
  assumes "mrep N s f" "f k \<noteq> None" "good_value v" "card (dom f) \<le> N"
  shows "\<exists>s'. mput k v s = Inr s' \<and> mrep N s' (f(k \<mapsto> v))"
proof (rule put[OF assms(1) _ assms(3)])
  show "good_key k" using assms(1,2) entries(2) by blast
  show "card (insert k (dom f)) \<le> N" using assms(2,4) by (simp add: insert_absorb domIff)
qed

end

text \<open>A map in which one may also look for what is not there.\<close>

locale searched_map = string_map +
  assumes find_absent: "mrep N s f \<Longrightarrow> good_key k \<Longrightarrow> f k = None \<Longrightarrow> \<exists>s'. mfind k s = Inr (s', []) \<and> mrep N s' f"
begin

lemma find_any:
  "mrep N s f \<Longrightarrow> good_key k \<Longrightarrow> \<exists>s'. mfind k s = Inr (s', case f k of None \<Rightarrow> [] | Some v \<Rightarrow> v) \<and> mrep N s' f"
  by (cases "f k") (use find_present find_absent in auto)

end

end
