(* ===== verification/OrionIndex.thy ===== *)
theory OrionIndex
  imports Orion StringMap "HOL-Library.Multiset"
begin

text \<open>
  The index of Orion. Per keyword there is a list of identifiers and a set of removed ones; the two maps and the
  two counters store them. Identifiers of map entries are injective in keyword and number for keywords of at
  most 12 characters.
\<close>

section \<open>Keys and values\<close>

definition good_word :: "string \<Rightarrow> bool" where
  "good_word w \<longleftrightarrow> w \<noteq> [] \<and> length w \<le> 12 \<and> CHR 0x00 \<notin> set w"

definition obid :: "string \<Rightarrow> int \<Rightarrow> 2 Bid" where
  "obid w n = Bid_array (str_bytes w @ replicate (12 - length w) 0 @ le_bytes 4 n)"

lemma createBid_ok: "good_word w \<Longrightarrow> createBid w n = Inr (obid w n)"
  by (simp add: good_word_def createBid_def Bid_string_def copy_into_def copy_at_def obid_def ID_SIZE_def drop_replicate
      take_append min_def le_diff_conv)

lemma obid_wf: "good_word w \<Longrightarrow> bid_wf (obid w n)"
  by (simp add: good_word_def obid_def bid_wf_def ID_SIZE_def)

lemma obid_good: "good_word w \<Longrightarrow> good_key (obid w n)"
proof -
  assume w: "good_word w"
  then obtain c cs where c: "w = c # cs" by (cases w) (simp_all add: good_word_def)
  have "(of_char c :: byte) \<noteq> 0" using str_bytes_nonzero[of w "of_char c"] w by (auto simp: good_word_def c str_bytes_def)
  then have "uint (of_char c :: byte) \<noteq> 0" by (simp add: uint_0_iff)
  then have "\<not> bid_eq_int (obid w n) 0" by (auto simp: bid_eq_int_def obid_def c str_bytes_def list_ex_iff intro!: bexI[of _ 3])
  then show ?thesis using obid_wf[OF w] by (simp add: good_key_def)
qed

text \<open>A keyword is determined by its bytes filled up with zeros.\<close>

lemma padded_word_inj:
  assumes "good_word w" "good_word w'" "str_bytes w @ replicate k 0 = str_bytes w' @ replicate k' 0"
  shows "w = w'"
proof -
  have t: "takeWhile (\<lambda>b. b \<noteq> 0) (str_bytes w @ replicate k 0) = str_bytes w" if "good_word w" for w k
  proof -
    have "takeWhile (\<lambda>b. b \<noteq> (0::byte)) (replicate k 0) = []" by (cases k) simp_all
    moreover have "\<forall>b \<in> set (str_bytes w). b \<noteq> 0" using str_bytes_nonzero that by (auto simp: good_word_def)
    ultimately show ?thesis by (simp add: takeWhile_append2)
  qed
  have "str_bytes w = str_bytes w'" using assms(3) t[OF assms(1)] t[OF assms(2)] by metis
  then show ?thesis using inj_str_bytes by (simp add: inj_eq)
qed

lemma obid_inj:
  assumes "good_word w" "good_word w'" "in_int32 n" "in_int32 n'"
  shows "obid w n = obid w' n' \<longleftrightarrow> w = w' \<and> n = n'"
proof
  assume e: "obid w n = obid w' n'"
  let ?p = "\<lambda>w. str_bytes w @ replicate (12 - length w) 0"
  have l: "length (?p w) = length (?p w')" using assms(1,2) by (simp add: good_word_def)
  from e have e': "?p w @ le_bytes 4 n = ?p w' @ le_bytes 4 n'" by (simp add: obid_def)
  then have p: "?p w = ?p w'" "le_bytes 4 n = le_bytes 4 n'" using append_eq_append_conv[OF disjI1[OF l]] by blast+
  show "w = w' \<and> n = n'" using padded_word_inj[OF assms(1,2) p(1)] le_bytes_4_int32_inj[OF assms(3,4) p(2)] by simp
qed simp

lemma to_string_good: "in_int32 x \<Longrightarrow> good_value (to_string x)"
proof -
  assume x: "in_int32 x"
  with length_to_string_int32[OF x] to_string_no_nul show ?thesis by (simp add: good_value_def)
qed

section \<open>One keyword\<close>

text \<open>
  \<open>word_ok U S xs R c l\<close>: the entries \<open>U\<close> (by identifier) and \<open>S\<close> (by position), the counter \<open>c\<close> and the last identifier \<open>l\<close> of a
  keyword store the list \<open>xs\<close> and the removed identifiers \<open>R\<close>.
\<close>

definition word_ok :: "(int \<Rightarrow> string option) \<Rightarrow> (nat \<Rightarrow> string option) \<Rightarrow> int list \<Rightarrow> int set \<Rightarrow> int \<Rightarrow> int \<Rightarrow> bool" where
  "word_ok U S xs R c l \<longleftrightarrow> distinct xs \<and> (\<forall>x \<in> set xs \<union> R. in_int32 x) \<and> set xs \<inter> R = {} \<and> c = int (length xs) \<and>
     (xs \<noteq> [] \<longrightarrow> l = List.last xs) \<and>
     (\<forall>i < length xs. U (xs ! i) = Some (to_string (int i + 1)) \<and> S (Suc i) = Some (to_string (xs ! i))) \<and>
     (\<forall>x \<in> R. U x = Some (to_string (-1))) \<and> (\<forall>x. in_int32 x \<longrightarrow> x \<notin> set xs \<union> R \<longrightarrow> U x = None)"

lemma word_ok_cong:
  assumes "\<And>x. in_int32 x \<Longrightarrow> U x = U' x" "\<And>i. i \<le> length xs \<Longrightarrow> S i = S' i"
  shows "word_ok U S xs R c l \<longleftrightarrow> word_ok U' S' xs R c l"
proof -
  have "(\<forall>i < length xs. U (xs ! i) = Some (to_string (int i + 1)) \<and> S (Suc i) = Some (to_string (xs ! i))) \<longleftrightarrow>
    (\<forall>i < length xs. U' (xs ! i) = Some (to_string (int i + 1)) \<and> S' (Suc i) = Some (to_string (xs ! i)))"
    if "\<forall>x \<in> set xs \<union> R. in_int32 x"
    using that assms by (metis UnI1 Suc_leI nth_mem)
  moreover have "(\<forall>x \<in> R. U x = Some (to_string (-1))) \<longleftrightarrow> (\<forall>x \<in> R. U' x = Some (to_string (-1)))"
    if "\<forall>x \<in> set xs \<union> R. in_int32 x"
    using that assms(1) by simp
  ultimately show ?thesis unfolding word_ok_def using assms(1) by (auto 0 3)
qed

lemma word_ok_append:
  assumes "word_ok U S xs R c l" "x \<notin> set xs" "in_int32 x"
  shows "word_ok (U(x \<mapsto> to_string (c + 1))) (S(Suc (length xs) \<mapsto> to_string x)) (xs @ [x]) (R - {x}) (c + 1) x"
  using assms unfolding word_ok_def
  by (auto simp: nth_append less_Suc_eq dest: nth_mem)

definition swap_out :: "nat \<Rightarrow> 'a list \<Rightarrow> 'a list" where
  "swap_out i xs = (if Suc i = length xs then butlast xs else (butlast xs)[i := List.last xs])"

lemma length_swap_out [simp]: "length (swap_out i xs) = length xs - 1"
  by (simp add: swap_out_def)

lemma nth_swap_out:
  "i < length xs \<Longrightarrow> j < length xs - 1 \<Longrightarrow> swap_out i xs ! j = (if j = i then List.last xs else xs ! j)"
  by (auto simp: swap_out_def nth_butlast)

lemma mset_swap_out: "i < length xs \<Longrightarrow> add_mset (xs ! i) (mset (swap_out i xs)) = mset xs"
proof -
  assume i: "i < length xs"
  then have xs: "xs = butlast xs @ [List.last xs]" by (cases xs) simp_all
  show ?thesis
  proof (cases "Suc i = length xs")
    case True
    then have "xs ! i = List.last xs" by (metis diff_Suc_1 last_conv_nth length_0_conv nat.distinct(1))
    with True show ?thesis using arg_cong[OF xs, of mset] by (simp add: swap_out_def)
  next
    case False
    with i have j: "i < length (butlast xs)" "xs ! i = butlast xs ! i" by (auto simp: nth_butlast)
    then have "add_mset (xs ! i) (mset ((butlast xs)[i := List.last xs])) = add_mset (List.last xs) (mset (butlast xs))"
      using nth_mem_mset[OF j(1)] by (simp add: mset_update)
    with False show ?thesis using arg_cong[OF xs, of mset] by (simp add: swap_out_def)
  qed
qed

lemma swap_out_set:
  assumes "distinct xs" "i < length xs"
  shows "distinct (swap_out i xs)" "set (swap_out i xs) = set xs - {xs ! i}"
proof -
  have m: "mset (xs ! i # swap_out i xs) = mset xs" using mset_swap_out[OF assms(2)] by simp
  have "distinct (xs ! i # swap_out i xs)" using mset_eq_imp_distinct_iff[OF m] assms(1) by simp
  moreover have "set (xs ! i # swap_out i xs) = set xs" by (rule mset_eq_setD[OF m])
  ultimately show "distinct (swap_out i xs)" "set (swap_out i xs) = set xs - {xs ! i}" by auto
qed

lemma word_ok_remove:
  assumes ok: "word_ok U S xs R c l" and i: "i < length xs"
  defines "U' \<equiv> (if Suc i = length xs then U(xs ! i \<mapsto> to_string (-1))
                  else U(xs ! i \<mapsto> to_string (-1), List.last xs \<mapsto> to_string (int i + 1)))"
    and "S' \<equiv> (if Suc i = length xs then S else S(Suc i \<mapsto> to_string (List.last xs)))"
  shows "swap_out i xs \<noteq> [] \<Longrightarrow> S' (length xs - 1) = Some (to_string (List.last (swap_out i xs)))"
    and "(swap_out i xs \<noteq> [] \<Longrightarrow> l' = List.last (swap_out i xs)) \<Longrightarrow> word_ok U' S' (swap_out i xs) (insert (xs ! i) R) (c - 1) l'"
proof -
  let ?ys = "swap_out i xs" and ?n = "length xs"
  have w: "distinct xs" "\<forall>x \<in> set xs \<union> R. in_int32 x" "set xs \<inter> R = {}" "c = int ?n" "\<forall>x \<in> R. U x = Some (to_string (-1))"
    "\<And>x. in_int32 x \<Longrightarrow> x \<notin> set xs \<union> R \<Longrightarrow> U x = None" using ok by (simp_all add: word_ok_def)
  have n: "U (xs ! j) = Some (to_string (int j + 1))" "S (Suc j) = Some (to_string (xs ! j))" if "j < ?n" for j
    using ok that by (simp_all add: word_ok_def)
  have la: "List.last xs = xs ! (?n - 1)" using i by (cases xs) (simp_all add: last_conv_nth)
  note ys = swap_out_set[OF w(1) i]
  have U: "U' (?ys ! j) = Some (to_string (int j + 1))" and S: "S' (Suc j) = Some (to_string (?ys ! j))" if j: "j < ?n - 1" for j
  proof -
    have "xs ! j \<noteq> List.last xs" "xs ! j = xs ! i \<longleftrightarrow> j = i" using j i w(1) la by (auto simp: nth_eq_iff_index_eq)
    then show "U' (?ys ! j) = Some (to_string (int j + 1))" "S' (Suc j) = Some (to_string (?ys ! j))"
      using j n[of j] by (auto simp: nth_swap_out[OF i j] U'_def S'_def)
  qed
  show "S' (?n - 1) = Some (to_string (List.last ?ys))" if "?ys \<noteq> []"
  proof -
    have "0 < ?n - 1" using that by (metis length_swap_out length_greater_0_conv)
    then have "?n - 2 < ?n - 1" "Suc (?n - 2) = ?n - 1" by simp_all
    with S[of "?n - 2"] that show ?thesis by (simp add: last_conv_nth numeral_2_eq_2)
  qed
  have li: "List.last xs \<in> set xs" "xs ! i \<in> set xs" using i by (auto simp: la intro!: nth_mem)
  have "U' x = Some (to_string (-1))" if "x \<in> insert (xs ! i) R" for x
  proof (cases "x = xs ! i")
    case True
    have "List.last xs = xs ! i \<Longrightarrow> Suc i = ?n" using i w(1) la by (auto simp: nth_eq_iff_index_eq)
    with True show ?thesis by (auto simp: U'_def)
  next
    case False
    with that have "x \<in> R" "x \<noteq> List.last xs" using w(3) li by auto
    with False w(5) show ?thesis by (simp add: U'_def)
  qed
  moreover have "U' x = None" if "in_int32 x" "x \<notin> set ?ys \<union> insert (xs ! i) R" for x
  proof -
    have "x \<notin> set xs \<union> R" "x \<noteq> xs ! i" using that(2) ys(2) by auto
    with w(6)[OF that(1)] li show ?thesis by (auto simp: U'_def)
  qed
  moreover have "c - 1 = int (length ?ys)" using i w(4) by (simp add: of_nat_diff)
  moreover have "set ?ys \<inter> insert (xs ! i) R = {}" "\<forall>x \<in> set ?ys \<union> insert (xs ! i) R. in_int32 x"
    using ys(2) w(2,3) li by auto
  ultimately show "word_ok U' S' ?ys (insert (xs ! i) R) (c - 1) l'" if "?ys \<noteq> [] \<Longrightarrow> l' = List.last ?ys"
    using ys(1) U S that by (simp add: word_ok_def)
qed

section \<open>The whole index\<close>

definition held :: "(string \<Rightarrow> int list) \<Rightarrow> (string \<Rightarrow> int set) \<Rightarrow> (string \<times> int) set" where
  "held L R = {(w, x). x \<in> set (L w) \<union> R w}"

definition slots :: "(string \<Rightarrow> int list) \<Rightarrow> (string \<Rightarrow> int set) \<Rightarrow> (string \<times> nat) set" where
  "slots L R = {(w, i). 1 \<le> i \<and> i \<le> card (set (L w) \<union> R w)}"

definition index :: "nat \<Rightarrow> (string \<Rightarrow> int list) \<Rightarrow> (string \<Rightarrow> int set) \<Rightarrow> (2 Bid \<Rightarrow> string option) \<Rightarrow> (2 Bid \<Rightarrow> string option) \<Rightarrow>
    (string, int) smap \<Rightarrow> (string, int) smap \<Rightarrow> bool" where
  "index N L R fu fs cnt lst \<longleftrightarrow> N < 2 ^ 31 - 1 \<and> finite (held L R) \<and> card (held L R) \<le> N \<and>
     (\<forall>w. if good_word w then word_ok (\<lambda>x. fu (obid w x)) (\<lambda>i. fs (obid w (int i))) (L w) (R w) (count_of cnt w) (count_of lst w)
          else L w = [] \<and> R w = {}) \<and>
     dom fu \<subseteq> (\<lambda>(w, x). obid w x) ` held L R \<and> dom fs \<subseteq> (\<lambda>(w, i). obid w (int i)) ` slots L R"

lemma card_slots:
  assumes "finite (held L R)"
  shows "finite (slots L R)" "card (slots L R) = card (held L R)"
proof -
  let ?A = "fst ` held L R" and ?H = "\<lambda>w. set (L w) \<union> R w"
  have fin: "finite ?A" "finite (?H w)" for w
  proof -
    show "finite ?A" using assms by simp
    have "?H w \<subseteq> snd ` held L R" by (force simp: held_def)
    then show "finite (?H w)" using assms by (meson finite_imageI finite_subset)
  qed
  have h: "held L R = Sigma ?A ?H" by (force simp: held_def)
  have "w \<in> ?A" if "?H w \<noteq> {}" for w
  proof -
    from that obtain x where "x \<in> ?H w" by (meson all_not_in_conv)
    then have "(w, x) \<in> held L R" by (simp add: held_def)
    then show ?thesis by (metis fst_conv imageI)
  qed
  then have A: "w \<in> ?A" if "1 \<le> i" "i \<le> card (?H w)" for w i
    using that by (metis card.empty not_one_le_zero order_trans)
  have s: "slots L R = Sigma ?A (\<lambda>w. {1..card (?H w)})"
    unfolding slots_def using A by (simp add: set_eq_iff) blast
  show "finite (slots L R)" unfolding s by (rule finite_SigmaI) (use fin in simp_all)
  show "card (slots L R) = card (held L R)"
    unfolding s by (subst (2) h) (use fin in \<open>simp add: card_SigmaI\<close>)
qed

lemma index_dom:
  assumes "index N L R fu fs cnt lst"
  shows "card (dom fu) \<le> N" "card (dom fs) \<le> N"
proof -
  have i: "finite (held L R)" "card (held L R) \<le> N" "dom fu \<subseteq> (\<lambda>(w, x). obid w x) ` held L R"
    "dom fs \<subseteq> (\<lambda>(w, i). obid w (int i)) ` slots L R" using assms by (simp_all add: index_def)
  note s = card_slots[OF i(1)]
  show "card (dom fu) \<le> N" using card_mono[OF finite_imageI[OF i(1)] i(3)] card_image_le[OF i(1)] i(2) by (meson le_trans)
  show "card (dom fs) \<le> N" using card_mono[OF finite_imageI[OF s(1)] i(4)] card_image_le[OF s(1)] s(2) i(2) by (metis le_trans)
qed

lemma index_word:
  "index N L R fu fs cnt lst \<Longrightarrow> good_word w \<Longrightarrow>
    word_ok (\<lambda>x. fu (obid w x)) (\<lambda>i. fs (obid w (int i))) (L w) (R w) (count_of cnt w) (count_of lst w)"
  by (simp add: index_def)

lemma index_length:
  assumes "index N L R fu fs cnt lst"
  shows "length (L w) \<le> card (set (L w) \<union> R w)" "card (set (L w) \<union> R w) \<le> N"
proof -
  have i: "finite (held L R)" "card (held L R) \<le> N" using assms by (simp_all add: index_def)
  have sub: "Pair w ` (set (L w) \<union> R w) \<subseteq> held L R" by (auto simp: held_def)
  then have fin: "finite (set (L w) \<union> R w)" using finite_subset[OF _ i(1)] finite_imageD[of "Pair w"] by (meson inj_onI prod.inject)
  have "card (set (L w) \<union> R w) = card (Pair w ` (set (L w) \<union> R w))" by (rule card_image[symmetric]) (simp add: inj_on_def)
  then show "card (set (L w) \<union> R w) \<le> N" using card_mono[OF i(1) sub] i(2) by simp
  have "distinct (L w)"
  proof (cases "good_word w")
    case True
    from index_word[OF assms this] show ?thesis by (simp add: word_ok_def)
  next
    case False
    then have "L w = []" using assms unfolding index_def by metis
    then show ?thesis by simp
  qed
  then have "length (L w) = card (set (L w))" by (simp add: distinct_card)
  then show "length (L w) \<le> card (set (L w) \<union> R w)" using card_mono[OF fin, of "set (L w)"] by simp
qed

section \<open>Updates of the index\<close>

lemma small_int32: "i \<le> N \<Longrightarrow> N < 2 ^ 31 - 1 \<Longrightarrow> in_int32 (int i)" "i \<le> N \<Longrightarrow> N < 2 ^ 31 - 1 \<Longrightarrow> in_int32 (int i + 1)"
  by (simp_all add: in_int32_def)

lemma index_upd:
  assumes ix: "index N L R fu fs cnt lst" and w: "good_word w"
    and word: "word_ok (\<lambda>x. fu' (obid w x)) (\<lambda>i. fs' (obid w (int i))) xs R' (count_of cnt' w) (count_of lst' w)"
    and fu: "\<And>w' y. good_word w' \<Longrightarrow> w' \<noteq> w \<Longrightarrow> in_int32 y \<Longrightarrow> fu' (obid w' y) = fu (obid w' y)"
    and fs: "\<And>w' y. good_word w' \<Longrightarrow> w' \<noteq> w \<Longrightarrow> in_int32 y \<Longrightarrow> fs' (obid w' y) = fs (obid w' y)"
    and cnt: "\<And>w'. w' \<noteq> w \<Longrightarrow> count_of cnt' w' = count_of cnt w' \<and> count_of lst' w' = count_of lst w'"
    and h: "held (L(w := xs)) (R(w := R')) = H" "finite H" "card H \<le> N"
    and d: "dom fu' \<subseteq> (\<lambda>(w, x). obid w x) ` H" "dom fs' \<subseteq> (\<lambda>(w, i). obid w (int i)) ` slots (L(w := xs)) (R(w := R'))"
  shows "index N (L(w := xs)) (R(w := R')) fu' fs' cnt' lst'"
proof -
  have N: "N < 2 ^ 31 - 1" using ix by (simp add: index_def)
  have "if good_word v then word_ok (\<lambda>x. fu' (obid v x)) (\<lambda>i. fs' (obid v (int i))) ((L(w := xs)) v) ((R(w := R')) v) (count_of cnt' v) (count_of lst' v)
        else (L(w := xs)) v = [] \<and> (R(w := R')) v = {}" for v
  proof (cases "v = w")
    case True
    then show ?thesis using w word by simp
  next
    case False
    show ?thesis
    proof (cases "good_word v")
      case True
      have "i \<le> N" if "i \<le> length (L v)" for i using that index_length[OF ix, of v] by linarith
      then have "word_ok (\<lambda>x. fu' (obid v x)) (\<lambda>i. fs' (obid v (int i))) (L v) (R v) (count_of cnt v) (count_of lst v)"
        using index_word[OF ix True] fu[OF True False] fs[OF True False] small_int32(1)[OF _ N]
          word_ok_cong[of "\<lambda>x. fu (obid v x)" "\<lambda>x. fu' (obid v x)" "L v" "\<lambda>i. fs (obid v (int i))" "\<lambda>i. fs' (obid v (int i))"] by simp
      then show ?thesis using True False cnt[OF False] by simp
    next
      case nf: False
      then have "L v = [] \<and> R v = {}" using ix unfolding index_def by metis
      with nf False show ?thesis by simp
    qed
  qed
  then show ?thesis using N h d unfolding index_def by (intro conjI allI) (simp_all only:)
qed

lemma count_of_put: "count_of (sm_put w c m) v = (if v = w then c else count_of m v)"
  by (simp add: count_of_def sm_get_put)

lemma count_of_erase: "v \<noteq> w \<Longrightarrow> count_of (sm_erase w m) v = count_of m v"
  by (simp add: count_of_def sm_get_erase)

lemma slots_mono:
  assumes "\<And>v. finite (set (L' v) \<union> R' v)" "\<And>v. set (L v) \<union> R v \<subseteq> set (L' v) \<union> R' v"
  shows "slots L R \<subseteq> slots L' R'"
  using card_mono[OF assms] by (auto simp: slots_def intro: le_trans)

lemma index_finite: "index N L R fu fs cnt lst \<Longrightarrow> finite (set (L w) \<union> R w)"
proof -
  assume "index N L R fu fs cnt lst"
  then have "finite (held L R)" by (simp add: index_def)
  moreover have "set (L w) \<union> R w \<subseteq> snd ` held L R" by (force simp: held_def)
  ultimately show ?thesis by (meson finite_imageI finite_subset)
qed

lemma index_append:
  assumes ix: "index N L R fu fs cnt lst" and w: "good_word w" and x: "in_int32 x" "x \<notin> set (L w)"
    and room: "card (insert (w, x) (held L R)) \<le> N"
  defines "c \<equiv> count_of cnt w + 1"
  shows "index N (L(w := L w @ [x])) (R(w := R w - {x})) (fu(obid w x \<mapsto> to_string c)) (fs(obid w c \<mapsto> to_string x)) (sm_put w c cnt) (sm_put w x lst)"
    and "in_int32 c" "card (insert (obid w x) (dom fu)) \<le> N" "card (insert (obid w c) (dom fs)) \<le> N"
proof -
  let ?L = "L(w := L w @ [x])" and ?R = "R(w := R w - {x})"
  have i: "N < 2 ^ 31 - 1" "finite (held L R)" "dom fu \<subseteq> (\<lambda>(w, x). obid w x) ` held L R"
    "dom fs \<subseteq> (\<lambda>(w, i). obid w (int i)) ` slots L R" using ix by (simp_all add: index_def)
  note wd = index_word[OF ix w]
  have c: "c = int (Suc (length (L w)))" using wd by (simp add: word_ok_def c_def)
  have h: "held ?L ?R = insert (w, x) (held L R)" by (auto simp: held_def split: if_splits)
  have fin: "finite (insert (w, x) (held L R))" using i(2) by simp
  have len: "Suc (length (L w)) \<le> card (set (?L w) \<union> ?R w)"
  proof -
    have "distinct (L w @ [x])" using wd x(2) by (simp add: word_ok_def)
    then have "Suc (length (L w)) = card (set (L w @ [x]))" by (metis distinct_card length_append_singleton)
    moreover have "finite (set (?L w) \<union> ?R w)" using index_finite[OF ix, of w] by simp
    moreover have "set (L w @ [x]) \<subseteq> set (?L w) \<union> ?R w" by auto
    ultimately show ?thesis by (metis card_mono)
  qed
  have finh: "finite (set (?L v) \<union> ?R v)" for v using index_finite[OF ix, of v] by auto
  have sl: "slots L R \<subseteq> slots ?L ?R" by (rule slots_mono[OF finh]) auto
  have cs: "finite (slots ?L ?R)" "card (slots ?L ?R) \<le> N" using card_slots[of ?L ?R] h fin room by simp_all
  have sc: "(w, Suc (length (L w))) \<in> slots ?L ?R" using len by (simp add: slots_def)
  have "card (set (?L w) \<union> ?R w) \<le> N"
  proof -
    have "Pair w ` (set (?L w) \<union> ?R w) \<subseteq> held ?L ?R" by (auto simp: held_def)
    then have "card (Pair w ` (set (?L w) \<union> ?R w)) \<le> card (held ?L ?R)" using fin h by (intro card_mono) simp_all
    moreover have "card (Pair w ` (set (?L w) \<union> ?R w)) = card (set (?L w) \<union> ?R w)" by (rule card_image) (simp add: inj_on_def)
    ultimately show ?thesis using room h by (metis le_trans)
  qed
  then have cN: "Suc (length (L w)) \<le> N" using len by simp
  show c32: "in_int32 c" unfolding c by (rule small_int32(1)[OF cN i(1)])
  have du: "insert (obid w x) (dom fu) \<subseteq> (\<lambda>(w, x). obid w x) ` insert (w, x) (held L R)" using i(3) by auto
  have ds: "insert (obid w c) (dom fs) \<subseteq> (\<lambda>(w, i). obid w (int i)) ` slots ?L ?R"
  proof (rule insert_subsetI)
    show "obid w c \<in> (\<lambda>(w, i). obid w (int i)) ` slots ?L ?R" by (rule image_eqI[OF _ sc]) (simp add: c)
    show "dom fs \<subseteq> (\<lambda>(w, i). obid w (int i)) ` slots ?L ?R" using i(4) sl by (meson image_mono order_trans)
  qed
  show "card (insert (obid w x) (dom fu)) \<le> N"
    using card_mono[OF finite_imageI[OF fin] du] card_image_le[OF fin] room by (meson le_trans)
  show "card (insert (obid w c) (dom fs)) \<le> N"
    using card_mono[OF finite_imageI[OF cs(1)] ds] card_image_le[OF cs(1)] cs(2) by (meson le_trans)
  have word: "word_ok (\<lambda>y. (fu(obid w x \<mapsto> to_string c)) (obid w y)) (\<lambda>i. (fs(obid w c \<mapsto> to_string x)) (obid w (int i))) (L w @ [x]) (R w - {x}) c x"
  proof -
    have "j \<le> N" if "j \<le> length (L w @ [x])" for j using that cN by simp
    then show ?thesis
      using word_ok_append[OF wd x(2,1)] obid_inj[OF w w] x(1) c32 c small_int32(1)[OF _ i(1)]
      by (subst word_ok_cong[where U' = "(\<lambda>y. fu (obid w y))(x \<mapsto> to_string c)" and S' = "(\<lambda>i. fs (obid w (int i)))(Suc (length (L w)) \<mapsto> to_string x)"])
        (auto simp: c_def)
  qed
  show "index N ?L ?R (fu(obid w x \<mapsto> to_string c)) (fs(obid w c \<mapsto> to_string x)) (sm_put w c cnt) (sm_put w x lst)"
    by (rule index_upd[OF ix w _ _ _ _ h fin room]) (use word obid_inj[OF _ w] x(1) c32 du ds in \<open>simp_all add: count_of_put\<close>)
qed

lemma index_remove:
  assumes ix: "index N L R fu fs cnt lst" and w: "good_word w" and i: "i < length (L w)"
  defines "xs \<equiv> L w"
  defines "fu' \<equiv> (if Suc i = length xs then fu(obid w (xs ! i) \<mapsto> to_string (-1))
                   else fu(obid w (xs ! i) \<mapsto> to_string (-1), obid w (List.last xs) \<mapsto> to_string (int i + 1)))"
    and "fs' \<equiv> (if Suc i = length xs then fs else fs(obid w (int i + 1) \<mapsto> to_string (List.last xs)))"
  assumes lst: "swap_out i xs \<noteq> [] \<Longrightarrow> count_of lst' w = List.last (swap_out i xs)" "\<And>v. v \<noteq> w \<Longrightarrow> count_of lst' v = count_of lst v"
  shows "index N (L(w := swap_out i xs)) (R(w := insert (xs ! i) (R w))) fu' fs' (sm_put w (int (length xs) - 1) cnt) lst'"
    and "swap_out i xs \<noteq> [] \<Longrightarrow> fs' (obid w (int (length xs) - 1)) = Some (to_string (List.last (swap_out i xs)))"
proof -
  let ?L = "L(w := swap_out i xs)" and ?R = "R(w := insert (xs ! i) (R w))"
  have ii: "N < 2 ^ 31 - 1" "finite (held L R)" "card (held L R) \<le> N" "dom fu \<subseteq> (\<lambda>(w, x). obid w x) ` held L R"
    "dom fs \<subseteq> (\<lambda>(w, i). obid w (int i)) ` slots L R" using ix by (simp_all add: index_def)
  have i': "i < length xs" using i by (simp add: xs_def)
  have wd: "word_ok (\<lambda>x. fu (obid w x)) (\<lambda>i. fs (obid w (int i))) xs (R w) (count_of cnt w) (count_of lst w)"
    using index_word[OF ix w] by (simp add: xs_def)
  then have x: "distinct xs" "\<And>x. x \<in> set xs \<Longrightarrow> in_int32 x" "count_of cnt w = int (length xs)"
    "\<And>j. j < length xs \<Longrightarrow> fu (obid w (xs ! j)) \<noteq> None \<and> fs (obid w (int (Suc j))) \<noteq> None" by (auto simp: word_ok_def)
  have li: "List.last xs \<in> set xs" "xs ! i \<in> set xs" "List.last xs = xs ! (length xs - 1)"
  proof -
    have "xs \<noteq> []" using i' by auto
    then show "List.last xs \<in> set xs" "List.last xs = xs ! (length xs - 1)" by (simp_all add: last_conv_nth)
    show "xs ! i \<in> set xs" using i' by simp
  qed
  have len: "j \<le> N" if "j \<le> length xs" for j using that index_length[OF ix, of w] unfolding xs_def by linarith
  note n32 = small_int32(1)[OF len ii(1)]
  have set: "set (swap_out i xs) \<union> insert (xs ! i) (R w) = set (L w) \<union> R w"
    using swap_out_set(2)[OF x(1) i'] li(2) by (auto simp: xs_def)
  have same: "set (?L v) \<union> ?R v = set (L v) \<union> R v" for v by (cases "v = w") (simp only: set fun_upd_same, simp)
  have h: "held ?L ?R = held L R" unfolding held_def same ..
  have sl: "slots ?L ?R = slots L R" unfolding slots_def same ..
  have du: "dom fu' \<subseteq> dom fu" using x(4)[OF i'] x(4)[of "length xs - 1"] i' li(3) by (auto simp: fu'_def)
  have ds: "dom fs' \<subseteq> dom fs" using x(4)[OF i'] by (auto simp: fs'_def add.commute)
  define U where "U = (if Suc i = length xs then (\<lambda>x. fu (obid w x))(xs ! i \<mapsto> to_string (-1))
                  else (\<lambda>x. fu (obid w x))(xs ! i \<mapsto> to_string (-1), List.last xs \<mapsto> to_string (int i + 1)))"
  define S where "S = (if Suc i = length xs then (\<lambda>i. fs (obid w (int i))) else (\<lambda>i. fs (obid w (int i)))(Suc i \<mapsto> to_string (List.last xs)))"
  have U: "fu' (obid w y) = U y" if "in_int32 y" for y
    using that obid_inj[OF w w] x(2) li by (auto simp: fu'_def U_def)
  have S: "fs' (obid w (int j)) = S j" if "j \<le> length xs" for j
  proof -
    have "obid w (int j) = obid w (int i + 1) \<longleftrightarrow> j = Suc i"
      using obid_inj[OF w w n32[OF that] n32[of "Suc i"]] i' by (auto simp: add.commute)
    then show ?thesis by (auto simp: fs'_def S_def)
  qed
  note rm = word_ok_remove[OF wd i', folded U_def S_def]
  have "S (length xs - 1) = fs' (obid w (int (length xs) - 1))" using S[of "length xs - 1"] i' by (simp add: of_nat_diff)
  then show "swap_out i xs \<noteq> [] \<Longrightarrow> fs' (obid w (int (length xs) - 1)) = Some (to_string (List.last (swap_out i xs)))"
    using rm(1) by simp
  have "word_ok U S (swap_out i xs) (insert (xs ! i) (R w)) (int (length xs) - 1) (count_of lst' w)"
    using rm(2)[OF lst(1)] x(3) by simp
  then have word: "word_ok (\<lambda>x. fu' (obid w x)) (\<lambda>i. fs' (obid w (int i))) (swap_out i xs) (insert (xs ! i) (R w))
      (count_of (sm_put w (int (length xs) - 1) cnt) w) (count_of lst' w)"
    using word_ok_cong[of "\<lambda>x. fu' (obid w x)" U "swap_out i xs" "\<lambda>i. fs' (obid w (int i))" S] U S by (simp add: count_of_put)
  show "index N ?L ?R fu' fs' (sm_put w (int (length xs) - 1) cnt) lst'"
  proof (rule index_upd[OF ix w word _ _ _ h ii(2,3)])
    fix w' y assume o: "good_word w'" "w' \<noteq> w" "in_int32 y"
    show "fu' (obid w' y) = fu (obid w' y)" using o obid_inj[OF o(1) w o(3)] x(2) li by (auto simp: fu'_def)
    show "fs' (obid w' y) = fs (obid w' y)" using o obid_inj[OF o(1) w o(3) n32[of "Suc i"]] i' by (auto simp: fs'_def add.commute)
  next
    show "dom fu' \<subseteq> (\<lambda>(w, x). obid w x) ` held L R" using du ii(4) by blast
    show "dom fs' \<subseteq> (\<lambda>(w, i). obid w (int i)) ` slots ?L ?R" using ds ii(5) sl by simp
  qed (simp add: count_of_put lst(2))
qed

end
