(* ===== verification/AvlSpec.thy ===== *)
theory AvlSpec
  imports Bid "HOL-Library.Tree" "HOL-Library.Multiset"
begin

text \<open>
  The search tree as a functional data structure: insertion with the rotations of \<open>AVLTree::insert\<close>, which compares
  the inserted key with the key of the taller child. Insertion updates the sorted list of entries and keeps the
  tree balanced; a balanced tree of height \<open>h\<close> has at least as many nodes as the Fibonacci numbers say.
\<close>

section \<open>Insertion\<close>

fun root_key :: "('k \<times> 'v) tree \<Rightarrow> 'k" where
  "root_key (Node l x r) = fst x"

fun rotR :: "'a tree \<Rightarrow> 'a tree" where
  "rotR (Node (Node a x b) y c) = Node a x (Node b y c)"
| "rotR t = t"

fun rotL :: "'a tree \<Rightarrow> 'a tree" where
  "rotL (Node a x (Node b y c)) = Node (Node a x b) y c"
| "rotL t = t"

definition rebal :: "'k::linorder \<Rightarrow> ('k \<times> 'v) tree \<Rightarrow> 'k \<times> 'v \<Rightarrow> ('k \<times> 'v) tree \<Rightarrow> ('k \<times> 'v) tree" where
  "rebal k l x r =
     (if height l > height r + 1 then
        if k < root_key l then rotR (Node l x r)
        else if root_key l < k then rotR (Node (rotL l) x r) else Node l x r
      else if height r > height l + 1 then
        if root_key r < k then rotL (Node l x r)
        else if k < root_key r then rotL (Node l x (rotR r)) else Node l x r
      else Node l x r)"

fun ins :: "'k::linorder \<Rightarrow> 'v \<Rightarrow> ('k \<times> 'v) tree \<Rightarrow> ('k \<times> 'v) tree" where
  "ins k v Leaf = Node Leaf (k, v) Leaf"
| "ins k v (Node l x r) =
     (if k < fst x then rebal k (ins k v l) x r
      else if fst x < k then rebal k l x (ins k v r)
      else Node l (k, v) r)"

section \<open>Entries\<close>

abbreviation keys :: "('k \<times> 'v) tree \<Rightarrow> 'k set" where
  "keys t \<equiv> fst ` set_tree t"

abbreviation ordered :: "('k::linorder \<times> 'v) tree \<Rightarrow> bool" where
  "ordered t \<equiv> sm_wf (inorder t)"

lemma inorder_rotR [simp]: "inorder (rotR t) = inorder t"
  by (cases t rule: rotR.cases) simp_all

lemma inorder_rotL [simp]: "inorder (rotL t) = inorder t"
  by (cases t rule: rotL.cases) simp_all

lemma inorder_rebal: "inorder (rebal k l x r) = inorder l @ x # inorder r"
  by (simp add: rebal_def)

lemma sm_wf_append: "sm_wf (xs @ e # ys) \<longleftrightarrow> sm_wf xs \<and> sm_wf ys \<and> (\<forall>k \<in> fst ` set xs. k < fst e) \<and> (\<forall>k \<in> fst ` set ys. fst e < k)"
proof -
  have "(\<forall>k \<in> fst ` set xs. k < fst e) \<Longrightarrow> (\<forall>k \<in> fst ` set ys. fst e < k) \<Longrightarrow> a \<in> fst ` set xs \<Longrightarrow> b \<in> fst ` set ys \<Longrightarrow> a < b" for a b
    by (meson order.strict_trans)
  then show ?thesis by (auto simp: sm_wf_def sorted_wrt_append)
qed

lemma ordered_Node:
  "ordered (Node l x r) \<longleftrightarrow> ordered l \<and> ordered r \<and> (\<forall>k \<in> keys l. k < fst x) \<and> (\<forall>k \<in> keys r. fst x < k)"
  by (simp add: sm_wf_append)

lemma ordered_NodeD:
  assumes "ordered (Node l x r)"
  shows "ordered l" "ordered r" "k \<in> keys l \<Longrightarrow> k < fst x" "k \<in> keys r \<Longrightarrow> fst x < k"
    "fst x \<notin> keys l" "fst x \<notin> keys r" "keys l \<inter> keys r = {}"
proof -
  have o: "ordered l \<and> ordered r \<and> (\<forall>k \<in> keys l. k < fst x) \<and> (\<forall>k \<in> keys r. fst x < k)"
    by (rule assms[unfolded ordered_Node])
  show "ordered l" "ordered r" using o by simp_all
  show l: "k \<in> keys l \<Longrightarrow> k < fst x" and r: "k \<in> keys r \<Longrightarrow> fst x < k" for k
    using o[THEN conjunct2, THEN conjunct2] by (meson bspec)+
  show "fst x \<notin> keys l" "fst x \<notin> keys r" using l r by (meson less_irrefl)+
  show "keys l \<inter> keys r = {}" using l r by (meson disjoint_iff order_less_asym)
qed

lemma sm_put_append:
  assumes "sm_wf (xs @ e # ys)"
  shows "sm_put k v (xs @ e # ys) =
    (if k < fst e then sm_put k v xs @ e # ys else if fst e < k then xs @ e # sm_put k v ys else xs @ (k, v) # ys)"
  using assms
proof (induction xs)
  case Nil
  then show ?case by (cases e) auto
next
  case (Cons d xs)
  have "sm_wf (xs @ e # ys)" "fst d < fst e" using Cons.prems by (auto simp: sm_wf_def)
  with Cons.IH show ?case by (cases d) auto
qed

lemma inorder_ins: "ordered t \<Longrightarrow> inorder (ins k v t) = sm_put k v (inorder t)"
proof (induction t)
  case Leaf
  then show ?case by simp
next
  case (Node l x r)
  then have "ordered l" "ordered r" by (simp_all add: ordered_Node del: inorder.simps)
  with Node show ?case by (simp add: inorder_rebal sm_put_append)
qed

lemma ordered_ins: "ordered t \<Longrightarrow> ordered (ins k v t)"
  by (simp add: inorder_ins sm_wf_put)

lemma keys_ins: "ordered t \<Longrightarrow> keys (ins k v t) = insert k (keys t)"
  by (simp add: inorder_ins set_fst_sm_put flip: set_inorder)

section \<open>Balance\<close>

fun avl :: "'a tree \<Rightarrow> bool" where
  "avl Leaf = True"
| "avl (Node l x r) = (height l \<le> height r + 1 \<and> height r \<le> height l + 1 \<and> avl l \<and> avl r)"

text \<open>When an insertion makes a tree higher, it is the side of the inserted key that is higher.\<close>

definition leans :: "'k::linorder \<Rightarrow> ('k \<times> 'v) tree \<Rightarrow> bool" where
  "leans k t \<longleftrightarrow> (case t of Leaf \<Rightarrow> False | Node a x b \<Rightarrow>
     (k < fst x \<and> height a = height b + 1) \<or> (fst x < k \<and> height b = height a + 1) \<or> (k = fst x \<and> a = Leaf \<and> b = Leaf))"

lemma rebal_left:
  assumes "avl l'" "avl r" "leans k l'" "height l' = height r + 2"
  shows "avl (rebal k l' x r)" "height (rebal k l' x r) = height r + 2"
proof -
  obtain a y b where l': "l' = Node a y b" using assms(3) by (cases l') (simp_all add: leans_def)
  show "avl (rebal k l' x r)" "height (rebal k l' x r) = height r + 2"
    using assms by (cases b; auto simp: l' leans_def rebal_def max_def split: if_splits)+
qed

lemma rebal_right:
  assumes "avl l" "avl r'" "leans k r'" "height r' = height l + 2"
  shows "avl (rebal k l x r')" "height (rebal k l x r') = height l + 2"
proof -
  obtain a y b where r': "r' = Node a y b" using assms(3) by (cases r') (simp_all add: leans_def)
  show "avl (rebal k l x r')" "height (rebal k l x r') = height l + 2"
    using assms by (cases a; auto simp: r' leans_def rebal_def max_def split: if_splits)+
qed

lemma rebal_none: "height l \<le> height r + 1 \<Longrightarrow> height r \<le> height l + 1 \<Longrightarrow> rebal k l x r = Node l x r"
  by (simp add: rebal_def)

lemma ins_avl:
  "avl t \<Longrightarrow> avl (ins k v t) \<and> (height (ins k v t) = height t \<or> height (ins k v t) = height t + 1 \<and> leans k (ins k v t))"
proof (induction t)
  case Leaf
  then show ?case by (simp add: leans_def)
next
  case (Node l x r)
  then have l: "avl (ins k v l)" "height (ins k v l) = height l \<or> height (ins k v l) = height l + 1 \<and> leans k (ins k v l)"
    and r: "avl (ins k v r)" "height (ins k v r) = height r \<or> height (ins k v r) = height r + 1 \<and> leans k (ins k v r)"
    and b: "height l \<le> height r + 1" "height r \<le> height l + 1" "avl l" "avl r" by simp_all
  consider "k < fst x" | "fst x < k" | "k = fst x" by fastforce
  then show ?case
  proof cases
    case 1
    show ?thesis
    proof (cases "height (ins k v l) = height r + 2")
      case True
      then have "leans k (ins k v l)" "height l = height r + 1" using l(2) b by auto
      with 1 rebal_left[OF l(1) b(4) _ True] show ?thesis by simp
    next
      case False
      then have "rebal k (ins k v l) x r = Node (ins k v l) x r" using l(2) b by (intro rebal_none) auto
      with 1 False l b show ?thesis by (auto simp: leans_def max_def)
    qed
  next
    case 2
    show ?thesis
    proof (cases "height (ins k v r) = height l + 2")
      case True
      then have "leans k (ins k v r)" "height r = height l + 1" using r(2) b by auto
      with 2 rebal_right[OF b(3) r(1) _ True] show ?thesis by (auto simp: max_def)
    next
      case False
      then have "rebal k l x (ins k v r) = Node l x (ins k v r)" using r(2) b by (intro rebal_none) auto
      with 2 False r b show ?thesis by (auto simp: leans_def max_def)
    qed
  next
    case 3
    with b show ?thesis by simp
  qed
qed

section \<open>Height\<close>

fun fib :: "nat \<Rightarrow> nat" where
  "fib 0 = 0"
| "fib (Suc 0) = 1"
| "fib (Suc (Suc n)) = fib (Suc n) + fib n"

lemma fib_step: "fib n \<le> fib (Suc n)"
  by (induction n rule: fib.induct) simp_all

lemma fib_mono: "m \<le> n \<Longrightarrow> fib m \<le> fib n"
  by (rule lift_Suc_mono_le[of fib, OF fib_step])

lemma avl_fib: "avl t \<Longrightarrow> fib (height t + 2) \<le> size t + 1"
proof (induction t)
  case Leaf
  then show ?case by (simp add: numeral_eq_Suc)
next
  case (Node l x r)
  let ?m = "max (height l) (height r)"
  have h: "fib (height l + 2) \<le> size l + 1" "fib (height r + 2) \<le> size r + 1" using Node by simp_all
  have "fib (?m + 2) + fib (?m + 1) \<le> (size l + 1) + (size r + 1)"
  proof (cases "height r \<le> height l")
    case True
    then have "fib (?m + 1) \<le> fib (height r + 2)" using Node.prems by (intro fib_mono) simp
    with True h show ?thesis by (simp add: max_def)
  next
    case False
    then have "fib (?m + 1) \<le> fib (height l + 2)" using Node.prems by (intro fib_mono) simp
    with False h show ?thesis by (simp add: max_def)
  qed
  then show ?case by (simp add: numeral_eq_Suc)
qed

lemma avl_height_bound:
  assumes "avl t" "size t + 1 < fib (h + 3)"
  shows "height t \<le> h"
proof (rule ccontr)
  assume "\<not> height t \<le> h"
  then have "fib (h + 3) \<le> fib (height t + 2)" by (intro fib_mono) simp
  with avl_fib[OF assms(1)] assms(2) show False by simp
qed

lemma size_keys: "ordered t \<Longrightarrow> size t = card (keys t)"
proof -
  assume "ordered t"
  then have "card (keys t) = length (inorder t)"
    using distinct_card[OF sm_wf_distinct, of "inorder t"] by simp
  then show ?thesis by simp
qed

section \<open>Growth\<close>

text \<open>A tree that an insertion makes higher was not rotated at its root, and the side of the key grew.\<close>

lemma ins_height: "avl t \<Longrightarrow> height (ins k v t) = height t \<or> height (ins k v t) = height t + 1"
  by (drule ins_avl[of t k v]) (elim conjE disjE; simp)

lemma ins_grow_left:
  assumes "avl (Node l x r)" "k < fst x" "height (ins k v (Node l x r)) \<noteq> height (Node l x r)"
  shows "ins k v (Node l x r) = Node (ins k v l) x r" "height (ins k v l) \<noteq> height l"
proof -
  have b: "height l \<le> height r + 1" "height r \<le> height l + 1" "avl l" "avl r" using assms(1) by simp_all
  have l: "avl (ins k v l)" "height (ins k v l) = height l \<or> height (ins k v l) = height l + 1 \<and> leans k (ins k v l)"
    using ins_avl[OF b(3)] by simp_all
  have "height (ins k v l) \<noteq> height r + 2"
  proof
    assume e: "height (ins k v l) = height r + 2"
    then have "leans k (ins k v l)" "height l = height r + 1" using l(2) b by auto
    with rebal_left(2)[OF l(1) b(4) _ e, of k x] assms(2,3) show False by (simp add: max_def)
  qed
  then show n: "ins k v (Node l x r) = Node (ins k v l) x r" using assms(2) l(2) b by (auto intro!: rebal_none)
  show "height (ins k v l) \<noteq> height l" using assms(3) n by auto
qed

lemma ins_grow_right:
  assumes "avl (Node l x r)" "fst x < k" "height (ins k v (Node l x r)) \<noteq> height (Node l x r)"
  shows "ins k v (Node l x r) = Node l x (ins k v r)" "height (ins k v r) \<noteq> height r"
proof -
  have b: "height l \<le> height r + 1" "height r \<le> height l + 1" "avl l" "avl r" using assms(1) by simp_all
  have r: "avl (ins k v r)" "height (ins k v r) = height r \<or> height (ins k v r) = height r + 1 \<and> leans k (ins k v r)"
    using ins_avl[OF b(4)] by simp_all
  have "height (ins k v r) \<noteq> height l + 2"
  proof
    assume e: "height (ins k v r) = height l + 2"
    then have "leans k (ins k v r)" "height r = height l + 1" using r(2) b by auto
    with rebal_right(2)[OF b(3) r(1) _ e, of k x] assms(2,3) less_not_sym[OF assms(2)] show False by simp
  qed
  then show n: "ins k v (Node l x r) = Node l x (ins k v r)" using assms(2) r(2) b by (auto intro!: rebal_none)
  show "height (ins k v r) \<noteq> height r" using assms(3) n by auto
qed

section \<open>Search\<close>

fun lookup :: "('k::linorder \<times> 'v) tree \<Rightarrow> 'k \<Rightarrow> 'v option" where
  "lookup Leaf k = None"
| "lookup (Node l x r) k = (if k < fst x then lookup l k else if fst x < k then lookup r k else Some (snd x))"

fun collect :: "('k::linorder \<times> 'v) tree \<Rightarrow> 'k list \<Rightarrow> 'v list" where
  "collect Leaf ks = []"
| "collect (Node l x r) ks =
     map (\<lambda>_. snd x) (filter (\<lambda>k. k = fst x) ks) @ collect l (filter (\<lambda>k. k < fst x) ks) @ collect r (filter (\<lambda>k. fst x < k) ks)"

lemma lookup_keys: "ordered t \<Longrightarrow> k \<notin> keys t \<Longrightarrow> lookup t k = None"
proof (induction t)
  case (Node l x r)
  then show ?case using ordered_NodeD(1,2)[OF Node.prems(1)] by (auto simp: image_Un)
qed simp

lemma lookup_inorder: "ordered t \<Longrightarrow> lookup t k = sm_get (inorder t) k"
proof (induction t)
  case (Node l x r)
  note o = ordered_NodeD[OF Node.prems]
  have none: "sm_get (inorder u) k = None" if "k \<notin> keys u" for u :: "('a \<times> 'b) tree"
    using that by (simp add: map_of_eq_None_iff)
  consider "k < fst x" | "fst x < k" | "k = fst x" by fastforce
  then show ?case
  proof cases
    case 1
    then have "k \<notin> keys r" using o(4) by (meson order_less_asym)
    with 1 none Node.IH(1)[OF o(1)] show ?thesis by (cases x) (simp add: map_add_def split: option.splits)
  next
    case 2
    then have "k \<notin> keys l" using o(3) by (meson order_less_asym)
    with 2 less_not_sym[OF 2] none Node.IH(2)[OF o(2)] show ?thesis by (cases x) (auto simp: map_add_def split: option.splits)
  next
    case 3
    then have "k \<notin> keys l" using o(5) by simp
    with 3 none show ?thesis by (cases x) (simp add: map_add_def)
  qed
qed simp

lemma collect_Nil [simp]: "collect t [] = []"
  by (induction t) simp_all

text \<open>Batch search finds, in some order, the values of the given keys.\<close>

lemma collect_lookup: "ordered t \<Longrightarrow> mset (collect t ks) = mset (List.map_filter (lookup t) ks)"
proof (induction t arbitrary: ks)
  case Leaf
  then show ?case by (induction ks) (simp_all add: map_filter_simps)
next
  case (Node l x r)
  note o = ordered_NodeD[OF Node.prems]
  have "mset (List.map_filter (lookup (Node l x r)) ks) =
    mset (map (\<lambda>_. snd x) (filter (\<lambda>k. k = fst x) ks)) + mset (List.map_filter (lookup l) (filter (\<lambda>k. k < fst x) ks)) +
    mset (List.map_filter (lookup r) (filter (\<lambda>k. fst x < k) ks))"
    by (induction ks) (auto simp: map_filter_simps split: option.split)
  with Node.IH(1)[OF o(1)] Node.IH(2)[OF o(2)] show ?case by (simp del: lookup.simps)
qed

end
