(* ===== verification/OramBuckets.thy ===== *)
theory OramBuckets
  imports Oram
begin

text \<open>
  Lemmas on the storage of the ORAM: the representation of a node and of a bucket survives being written and
  read, and the buckets of a path lie in the tree.
\<close>

section \<open>Nodes\<close>

definition node_wf :: "'n::len node \<Rightarrow> bool" where
  "node_wf n \<longleftrightarrow> bid_wf (n_key n) \<and> bid_wf (leftID n) \<and> bid_wf (rightID n) \<and> length (n_value n) = 16 \<and>
     n_pos n < 2 ^ 32 \<and> leftPos n < 2 ^ 32 \<and> rightPos n < 2 ^ 32 \<and> n_height n < 2 ^ 32"

lemma slice_append: "length xs = k \<Longrightarrow> k \<le> off \<Longrightarrow> slice off len (xs @ ys) = slice (off - k) len ys"
  by (simp add: slice_def)

lemma slice_prefix: "length xs = len \<Longrightarrow> slice 0 len (xs @ ys) = xs"
  by (simp add: slice_def)

lemma slice_all: "length xs = len \<Longrightarrow> slice 0 len xs = xs"
  by (simp add: slice_def)

lemma length_vptr [simp]: "length vptr = 8"
  by (simp add: vptr_def)

lemma length_node [simp]: "node_wf n \<Longrightarrow> length (convertNodeToBlock n) = sizeof_Node TYPE('n)"
  for n :: "'n::len node"
  by (simp add: convertNodeToBlock_def node_wf_def bid_wf_def sizeof_Node_def)

lemma nat_le_uint: "x < 2 ^ 32 \<Longrightarrow> nat (le_uint (le_bytes 4 (int x))) = x"
  by (simp add: le_uint_le_bytes)

lemma node_round_trip:
  fixes n :: "'n::len node"
  assumes "node_wf n"
  shows "convertBlockToNode (convertNodeToBlock n) = Inr n"
proof -
  define w where "w = ID_SIZE TYPE('n)"
  have l: "length (bid_id (n_key n)) = w" "length (bid_id (leftID n)) = w" "length (bid_id (rightID n)) = w"
    "length (n_value n) = 16"
    using assms by (simp_all add: node_wf_def bid_wf_def w_def)
  have p: "nat (le_uint (le_bytes 4 (int (n_pos n)))) = n_pos n" "nat (le_uint (le_bytes 4 (int (leftPos n)))) = leftPos n"
    "nat (le_uint (le_bytes 4 (int (rightPos n)))) = rightPos n" "nat (le_uint (le_bytes 4 (int (n_height n)))) = n_height n"
    using assms unfolding node_wf_def by (blast intro: nat_le_uint)+
  have "\<not> length (convertNodeToBlock n) < (sizeof_Node TYPE('n))" using assms by simp
  then show ?thesis
    unfolding convertBlockToNode_def w_def[symmetric]
    by (simp add: convertNodeToBlock_def l Let_def slice_append[of _ 8] slice_append[of _ w] slice_append[of _ 16] slice_append[of _ 4]
        slice_prefix slice_all p)
qed

definition zero_node :: "'n::len node" where
  "zero_node = \<lparr>n_key = Bid0, n_value = replicate 16 0, n_pos = 0, leftID = Bid0, leftPos = 0, rightID = Bid0,
     rightPos = 0, n_height = 0\<rparr>"

lemma dummy_node: "convertBlockToNode (replicate (sizeof_Node TYPE('n)) 0) = Inr (zero_node :: 'n::len node)"
proof -
  have "le_uint (replicate 4 0) = 0" by (simp add: numeral_eq_Suc)
  then show ?thesis
    by (simp add: convertBlockToNode_def sizeof_Node_def slice_def zero_node_def Bid0_def Let_def min_def)
qed

section \<open>Buckets\<close>

definition mk_block :: "'n::len node \<Rightarrow> 'n Block" where
  "mk_block n = \<lparr>b_id = n_key n, b_data = convertNodeToBlock n\<rparr>"

definition mk_bucket :: "'n::len node list \<Rightarrow> 'n Bucket" where
  "mk_bucket ns = map mk_block ns @ replicate (Z - length ns) (dummy_block (sizeof_Node TYPE('n)))"

lemma length_mk_bucket [simp]: "length ns \<le> Z \<Longrightarrow> length (mk_bucket ns) = Z"
  by (simp add: mk_bucket_def)

lemma dummy_id: "bid_assign_int 0 = (Bid0 :: 'n::len Bid)"
proof -
  have "le_bytes 4 0 = replicate 4 0" by (simp add: numeral_eq_Suc)
  then show ?thesis using ID_SIZE_ge[where 'n = 'n] by (simp add: bid_assign_int_def Bid0_def flip: replicate_add)
qed

lemma deserialise_data:
  fixes bs :: "'n::len Bucket"
  assumes "\<forall>b \<in> set bs. length (b_data b) = sizeof_Node TYPE('n) \<and> (\<exists>n. convertBlockToNode (b_data b) = Inr n \<and> b_id b = n_key n)"
  shows "deserialise (sizeof_Node TYPE('n)) (length bs) (concat (map b_data bs)) = Inr bs"
  using assms by (induction bs) auto

lemma block_data:
  fixes ns :: "'n::len node list"
  assumes "\<forall>n \<in> set ns. node_wf n" "b \<in> set (mk_bucket ns)"
  shows "length (b_data b) = sizeof_Node TYPE('n) \<and> (\<exists>n. convertBlockToNode (b_data b) = Inr n \<and> b_id b = n_key n)"
proof -
  consider n where "n \<in> set ns" "b = mk_block n" | "b = dummy_block (sizeof_Node TYPE('n))"
    using assms(2) by (auto simp: mk_bucket_def)
  then show ?thesis
  proof cases
    case 1
    then show ?thesis using assms(1) by (simp add: mk_block_def node_round_trip)
  next
    case 2
    then show ?thesis by (simp add: dummy_block_def dummy_node dummy_id zero_node_def)
  qed
qed

lemma bucket_bytes:
  fixes ns :: "'n::len node list"
  assumes "\<forall>n \<in> set ns. node_wf n" "length ns \<le> Z"
  shows "length (concat (map b_data (mk_bucket ns))) = Z * sizeof_Node TYPE('n)"
    and "deserialise (sizeof_Node TYPE('n)) Z (concat (map b_data (mk_bucket ns))) = Inr (mk_bucket ns)"
proof -
  have "\<forall>b \<in> set (mk_bucket ns). length (b_data b) = sizeof_Node TYPE('n)" using block_data[OF assms(1)] by blast
  then have "map (\<lambda>b. length (b_data b)) (mk_bucket ns) = map (\<lambda>_. (sizeof_Node TYPE('n))) (mk_bucket ns)"
    by (intro map_cong) auto
  also have "\<dots> = replicate Z (sizeof_Node TYPE('n))" using assms(2) by (simp add: map_replicate_const)
  finally have "sum_list (map (\<lambda>b. length (b_data b)) (mk_bucket ns)) = Z * sizeof_Node TYPE('n)"
    by (simp add: sum_list_replicate)
  then show "length (concat (map b_data (mk_bucket ns))) = Z * sizeof_Node TYPE('n)"
    by (simp only: length_concat map_map comp_def)
  show "deserialise (sizeof_Node TYPE('n)) Z (concat (map b_data (mk_bucket ns))) = Inr (mk_bucket ns)"
    using deserialise_data[of "mk_bucket ns"] block_data[OF assms(1)] assms(2) by simp
qed

text \<open>What the constructor fixes and no operation changes.\<close>

definition geom :: "'n::len oram \<Rightarrow> bool" where
  "geom s \<longleftrightarrow> blockSize s = sizeof_Node TYPE('n) \<and> plaintext_size s = Z * sizeof_Node TYPE('n) \<and>
     clen_size s = GetCiphertextLength (Z * sizeof_Node TYPE('n)) \<and> bucketCount s = 2 ^ (o_depth s + 1) - 1 \<and>
     bucketCount s \<le> length (rs_store (o_store s)) \<and> cbc_good (o_aes s) \<and> o_depth s \<le> 30 \<and>
     (\<forall>i. length (o_ivs s i) = IV) \<and> (\<forall>i. o_dis s i < 2 ^ o_depth s)"

lemma WriteBucket_ok:
  fixes s :: "'n::len oram"
  assumes "geom s" "\<forall>n \<in> set ns. node_wf n" "length ns \<le> Z" "i < length (rs_store (o_store s))"
  shows "\<exists>st ivs. WriteBucket i (mk_bucket ns) s = Inr (s\<lparr>o_ivs := ivs, o_store := st\<rparr>) \<and>
    geom (s\<lparr>o_ivs := ivs, o_store := st\<rparr>) \<and> emptyNodes st = emptyNodes (o_store s) \<and>
    length (rs_store st) = length (rs_store (o_store s)) \<and>
    (\<forall>j. ReadBucket (s\<lparr>o_ivs := ivs, o_store := st\<rparr>) j = (if j = i then Inr (mk_bucket ns) else ReadBucket s j))"
proof -
  let ?p = "concat (map b_data (mk_bucket ns))" and ?ivs = "\<lambda>i. o_ivs s (Suc i)"
  note p = bucket_bytes[OF assms(2,3)]
  have g: "length (o_ivs s 0) = IV" "cbc_good (o_aes s)" "blockSize s = sizeof_Node TYPE('n)" "clen_size s = GetCiphertextLength (length ?p)"
    "plaintext_size s = length ?p"
    using assms(1) by (simp_all add: geom_def p)
  obtain c where c: "Encrypt (o_aes s) (o_ivs s 0) (o_key s) ?p (clen_size s) (plaintext_size s) = Inr c"
    "Decrypt (o_aes s) (o_key s) c (clen_size s) = Inr ?p"
    using Decrypt_after_Encrypt[OF g(2,1), of "o_key s" ?p] by (auto simp: g(4,5))
  let ?st = "(o_store s)\<lparr>rs_store := (rs_store (o_store s))[i := c]\<rparr>"
  have "SerialiseBucket s (mk_bucket ns) = Inr ?p"
    using assms(3) p(1) g(3) by (simp add: SerialiseBucket_def Let_def)
  then have "WriteBucket i (mk_bucket ns) s = Inr (s\<lparr>o_ivs := ?ivs, o_store := ?st\<rparr>)"
    using c(1) assms(4) by (simp add: WriteBucket_def GenerateIV_def ram_Write_def)
  moreover have "geom (s\<lparr>o_ivs := ?ivs, o_store := ?st\<rparr>)" using assms(1) by (simp add: geom_def)
  moreover have "ReadBucket (s\<lparr>o_ivs := ?ivs, o_store := ?st\<rparr>) i = Inr (mk_bucket ns)"
    using c(2) assms(4) p g(3) by (simp add: ReadBucket_def ram_Read_def DeserialiseBucket_def)
  moreover have "ReadBucket (s\<lparr>o_ivs := ?ivs, o_store := ?st\<rparr>) j = ReadBucket s j" if "j \<noteq> i" for j
  proof -
    have "DeserialiseBucket (s\<lparr>o_ivs := ?ivs, o_store := ?st\<rparr>) = DeserialiseBucket s"
      by (simp add: fun_eq_iff DeserialiseBucket_def)
    then show ?thesis using that by (simp add: ReadBucket_def ram_Read_def)
  qed
  ultimately show ?thesis
    by (intro exI[of _ ?st] exI[of _ ?ivs]) simp
qed

section \<open>Paths\<close>

lemma up_shift: "0 < x \<Longrightarrow> 2 ^ k \<le> x \<Longrightarrow> up k (x - 1) = x div 2 ^ k - 1"
proof (induction k arbitrary: x)
  case 0
  then show ?case by simp
next
  case (Suc k)
  have "2 ^ k \<le> x div 2" using Suc.prems by (simp add: less_eq_div_iff_mult_less_eq mult.commute)
  moreover from this have "0 < x div 2" using one_le_power[of "2::nat" k] by linarith
  ultimately have "up k (x div 2 - 1) = x div 2 div 2 ^ k - 1" by (rule Suc.IH[rotated])
  then show ?case using Suc.prems(1) by (simp add: div_mult2_eq)
qed

lemma GetNodeOnPath_eq:
  assumes "geom s" "leaf < 2 ^ o_depth s" "d \<le> o_depth s"
  shows "GetNodeOnPath s leaf d = (leaf + 2 ^ o_depth s) div 2 ^ (o_depth s - d) - 1"
proof -
  have "bucketCount s div 2 = 2 ^ o_depth s - 1" using assms(1) by (simp add: geom_def)
  moreover have "leaf + (2 ^ o_depth s - 1) = leaf + 2 ^ o_depth s - 1" using one_le_power[of "2::nat" "o_depth s"] by simp
  moreover have "(2::nat) ^ (o_depth s - d) \<le> leaf + 2 ^ o_depth s"
    by (rule trans_le_add2) (simp add: power_increasing)
  moreover have "0 < leaf + 2 ^ o_depth s" by simp
  ultimately show ?thesis unfolding GetNodeOnPath_def by (metis up_shift)
qed

lemma GetNodeOnPath_bound:
  assumes "geom s" "leaf < 2 ^ o_depth s" "d \<le> o_depth s"
  shows "GetNodeOnPath s leaf d < bucketCount s"
proof -
  have "(leaf + 2 ^ o_depth s) div 2 ^ (o_depth s - d) \<le> leaf + 2 ^ o_depth s" by (rule div_le_dividend)
  also have "\<dots> < 2 ^ (o_depth s + 1)" using assms(2) by simp
  finally have "(leaf + 2 ^ o_depth s) div 2 ^ (o_depth s - d) - 1 < 2 ^ (o_depth s + 1) - 1"
    using one_less_power[of "2::nat" "o_depth s + 1"] by linarith
  then show ?thesis using assms by (simp add: GetNodeOnPath_eq geom_def)
qed

definition path :: "'n::len oram \<Rightarrow> nat \<Rightarrow> nat set" where
  "path s leaf = GetNodeOnPath s leaf ` {..o_depth s}"

lemma path_bound: "geom s \<Longrightarrow> leaf < 2 ^ o_depth s \<Longrightarrow> i \<in> path s leaf \<Longrightarrow> i < bucketCount s"
  by (auto simp: path_def GetNodeOnPath_bound)

end
