(* ===== verification/Placement.thy ===== *)
theory Placement
  imports Main
begin

text \<open>
  Where the items of a tree ORAM are. Items have a key and a set of buckets they may be in. The contents are a map \<open>M\<close> from keys to
  items, \<open>c\<close> is what is held locally (the cache of the oblivious map, the stash of Horus), \<open>B\<close> are the items in each of the \<open>N\<close> buckets, and
  \<open>S\<close> is the set of buckets whose items count: those not yet read during a fetch, and those not on a path or already written
  during a write back. The two ORAMs of the repository share these facts.
\<close>

definition placed ::
    "('a \<Rightarrow> bool) \<Rightarrow> ('a \<Rightarrow> 'k) \<Rightarrow> ('a \<Rightarrow> nat set) \<Rightarrow> nat \<Rightarrow> ('k \<Rightarrow> 'a option) \<Rightarrow> (nat \<Rightarrow> 'a list) \<Rightarrow> ('k \<Rightarrow> 'a option) \<Rightarrow> nat set \<Rightarrow> bool" where
  "placed ok key onpath N c B M S \<longleftrightarrow>
     (\<forall>k x. M k = Some x \<longrightarrow> ok x \<and> key x = k) \<and>
     (\<forall>k x. c k = Some x \<longrightarrow> M k = Some x) \<and>
     (\<forall>k x. M k = Some x \<longrightarrow> c k = Some x \<or> (\<exists>i \<in> S. i \<in> onpath x \<and> x \<in> set (B i))) \<and>
     (\<forall>i \<in> S. i < N \<longrightarrow> (\<forall>x \<in> set (B i). c (key x) = None \<and> M (key x) = Some x)) \<and>
     (\<forall>i \<in> S. \<forall>j \<in> S. i < N \<longrightarrow> j < N \<longrightarrow> i \<noteq> j \<longrightarrow> key ` set (B i) \<inter> key ` set (B j) = {})"

lemma placedD:
  assumes "placed ok key onpath N c B M S"
  shows "M k = Some x \<Longrightarrow> ok x" "M k = Some x \<Longrightarrow> key x = k" "c k = Some x \<Longrightarrow> M k = Some x"
    "M k = Some x \<Longrightarrow> c k = Some x \<or> (\<exists>i \<in> S. i \<in> onpath x \<and> x \<in> set (B i))"
    "i \<in> S \<Longrightarrow> i < N \<Longrightarrow> x \<in> set (B i) \<Longrightarrow> c (key x) = None"
    "i \<in> S \<Longrightarrow> i < N \<Longrightarrow> x \<in> set (B i) \<Longrightarrow> M (key x) = Some x"
    "i \<in> S \<Longrightarrow> j \<in> S \<Longrightarrow> i < N \<Longrightarrow> j < N \<Longrightarrow> i \<noteq> j \<Longrightarrow> key ` set (B i) \<inter> key ` set (B j) = {}"
  using assms by (simp_all add: placed_def)

lemma placedI:
  assumes "\<And>k x. M k = Some x \<Longrightarrow> ok x \<and> key x = k" "\<And>k x. c k = Some x \<Longrightarrow> M k = Some x"
    and "\<And>k x. M k = Some x \<Longrightarrow> c k = Some x \<or> (\<exists>i \<in> S. i \<in> onpath x \<and> x \<in> set (B i))"
    and "\<And>i x. i \<in> S \<Longrightarrow> i < N \<Longrightarrow> x \<in> set (B i) \<Longrightarrow> c (key x) = None \<and> M (key x) = Some x"
    and "\<And>i j. i \<in> S \<Longrightarrow> j \<in> S \<Longrightarrow> i < N \<Longrightarrow> j < N \<Longrightarrow> i \<noteq> j \<Longrightarrow> key ` set (B i) \<inter> key ` set (B j) = {}"
  shows "placed ok key onpath N c B M S"
  unfolding placed_def by (intro conjI allI impI ballI; (rule assms; assumption)?) (use assms in blast)+

text \<open>Reading a bucket: its items are held locally from then on.\<close>

lemma placed_fetch:
  assumes "placed ok key onpath N c B M S" "i < N" "i \<in> S"
    and c': "c' = (\<lambda>k. if k \<in> key ` set (B i) then M k else c k)"
  shows "placed ok key onpath N c' B M (S - {i})"
proof (rule placedI)
  note d = placedD[OF assms(1)]
  fix k x
  show "M k = Some x \<Longrightarrow> ok x \<and> key x = k" using d(1,2) by blast
  show "c' k = Some x \<Longrightarrow> M k = Some x" using d(3) by (simp add: c' split: if_splits)
  show "M k = Some x \<Longrightarrow> c' k = Some x \<or> (\<exists>j \<in> S - {i}. j \<in> onpath x \<and> x \<in> set (B j))"
    using d(2,4)[of k x] by (auto simp: c')
next
  note d = placedD[OF assms(1)]
  fix j x assume j: "j \<in> S - {i}" "j < N" "x \<in> set (B j)"
  then have "key x \<notin> key ` set (B i)" using d(7)[of i j] assms(2,3) by blast
  then show "c' (key x) = None \<and> M (key x) = Some x" using d(5,6)[of j x] j by (simp add: c')
next
  fix j l assume "j \<in> S - {i}" "l \<in> S - {i}" "j < N" "l < N" "j \<noteq> l"
  then show "key ` set (B j) \<inter> key ` set (B l) = {}" using placedD(7)[OF assms(1), of j l] by simp
qed

text \<open>Setting an item that is held locally or is new.\<close>

lemma placed_set:
  assumes "placed ok key onpath N c B M S" "ok x" "key x = k" "c k \<noteq> None \<or> M k = None"
  shows "placed ok key onpath N (c(k \<mapsto> x)) B (M(k \<mapsto> x)) S"
proof -
  have "key y \<noteq> k" if "i \<in> S" "i < N" "y \<in> set (B i)" for i y
    using placedD(5,6)[OF assms(1) that] assms(4) by auto
  then have "\<forall>i \<in> S. i < N \<longrightarrow> (\<forall>y \<in> set (B i). (c(k \<mapsto> x)) (key y) = None \<and> (M(k \<mapsto> x)) (key y) = Some y)"
    using placedD(5,6)[OF assms(1)] by auto
  then show ?thesis using assms(1-3) unfolding placed_def by simp
qed

text \<open>Writing locally held items to a bucket that does not count yet.\<close>

lemma placed_write:
  assumes p: "placed ok key onpath N c B M S" and i: "i \<notin> S" and xs: "xs = map (\<lambda>k. the (c k)) ks"
    and ks: "\<forall>k \<in> set ks. \<exists>x. c k = Some x \<and> i \<in> onpath x"
    and c': "c' = (\<lambda>k. if k \<in> set ks then None else c k)"
  shows "placed ok key onpath N c' (B(i := xs)) M (insert i S)"
proof -
  note d = placedD[OF p]
  have x: "key x \<in> set ks \<and> c (key x) = Some x \<and> M (key x) = Some x" if "x \<in> set xs" for x
    using that ks d(2,3) by (fastforce simp: xs)
  have xk: "x \<in> set xs" if "key x \<in> set ks" "c (key x) = Some x" for x
    using that by (force simp: xs intro: rev_image_eqI)
  have old: "c (key x) = None \<and> M (key x) = Some x" if "j \<in> S" "j < N" "x \<in> set (B j)" for j x
    using d(5,6)[OF that] by simp
  have b: "(B(i := xs)) j = B j" if "j \<in> S" for j using i that by auto
  have dis: "key ` set xs \<inter> key ` set (B j) = {}" if "j \<in> S" "j < N" for j
    using x old[OF that] by force
  show ?thesis
  proof (rule placedI)
    fix k x
    show "M k = Some x \<Longrightarrow> ok x \<and> key x = k" using d(1,2) by blast
    show "c' k = Some x \<Longrightarrow> M k = Some x" using d(3) by (simp add: c' split: if_splits)
    show "c' k = Some x \<or> (\<exists>j \<in> insert i S. j \<in> onpath x \<and> x \<in> set ((B(i := xs)) j))" if "M k = Some x"
    proof (cases "c k = Some x")
      case True
      then show ?thesis using ks xk[of x] d(2)[OF that] by (force simp: c')
    next
      case False
      with d(4)[OF that] b show ?thesis by (metis insertI2)
    qed
  next
    fix j x assume "j \<in> insert i S" "j < N" "x \<in> set ((B(i := xs)) j)"
    then show "c' (key x) = None \<and> M (key x) = Some x"
      using x old[of j x] b[of j] by (cases "j = i") (simp_all add: c')
  next
    fix j l assume "j \<in> insert i S" "l \<in> insert i S" "j < N" "l < N" "j \<noteq> l"
    then show "key ` set ((B(i := xs)) j) \<inter> key ` set ((B(i := xs)) l) = {}"
      using d(7)[of j l] dis[of j] dis[of l] by (cases "j = i"; cases "l = i") (simp_all add: inf_commute)
  qed
qed

end
