(* ===== verification/OramInv.thy ===== *)
theory OramInv
  imports OramBuckets Placement
begin

text \<open>
  The invariant of the tree ORAM. The contents are a map \<open>M\<close> from identifiers to nodes: a node is in the cache, or
  in a bucket on the path of its position. \<open>S\<close> is the set of buckets whose contents count: during an operation
  those not yet read, and while the paths are written back those not on a path or already written.
\<close>

section \<open>The invariant\<close>

definition node_ok :: "'n::len oram \<Rightarrow> 'n node \<Rightarrow> bool" where
  "node_ok s n \<longleftrightarrow> node_wf n \<and> \<not> bid_eq_int (n_key n) 0 \<and> n_pos n < 2 ^ o_depth s"

definition store_ok :: "'n::len oram \<Rightarrow> (nat \<Rightarrow> 'n node list) \<Rightarrow> bool" where
  "store_ok s B \<longleftrightarrow> (\<forall>i < bucketCount s. ReadBucket s i = Inr (mk_bucket (B i)) \<and> length (B i) \<le> Z \<and>
     (\<forall>n \<in> set (B i). node_ok s n))"

abbreviation cached :: "'n::len oram \<Rightarrow> 'n Bid set" where
  "cached s \<equiv> dom (ReadData s)"

definition null_entries :: "'n::len oram \<Rightarrow> bool" where
  "null_entries s \<longleftrightarrow> (\<forall>k. sm_get (cache s) k = Some None \<longrightarrow> bid_eq_int k 0)"

definition contents :: "'n::len oram \<Rightarrow> (nat \<Rightarrow> 'n node list) \<Rightarrow> ('n Bid \<Rightarrow> 'n node option) \<Rightarrow> nat set \<Rightarrow> bool" where
  "contents s B M S \<longleftrightarrow> placed (node_ok s) n_key (\<lambda>n. path s (n_pos n)) (bucketCount s) (ReadData s) B M S"

lemmas contentsD = placedD[of "node_ok s" n_key "\<lambda>n. path s (n_pos n)" "bucketCount s" "ReadData s" for s, folded contents_def]
  and contentsI = placedI[of _ "node_ok s" n_key "ReadData s" _ "\<lambda>n. path s (n_pos n)" _ "bucketCount s" for s, folded contents_def]

definition binv :: "'n::len oram \<Rightarrow> ('n Bid \<Rightarrow> 'n node option) \<Rightarrow> nat set \<Rightarrow> bool" where
  "binv s M S \<longleftrightarrow> geom s \<and> sm_wf (cache s) \<and> null_entries s \<and> (\<exists>B. store_ok s B \<and> contents s B M S)"

text \<open>Operations that leave the tree's shape and store alone.\<close>

definition same_store :: "'n::len oram \<Rightarrow> 'n oram \<Rightarrow> bool" where
  "same_store s s' \<longleftrightarrow> rs_store (o_store s') = rs_store (o_store s) \<and> o_depth s' = o_depth s \<and> blockSize s' = blockSize s \<and>
     o_key s' = o_key s \<and> o_aes s' = o_aes s \<and> plaintext_size s' = plaintext_size s \<and> bucketCount s' = bucketCount s \<and>
     clen_size s' = clen_size s"

lemma same_store_simps:
  assumes "same_store s s'"
  shows "ReadBucket s' = ReadBucket s" "path s' = path s" "GetNodeOnPath s' = GetNodeOnPath s"
    "store_ok s' = store_ok s" "node_ok s' = node_ok s" "bucketCount s' = bucketCount s" "o_depth s' = o_depth s"
proof -
  have "DeserialiseBucket s' = DeserialiseBucket s"
    using assms by (simp add: fun_eq_iff DeserialiseBucket_def same_store_def)
  then show r: "ReadBucket s' = ReadBucket s"
    using assms unfolding ReadBucket_def ram_Read_def same_store_def by presburger
  show g: "GetNodeOnPath s' = GetNodeOnPath s"
    using assms by (simp add: fun_eq_iff GetNodeOnPath_def same_store_def)
  show "path s' = path s" using assms g by (simp add: fun_eq_iff path_def same_store_def)
  show n: "node_ok s' = node_ok s" using assms by (simp add: fun_eq_iff node_ok_def same_store_def)
  show "bucketCount s' = bucketCount s" "o_depth s' = o_depth s" using assms by (simp_all add: same_store_def)
  then show "store_ok s' = store_ok s" using r n by (simp add: fun_eq_iff store_ok_def)
qed

lemma contents_same:
  assumes "same_store s s'" "ReadData s' = ReadData s"
  shows "contents s' = contents s"
  using assms(2) same_store_simps[OF assms(1)] by (simp add: fun_eq_iff contents_def placed_def)

lemma ReadData_put: "ReadData (s\<lparr>cache := sm_put k (Some n) c\<rparr>) = (ReadData (s\<lparr>cache := c\<rparr>))(k \<mapsto> n)"
  by (simp add: fun_eq_iff ReadData_def sm_get_put)

lemma ReadData_set_node: "ReadData (set_node k n s) = (ReadData s)(k \<mapsto> n)"
  by (simp add: fun_eq_iff ReadData_def set_node_def sm_get_put)

lemma ReadData_erase: "ReadData (s\<lparr>cache := sm_erase k c\<rparr>) = (ReadData (s\<lparr>cache := c\<rparr>))(k := None)"
  by (simp add: fun_eq_iff ReadData_def sm_get_erase)

section \<open>Fetching a bucket\<close>

definition cache_node :: "'n::len node \<Rightarrow> 'n oram \<Rightarrow> 'n oram" where
  "cache_node n s =
     (case sm_get (cache s) (n_key n) of
        None \<Rightarrow> s\<lparr>cache := sm_put (n_key n) (Some n) (cache s)\<rparr>
      | Some _ \<Rightarrow> s)"

lemma cache_nodes:
  assumes "\<forall>n \<in> set ns. node_ok s0 n"
  shows "foldE cache_block (mk_bucket ns) s = Inr (fold cache_node ns s)"
proof -
  have "foldE cache_block (map mk_block ns) s = Inr (fold cache_node ns s)"
    using assms
  proof (induction ns arbitrary: s)
    case Nil
    then show ?case by simp
  next
    case (Cons n ns)
    then have "cache_block (mk_block n) s = Inr (cache_node n s)"
      by (simp add: cache_block_def mk_block_def cache_node_def node_ok_def bid_ne_int_iff node_round_trip
          split: option.split)
    with Cons show ?case by simp
  qed
  moreover have "foldE cache_block (replicate m (dummy_block x)) t = Inr t" for m x t
    by (induction m) (simp_all add: cache_block_def dummy_block_def dummy_id bid_ne_int_iff)
  ultimately show ?thesis by (simp add: mk_bucket_def foldE_append)
qed

lemma fold_cache_node:
  assumes "sm_wf (cache s)" "null_entries s" "\<forall>n \<in> set ns. \<not> bid_eq_int (n_key n) 0 \<and> M (n_key n) = Some n"
    and "\<forall>k n. ReadData s k = Some n \<longrightarrow> M k = Some n"
  shows "\<exists>c. fold cache_node ns s = s\<lparr>cache := c\<rparr> \<and> sm_wf c \<and> null_entries (s\<lparr>cache := c\<rparr>) \<and>
    ReadData (s\<lparr>cache := c\<rparr>) = (\<lambda>k. if k \<in> n_key ` set ns then M k else ReadData s k)"
  using assms
proof (induction ns arbitrary: s)
  case Nil
  then show ?case by (intro exI[of _ "cache s"]) simp
next
  case (Cons n ns)
  let ?s = "cache_node n s"
  have "?s = s\<lparr>cache := cache ?s\<rparr>" "sm_wf (cache ?s)"
    using Cons.prems(1) by (simp_all add: cache_node_def sm_wf_put split: option.split)
  then obtain c where c: "?s = s\<lparr>cache := c\<rparr>" "sm_wf c" by blast
  have rd: "ReadData ?s = (ReadData s)(n_key n \<mapsto> n)"
  proof (cases "sm_get (cache s) (n_key n)")
    case None
    then show ?thesis by (simp add: cache_node_def ReadData_put)
  next
    case (Some v)
    then have "v \<noteq> None" using Cons.prems(2,3) unfolding null_entries_def by (metis list.set_intros(1))
    then have "ReadData s (n_key n) = v" using Some by (simp add: ReadData_def)
    then have "ReadData s (n_key n) = Some n" using Cons.prems(3,4) \<open>v \<noteq> None\<close> by force
    then show ?thesis using Some by (auto simp: cache_node_def fun_eq_iff)
  qed
  have nl: "null_entries ?s"
    using Cons.prems(2) by (auto simp: cache_node_def null_entries_def sm_get_put split: option.splits if_splits)
  have m: "\<forall>k n'. ReadData ?s k = Some n' \<longrightarrow> M k = Some n'" using Cons.prems(3,4) by (simp add: rd)
  have "\<exists>c'. fold cache_node ns ?s = ?s\<lparr>cache := c'\<rparr> \<and> sm_wf c' \<and> null_entries (?s\<lparr>cache := c'\<rparr>) \<and>
      ReadData (?s\<lparr>cache := c'\<rparr>) = (\<lambda>k. if k \<in> n_key ` set ns then M k else ReadData ?s k)"
    using Cons.prems(3) by (intro Cons.IH[OF _ nl _ m]) (simp_all add: c)
  then obtain c' where "fold cache_node ns ?s = s\<lparr>cache := c'\<rparr>" "sm_wf c'" "null_entries (s\<lparr>cache := c'\<rparr>)"
      "ReadData (s\<lparr>cache := c'\<rparr>) = (\<lambda>k. if k \<in> n_key ` set ns then M k else ReadData ?s k)"
    by (auto simp: c(1))
  then show ?case using Cons.prems(3) by (intro exI[of _ c']) (auto simp: rd fun_eq_iff)
qed


lemma contents_fetch:
  assumes "contents s B M S" "same_store s s'" "i < bucketCount s" "i \<in> S"
    and "ReadData s' = (\<lambda>k. if k \<in> n_key ` set (B i) then M k else ReadData s k)"
  shows "contents s' B M (S - {i})"
  using placed_fetch[OF assms(1)[unfolded contents_def] assms(3-5)] same_store_simps[OF assms(2)] by (simp add: contents_def)

lemma fetch_bucket_ok:
  assumes "binv s M (- set (readviewmap s))" "i < bucketCount s"
  shows "\<exists>c rv. fetch_bucket i s = Inr (s\<lparr>readviewmap := rv, cache := c\<rparr>) \<and> set rv = insert i (set (readviewmap s)) \<and>
    binv (s\<lparr>readviewmap := rv, cache := c\<rparr>) M (- set rv) \<and> cached s \<subseteq> cached (s\<lparr>readviewmap := rv, cache := c\<rparr>)"
proof (cases "i \<in> set (readviewmap s)")
  case True
  then show ?thesis
    using assms(1) by (intro exI[of _ "cache s"] exI[of _ "readviewmap s"]) (auto simp: fetch_bucket_def insert_absorb)
next
  case False
  let ?s = "s\<lparr>readviewmap := readviewmap s @ [i]\<rparr>"
  obtain B where B: "store_ok s B" "contents s B M (- set (readviewmap s))" using assms(1) by (auto simp: binv_def)
  have rb: "ReadBucket s i = Inr (mk_bucket (B i))" "length (B i) \<le> Z" "\<forall>n \<in> set (B i). node_ok s n"
    using B(1) assms(2) by (simp_all add: store_ok_def)
  have ss: "same_store s ?s" by (simp add: same_store_def)
  have rd: "ReadData ?s = ReadData s" by (simp add: fun_eq_iff ReadData_def)
  have m: "\<forall>n \<in> set (B i). \<not> bid_eq_int (n_key n) 0 \<and> M (n_key n) = Some n"
    using B(2) assms(2) False rb(3) by (simp add: contents_def placed_def node_ok_def)
  have "\<forall>k n. ReadData s k = Some n \<longrightarrow> M k = Some n" using B(2) by (simp add: contents_def placed_def)
  moreover have "sm_wf (cache ?s)" "null_entries ?s" using assms(1) by (simp_all add: binv_def null_entries_def)
  ultimately obtain c where c: "fold cache_node (B i) ?s = ?s\<lparr>cache := c\<rparr>" "sm_wf c" "null_entries (?s\<lparr>cache := c\<rparr>)"
    "ReadData (?s\<lparr>cache := c\<rparr>) = (\<lambda>k. if k \<in> n_key ` set (B i) then M k else ReadData s k)"
    using fold_cache_node[of ?s "B i" M] m unfolding rd by blast
  let ?t = "?s\<lparr>cache := c\<rparr>"
  have st: "same_store s ?t" by (simp add: same_store_def)
  have "fetch_bucket i s = Inr ?t"
    using False rb cache_nodes[OF rb(3), of ?s] same_store_simps(1)[OF ss]
    by (simp add: fetch_bucket_def Let_def c(1))
  moreover have "contents ?t B M (- set (readviewmap s) - {i})"
    using B(2) st assms(2) False c(4) by (intro contents_fetch) simp_all
  moreover have "- set (readviewmap s) - {i} = - set (readviewmap s @ [i])" by auto
  moreover have "cached s \<subseteq> cached ?t"
    using B(2) unfolding c(4) by (auto simp: contents_def placed_def)
  ultimately show ?thesis
    using assms(1) B(1) c(2,3) same_store_simps(4)[OF st]
    by (intro exI[of _ c] exI[of _ "readviewmap s @ [i]"]) (auto simp: binv_def geom_def)
qed

lemma fetch_buckets_ok:
  assumes "binv s M (- set (readviewmap s))" "leaf < 2 ^ o_depth s" "\<forall>d \<in> set ds. d \<le> o_depth s"
  shows "\<exists>c rv. foldE (\<lambda>d s. fetch_bucket (GetNodeOnPath s leaf d) s) ds s = Inr (s\<lparr>readviewmap := rv, cache := c\<rparr>) \<and>
    set rv = GetNodeOnPath s leaf ` set ds \<union> set (readviewmap s) \<and>
    binv (s\<lparr>readviewmap := rv, cache := c\<rparr>) M (- set rv) \<and> cached s \<subseteq> cached (s\<lparr>readviewmap := rv, cache := c\<rparr>)"
  using assms
proof (induction ds arbitrary: s)
  case Nil
  then show ?case by (intro exI[of _ "cache s"] exI[of _ "readviewmap s"]) simp
next
  case (Cons d ds)
  let ?i = "GetNodeOnPath s leaf d"
  have "?i < bucketCount s" using Cons.prems by (auto simp: binv_def intro: GetNodeOnPath_bound)
  then obtain c rv where 1: "fetch_bucket ?i s = Inr (s\<lparr>readviewmap := rv, cache := c\<rparr>)"
    "set rv = insert ?i (set (readviewmap s))" "binv (s\<lparr>readviewmap := rv, cache := c\<rparr>) M (- set rv)"
    "cached s \<subseteq> cached (s\<lparr>readviewmap := rv, cache := c\<rparr>)"
    using fetch_bucket_ok[OF Cons.prems(1)] by blast
  let ?s = "s\<lparr>readviewmap := rv, cache := c\<rparr>"
  have g: "GetNodeOnPath ?s = GetNodeOnPath s" by (simp add: fun_eq_iff GetNodeOnPath_def)
  have "\<exists>c' rv'. foldE (\<lambda>d s. fetch_bucket (GetNodeOnPath s leaf d) s) ds ?s = Inr (?s\<lparr>readviewmap := rv', cache := c'\<rparr>) \<and>
    set rv' = GetNodeOnPath ?s leaf ` set ds \<union> set (readviewmap ?s) \<and>
    binv (?s\<lparr>readviewmap := rv', cache := c'\<rparr>) M (- set rv') \<and> cached ?s \<subseteq> cached (?s\<lparr>readviewmap := rv', cache := c'\<rparr>)"
    using Cons.prems 1(3) by (intro Cons.IH) simp_all
  then obtain c' rv' where 2: "foldE (\<lambda>d s. fetch_bucket (GetNodeOnPath s leaf d) s) ds ?s = Inr (s\<lparr>readviewmap := rv', cache := c'\<rparr>)"
    "set rv' = GetNodeOnPath s leaf ` set ds \<union> set rv"
    "binv (s\<lparr>readviewmap := rv', cache := c'\<rparr>) M (- set rv')" "cached ?s \<subseteq> cached (s\<lparr>readviewmap := rv', cache := c'\<rparr>)"
    by (auto simp: g)
  then show ?case
    using 1 by (intro exI[of _ c'] exI[of _ rv']) auto
qed

lemma FetchPath_ok:
  assumes "binv s M (- set (readviewmap s))" "leaf < 2 ^ o_depth s"
  shows "\<exists>c rv rc. FetchPath leaf s = Inr (s\<lparr>readCnt := rc, readviewmap := rv, cache := c\<rparr>) \<and>
    set rv = path s leaf \<union> set (readviewmap s) \<and>
    binv (s\<lparr>readCnt := rc, readviewmap := rv, cache := c\<rparr>) M (- set rv) \<and>
    cached s \<subseteq> cached (s\<lparr>readCnt := rc, readviewmap := rv, cache := c\<rparr>)"
proof -
  let ?s = "s\<lparr>readCnt := readCnt s + 1\<rparr>"
  have ss: "same_store s ?s" and rd: "ReadData ?s = ReadData s" by (simp_all add: same_store_def fun_eq_iff ReadData_def)
  have "binv ?s M (- set (readviewmap ?s))"
    using assms(1) contents_same[OF ss rd] same_store_simps(4)[OF ss] by (simp add: binv_def geom_def null_entries_def)
  from fetch_buckets_ok[OF this, of leaf "[0..<Suc (o_depth s)]"] obtain c rv where
    r: "foldE (\<lambda>d s. fetch_bucket (GetNodeOnPath s leaf d) s) [0..<Suc (o_depth s)] ?s = Inr (?s\<lparr>readviewmap := rv, cache := c\<rparr>)"
      "set rv = GetNodeOnPath ?s leaf ` set [0..<Suc (o_depth s)] \<union> set (readviewmap s)"
      "binv (?s\<lparr>readviewmap := rv, cache := c\<rparr>) M (- set rv)" "cached ?s \<subseteq> cached (?s\<lparr>readviewmap := rv, cache := c\<rparr>)"
    using assms(2) by auto
  have "set [0..<Suc (o_depth s)] = {..o_depth s}" by auto
  then have "set rv = path s leaf \<union> set (readviewmap s)"
    using r(2) same_store_simps(3)[OF ss] by (simp add: path_def)
  with r show ?thesis
    unfolding rd FetchPath_def by (intro exI[of _ c] exI[of _ rv] exI[of _ "readCnt s + 1"]) simp
qed


section \<open>Nodes in the cache\<close>

lemma contents_set:
  assumes "contents s B M S" "same_store s s'" "ReadData s' = (ReadData s)(k \<mapsto> n)" "node_ok s n" "n_key n = k"
    and "k \<in> cached s \<or> M k = None"
  shows "contents s' B (M(k \<mapsto> n)) S"
  using placed_set[OF assms(1)[unfolded contents_def] assms(4,5)] assms(3,6) same_store_simps[OF assms(2)] by (simp add: contents_def domIff)

lemma set_node_fields [simp]:
  "readviewmap (set_node k n s) = readviewmap s" "writeviewmap (set_node k n s) = writeviewmap s"
  "modified (set_node k n s) = modified s" "leafList (set_node k n s) = leafList s" "o_depth (set_node k n s) = o_depth s"
  "batchWrite (set_node k n s) = batchWrite s" "o_store (set_node k n s) = o_store s" "o_dis (set_node k n s) = o_dis s"
  by (simp_all add: set_node_def)

lemma mark_modified_fields [simp]:
  "readviewmap (mark_modified k s) = readviewmap s" "writeviewmap (mark_modified k s) = writeviewmap s"
  "modified (mark_modified k s) = insert k (modified s)" "leafList (mark_modified k s) = leafList s"
  "o_depth (mark_modified k s) = o_depth s" "batchWrite (mark_modified k s) = batchWrite s"
  "o_store (mark_modified k s) = o_store s" "ReadData (mark_modified k s) = ReadData s"
  "cache (mark_modified k s) = cache s"
  by (simp_all add: mark_modified_def fun_eq_iff ReadData_def)

lemma null_entries_set_node: "null_entries s \<Longrightarrow> null_entries (set_node k n s)"
  by (auto simp: null_entries_def set_node_def sm_get_put)

lemma same_store_set_node: "same_store s (set_node k n s)"
  by (simp add: same_store_def set_node_def)

lemma binv_set_node:
  assumes "binv s M S" "node_ok s n" "n_key n = k" "k \<in> cached s \<or> M k = None"
  shows "binv (set_node k n s) (M(k \<mapsto> n)) S"
proof -
  obtain B where B: "store_ok s B" "contents s B M S" using assms(1) by (auto simp: binv_def)
  have "contents (set_node k n s) B (M(k \<mapsto> n)) S"
    using contents_set[OF B(2) same_store_set_node ReadData_set_node assms(2-4)] .
  then show ?thesis
    using assms(1) B(1) same_store_simps(4)[OF same_store_set_node[of s k n]] null_entries_set_node[of s k n]
    unfolding binv_def by (intro conjI exI[of _ B]) (simp_all add: geom_def set_node_def sm_wf_put)
qed

section \<open>An operation in progress\<close>

definition leaf_paths :: "'n::len oram \<Rightarrow> nat set" where
  "leaf_paths s = (\<Union>leaf \<in> set (leafList s). path s leaf)"

definition empty_store :: "'n::len oram \<Rightarrow> bool" where
  "empty_store s \<longleftrightarrow> (\<forall>i < bucketCount s. ReadBucket s i = Inr (mk_bucket []))"

definition op_inv :: "'n::len oram \<Rightarrow> ('n Bid \<Rightarrow> 'n node option) \<Rightarrow> bool" where
  "op_inv s M \<longleftrightarrow> binv s M (- set (readviewmap s)) \<and> writeviewmap s = [] \<and>
     (\<forall>leaf \<in> set (leafList s). leaf < 2 ^ o_depth s) \<and> set (readviewmap s) \<subseteq> leaf_paths s \<and>
     (if batchWrite s then empty_store s else leaf_paths s \<subseteq> set (readviewmap s))"

text \<open>What reads keep besides the contents.\<close>

definition grows :: "'n::len oram \<Rightarrow> 'n oram \<Rightarrow> bool" where
  "grows s s' \<longleftrightarrow> o_depth s' = o_depth s \<and> batchWrite s' = batchWrite s \<and> cached s \<subseteq> cached s' \<and> modified s \<subseteq> modified s'"

lemma grows_refl [simp]: "grows s s"
  by (simp add: grows_def)

lemma grows_trans: "grows s s' \<Longrightarrow> grows s' s'' \<Longrightarrow> grows s s''"
  by (simp add: grows_def) (meson order_trans)

lemma op_inv_node: "op_inv s M \<Longrightarrow> M k = Some n \<Longrightarrow> node_ok s n \<and> n_key n = k"
  by (auto simp: op_inv_def binv_def contents_def placed_def)

lemma deref_ReadData: "ReadData s k = Some n \<Longrightarrow> deref s k = Inr n"
  by (simp add: deref_def ReadData_def split: option.splits)

lemma op_inv_ReadData: "op_inv s M \<Longrightarrow> ReadData s k = Some n \<Longrightarrow> M k = Some n"
  by (auto simp: op_inv_def binv_def contents_def placed_def)

lemma op_inv_deref:
  assumes "op_inv s M" "k \<in> cached s" "M k = Some n"
  shows "deref s k = Inr n" "ReadData s k = Some n"
proof -
  show "ReadData s k = Some n" using assms op_inv_ReadData[OF assms(1), of k] by auto
  then show "deref s k = Inr n" by (rule deref_ReadData)
qed

lemma op_inv_same:
  assumes "same_store s s'" "leafList s' = leafList s" "batchWrite s' = batchWrite s"
  shows "empty_store s' = empty_store s" "leaf_paths s' = leaf_paths s"
  using same_store_simps[OF assms(1)] assms(2,3) by (simp_all add: empty_store_def leaf_paths_def)

lemma op_inv_set_node:
  assumes "op_inv s M" "node_ok s n" "n_key n = k" "k \<in> cached s \<or> M k = None"
  shows "op_inv (set_node k n s) (M(k \<mapsto> n))" "grows s (set_node k n s)"
proof -
  have "binv (set_node k n s) (M(k \<mapsto> n)) (- set (readviewmap s))"
    using assms by (intro binv_set_node) (simp_all add: op_inv_def)
  then show "op_inv (set_node k n s) (M(k \<mapsto> n))"
    using assms(1) op_inv_same[OF same_store_set_node[of s k n]] by (simp add: op_inv_def)
  show "grows s (set_node k n s)" by (auto simp: grows_def ReadData_set_node)
qed

lemma op_inv_mark:
  assumes "op_inv s M"
  shows "op_inv (mark_modified k s) M" "grows s (mark_modified k s)"
proof -
  have ss: "same_store s (mark_modified k s)" by (simp add: same_store_def mark_modified_def)
  have "binv (mark_modified k s) M (- set (readviewmap s))"
    using assms contents_same[OF ss] same_store_simps(4)[OF ss]
    by (simp add: op_inv_def binv_def null_entries_def) (simp add: geom_def mark_modified_def)
  then show "op_inv (mark_modified k s) M"
    using assms op_inv_same[OF ss] by (simp add: op_inv_def)
  show "grows s (mark_modified k s)" by (auto simp: grows_def)
qed


lemma add_leaf_fields [simp]:
  "readviewmap (add_leaf l s) = readviewmap s" "writeviewmap (add_leaf l s) = writeviewmap s"
  "modified (add_leaf l s) = modified s" "set (leafList (add_leaf l s)) = insert l (set (leafList s))"
  "o_depth (add_leaf l s) = o_depth s" "batchWrite (add_leaf l s) = batchWrite s" "o_store (add_leaf l s) = o_store s"
  "ReadData (add_leaf l s) = ReadData s" "cache (add_leaf l s) = cache s" "o_dis (add_leaf l s) = o_dis s"
  "readCnt (add_leaf l s) = readCnt s"
  by (auto simp: add_leaf_def fun_eq_iff ReadData_def)

lemma same_store_add_leaf: "same_store s (add_leaf l s)"
  by (simp add: same_store_def add_leaf_def)

lemma leaf_paths_add_leaf: "leaf_paths (add_leaf l s) = path s l \<union> leaf_paths s"
  using same_store_simps[OF same_store_add_leaf[of s l]] by (simp add: leaf_paths_def)

lemma binv_same:
  assumes "binv s M S" "same_store s s'" "cache s' = cache s" "\<forall>i. length (o_ivs s' i) = IV" "\<forall>i. o_dis s' i < 2 ^ o_depth s"
  shows "binv s' M S"
proof -
  have "ReadData s' = ReadData s" using assms(3) by (simp add: fun_eq_iff ReadData_def)
  from contents_same[OF assms(2) this] show ?thesis
    using assms same_store_simps(4)[OF assms(2)]
    by (simp add: binv_def null_entries_def) (simp add: geom_def same_store_def)
qed

lemma binv_add_leaf: "binv s M S \<Longrightarrow> binv (add_leaf l s) M S"
  by (rule binv_same[OF _ same_store_add_leaf]) (simp_all add: binv_def geom_def add_leaf_def)

text \<open>Fetching a path and putting its leaf on the list of paths to write back.\<close>

lemma fetch_add_leaf:
  assumes "op_inv s M" "leaf < 2 ^ o_depth s"
  shows "\<exists>s'. FetchPath leaf s = Inr s' \<and> op_inv (add_leaf leaf s') M \<and> grows s (add_leaf leaf s') \<and>
    modified s' = modified s \<and> o_store s' = o_store s \<and> o_dis s' = o_dis s \<and> leafList s' = leafList s \<and>
    (\<forall>k n. M k = Some n \<longrightarrow> n_pos n = leaf \<longrightarrow> k \<in> cached s')"
proof -
  have b: "binv s M (- set (readviewmap s))" using assms(1) by (simp add: op_inv_def)
  from FetchPath_ok[OF b assms(2)] obtain c rv rc where
    f: "FetchPath leaf s = Inr (s\<lparr>readCnt := rc, readviewmap := rv, cache := c\<rparr>)" "set rv = path s leaf \<union> set (readviewmap s)"
      "binv (s\<lparr>readCnt := rc, readviewmap := rv, cache := c\<rparr>) M (- set rv)"
      "cached s \<subseteq> cached (s\<lparr>readCnt := rc, readviewmap := rv, cache := c\<rparr>)" by blast
  let ?s = "s\<lparr>readCnt := rc, readviewmap := rv, cache := c\<rparr>"
  have ss: "same_store s ?s" by (simp add: same_store_def)
  have e: "empty_store ?s = empty_store s" "leaf_paths ?s = leaf_paths s"
    by (rule op_inv_same[OF ss]; simp)+
  have e': "empty_store (add_leaf leaf ?s) = empty_store ?s"
    using same_store_simps[OF same_store_add_leaf[of ?s leaf]] by (simp add: empty_store_def)
  have lp: "leaf_paths (add_leaf leaf ?s) = path s leaf \<union> leaf_paths s"
    using leaf_paths_add_leaf[of leaf ?s] same_store_simps(2)[OF ss] by (simp only: e)
  have "op_inv (add_leaf leaf ?s) M"
    unfolding op_inv_def lp e'
  proof (intro conjI)
    show "binv (add_leaf leaf ?s) M (- set (readviewmap (add_leaf leaf ?s)))" using binv_add_leaf[OF f(3)] by simp
    show "set (readviewmap (add_leaf leaf ?s)) \<subseteq> path s leaf \<union> leaf_paths s"
      using assms(1) f(2) by (auto simp: op_inv_def)
    show "if batchWrite (add_leaf leaf ?s) then empty_store ?s
        else path s leaf \<union> leaf_paths s \<subseteq> set (readviewmap (add_leaf leaf ?s))"
      using assms(1) f(2) e(1) by (auto simp: op_inv_def)
  qed (use assms in \<open>simp_all add: op_inv_def\<close>)
  moreover have "grows s (add_leaf leaf ?s)" using f(4) by (simp add: grows_def)
  moreover have "k \<in> cached ?s" if "M k = Some n" "n_pos n = leaf" for k n
  proof -
    obtain B where "contents ?s B M (- set rv)" using f(3) by (auto simp: binv_def)
    then have "ReadData ?s k = Some n \<or> (\<exists>i \<in> - set rv. i \<in> path ?s (n_pos n) \<and> n \<in> set (B i))"
      using that(1) unfolding contents_def placed_def by blast
    then show ?thesis using f(2) that(2) same_store_simps(2)[OF ss] by auto
  qed
  ultimately show ?thesis using f(1) by (intro exI[of _ ?s]) simp
qed


lemma add_leaf_set_node: "add_leaf l (set_node k n s) = set_node k n (add_leaf l s)"
  by (simp add: add_leaf_def set_node_def)

lemma not_null: "op_inv s M \<Longrightarrow> M k = Some n \<Longrightarrow> \<not> bid_eq_int k 0"
  using op_inv_node by (fastforce simp: node_ok_def)

lemma not_cached:
  assumes "op_inv s M" "\<not> bid_eq_int k 0"
  shows "sm_get (cache s) k = None \<longleftrightarrow> k \<notin> cached s"
proof -
  have "sm_get (cache s) k \<noteq> Some None" using assms by (auto simp: op_inv_def binv_def null_entries_def)
  then show ?thesis by (auto simp: ReadData_def split: option.splits)
qed

text \<open>Reading a node through its position.\<close>

lemma ReadNode_ok:
  assumes "op_inv s M" "M k = Some n" "n_pos n = leaf"
  shows "\<exists>s'. ReadNode k leaf leaf s = Inr (s', Some k) \<and> op_inv s' M \<and> grows s s' \<and> k \<in> cached s' \<and>
    modified s' = insert k (modified s) \<and> o_store s' = o_store s"
proof -
  have k: "\<not> bid_eq_int k 0" using assms by (intro not_null)
  have n: "n\<lparr>n_pos := leaf\<rparr> = n" using assms(3) by auto
  have ok: "node_ok s n" "n_key n = k" using op_inv_node[OF assms(1,2)] by simp_all
  have M: "M(k \<mapsto> n) = M" using assms(2) by (simp add: fun_upd_idem)
  show ?thesis
  proof (cases "sm_get (cache s) k = None \<or> leaf \<notin> set (leafList s)")
    case False
    then have c: "k \<in> cached s" using not_cached[OF assms(1) k] by blast
    let ?s = "set_node k n (mark_modified k s)"
    have "ReadNode k leaf leaf s = Inr (?s, Some k)"
      using False k n op_inv_deref(1)[OF assms(1) c assms(2)] by (auto simp: ReadNode_def)
    moreover have "op_inv ?s M" "grows s ?s"
      using op_inv_set_node[OF op_inv_mark(1)[OF assms(1)] _ ok(2), of k] c ok(1) grows_trans[OF op_inv_mark(2)[OF assms(1), of k]]
      by (simp_all add: M node_ok_def)
    ultimately show ?thesis by (intro exI[of _ ?s]) (simp add: ReadData_set_node)
  next
    case True
    have "leaf < 2 ^ o_depth s" using ok assms(3) by (simp add: node_ok_def)
    from fetch_add_leaf[OF assms(1) this] obtain s1 where
      s1: "FetchPath leaf s = Inr s1" "op_inv (add_leaf leaf s1) M" "grows s (add_leaf leaf s1)" "modified s1 = modified s"
        "o_store s1 = o_store s" "k \<in> cached s1" using assms(2,3) by blast
    have rd: "ReadData s1 k = Some n" using op_inv_ReadData[OF s1(2), of k] s1(6) assms(2) by auto
    let ?a = "add_leaf leaf s1"
    let ?s = "mark_modified k (set_node k n ?a)"
    have "ReadNode k leaf leaf s = Inr (?s, Some k)"
      using True k by (simp add: ReadNode_def Access_read_def s1(1) rd n add_leaf_set_node)
    moreover have "op_inv ?s M" "grows s ?s"
    proof -
      have "node_ok ?a n" using ok s1(3) by (simp add: node_ok_def grows_def)
      then have "op_inv (set_node k n ?a) (M(k \<mapsto> n))" "grows ?a (set_node k n ?a)"
        using op_inv_set_node[OF s1(2) _ ok(2)] s1(6) by simp_all
      then show "op_inv ?s M" "grows s ?s" unfolding M
        using op_inv_mark[of "set_node k n ?a" M k] s1(3) by (blast intro: grows_trans)+
    qed
    ultimately show ?thesis by (intro exI[of _ ?s]) (simp add: ReadData_set_node s1(4,5))
  qed
qed

lemma WriteNode_cached:
  "op_inv s M \<Longrightarrow> k \<in> cached s \<Longrightarrow> \<not> bid_eq_int k 0 \<Longrightarrow> WriteNode k n s = Inr (mark_modified k s, n_pos n)"
  using not_cached[of s M k] by (auto simp: WriteNode_def)

lemma op_inv_space:
  assumes "op_inv s M"
  shows "op_inv (s\<lparr>o_store := ReduceEmptyNumbers (o_store s)\<rparr>) M"
proof -
  let ?s = "s\<lparr>o_store := ReduceEmptyNumbers (o_store s)\<rparr>"
  have ss: "same_store s ?s" by (simp add: same_store_def ReduceEmptyNumbers_def)
  have "binv ?s M (- set (readviewmap s))"
    by (rule binv_same[OF _ ss]) (use assms in \<open>simp_all add: op_inv_def binv_def geom_def\<close>)
  then show ?thesis using assms op_inv_same[OF ss] by (simp add: op_inv_def)
qed

text \<open>Storing a node that is not there yet uses up one place.\<close>

lemma WriteNode_new:
  assumes "op_inv s M" "M k = None" "node_ok s n" "n_key n = k" "0 < emptyNodes (o_store s)"
  shows "\<exists>s'. WriteNode k n s = Inr (s', n_pos n) \<and> op_inv s' (M(k \<mapsto> n)) \<and> grows s s' \<and> k \<in> cached s' \<and>
    modified s' = insert k (modified s) \<and> emptyNodes (o_store s') = emptyNodes (o_store s) - 1"
proof -
  let ?m = "mark_modified k s" and ?l = "n_pos n"
  have k: "\<not> bid_eq_int k 0" using assms(3,4) by (simp add: node_ok_def)
  have "k \<notin> cached s" using op_inv_ReadData[OF assms(1), of k] assms(2) by auto
  then have w: "WriteNode k n s = bindE (Access_write k n ?m) (\<lambda>s1. Inr (s1, ?l))"
    using k not_cached[OF assms(1) k] by (simp add: WriteNode_def)
  have m: "op_inv ?m M" "grows s ?m" using op_inv_mark[OF assms(1)] by simp_all
  have l: "?l < 2 ^ o_depth ?m" using assms(3) by (simp add: node_ok_def)
  obtain s1 where s1: "(if batchWrite ?m then Inr ?m else FetchPath ?l ?m) = Inr s1" "op_inv (add_leaf ?l s1) M"
    "grows ?m (add_leaf ?l s1)" "modified s1 = modified ?m" "o_store s1 = o_store ?m"
  proof (cases "batchWrite ?m")
    case True
    have "empty_store (add_leaf ?l ?m) = empty_store ?m"
      using same_store_simps[OF same_store_add_leaf[of ?m ?l]] by (simp add: empty_store_def)
    then have "op_inv (add_leaf ?l ?m) M"
      using m(1) True l binv_add_leaf[of ?m M _ ?l] by (auto simp: op_inv_def leaf_paths_add_leaf)
    with True that[of ?m] show ?thesis by (simp add: grows_def)
  next
    case False
    from fetch_add_leaf[OF m(1) l] False that show ?thesis by auto
  qed
  let ?a = "add_leaf ?l s1"
  let ?s = "(set_node k n ?a)\<lparr>o_store := ReduceEmptyNumbers (o_store (set_node k n ?a))\<rparr>"
  have "add_leaf ?l ((set_node k n s1)\<lparr>o_store := ReduceEmptyNumbers (o_store s1)\<rparr>) = ?s"
    by (simp add: add_leaf_def set_node_def)
  then have "WriteNode k n s = Inr (?s, ?l)"
    unfolding w Access_write_def s1(1) using assms(5) s1(5) by (simp add: WriteData_def GetEmptySize_def)
  moreover have "node_ok ?a n" using assms(3) s1(3) m(2) by (simp add: node_ok_def grows_def)
  then have "op_inv (set_node k n ?a) (M(k \<mapsto> n))" "grows ?a (set_node k n ?a)"
    using op_inv_set_node[OF s1(2) _ assms(4)] assms(2) by simp_all
  then have "op_inv ?s (M(k \<mapsto> n))" "grows s (set_node k n ?a)"
    using op_inv_space grows_trans[OF grows_trans[OF m(2) s1(3)]] by blast+
  moreover have rd: "ReadData ?s = ReadData (set_node k n ?a)" by (simp add: fun_eq_iff ReadData_def)
  ultimately show ?thesis
    using s1(4,5) assms(5)
    by (intro exI[of _ ?s]) (simp add: grows_def ReadData_set_node ReduceEmptyNumbers_def)
qed

end
