(* ===== verification/OramWrite.thy ===== *)
theory OramWrite
  imports OramInv
begin

text \<open>
  The end of an operation: the fake reads, the hand-out of new positions, and the write back of the fetched paths.
\<close>

section \<open>Writing a bucket\<close>

lemma take_blocks_ok:
  assumes "sm_wf (cache s)" "distinct ks" "\<forall>k \<in> set ks. \<exists>n. ReadData s k = Some n \<and> n_key n = k"
  shows "\<exists>c. take_blocks ks s = Inr (s\<lparr>cache := c\<rparr>, map (\<lambda>k. mk_block (the (ReadData s k))) ks) \<and> sm_wf c \<and>
    ReadData (s\<lparr>cache := c\<rparr>) = (\<lambda>k. if k \<in> set ks then None else ReadData s k) \<and>
    (\<forall>k v. sm_get c k = Some v \<longrightarrow> sm_get (cache s) k = Some v)"
  using assms
proof (induction ks arbitrary: s)
  case Nil
  then show ?case by (intro exI[of _ "cache s"]) simp
next
  case (Cons k ks)
  let ?s = "s\<lparr>cache := sm_erase k (cache s)\<rparr>"
  have rd: "ReadData ?s = (ReadData s)(k := None)" by (simp add: ReadData_erase)
  from Cons.prems(3) obtain n where n: "ReadData s k = Some n" "n_key n = k" by auto
  then have t: "take_block s k = Inr (mk_block n)"
    by (simp add: take_block_def ReadData_def mk_block_def split: option.splits)
  have "\<forall>k' \<in> set ks. \<exists>n. ReadData ?s k' = Some n \<and> n_key n = k'" using Cons.prems(2,3) by (auto simp: rd)
  then obtain c where c: "take_blocks ks ?s = Inr (?s\<lparr>cache := c\<rparr>, map (\<lambda>k. mk_block (the (ReadData ?s k))) ks)" "sm_wf c"
    "ReadData (?s\<lparr>cache := c\<rparr>) = (\<lambda>k. if k \<in> set ks then None else ReadData ?s k)"
    "\<forall>k' v. sm_get c k' = Some v \<longrightarrow> sm_get (sm_erase k (cache s)) k' = Some v"
    using Cons.IH[of ?s] Cons.prems(1,2) by (auto simp: sm_wf_erase)
  have "map (\<lambda>k'. mk_block (the (ReadData ?s k'))) ks = map (\<lambda>k'. mk_block (the (ReadData s k'))) ks"
    using Cons.prems(2) by (auto simp: rd)
  then have "take_blocks (k # ks) s = Inr (s\<lparr>cache := c\<rparr>, map (\<lambda>k. mk_block (the (ReadData s k))) (k # ks))"
    using t c(1) n(1) by simp
  moreover have "ReadData (s\<lparr>cache := c\<rparr>) = (\<lambda>k'. if k' \<in> set (k # ks) then None else ReadData s k')"
    using c(3) by (auto simp: fun_eq_iff rd)
  moreover have "\<forall>k' v. sm_get c k' = Some v \<longrightarrow> sm_get (cache s) k' = Some v"
    using c(4) by (simp add: sm_get_erase) (metis fun_upd_apply option.distinct(1))
  ultimately show ?case using c(2) by blast
qed

lemma GetIntersectingBlocks_ok:
  assumes "sm_wf (cache s)"
  shows "distinct (GetIntersectingBlocks s x d)" "length (GetIntersectingBlocks s x d) \<le> Z"
    "k \<in> set (GetIntersectingBlocks s x d) \<Longrightarrow> \<exists>n. ReadData s k = Some n \<and> GetNodeOnPath s (n_pos n) d = GetNodeOnPath s x d"
proof -
  let ?f = "filter (\<lambda>b. case snd b of None \<Rightarrow> False
      | Some n \<Rightarrow> GetNodeOnPath s (n_pos n) d = GetNodeOnPath s x d) (cache s)"
  have g: "GetIntersectingBlocks s x d = take Z (map fst ?f)" by (simp add: GetIntersectingBlocks_def Let_def)
  have "distinct (map fst ?f)" using sm_wf_distinct[OF assms] by (rule distinct_map_filter)
  then show "distinct (GetIntersectingBlocks s x d)" "length (GetIntersectingBlocks s x d) \<le> Z" by (simp_all add: g)
  assume "k \<in> set (GetIntersectingBlocks s x d)"
  then obtain v where v: "(k, v) \<in> set (cache s)" "case v of None \<Rightarrow> False | Some n \<Rightarrow> GetNodeOnPath s (n_pos n) d = GetNodeOnPath s x d"
    using set_take_subset[of Z "map fst ?f"] by (auto simp: g)
  then show "\<exists>n. ReadData s k = Some n \<and> GetNodeOnPath s (n_pos n) d = GetNodeOnPath s x d"
    using sm_in_set_iff[OF assms] by (auto simp: ReadData_def split: option.splits)
qed

lemma contents_write:
  assumes "contents s B M S" "i \<notin> S" "ns = map (\<lambda>k. the (ReadData s k)) ks"
    and "\<forall>k \<in> set ks. \<exists>n. ReadData s k = Some n \<and> i \<in> path s (n_pos n)"
    and s': "path s' = path s" "node_ok s' = node_ok s" "bucketCount s' = bucketCount s"
    and "ReadData s' = (\<lambda>k. if k \<in> set ks then None else ReadData s k)"
  shows "contents s' (B(i := ns)) M (insert i S)"
  using placed_write[OF assms(1)[unfolded contents_def] assms(2-4,8)] unfolding contents_def s' .

lemma WritePath_ok:
  assumes "binv s M S" "leaf < 2 ^ o_depth s" "d \<le> o_depth s" "GetNodeOnPath s leaf d \<notin> set (writeviewmap s) \<Longrightarrow> GetNodeOnPath s leaf d \<notin> S"
  shows "\<exists>c wv ivs st. WritePath leaf d s = Inr (s\<lparr>cache := c, writeviewmap := wv, o_ivs := ivs, o_store := st\<rparr>) \<and>
    set wv = insert (GetNodeOnPath s leaf d) (set (writeviewmap s)) \<and> emptyNodes st = emptyNodes (o_store s) \<and>
    binv (s\<lparr>cache := c, writeviewmap := wv, o_ivs := ivs, o_store := st\<rparr>) M
      (if GetNodeOnPath s leaf d \<in> set (writeviewmap s) then S else insert (GetNodeOnPath s leaf d) S)"
proof (cases "GetNodeOnPath s leaf d \<in> set (writeviewmap s)")
  case True
  then show ?thesis
    using assms(1)
    by (intro exI[of _ "cache s"] exI[of _ "writeviewmap s"] exI[of _ "o_ivs s"] exI[of _ "o_store s"])
      (simp add: WritePath_def insert_absorb)
next
  case False
  let ?i = "GetNodeOnPath s leaf d" and ?ks = "GetIntersectingBlocks s leaf d"
  let ?ns = "map (\<lambda>k. the (ReadData s k)) ?ks"
  obtain B where B: "store_ok s B" "contents s B M S" and g: "geom s" and wf: "sm_wf (cache s)" and nl: "null_entries s"
    using assms(1) by (auto simp: binv_def)
  note gi = GetIntersectingBlocks_ok[OF wf, where x = leaf and d = d]
  have i: "?i < bucketCount s" by (rule GetNodeOnPath_bound[OF g assms(2,3)])
  have ks: "\<forall>k \<in> set ?ks. \<exists>n. ReadData s k = Some n \<and> ?i \<in> path s (n_pos n)"
    using gi(3) assms(3) unfolding path_def by (metis atMost_iff image_eqI)
  have ok: "ReadData s k = Some n \<Longrightarrow> node_ok s n \<and> n_key n = k" for k n using contentsD(1-3)[OF B(2)] by blast
  then have kn: "\<forall>k \<in> set ?ks. \<exists>n. ReadData s k = Some n \<and> n_key n = k" using ks by blast
  have nok: "\<forall>n \<in> set ?ns. node_ok s n" using ks ok by force
  obtain c where c: "take_blocks ?ks s = Inr (s\<lparr>cache := c\<rparr>, map (\<lambda>k. mk_block (the (ReadData s k))) ?ks)" "sm_wf c"
    "ReadData (s\<lparr>cache := c\<rparr>) = (\<lambda>k. if k \<in> set ?ks then None else ReadData s k)"
    "\<forall>k v. sm_get c k = Some v \<longrightarrow> sm_get (cache s) k = Some v"
    using take_blocks_ok[OF wf gi(1) kn] by blast
  let ?s1 = "s\<lparr>cache := c, writeviewmap := writeviewmap s @ [?i]\<rparr>"
  have "geom ?s1" using g by (simp add: geom_def)
  moreover have "?i < length (rs_store (o_store ?s1))" using i g by (simp add: geom_def)
  moreover have "\<forall>n \<in> set ?ns. node_wf n" using nok by (simp add: node_ok_def)
  ultimately obtain st ivs where w: "WriteBucket ?i (mk_bucket ?ns) ?s1 = Inr (?s1\<lparr>o_ivs := ivs, o_store := st\<rparr>)"
    "geom (?s1\<lparr>o_ivs := ivs, o_store := st\<rparr>)" "emptyNodes st = emptyNodes (o_store s)"
    "\<forall>j. ReadBucket (?s1\<lparr>o_ivs := ivs, o_store := st\<rparr>) j = (if j = ?i then Inr (mk_bucket ?ns) else ReadBucket ?s1 j)"
    using WriteBucket_ok[of ?s1 ?ns ?i] gi(2) by auto
  let ?s = "s\<lparr>cache := c, writeviewmap := writeviewmap s @ [?i], o_ivs := ivs, o_store := st\<rparr>"
  have ss: "same_store s ?s1" by (simp add: same_store_def)
  have "map (\<lambda>k. mk_block (the (ReadData s k))) ?ks @ replicate (Z - length ?ks) (dummy_block (blockSize s)) = mk_bucket ?ns"
    using g by (simp add: mk_bucket_def comp_def geom_def)
  then have r: "WritePath leaf d s = Inr ?s"
    using False c(1) w(1) by (simp add: WritePath_def Let_def)
  have p: "path ?s = path s" "node_ok ?s = node_ok s" "bucketCount ?s = bucketCount s"
    by (simp_all add: fun_eq_iff path_def GetNodeOnPath_def node_ok_def)
  have rd: "ReadData ?s = (\<lambda>k. if k \<in> set ?ks then None else ReadData s k)"
    using c(3) by (simp add: fun_eq_iff ReadData_def)
  have "store_ok ?s (B(?i := ?ns))"
    using B(1) w(4) gi(2) nok same_store_simps(1)[OF ss] by (simp add: store_ok_def p)
  moreover have "contents ?s (B(?i := ?ns)) M (insert ?i S)"
    by (rule contents_write[OF B(2) assms(4)[OF False] refl ks p rd])
  moreover have "null_entries ?s" using nl c(4) by (simp add: null_entries_def)
  ultimately have "binv ?s M (insert ?i S)" using w(2) c(2) unfolding binv_def by auto
  with r w(3) False show ?thesis
    by (intro exI[of _ c] exI[of _ "writeviewmap s @ [?i]"] exI[of _ ivs] exI[of _ st]) simp
qed


section \<open>Writing the paths back\<close>

text \<open>
  During the write back the buckets that count are those off the fetched paths and those already written.
\<close>

definition wb_inv :: "'n::len oram \<Rightarrow> ('n Bid \<Rightarrow> 'n node option) \<Rightarrow> bool" where
  "wb_inv s M \<longleftrightarrow> binv s M (- leaf_paths s \<union> set (writeviewmap s)) \<and> set (writeviewmap s) \<subseteq> leaf_paths s \<and>
     (\<forall>leaf \<in> set (leafList s). leaf < 2 ^ o_depth s)"

definition wb_step :: "'n::len oram \<Rightarrow> 'n oram \<Rightarrow> bool" where
  "wb_step s s' \<longleftrightarrow> leafList s' = leafList s \<and> o_depth s' = o_depth s \<and> bucketCount s' = bucketCount s \<and>
     emptyNodes (o_store s') = emptyNodes (o_store s) \<and> set (writeviewmap s) \<subseteq> set (writeviewmap s')"

lemma wb_step_refl [simp]: "wb_step s s"
  by (simp add: wb_step_def)

lemma wb_step_trans: "wb_step s s' \<Longrightarrow> wb_step s' s'' \<Longrightarrow> wb_step s s''"
  by (auto simp: wb_step_def)

lemma wb_step_path: "wb_step s s' \<Longrightarrow> GetNodeOnPath s' = GetNodeOnPath s"
  by (simp add: wb_step_def fun_eq_iff GetNodeOnPath_def)

lemma wb_WritePath:
  assumes "wb_inv s M" "leaf \<in> set (leafList s)" "d \<le> o_depth s"
  shows "\<exists>s'. WritePath leaf d s = Inr s' \<and> wb_inv s' M \<and> wb_step s s' \<and> GetNodeOnPath s leaf d \<in> set (writeviewmap s')"
proof -
  let ?i = "GetNodeOnPath s leaf d" and ?S = "- leaf_paths s \<union> set (writeviewmap s)"
  have i: "?i \<in> leaf_paths s" using assms(2,3) by (auto simp: leaf_paths_def path_def)
  have "binv s M ?S" "leaf < 2 ^ o_depth s" using assms by (simp_all add: wb_inv_def)
  moreover have "?i \<notin> set (writeviewmap s) \<Longrightarrow> ?i \<notin> ?S" using i by blast
  ultimately obtain c wv ivs st where
    w: "WritePath leaf d s = Inr (s\<lparr>cache := c, writeviewmap := wv, o_ivs := ivs, o_store := st\<rparr>)"
      "set wv = insert ?i (set (writeviewmap s))" "emptyNodes st = emptyNodes (o_store s)"
      "binv (s\<lparr>cache := c, writeviewmap := wv, o_ivs := ivs, o_store := st\<rparr>) M
        (if ?i \<in> set (writeviewmap s) then ?S else insert ?i ?S)"
    using WritePath_ok[OF _ _ assms(3)] by blast
  let ?s = "s\<lparr>cache := c, writeviewmap := wv, o_ivs := ivs, o_store := st\<rparr>"
  have "leaf_paths ?s = leaf_paths s" by (simp add: leaf_paths_def path_def GetNodeOnPath_def)
  moreover have "(if ?i \<in> set (writeviewmap s) then ?S else insert ?i ?S) = - leaf_paths s \<union> set wv"
    by (auto simp: w(2))
  ultimately have "wb_inv ?s M" using w(2,4) i assms(1) by (simp add: wb_inv_def)
  moreover have "wb_step s ?s" using w(2,3) by (auto simp: wb_step_def)
  ultimately show ?thesis using w(1,2) by (intro exI[of _ ?s]) simp
qed

lemma wb_level:
  assumes "wb_inv s M" "set ls \<subseteq> set (leafList s)" "d \<le> o_depth s"
  shows "\<exists>s'. foldE (\<lambda>leaf. WritePath leaf d) ls s = Inr s' \<and> wb_inv s' M \<and> wb_step s s' \<and>
    (\<forall>leaf \<in> set ls. GetNodeOnPath s leaf d \<in> set (writeviewmap s'))"
  using assms
proof (induction ls arbitrary: s)
  case Nil
  then show ?case by simp
next
  case (Cons l ls)
  then obtain s1 where s1: "WritePath l d s = Inr s1" "wb_inv s1 M" "wb_step s s1" "GetNodeOnPath s l d \<in> set (writeviewmap s1)"
    using wb_WritePath[of s M l d] by auto
  have "set ls \<subseteq> set (leafList s1)" "d \<le> o_depth s1" using Cons.prems s1(3) by (simp_all add: wb_step_def)
  with Cons.IH[OF s1(2)] obtain s2 where s2: "foldE (\<lambda>leaf. WritePath leaf d) ls s1 = Inr s2" "wb_inv s2 M" "wb_step s1 s2"
    "\<forall>leaf \<in> set ls. GetNodeOnPath s1 leaf d \<in> set (writeviewmap s2)" by blast
  have "GetNodeOnPath s l d \<in> set (writeviewmap s2)" using s1(4) s2(3) by (auto simp: wb_step_def)
  then show ?case using s1(1) s2 wb_step_trans[OF s1(3) s2(3)] wb_step_path[OF s1(3)]
    by (intro exI[of _ s2]) simp
qed

lemma wb_levels:
  assumes "wb_inv s M" "\<forall>d \<in> set ds. d \<le> o_depth s"
  shows "\<exists>s'. foldE (\<lambda>d s. foldE (\<lambda>leaf. WritePath leaf d) (leafList s) s) ds s = Inr s' \<and> wb_inv s' M \<and> wb_step s s' \<and>
    (\<forall>d \<in> set ds. \<forall>leaf \<in> set (leafList s). GetNodeOnPath s leaf d \<in> set (writeviewmap s'))"
  using assms
proof (induction ds arbitrary: s)
  case Nil
  then show ?case by simp
next
  case (Cons d ds)
  then obtain s1 where s1: "foldE (\<lambda>leaf. WritePath leaf d) (leafList s) s = Inr s1" "wb_inv s1 M" "wb_step s s1"
    "\<forall>leaf \<in> set (leafList s). GetNodeOnPath s leaf d \<in> set (writeviewmap s1)"
    using wb_level[of s M "leafList s" d] by auto
  have "\<forall>d \<in> set ds. d \<le> o_depth s1" using Cons.prems(2) s1(3) by (simp add: wb_step_def)
  with Cons.IH[OF s1(2)] obtain s2 where
    s2: "foldE (\<lambda>d s. foldE (\<lambda>leaf. WritePath leaf d) (leafList s) s) ds s1 = Inr s2" "wb_inv s2 M" "wb_step s1 s2"
      "\<forall>d \<in> set ds. \<forall>leaf \<in> set (leafList s1). GetNodeOnPath s1 leaf d \<in> set (writeviewmap s2)" by blast
  have "\<forall>leaf \<in> set (leafList s). GetNodeOnPath s leaf d \<in> set (writeviewmap s2)"
    using s1(4) s2(3) by (auto simp: wb_step_def)
  moreover have "leafList s1 = leafList s" using s1(3) by (simp add: wb_step_def)
  ultimately show ?case
    using s1(1) s2 wb_step_trans[OF s1(3) s2(3)] wb_step_path[OF s1(3)] by (intro exI[of _ s2]) simp
qed

text \<open>After the write back every bucket counts.\<close>

lemma write_back_ok:
  assumes "op_inv s M"
  shows "\<exists>s'. write_back s = Inr s' \<and> binv s' M UNIV \<and> wb_step s s'"
proof -
  obtain B where B: "store_ok s B" "contents s B M (- set (readviewmap s))" using assms by (auto simp: op_inv_def binv_def)
  have "contents s B M (- leaf_paths s)"
  proof (cases "batchWrite s")
    case False
    then have "leaf_paths s = set (readviewmap s)" using assms by (auto simp: op_inv_def)
    with B(2) show ?thesis by simp
  next
    case True
    have e: "B i = []" if "i < bucketCount s" for i
    proof -
      have "mk_bucket (B i) = mk_bucket []" "length (B i) \<le> Z" "\<forall>n \<in> set (B i). node_ok s n"
        using True assms B(1) that by (auto simp: op_inv_def empty_store_def store_ok_def)
      moreover have "b_id (hd (mk_bucket [])) = Bid0" by (simp add: mk_bucket_def Z_def dummy_block_def dummy_id)
      moreover note Bid0_null
      moreover have "b_id (hd (mk_bucket (B i))) = n_key (hd (B i))" if "B i \<noteq> []"
        using that by (cases "B i") (simp_all add: mk_bucket_def mk_block_def)
      ultimately show ?thesis by (metis hd_in_set node_ok_def)
    qed
    have g: "geom s" using assms by (simp add: op_inv_def binv_def)
    have r: "ReadData s k = Some n" if "M k = Some n" for k n
    proof -
      have "n_pos n < 2 ^ o_depth s" using contentsD(1)[OF B(2) that] by (simp add: node_ok_def)
      then have "B i = []" if "i \<in> path s (n_pos n)" for i using e path_bound[OF g _ that] by blast
      then show ?thesis using contentsD(4)[OF B(2) that] by auto
    qed
    show ?thesis
    proof (rule contentsI)
      fix k n
      show "node_ok s n \<and> n_key n = k" if "M k = Some n" using contentsD(1,2)[OF B(2) that] by simp
      show "M k = Some n" if "ReadData s k = Some n" by (rule contentsD(3)[OF B(2) that])
      show "ReadData s k = Some n \<or> (\<exists>i \<in> - leaf_paths s. i \<in> path s (n_pos n) \<and> n \<in> set (B i))" if "M k = Some n"
        using r[OF that] by simp
    qed (simp_all add: e)
  qed
  then have "wb_inv s M" using assms B(1) by (auto simp: wb_inv_def op_inv_def binv_def)
  from wb_levels[OF this, of "rev [0..<Suc (o_depth s)]"] obtain s' where
    s': "write_back s = Inr s'" "wb_inv s' M" "wb_step s s'"
      "\<forall>d \<in> set (rev [0..<Suc (o_depth s)]). \<forall>leaf \<in> set (leafList s). GetNodeOnPath s leaf d \<in> set (writeviewmap s')"
    by (auto simp: write_back_def)
  have "leaf_paths s' \<subseteq> set (writeviewmap s')"
    using s'(3,4) wb_step_path[OF s'(3)] by (fastforce simp: leaf_paths_def path_def wb_step_def)
  then have "- leaf_paths s' \<union> set (writeviewmap s') = UNIV" by auto
  with s' show ?thesis by (auto simp: wb_inv_def)
qed


section \<open>The fake reads\<close>

lemma fake_read_ok:
  assumes "op_inv s M"
  shows "\<exists>s'. fake_read s = Inr s' \<and> op_inv s' M \<and> grows s s' \<and> modified s' = modified s \<and> o_store s' = o_store s"
proof -
  obtain rnd s0 where r: "oram_RandomPath s = (rnd, s0)" by force
  then have s0: "s0 = s\<lparr>o_dis := \<lambda>i. o_dis s (Suc i)\<rparr>" "rnd = o_dis s 0" by (simp_all add: oram_RandomPath_def)
  have l: "rnd < 2 ^ o_depth s" using assms by (simp add: s0(2) op_inv_def binv_def geom_def)
  have ss: "same_store s s0" by (simp add: s0(1) same_store_def)
  have "binv s0 M (- set (readviewmap s))"
    by (rule binv_same[OF _ ss]) (use assms in \<open>simp_all add: s0(1) op_inv_def binv_def geom_def\<close>)
  then have b: "binv (add_leaf rnd s0) M (- set (readviewmap (add_leaf rnd s0)))" using binv_add_leaf by (simp add: s0(1))
  let ?a = "add_leaf rnd s0"
  from FetchPath_ok[OF b, of rnd] l obtain c rv rc where
    f: "FetchPath rnd ?a = Inr (?a\<lparr>readCnt := rc, readviewmap := rv, cache := c\<rparr>)" "set rv = path ?a rnd \<union> set (readviewmap ?a)"
      "binv (?a\<lparr>readCnt := rc, readviewmap := rv, cache := c\<rparr>) M (- set rv)"
      "cached ?a \<subseteq> cached (?a\<lparr>readCnt := rc, readviewmap := rv, cache := c\<rparr>)" by (auto simp: s0(1))
  let ?s = "?a\<lparr>readCnt := rc, readviewmap := rv, cache := c\<rparr>"
  have sa: "same_store s ?a" "same_store s ?s" using ss same_store_add_leaf[of s0 rnd] by (simp_all add: same_store_def)
  have lp: "leaf_paths ?s = path s rnd \<union> leaf_paths s"
    using same_store_simps(2)[OF sa(2)] by (auto simp: leaf_paths_def s0(1))
  have e: "empty_store ?s = empty_store s" using same_store_simps[OF sa(2)] by (simp add: empty_store_def)
  have p: "set rv = path s rnd \<union> set (readviewmap s)" using f(2) same_store_simps(2)[OF sa(1)] by (simp add: s0(1))
  have "op_inv ?s M"
    unfolding op_inv_def lp e using assms f(3) l p by (auto simp: op_inv_def s0(1))
  moreover have "ReadData s0 = ReadData s" by (simp add: fun_eq_iff ReadData_def s0(1))
  then have "cached ?a = cached s" by simp
  ultimately show ?thesis
    using f(1,4) r by (intro exI[of _ ?s]) (simp add: fake_read_def grows_def s0(1))
qed

lemma fake_reads_ok:
  assumes "op_inv s M"
  shows "\<exists>s'. foldE (\<lambda>_. fake_read) xs s = Inr s' \<and> op_inv s' M \<and> grows s s' \<and> modified s' = modified s \<and> o_store s' = o_store s"
  using assms
proof (induction xs arbitrary: s)
  case Nil
  then show ?case by simp
next
  case (Cons x xs)
  from fake_read_ok[OF Cons.prems] obtain s1 where
    s1: "fake_read s = Inr s1" "op_inv s1 M" "grows s s1" "modified s1 = modified s" "o_store s1 = o_store s" by blast
  from Cons.IH[OF s1(2)] obtain s2 where
    "foldE (\<lambda>_. fake_read) xs s1 = Inr s2" "op_inv s2 M" "grows s1 s2" "modified s2 = modified s1" "o_store s2 = o_store s1" by blast
  then show ?case using s1 grows_trans[OF s1(3)] by auto
qed

end
