(* ===== verification/OramFinish.thy ===== *)
theory OramFinish
  imports OramWrite
begin

text \<open>
  The hand-out of new positions at the end of an operation. The nodes of the cache are visited by increasing
  height, so a node's children have their final positions when it copies them. The links are right afterwards
  because a node whose child was touched is in the cache itself.
\<close>

definition same_shape :: "'n::len node \<Rightarrow> 'n node \<Rightarrow> bool" where
  "same_shape n n' \<longleftrightarrow> n_key n' = n_key n \<and> n_value n' = n_value n \<and> leftID n' = leftID n \<and> rightID n' = rightID n \<and>
     n_height n' = n_height n"

definition links :: "'n::len node \<Rightarrow> ('n Bid \<times> nat) set" where
  "links n = {(c, p). (c, p) \<in> {(leftID n, leftPos n), (rightID n, rightPos n)} \<and> \<not> bid_eq_int c 0}"

definition linked :: "('n::len Bid \<Rightarrow> 'n node option) \<Rightarrow> 'n node \<Rightarrow> bool" where
  "linked M n \<longleftrightarrow> (\<forall>(c, p) \<in> links n. \<exists>m. M c = Some m \<and> n_pos m = p)"

definition shaped :: "('n::len Bid \<Rightarrow> 'n node option) \<Rightarrow> bool" where
  "shaped M \<longleftrightarrow> (\<forall>k n. M k = Some n \<longrightarrow> linked M n \<and>
     (\<forall>(c, p) \<in> links n. \<exists>m. M c = Some m \<and> n_height m < n_height n))"

lemma links_same_shape: "same_shape n n' \<Longrightarrow> fst ` links n' = fst ` links n"
  by (force simp: same_shape_def links_def)

section \<open>One node\<close>

lemma op_inv_RandomPath:
  assumes "op_inv s M"
  shows "op_inv (snd (oram_RandomPath s)) M" "fst (oram_RandomPath s) < 2 ^ o_depth s"
proof -
  let ?s = "s\<lparr>o_dis := \<lambda>i. o_dis s (Suc i)\<rparr>"
  have ss: "same_store s ?s" by (simp add: same_store_def)
  have "binv ?s M (- set (readviewmap s))"
    by (rule binv_same[OF _ ss]) (use assms in \<open>simp_all add: op_inv_def binv_def geom_def\<close>)
  then show "op_inv (snd (oram_RandomPath s)) M"
    using assms op_inv_same[OF ss] by (simp add: oram_RandomPath_def op_inv_def)
  show "fst (oram_RandomPath s) < 2 ^ o_depth s"
    using assms by (simp add: oram_RandomPath_def op_inv_def binv_def geom_def)
qed

definition kept :: "'n::len oram \<Rightarrow> 'n oram \<Rightarrow> bool" where
  "kept s s' \<longleftrightarrow> cached s' = cached s \<and> modified s' = modified s \<and> o_store s' = o_store s \<and> o_depth s' = o_depth s \<and>
     batchWrite s' = batchWrite s \<and> map fst (cache s') = map fst (cache s)"

lemma kept_refl [simp]: "kept s s"
  by (simp add: kept_def)

lemma kept_trans: "kept s s' \<Longrightarrow> kept s' s'' \<Longrightarrow> kept s s''"
  by (simp add: kept_def)

lemma map_fst_sm_put: "sm_wf m \<Longrightarrow> k \<in> fst ` set m \<Longrightarrow> map fst (sm_put k v m) = map fst m"
  by (induction k v m rule: sm_put.induct) (auto simp: sm_wf_def)

lemma kept_set_node:
  assumes "op_inv s M" "k \<in> cached s"
  shows "kept s (set_node k n s)"
proof -
  have "k \<in> fst ` set (cache s)"
    using assms(2) map_of_eq_None_iff[of "cache s" k] by (auto simp: ReadData_def split: option.splits)
  then have "map fst (cache (set_node k n s)) = map fst (cache s)"
    using assms(1) by (simp add: set_node_def map_fst_sm_put op_inv_def binv_def)
  then show ?thesis using assms(2) by (auto simp: kept_def ReadData_set_node)
qed

text \<open>The position a node records for a child after its visit.\<close>

definition new_link :: "'n::len oram \<Rightarrow> ('n Bid \<Rightarrow> 'n node option) \<Rightarrow> 'n Bid \<Rightarrow> nat \<Rightarrow> nat" where
  "new_link s M c p = (if \<not> bid_eq_int c 0 \<and> c \<in> cached s then n_pos (the (M c)) else p)"

lemma child_pos_ok:
  assumes "op_inv s M"
  shows "child_pos s c p = Inr (new_link s M c p)"
proof (cases "bid_eq_int c 0")
  case True
  then show ?thesis by (simp add: child_pos_def new_link_def bid_ne_int_iff)
next
  case False
  note nc = not_cached[OF assms False]
  show ?thesis
  proof (cases "c \<in> cached s")
    case True
    then obtain n where "ReadData s c = Some n" by blast
    then have "M c = Some n" "deref s c = Inr n" using op_inv_ReadData[OF assms] deref_ReadData by blast+
    then show ?thesis using False True nc by (simp add: child_pos_def new_link_def bid_ne_int_iff)
  next
    case False
    then show ?thesis using nc by (simp add: child_pos_def new_link_def bid_ne_int_iff)
  qed
qed

lemma new_link_bound:
  assumes "op_inv s M" "p < 2 ^ 32"
  shows "new_link s M c p < 2 ^ 32"
proof (cases "\<not> bid_eq_int c 0 \<and> c \<in> cached s")
  case True
  then obtain n where "ReadData s c = Some n" by blast
  then have "M c = Some n" by (rule op_inv_ReadData[OF assms(1)])
  then have "n_pos n < 2 ^ o_depth s" using op_inv_node[OF assms(1)] by (simp add: node_ok_def)
  moreover have "(2::nat) ^ o_depth s \<le> 2 ^ 30"
    using assms(1) by (intro power_increasing) (simp_all add: op_inv_def binv_def geom_def)
  ultimately show ?thesis using \<open>M c = Some n\<close> assms(2) by (simp add: new_link_def)
next
  case False
  then show ?thesis using assms(2) by (auto simp: new_link_def)
qed

lemma node_ok_pos:
  "node_ok s n \<Longrightarrow> p < 2 ^ o_depth s \<Longrightarrow> o_depth s \<le> 30 \<Longrightarrow> node_ok s (n\<lparr>n_pos := p\<rparr>)"
  using power_increasing[of "o_depth s" 30 "2::nat"] by (simp add: node_ok_def node_wf_def)

lemma node_ok_links:
  "node_ok s n \<Longrightarrow> p < 2 ^ 32 \<Longrightarrow> node_ok s (n\<lparr>leftPos := p\<rparr>)"
  "node_ok s n \<Longrightarrow> p < 2 ^ 32 \<Longrightarrow> node_ok s (n\<lparr>rightPos := p\<rparr>)"
  by (simp_all add: node_ok_def node_wf_def)

lemma update_pos_visit:
  assumes inv: "op_inv s M" and rd: "ReadData s k = Some n" and h: "n_height n = i"
    and lr: "leftID n \<noteq> k" "rightID n \<noteq> k"
  shows "\<exists>s' p. update_pos i k s = Inr s' \<and> p < 2 ^ o_depth s \<and> (k \<notin> modified s \<longrightarrow> p = n_pos n) \<and> kept s s' \<and>
    op_inv s' (M(k \<mapsto> n\<lparr>n_pos := p, leftPos := new_link s M (leftID n) (leftPos n),
      rightPos := new_link s M (rightID n) (rightPos n)\<rparr>))"
proof -
  have M: "M k = Some n" by (rule op_inv_ReadData[OF inv rd])
  have ok: "node_ok s n" "n_key n = k" using op_inv_node[OF inv M] by simp_all
  have k: "k \<in> cached s" using rd by blast
  have d: "o_depth s \<le> 30" using inv by (simp add: op_inv_def binv_def geom_def)
  define s1 where "s1 = (if k \<in> modified s then snd (oram_RandomPath s) else s)"
  define p where "p = (if k \<in> modified s then fst (oram_RandomPath s) else n_pos n)"
  let ?n1 = "n\<lparr>n_pos := p\<rparr>"
  have p: "p < 2 ^ o_depth s" using op_inv_RandomPath(2)[OF inv] ok(1) by (simp add: p_def node_ok_def)
  have s1: "op_inv s1 M" "kept s s1" "ReadData s1 = ReadData s" "o_depth s1 = o_depth s"
    using op_inv_RandomPath(1)[OF inv] inv by (auto simp: s1_def oram_RandomPath_def kept_def ReadData_def fun_eq_iff)
  let ?s2 = "set_node k ?n1 s1"
  have n1: "node_ok s1 ?n1" using node_ok_pos[OF ok(1) p d] s1(4) by (simp add: node_ok_def)
  have s2: "op_inv ?s2 (M(k \<mapsto> ?n1))" "kept s1 ?s2"
    using op_inv_set_node(1)[OF s1(1) n1] kept_set_node[OF s1(1)] ok(2) k s1(3) by auto
  define lp where "lp = new_link s M (leftID n) (leftPos n)"
  have c2: "cached ?s2 = cached s" using s2(2) s1(2) by (simp add: kept_def)
  have lp: "child_pos ?s2 (leftID ?n1) (leftPos ?n1) = Inr lp"
    using child_pos_ok[OF s2(1), of "leftID n" "leftPos n"] lr(1) c2 by (simp add: lp_def new_link_def)
  have b: "leftPos n < 2 ^ 32" "rightPos n < 2 ^ 32" using ok(1) by (simp_all add: node_ok_def node_wf_def)
  let ?n2 = "?n1\<lparr>leftPos := lp\<rparr>" and ?s3 = "set_node k (?n1\<lparr>leftPos := lp\<rparr>) ?s2"
  have n2: "node_ok ?s2 ?n2"
    using node_ok_links(1)[OF n1, of lp] new_link_bound[OF inv b(1)] by (simp add: lp_def node_ok_def)
  have k2: "k \<in> cached ?s2" using k c2 by simp
  have s3: "op_inv ?s3 (M(k \<mapsto> ?n2))" "kept ?s2 ?s3"
    using op_inv_set_node(1)[OF s2(1) n2] kept_set_node[OF s2(1) k2] ok(2) k2 by auto
  define rp where "rp = new_link s M (rightID n) (rightPos n)"
  have c3: "cached ?s3 = cached s" using s3(2) c2 by (simp add: kept_def)
  have rp: "child_pos ?s3 (rightID ?n2) (rightPos ?n2) = Inr rp"
    using child_pos_ok[OF s3(1), of "rightID n" "rightPos n"] lr(2) c3 by (simp add: rp_def new_link_def)
  let ?n3 = "?n2\<lparr>rightPos := rp\<rparr>" and ?s4 = "set_node k (?n2\<lparr>rightPos := rp\<rparr>) ?s3"
  have n3: "node_ok ?s3 ?n3"
    using node_ok_links(2)[OF n2, of rp] new_link_bound[OF inv b(2)] by (simp add: rp_def node_ok_def)
  have k3: "k \<in> cached ?s3" using k c3 by simp
  have s4: "op_inv ?s4 (M(k \<mapsto> ?n3))" "kept ?s3 ?s4"
    using op_inv_set_node(1)[OF s3(1) n3] kept_set_node[OF s3(1) k3] ok(2) k3 by auto
  have "sm_get (cache s) k = Some (Some n)" using rd by (simp add: ReadData_def split: option.splits)
  moreover have "(if n_key n \<in> modified s then let (p, s') = oram_RandomPath s in (n\<lparr>n_pos := p\<rparr>, s') else (n, s)) = (?n1, s1)"
    by (simp add: s1_def p_def ok(2) case_prod_unfold Let_def)
  ultimately have "update_pos i k s = Inr ?s4"
    using h lp rp unfolding update_pos_def by (simp, simp add: Let_def)
  moreover have "kept s ?s4" using s1(2) s2(2) s3(2) s4(2) by (blast intro: kept_trans)
  moreover have "k \<notin> modified s \<longrightarrow> p = n_pos n" by (simp add: p_def)
  ultimately show ?thesis using s4(1) p unfolding lp_def rp_def by blast
qed


section \<open>All nodes\<close>

text \<open>
  The state of the hand-out: levels below \<open>i\<close> are done and of level \<open>i\<close> the identifiers \<open>ks\<close>. \<open>M0\<close> are the contents before.
\<close>

definition visited :: "nat \<Rightarrow> 'n::len Bid set \<Rightarrow> 'n Bid \<Rightarrow> 'n node \<Rightarrow> bool" where
  "visited i ks k n \<longleftrightarrow> n_height n < i \<or> n_height n = i \<and> k \<in> ks"

definition handout :: "('n::len Bid \<Rightarrow> 'n node option) \<Rightarrow> nat \<Rightarrow> 'n Bid set \<Rightarrow> 'n oram \<Rightarrow> ('n Bid \<Rightarrow> 'n node option) \<Rightarrow> bool" where
  "handout M0 i ks s M \<longleftrightarrow> op_inv s M \<and> dom M = dom M0 \<and>
     (\<forall>k n n0. M k = Some n \<longrightarrow> M0 k = Some n0 \<longrightarrow> same_shape n0 n \<and>
        (k \<in> cached s \<and> visited i ks k n \<or> n = n0) \<and> (k \<in> modified s \<or> n_pos n = n_pos n0) \<and>
        (k \<in> cached s \<longrightarrow> visited i ks k n \<longrightarrow> linked M n))"

text \<open>A touched child has its parent in the cache.\<close>

definition touched_ok :: "'n::len oram \<Rightarrow> ('n Bid \<Rightarrow> 'n node option) \<Rightarrow> bool" where
  "touched_ok s M \<longleftrightarrow> (\<forall>k n. M k = Some n \<longrightarrow> fst ` links n \<inter> modified s \<noteq> {} \<longrightarrow> k \<in> cached s)"

lemma handout_step:
  assumes ho: "handout M0 i ks s M" and sh: "shaped M0" and k: "k \<notin> ks"
  shows "\<exists>s' M'. update_pos i k s = Inr s' \<and> handout M0 i (insert k ks) s' M' \<and> kept s s'"
proof (cases "\<exists>n. ReadData s k = Some n \<and> n_height n = i")
  case False
  have inv: "op_inv s M" using ho by (simp add: handout_def)
  have "update_pos i k s = Inr s" using False by (auto simp: update_pos_def ReadData_def split: option.splits)
  moreover have "visited i (insert k ks) j n \<longleftrightarrow> visited i ks j n" if "M j = Some n" "j \<in> cached s" for j n
  proof -
    have "ReadData s j = Some n" using op_inv_deref(2)[OF inv that(2,1)] .
    then show ?thesis using False by (auto simp: visited_def)
  qed
  then have "handout M0 i (insert k ks) s M" using ho unfolding handout_def by (metis (no_types, lifting))
  ultimately show ?thesis by auto
next
  case True
  then obtain n where n: "ReadData s k = Some n" "n_height n = i" by blast
  have inv: "op_inv s M" and d: "dom M = dom M0" using ho by (simp_all add: handout_def)
  have M: "M k = Some n" by (rule op_inv_ReadData[OF inv n(1)])
  have kc: "k \<in> cached s" using n(1) by blast
  obtain n0 where n0: "M0 k = Some n0" using M d by (metis domD domI)
  have nv: "\<not> visited i ks k n" using n(2) k by (simp add: visited_def)
  have old: "same_shape a0 a" "k' \<in> cached s \<and> visited i ks k' a \<or> a = a0" "k' \<in> modified s \<or> n_pos a = n_pos a0"
    "k' \<in> cached s \<Longrightarrow> visited i ks k' a \<Longrightarrow> linked M a" if "M k' = Some a" "M0 k' = Some a0" for k' a a0
    using ho that by (simp_all add: handout_def)
  have eq: "n = n0" using old(2)[OF M n0] nv by blast
  have child: "\<exists>m0. M0 c = Some m0 \<and> n_pos m0 = p \<and> n_height m0 < n_height a0" if "(c, p) \<in> links a0" "M0 j = Some a0" for c p j a0
    using sh that unfolding shaped_def linked_def by fastforce
  have lk: "c \<noteq> k" if "(c, p) \<in> links n" for c p
    using child[OF that[unfolded eq] n0] n0 by auto
  have nul: "bid_eq_int (leftID n) 0 \<or> leftID n \<noteq> k" "bid_eq_int (rightID n) 0 \<or> rightID n \<noteq> k"
    using lk[of "leftID n" "leftPos n"] lk[of "rightID n" "rightPos n"] by (auto simp: links_def)
  moreover have "\<not> bid_eq_int k 0" using not_null[OF inv M] .
  ultimately have lr: "leftID n \<noteq> k" "rightID n \<noteq> k" by auto
  obtain s' p where s': "update_pos i k s = Inr s'" "k \<notin> modified s \<longrightarrow> p = n_pos n" "kept s s'"
    "op_inv s' (M(k \<mapsto> n\<lparr>n_pos := p, leftPos := new_link s M (leftID n) (leftPos n), rightPos := new_link s M (rightID n) (rightPos n)\<rparr>))"
    using update_pos_visit[OF inv n lr] by blast
  let ?n = "n\<lparr>n_pos := p, leftPos := new_link s M (leftID n) (leftPos n), rightPos := new_link s M (rightID n) (rightPos n)\<rparr>"
  let ?M = "M(k \<mapsto> ?n)"
  have ks: "cached s' = cached s" "modified s' = modified s" using s'(3) by (simp_all add: kept_def)
  have l1: "\<exists>m. M c = Some m \<and> n_pos m = new_link s M c q" if "(c, q) \<in> links n" for c q
  proof -
    from child[OF that[unfolded eq] n0] obtain m0 where m0: "M0 c = Some m0" "n_pos m0 = q" by blast
    then obtain m where m: "M c = Some m" using d by (metis domD domI)
    have "\<not> bid_eq_int c 0" using that by (auto simp: links_def)
    then show ?thesis using m old(2)[OF m m0(1)] m0(2) by (auto simp: new_link_def)
  qed
  have ln: "linked ?M ?n"
    unfolding linked_def
  proof (intro ballI, clarify)
    fix c q assume "(c, q) \<in> links ?n"
    then obtain q0 where q0: "(c, q0) \<in> links n" "q = new_link s M c q0" by (auto simp: links_def)
    then have "c \<noteq> k" using lk by blast
    then show "\<exists>m. ?M c = Some m \<and> n_pos m = q" using l1[OF q0(1)] q0(2) by simp
  qed
  have lo: "linked ?M a" if a: "M j = Some a" "j \<noteq> k" "M0 j = Some a0" "j \<in> cached s" "visited i ks j a" for j a a0
  proof -
    have la: "linked M a" by (rule old(4)[OF a(1,3,4,5)])
    have "c \<noteq> k" if "(c, q) \<in> links a" for c q
    proof
      assume "c = k"
      have "c \<in> fst ` links a0" using links_same_shape[OF old(1)[OF a(1,3)]] that by force
      then obtain q0 where "(c, q0) \<in> links a0" by auto
      then have "n_height n < n_height a0" using child[OF _ a(3)] n0 \<open>c = k\<close> eq by fastforce
      then show False using a(5) n(2) old(1)[OF a(1,3)] by (auto simp: visited_def same_shape_def)
    qed
    then show ?thesis using la unfolding linked_def by fastforce
  qed
  have vis: "visited i (insert k ks) j a \<longleftrightarrow> visited i ks j a" if "j \<noteq> k" for j a using that by (simp add: visited_def)
  have "handout M0 i (insert k ks) s' ?M"
    unfolding handout_def ks
  proof (intro conjI allI impI)
    show "op_inv s' ?M" by (rule s'(4))
    show "dom ?M = dom M0" using d M by auto
    fix j a a0 assume a: "?M j = Some a" "M0 j = Some a0"
    show "same_shape a0 a" using a old(1)[of j a a0] eq n0 by (cases "j = k") (auto simp: same_shape_def)
    show "j \<in> cached s \<and> visited i (insert k ks) j a \<or> a = a0"
      using a old(2)[of j a a0] kc n(2) vis[of j a] by (cases "j = k") (auto simp: visited_def)
    show "j \<in> modified s \<or> n_pos a = n_pos a0"
      using a old(3)[of j a a0] s'(2) eq n0 by (cases "j = k") auto
    show "linked ?M a" if "j \<in> cached s" "visited i (insert k ks) j a"
      using a ln lo[of j a a0] that vis[of j a] by (cases "j = k") auto
  qed
  with s'(1,3) show ?thesis by blast
qed


lemma handout_keys:
  assumes "handout M0 i ks s M" "shaped M0" "distinct xs" "set xs \<inter> ks = {}"
  shows "\<exists>s' M'. foldE (update_pos i) xs s = Inr s' \<and> handout M0 i (ks \<union> set xs) s' M' \<and> kept s s'"
  using assms
proof (induction xs arbitrary: ks s M)
  case Nil
  then show ?case by auto
next
  case (Cons k xs)
  from handout_step[OF Cons.prems(1,2), of k] Cons.prems(4) obtain s1 M1 where
    s1: "update_pos i k s = Inr s1" "handout M0 i (insert k ks) s1 M1" "kept s s1" by auto
  from Cons.IH[OF s1(2) Cons.prems(2)] Cons.prems(3,4) obtain s2 M2 where
    "foldE (update_pos i) xs s1 = Inr s2" "handout M0 i (insert k ks \<union> set xs) s2 M2" "kept s1 s2" by auto
  then show ?case using s1(1) kept_trans[OF s1(3)] by (intro exI[of _ s2] exI[of _ M2]) simp
qed

lemma handout_level:
  assumes "handout M0 i {} s M" "shaped M0"
  shows "\<exists>s' M'. update_level i s = Inr s' \<and> handout M0 (Suc i) {} s' M' \<and> kept s s'"
proof -
  have wf: "sm_wf (cache s)" using assms(1) by (simp add: handout_def op_inv_def binv_def)
  from handout_keys[OF assms sm_wf_distinct[OF wf]] obtain s' M' where
    s': "update_level i s = Inr s'" "handout M0 i (fst ` set (cache s)) s' M'" "kept s s'"
    by (auto simp: update_level_def)
  have "visited i (fst ` set (cache s)) k n \<longleftrightarrow> visited (Suc i) {} k n" if "k \<in> cached s'" for k n
  proof -
    have "sm_get (cache s') k \<noteq> None" using that by (auto simp: ReadData_def split: option.splits)
    then have "k \<in> fst ` set (cache s')" using map_of_eq_None_iff[of "cache s'" k] by simp
    moreover have "fst ` set (cache s') = fst ` set (cache s)" using s'(3) by (metis kept_def list.set_map)
    ultimately show ?thesis by (auto simp: visited_def)
  qed
  then have "handout M0 (Suc i) {} s' M'" using s'(2) unfolding handout_def by (metis (no_types, lifting))
  with s'(1,3) show ?thesis by blast
qed

lemma handout_levels:
  assumes "handout M0 i {} s M" "shaped M0"
  shows "\<exists>s' M'. foldE update_level [i..<i + m] s = Inr s' \<and> handout M0 (i + m) {} s' M' \<and> kept s s'"
proof (induction m)
  case 0
  then show ?case using assms(1) by auto
next
  case (Suc m)
  then obtain s1 M1 where s1: "foldE update_level [i..<i + m] s = Inr s1" "handout M0 (i + m) {} s1 M1" "kept s s1" by blast
  from handout_level[OF s1(2) assms(2)] obtain s2 M2 where
    "update_level (i + m) s1 = Inr s2" "handout M0 (Suc (i + m)) {} s2 M2" "kept s1 s2" by blast
  then show ?case using s1 kept_trans[OF s1(3)] by (intro exI[of _ s2] exI[of _ M2]) (simp add: foldE_append)
qed

lemma handout_init: "op_inv s M \<Longrightarrow> handout M 0 {} s M"
  by (simp add: handout_def visited_def same_shape_def)

definition relabelled :: "('n::len Bid \<Rightarrow> 'n node option) \<Rightarrow> ('n Bid \<Rightarrow> 'n node option) \<Rightarrow> bool" where
  "relabelled M M' \<longleftrightarrow> dom M' = dom M \<and> (\<forall>k n n'. M k = Some n \<longrightarrow> M' k = Some n' \<longrightarrow> same_shape n n')"

lemma handout_done:
  assumes ho: "handout M0 m {} s M" and sh: "shaped M0" and t: "touched_ok s M0"
    and h: "\<forall>k n. M0 k = Some n \<longrightarrow> n_height n < m"
  shows "relabelled M0 M" "shaped M"
proof -
  have d: "dom M = dom M0" using ho by (simp add: handout_def)
  have old: "same_shape a0 a" "k' \<in> cached s \<and> visited m {} k' a \<or> a = a0" "k' \<in> modified s \<or> n_pos a = n_pos a0"
    "k' \<in> cached s \<Longrightarrow> visited m {} k' a \<Longrightarrow> linked M a" if "M k' = Some a" "M0 k' = Some a0" for k' a a0
    using ho that by (simp_all add: handout_def)
  show rl: "relabelled M0 M" using d old(1) by (simp add: relabelled_def)
  show "shaped M"
    unfolding shaped_def
  proof (intro allI impI conjI)
    fix k n assume M: "M k = Some n"
    then obtain n0 where n0: "M0 k = Some n0" using d by (metis domD domI)
    have fl: "fst ` links n = fst ` links n0" by (rule links_same_shape[OF old(1)[OF M n0]])
    have c0: "\<exists>m0. M0 c = Some m0 \<and> n_pos m0 = p \<and> n_height m0 < n_height n0" if "(c, p) \<in> links n0" for c p
      using sh that n0 unfolding shaped_def linked_def by fastforce
    show "linked M n"
    proof (cases "k \<in> cached s")
      case True
      moreover have "visited m {} k n" using h[rule_format, OF n0] old(1)[OF M n0] by (simp add: visited_def same_shape_def)
      ultimately show ?thesis by (rule old(4)[OF M n0])
    next
      case False
      have eq: "n = n0" using False old(2)[OF M n0] by blast
      show ?thesis
        unfolding linked_def
      proof (intro ballI, clarify)
        fix c p assume cp: "(c, p) \<in> links n"
        then obtain m0 where m0: "M0 c = Some m0" "n_pos m0 = p" using c0 eq by blast
        then obtain m' where m': "M c = Some m'" using d by (metis domD domI)
        have "c \<notin> modified s" using t n0 False cp eq unfolding touched_ok_def by force
        then show "\<exists>m'. M c = Some m' \<and> n_pos m' = p" using old(3)[OF m' m0(1)] m0(2) m' by auto
      qed
    qed
    show "\<forall>(c, p) \<in> links n. \<exists>m'. M c = Some m' \<and> n_height m' < n_height n"
    proof (intro ballI, clarify)
      fix c p assume "(c, p) \<in> links n"
      then have "c \<in> fst ` links n0" using fl by force
      then obtain m0 where m0: "M0 c = Some m0" "n_height m0 < n_height n0" using c0 by force
      then obtain m' where m': "M c = Some m'" using d by (metis domD domI)
      then show "\<exists>m'. M c = Some m' \<and> n_height m' < n_height n"
        using m0 old(1)[OF m' m0(1)] old(1)[OF M n0] by (simp add: same_shape_def)
    qed
  qed
qed

section \<open>finilize\<close>

lemma touched_ok_grows:
  assumes "touched_ok s M" "grows s s'" "modified s' = modified s"
  shows "touched_ok s' M"
  using assms unfolding touched_ok_def grows_def by blast

lemma op_inv_null_entry:
  assumes "op_inv s M" "sm_get (cache s) k = None" "bid_eq_int k 0"
  shows "op_inv (s\<lparr>cache := sm_put k None (cache s)\<rparr>) M"
proof -
  let ?s = "s\<lparr>cache := sm_put k None (cache s)\<rparr>"
  have ss: "same_store s ?s" by (simp add: same_store_def)
  have "ReadData ?s = ReadData s" using assms(2) by (simp add: fun_eq_iff ReadData_def sm_get_put)
  from contents_same[OF ss this] have "binv ?s M (- set (readviewmap s))"
    using assms same_store_simps(4)[OF ss]
    by (auto simp: op_inv_def binv_def geom_def null_entries_def sm_get_put sm_wf_put)
  then show ?thesis using assms(1) op_inv_same[OF ss] by (simp add: op_inv_def)
qed

lemma root_pos_ok:
  assumes "op_inv s M" "bid_eq_int root 0 \<and> M root = None \<or> root \<in> cached s"
  shows "\<exists>s' p'. root_pos root p s = (s', p') \<and> op_inv s' M \<and> o_store s' = o_store s \<and> o_depth s' = o_depth s \<and>
    (\<forall>n. M root = Some n \<longrightarrow> p' = n_pos n)"
proof (cases "root \<in> cached s")
  case True
  then obtain n where n: "ReadData s root = Some n" by blast
  then have "M root = Some n" by (rule op_inv_ReadData[OF assms(1)])
  moreover have "sm_get (cache s) root = Some (Some n)" using n by (simp add: ReadData_def split: option.splits)
  ultimately show ?thesis using assms(1) by (simp add: root_pos_def)
next
  case False
  then have r: "bid_eq_int root 0" "M root = None" using assms(2) by auto
  show ?thesis
  proof (cases "sm_get (cache s) root")
    case None
    then show ?thesis using op_inv_null_entry[OF assms(1) _ r(1)] r(2) by (simp add: root_pos_def)
  next
    case (Some v)
    then have "v = None" using False by (auto simp: ReadData_def split: option.splits)
    then show ?thesis using Some assms(1) r(2) by (simp add: root_pos_def)
  qed
qed

text \<open>
  The end of an operation: the same nodes with new positions, every link right, every path written back.
\<close>

lemma finilize_ok:
  assumes inv: "op_inv s M" and sh: "shaped M" and t: "touched_ok s M"
    and h: "\<forall>k n. M k = Some n \<longrightarrow> n_height n \<le> o_depth s + 2"
    and root: "bid_eq_int root 0 \<and> M root = None \<or> root \<in> cached s"
  shows "\<exists>s' M' p'. finilize b root p s = Inr (s', p') \<and> binv s' M' UNIV \<and> relabelled M M' \<and> shaped M' \<and>
    leafList s' = [] \<and> modified s' = {} \<and> emptyNodes (o_store s') = emptyNodes (o_store s) \<and> o_depth s' = o_depth s \<and>
    (\<forall>n. M' root = Some n \<longrightarrow> p' = n_pos n)"
proof -
  obtain s1 where s1: "(if batchWrite s then Inr s else foldE (\<lambda>_. fake_read) [readCnt s..<pad_bound b s] s) = Inr s1"
    "op_inv s1 M" "grows s s1" "modified s1 = modified s" "o_store s1 = o_store s"
    using fake_reads_ok[OF inv] inv by (cases "batchWrite s") auto
  have t1: "touched_ok s1 M" by (rule touched_ok_grows[OF t s1(3,4)])
  have dp: "o_depth s1 = o_depth s" using s1(3) by (simp add: grows_def)
  from handout_levels[OF handout_init[OF s1(2)] sh, of "o_depth s1 + 3"] obtain s2 M2 where
    s2: "foldE update_level [0..<o_depth s1 + 3] s1 = Inr s2" "handout M (o_depth s1 + 3) {} s2 M2" "kept s1 s2" by auto
  have "touched_ok s2 M" using t1 s2(3) by (simp add: touched_ok_def kept_def)
  moreover have "\<forall>k n. M k = Some n \<longrightarrow> n_height n < o_depth s1 + 3" using h dp by fastforce
  ultimately have fin: "relabelled M M2" "shaped M2" using handout_done[OF s2(2) sh] by blast+
  have inv2: "op_inv s2 M2" using s2(2) by (simp add: handout_def)
  have "cached s \<subseteq> cached s2" using s1(3) s2(3) by (simp add: grows_def kept_def)
  moreover have "M root = None \<longleftrightarrow> M2 root = None" using fin(1) by (auto simp: relabelled_def)
  ultimately have "bid_eq_int root 0 \<and> M2 root = None \<or> root \<in> cached s2" using root by (metis subsetD)
  from root_pos_ok[OF inv2 this] obtain s3 p' where
    s3: "root_pos root p s2 = (s3, p')" "op_inv s3 M2" "o_store s3 = o_store s2" "o_depth s3 = o_depth s2"
      "\<forall>n. M2 root = Some n \<longrightarrow> p' = n_pos n" by blast
  from write_back_ok[OF s3(2)] obtain s4 where s4: "write_back s3 = Inr s4" "binv s4 M2 UNIV" "wb_step s3 s4" by blast
  let ?s = "s4\<lparr>leafList := [], modified := {}\<rparr>"
  have "binv ?s M2 UNIV"
    by (rule binv_same[OF s4(2)]) (use s4(2) in \<open>simp_all add: same_store_def binv_def geom_def\<close>)
  moreover have "finilize b root p s = Inr (?s, p')"
    using s1(1) s2(1) s3(1) s4(1) by (simp add: finilize_def)
  moreover have "emptyNodes (o_store s4) = emptyNodes (o_store s)" "o_depth s4 = o_depth s"
    using s1(5) s2(3) s3(3,4) s4(3) dp by (simp_all add: kept_def wb_step_def)
  ultimately show ?thesis using fin s3(5) by (intro exI[of _ ?s] exI[of _ M2] exI[of _ p']) simp
qed

text \<open>The start of an operation, from a state in which every bucket counts.\<close>

lemma start_ok:
  assumes "binv s M UNIV" "leafList s = []" "modified s = {}" "batch \<longrightarrow> empty_store s"
  shows "op_inv (start batch s) M" "touched_ok (start batch s) M" "o_depth (start batch s) = o_depth s"
    "o_store (start batch s) = o_store s" "modified (start batch s) = {}" "batchWrite (start batch s) = batch"
proof -
  let ?s = "start batch s"
  have ss: "same_store s ?s" by (simp add: same_store_def start_def)
  have "binv ?s M UNIV"
    by (rule binv_same[OF assms(1) ss]) (use assms(1) in \<open>simp_all add: start_def binv_def geom_def\<close>)
  moreover have "empty_store ?s = empty_store s" using same_store_simps[OF ss] by (simp add: empty_store_def)
  moreover have "leaf_paths ?s = {}" "readviewmap ?s = []" "writeviewmap ?s = []" "leafList ?s = []" "batchWrite ?s = batch"
    using assms(2) by (simp_all add: start_def leaf_paths_def)
  ultimately show "op_inv ?s M" using assms(4) by (cases batch) (simp_all add: op_inv_def)
qed (use assms in \<open>simp_all add: start_def touched_ok_def\<close>)

section \<open>Construction\<close>

lemma init_buckets:
  fixes s :: "'n::len oram"
  assumes "geom s" "m \<le> bucketCount s"
  shows "\<exists>st ivs. foldE (\<lambda>i. WriteBucket i (replicate Z (dummy_block (sizeof_Node TYPE('n))))) [0..<m] s = Inr (s\<lparr>o_ivs := ivs, o_store := st\<rparr>) \<and>
    geom (s\<lparr>o_ivs := ivs, o_store := st\<rparr>) \<and> emptyNodes st = emptyNodes (o_store s) \<and>
    (\<forall>j < m. ReadBucket (s\<lparr>o_ivs := ivs, o_store := st\<rparr>) j = Inr (mk_bucket []))"
  using assms(2)
proof (induction m)
  case 0
  then show ?case using assms(1) by (intro exI[of _ "o_store s"] exI[of _ "o_ivs s"]) simp
next
  case (Suc m)
  then obtain st ivs where IH: "foldE (\<lambda>i. WriteBucket i (replicate Z (dummy_block (sizeof_Node TYPE('n))))) [0..<m] s = Inr (s\<lparr>o_ivs := ivs, o_store := st\<rparr>)"
    "geom (s\<lparr>o_ivs := ivs, o_store := st\<rparr>)" "emptyNodes st = emptyNodes (o_store s)"
    "\<forall>j < m. ReadBucket (s\<lparr>o_ivs := ivs, o_store := st\<rparr>) j = Inr (mk_bucket [])" by auto
  let ?s = "s\<lparr>o_ivs := ivs, o_store := st\<rparr>"
  have "m < length (rs_store (o_store ?s))" using Suc.prems IH(2) by (simp add: geom_def)
  from WriteBucket_ok[OF IH(2) _ _ this, of "[]"] obtain st' ivs' where
    w: "WriteBucket m (mk_bucket []) ?s = Inr (?s\<lparr>o_ivs := ivs', o_store := st'\<rparr>)" "geom (?s\<lparr>o_ivs := ivs', o_store := st'\<rparr>)"
      "emptyNodes st' = emptyNodes st"
      "\<forall>j. ReadBucket (?s\<lparr>o_ivs := ivs', o_store := st'\<rparr>) j = (if j = m then Inr (mk_bucket []) else ReadBucket ?s j)" by auto
  have b: "mk_bucket ([] :: 'n node list) = replicate Z (dummy_block (sizeof_Node TYPE('n)))" by (simp add: mk_bucket_def)
  have "foldE (\<lambda>i. WriteBucket i (replicate Z (dummy_block (sizeof_Node TYPE('n))))) [0..<Suc m] s = Inr (s\<lparr>o_ivs := ivs', o_store := st'\<rparr>)"
    using IH(1) w(1) by (simp add: foldE_append b[symmetric])
  moreover have "\<forall>j < Suc m. ReadBucket (s\<lparr>o_ivs := ivs', o_store := st'\<rparr>) j = Inr (mk_bucket [])"
    using w(4) IH(4) by (simp add: less_Suc_eq)
  ultimately show ?case using w(2,3) IH(3) by (intro exI[of _ st'] exI[of _ ivs']) simp
qed

lemma ORAM_ok:
  assumes "cbc_good A" "\<forall>i. length (ivs i) = IV" "Z \<le> maxSize" "floor_log2 (maxSize div Z) \<le> 30"
    and "\<forall>i. rnd i < 2 ^ floor_log2 (maxSize div Z)"
  shows "\<exists>s :: 'n::len oram. ORAM A ivs rnd maxSize key = Inr s \<and> binv s Map.empty UNIV \<and> empty_store s \<and> leafList s = [] \<and> modified s = {} \<and>
    o_depth s = floor_log2 (maxSize div Z) \<and> emptyNodes (o_store s) = Z * (2 ^ (floor_log2 (maxSize div Z) + 1) - 1)"
proof -
  define d where "d = floor_log2 (maxSize div Z)"
  define s :: "'n oram" where "s = \<lparr>o_store = RAMStore (Z * (2 ^ (d + 1) - 1)) (IV + GetCiphertextLength (Z * sizeof_Node TYPE('n))), o_depth = d, blockSize = sizeof_Node TYPE('n),
                    cache = [], leafList = [], readviewmap = [], writeviewmap = [], modified = {}, readCnt = 0,
                    o_key = key, o_aes = A, o_ivs = ivs, o_dis = rnd, plaintext_size = sizeof_Node TYPE('n) * Z,
                    bucketCount = 2 ^ (d + 1) - 1, clen_size = GetCiphertextLength (Z * sizeof_Node TYPE('n)), batchWrite = False\<rparr>"
  have g: "geom s" using assms by (simp add: geom_def s_def d_def RAMStore_def Z_def)
  from init_buckets[OF g, of "bucketCount s"] obtain st ivs' where
    i: "foldE (\<lambda>i. WriteBucket i (replicate Z (dummy_block (sizeof_Node TYPE('n))))) [0..<bucketCount s] s = Inr (s\<lparr>o_ivs := ivs', o_store := st\<rparr>)"
      "geom (s\<lparr>o_ivs := ivs', o_store := st\<rparr>)" "emptyNodes st = emptyNodes (o_store s)"
      "\<forall>j < bucketCount s. ReadBucket (s\<lparr>o_ivs := ivs', o_store := st\<rparr>) j = Inr (mk_bucket [])" by auto
  let ?s = "s\<lparr>o_ivs := ivs', o_store := st\<rparr>"
  have "ORAM A ivs rnd maxSize key = Inr ?s"
    using assms(3) i(1) by (simp add: ORAM_def s_def d_def Let_def)
  moreover have "store_ok ?s (\<lambda>_. [])" using i(4) by (simp add: store_ok_def)
  moreover have "contents ?s (\<lambda>_. []) Map.empty UNIV"
    by (rule contentsI) (simp_all add: ReadData_def s_def)
  moreover have "sm_wf (cache ?s)" "null_entries ?s" by (simp_all add: s_def sm_wf_def null_entries_def)
  moreover have "empty_store ?s" using i(4) by (simp add: empty_store_def)
  ultimately show ?thesis using i(2,3) by (auto simp: binv_def s_def d_def RAMStore_def)
qed

end
