(* ===== verification/AvlRefine.thy ===== *)
theory AvlRefine
  imports AvlTree AvlSpec OramFinish
begin

text \<open>
  The tree in the ORAM refines the functional tree: \<open>rep M id p t\<close> says that the nodes of the contents \<open>M\<close> reached from
  identifier \<open>id\<close> at position \<open>p\<close> form the tree \<open>t\<close>, with the right heights and positions.
\<close>

type_synonym 'n btree = "('n Bid \<times> bytes) tree"

fun rep :: "('n::len Bid \<Rightarrow> 'n node option) \<Rightarrow> 'n Bid \<Rightarrow> nat \<Rightarrow> 'n btree \<Rightarrow> bool" where
  "rep M i p Leaf \<longleftrightarrow> bid_eq_int i 0"
| "rep M i p (Node l x r) \<longleftrightarrow> i = fst x \<and>
     (\<exists>n. M i = Some n \<and> n_value n = snd x \<and> n_pos n = p \<and> n_height n = height (Node l x r) \<and>
        rep M (leftID n) (leftPos n) l \<and> rep M (rightID n) (rightPos n) r)"

lemma rep_cong: "(\<And>k. k \<in> keys t \<Longrightarrow> M' k = M k) \<Longrightarrow> rep M' i p t \<longleftrightarrow> rep M i p t"
proof (induction t arbitrary: i p)
  case Leaf
  then show ?case by simp
next
  case (Node l x r)
  have "rep M' i p l \<longleftrightarrow> rep M i p l" "rep M' i p r \<longleftrightarrow> rep M i p r" for i p
    by (rule Node.IH, simp add: Node.prems image_Un)+
  moreover have "M' (fst x) = M (fst x)" using Node.prems by simp
  ultimately show ?case by (simp cong: conj_cong)
qed

lemma rep_NodeI:
  assumes "M k = Some n" "n_value n = v" "n_pos n = p" "n_height n = height (Node l (k, v) r)"
    and "rep M (leftID n) (leftPos n) l" "rep M (rightID n) (rightPos n) r"
  shows "rep M k p (Node l (k, v) r)"
  using assms by simp

lemma rep_upd: "k \<notin> keys t \<Longrightarrow> rep (M(k \<mapsto> n)) i p t \<longleftrightarrow> rep M i p t"
  by (rule rep_cong) auto

lemma rep_dom: "rep M i p t \<Longrightarrow> keys t \<subseteq> dom M"
proof (induction t arbitrary: i p)
  case Leaf
  then show ?case by simp
next
  case (Node l x r)
  then obtain n where "M (fst x) = Some n" "rep M (leftID n) (leftPos n) l" "rep M (rightID n) (rightPos n) r" by auto
  moreover from this have "keys l \<subseteq> dom M" "keys r \<subseteq> dom M" using Node.IH by blast+
  ultimately show ?case by (simp add: domIff image_Un)
qed

definition roots :: "('k \<times> 'v) tree \<Rightarrow> 'k set" where
  "roots t = (case t of Leaf \<Rightarrow> {} | Node l x r \<Rightarrow> {fst x})"

lemma roots_simps [simp]: "roots Leaf = {}" "roots (Node l x r) = {fst x}"
  by (simp_all add: roots_def)

lemma roots_keys: "roots t \<subseteq> keys t"
  by (cases t) simp_all

section \<open>Steps on the tree\<close>

abbreviation acached :: "'n::len avltree \<Rightarrow> 'n Bid set" where "acached t \<equiv> cached (a_oram t)"
abbreviation amod :: "'n::len avltree \<Rightarrow> 'n Bid set" where "amod t \<equiv> modified (a_oram t)"
abbreviation space :: "'n::len avltree \<Rightarrow> nat" where "space t \<equiv> emptyNodes (o_store (a_oram t))"
abbreviation adepth :: "'n::len avltree \<Rightarrow> nat" where "adepth t \<equiv> o_depth (a_oram t)"

definition ainv :: "'n::len avltree \<Rightarrow> ('n Bid \<Rightarrow> 'n node option) \<Rightarrow> bool" where
  "ainv t M \<longleftrightarrow> op_inv (a_oram t) M \<and> (\<forall>i. a_dis t i < 2 ^ adepth t)"

lemma ainv_op: "ainv t M \<Longrightarrow> op_inv (a_oram t) M"
  by (simp add: ainv_def)

text \<open>
  \<open>moves t M t' S\<close>: from \<open>t\<close> the code got to \<open>t'\<close> with contents \<open>M\<close>; the cache has only grown, and of the identifiers in \<open>S\<close>
  some may have become marked as modified.
\<close>

definition moves :: "'n::len avltree \<Rightarrow> ('n Bid \<Rightarrow> 'n node option) \<Rightarrow> 'n avltree \<Rightarrow> 'n Bid set \<Rightarrow> bool" where
  "moves t M t' S \<longleftrightarrow> ainv t' M \<and> grows (a_oram t) (a_oram t') \<and> amod t' \<subseteq> amod t \<union> S \<and> space t' = space t"

lemma moves_trans: "moves t M t' S \<Longrightarrow> moves t' M' t'' S' \<Longrightarrow> S \<union> S' \<subseteq> S'' \<Longrightarrow> moves t M' t'' S''"
  by (auto simp: moves_def intro: grows_trans)

lemma moves_cached: "moves t M t' S \<Longrightarrow> k \<in> acached t \<Longrightarrow> k \<in> acached t'"
  by (auto simp: moves_def grows_def)

lemma moves_depth: "moves t M t' S \<Longrightarrow> adepth t' = adepth t"
  by (simp add: moves_def grows_def)

lemma moves_refl: "ainv t M \<Longrightarrow> moves t M t {}"
  by (simp add: moves_def)

lemma read_node_ok:
  assumes "ainv t M" "M k = Some n" "n_pos n = leaf"
  shows "\<exists>t'. read_node k leaf t = Inr (t', Some k) \<and> moves t M t' {k} \<and> k \<in> acached t' \<and> a_dis t' = a_dis t"
proof -
  from ReadNode_ok[OF ainv_op[OF assms(1)] assms(2,3)] obtain s where
    s: "ReadNode k leaf leaf (a_oram t) = Inr (s, Some k)" "op_inv s M" "grows (a_oram t) s" "k \<in> cached s"
      "modified s = insert k (modified (a_oram t))" "o_store s = o_store (a_oram t)"
    by blast
  then show ?thesis
    using assms(1) by (intro exI[of _ "t\<lparr>a_oram := s\<rparr>"]) (auto simp: read_node_def moves_def ainv_def grows_def)
qed

lemma get_node_ok: "ainv t M \<Longrightarrow> k \<in> acached t \<Longrightarrow> M k = Some n \<Longrightarrow> get_node t k = Inr n"
  using op_inv_deref(1)[OF ainv_op] by (simp add: get_node_def)

lemma ReadNode_cached_ok:
  assumes "ainv t M" "k \<in> acached t"
  shows "ReadNode_cached (a_oram t) k = Inr k"
proof -
  obtain n where "ReadData (a_oram t) k = Some n" using assms(2) by blast
  then have "M k = Some n" by (rule op_inv_ReadData[OF ainv_op[OF assms(1)]])
  then have nn: "\<not> bid_eq_int k 0" by (rule not_null[OF ainv_op[OF assms(1)]])
  then have "sm_get (cache (a_oram t)) k \<noteq> None" using not_cached[OF ainv_op[OF assms(1)] nn] assms(2) by blast
  then show ?thesis using nn by (auto simp: ReadNode_cached_def)
qed

lemma node_ok_depth: "o_depth s = o_depth s' \<Longrightarrow> node_ok s n = node_ok s' n"
  by (simp add: node_ok_def)

lemma ainv_node: "ainv t M \<Longrightarrow> M k = Some n \<Longrightarrow> node_ok (a_oram t) n \<and> n_key n = k"
  by (rule op_inv_node[OF ainv_op])

lemma put_node_ok:
  assumes "ainv t M" "k \<in> acached t" "node_ok (a_oram t) n" "n_key n = k"
  shows "moves t (M(k \<mapsto> n)) (put_node k n t) {}"
  using assms op_inv_set_node[of "a_oram t" M n k] by (simp add: moves_def ainv_def put_node_def)

lemma rewrite_node_ok:
  assumes "ainv t M" "k \<in> acached t"
  shows "\<exists>t'. rewrite_node k t = Inr t' \<and> moves t M t' {k}"
proof -
  obtain n where n: "ReadData (a_oram t) k = Some n" using assms(2) by blast
  have inv: "op_inv (a_oram t) M" using assms(1) by (simp add: ainv_def)
  have M: "M k = Some n" by (rule op_inv_ReadData[OF inv n])
  have "WriteNode k n (a_oram t) = Inr (mark_modified k (a_oram t), n_pos n)"
    using not_null[OF inv M] assms(2) by (intro WriteNode_cached[OF inv])
  moreover have "get_node t k = Inr n" by (rule get_node_ok[OF assms M])
  moreover have "op_inv (mark_modified k (a_oram t)) M" "grows (a_oram t) (mark_modified k (a_oram t))"
    by (rule op_inv_mark[OF inv])+
  ultimately show ?thesis
    using assms(1) by (intro exI[of _ "t\<lparr>a_oram := mark_modified k (a_oram t)\<rparr>"])
      (auto simp: rewrite_node_def write_node_def moves_def ainv_def)
qed

section \<open>Heights\<close>

lemma avl_height_ok:
  assumes "ainv t M" "rep M i p tr"
  shows "\<exists>t'. avl_height i p t = Inr (t', height tr) \<and> moves t M t' (roots tr) \<and> roots tr \<subseteq> acached t'"
proof (cases tr)
  case Leaf
  then show ?thesis using assms moves_refl[OF assms(1)] by (simp add: avl_height_def)
next
  case (Node l x r)
  then obtain n where n: "M i = Some n" "n_pos n = p" "n_height n = height tr" "i = fst x" using assms(2) by auto
  have "\<not> bid_eq_int i 0" by (rule not_null[OF ainv_op[OF assms(1)] n(1)])
  moreover from read_node_ok[OF assms(1) n(1,2)] obtain t' where
    t': "read_node i p t = Inr (t', Some i)" "moves t M t' {i}" "i \<in> acached t'" by blast
  moreover have "get_node t' i = Inr n" using t' n(1) by (intro get_node_ok[of t' M]) (simp_all add: moves_def)
  ultimately show ?thesis using n Node by (simp add: avl_height_def)
qed

lemma set_height_ok:
  assumes "ainv t M" "k \<in> acached t" "M k = Some n" "rep M (leftID n) (leftPos n) l" "rep M (rightID n) (rightPos n) r"
    and "max (height l) (height r) + 1 < 2 ^ 32"
  shows "\<exists>t'. set_height k t = Inr t' \<and>
    moves t (M(k \<mapsto> n\<lparr>n_height := max (height l) (height r) + 1\<rparr>)) t' (roots l \<union> roots r) \<and> roots l \<union> roots r \<subseteq> acached t'"
proof -
  let ?n = "n\<lparr>n_height := max (height l) (height r) + 1\<rparr>"
  from avl_height_ok[OF assms(1,4)] obtain t1 where
    t1: "avl_height (leftID n) (leftPos n) t = Inr (t1, height l)" "moves t M t1 (roots l)" "roots l \<subseteq> acached t1" by blast
  then have i1: "ainv t1 M" by (simp add: moves_def)
  from avl_height_ok[OF i1 assms(5)] obtain t2 where
    t2: "avl_height (rightID n) (rightPos n) t1 = Inr (t2, height r)" "moves t1 M t2 (roots r)" "roots r \<subseteq> acached t2" by blast
  then have i2: "ainv t2 M" by (simp add: moves_def)
  have k2: "k \<in> acached t2" using moves_cached[OF t2(2) moves_cached[OF t1(2) assms(2)]] .
  have g: "get_node t k = Inr n" "get_node t2 k = Inr n" using get_node_ok assms(1-3) i2 k2 by blast+
  have "node_ok (a_oram t2) ?n" "n_key ?n = k"
    using ainv_node[OF i2 assms(3)] assms(6) by (auto simp: node_ok_def node_wf_def)
  then have p: "moves t2 (M(k \<mapsto> ?n)) (put_node k ?n t2) {}" by (intro put_node_ok[OF i2 k2])
  have "moves t (M(k \<mapsto> ?n)) (put_node k ?n t2) (roots l \<union> roots r)"
    by (rule moves_trans[OF moves_trans[OF t1(2) t2(2) order_refl] p]) simp
  moreover have "roots l \<union> roots r \<subseteq> acached (put_node k ?n t2)"
    using moves_cached[OF p] moves_cached[OF t2(2)] t1(3) t2(3) by blast
  moreover have "set_height k t = Inr (put_node k ?n t2)" using g t1(1) t2(1) by (simp add: set_height_def)
  ultimately show ?thesis by blast
qed

lemma getBalance_ok:
  assumes "ainv t M" "k \<in> acached t" "M k = Some n" "rep M (leftID n) (leftPos n) l" "rep M (rightID n) (rightPos n) r"
  shows "\<exists>t'. getBalance k t = Inr (t', int (height l) - int (height r)) \<and> moves t M t' (roots l \<union> roots r)"
proof -
  from avl_height_ok[OF assms(1,4)] obtain t1 where
    t1: "avl_height (leftID n) (leftPos n) t = Inr (t1, height l)" "moves t M t1 (roots l)" by blast
  then have i1: "ainv t1 M" by (simp add: moves_def)
  from avl_height_ok[OF i1 assms(5)] obtain t2 where
    t2: "avl_height (rightID n) (rightPos n) t1 = Inr (t2, height r)" "moves t1 M t2 (roots r)" by blast
  show ?thesis
    using get_node_ok[OF assms(1-3)] t1(1) t2(1) moves_trans[OF t1(2) t2(2) order_refl] by (simp add: getBalance_def)
qed


section \<open>Rotations\<close>

lemma moves_inv: "moves t M t' S \<Longrightarrow> ainv t' M"
  by (simp add: moves_def)

lemma RandomPath_moves:
  assumes "ainv t M"
  shows "moves t M (snd (avl_RandomPath t)) {}" "fst (avl_RandomPath t) < 2 ^ adepth t"
  using assms by (simp_all add: avl_RandomPath_def moves_def ainv_def grows_def)

lemma depth_bound: "ainv t M \<Longrightarrow> (2::nat) ^ adepth t < 2 ^ 32"
  by (rule le_less_trans[of _ "2 ^ 30"], rule power_increasing)
    (simp_all add: ainv_def op_inv_def binv_def geom_def)

lemma middle_ok:
  assumes "ainv t M" "rep M c p b" "roots b \<subseteq> acached t"
  shows "\<exists>t' k2 p2. middle c t = Inr (t', k2, p2) \<and> moves t M t' {} \<and> rep M k2 p2 b \<and> p2 < 2 ^ 32 \<and> bid_wf k2"
proof (cases b)
  case Leaf
  have n: "bid_eq_int c 0" using assms(2) Leaf by simp
  have "fst (avl_RandomPath t) < 2 ^ 32" using RandomPath_moves(2)[OF assms(1)] depth_bound[OF assms(1)] by linarith
  moreover note Bid_int_null
  ultimately show ?thesis
    using n Leaf RandomPath_moves(1)[OF assms(1)]
    by (simp add: middle_def newNode_def copy_into_def str_bytes_def case_prod_unfold Let_def)
next
  case (Node l x r)
  then obtain n where n: "M c = Some n" "n_pos n = p" "c = fst x" using assms(2) by auto
  have c: "c \<in> acached t" using assms(3) Node n(3) by simp
  have ok: "node_ok (a_oram t) n" "n_key n = c" using ainv_node[OF assms(1) n(1)] by simp_all
  have "\<not> bid_eq_int c 0" by (rule not_null[OF ainv_op[OF assms(1)] n(1)])
  then have "middle c t = Inr (t, c, p)"
    using ReadNode_cached_ok[OF assms(1) c] get_node_ok[OF assms(1) c n(1)] ok(2) n(2) by (simp add: middle_def)
  moreover have "p < 2 ^ 32" "bid_wf c" using ok n(2) by (auto simp: node_ok_def node_wf_def)
  ultimately show ?thesis using moves_refl[OF assms(1)] assms(2) by blast
qed

lemma rightRotate_ok:
  assumes inv: "ainv t M" and y: "y \<in> acached t" "M y = Some yn" "n_value yn = yv"
    and l: "rep M (leftID yn) (leftPos yn) (Node a (x, xv) b)" and c: "rep M (rightID yn) (rightPos yn) c"
    and ord: "ordered (Node (Node a (x, xv) b) (y, yv) c)"
    and x: "x \<in> acached t" "roots b \<subseteq> acached t" and h: "height (Node (Node a (x, xv) b) (y, yv) c) + 1 < 2 ^ 32"
  shows "\<exists>t' M' xn. rightRotate y t = Inr (t', x) \<and> moves t M' t' ({x, y} \<union> roots a \<union> roots b \<union> roots c) \<and>
    M x = Some xn \<and> rep M' x (n_pos xn) (Node a (x, xv) (Node b (y, yv) c)) \<and> (\<forall>j. j \<noteq> x \<longrightarrow> j \<noteq> y \<longrightarrow> M' j = M j) \<and>
    dom M' = dom M"
proof -
  have ne: "x \<noteq> y" "x \<notin> keys a" "x \<notin> keys b" "x \<notin> keys c" "y \<notin> keys a" "y \<notin> keys b" "y \<notin> keys c"
    using ord by (auto simp: ordered_Node simp del: inorder.simps)
  from l obtain xn where xn: "leftID yn = x" "M x = Some xn" "n_value xn = xv" "n_pos xn = leftPos yn"
    "rep M (leftID xn) (leftPos xn) a" "rep M (rightID xn) (rightPos xn) b" by auto
  from middle_ok[OF inv xn(6) x(2)] obtain t1 k2 p2 where
    t1: "middle (rightID xn) t = Inr (t1, k2, p2)" "moves t M t1 {}" "rep M k2 p2 b" "p2 < 2 ^ 32" "bid_wf k2" by blast
  note i1 = moves_inv[OF t1(2)]
  have c1: "x \<in> acached t1" "y \<in> acached t1" using moves_cached[OF t1(2)] x(1) y(1) by blast+
  have okx: "node_ok (a_oram t1) xn" "n_key xn = x" and oky: "node_ok (a_oram t1) yn" "n_key yn = y"
    using ainv_node[OF i1] xn(2) y(2) by blast+
  let ?x1 = "xn\<lparr>rightID := n_key yn, rightPos := n_pos yn\<rparr>"
  have "node_ok (a_oram t1) ?x1" using okx oky by (auto simp: node_ok_def node_wf_def)
  then have p2: "moves t1 (M(x \<mapsto> ?x1)) (put_node x ?x1 t1) {}" using okx(2) by (intro put_node_ok[OF i1 c1(1)]) simp_all
  let ?t2 = "put_node x ?x1 t1" and ?M2 = "M(x \<mapsto> ?x1)"
  note i2 = moves_inv[OF p2]
  let ?y1 = "yn\<lparr>leftID := k2, leftPos := p2\<rparr>"
  have "node_ok (a_oram ?t2) ?y1" using oky t1(4,5) moves_depth[OF p2] by (auto simp: node_ok_def node_wf_def)
  then have p3: "moves ?t2 (?M2(y \<mapsto> ?y1)) (put_node y ?y1 ?t2) {}"
    using oky(2) moves_cached[OF p2 c1(2)] by (intro put_node_ok[OF i2]) simp_all
  let ?t3 = "put_node y ?y1 ?t2" and ?M3 = "?M2(y \<mapsto> ?y1)"
  note i3 = moves_inv[OF p3]
  have c3: "x \<in> acached ?t3" "y \<in> acached ?t3" using moves_cached[OF p3] moves_cached[OF p2] c1 by blast+
  have "rep ?M3 (leftID ?y1) (leftPos ?y1) b" "rep ?M3 (rightID ?y1) (rightPos ?y1) c"
    using t1(3) c ne by (simp_all add: rep_upd)
  from set_height_ok[OF i3 c3(2) _ this] h obtain t4 where
    t4: "set_height y ?t3 = Inr t4"
      "moves ?t3 (?M3(y \<mapsto> ?y1\<lparr>n_height := max (height b) (height c) + 1\<rparr>)) t4 (roots b \<union> roots c)" by auto
  let ?y2 = "?y1\<lparr>n_height := max (height b) (height c) + 1\<rparr>"
  let ?M4 = "?M2(y \<mapsto> ?y2)"
  have m4: "moves ?t3 ?M4 t4 (roots b \<union> roots c)" using t4(2) by simp
  note i4 = moves_inv[OF m4]
  have c4: "x \<in> acached t4" "y \<in> acached t4" using moves_cached[OF m4] c3 by blast+
  from rewrite_node_ok[OF i4 c4(2)] obtain t5 where t5: "rewrite_node y t4 = Inr t5" "moves t4 ?M4 t5 {y}" by blast
  note i5 = moves_inv[OF t5(2)]
  have c5: "x \<in> acached t5" using moves_cached[OF t5(2) c4(1)] .
  have m4x: "?M4 x = Some ?x1" using ne by simp
  have ra: "rep ?M4 (leftID ?x1) (leftPos ?x1) a" using xn(5) ne by (simp add: rep_upd)
  have rb: "rep ?M4 k2 p2 b" "rep ?M4 (rightID yn) (rightPos yn) c" using t1(3) c ne by (simp_all add: rep_upd)
  then have ry: "rep ?M4 (rightID ?x1) (rightPos ?x1) (Node b (y, yv) c)" using y(3) oky(2) by simp
  from set_height_ok[OF i5 c5 m4x ra ry] h obtain t6 where
    t6: "set_height x t5 = Inr t6"
      "moves t5 (?M4(x \<mapsto> ?x1\<lparr>n_height := max (height a) (height (Node b (y, yv) c)) + 1\<rparr>)) t6 (roots a \<union> roots (Node b (y, yv) c))"
    by auto
  let ?x2 = "?x1\<lparr>n_height := max (height a) (height (Node b (y, yv) c)) + 1\<rparr>"
  let ?M6 = "?M4(x \<mapsto> ?x2)"
  note i6 = moves_inv[OF t6(2)]
  from rewrite_node_ok[OF i6 moves_cached[OF t6(2) c5]] obtain t7 where t7: "rewrite_node x t6 = Inr t7" "moves t6 ?M6 t7 {x}" by blast
  have "rightRotate y t = Inr (t7, x)"
    using get_node_ok[OF inv y(1,2)] get_node_ok[OF inv x(1) xn(2)] ReadNode_cached_ok[OF inv x(1)] xn(1) t1(1) t4(1) t5(1) t6(1) t7(1)
    by (simp add: rightRotate_def Let_def)
  moreover have "moves t ?M6 t7 ({x, y} \<union> roots a \<union> roots b \<union> roots c)"
    by (rule moves_trans[OF moves_trans[OF moves_trans[OF moves_trans[OF moves_trans[OF moves_trans[OF t1(2) p2 order_refl]
      p3 order_refl] m4 order_refl] t5(2) order_refl] t6(2) order_refl] t7(2)]) auto
  moreover have "rep ?M6 x (n_pos xn) (Node a (x, xv) (Node b (y, yv) c))"
  proof -
    have A: "rep ?M6 (leftID ?x2) (leftPos ?x2) a" using ra ne by (simp add: rep_upd)
    have "x \<notin> keys (Node b (y, yv) c)" using ne by (simp add: image_Un)
    then have B: "rep ?M6 (rightID ?x2) (rightPos ?x2) (Node b (y, yv) c)"
      using ry rep_upd[of x "Node b (y, yv) c" ?M4 ?x2] by (simp del: rep.simps)
    show ?thesis by (rule rep_NodeI[where n = ?x2, OF _ _ _ _ A B]) (simp_all add: xn(3))
  qed
  moreover have "dom ?M6 = dom M" using xn(2) y(2) by auto
  moreover have "\<forall>j. j \<noteq> x \<longrightarrow> j \<noteq> y \<longrightarrow> ?M6 j = M j" by simp
  ultimately show ?thesis using xn(2) by blast
qed

lemma leftRotate_ok:
  assumes inv: "ainv t M" and x: "x \<in> acached t" "M x = Some xn" "n_value xn = xv"
    and r: "rep M (rightID xn) (rightPos xn) (Node b (y, yv) c)" and a: "rep M (leftID xn) (leftPos xn) a"
    and ord: "ordered (Node a (x, xv) (Node b (y, yv) c))"
    and y: "y \<in> acached t" "roots b \<subseteq> acached t" and h: "height (Node a (x, xv) (Node b (y, yv) c)) + 1 < 2 ^ 32"
  shows "\<exists>t' M' yn. leftRotate x t = Inr (t', y) \<and> moves t M' t' ({x, y} \<union> roots a \<union> roots b \<union> roots c) \<and>
    M y = Some yn \<and> rep M' y (n_pos yn) (Node (Node a (x, xv) b) (y, yv) c) \<and> (\<forall>j. j \<noteq> y \<longrightarrow> j \<noteq> x \<longrightarrow> M' j = M j) \<and>
    dom M' = dom M"
proof -
  have ne: "y \<noteq> x" "y \<notin> keys c" "y \<notin> keys b" "y \<notin> keys a" "x \<notin> keys c" "x \<notin> keys b" "x \<notin> keys a"
    using ord by (auto simp: ordered_Node simp del: inorder.simps)
  from r obtain yn where yn: "rightID xn = y" "M y = Some yn" "n_value yn = yv" "n_pos yn = rightPos xn"
    "rep M (rightID yn) (rightPos yn) c" "rep M (leftID yn) (leftPos yn) b" by auto
  from middle_ok[OF inv yn(6) y(2)] obtain t1 k2 p2 where
    t1: "middle (leftID yn) t = Inr (t1, k2, p2)" "moves t M t1 {}" "rep M k2 p2 b" "p2 < 2 ^ 32" "bid_wf k2" by blast
  note i1 = moves_inv[OF t1(2)]
  have c1: "y \<in> acached t1" "x \<in> acached t1" using moves_cached[OF t1(2)] y(1) x(1) by blast+
  have oky: "node_ok (a_oram t1) yn" "n_key yn = y" and okx: "node_ok (a_oram t1) xn" "n_key xn = x"
    using ainv_node[OF i1] yn(2) x(2) by blast+
  let ?y1 = "yn\<lparr>leftID := n_key xn, leftPos := n_pos xn\<rparr>"
  have "node_ok (a_oram t1) ?y1" using oky okx by (auto simp: node_ok_def node_wf_def)
  then have p2: "moves t1 (M(y \<mapsto> ?y1)) (put_node y ?y1 t1) {}" using oky(2) by (intro put_node_ok[OF i1 c1(1)]) simp_all
  let ?t2 = "put_node y ?y1 t1" and ?M2 = "M(y \<mapsto> ?y1)"
  note i2 = moves_inv[OF p2]
  let ?x1 = "xn\<lparr>rightID := k2, rightPos := p2\<rparr>"
  have "node_ok (a_oram ?t2) ?x1" using okx t1(4,5) moves_depth[OF p2] by (auto simp: node_ok_def node_wf_def)
  then have p3: "moves ?t2 (?M2(x \<mapsto> ?x1)) (put_node x ?x1 ?t2) {}"
    using okx(2) moves_cached[OF p2 c1(2)] by (intro put_node_ok[OF i2]) simp_all
  let ?t3 = "put_node x ?x1 ?t2" and ?M3 = "?M2(x \<mapsto> ?x1)"
  note i3 = moves_inv[OF p3]
  have c3: "y \<in> acached ?t3" "x \<in> acached ?t3" using moves_cached[OF p3] moves_cached[OF p2] c1 by blast+
  have "rep ?M3 (leftID ?x1) (leftPos ?x1) a" "rep ?M3 (rightID ?x1) (rightPos ?x1) b"
    using t1(3) a ne by (simp_all add: rep_upd)
  from set_height_ok[OF i3 c3(2) _ this] h obtain t4 where
    t4: "set_height x ?t3 = Inr t4"
      "moves ?t3 (?M3(x \<mapsto> ?x1\<lparr>n_height := max (height a) (height b) + 1\<rparr>)) t4 (roots a \<union> roots b)" by auto
  let ?x2 = "?x1\<lparr>n_height := max (height a) (height b) + 1\<rparr>"
  let ?M4 = "?M2(x \<mapsto> ?x2)"
  have m4: "moves ?t3 ?M4 t4 (roots a \<union> roots b)" using t4(2) by simp
  note i4 = moves_inv[OF m4]
  have c4: "y \<in> acached t4" "x \<in> acached t4" using moves_cached[OF m4] c3 by blast+
  from rewrite_node_ok[OF i4 c4(2)] obtain t5 where t5: "rewrite_node x t4 = Inr t5" "moves t4 ?M4 t5 {x}" by blast
  note i5 = moves_inv[OF t5(2)]
  have c5: "y \<in> acached t5" using moves_cached[OF t5(2) c4(1)] .
  have m4y: "?M4 y = Some ?y1" using ne by simp
  have rc: "rep ?M4 (rightID ?y1) (rightPos ?y1) c" using yn(5) ne by (simp add: rep_upd)
  have rb: "rep ?M4 k2 p2 b" "rep ?M4 (leftID xn) (leftPos xn) a" using t1(3) a ne by (simp_all add: rep_upd)
  then have rx: "rep ?M4 (leftID ?y1) (leftPos ?y1) (Node a (x, xv) b)" using x(3) okx(2) by simp
  from set_height_ok[OF i5 c5 m4y rx rc] h obtain t6 where
    t6: "set_height y t5 = Inr t6"
      "moves t5 (?M4(y \<mapsto> ?y1\<lparr>n_height := max (height (Node a (x, xv) b)) (height c) + 1\<rparr>)) t6 (roots (Node a (x, xv) b) \<union> roots c)"
    by auto
  let ?y2 = "?y1\<lparr>n_height := max (height (Node a (x, xv) b)) (height c) + 1\<rparr>"
  let ?M6 = "?M4(y \<mapsto> ?y2)"
  note i6 = moves_inv[OF t6(2)]
  from rewrite_node_ok[OF i6 moves_cached[OF t6(2) c5]] obtain t7 where t7: "rewrite_node y t6 = Inr t7" "moves t6 ?M6 t7 {y}" by blast
  have "leftRotate x t = Inr (t7, y)"
    using get_node_ok[OF inv x(1,2)] get_node_ok[OF inv y(1) yn(2)] ReadNode_cached_ok[OF inv y(1)] yn(1) t1(1) t4(1) t5(1) t6(1) t7(1)
    by (simp add: leftRotate_def Let_def)
  moreover have "moves t ?M6 t7 ({x, y} \<union> roots a \<union> roots b \<union> roots c)"
    by (rule moves_trans[OF moves_trans[OF moves_trans[OF moves_trans[OF moves_trans[OF moves_trans[OF t1(2) p2 order_refl]
      p3 order_refl] m4 order_refl] t5(2) order_refl] t6(2) order_refl] t7(2)]) auto
  moreover have "rep ?M6 y (n_pos yn) (Node (Node a (x, xv) b) (y, yv) c)"
  proof -
    have B: "rep ?M6 (rightID ?y2) (rightPos ?y2) c" using rc ne by (simp add: rep_upd)
    have "y \<notin> keys (Node a (x, xv) b)" using ne by (simp add: image_Un)
    then have A: "rep ?M6 (leftID ?y2) (leftPos ?y2) (Node a (x, xv) b)"
      using rx rep_upd[of y "Node a (x, xv) b" ?M4 ?y2] by (simp del: rep.simps)
    show ?thesis by (rule rep_NodeI[where n = ?y2, OF _ _ _ _ A B]) (simp_all add: yn(3))
  qed
  moreover have "dom ?M6 = dom M" using yn(2) x(2) by auto
  moreover have "\<forall>j. j \<noteq> y \<longrightarrow> j \<noteq> x \<longrightarrow> ?M6 j = M j" by simp
  ultimately show ?thesis using yn(2) by blast
qed

end
