(* ===== verification/AvlInsert.thy ===== *)
theory AvlInsert
  imports AvlRefine
begin

text \<open>
  Insertion in the ORAM refines insertion in the functional tree. Besides the tree two facts are carried: the nodes
  a rotation looks up in the cache are there (\<open>pathc\<close>), and a marked child has its parent in the cache (\<open>tok\<close>), which
  the hand-out of positions relies on.
\<close>

fun pathc :: "'n::len Bid \<Rightarrow> 'n Bid set \<Rightarrow> 'n btree \<Rightarrow> bool" where
  "pathc k C Leaf = True"
| "pathc k C (Node l x r) =
     (roots l \<union> roots r \<subseteq> C \<and> (k < fst x \<longrightarrow> pathc k C l) \<and> (fst x < k \<longrightarrow> pathc k C r))"

fun tok :: "'n::len Bid set \<Rightarrow> 'n Bid set \<Rightarrow> 'n btree \<Rightarrow> bool" where
  "tok C Md Leaf = True"
| "tok C Md (Node l x r) = (((roots l \<union> roots r) \<inter> Md \<noteq> {} \<longrightarrow> fst x \<in> C) \<and> tok C Md l \<and> tok C Md r)"

lemma pathc_mono: "pathc k C t \<Longrightarrow> C \<subseteq> C' \<Longrightarrow> pathc k C' t"
  by (induction t) auto

lemma tok_empty: "tok C {} t"
  by (induction t) simp_all

lemma tok_antimono: "tok C Md t \<Longrightarrow> C \<subseteq> C' \<Longrightarrow> Md' \<subseteq> Md \<Longrightarrow> tok C' Md' t"
  by (induction t) auto

lemma roots_marked:
  "S \<inter> keys l = {} \<Longrightarrow> S \<inter> keys r = {} \<Longrightarrow> Md' \<subseteq> Md \<union> S \<Longrightarrow> (roots l \<union> roots r) \<inter> Md' \<subseteq> (roots l \<union> roots r) \<inter> Md"
  by (cases l; cases r) auto

text \<open>Marking the root of a subtree does not matter inside it.\<close>

lemma tok_mono:
  assumes "tok C Md t" "C \<subseteq> C'" "Md' \<subseteq> Md \<union> S" "S \<inter> keys t \<subseteq> roots t" "ordered t"
  shows "tok C' Md' t"
proof (cases t)
  case Leaf
  then show ?thesis by simp
next
  case (Node l x r)
  have "fst x \<notin> keys l" "fst x \<notin> keys r" using ordered_NodeD(5,6)[OF assms(5)[unfolded Node]] by simp_all
  moreover have "S \<inter> keys l \<subseteq> {fst x}" "S \<inter> keys r \<subseteq> {fst x}" using assms(4) by (auto simp: Node image_Un)
  ultimately have "S \<inter> keys l = {}" "S \<inter> keys r = {}" by (metis Int_iff insertI1 subset_singletonD)+
  moreover have "tok C' Md' u" if "tok C Md u" "S \<inter> keys u = {}" for u
    using that assms(2,3)
  proof (induction u)
    case (Node l x r)
    then have "S \<inter> keys l = {}" "S \<inter> keys r = {}" by (auto simp: image_Un)
    with Node have "tok C' Md' l" "tok C' Md' r" by auto
    moreover have "(roots l \<union> roots r) \<inter> Md' \<subseteq> (roots l \<union> roots r) \<inter> Md"
      using \<open>S \<inter> keys l = {}\<close> \<open>S \<inter> keys r = {}\<close> Node.prems(4) by (rule roots_marked)
    ultimately show ?case using Node.prems(1,3) by auto
  qed simp
  ultimately have "tok C' Md' l" "tok C' Md' r" using assms(1) Node by simp_all
  moreover have "(roots l \<union> roots r) \<inter> Md' \<subseteq> (roots l \<union> roots r) \<inter> Md"
    using \<open>S \<inter> keys l = {}\<close> \<open>S \<inter> keys r = {}\<close> assms(3) by (rule roots_marked)
  ultimately show ?thesis using assms(1,2) Node by auto
qed

lemma moves_tok:
  assumes "moves t M t' S" "tok (acached t) (amod t) u" "S \<inter> keys u \<subseteq> roots u" "ordered u"
  shows "tok (acached t') (amod t') u"
  using assms(1) by (intro tok_mono[OF assms(2) _ _ assms(3,4)]) (auto simp: moves_def grows_def)

lemma rotated_ok:
  assumes "ainv t M" "rep M x p (Node a (x, xv) b)" "x \<in> acached t"
  shows "rotated (t, x) = Inr (t, p, x)"
proof -
  obtain n where n: "M x = Some n" "n_pos n = p" using assms(2) by auto
  then show ?thesis using get_node_ok[OF assms(1,3) n(1)] ainv_node[OF assms(1) n(1)] by (simp add: rotated_def)
qed

section \<open>Double rotations\<close>

lemma rebalance_left_ok:
  assumes inv: "ainv t M" and k: "k \<in> acached t" "M k = Some n" "n_value n = v"
    and l: "rep M (leftID n) (leftPos n) (Node a (x, xv) (Node c (z, zv) d))" and r: "rep M (rightID n) (rightPos n) r"
    and ord: "ordered (Node (Node a (x, xv) (Node c (z, zv) d)) (k, v) r)"
    and ca: "x \<in> acached t" "z \<in> acached t" "roots c \<subseteq> acached t" "roots d \<subseteq> acached t"
    and h: "height (Node (Node a (x, xv) (Node c (z, zv) d)) (k, v) r) + 2 < 2 ^ 32"
  shows "\<exists>t' M' p. rebalance_left k t = Inr (t', p, z) \<and> moves t M' t' ({k, x, z} \<union> roots a \<union> roots c \<union> roots d \<union> roots r) \<and>
    rep M' z p (Node (Node a (x, xv) c) (z, zv) (Node d (k, v) r)) \<and> (\<forall>j. j \<notin> {k, x, z} \<longrightarrow> M' j = M j) \<and> dom M' = dom M"
proof -
  have o2: "ordered (Node a (x, xv) (Node c (z, zv) d))" by (rule ordered_NodeD(1)[OF ord])
  have o3: "ordered (Node (Node (Node a (x, xv) c) (z, zv) d) (k, v) r)" using ord by simp
  have ne: "k \<noteq> x" "k \<noteq> z" "x \<notin> keys r" "z \<notin> keys r" "k \<notin> keys a" "k \<notin> keys c" "k \<notin> keys d" "k \<notin> keys r"
    using ord by (auto simp: ordered_Node simp del: inorder.simps)
  obtain xn where xn: "leftID n = x" "M x = Some xn" "n_value xn = xv"
    "rep M (leftID xn) (leftPos xn) a" "rep M (rightID xn) (rightPos xn) (Node c (z, zv) d)" using l by auto
  have h1: "height (Node a (x, xv) (Node c (z, zv) d)) + 1 < 2 ^ 32"
    and h2: "height (Node (Node (Node a (x, xv) c) (z, zv) d) (k, v) r) + 1 < 2 ^ 32" using h by simp_all
  from leftRotate_ok[OF inv ca(1) xn(2,3,5,4) o2 ca(2,3) h1] obtain t1 M1 zn where
    zn: "M z = Some zn" and t1: "leftRotate x t = Inr (t1, z)" "moves t M1 t1 ({x, z} \<union> roots a \<union> roots c \<union> roots d)"
      "rep M1 z (n_pos zn) (Node (Node a (x, xv) c) (z, zv) d)" "\<forall>j. j \<noteq> z \<longrightarrow> j \<noteq> x \<longrightarrow> M1 j = M j" "dom M1 = dom M"
    by (elim exE conjE) (rule that, assumption+)
  note i1 = moves_inv[OF t1(2)]
  have k1: "k \<in> acached t1" "z \<in> acached t1" "roots d \<subseteq> acached t1" using moves_cached[OF t1(2)] k(1) ca by blast+
  have M1k: "M1 k = Some n" using t1(4) ne k(2) by simp
  obtain zm where zm: "M1 z = Some zm" "n_pos zm = n_pos zn" using t1(3) by auto
  have okz: "node_ok (a_oram t1) zm" "n_key zm = z" and okk: "node_ok (a_oram t1) n" "n_key n = k"
    using ainv_node[OF i1] zm(1) M1k by blast+
  let ?n = "n\<lparr>leftID := n_key zm, leftPos := n_pos zm\<rparr>"
  have "node_ok (a_oram t1) ?n" using okz okk by (auto simp: node_ok_def node_wf_def)
  then have p1: "moves t1 (M1(k \<mapsto> ?n)) (put_node k ?n t1) {}" using okk(2) by (intro put_node_ok[OF i1 k1(1)]) simp_all
  let ?t2 = "put_node k ?n t1" and ?M2 = "M1(k \<mapsto> ?n)"
  note i2 = moves_inv[OF p1]
  from rewrite_node_ok[OF i2 moves_cached[OF p1 k1(1)]] obtain t3 where
    t3: "rewrite_node k ?t2 = Inr t3" "moves ?t2 ?M2 t3 {k}" by blast
  note i3 = moves_inv[OF t3(2)]
  have c3: "k \<in> acached t3" "z \<in> acached t3" "roots d \<subseteq> acached t3"
    using moves_cached[OF t3(2)] moves_cached[OF p1] k1 by blast+
  have kk: "k \<notin> keys (Node (Node a (x, xv) c) (z, zv) d)" using ne by (simp add: image_Un)
  have rl: "rep ?M2 (leftID ?n) (leftPos ?n) (Node (Node a (x, xv) c) (z, zv) d)"
    using t1(3) zm(2) okz(2) rep_upd[OF kk] by (simp del: rep.simps)
  have "rep M1 (rightID n) (rightPos n) r" using r rep_cong[of r M1 M] t1(4) ne(3,4) by metis
  then have rr: "rep ?M2 (rightID ?n) (rightPos ?n) r" using rep_upd[OF ne(8)] by simp
  have "?M2 k = Some ?n" "n_value ?n = v" using k(3) by simp_all
  from rightRotate_ok[OF i3 c3(1) this rl rr o3 c3(2,3) h2] obtain t4 M4 zp where
    zp: "?M2 z = Some zp" and t4: "rightRotate k t3 = Inr (t4, z)" "moves t3 M4 t4 ({z, k} \<union> roots (Node a (x, xv) c) \<union> roots d \<union> roots r)"
      "rep M4 z (n_pos zp) (Node (Node a (x, xv) c) (z, zv) (Node d (k, v) r))"
      "\<forall>j. j \<noteq> z \<longrightarrow> j \<noteq> k \<longrightarrow> M4 j = ?M2 j" "dom M4 = dom ?M2"
    by (elim exE conjE) (rule that, assumption+)
  have "rotated (t4, z) = Inr (t4, n_pos zp, z)"
    by (rule rotated_ok[OF moves_inv[OF t4(2)] t4(3) moves_cached[OF t4(2) c3(2)]])
  then have "rebalance_left k t = Inr (t4, n_pos zp, z)"
    using get_node_ok[OF inv k(1,2)] xn(1) ReadNode_cached_ok[OF inv ca(1)] t1(1) get_node_ok[OF i1 k1(2) zm(1)]
      get_node_ok[OF i1 k1(1) M1k] t3(1) t4(1) by (simp add: rebalance_left_def)
  moreover have "moves t M4 t4 ({k, x, z} \<union> roots a \<union> roots c \<union> roots d \<union> roots r)"
    by (rule moves_trans[OF moves_trans[OF moves_trans[OF t1(2) p1 order_refl] t3(2) order_refl] t4(2)]) auto
  moreover have "\<forall>j. j \<notin> {k, x, z} \<longrightarrow> M4 j = M j" using t4(4) t1(4) by simp
  moreover have "dom M4 = dom M" using t4(5) t1(5) M1k by auto
  ultimately show ?thesis using t4(3) by blast
qed

lemma rebalance_right_ok:
  assumes inv: "ainv t M" and k: "k \<in> acached t" "M k = Some n" "n_value n = v"
    and r: "rep M (rightID n) (rightPos n) (Node (Node c (z, zv) d) (x, xv) a)" and l: "rep M (leftID n) (leftPos n) l"
    and ord: "ordered (Node l (k, v) (Node (Node c (z, zv) d) (x, xv) a))"
    and ca: "x \<in> acached t" "z \<in> acached t" "roots c \<subseteq> acached t" "roots d \<subseteq> acached t"
    and h: "height (Node l (k, v) (Node (Node c (z, zv) d) (x, xv) a)) + 2 < 2 ^ 32"
  shows "\<exists>t' M' p. rebalance_right k t = Inr (t', p, z) \<and> moves t M' t' ({k, x, z} \<union> roots a \<union> roots c \<union> roots d \<union> roots l) \<and>
    rep M' z p (Node (Node l (k, v) c) (z, zv) (Node d (x, xv) a)) \<and> (\<forall>j. j \<notin> {k, x, z} \<longrightarrow> M' j = M j) \<and> dom M' = dom M"
proof -
  have o2: "ordered (Node (Node c (z, zv) d) (x, xv) a)" by (rule ordered_NodeD(2)[OF ord])
  have o3: "ordered (Node l (k, v) (Node c (z, zv) (Node d (x, xv) a)))" using ord by simp
  have ne: "k \<noteq> x" "k \<noteq> z" "x \<notin> keys l" "z \<notin> keys l" "k \<notin> keys a" "k \<notin> keys c" "k \<notin> keys d" "k \<notin> keys l"
    using ord by (auto simp: ordered_Node simp del: inorder.simps)
  obtain xn where xn: "rightID n = x" "M x = Some xn" "n_value xn = xv"
    "rep M (rightID xn) (rightPos xn) a" "rep M (leftID xn) (leftPos xn) (Node c (z, zv) d)" using r by auto
  have h1: "height (Node (Node c (z, zv) d) (x, xv) a) + 1 < 2 ^ 32"
    and h2: "height (Node l (k, v) (Node c (z, zv) (Node d (x, xv) a))) + 1 < 2 ^ 32" using h by simp_all
  from rightRotate_ok[OF inv ca(1) xn(2,3,5,4) o2 ca(2,4) h1] obtain t1 M1 zn where
    zn: "M z = Some zn" and t1: "rightRotate x t = Inr (t1, z)" "moves t M1 t1 ({z, x} \<union> roots c \<union> roots d \<union> roots a)"
      "rep M1 z (n_pos zn) (Node c (z, zv) (Node d (x, xv) a))" "\<forall>j. j \<noteq> z \<longrightarrow> j \<noteq> x \<longrightarrow> M1 j = M j" "dom M1 = dom M"
    by (elim exE conjE) (rule that, assumption+)
  note i1 = moves_inv[OF t1(2)]
  have k1: "k \<in> acached t1" "z \<in> acached t1" "roots c \<subseteq> acached t1" using moves_cached[OF t1(2)] k(1) ca by blast+
  have M1k: "M1 k = Some n" using t1(4) ne k(2) by simp
  obtain zm where zm: "M1 z = Some zm" "n_pos zm = n_pos zn" using t1(3) by auto
  have okz: "node_ok (a_oram t1) zm" "n_key zm = z" and okk: "node_ok (a_oram t1) n" "n_key n = k"
    using ainv_node[OF i1] zm(1) M1k by blast+
  let ?n = "n\<lparr>rightID := n_key zm, rightPos := n_pos zm\<rparr>"
  have "node_ok (a_oram t1) ?n" using okz okk by (auto simp: node_ok_def node_wf_def)
  then have p1: "moves t1 (M1(k \<mapsto> ?n)) (put_node k ?n t1) {}" using okk(2) by (intro put_node_ok[OF i1 k1(1)]) simp_all
  let ?t2 = "put_node k ?n t1" and ?M2 = "M1(k \<mapsto> ?n)"
  note i2 = moves_inv[OF p1]
  from rewrite_node_ok[OF i2 moves_cached[OF p1 k1(1)]] obtain t3 where
    t3: "rewrite_node k ?t2 = Inr t3" "moves ?t2 ?M2 t3 {k}" by blast
  note i3 = moves_inv[OF t3(2)]
  have c3: "k \<in> acached t3" "z \<in> acached t3" "roots c \<subseteq> acached t3"
    using moves_cached[OF t3(2)] moves_cached[OF p1] k1 by blast+
  have kk: "k \<notin> keys (Node c (z, zv) (Node d (x, xv) a))" using ne by (simp add: image_Un)
  have rr: "rep ?M2 (rightID ?n) (rightPos ?n) (Node c (z, zv) (Node d (x, xv) a))"
    using t1(3) zm(2) okz(2) rep_upd[OF kk] by (simp del: rep.simps)
  have "rep M1 (leftID n) (leftPos n) l" using l rep_cong[of l M1 M] t1(4) ne(3,4) by metis
  then have rl: "rep ?M2 (leftID ?n) (leftPos ?n) l" using rep_upd[OF ne(8)] by simp
  have "?M2 k = Some ?n" "n_value ?n = v" using k(3) by simp_all
  from leftRotate_ok[OF i3 c3(1) this rr rl o3 c3(2,3) h2] obtain t4 M4 zp where
    zp: "?M2 z = Some zp" and t4: "leftRotate k t3 = Inr (t4, z)" "moves t3 M4 t4 ({k, z} \<union> roots l \<union> roots c \<union> roots (Node d (x, xv) a))"
      "rep M4 z (n_pos zp) (Node (Node l (k, v) c) (z, zv) (Node d (x, xv) a))"
      "\<forall>j. j \<noteq> z \<longrightarrow> j \<noteq> k \<longrightarrow> M4 j = ?M2 j" "dom M4 = dom ?M2"
    by (elim exE conjE) (rule that, assumption+)
  have "rotated (t4, z) = Inr (t4, n_pos zp, z)"
    by (rule rotated_ok[OF moves_inv[OF t4(2)] t4(3) moves_cached[OF t4(2) c3(2)]])
  then have "rebalance_right k t = Inr (t4, n_pos zp, z)"
    using get_node_ok[OF inv k(1,2)] xn(1) ReadNode_cached_ok[OF inv ca(1)] t1(1) get_node_ok[OF i1 k1(2) zm(1)]
      get_node_ok[OF i1 k1(1) M1k] t3(1) t4(1) by (simp add: rebalance_right_def)
  moreover have "moves t M4 t4 ({k, x, z} \<union> roots a \<union> roots c \<union> roots d \<union> roots l)"
    by (rule moves_trans[OF moves_trans[OF moves_trans[OF t1(2) p1 order_refl] t3(2) order_refl] t4(2)]) auto
  moreover have "\<forall>j. j \<notin> {k, x, z} \<longrightarrow> M4 j = M j" using t4(4) t1(4) by simp
  moreover have "dom M4 = dom M" using t4(5) t1(5) M1k by auto
  ultimately show ?thesis using t4(3) by blast
qed

section \<open>Marks and rotations\<close>

lemma roots_apart: "keys a \<inter> keys b = {} \<Longrightarrow> roots a \<inter> keys b = {}" "keys a \<inter> keys b = {} \<Longrightarrow> roots b \<inter> keys a = {}"
  by (cases a; auto) (cases b; auto)

lemma tok_apart:
  assumes "moves t M t' S" "tok (acached t) (amod t) u" "ordered u" "S \<subseteq> roots u \<union> Q" "Q \<inter> keys u = {}"
  shows "tok (acached t') (amod t') u"
proof (rule moves_tok[OF assms(1,2) _ assms(3)])
  show "S \<inter> keys u \<subseteq> roots u" using assms(4,5) by blast
qed

lemma ordered_distinct: "ordered t \<Longrightarrow> distinct (map fst (inorder t))"
  by (rule sm_wf_distinct)

lemma tok_three:
  assumes m: "moves t M t' ({fst x, fst y} \<union> roots a \<union> roots b \<union> roots c)" and o: "ordered (Node a x (Node b y c))"
    and "tok (acached t) (amod t) a" "tok (acached t) (amod t) b" "tok (acached t) (amod t) c"
  shows "tok (acached t') (amod t') a" "tok (acached t') (amod t') b" "tok (acached t') (amod t') c"
proof -
  have oo: "ordered a" "ordered b" "ordered c" using o by (auto simp: ordered_Node simp del: inorder.simps)
  have "distinct (map fst (inorder (Node a x (Node b y c))))" using o by (rule ordered_distinct)
  then have d: "keys a \<inter> keys b = {}" "keys a \<inter> keys c = {}" "keys b \<inter> keys c = {}"
      "fst x \<notin> keys a" "fst x \<notin> keys b" "fst x \<notin> keys c" "fst y \<notin> keys a" "fst y \<notin> keys b" "fst y \<notin> keys c"
    by (simp_all add: Int_Un_distrib)
  note e = d(4-9) roots_apart[OF d(1)] roots_apart[OF d(2)] roots_apart[OF d(3)]
  show "tok (acached t') (amod t') a"
    by (rule tok_apart[OF m assms(3) oo(1), of "{fst x, fst y} \<union> roots b \<union> roots c"]) (auto simp: e Int_Un_distrib2)
  show "tok (acached t') (amod t') b"
    by (rule tok_apart[OF m assms(4) oo(2), of "{fst x, fst y} \<union> roots a \<union> roots c"]) (auto simp: e Int_Un_distrib2)
  show "tok (acached t') (amod t') c"
    by (rule tok_apart[OF m assms(5) oo(3), of "{fst x, fst y} \<union> roots a \<union> roots b"]) (auto simp: e Int_Un_distrib2)
qed

lemma tok_four:
  assumes m: "moves t M t' ({fst x, fst y, fst z} \<union> roots a \<union> roots b \<union> roots c \<union> roots d)"
    and o: "ordered (Node (Node a x b) y (Node c z d))"
    and "tok (acached t) (amod t) a" "tok (acached t) (amod t) b" "tok (acached t) (amod t) c" "tok (acached t) (amod t) d"
  shows "tok (acached t') (amod t') a" "tok (acached t') (amod t') b" "tok (acached t') (amod t') c" "tok (acached t') (amod t') d"
proof -
  have oo: "ordered a" "ordered b" "ordered c" "ordered d" using o by (auto simp: ordered_Node simp del: inorder.simps)
  have "distinct (map fst (inorder (Node (Node a x b) y (Node c z d))))" using o by (rule ordered_distinct)
  then have d: "keys a \<inter> keys b = {}" "keys a \<inter> keys c = {}" "keys a \<inter> keys d = {}" "keys b \<inter> keys c = {}"
      "keys b \<inter> keys d = {}" "keys c \<inter> keys d = {}"
      "fst x \<notin> keys a" "fst x \<notin> keys b" "fst x \<notin> keys c" "fst x \<notin> keys d"
      "fst y \<notin> keys a" "fst y \<notin> keys b" "fst y \<notin> keys c" "fst y \<notin> keys d"
      "fst z \<notin> keys a" "fst z \<notin> keys b" "fst z \<notin> keys c" "fst z \<notin> keys d"
    by (simp_all add: Int_Un_distrib Int_Un_distrib2)
  note e = d(7-18) roots_apart[OF d(1)] roots_apart[OF d(2)] roots_apart[OF d(3)] roots_apart[OF d(4)] roots_apart[OF d(5)] roots_apart[OF d(6)]
  show "tok (acached t') (amod t') a"
    by (rule tok_apart[OF m assms(3) oo(1), of "{fst x, fst y, fst z} \<union> roots b \<union> roots c \<union> roots d"]) (auto simp: e Int_Un_distrib2)
  show "tok (acached t') (amod t') b"
    by (rule tok_apart[OF m assms(4) oo(2), of "{fst x, fst y, fst z} \<union> roots a \<union> roots c \<union> roots d"]) (auto simp: e Int_Un_distrib2)
  show "tok (acached t') (amod t') c"
    by (rule tok_apart[OF m assms(5) oo(3), of "{fst x, fst y, fst z} \<union> roots a \<union> roots b \<union> roots d"]) (auto simp: e Int_Un_distrib2)
  show "tok (acached t') (amod t') d"
    by (rule tok_apart[OF m assms(6) oo(4), of "{fst x, fst y, fst z} \<union> roots a \<union> roots b \<union> roots c"]) (auto simp: e Int_Un_distrib2)
qed

section \<open>Rebalancing\<close>

text \<open>From \<open>t\<close> the code got to \<open>t'\<close>, where the tree \<open>T\<close> is rooted at \<open>i\<close>; only the nodes with keys in \<open>D\<close> were touched.\<close>

definition built :: "'n::len avltree \<Rightarrow> ('n Bid \<Rightarrow> 'n node option) \<Rightarrow> 'n avltree \<Rightarrow> ('n Bid \<Rightarrow> 'n node option) \<Rightarrow> 'n Bid \<Rightarrow> nat \<Rightarrow> 'n Bid set \<Rightarrow> 'n btree \<Rightarrow> bool" where
  "built t M t' M' i p D T \<longleftrightarrow> moves t M' t' D \<and> rep M' i p T \<and> (\<forall>j. j \<notin> D \<longrightarrow> M' j = M j) \<and> dom M' = dom M \<and>
     tok (acached t') (amod t') T \<and> roots T \<subseteq> acached t'"

lemma moves_weaken: "moves t M t' S \<Longrightarrow> S \<subseteq> S' \<Longrightarrow> moves t M t' S'"
  by (auto simp: moves_def)

lemma built_trans:
  assumes "moves t M1 t1 S" "built t1 M1 t' M' i p D T" "S \<subseteq> D" "\<And>j. j \<notin> D \<Longrightarrow> M1 j = M j" "dom M1 = dom M"
  shows "built t M t' M' i p D T"
  using assms moves_trans[OF assms(1), of M' t' D D] by (simp add: built_def)

lemma single_right_ok:
  assumes inv: "ainv t M" and k: "k \<in> acached t" "M k = Some n" "n_value n = v"
    and l: "rep M (leftID n) (leftPos n) (Node a (x, xv) b)" and c: "rep M (rightID n) (rightPos n) c"
    and ord: "ordered (Node (Node a (x, xv) b) (k, v) c)"
    and ca: "x \<in> acached t" "roots b \<subseteq> acached t" and h: "height (Node (Node a (x, xv) b) (k, v) c) + 1 < 2 ^ 32"
    and tk: "tok (acached t) (amod t) (Node a (x, xv) b)" "tok (acached t) (amod t) c"
  shows "\<exists>t' M' p. bindE (rightRotate k t) rotated = Inr (t', p, x) \<and>
    built t M t' M' x p (keys (Node (Node a (x, xv) b) (k, v) c)) (Node a (x, xv) (Node b (k, v) c))"
proof -
  from rightRotate_ok[OF inv k l c ord ca h] obtain t' M' xn where
    xn: "M x = Some xn" and t': "rightRotate k t = Inr (t', x)" "moves t M' t' ({x, k} \<union> roots a \<union> roots b \<union> roots c)"
      "rep M' x (n_pos xn) (Node a (x, xv) (Node b (k, v) c))" "\<forall>j. j \<noteq> x \<longrightarrow> j \<noteq> k \<longrightarrow> M' j = M j" "dom M' = dom M"
    by (elim exE conjE) (rule that, assumption+)
  have c': "x \<in> acached t'" "k \<in> acached t'" using moves_cached[OF t'(2)] ca k by blast+
  have "ordered (Node a (x, xv) (Node b (k, v) c))" using ord by simp
  then have "tok (acached t') (amod t') (Node a (x, xv) (Node b (k, v) c))"
    using tok_three[of t M' t' "(x, xv)" "(k, v)" a b c] t'(2) tk c' by simp
  moreover have "moves t M' t' (keys (Node (Node a (x, xv) b) (k, v) c))"
    by (rule moves_weaken[OF t'(2)]) (auto simp: image_Un dest: subsetD[OF roots_keys])
  ultimately have "built t M t' M' x (n_pos xn) (keys (Node (Node a (x, xv) b) (k, v) c)) (Node a (x, xv) (Node b (k, v) c))"
    using t'(3-5) c' by (simp add: built_def del: rep.simps tok.simps)
  moreover have "bindE (rightRotate k t) rotated = Inr (t', n_pos xn, x)"
    using rotated_ok[OF moves_inv[OF t'(2)] t'(3) c'(1)] t'(1) by simp
  ultimately show ?thesis by blast
qed

lemma single_left_ok:
  assumes inv: "ainv t M" and k: "k \<in> acached t" "M k = Some n" "n_value n = v"
    and r: "rep M (rightID n) (rightPos n) (Node b (x, xv) c)" and a: "rep M (leftID n) (leftPos n) a"
    and ord: "ordered (Node a (k, v) (Node b (x, xv) c))"
    and ca: "x \<in> acached t" "roots b \<subseteq> acached t" and h: "height (Node a (k, v) (Node b (x, xv) c)) + 1 < 2 ^ 32"
    and tk: "tok (acached t) (amod t) (Node b (x, xv) c)" "tok (acached t) (amod t) a"
  shows "\<exists>t' M' p. bindE (leftRotate k t) rotated = Inr (t', p, x) \<and>
    built t M t' M' x p (keys (Node a (k, v) (Node b (x, xv) c))) (Node (Node a (k, v) b) (x, xv) c)"
proof -
  from leftRotate_ok[OF inv k r a ord ca h] obtain t' M' xn where
    xn: "M x = Some xn" and t': "leftRotate k t = Inr (t', x)" "moves t M' t' ({k, x} \<union> roots a \<union> roots b \<union> roots c)"
      "rep M' x (n_pos xn) (Node (Node a (k, v) b) (x, xv) c)" "\<forall>j. j \<noteq> x \<longrightarrow> j \<noteq> k \<longrightarrow> M' j = M j" "dom M' = dom M"
    by (elim exE conjE) (rule that, assumption+)
  have c': "x \<in> acached t'" "k \<in> acached t'" using moves_cached[OF t'(2)] ca k by blast+
  have "tok (acached t') (amod t') (Node (Node a (k, v) b) (x, xv) c)"
    using tok_three[of t M' t' "(k, v)" "(x, xv)" a b c] ord t'(2) tk c' by simp
  moreover have "moves t M' t' (keys (Node a (k, v) (Node b (x, xv) c)))"
    by (rule moves_weaken[OF t'(2)]) (auto simp: image_Un dest: subsetD[OF roots_keys])
  ultimately have "built t M t' M' x (n_pos xn) (keys (Node a (k, v) (Node b (x, xv) c))) (Node (Node a (k, v) b) (x, xv) c)"
    using t'(3-5) c' by (simp add: built_def del: rep.simps tok.simps)
  moreover have "bindE (leftRotate k t) rotated = Inr (t', n_pos xn, x)"
    using rotated_ok[OF moves_inv[OF t'(2)] t'(3) c'(1)] t'(1) by simp
  ultimately show ?thesis by blast
qed

lemma double_left_ok:
  assumes inv: "ainv t M" and k: "k \<in> acached t" "M k = Some n" "n_value n = v"
    and l: "rep M (leftID n) (leftPos n) (Node a (x, xv) (Node c (z, zv) d))" and r: "rep M (rightID n) (rightPos n) r"
    and ord: "ordered (Node (Node a (x, xv) (Node c (z, zv) d)) (k, v) r)"
    and ca: "x \<in> acached t" "z \<in> acached t" "roots c \<subseteq> acached t" "roots d \<subseteq> acached t"
    and h: "height (Node (Node a (x, xv) (Node c (z, zv) d)) (k, v) r) + 2 < 2 ^ 32"
    and tk: "tok (acached t) (amod t) (Node a (x, xv) (Node c (z, zv) d))" "tok (acached t) (amod t) r"
  shows "\<exists>t' M' p. rebalance_left k t = Inr (t', p, z) \<and>
    built t M t' M' z p (keys (Node (Node a (x, xv) (Node c (z, zv) d)) (k, v) r)) (Node (Node a (x, xv) c) (z, zv) (Node d (k, v) r))"
proof -
  from rebalance_left_ok[OF inv k l r ord ca h] obtain t' M' p where
    t': "rebalance_left k t = Inr (t', p, z)" "moves t M' t' ({k, x, z} \<union> roots a \<union> roots c \<union> roots d \<union> roots r)"
      "rep M' z p (Node (Node a (x, xv) c) (z, zv) (Node d (k, v) r))" "\<forall>j. j \<notin> {k, x, z} \<longrightarrow> M' j = M j" "dom M' = dom M"
    by (elim exE conjE) (rule that, assumption+)
  have c': "x \<in> acached t'" "k \<in> acached t'" "z \<in> acached t'" using moves_cached[OF t'(2)] ca k by blast+
  have "ordered (Node (Node a (x, xv) c) (z, zv) (Node d (k, v) r))" using ord by simp
  then have "tok (acached t') (amod t') (Node (Node a (x, xv) c) (z, zv) (Node d (k, v) r))"
    using tok_four[of t M' t' "(x, xv)" "(z, zv)" "(k, v)" a c d r] t'(2) tk c' by (simp add: insert_commute)
  moreover have "moves t M' t' (keys (Node (Node a (x, xv) (Node c (z, zv) d)) (k, v) r))"
    by (rule moves_weaken[OF t'(2)]) (auto simp: image_Un dest: subsetD[OF roots_keys])
  ultimately show ?thesis using t'(1,3-5) c' by (auto simp: built_def simp del: rep.simps tok.simps)
qed

lemma double_right_ok:
  assumes inv: "ainv t M" and k: "k \<in> acached t" "M k = Some n" "n_value n = v"
    and r: "rep M (rightID n) (rightPos n) (Node (Node c (z, zv) d) (x, xv) a)" and l: "rep M (leftID n) (leftPos n) l"
    and ord: "ordered (Node l (k, v) (Node (Node c (z, zv) d) (x, xv) a))"
    and ca: "x \<in> acached t" "z \<in> acached t" "roots c \<subseteq> acached t" "roots d \<subseteq> acached t"
    and h: "height (Node l (k, v) (Node (Node c (z, zv) d) (x, xv) a)) + 2 < 2 ^ 32"
    and tk: "tok (acached t) (amod t) (Node (Node c (z, zv) d) (x, xv) a)" "tok (acached t) (amod t) l"
  shows "\<exists>t' M' p. rebalance_right k t = Inr (t', p, z) \<and>
    built t M t' M' z p (keys (Node l (k, v) (Node (Node c (z, zv) d) (x, xv) a))) (Node (Node l (k, v) c) (z, zv) (Node d (x, xv) a))"
proof -
  from rebalance_right_ok[OF inv k r l ord ca h] obtain t' M' p where
    t': "rebalance_right k t = Inr (t', p, z)" "moves t M' t' ({k, x, z} \<union> roots a \<union> roots c \<union> roots d \<union> roots l)"
      "rep M' z p (Node (Node l (k, v) c) (z, zv) (Node d (x, xv) a))" "\<forall>j. j \<notin> {k, x, z} \<longrightarrow> M' j = M j" "dom M' = dom M"
    by (elim exE conjE) (rule that, assumption+)
  have c': "x \<in> acached t'" "k \<in> acached t'" "z \<in> acached t'" using moves_cached[OF t'(2)] ca k by blast+
  have "moves t M' t' ({k, z, x} \<union> roots l \<union> roots c \<union> roots d \<union> roots a)" by (rule moves_weaken[OF t'(2)]) auto
  then have "tok (acached t') (amod t') (Node (Node l (k, v) c) (z, zv) (Node d (x, xv) a))"
    using tok_four[of t M' t' "(k, v)" "(z, zv)" "(x, xv)" l c d a] ord tk c' by simp
  moreover have "moves t M' t' (keys (Node l (k, v) (Node (Node c (z, zv) d) (x, xv) a)))"
    by (rule moves_weaken[OF t'(2)]) (auto simp: image_Un dest: subsetD[OF roots_keys])
  ultimately show ?thesis using t'(1,3-5) c' by (auto simp: built_def simp del: rep.simps tok.simps)
qed

lemma rebalance_start:
  assumes inv: "ainv t M" and k: "k \<in> acached t" "M k = Some n"
    and l: "rep M (leftID n) (leftPos n) l" and r: "rep M (rightID n) (rightPos n) r"
    and ord: "ordered (Node l (k, v) r)" and h: "height (Node l (k, v) r) + 2 < 2 ^ 32"
    and tk: "tok (acached t) (amod t) l" "tok (acached t) (amod t) r"
  defines "n2 \<equiv> n\<lparr>n_height := height (Node l (k, v) r)\<rparr>"
  defines "M2 \<equiv> M(k \<mapsto> n2)"
  shows "\<exists>t1 t2. set_height k t = Inr t1 \<and> getBalance k t1 = Inr (t2, int (height l) - int (height r)) \<and> get_node t2 k = Inr n2 \<and>
    moves t M2 t2 (roots l \<union> roots r) \<and> roots l \<union> roots r \<subseteq> acached t2 \<and> tok (acached t2) (amod t2) l \<and> tok (acached t2) (amod t2) r"
proof -
  have kn: "k \<notin> keys l" "k \<notin> keys r" using ordered_NodeD(5,6)[OF ord] by simp_all
  have "max (height l) (height r) + 1 < 2 ^ 32" using h by simp
  from set_height_ok[OF inv k l r this] obtain t1 where
    t1: "set_height k t = Inr t1" "moves t M2 t1 (roots l \<union> roots r)" "roots l \<union> roots r \<subseteq> acached t1"
    by (auto simp: M2_def n2_def)
  have M2k: "M2 k = Some n2" by (simp add: M2_def)
  have reps: "rep M2 (leftID n2) (leftPos n2) l" "rep M2 (rightID n2) (rightPos n2) r"
    using l r kn by (simp_all add: M2_def rep_upd, simp_all add: n2_def)
  from getBalance_ok[OF moves_inv[OF t1(2)] moves_cached[OF t1(2) k(1)] M2k reps] obtain t2 where
    t2: "getBalance k t1 = Inr (t2, int (height l) - int (height r))" "moves t1 M2 t2 (roots l \<union> roots r)" by blast
  have m: "moves t M2 t2 (roots l \<union> roots r)" by (rule moves_trans[OF t1(2) t2(2)]) simp
  have o: "ordered l" "ordered r" "keys l \<inter> keys r = {}" using ordered_NodeD[OF ord] by simp_all
  have "tok (acached t2) (amod t2) l" by (rule tok_apart[OF m tk(1) o(1), of "roots r"]) (simp_all add: roots_apart(2)[OF o(3)])
  moreover have "tok (acached t2) (amod t2) r" by (rule tok_apart[OF m tk(2) o(2), of "roots l"]) (simp_all add: roots_apart(1)[OF o(3)])
  moreover have "get_node t2 k = Inr n2" by (rule get_node_ok[OF moves_inv[OF m] moves_cached[OF m k(1)] M2k])
  moreover have "roots l \<union> roots r \<subseteq> acached t2" using t1(3) moves_cached[OF t2(2)] by blast
  ultimately show ?thesis using t1(1) t2(1) m by blast
qed

text \<open>What a subtree of an unbalanced node gives: the inserted key is in it, and the search path of that key is cached.\<close>

definition reached :: "'n::len Bid \<Rightarrow> 'n Bid set \<Rightarrow> 'n btree \<Rightarrow> bool" where
  "reached key C t \<longleftrightarrow> key \<in> keys t \<and> roots t \<subseteq> C \<and> pathc key C t"

lemma child_key_ok:
  assumes "ainv t M" "rep M c p (Node a (x, xv) b)" "x \<in> acached t"
  shows "child_key c t = Inr x"
proof -
  obtain n where n: "M x = Some n" "c = x" using assms(2) by auto
  then show ?thesis
    using ReadNode_cached_ok[OF assms(1,3)] get_node_ok[OF assms(1,3) n(1)] ainv_node[OF assms(1) n(1)] by (simp add: child_key_def)
qed

lemma plain_ok:
  assumes inv: "ainv t M" and k: "k \<in> acached t" "M k = Some n" "n_value n = v" "n_pos n = p" "n_height n = height (Node l (k, v) r)"
    and l: "rep M (leftID n) (leftPos n) l" and r: "rep M (rightID n) (rightPos n) r"
    and ord: "ordered (Node l (k, v) r)" and tk: "tok (acached t) (amod t) l" "tok (acached t) (amod t) r"
  shows "\<exists>t'. rewrite_node k t = Inr t' \<and> built t M t' M k p (keys (Node l (k, v) r)) (Node l (k, v) r)"
proof -
  from rewrite_node_ok[OF inv k(1)] obtain t' where t': "rewrite_node k t = Inr t'" "moves t M t' {k}" by blast
  have kk: "k \<notin> keys l" "k \<notin> keys r" using ordered_NodeD(5,6)[OF ord] by simp_all
  have o: "ordered l" "ordered r" using ordered_NodeD[OF ord] by simp_all
  have "tok (acached t') (amod t') l" by (rule tok_apart[OF t'(2) tk(1) o(1), of "{k}"]) (simp_all add: kk)
  moreover have "tok (acached t') (amod t') r" by (rule tok_apart[OF t'(2) tk(2) o(2), of "{k}"]) (simp_all add: kk)
  moreover have "rep M k p (Node l (k, v) r)" by (rule rep_NodeI[OF k(2-5) l r])
  moreover have "k \<in> acached t'" by (rule moves_cached[OF t'(2) k(1)])
  ultimately show ?thesis
    using t'(1) moves_weaken[OF t'(2), of "keys (Node l (k, v) r)"] by (simp add: built_def del: rep.simps)
qed

lemma rebalance_left_heavy:
  assumes inv: "ainv t M" and k: "k \<in> acached t" "M k = Some n" "n_value n = v" "n_pos n = p" "n_height n = height (Node l (k, v) r)"
    and l: "rep M (leftID n) (leftPos n) l" and r: "rep M (rightID n) (rightPos n) r"
    and ord: "ordered (Node l (k, v) r)" and h: "height (Node l (k, v) r) + 2 < 2 ^ 32"
    and tk: "tok (acached t) (amod t) l" "tok (acached t) (amod t) r"
    and hl: "height l > height r + 1" and rc: "reached key (acached t) l" and wf: "bid_wf key"
  shows "\<exists>c t' M' p' i'. child_key (leftID n) t = Inr c \<and>
    (if bid_lt key c then bindE (rightRotate k t) rotated
     else if bid_gt key c then rebalance_left k t
     else bindE (rewrite_node k t) (\<lambda>t3. Inr (t3, p, n_key n))) = Inr (t', p', i') \<and>
    built t M t' M' i' p' (keys (Node l (k, v) r)) (rebal key l (k, v) r)"
proof -
  obtain a x xv b where lt: "l = Node a (x, xv) b" using hl by (cases l) auto
  have xc: "x \<in> acached t" "roots a \<subseteq> acached t" "roots b \<subseteq> acached t" using rc by (auto simp: reached_def lt)
  have ck: "child_key (leftID n) t = Inr x" by (rule child_key_ok[OF inv l[unfolded lt] xc(1)])
  have h1: "height (Node (Node a (x, xv) b) (k, v) r) + 1 < 2 ^ 32" using h by (simp add: lt)
  have "x \<in> dom M" using rep_dom[OF l] by (simp add: lt)
  then have "bid_wf x" using ainv_node[OF inv] by (fastforce simp: node_ok_def node_wf_def)
  note cmp = bid_order_iff[OF wf this]
  consider "key < x" | "x < key" | "key = x" by fastforce
  then show ?thesis
  proof cases
    case 1
    from single_right_ok[OF inv k(1-3) l[unfolded lt] r ord[unfolded lt] xc(1,3) h1 tk[unfolded lt]] obtain t' M' p' where
      "bindE (rightRotate k t) rotated = Inr (t', p', x)"
      "built t M t' M' x p' (keys (Node (Node a (x, xv) b) (k, v) r)) (Node a (x, xv) (Node b (k, v) r))" by blast
    moreover have "rebal key l (k, v) r = Node a (x, xv) (Node b (k, v) r)" using 1 hl by (simp add: rebal_def lt)
    ultimately show ?thesis using ck 1 unfolding lt by (metis cmp(1))
  next
    case 2
    have "key \<in> keys b"
    proof -
      have "ordered l" by (rule ordered_NodeD(1)[OF ord])
      then have "key \<notin> keys a" using ordered_NodeD(3)[of a "(x, xv)" b key] 2 unfolding lt by (metis fst_conv order_less_asym)
      with rc 2 show ?thesis by (auto simp: reached_def lt)
    qed
    then obtain c z zv d where b: "b = Node c (z, zv) d" by (cases b) auto
    have zc: "z \<in> acached t" "roots c \<subseteq> acached t" "roots d \<subseteq> acached t" using rc 2 xc(3) by (auto simp: reached_def lt b)
    from double_left_ok[OF inv k(1-3) l[unfolded lt b] r ord[unfolded lt b] xc(1) zc h[unfolded lt b] tk[unfolded lt b]]
    obtain t' M' p' where "rebalance_left k t = Inr (t', p', z)"
      "built t M t' M' z p' (keys (Node (Node a (x, xv) (Node c (z, zv) d)) (k, v) r)) (Node (Node a (x, xv) c) (z, zv) (Node d (k, v) r))" by blast
    moreover have "rebal key l (k, v) r = Node (Node a (x, xv) c) (z, zv) (Node d (k, v) r)" using 2 hl by (simp add: rebal_def lt b)
    moreover have "bid_gt key x" "\<not> bid_lt key x" using 2 by (simp_all add: cmp)
    ultimately show ?thesis using ck unfolding lt b by metis
  next
    case 3
    from plain_ok[OF inv k l r ord tk] obtain t' where
      t': "rewrite_node k t = Inr t'" "built t M t' M k p (keys (Node l (k, v) r)) (Node l (k, v) r)" by blast
    have "rebal key l (k, v) r = Node l (k, v) r" using 3 hl by (simp add: rebal_def lt)
    moreover have "n_key n = k" using ainv_node[OF inv k(2)] by simp
    moreover have "\<not> bid_lt key x" "\<not> bid_gt key x" using cmp 3 by blast+
    ultimately show ?thesis using ck t' by (intro exI[of _ x] exI[of _ t'] exI[of _ M] exI[of _ p] exI[of _ k]) simp
  qed
qed

lemma rebalance_right_heavy:
  assumes inv: "ainv t M" and k: "k \<in> acached t" "M k = Some n" "n_value n = v" "n_pos n = p" "n_height n = height (Node l (k, v) r)"
    and l: "rep M (leftID n) (leftPos n) l" and r: "rep M (rightID n) (rightPos n) r"
    and ord: "ordered (Node l (k, v) r)" and h: "height (Node l (k, v) r) + 2 < 2 ^ 32"
    and tk: "tok (acached t) (amod t) l" "tok (acached t) (amod t) r"
    and hr: "height r > height l + 1" and rc: "reached key (acached t) r" and wf: "bid_wf key"
  shows "\<exists>c t' M' p' i'. child_key (rightID n) t = Inr c \<and>
    (if bid_gt key c then bindE (leftRotate k t) rotated
     else if bid_lt key c then rebalance_right k t
     else bindE (rewrite_node k t) (\<lambda>t3. Inr (t3, p, n_key n))) = Inr (t', p', i') \<and>
    built t M t' M' i' p' (keys (Node l (k, v) r)) (rebal key l (k, v) r)"
proof -
  obtain b x xv a where rt: "r = Node b (x, xv) a" using hr by (cases r) auto
  have xc: "x \<in> acached t" "roots a \<subseteq> acached t" "roots b \<subseteq> acached t" using rc by (auto simp: reached_def rt)
  have ck: "child_key (rightID n) t = Inr x" by (rule child_key_ok[OF inv r[unfolded rt] xc(1)])
  have h1: "height (Node l (k, v) (Node b (x, xv) a)) + 1 < 2 ^ 32" using h by (simp add: rt)
  have "x \<in> dom M" using rep_dom[OF r] by (simp add: rt)
  then have "bid_wf x" using ainv_node[OF inv] by (fastforce simp: node_ok_def node_wf_def)
  note cmp = bid_order_iff[OF wf this]
  consider "x < key" | "key < x" | "key = x" by fastforce
  then show ?thesis
  proof cases
    case 1
    from single_left_ok[OF inv k(1-3) r[unfolded rt] l ord[unfolded rt] xc(1,3) h1 tk(2)[unfolded rt] tk(1)] obtain t' M' p' where
      "bindE (leftRotate k t) rotated = Inr (t', p', x)"
      "built t M t' M' x p' (keys (Node l (k, v) (Node b (x, xv) a))) (Node (Node l (k, v) b) (x, xv) a)" by blast
    moreover have "rebal key l (k, v) r = Node (Node l (k, v) b) (x, xv) a" using 1 hr by (simp add: rebal_def rt)
    ultimately show ?thesis using ck 1 unfolding rt by (metis cmp(3))
  next
    case 2
    have "key \<in> keys b"
    proof -
      have "ordered r" by (rule ordered_NodeD(2)[OF ord])
      then have "key \<notin> keys a" using ordered_NodeD(4)[of b "(x, xv)" a key] 2 unfolding rt by (metis fst_conv order_less_asym)
      with rc 2 show ?thesis by (auto simp: reached_def rt)
    qed
    then obtain c z zv d where b: "b = Node c (z, zv) d" by (cases b) auto
    have zc: "z \<in> acached t" "roots c \<subseteq> acached t" "roots d \<subseteq> acached t" using rc 2 xc(3) by (auto simp: reached_def rt b)
    from double_right_ok[OF inv k(1-3) r[unfolded rt b] l ord[unfolded rt b] xc(1) zc h[unfolded rt b] tk(2)[unfolded rt b] tk(1)]
    obtain t' M' p' where "rebalance_right k t = Inr (t', p', z)"
      "built t M t' M' z p' (keys (Node l (k, v) (Node (Node c (z, zv) d) (x, xv) a))) (Node (Node l (k, v) c) (z, zv) (Node d (x, xv) a))" by blast
    moreover have "rebal key l (k, v) r = Node (Node l (k, v) c) (z, zv) (Node d (x, xv) a)" using 2 hr by (simp add: rebal_def rt b)
    moreover have "bid_lt key x" "\<not> bid_gt key x" using 2 by (simp_all add: cmp)
    ultimately show ?thesis using ck unfolding rt b by metis
  next
    case 3
    from plain_ok[OF inv k l r ord tk] obtain t' where
      t': "rewrite_node k t = Inr t'" "built t M t' M k p (keys (Node l (k, v) r)) (Node l (k, v) r)" by blast
    have "rebal key l (k, v) r = Node l (k, v) r" using 3 hr by (simp add: rebal_def rt)
    moreover have "n_key n = k" using ainv_node[OF inv k(2)] by simp
    moreover have "\<not> bid_lt key x" "\<not> bid_gt key x" using cmp 3 by blast+
    ultimately show ?thesis using ck t' by (intro exI[of _ x] exI[of _ t'] exI[of _ M] exI[of _ p] exI[of _ k]) simp
  qed
qed

lemma rebalance_ok:
  assumes inv: "ainv t M" and k: "k \<in> acached t" "M k = Some n" "n_value n = v" "n_pos n = p"
    and l: "rep M (leftID n) (leftPos n) l" and r: "rep M (rightID n) (rightPos n) r"
    and ord: "ordered (Node l (k, v) r)" and h: "height (Node l (k, v) r) + 2 < 2 ^ 32"
    and tk: "tok (acached t) (amod t) l" "tok (acached t) (amod t) r" and wf: "bid_wf key"
    and lh: "height l > height r + 1 \<Longrightarrow> key \<in> keys l \<and> pathc key (acached t) l"
    and rh: "height r > height l + 1 \<Longrightarrow> key \<in> keys r \<and> pathc key (acached t) r"
  shows "\<exists>t' M' p' i'. rebalance k p key t = Inr (t', p', i') \<and>
    built t M t' M' i' p' (keys (Node l (k, v) r)) (rebal key l (k, v) r) \<and> roots l \<union> roots r \<subseteq> acached t'"
proof -
  let ?n = "n\<lparr>n_height := height (Node l (k, v) r)\<rparr>"
  let ?M = "M(k \<mapsto> ?n)" and ?D = "keys (Node l (k, v) r)"
  from rebalance_start[OF inv k(1,2) l r ord h tk] obtain t1 t2 where
    t1: "set_height k t = Inr t1" and t2: "getBalance k t1 = Inr (t2, int (height l) - int (height r))" "get_node t2 k = Inr ?n"
      "moves t ?M t2 (roots l \<union> roots r)" "roots l \<union> roots r \<subseteq> acached t2" "tok (acached t2) (amod t2) l" "tok (acached t2) (amod t2) r"
    by blast
  have kn: "k \<notin> keys l" "k \<notin> keys r" using ordered_NodeD(5,6)[OF ord] by simp_all
  have i: "ainv t2 ?M" "k \<in> acached t2" by (rule moves_inv[OF t2(3)], rule moves_cached[OF t2(3) k(1)])
  have n: "?M k = Some ?n" "n_value ?n = v" "n_pos ?n = p" "n_height ?n = height (Node l (k, v) r)" using k(3,4) by simp_all
  have reps: "rep ?M (leftID ?n) (leftPos ?n) l" "rep ?M (rightID ?n) (rightPos ?n) r" using l r kn by (simp_all add: rep_upd)
  have mono: "pathc key (acached t2) u" if "pathc key (acached t) u" for u
    by (rule pathc_mono[OF that]) (use moves_cached[OF t2(3)] in blast)
  have "\<exists>t' M' p' i'. rebalance k p key t = Inr (t', p', i') \<and> built t2 ?M t' M' i' p' ?D (rebal key l (k, v) r)"
  proof -
    consider "height l > height r + 1" | "height r > height l + 1" | "height l \<le> height r + 1" "height r \<le> height l + 1" by linarith
    then show ?thesis
    proof cases
      case 1
      then have "reached key (acached t2) l" using lh t2(4) mono by (simp add: reached_def)
      from rebalance_left_heavy[OF i n reps ord h t2(5,6) 1 this wf] obtain c t' M' p' i' where
        c: "child_key (leftID ?n) t2 = Inr c" "(if bid_lt key c then bindE (rightRotate k t2) rotated else if bid_gt key c then rebalance_left k t2
          else bindE (rewrite_node k t2) (\<lambda>t3. Inr (t3, p, n_key ?n))) = Inr (t', p', i')"
          "built t2 ?M t' M' i' p' ?D (rebal key l (k, v) r)" by blast
      then have "rebalance k p key t = Inr (t', p', i')"
        using t1 t2(1,2) 1 by (simp add: rebalance_def split del: if_split cong: if_cong)
      with c(3) show ?thesis by blast
    next
      case 2
      then have "reached key (acached t2) r" using rh t2(4) mono by (simp add: reached_def)
      from rebalance_right_heavy[OF i n reps ord h t2(5,6) 2 this wf] obtain c t' M' p' i' where
        c: "child_key (rightID ?n) t2 = Inr c" "(if bid_gt key c then bindE (leftRotate k t2) rotated else if bid_lt key c then rebalance_right k t2
          else bindE (rewrite_node k t2) (\<lambda>t3. Inr (t3, p, n_key ?n))) = Inr (t', p', i')"
          "built t2 ?M t' M' i' p' ?D (rebal key l (k, v) r)" by blast
      then have "rebalance k p key t = Inr (t', p', i')"
        using t1 t2(1,2) 2 by (simp add: rebalance_def split del: if_split cong: if_cong)
      with c(3) show ?thesis by blast
    next
      case 3
      from plain_ok[OF i n reps ord t2(5,6)] obtain t' where
        "rewrite_node k t2 = Inr t'" "built t2 ?M t' ?M k p ?D (Node l (k, v) r)" by blast
      moreover have "n_key n = k" using ainv_node[OF inv k(2)] by simp
      ultimately show ?thesis using t1 t2(1,2) 3
        by (intro exI[of _ t'] exI[of _ ?M] exI[of _ p] exI[of _ k]) (simp add: rebalance_def rebal_none)
    qed
  qed
  then obtain t' M' p' i' where e: "rebalance k p key t = Inr (t', p', i')" and b: "built t2 ?M t' M' i' p' ?D (rebal key l (k, v) r)" by blast
  have "built t M t' M' i' p' ?D (rebal key l (k, v) r)"
  proof (rule built_trans[OF t2(3) b])
    show "roots l \<union> roots r \<subseteq> ?D" by (auto simp: image_Un dest: subsetD[OF roots_keys])
    show "?M j = M j" if "j \<notin> ?D" for j using that by simp
    show "dom ?M = dom M" using k(2) by auto
  qed
  moreover have "moves t2 M' t' ?D" using b by (simp add: built_def)
  then have "roots l \<union> roots r \<subseteq> acached t'" using t2(4) moves_cached by blast
  ultimately show ?thesis using e by blast
qed

section \<open>Insertion\<close>

text \<open>As \<open>moves\<close>, with \<open>d\<close> new nodes.\<close>

definition extends :: "'n::len avltree \<Rightarrow> ('n Bid \<Rightarrow> 'n node option) \<Rightarrow> 'n avltree \<Rightarrow> 'n Bid set \<Rightarrow> nat \<Rightarrow> bool" where
  "extends t M t' S d \<longleftrightarrow> ainv t' M \<and> grows (a_oram t) (a_oram t') \<and> amod t' \<subseteq> amod t \<union> S \<and> space t' + d = space t"

lemma extends_moves: "extends t M t' S d \<Longrightarrow> moves t' M' t'' S' \<Longrightarrow> S \<union> S' \<subseteq> S'' \<Longrightarrow> extends t M' t'' S'' d"
  by (auto simp: moves_def extends_def intro: grows_trans)

lemma moves_extends: "moves t M t' S \<Longrightarrow> extends t' M' t'' S' d \<Longrightarrow> S \<union> S' \<subseteq> S'' \<Longrightarrow> extends t M' t'' S'' d"
  by (auto simp: moves_def extends_def intro: grows_trans)

lemma extendsD:
  assumes "extends t M t' S d"
  shows "ainv t' M" "acached t \<subseteq> acached t'" "amod t' \<subseteq> amod t \<union> S" "adepth t' = adepth t"
  using assms by (auto simp: extends_def grows_def)

lemma extends_tok:
  assumes "extends t M t' S d" "tok (acached t) (amod t) u" "ordered u" "S \<inter> keys u = {}"
  shows "tok (acached t') (amod t') u"
  by (rule tok_mono[OF assms(2) extendsD(2,3)[OF assms(1)] _ assms(3)]) (simp add: assms(4))

text \<open>The node \<open>k\<close> gets the new root of a subtree and is rebalanced.\<close>

lemma climb_ok:
  assumes e: "extends t M2 t2 S d" and k: "k \<in> acached t2" "M2 k \<noteq> None"
    and n: "node_ok (a_oram t2) n" "n_key n = k" "n_value n = kv" "n_pos n = p"
    and l: "rep M2 (leftID n) (leftPos n) l" and r: "rep M2 (rightID n) (rightPos n) r"
    and ord: "ordered (Node l (k, kv) r)" and h: "height (Node l (k, kv) r) + 2 < 2 ^ 32"
    and tk: "tok (acached t2) (amod t2) l" "tok (acached t2) (amod t2) r" and wf: "bid_wf key"
    and lh: "height l > height r + 1 \<Longrightarrow> key \<in> keys l \<and> pathc key (acached t2) l"
    and rh: "height r > height l + 1 \<Longrightarrow> key \<in> keys r \<and> pathc key (acached t2) r"
    and S: "S \<subseteq> keys (Node l (k, kv) r)" and fr: "\<And>j. j \<notin> keys (Node l (k, kv) r) \<Longrightarrow> M2 j = M j"
  shows "\<exists>t' M' p' i'. rebalance k p key (put_node k n t2) = Inr (t', p', i') \<and>
    extends t M' t' (keys (Node l (k, kv) r)) d \<and> rep M' i' p' (rebal key l (k, kv) r) \<and>
    (\<forall>j. j \<notin> keys (Node l (k, kv) r) \<longrightarrow> M' j = M j) \<and> dom M' = dom M2 \<and>
    tok (acached t') (amod t') (rebal key l (k, kv) r) \<and> roots (rebal key l (k, kv) r) \<subseteq> acached t' \<and>
    roots l \<union> roots r \<subseteq> acached t' \<and> acached t2 \<subseteq> acached t'"
proof -
  let ?D = "keys (Node l (k, kv) r)" and ?M3 = "M2(k \<mapsto> n)" and ?t3 = "put_node k n t2"
  have p: "moves t2 ?M3 ?t3 {}" by (rule put_node_ok[OF extendsD(1)[OF e] k(1) n(1,2)])
  have kn: "k \<notin> keys l" "k \<notin> keys r" using ordered_NodeD(5,6)[OF ord] by simp_all
  have c3: "acached t2 \<subseteq> acached ?t3" using moves_cached[OF p] by blast
  have tk3: "tok (acached ?t3) (amod ?t3) l" "tok (acached ?t3) (amod ?t3) r"
    using moves_tok[OF p tk(1)] moves_tok[OF p tk(2)] ordered_NodeD(1,2)[OF ord] by simp_all
  have l3: "rep ?M3 (leftID n) (leftPos n) l" and r3: "rep ?M3 (rightID n) (rightPos n) r" using l r kn by (simp_all add: rep_upd)
  have "\<exists>t' M' p' i'. rebalance k p key ?t3 = Inr (t', p', i') \<and>
    built ?t3 ?M3 t' M' i' p' ?D (rebal key l (k, kv) r) \<and> roots l \<union> roots r \<subseteq> acached t'"
  proof (rule rebalance_ok[OF moves_inv[OF p] moves_cached[OF p k(1)] _ n(3,4) l3 r3 ord h tk3 wf])
    show "key \<in> keys l \<and> pathc key (acached ?t3) l" if "height r + 1 < height l" using lh[OF that] pathc_mono[OF _ c3] by blast
    show "key \<in> keys r \<and> pathc key (acached ?t3) r" if "height l + 1 < height r" using rh[OF that] pathc_mono[OF _ c3] by blast
  qed simp
  then obtain t' M' p' i' where t': "rebalance k p key ?t3 = Inr (t', p', i')" "roots l \<union> roots r \<subseteq> acached t'"
    and b: "moves ?t3 M' t' ?D" "rep M' i' p' (rebal key l (k, kv) r)" "\<forall>j. j \<notin> ?D \<longrightarrow> M' j = ?M3 j" "dom M' = dom ?M3"
      "tok (acached t') (amod t') (rebal key l (k, kv) r)" "roots (rebal key l (k, kv) r) \<subseteq> acached t'"
    unfolding built_def by blast
  have "extends t M' t' ?D d" by (rule extends_moves[OF extends_moves[OF e p order_refl] b(1)]) (use S in auto)
  moreover have "\<forall>j. j \<notin> ?D \<longrightarrow> M' j = M j" using b(3) fr by simp
  moreover have "dom M' = dom M2" using b(4) k(2) by auto
  moreover have "acached t2 \<subseteq> acached t'" using c3 moves_cached[OF b(1)] by blast
  ultimately show ?thesis using t' b(2,5,6) by blast
qed

end
