(* ===== verification/AvlOps.thy ===== *)
theory AvlOps
  imports AvlInsert
begin

text \<open>
  The operations of the search tree in the ORAM: insertion refines \<open>ins\<close>, search and batch search find what the
  functional tree holds. The depth of the recursion is at most the height of the tree.
\<close>

section \<open>Insertion\<close>

definition put_ok :: "'n::len avltree \<Rightarrow> ('n Bid \<Rightarrow> 'n node option) \<Rightarrow> 'n avltree \<Rightarrow> ('n Bid \<Rightarrow> 'n node option) \<Rightarrow> 'n Bid \<Rightarrow> nat \<Rightarrow> 'n Bid \<Rightarrow> bytes \<Rightarrow> 'n btree \<Rightarrow> bool" where
  "put_ok t M t' M' i p key v tr \<longleftrightarrow>
     extends t M' t' (insert key (keys tr)) (if key \<in> keys tr then 0 else 1) \<and> rep M' i p (ins key v tr) \<and>
     (\<forall>j. j \<notin> insert key (keys tr) \<longrightarrow> M' j = M j) \<and> dom M' = insert key (dom M) \<and>
     tok (acached t') (amod t') (ins key v tr) \<and> roots (ins key v tr) \<subseteq> acached t' \<and>
     (height (ins key v tr) \<noteq> height tr \<longrightarrow> pathc key (acached t') (ins key v tr))"

lemma write_new_ok:
  assumes "ainv t M" "M k = None" "node_ok (a_oram t) n" "n_key n = k" "0 < space t"
  shows "\<exists>t'. write_node k n t = Inr (t', n_pos n) \<and> extends t (M(k \<mapsto> n)) t' {k} 1 \<and> k \<in> acached t'"
proof -
  from WriteNode_new[OF ainv_op[OF assms(1)] assms(2-5)] obtain s where
    s: "WriteNode k n (a_oram t) = Inr (s, n_pos n)" "op_inv s (M(k \<mapsto> n))" "grows (a_oram t) s" "k \<in> cached s"
      "modified s = insert k (modified (a_oram t))" "emptyNodes (o_store s) = space t - 1" by blast
  then show ?thesis using assms(1,5)
    by (intro exI[of _ "t\<lparr>a_oram := s\<rparr>"]) (auto simp: write_node_def extends_def ainv_def grows_def)
qed

lemma insert_leaf_ok:
  assumes inv: "ainv t M" and i: "bid_eq_int i 0" and key: "bid_wf key" "\<not> bid_eq_int key 0" "M key = None" "0 < space t"
    and v: "length str \<le> 16"
  shows "\<exists>t' M' p' i'. avl_insert (Suc f) i p key str t = Inr (t', p', i') \<and> put_ok t M t' M' i' p' key (pad_value str) Leaf"
proof -
  obtain q t1 where r: "avl_RandomPath t = (q, t1)" by fastforce
  have m: "moves t M t1 {}" "q < 2 ^ adepth t" using RandomPath_moves[OF inv] by (simp_all add: r)
  let ?n = "\<lparr>n_key = key, n_value = pad_value str, n_pos = q, leftID = bid_assign_int 0, leftPos = 0,
              rightID = bid_assign_int 0, rightPos = 0, n_height = 1\<rparr>"
  have nn: "newNode key str t = Inr (t1, ?n)" by (simp add: newNode_def copy_value[OF v] r)
  have "q < 2 ^ 32" using m(2) depth_bound[OF inv] by linarith
  moreover have "length (pad_value str) = 16" using v by (simp add: pad_value_def str_bytes_def)
  moreover have z: "bid_eq_int (bid_assign_int 0) 0" by (simp add: dummy_id)
  ultimately have "node_ok (a_oram t1) ?n" using key m moves_depth[OF m(1)] by (simp add: node_ok_def node_wf_def)
  from write_new_ok[OF moves_inv[OF m(1)] key(3) this] key(4) m(1) obtain t2 where
    t2: "write_node key ?n t1 = Inr (t2, q)" "extends t1 (M(key \<mapsto> ?n)) t2 {key} 1" "key \<in> acached t2"
    by (auto simp: moves_def)
  have "put_ok t M t2 (M(key \<mapsto> ?n)) key q key (pad_value str) Leaf"
    using moves_extends[OF m(1) t2(2), of "{key}"] t2(3) z by (simp add: put_ok_def)
  moreover have "avl_insert (Suc f) i p key str t = Inr (t2, q, key)" using i nn t2(1) by simp
  ultimately show ?thesis by blast
qed

lemma insert_same_ok:
  assumes inv: "ainv t M" and rp: "rep M k p (Node l (k, kv) r)" and ord: "ordered (Node l (k, kv) r)"
    and tk: "tok (acached t) (amod t) (Node l (k, kv) r)" and wf: "bid_wf k" and v: "length str \<le> 16"
  shows "\<exists>t' M' p' i'. avl_insert (Suc f) k p k str t = Inr (t', p', i') \<and> put_ok t M t' M' i' p' k (pad_value str) (Node l (k, kv) r)"
proof -
  obtain n where n: "M k = Some n" "n_value n = kv" "n_pos n = p" "n_height n = height (Node l (k, kv) r)"
    and lr: "rep M (leftID n) (leftPos n) l" "rep M (rightID n) (rightPos n) r" using rp by auto
  from read_node_ok[OF inv n(1,3)] obtain t1 where
    t1: "read_node k p t = Inr (t1, Some k)" "moves t M t1 {k}" "k \<in> acached t1" by blast
  note i1 = moves_inv[OF t1(2)]
  have ok: "node_ok (a_oram t1) n" "n_key n = k" using ainv_node[OF i1 n(1)] by simp_all
  let ?n = "n\<lparr>n_value := pad_value str\<rparr>" and ?T = "Node l (k, kv) r"
  have "length (pad_value str) = 16" using v by (simp add: pad_value_def str_bytes_def)
  then have "node_ok (a_oram t1) ?n" using ok by (simp add: node_ok_def node_wf_def)
  then have p: "moves t1 (M(k \<mapsto> ?n)) (put_node k ?n t1) {}" using ok(2) by (intro put_node_ok[OF i1 t1(3)]) simp_all
  note i2 = moves_inv[OF p]
  have c2: "k \<in> acached (put_node k ?n t1)" by (rule moves_cached[OF p t1(3)])
  have g2: "get_node (put_node k ?n t1) k = Inr ?n" by (rule get_node_ok[OF i2 c2]) simp
  from rewrite_node_ok[OF i2 c2] obtain t3 where
    t3: "rewrite_node k (put_node k ?n t1) = Inr t3" "moves (put_node k ?n t1) (M(k \<mapsto> ?n)) t3 {k}" by blast
  have "set_value k k n str t1 = Inr t3" using t3(1) g2 by (simp add: set_value_def copy_value[OF v] rewrite_node_def)
  moreover have "\<not> bid_eq_int k 0" by (rule not_null[OF ainv_op[OF inv] n(1)])
  moreover have "\<not> bid_lt k k" "\<not> bid_gt k k" using bid_order_iff[OF wf wf] by simp_all
  ultimately have e: "avl_insert (Suc f) k p k str t = Inr (t3, p, k)"
    using t1(1) get_node_ok[OF i1 t1(3) n(1)] ok(2) by simp
  have m: "moves t (M(k \<mapsto> ?n)) t3 {k}"
    by (rule moves_trans[OF moves_trans[OF t1(2) p order_refl] t3(2)]) simp
  have kn: "k \<notin> keys l" "k \<notin> keys r" using ordered_NodeD(5,6)[OF ord] by simp_all
  have "rep (M(k \<mapsto> ?n)) k p (Node l (k, pad_value str) r)"
    by (rule rep_NodeI[where n = ?n]) (use n lr kn in \<open>simp_all add: rep_upd\<close>)
  moreover have "tok (acached t3) (amod t3) (Node l (k, pad_value str) r)"
  proof -
    have "tok (acached t3) (amod t3) ?T" by (rule moves_tok[OF m tk _ ord]) simp
    then show ?thesis by simp
  qed
  moreover have "extends t (M(k \<mapsto> ?n)) t3 (insert k (keys ?T)) 0"
    using m by (auto simp: moves_def extends_def)
  moreover have "k \<in> acached t3" by (rule moves_cached[OF t3(2) c2])
  moreover have "dom (M(k \<mapsto> ?n)) = insert k (dom M)" by auto
  ultimately have "put_ok t M t3 (M(k \<mapsto> ?n)) k p k (pad_value str) ?T"
    by (simp add: put_ok_def del: rep.simps tok.simps)
  with e show ?thesis by blast
qed

lemma rep_wf:
  assumes "ainv t M" "rep M i p T" "T \<noteq> Leaf"
  shows "bid_wf i" "p < 2 ^ 32"
proof -
  obtain l x r where "T = Node l x r" using assms(3) by (cases T) simp_all
  then obtain n where n: "M i = Some n" "n_pos n = p" using assms(2) by auto
  from ainv_node[OF assms(1) n(1)] n(2) show "bid_wf i" "p < 2 ^ 32" by (auto simp: node_ok_def node_wf_def)
qed

lemma ins_not_Leaf: "ordered t \<Longrightarrow> ins k v t \<noteq> Leaf"
  using keys_ins[of t k v] by auto

lemma insert_left_ok:
  assumes inv: "ainv t M" and rp: "rep M k p (Node l (k, kv) r)" and ord: "ordered (Node l (k, kv) r)" and av: "avl (Node l (k, kv) r)"
    and tk: "tok (acached t) (amod t) (Node l (k, kv) r)" and wf: "bid_wf key" and h: "height (Node l (k, kv) r) + 3 < 2 ^ 32"
    and lt: "key < k"
    and IH: "\<And>t1 i p. ainv t1 M \<Longrightarrow> rep M i p l \<Longrightarrow> tok (acached t1) (amod t1) l \<Longrightarrow> space t1 = space t \<Longrightarrow>
      \<exists>t' M' p' i'. avl_insert f i p key str t1 = Inr (t', p', i') \<and> put_ok t1 M t' M' i' p' key v l"
  shows "\<exists>t' M' p' i'. avl_insert (Suc f) k p key str t = Inr (t', p', i') \<and> put_ok t M t' M' i' p' key v (Node l (k, kv) r)"
proof -
  obtain n where n: "M k = Some n" "n_value n = kv" "n_pos n = p"
    and lr: "rep M (leftID n) (leftPos n) l" "rep M (rightID n) (rightPos n) r" using rp by auto
  note o = ordered_NodeD[OF ord, simplified fst_conv]
  from read_node_ok[OF inv n(1,3)] obtain t1 where
    t1: "read_node k p t = Inr (t1, Some k)" "moves t M t1 {k}" "k \<in> acached t1" by blast
  note i1 = moves_inv[OF t1(2)]
  have nk: "n_key n = k" "bid_wf k" using ainv_node[OF i1 n(1)] by (auto simp: node_ok_def node_wf_def)
  have "tok (acached t1) (amod t1) l" by (rule moves_tok[OF t1(2) _ _ o(1)]) (use tk o(5) in auto)
  from IH[OF i1 lr(1) this] t1(2) obtain t2 M2 lp lid where
    t2: "avl_insert f (leftID n) (leftPos n) key str t1 = Inr (t2, lp, lid)" and po: "put_ok t1 M t2 M2 lid lp key v l"
    by (auto simp: moves_def)
  let ?l = "ins key v l" and ?d = "if key \<in> keys l then 0 else 1"
  have e2: "extends t1 M2 t2 (insert key (keys l)) ?d" and r2: "rep M2 lid lp ?l" and f2: "\<And>j. j \<notin> insert key (keys l) \<Longrightarrow> M2 j = M j"
    and d2: "dom M2 = insert key (dom M)" and tk2: "tok (acached t2) (amod t2) ?l"
    and pc: "height ?l \<noteq> height l \<Longrightarrow> pathc key (acached t2) ?l" using po by (simp_all add: put_ok_def)
  have k2: "k \<in> acached t2" using extendsD(2)[OF e2] t1(3) by blast
  have M2k: "M2 k = Some n" using f2[of k] lt o(5) n(1) by simp
  note i2 = extendsD(1)[OF e2]
  have e: "extends t M2 t2 (insert k (insert key (keys l))) ?d" by (rule moves_extends[OF t1(2) e2]) auto
  have kr: "key \<notin> keys r" using o(4) lt by (meson order_less_asym)
  then have ap: "insert k (insert key (keys l)) \<inter> keys r = {}" using o(6,7) by simp
  have tr: "tok (acached t2) (amod t2) r" by (rule extends_tok[OF e _ o(2) ap]) (use tk in simp)
  let ?n = "n\<lparr>leftID := lid, leftPos := lp\<rparr>"
  have ok: "node_ok (a_oram t2) ?n"
    using ainv_node[OF i2 M2k] rep_wf[OF i2 r2 ins_not_Leaf[OF o(1)]] by (auto simp: node_ok_def node_wf_def)
  have rr: "rep M2 (rightID n) (rightPos n) r" using rep_cong[of r M2 M] f2 ap lr(2) by (metis disjoint_iff insertCI)
  have K: "keys (Node ?l (k, kv) r) = insert key (keys (Node l (k, kv) r))" using keys_ins[OF o(1)] by (auto simp: image_Un)
  have T: "rebal key ?l (k, kv) r = ins key v (Node l (k, kv) r)" using lt by simp
  have ordn: "ordered (Node ?l (k, kv) r)" using ordered_ins[OF ord, of key v] T[symmetric] by (simp add: inorder_rebal)
  have hl: "height ?l = height l \<or> height ?l = height l + 1" using av by (intro ins_height) simp
  have "\<exists>t' M' p' i'. rebalance k p key (put_node k ?n t2) = Inr (t', p', i') \<and>
    extends t M' t' (keys (Node ?l (k, kv) r)) ?d \<and> rep M' i' p' (rebal key ?l (k, kv) r) \<and>
    (\<forall>j. j \<notin> keys (Node ?l (k, kv) r) \<longrightarrow> M' j = M j) \<and> dom M' = dom M2 \<and>
    tok (acached t') (amod t') (rebal key ?l (k, kv) r) \<and> roots (rebal key ?l (k, kv) r) \<subseteq> acached t' \<and>
    roots ?l \<union> roots r \<subseteq> acached t' \<and> acached t2 \<subseteq> acached t'"
  proof (rule climb_ok[OF e k2 _ ok _ _ _ _ _ ordn _ tk2 tr wf])
    show "height (Node ?l (k, kv) r) + 2 < 2 ^ 32" using h hl by auto
    show "key \<in> keys ?l \<and> pathc key (acached t2) ?l" if "height r + 1 < height ?l"
      using that av pc keys_ins[OF o(1)] by force
    show "key \<in> keys r \<and> pathc key (acached t2) r" if "height ?l + 1 < height r" using that av hl by simp
    show "insert k (insert key (keys l)) \<subseteq> keys (Node ?l (k, kv) r)" unfolding K by (auto simp: image_Un)
    show "M2 j = M j" if "j \<notin> keys (Node ?l (k, kv) r)" for j using that f2 unfolding K by (auto simp: image_Un)
  qed (use M2k nk n r2 rr in simp_all)
  then obtain t' M' p' i' where t': "rebalance k p key (put_node k ?n t2) = Inr (t', p', i')"
    "extends t M' t' (insert key (keys (Node l (k, kv) r))) ?d" "rep M' i' p' (ins key v (Node l (k, kv) r))"
    "\<forall>j. j \<notin> insert key (keys (Node l (k, kv) r)) \<longrightarrow> M' j = M j" "dom M' = dom M2"
    "tok (acached t') (amod t') (ins key v (Node l (k, kv) r))" "roots (ins key v (Node l (k, kv) r)) \<subseteq> acached t'"
    and c': "roots ?l \<union> roots r \<subseteq> acached t'" "acached t2 \<subseteq> acached t'"
    unfolding K T by blast
  have kk: "key \<in> keys (Node l (k, kv) r) \<longleftrightarrow> key \<in> keys l" using lt kr by (auto simp: image_Un)
  have pn: "pathc key (acached t') (ins key v (Node l (k, kv) r))"
    if "height (ins key v (Node l (k, kv) r)) \<noteq> height (Node l (k, kv) r)"
    using ins_grow_left[OF av _ that] lt less_not_sym[OF lt] c' pathc_mono[OF pc c'(2)] by simp
  have "put_ok t M t' M' i' p' key v (Node l (k, kv) r)"
    unfolding put_ok_def kk d2[symmetric] by (intro conjI impI t'(2-7) pn)
  moreover have "avl_insert (Suc f) k p key str t = Inr (t', p', i')"
    using not_null[OF ainv_op[OF inv] n(1)] t1(1) get_node_ok[OF i1 t1(3) n(1)] t2 get_node_ok[OF i2 k2 M2k] t'(1)
      bid_order_iff[OF wf nk(2)] lt nk(1) by simp
  ultimately show ?thesis by blast
qed

lemma insert_right_ok:
  assumes inv: "ainv t M" and rp: "rep M k p (Node l (k, kv) r)" and ord: "ordered (Node l (k, kv) r)" and av: "avl (Node l (k, kv) r)"
    and tk: "tok (acached t) (amod t) (Node l (k, kv) r)" and wf: "bid_wf key" and h: "height (Node l (k, kv) r) + 3 < 2 ^ 32"
    and gt: "k < key"
    and IH: "\<And>t1 i p. ainv t1 M \<Longrightarrow> rep M i p r \<Longrightarrow> tok (acached t1) (amod t1) r \<Longrightarrow> space t1 = space t \<Longrightarrow>
      \<exists>t' M' p' i'. avl_insert f i p key str t1 = Inr (t', p', i') \<and> put_ok t1 M t' M' i' p' key v r"
  shows "\<exists>t' M' p' i'. avl_insert (Suc f) k p key str t = Inr (t', p', i') \<and> put_ok t M t' M' i' p' key v (Node l (k, kv) r)"
proof -
  obtain n where n: "M k = Some n" "n_value n = kv" "n_pos n = p"
    and lr: "rep M (leftID n) (leftPos n) l" "rep M (rightID n) (rightPos n) r" using rp by auto
  note o = ordered_NodeD[OF ord, simplified fst_conv]
  from read_node_ok[OF inv n(1,3)] obtain t1 where
    t1: "read_node k p t = Inr (t1, Some k)" "moves t M t1 {k}" "k \<in> acached t1" by blast
  note i1 = moves_inv[OF t1(2)]
  have nk: "n_key n = k" "bid_wf k" using ainv_node[OF i1 n(1)] by (auto simp: node_ok_def node_wf_def)
  have "tok (acached t1) (amod t1) r" by (rule moves_tok[OF t1(2) _ _ o(2)]) (use tk o(6) in auto)
  from IH[OF i1 lr(2) this] t1(2) obtain t2 M2 q rid where
    t2: "avl_insert f (rightID n) (rightPos n) key str t1 = Inr (t2, q, rid)" and po: "put_ok t1 M t2 M2 rid q key v r"
    by (auto simp: moves_def)
  let ?r = "ins key v r" and ?d = "if key \<in> keys r then 0 else 1"
  have e2: "extends t1 M2 t2 (insert key (keys r)) ?d" and r2: "rep M2 rid q ?r" and f2: "\<And>j. j \<notin> insert key (keys r) \<Longrightarrow> M2 j = M j"
    and d2: "dom M2 = insert key (dom M)" and tk2: "tok (acached t2) (amod t2) ?r"
    and pc: "height ?r \<noteq> height r \<Longrightarrow> pathc key (acached t2) ?r" using po by (simp_all add: put_ok_def)
  have k2: "k \<in> acached t2" using extendsD(2)[OF e2] t1(3) by blast
  have M2k: "M2 k = Some n" using f2[of k] gt o(6) n(1) by simp
  note i2 = extendsD(1)[OF e2]
  have e: "extends t M2 t2 (insert k (insert key (keys r))) ?d" by (rule moves_extends[OF t1(2) e2]) auto
  have kl: "key \<notin> keys l" using o(3) gt by (meson order_less_asym)
  then have ap: "insert k (insert key (keys r)) \<inter> keys l = {}" using o(5,7) by (simp add: Int_commute)
  have tl: "tok (acached t2) (amod t2) l" by (rule extends_tok[OF e _ o(1) ap]) (use tk in simp)
  let ?n = "n\<lparr>rightID := rid, rightPos := q\<rparr>"
  have ok: "node_ok (a_oram t2) ?n"
    using ainv_node[OF i2 M2k] rep_wf[OF i2 r2 ins_not_Leaf[OF o(2)]] by (auto simp: node_ok_def node_wf_def)
  have rl: "rep M2 (leftID n) (leftPos n) l" using rep_cong[of l M2 M] f2 ap lr(1) by (metis disjoint_iff insertCI)
  have K: "keys (Node l (k, kv) ?r) = insert key (keys (Node l (k, kv) r))" using keys_ins[OF o(2)] by (auto simp: image_Un)
  have T: "rebal key l (k, kv) ?r = ins key v (Node l (k, kv) r)" using gt less_not_sym[OF gt] by simp
  have ordn: "ordered (Node l (k, kv) ?r)" using ordered_ins[OF ord, of key v] T[symmetric] by (simp add: inorder_rebal)
  have hr: "height ?r = height r \<or> height ?r = height r + 1" using av by (intro ins_height) simp
  have "\<exists>t' M' p' i'. rebalance k p key (put_node k ?n t2) = Inr (t', p', i') \<and>
    extends t M' t' (keys (Node l (k, kv) ?r)) ?d \<and> rep M' i' p' (rebal key l (k, kv) ?r) \<and>
    (\<forall>j. j \<notin> keys (Node l (k, kv) ?r) \<longrightarrow> M' j = M j) \<and> dom M' = dom M2 \<and>
    tok (acached t') (amod t') (rebal key l (k, kv) ?r) \<and> roots (rebal key l (k, kv) ?r) \<subseteq> acached t' \<and>
    roots l \<union> roots ?r \<subseteq> acached t' \<and> acached t2 \<subseteq> acached t'"
  proof (rule climb_ok[OF e k2 _ ok _ _ _ _ _ ordn _ tl tk2 wf])
    show "height (Node l (k, kv) ?r) + 2 < 2 ^ 32" using h hr by auto
    show "key \<in> keys ?r \<and> pathc key (acached t2) ?r" if "height l + 1 < height ?r"
      using that av pc keys_ins[OF o(2)] by force
    show "key \<in> keys l \<and> pathc key (acached t2) l" if "height ?r + 1 < height l" using that av hr by simp
    show "insert k (insert key (keys r)) \<subseteq> keys (Node l (k, kv) ?r)" unfolding K by (auto simp: image_Un)
    show "M2 j = M j" if "j \<notin> keys (Node l (k, kv) ?r)" for j using that f2 unfolding K by (auto simp: image_Un)
  qed (use M2k nk n r2 rl in simp_all)
  then obtain t' M' p' i' where t': "rebalance k p key (put_node k ?n t2) = Inr (t', p', i')"
    "extends t M' t' (insert key (keys (Node l (k, kv) r))) ?d" "rep M' i' p' (ins key v (Node l (k, kv) r))"
    "\<forall>j. j \<notin> insert key (keys (Node l (k, kv) r)) \<longrightarrow> M' j = M j" "dom M' = dom M2"
    "tok (acached t') (amod t') (ins key v (Node l (k, kv) r))" "roots (ins key v (Node l (k, kv) r)) \<subseteq> acached t'"
    and c': "roots l \<union> roots ?r \<subseteq> acached t'" "acached t2 \<subseteq> acached t'"
    unfolding K T by blast
  have kk: "key \<in> keys (Node l (k, kv) r) \<longleftrightarrow> key \<in> keys r" using gt kl by (auto simp: image_Un)
  have pn: "pathc key (acached t') (ins key v (Node l (k, kv) r))"
    if "height (ins key v (Node l (k, kv) r)) \<noteq> height (Node l (k, kv) r)"
    using ins_grow_right[OF av _ that] gt less_not_sym[OF gt] c' pathc_mono[OF pc c'(2)] by simp
  have "put_ok t M t' M' i' p' key v (Node l (k, kv) r)"
    unfolding put_ok_def kk d2[symmetric] by (intro conjI impI t'(2-7) pn)
  moreover have "avl_insert (Suc f) k p key str t = Inr (t', p', i')"
    using not_null[OF ainv_op[OF inv] n(1)] t1(1) get_node_ok[OF i1 t1(3) n(1)] t2 get_node_ok[OF i2 k2 M2k] t'(1)
      bid_order_iff[OF wf nk(2)] gt less_not_sym[OF gt] nk(1) by simp
  ultimately show ?thesis by blast
qed

lemma avl_insert_ok:
  assumes "ainv t M" "rep M i p tr" "ordered tr" "avl tr" "tok (acached t) (amod t) tr" "bid_wf key" "\<not> bid_eq_int key 0"
    and "height tr < f" "height tr + 3 < 2 ^ 32" "length str \<le> 16" "key \<notin> keys tr \<Longrightarrow> M key = None \<and> 0 < space t"
  shows "\<exists>t' M' p' i'. avl_insert f i p key str t = Inr (t', p', i') \<and> put_ok t M t' M' i' p' key (pad_value str) tr"
  using assms
proof (induction tr arbitrary: t i p f)
  case Leaf
  then obtain g where "f = Suc g" by (cases f) simp_all
  with Leaf show ?case using insert_leaf_ok[of t M i key str g p] by simp
next
  case (Node l x r)
  obtain k kv where x: "x = (k, kv)" by fastforce
  obtain g where f: "f = Suc g" "height l < g" "height r < g" using Node.prems(8) by (cases f) auto
  have i: "i = k" using Node.prems(2) x by simp
  note P = Node.prems[unfolded x i]
  note o = ordered_NodeD[OF P(3), simplified fst_conv]
  consider "key < k" | "k < key" | "key = k" by fastforce
  then show ?case
  proof cases
    case 1
    have sp: "M key = None \<and> 0 < space t" if "key \<notin> keys l"
    proof (rule P(11))
      have "key \<notin> keys r" using 1 o(4) by (meson order_less_asym)
      with that 1 show "key \<notin> keys (Node l (k, kv) r)" by (simp add: image_Un)
    qed
    have "\<exists>t' M' p' i'. avl_insert (Suc g) k p key str t = Inr (t', p', i') \<and> put_ok t M t' M' i' p' key (pad_value str) (Node l (k, kv) r)"
    proof (rule insert_left_ok[OF P(1-6) P(9) 1])
      fix t1 i p assume "ainv t1 M" "rep M i p l" "tok (acached t1) (amod t1) l" "space t1 = space t"
      then show "\<exists>t' M' p' i'. avl_insert g i p key str t1 = Inr (t', p', i') \<and> put_ok t1 M t' M' i' p' key (pad_value str) l"
        using Node.IH(1)[of t1 i p g] o(1) P(4,6,7,9,10) f(2) sp by simp
    qed
    then show ?thesis by (simp only: x i f(1))
  next
    case 2
    have sp: "M key = None \<and> 0 < space t" if "key \<notin> keys r"
    proof (rule P(11))
      have "key \<notin> keys l" using 2 o(3) by (meson order_less_asym)
      with that 2 show "key \<notin> keys (Node l (k, kv) r)" by (simp add: image_Un)
    qed
    have "\<exists>t' M' p' i'. avl_insert (Suc g) k p key str t = Inr (t', p', i') \<and> put_ok t M t' M' i' p' key (pad_value str) (Node l (k, kv) r)"
    proof (rule insert_right_ok[OF P(1-6) P(9) 2])
      fix t1 i p assume "ainv t1 M" "rep M i p r" "tok (acached t1) (amod t1) r" "space t1 = space t"
      then show "\<exists>t' M' p' i'. avl_insert g i p key str t1 = Inr (t', p', i') \<and> put_ok t1 M t' M' i' p' key (pad_value str) r"
        using Node.IH(2)[of t1 i p g] o(2) P(4,6,7,9,10) f(3) sp by simp
    qed
    then show ?thesis by (simp only: x i f(1))
  next
    case 3
    with insert_same_ok[OF P(1,2,3,5) _ P(10)] P(6) show ?thesis by (simp only: x i f(1))
  qed
qed

section \<open>Search\<close>

definition head :: "'n::len btree \<Rightarrow> 'n Bid \<Rightarrow> nat \<Rightarrow> ('n Bid \<times> nat) option" where
  "head tr i p = (if tr = Leaf then None else Some (i, p))"

lemma child_head_ok:
  assumes "ainv t M" "rep M c q u"
  shows "\<exists>t' b. read_node c q t = Inr (t', b) \<and> head_of t' b = Inr (head u c q) \<and> moves t M t' (roots u)"
proof (cases u)
  case Leaf
  then have "read_node c q t = Inr (t, None)" using assms(2) by (simp add: read_node_def ReadNode_def)
  then show ?thesis using moves_refl[OF assms(1)] Leaf by (simp add: head_of_def head_def)
next
  case (Node l x r)
  then obtain n where n: "M c = Some n" "n_pos n = q" "c = fst x" using assms(2) by auto
  from read_node_ok[OF assms(1) n(1,2)] obtain t' where
    t': "read_node c q t = Inr (t', Some c)" "moves t M t' {c}" "c \<in> acached t'" by blast
  then have "head_of t' (Some c) = Inr (Some (c, q))"
    using get_node_ok[OF moves_inv[OF t'(2)] t'(3) n(1)] ainv_node[OF assms(1) n(1)] n(2) by (simp add: head_of_def)
  then show ?thesis using t' n(3) Node by (simp add: head_def)
qed

text \<open>The first step of a search at a node, and what it leaves for the subtrees.\<close>

lemma visit_ok:
  assumes inv: "ainv t M" and rp: "rep M k p (Node l (k, kv) r)" and ord: "ordered (Node l (k, kv) r)"
    and tk: "tok (acached t) (amod t) (Node l (k, kv) r)"
  shows "\<exists>t1 n. \<not> bid_eq_int k 0 \<and> read_node k p t = Inr (t1, Some k) \<and> get_node t1 k = Inr n \<and> moves t M t1 {k} \<and> k \<in> acached t1 \<and>
    M k = Some n \<and> n_key n = k \<and> n_value n = kv \<and> bid_wf k \<and> rep M (leftID n) (leftPos n) l \<and> rep M (rightID n) (rightPos n) r \<and>
    tok (acached t1) (amod t1) l \<and> tok (acached t1) (amod t1) r"
proof -
  obtain n where n: "M k = Some n" "n_value n = kv" "n_pos n = p"
    and lr: "rep M (leftID n) (leftPos n) l" "rep M (rightID n) (rightPos n) r" using rp by auto
  note o = ordered_NodeD[OF ord, simplified fst_conv]
  from read_node_ok[OF inv n(1,3)] obtain t1 where
    t1: "read_node k p t = Inr (t1, Some k)" "moves t M t1 {k}" "k \<in> acached t1" by blast
  note i1 = moves_inv[OF t1(2)]
  have "tok (acached t1) (amod t1) l" by (rule moves_tok[OF t1(2) _ _ o(1)]) (use tk o(5) in auto)
  moreover have "tok (acached t1) (amod t1) r" by (rule moves_tok[OF t1(2) _ _ o(2)]) (use tk o(6) in auto)
  moreover have "n_key n = k" "bid_wf k" using ainv_node[OF i1 n(1)] by (auto simp: node_ok_def node_wf_def)
  ultimately show ?thesis
    using t1 n lr get_node_ok[OF i1 t1(3) n(1)] not_null[OF ainv_op[OF inv] n(1)] by blast
qed

text \<open>After a search in a subtree the marks are still below cached nodes.\<close>

lemma tok_subtree:
  assumes "moves t M t' (keys l)" "tok (acached t) (amod t) r" "ordered (Node l x r) \<or> ordered (Node r x l)"
  shows "tok (acached t') (amod t') r"
proof (rule tok_apart[OF assms(1,2), of "keys l"])
  show "ordered r" using assms(3) ordered_NodeD(1,2) by blast
  show "keys l \<inter> keys r = {}" using assms(3) ordered_NodeD(7) by (metis Int_commute)
qed simp

definition found :: "'n::len avltree \<Rightarrow> ('n Bid \<Rightarrow> 'n node option) \<Rightarrow> 'n avltree \<Rightarrow> 'n btree \<Rightarrow> bool" where
  "found t M t' tr \<longleftrightarrow> moves t M t' (keys tr) \<and> tok (acached t') (amod t') tr \<and> roots tr \<subseteq> acached t'"

lemma found_down:
  assumes "moves t M t1 {k}" "k \<in> acached t1" "moves t1 M t2 (roots u)" "moves t2 M t3 (keys u)" "tok (acached t3) (amod t3) u"
    "tok (acached t1) (amod t1) w" "ordered (Node u (k, kv) w) \<or> ordered (Node w (k, kv) u)"
  shows "moves t M t3 (insert k (keys u \<union> keys w))" "tok (acached t3) (amod t3) w" "k \<in> acached t3"
proof -
  have m: "moves t1 M t3 (keys u)" by (rule moves_trans[OF assms(3,4)]) (simp add: roots_keys)
  show "moves t M t3 (insert k (keys u \<union> keys w))" by (rule moves_trans[OF assms(1) m]) auto
  show "tok (acached t3) (amod t3) w" by (rule tok_subtree[OF m assms(6,7)])
  show "k \<in> acached t3" by (rule moves_cached[OF m assms(2)])
qed

lemma avl_search_ok:
  assumes "ainv t M" "rep M i p tr" "ordered tr" "tok (acached t) (amod t) tr" "bid_wf key" "height tr < f"
  shows "\<exists>t' res. avl_search f (head tr i p) key t = Inr (t', res) \<and> found t M t' tr \<and>
    map_option n_value res = lookup tr key"
  using assms
proof (induction tr arbitrary: t i p f)
  case Leaf
  then obtain g where "f = Suc g" by (cases f) simp_all
  then show ?case using moves_refl[OF Leaf.prems(1)] by (simp add: head_def found_def)
next
  case (Node l x r)
  obtain k kv where x: "x = (k, kv)" by fastforce
  obtain g where f: "f = Suc g" "height l < g" "height r < g" using Node.prems(6) by (cases f) auto
  have i: "i = k" using Node.prems(2) x by simp
  note P = Node.prems[unfolded x i]
  note o = ordered_NodeD[OF P(3), simplified fst_conv]
  from visit_ok[OF P(1-4)] obtain t1 n where v: "\<not> bid_eq_int k 0" "read_node k p t = Inr (t1, Some k)" "get_node t1 k = Inr n"
    "moves t M t1 {k}" "k \<in> acached t1" "M k = Some n" "n_key n = k" "n_value n = kv" "bid_wf k"
    "rep M (leftID n) (leftPos n) l" "rep M (rightID n) (rightPos n) r"
    "tok (acached t1) (amod t1) l" "tok (acached t1) (amod t1) r" by blast
  note i1 = moves_inv[OF v(4)] and cmp = bid_order_iff[OF v(9) P(5)]
  have hd: "head (Node l x r) i p = Some (k, p)" by (simp add: head_def i)
  consider "key < k" | "k < key" | "key = k" by fastforce
  then show ?case
  proof cases
    case 1
    from child_head_ok[OF i1 v(10)] obtain t2 b where
      t2: "read_node (leftID n) (leftPos n) t1 = Inr (t2, b)" "head_of t2 b = Inr (head l (leftID n) (leftPos n))" "moves t1 M t2 (roots l)" by blast
    have "tok (acached t2) (amod t2) l" by (rule moves_tok[OF t2(3) v(12) _ o(1)]) simp
    from Node.IH(1)[OF moves_inv[OF t2(3)] v(10) o(1) this P(5) f(2)] obtain t3 res where
      t3: "avl_search g (head l (leftID n) (leftPos n)) key t2 = Inr (t3, res)" "moves t2 M t3 (keys l)" "tok (acached t3) (amod t3) l"
        "map_option n_value res = lookup l key" by (auto simp: found_def)
    note d = found_down[OF v(4,5) t2(3) t3(2,3) v(13), of kv]
    have "found t M t3 (Node l (k, kv) r)" using d P(3) t3(3) by (simp add: found_def image_Un)
    moreover have "avl_search f (head (Node l x r) i p) key t = Inr (t3, res)"
      using v(1-3,7) t2(1,2) t3(1) cmp 1 by (simp add: hd f(1))
    ultimately show ?thesis using t3(4) 1 by (auto simp: x)
  next
    case 2
    from child_head_ok[OF i1 v(11)] obtain t2 b where
      t2: "read_node (rightID n) (rightPos n) t1 = Inr (t2, b)" "head_of t2 b = Inr (head r (rightID n) (rightPos n))" "moves t1 M t2 (roots r)" by blast
    have "tok (acached t2) (amod t2) r" by (rule moves_tok[OF t2(3) v(13) _ o(2)]) simp
    from Node.IH(2)[OF moves_inv[OF t2(3)] v(11) o(2) this P(5) f(3)] obtain t3 res where
      t3: "avl_search g (head r (rightID n) (rightPos n)) key t2 = Inr (t3, res)" "moves t2 M t3 (keys r)" "tok (acached t3) (amod t3) r"
        "map_option n_value res = lookup r key" by (auto simp: found_def)
    note d = found_down[OF v(4,5) t2(3) t3(2,3) v(12), of kv]
    have "found t M t3 (Node l (k, kv) r)" using d P(3) t3(3) by (simp add: found_def image_Un Un_commute)
    moreover have "avl_search f (head (Node l x r) i p) key t = Inr (t3, res)"
      using v(1-3,7) t2(1,2) t3(1) cmp 2 less_not_sym[OF 2] by (simp add: hd f(1))
    ultimately show ?thesis using t3(4) 2 less_not_sym[OF 2] by (auto simp: x)
  next
    case 3
    have "found t M t1 (Node l (k, kv) r)"
      using v(5,12,13) moves_weaken[OF v(4), of "keys (Node l (k, kv) r)"] by (simp add: found_def)
    moreover have "avl_search f (head (Node l x r) i p) key t = Inr (t1, Some n)"
      using v(1-3,7) cmp 3 by (simp add: hd f(1))
    ultimately show ?thesis using v(8) 3 by (simp add: x)
  qed
qed

section \<open>Batch search\<close>

lemma batch_child_ok:
  assumes "ainv t M" "rep M c q u" "tok (acached t) (amod t) u" "ordered u"
    and IH: "\<And>t2. ainv t2 M \<Longrightarrow> tok (acached t2) (amod t2) u \<Longrightarrow>
      \<exists>t' ns. avl_batchSearch g (head u c q) ks t2 = Inr (t', ns) \<and> found t2 M t' u \<and> map n_value ns = collect u ks"
  shows "\<exists>t' ns. (if ks = [] then Inr (t, []) else bindE (read_node c q t) (\<lambda>(t2, b).
      bindE (head_of t2 b) (\<lambda>h. avl_batchSearch g h ks t2))) = Inr (t', ns) \<and>
    moves t M t' (keys u) \<and> tok (acached t') (amod t') u \<and> map n_value ns = collect u ks"
proof (cases "ks = []")
  case True
  then show ?thesis using assms(3) moves_weaken[OF moves_refl[OF assms(1)], of "keys u"] by simp
next
  case False
  from child_head_ok[OF assms(1,2)] obtain t2 b where
    t2: "read_node c q t = Inr (t2, b)" "head_of t2 b = Inr (head u c q)" "moves t M t2 (roots u)" by blast
  have "tok (acached t2) (amod t2) u" by (rule moves_tok[OF t2(3) assms(3) _ assms(4)]) simp
  from IH[OF moves_inv[OF t2(3)] this] obtain t' ns where
    t': "avl_batchSearch g (head u c q) ks t2 = Inr (t', ns)" "moves t2 M t' (keys u)" "tok (acached t') (amod t') u"
      "map n_value ns = collect u ks" by (auto simp: found_def)
  have "moves t M t' (keys u)" by (rule moves_trans[OF t2(3) t'(2)]) (simp add: roots_keys)
  with False t2 t' show ?thesis by simp
qed

lemma avl_batchSearch_ok:
  assumes "ainv t M" "rep M i p tr" "ordered tr" "tok (acached t) (amod t) tr" "\<forall>k \<in> set ks. bid_wf k" "height tr < f"
  shows "\<exists>t' ns. avl_batchSearch f (head tr i p) ks t = Inr (t', ns) \<and> found t M t' tr \<and> map n_value ns = collect tr ks"
  using assms
proof (induction tr arbitrary: t i p f ks)
  case Leaf
  then obtain g where "f = Suc g" by (cases f) simp_all
  then show ?case using moves_refl[OF Leaf.prems(1)] by (simp add: head_def found_def)
next
  case (Node l x r)
  obtain k kv where x: "x = (k, kv)" by fastforce
  obtain g where f: "f = Suc g" "height l < g" "height r < g" using Node.prems(6) by (cases f) auto
  have i: "i = k" using Node.prems(2) x by simp
  note P = Node.prems[unfolded x i]
  note o = ordered_NodeD[OF P(3), simplified fst_conv]
  from visit_ok[OF P(1-4)] obtain t1 n where v: "\<not> bid_eq_int k 0" "read_node k p t = Inr (t1, Some k)" "get_node t1 k = Inr n"
    "moves t M t1 {k}" "k \<in> acached t1" "M k = Some n" "n_key n = k" "n_value n = kv" "bid_wf k"
    "rep M (leftID n) (leftPos n) l" "rep M (rightID n) (rightPos n) r"
    "tok (acached t1) (amod t1) l" "tok (acached t1) (amod t1) r" by blast
  note i1 = moves_inv[OF v(4)]
  let ?L = "filter (\<lambda>b. b < k) ks" and ?R = "filter (\<lambda>b. k < b) ks" and ?F = "filter (\<lambda>b. b = k) ks"
  have fl: "filter (\<lambda>bid. bid_gt (n_key n) bid) ks = ?L" "filter (\<lambda>bid. bid_lt (n_key n) bid) ks = ?R"
    "filter (\<lambda>bid. bid_eq (n_key n) bid) ks = ?F"
    using P(5) v(7) bid_order_iff[OF v(9)] bid_eq_iff[OF v(9)] by (auto intro!: filter_cong)
  have wf: "\<forall>b \<in> set ?L. bid_wf b" "\<forall>b \<in> set ?R. bid_wf b" using P(5) by simp_all
  from batch_child_ok[OF i1 v(10,12) o(1) Node.IH(1)[OF _ v(10) o(1) _ wf(1) f(2)]] obtain t3 ls where
    l: "(if ?L = [] then Inr (t1, []) else bindE (read_node (leftID n) (leftPos n) t1) (\<lambda>(t2, b).
      bindE (head_of t2 b) (\<lambda>h. avl_batchSearch g h ?L t2))) = Inr (t3, ls)"
      "moves t1 M t3 (keys l)" "tok (acached t3) (amod t3) l" "map n_value ls = collect l ?L" by blast
  note i3 = moves_inv[OF l(2)]
  have "tok (acached t3) (amod t3) r" by (rule tok_subtree[OF l(2) v(13)]) (use P(3) in blast)
  from batch_child_ok[OF i3 v(11) this o(2) Node.IH(2)[OF _ v(11) o(2) _ wf(2) f(3)]] obtain t5 rs where
    r: "(if ?R = [] then Inr (t3, []) else bindE (read_node (rightID n) (rightPos n) t3) (\<lambda>(t4, b).
      bindE (head_of t4 b) (\<lambda>h. avl_batchSearch g h ?R t4))) = Inr (t5, rs)"
      "moves t3 M t5 (keys r)" "tok (acached t5) (amod t5) r" "map n_value rs = collect r ?R" by blast
  have "tok (acached t5) (amod t5) l" by (rule tok_subtree[OF r(2) l(3)]) (use P(3) in blast)
  moreover have "moves t M t5 (keys (Node l (k, kv) r))"
    by (rule moves_trans[OF moves_trans[OF v(4) l(2) order_refl] r(2)]) (auto simp: image_Un)
  moreover have "k \<in> acached t5" using moves_cached[OF r(2)] moves_cached[OF l(2)] v(5) by blast
  ultimately have "found t M t5 (Node l (k, kv) r)" using r(3) by (simp add: found_def)
  moreover have "avl_batchSearch f (head (Node l x r) i p) ks t = Inr (t5, map (\<lambda>_. n) ?F @ ls @ rs)"
    unfolding f(1) head_def i
    using v(1-3) get_node_ok[OF i3 moves_cached[OF l(2) v(5)] v(6)] l(1) r(1)
    by (simp add: fl Let_def split del: if_split cong: if_cong)
  moreover have "map n_value (map (\<lambda>_. n) ?F @ ls @ rs) = collect (Node l x r) ks" using v(8) l(4) r(4) by (simp add: x)
  ultimately show ?case unfolding x by blast
qed

end
