(* ===== verification/AvlFinish.thy ===== *)
theory AvlFinish
  imports AvlOps
begin

text \<open>
  The start and the end of an operation on the search tree. The end hands out new positions and writes the paths
  back: the tree between two operations is the one in progress, with new positions.
\<close>

section \<open>The tree and the contents of the ORAM\<close>

lemma rep_child:
  assumes "rep M c q u" "\<not> bid_eq_int c 0"
  shows "roots u = {c}" "\<exists>m. M c = Some m \<and> n_pos m = q \<and> n_height m = height u"
  using assms by (cases u; auto)+

lemma rep_node:
  assumes "rep M i p T" "k \<in> keys T" "M k = Some n" "ordered T"
  shows "linked M n \<and> (\<forall>(c, q) \<in> links n. \<exists>m. M c = Some m \<and> n_height m < n_height n) \<and> n_height n \<le> height T \<and>
    (tok C Md T \<longrightarrow> fst ` links n \<inter> Md \<noteq> {} \<longrightarrow> k \<in> C)"
  using assms
proof (induction T arbitrary: i p)
  case Leaf
  then show ?case by simp
next
  case (Node l x r)
  note o = ordered_NodeD[OF Node.prems(4)]
  from Node.prems(1) obtain m where m: "M (fst x) = Some m" "n_height m = height (Node l x r)"
    "rep M (leftID m) (leftPos m) l" "rep M (rightID m) (rightPos m) r" by auto
  consider "k = fst x" | "k \<in> keys l" | "k \<in> keys r" using Node.prems(2) by (auto simp: image_Un)
  then show ?case
  proof cases
    case 1
    then have n: "n = m" using Node.prems(3) m(1) by simp
    have L: "\<exists>a. M c = Some a \<and> n_pos a = q \<and> n_height a < n_height n" "c \<in> roots l \<union> roots r" if "(c, q) \<in> links n" for c q
    proof -
      from that have nn: "\<not> bid_eq_int c 0" "c = leftID m \<and> q = leftPos m \<or> c = rightID m \<and> q = rightPos m"
        by (auto simp: links_def n)
      show "\<exists>a. M c = Some a \<and> n_pos a = q \<and> n_height a < n_height n"
        using nn rep_child(2)[OF m(3)] rep_child(2)[OF m(4)] m(2) n by fastforce
      show "c \<in> roots l \<union> roots r" using nn rep_child(1)[OF m(3)] rep_child(1)[OF m(4)] by auto
    qed
    from L(1) have "linked M n" "\<forall>(c, q) \<in> links n. \<exists>m. M c = Some m \<and> n_height m < n_height n"
      unfolding linked_def by blast+
    moreover have "tok C Md (Node l x r) \<longrightarrow> fst ` links n \<inter> Md \<noteq> {} \<longrightarrow> k \<in> C" using L(2) 1 by fastforce
    ultimately show ?thesis using m(2) n by simp
  next
    case 2
    from Node.IH(1)[OF m(3) 2 Node.prems(3) o(1)] show ?thesis by auto
  next
    case 3
    from Node.IH(2)[OF m(4) 3 Node.prems(3) o(2)] show ?thesis by auto
  qed
qed

lemma rep_shaped:
  assumes "rep M i p T" "dom M = keys T" "ordered T"
  shows "shaped M" "tok (cached s) (modified s) T \<Longrightarrow> touched_ok s M" "M k = Some n \<Longrightarrow> n_height n \<le> height T"
proof -
  have k: "k \<in> keys T" if "M k = Some n" for k n using assms(2) that by blast
  show "shaped M" unfolding shaped_def using rep_node[OF assms(1) k _ assms(3)] by blast
  show "touched_ok s M" if "tok (cached s) (modified s) T" unfolding touched_ok_def
  proof (intro allI impI)
    fix k n assume *: "M k = Some n" "fst ` links n \<inter> modified s \<noteq> {}"
    then show "k \<in> cached s" using rep_node[OF assms(1) k[OF *(1)] *(1) assms(3), of "cached s" "modified s"] that by metis
  qed
  show "M k = Some n \<Longrightarrow> n_height n \<le> height T" using rep_node[OF assms(1) k _ assms(3)] by blast
qed

lemma rep_relabelled:
  assumes "rep M i p T" "relabelled M M'" "shaped M'" "\<And>m. M' i = Some m \<Longrightarrow> n_pos m = p'"
    and nn: "\<And>k n. M k = Some n \<Longrightarrow> \<not> bid_eq_int k 0"
  shows "rep M' i p' T"
  using assms(1,4)
proof (induction T arbitrary: i p p')
  case Leaf
  then show ?case by simp
next
  case (Node l x r)
  from Node.prems(1) obtain n where n: "i = fst x" "M i = Some n" "n_value n = snd x" "n_height n = height (Node l x r)"
    "rep M (leftID n) (leftPos n) l" "rep M (rightID n) (rightPos n) r" by auto
  have "i \<in> dom M'" using assms(2) n(2) by (auto simp: relabelled_def)
  then obtain n' where n': "M' i = Some n'" by blast
  have sh: "same_shape n n'" using assms(2) n(2) n' by (simp add: relabelled_def)
  have lk: "linked M' n'" using assms(3) n' by (simp add: shaped_def)
  have "rep M' (leftID n) (leftPos n') l"
  proof (cases "bid_eq_int (leftID n) 0")
    case True
    then have "l = Leaf" using n(5) nn by (cases l) auto
    with True show ?thesis by simp
  next
    case False
    then have "(leftID n, leftPos n') \<in> links n'" using sh by (simp add: links_def same_shape_def)
    then show ?thesis using Node.IH(1)[OF n(5)] lk by (fastforce simp: linked_def)
  qed
  moreover have "rep M' (rightID n) (rightPos n') r"
  proof (cases "bid_eq_int (rightID n) 0")
    case True
    then have "r = Leaf" using n(6) nn by (cases r) auto
    with True show ?thesis by simp
  next
    case False
    then have "(rightID n, rightPos n') \<in> links n'" using sh by (simp add: links_def same_shape_def)
    then show ?thesis using Node.IH(2)[OF n(6)] lk by (fastforce simp: linked_def)
  qed
  ultimately show ?case using sh n n' Node.prems(2)[OF n'] by (simp add: same_shape_def)
qed

section \<open>Between operations\<close>

text \<open>
  \<open>tree_ok t i p T\<close>: no operation is in progress and the ORAM holds the tree \<open>T\<close>, whose root is \<open>i\<close> at position \<open>p\<close>.
  \<open>tree_op\<close> is the same while an operation is in progress.
\<close>

definition tree_ok :: "'n::len avltree \<Rightarrow> 'n Bid \<Rightarrow> nat \<Rightarrow> 'n btree \<Rightarrow> bool" where
  "tree_ok t i p T \<longleftrightarrow> ordered T \<and> avl T \<and> (\<forall>j. a_dis t j < 2 ^ adepth t) \<and> leafList (a_oram t) = [] \<and> amod t = {} \<and>
     (\<exists>M. binv (a_oram t) M UNIV \<and> rep M i p T \<and> dom M = keys T)"

definition tree_op :: "'n::len avltree \<Rightarrow> ('n Bid \<Rightarrow> 'n node option) \<Rightarrow> 'n Bid \<Rightarrow> nat \<Rightarrow> 'n btree \<Rightarrow> bool" where
  "tree_op t M i p T \<longleftrightarrow> ainv t M \<and> rep M i p T \<and> ordered T \<and> avl T \<and> dom M = keys T \<and> tok (acached t) (amod t) T"

lemma empty_buckets: "binv s Map.empty UNIV \<Longrightarrow> empty_store s"
proof -
  assume "binv s Map.empty UNIV"
  then obtain B where B: "store_ok s B" "contents s B Map.empty UNIV" by (auto simp: binv_def)
  have "B i = []" if "i < bucketCount s" for i
    using contentsD(6)[OF B(2) UNIV_I that] by (cases "B i") auto
  with B(1) show "empty_store s" by (simp add: empty_store_def store_ok_def)
qed

lemma startOperation_ok:
  assumes "tree_ok t i p T" "batch \<Longrightarrow> T = Leaf"
  shows "\<exists>M. tree_op (startOperation batch t) M i p T" "space (startOperation batch t) = space t"
    "adepth (startOperation batch t) = adepth t"
proof -
  from assms(1) obtain M where M: "binv (a_oram t) M UNIV" "rep M i p T" "dom M = keys T" and t: "ordered T" "avl T"
    "\<forall>j. a_dis t j < 2 ^ adepth t" "leafList (a_oram t) = []" "amod t = {}" by (auto simp: tree_ok_def)
  have "batch \<longrightarrow> empty_store (a_oram t)" using M(1,3) assms(2) empty_buckets[of "a_oram t"] by auto
  note s = start_ok[OF M(1) t(4,5) this]
  have "tree_op (startOperation batch t) M i p T"
    using M(2,3) t s by (simp add: tree_op_def startOperation_def ainv_def tok_empty)
  then show "\<exists>M. tree_op (startOperation batch t) M i p T" by blast
  show "space (startOperation batch t) = space t" "adepth (startOperation batch t) = adepth t"
    using s by (simp_all add: startOperation_def)
qed

lemma finishOperation_ok:
  assumes "tree_op t M i p T" "roots T \<subseteq> acached t" "height T \<le> adepth t + 2"
  shows "\<exists>t' p'. finishOperation b i p t = Inr (t', p') \<and> tree_ok t' i p' T \<and> space t' = space t \<and> adepth t' = adepth t"
proof -
  have t: "ainv t M" "rep M i p T" "ordered T" "avl T" "dom M = keys T" "tok (acached t) (amod t) T"
    using assms(1) by (simp_all add: tree_op_def)
  note inv = ainv_op[OF t(1)]
  note sh = rep_shaped[OF t(2,5,3)]
  have h: "\<forall>k n. M k = Some n \<longrightarrow> n_height n \<le> o_depth (a_oram t) + 2" using sh(3) assms(3) by (meson order_trans)
  have r: "bid_eq_int i 0 \<and> M i = None \<or> i \<in> acached t"
  proof (cases T)
    case Leaf
    then show ?thesis using t(2,5) by auto
  next
    case (Node l x r)
    then show ?thesis using t(2) assms(2) by auto
  qed
  from finilize_ok[OF inv sh(1) sh(2)[OF t(6)] h r, of b p] obtain s' M' p' where
    f: "finilize b i p (a_oram t) = Inr (s', p')" "binv s' M' UNIV" "relabelled M M'" "shaped M'" "leafList s' = []" "modified s' = {}"
      "emptyNodes (o_store s') = space t" "o_depth s' = adepth t" "\<forall>n. M' i = Some n \<longrightarrow> p' = n_pos n" by blast
  have "rep M' i p' T" using f(9) not_null[OF inv] by (intro rep_relabelled[OF t(2) f(3,4)]) simp_all
  moreover have "dom M' = keys T" using f(3) t(5) by (simp add: relabelled_def)
  ultimately have "tree_ok (t\<lparr>a_oram := s'\<rparr>) i p' T" using f t(1,3,4) by (auto simp: tree_ok_def ainv_def)
  then show ?thesis using f by (simp add: finishOperation_def)
qed

end
