(* ===== verification/OmapRep.thy ===== *)
theory OmapRep
  imports Omap AvlFinish StringMap
begin

text \<open>
  Within its capacity the oblivious map is a finite map from identifiers to strings: insertion and search refine
  update and lookup.
\<close>

section \<open>The map it represents\<close>

text \<open>
  \<open>omap_rep N m T\<close>: the map \<open>m\<close> holds the entries of the tree \<open>T\<close>, and there is room for \<open>N\<close> entries. Besides the space of
  the ORAM the height of the tree counts: the loop that hands out positions visits heights up to the depth
  plus two, and a balanced tree with fewer than \<open>fib (depth + 5) - 1\<close> nodes is not higher.
\<close>

definition capacity :: "nat \<Rightarrow> nat" where
  "capacity depth = min (Z * (2 ^ (depth + 1) - 1)) (fib (depth + 5) - 2)"

definition omap_rep :: "nat \<Rightarrow> 'n::len omap \<Rightarrow> 'n btree \<Rightarrow> bool" where
  "omap_rep N m T \<longleftrightarrow> tree_ok (treeHandler m) (rootKey m) (rootPos m) T \<and> N \<le> capacity (adepth (treeHandler m)) \<and>
     size T \<le> N \<and> space (treeHandler m) + size T = Z * (2 ^ (adepth (treeHandler m) + 1) - 1)"

lemma fib_pos: "0 < n \<Longrightarrow> 0 < fib n"
  using fib_mono[of 1 n] by simp

lemma capacity_height:
  assumes "avl T" "size T \<le> capacity d"
  shows "height T \<le> d + 2"
proof (rule avl_height_bound[OF assms(1)])
  have "5 \<le> fib (d + 5)" using fib_mono[of 5 "d + 5"] by (simp add: numeral_eq_Suc)
  moreover have "size T \<le> fib (d + 5) - 2" using assms(2) by (simp add: capacity_def)
  ultimately have "size T + 1 < fib (d + 5)" by linarith
  moreover have "d + 2 + 3 = d + 5" by simp
  ultimately show "size T + 1 < fib (d + 2 + 3)" by (simp only:)
qed

lemma height_fuel: "h \<le> d + 2 \<Longrightarrow> h < 2 ^ (d + 3)"
  using less_exp[of "d + 3"] by linarith

lemma depth_30: "ainv t M \<Longrightarrow> adepth t \<le> 30"
  by (simp add: ainv_def op_inv_def binv_def geom_def)

lemma size_ins: "ordered T \<Longrightarrow> size (ins k v T) = (if k \<in> keys T then size T else Suc (size T))"
proof -
  assume o: "ordered T"
  have "size (ins k v T) = card (insert k (keys T))" using size_keys[OF ordered_ins[OF o]] keys_ins[OF o] by simp
  then show ?thesis using size_keys[OF o] by (simp add: insert_absorb)
qed

lemma insert_root_ok:
  assumes op: "tree_op t M k p T" and key: "bid_wf key" "\<not> bid_eq_int key 0" and v: "length str \<le> 16"
    and sz: "size (ins key (pad_value str) T) \<le> capacity (adepth t)" and sp: "space t + size T = Z * (2 ^ (adepth t + 1) - 1)"
  shows "\<exists>t' M' k' p'. insert_root key str (k, p, t) = Inr (k', p', t') \<and> tree_op t' M' k' p' (ins key (pad_value str) T) \<and>
    roots (ins key (pad_value str) T) \<subseteq> acached t' \<and> adepth t' = adepth t \<and>
    space t' + size (ins key (pad_value str) T) = Z * (2 ^ (adepth t + 1) - 1)"
proof -
  have t: "ainv t M" "rep M k p T" "ordered T" "avl T" "dom M = keys T" "tok (acached t) (amod t) T"
    using op by (simp_all add: tree_op_def)
  let ?k = "if bid_eq_int k 0 then Bid_int 0 else k" and ?T = "ins key (pad_value str) T"
  note Bid_int_null
  then have r: "rep M ?k p T" using t(2) not_null[OF ainv_op[OF t(1)]] by (cases T) auto
  have szT: "size T \<le> size ?T" by (simp add: size_ins[OF t(3)])
  have h: "height T \<le> adepth t + 2" by (rule capacity_height[OF t(4)]) (use sz szT in simp)
  have f: "height T < tree_fuel t" using height_fuel[OF h] by (simp add: tree_fuel_def)
  have h3: "height T + 3 < 2 ^ 32" using h depth_30[OF t(1)] by simp
  have room: "M key = None \<and> 0 < space t" if "key \<notin> keys T"
  proof
    show "M key = None" using that t(5) by blast
    show "0 < space t" using that sz sp size_ins[OF t(3), of key "pad_value str"] by (simp add: capacity_def)
  qed
  from avl_insert_ok[OF t(1) r t(3,4,6) key f h3 v room] obtain t' M' p' k' where
    i: "avl_insert (tree_fuel t) ?k p key str t = Inr (t', p', k')" "put_ok t M t' M' k' p' key (pad_value str) T" by blast
  have e: "extends t M' t' (insert key (keys T)) (if key \<in> keys T then 0 else 1)" "rep M' k' p' ?T" "dom M' = insert key (dom M)"
    "tok (acached t') (amod t') ?T" "roots ?T \<subseteq> acached t'" using i(2) by (simp_all add: put_ok_def)
  have "tree_op t' M' k' p' ?T"
    using e(2-4) t(5) extendsD(1)[OF e(1)] ordered_ins[OF t(3)] keys_ins[OF t(3)] ins_avl[OF t(4)]
    by (simp add: tree_op_def del: rep.simps)
  moreover have "space t' + size ?T = Z * (2 ^ (adepth t + 1) - 1)"
  proof -
    have "space t' + (if key \<in> keys T then 0 else 1) = space t" using e(1) by (simp add: extends_def)
    with sp show ?thesis using size_ins[OF t(3), of key "pad_value str"] by (cases "key \<in> keys T") simp_all
  qed
  ultimately show ?thesis using i(1) e(5) extendsD(4)[OF e(1)] by (auto simp: insert_root_def)
qed

lemma omap_insert_rep:
  assumes "omap_rep N m T" "bid_wf key" "\<not> bid_eq_int key 0" "length str \<le> 16" "size (ins key (pad_value str) T) \<le> N"
  shows "\<exists>m'. omap_insert key str m = Inr m' \<and> omap_rep N m' (ins key (pad_value str) T)"
proof -
  let ?t = "startOperation False (treeHandler m)" and ?T = "ins key (pad_value str) T"
  have m: "tree_ok (treeHandler m) (rootKey m) (rootPos m) T" "N \<le> capacity (adepth (treeHandler m))"
    "space (treeHandler m) + size T = Z * (2 ^ (adepth (treeHandler m) + 1) - 1)" using assms(1) by (simp_all add: omap_rep_def)
  from startOperation_ok[OF m(1), of False] obtain M where
    s: "tree_op ?t M (rootKey m) (rootPos m) T" "space ?t = space (treeHandler m)" "adepth ?t = adepth (treeHandler m)" by auto
  have sz: "size ?T \<le> capacity (adepth ?t)" using assms(5) m(2) s(3) by simp
  from insert_root_ok[OF s(1) assms(2-4) sz] m(3) s(2,3) obtain t1 M1 k p where
    t1: "insert_root key str (rootKey m, rootPos m, ?t) = Inr (k, p, t1)" "tree_op t1 M1 k p ?T" "roots ?T \<subseteq> acached t1"
      "adepth t1 = adepth ?t" "space t1 + size ?T = Z * (2 ^ (adepth ?t + 1) - 1)" by auto
  have "height ?T \<le> adepth t1 + 2" by (rule capacity_height) (use t1(2,4) sz in \<open>simp_all add: tree_op_def\<close>)
  from finishOperation_ok[OF t1(2,3) this, of False] obtain t2 p2 where
    "finishOperation False k p t1 = Inr (t2, p2)" "tree_ok t2 k p2 ?T" "space t2 = space t1" "adepth t2 = adepth t1" by blast
  then show ?thesis using t1 s(3) m(2) assms(5) by (simp add: omap_insert_def finish_def omap_rep_def)
qed

lemma omap_search_setup:
  assumes "omap_rep N m T"
  shows "\<exists>M. tree_op (startOperation False (treeHandler m)) M (rootKey m) (rootPos m) T"
    "height T < tree_fuel (startOperation False (treeHandler m))" "height T \<le> adepth (startOperation False (treeHandler m)) + 2"
proof -
  have m: "tree_ok (treeHandler m) (rootKey m) (rootPos m) T" "size T \<le> capacity (adepth (treeHandler m))"
    using assms by (auto simp: omap_rep_def)
  note s = startOperation_ok[OF m(1), of False]
  show "\<exists>M. tree_op (startOperation False (treeHandler m)) M (rootKey m) (rootPos m) T" using s(1) by simp
  show h: "height T \<le> adepth (startOperation False (treeHandler m)) + 2"
    using capacity_height[OF _ m(2)] m(1) s(3) by (simp add: tree_ok_def)
  show "height T < tree_fuel (startOperation False (treeHandler m))" unfolding tree_fuel_def by (rule height_fuel[OF h])
qed

lemma omap_search_finish:
  assumes rp: "omap_rep N m T" and op: "tree_op (startOperation False (treeHandler m)) M (rootKey m) (rootPos m) T"
    and f: "found (startOperation False (treeHandler m)) M t1 T"
  shows "\<exists>m'. finish True (rootKey m) (rootPos m) t1 = Inr m' \<and> omap_rep N m' T"
proof -
  let ?t = "startOperation False (treeHandler m)"
  have t: "moves ?t M t1 (keys T)" "tok (acached t1) (amod t1) T" "roots T \<subseteq> acached t1" using f by (simp_all add: found_def)
  have m: "tree_ok (treeHandler m) (rootKey m) (rootPos m) T" using rp by (simp add: omap_rep_def)
  note s = startOperation_ok[OF m, of False]
  have op1: "tree_op t1 M (rootKey m) (rootPos m) T" using op t(1,2) by (simp add: tree_op_def moves_def)
  have h: "height T \<le> adepth t1 + 2" using omap_search_setup(3)[OF rp] moves_depth[OF t(1)] by simp
  from finishOperation_ok[OF op1 t(3) h, of True] obtain t2 p2 where
    "finishOperation True (rootKey m) (rootPos m) t1 = Inr (t2, p2)" "tree_ok t2 (rootKey m) p2 T" "space t2 = space t1" "adepth t2 = adepth t1" by blast
  moreover have "space t1 = space (treeHandler m)" "adepth t1 = adepth (treeHandler m)"
    using t(1) s(2,3) moves_depth[OF t(1)] by (simp_all add: moves_def)
  ultimately show ?thesis using rp by (simp add: finish_def omap_rep_def)
qed

lemma root_null: "tree_op t M i p T \<Longrightarrow> bid_eq_int i 0 \<longleftrightarrow> T = Leaf"
  using not_null[OF ainv_op] by (cases T) (auto simp: tree_op_def)

lemma omap_find_rep:
  assumes "omap_rep N m T" "bid_wf key"
  shows "\<exists>m'. omap_find key m = Inr (m', case lookup T key of None \<Rightarrow> '''' | Some b \<Rightarrow> c_str (bytes_str b)) \<and> omap_rep N m' T"
proof -
  let ?t = "startOperation False (treeHandler m)"
  from omap_search_setup(1)[OF assms(1)] obtain M where M: "tree_op ?t M (rootKey m) (rootPos m) T" by blast
  show ?thesis
  proof (cases "bid_eq_int (rootKey m) 0")
    case True
    then have "T = Leaf" using root_null[OF M] by simp
    then show ?thesis using True assms(1) by (simp add: omap_find_def)
  next
    case False
    then have hd: "head T (rootKey m) (rootPos m) = Some (rootKey m, rootPos m)" using root_null[OF M] by (simp add: head_def)
    from avl_search_ok[of ?t M "rootKey m" "rootPos m" T key "tree_fuel ?t"] M assms(2) omap_search_setup(2)[OF assms(1)]
    obtain t1 res where t1: "avl_search (tree_fuel ?t) (Some (rootKey m, rootPos m)) key ?t = Inr (t1, res)" "found ?t M t1 T"
      "map_option n_value res = lookup T key" by (auto simp: tree_op_def hd)
    from omap_search_finish[OF assms(1) M t1(2)] obtain m' where
      "finish True (rootKey m) (rootPos m) t1 = Inr m'" "omap_rep N m' T" by blast
    then show ?thesis using False t1(1) by (auto simp: omap_find_def Let_def t1(3)[symmetric] split: option.split)
  qed
qed

lemma omap_batchSearch_rep:
  assumes "omap_rep N m T" "\<forall>k \<in> set ks. bid_wf k"
  shows "\<exists>m'. omap_batchSearch ks m = Inr (m', map bytes_str (collect T ks)) \<and> omap_rep N m' T"
proof -
  let ?t = "startOperation False (treeHandler m)"
  from omap_search_setup(1)[OF assms(1)] obtain M where M: "tree_op ?t M (rootKey m) (rootPos m) T" by blast
  have "\<exists>t1 ns. avl_batchSearch (tree_fuel ?t) (Some (rootKey m, rootPos m)) ks ?t = Inr (t1, ns) \<and> found ?t M t1 T \<and>
    map n_value ns = collect T ks"
  proof (cases "bid_eq_int (rootKey m) 0")
    case True
    then have T: "T = Leaf" using root_null[OF M] by simp
    obtain g where "tree_fuel ?t = Suc g" using omap_search_setup(2)[OF assms(1)] by (cases "tree_fuel ?t") simp_all
    moreover have "moves ?t M ?t {}" by (rule moves_refl) (use M in \<open>simp add: tree_op_def\<close>)
    ultimately show ?thesis using True T by (simp add: found_def)
  next
    case False
    then have hd: "head T (rootKey m) (rootPos m) = Some (rootKey m, rootPos m)" using root_null[OF M] by (simp add: head_def)
    then show ?thesis
      using avl_batchSearch_ok[of ?t M "rootKey m" "rootPos m" T ks "tree_fuel ?t"] M assms(2) omap_search_setup(2)[OF assms(1)]
      by (simp add: tree_op_def)
  qed
  then obtain t1 ns where t1: "avl_batchSearch (tree_fuel ?t) (Some (rootKey m, rootPos m)) ks ?t = Inr (t1, ns)" "found ?t M t1 T"
    "map n_value ns = collect T ks" by blast
  from omap_search_finish[OF assms(1) M t1(2)] obtain m' where
    "finish True (rootKey m) (rootPos m) t1 = Inr m'" "omap_rep N m' T" by blast
  then show ?thesis using t1(1) by (simp add: omap_batchSearch_def Let_def t1(3)[symmetric])
qed

section \<open>Batch insertion and construction\<close>

definition ins_all :: "('n::len Bid \<times> string) list \<Rightarrow> 'n btree \<Rightarrow> 'n btree" where
  "ins_all = fold (\<lambda>(k, str). ins k (pad_value str))"

lemma insert_roots_ok:
  assumes "tree_op t M k p T" "\<forall>(key, str) \<in> set ps. bid_wf key \<and> \<not> bid_eq_int key 0 \<and> length str \<le> 16"
    and "size T + length ps \<le> capacity (adepth t)" "space t + size T = Z * (2 ^ (adepth t + 1) - 1)" "roots T \<subseteq> acached t"
  shows "\<exists>t' M' k' p'. foldE (\<lambda>(key, str). insert_root key str) ps (k, p, t) = Inr (k', p', t') \<and> tree_op t' M' k' p' (ins_all ps T) \<and>
    roots (ins_all ps T) \<subseteq> acached t' \<and> adepth t' = adepth t \<and>
    space t' + size (ins_all ps T) = Z * (2 ^ (adepth t + 1) - 1) \<and> size (ins_all ps T) \<le> size T + length ps"
  using assms
proof (induction ps arbitrary: t M k p T)
  case Nil
  then show ?case by (auto simp: ins_all_def)
next
  case (Cons e ps)
  obtain key str where e: "e = (key, str)" by fastforce
  have g: "bid_wf key" "\<not> bid_eq_int key 0" "length str \<le> 16" using Cons.prems(2) by (simp_all add: e)
  have "ordered T" using Cons.prems(1) by (simp add: tree_op_def)
  then have sz: "size (ins key (pad_value str) T) \<le> Suc (size T)" by (simp add: size_ins)
  then have "size (ins key (pad_value str) T) \<le> capacity (adepth t)" using Cons.prems(3) by simp
  from insert_root_ok[OF Cons.prems(1) g this Cons.prems(4)] obtain t1 M1 k1 p1 where
    i: "insert_root key str (k, p, t) = Inr (k1, p1, t1)" "tree_op t1 M1 k1 p1 (ins key (pad_value str) T)"
      "roots (ins key (pad_value str) T) \<subseteq> acached t1" "adepth t1 = adepth t"
      "space t1 + size (ins key (pad_value str) T) = Z * (2 ^ (adepth t + 1) - 1)" by blast
  have all: "ins_all (e # ps) T = ins_all ps (ins key (pad_value str) T)" by (simp add: ins_all_def e)
  from Cons.IH[OF i(2)] Cons.prems(2,3) sz i(3-5) obtain t2 M2 k2 p2 where
    "foldE (\<lambda>(key, str). insert_root key str) ps (k1, p1, t1) = Inr (k2, p2, t2)" "tree_op t2 M2 k2 p2 (ins_all (e # ps) T)"
    "roots (ins_all (e # ps) T) \<subseteq> acached t2" "adepth t2 = adepth t1" "space t2 + size (ins_all (e # ps) T) = Z * (2 ^ (adepth t + 1) - 1)"
    "size (ins_all (e # ps) T) \<le> size (ins key (pad_value str) T) + length ps" unfolding all by auto
  then show ?case using i(1,4) sz by (intro exI[of _ t2] exI[of _ M2] exI[of _ k2] exI[of _ p2]) (simp add: e)
qed

lemma omap_batchInsert_rep:
  assumes "omap_rep N m Leaf" "\<forall>(key, str) \<in> set ps. bid_wf key \<and> \<not> bid_eq_int key 0 \<and> length str \<le> 16" "length ps \<le> N"
  shows "\<exists>m'. omap_batchInsert ps m = Inr m' \<and> omap_rep N m' (ins_all ps Leaf)"
proof -
  let ?t = "startOperation True (treeHandler m)" and ?T = "ins_all ps Leaf"
  have m: "tree_ok (treeHandler m) (rootKey m) (rootPos m) Leaf" "N \<le> capacity (adepth (treeHandler m))"
    "space (treeHandler m) = Z * (2 ^ (adepth (treeHandler m) + 1) - 1)" using assms(1) by (simp_all add: omap_rep_def)
  from startOperation_ok[OF m(1), of True] obtain M where
    s: "tree_op ?t M (rootKey m) (rootPos m) Leaf" "space ?t = space (treeHandler m)" "adepth ?t = adepth (treeHandler m)" by auto
  from insert_roots_ok[OF s(1) assms(2)] assms(3) m(2,3) s(2,3) obtain t1 M1 k p where
    t1: "foldE (\<lambda>(key, str). insert_root key str) ps (rootKey m, rootPos m, ?t) = Inr (k, p, t1)" "tree_op t1 M1 k p ?T"
      "roots ?T \<subseteq> acached t1" "adepth t1 = adepth ?t" "space t1 + size ?T = Z * (2 ^ (adepth ?t + 1) - 1)" "size ?T \<le> length ps" by auto
  have "height ?T \<le> adepth t1 + 2"
    by (rule capacity_height) (use t1(2,4,6) assms(3) m(2) s(3) in \<open>simp_all add: tree_op_def\<close>)
  from finishOperation_ok[OF t1(2,3) this, of False] obtain t2 p2 where
    "finishOperation False k p t1 = Inr (t2, p2)" "tree_ok t2 k p2 ?T" "space t2 = space t1" "adepth t2 = adepth t1" by blast
  then show ?thesis using t1 s(3) m(2) assms(3) by (simp add: omap_batchInsert_def finish_def omap_rep_def)
qed

lemma OMAP_rep:
  assumes "cbc_good A" "\<forall>i. length (ivs i) = IV" "Z \<le> maxSize" "floor_log2 (maxSize div Z) \<le> 30"
    and "\<forall>i. rnd i < 2 ^ floor_log2 (maxSize div Z)" "\<forall>i. rnd' i < 2 ^ floor_log2 (maxSize div Z)"
    and "N \<le> capacity (floor_log2 (maxSize div Z))"
  shows "\<exists>m :: 'n::len omap. OMAP A ivs rnd rnd' maxSize key = Inr m \<and> omap_rep N m Leaf"
proof -
  from ORAM_ok[OF assms(1-5), of key] obtain s :: "'n oram" where
    s: "ORAM A ivs rnd maxSize key = Inr s" "binv s Map.empty UNIV" "leafList s = []" "modified s = {}"
      "o_depth s = floor_log2 (maxSize div Z)" "emptyNodes (o_store s) = Z * (2 ^ (floor_log2 (maxSize div Z) + 1) - 1)" by blast
  have z: "bid_eq_int (bid_assign_int 0) 0" by (simp add: dummy_id)
  have "tree_ok \<lparr>a_oram = s, a_dis = rnd'\<rparr> (bid_assign_int 0) 0 Leaf"
    using s assms(6) z by (auto simp: tree_ok_def sm_wf_def intro!: exI[of _ Map.empty])
  then show ?thesis using s assms(7) by (simp add: OMAP_def AVLTree_def omap_rep_def)
qed

section \<open>A finite map of strings\<close>

definition omap_map :: "nat \<Rightarrow> 'n::len omap \<Rightarrow> ('n Bid \<Rightarrow> string option) \<Rightarrow> bool" where
  "omap_map N m f \<longleftrightarrow> (\<forall>k v. f k = Some v \<longrightarrow> good_key k \<and> good_value v) \<and>
     (\<exists>T. omap_rep N m T \<and> lookup T = (\<lambda>k. map_option pad_value (f k)))"

lemma lookup_ins: "ordered T \<Longrightarrow> lookup (ins k v T) = (lookup T)(k \<mapsto> v)"
  by (rule ext) (simp add: lookup_inorder inorder_ins ordered_ins sm_get_put sm_wf_put)

lemma dom_lookup: "ordered T \<Longrightarrow> dom (lookup T) = keys T"
  by (auto simp: lookup_inorder dom_def map_of_eq_Some_iff[OF sm_wf_distinct] image_iff) (metis fst_conv set_inorder)

lemma omap_rep_ordered: "omap_rep N m T \<Longrightarrow> ordered T"
  by (simp add: omap_rep_def tree_ok_def)

lemma omap_map_dom:
  assumes "omap_rep N m T" "lookup T = (\<lambda>k. map_option pad_value (f k))"
  shows "keys T = dom f" "size T = card (dom f)" "finite (dom f)"
proof -
  have o: "ordered T" by (rule omap_rep_ordered[OF assms(1)])
  show k: "keys T = dom f" using dom_lookup[OF o] assms(2) by auto
  show "size T = card (dom f)" using size_keys[OF o] k by simp
  have "finite (keys T)" by simp
  then show "finite (dom f)" using k by simp
qed

lemma omap_insert_ok:
  assumes "omap_map N m f" "good_key k" "good_value v" "card (insert k (dom f)) \<le> N"
  shows "\<exists>m'. omap_insert k v m = Inr m' \<and> omap_map N m' (f(k \<mapsto> v))"
proof -
  from assms(1) obtain T where T: "omap_rep N m T" "lookup T = (\<lambda>k. map_option pad_value (f k))"
    and g: "\<And>k v. f k = Some v \<Longrightarrow> good_key k \<and> good_value v" by (auto simp: omap_map_def)
  have o: "ordered T" by (rule omap_rep_ordered[OF T(1)])
  have "size (ins k (pad_value v) T) \<le> N"
    using size_keys[OF ordered_ins[OF o]] keys_ins[OF o] omap_map_dom(1)[OF T] assms(4) by simp
  from omap_insert_rep[OF T(1) _ _ _ this] assms(2,3) obtain m' where
    "omap_insert k v m = Inr m'" "omap_rep N m' (ins k (pad_value v) T)" by (auto simp: good_key_def good_value_def)
  moreover have "lookup (ins k (pad_value v) T) = (\<lambda>j. map_option pad_value ((f(k \<mapsto> v)) j))"
    using lookup_ins[OF o] T(2) by auto
  ultimately show ?thesis using assms(2,3) g by (auto simp: omap_map_def)
qed

lemma omap_find_ok:
  assumes "omap_map N m f" "bid_wf k"
  shows "\<exists>m'. omap_find k m = Inr (m', case f k of None \<Rightarrow> '''' | Some v \<Rightarrow> v) \<and> omap_map N m' f"
proof -
  from assms(1) obtain T where T: "omap_rep N m T" "lookup T = (\<lambda>k. map_option pad_value (f k))"
    and g: "\<forall>k v. f k = Some v \<longrightarrow> good_key k \<and> good_value v" by (auto simp: omap_map_def)
  from omap_find_rep[OF T(1) assms(2)] obtain m' where
    m': "omap_find k m = Inr (m', case lookup T k of None \<Rightarrow> '''' | Some b \<Rightarrow> c_str (bytes_str b))" "omap_rep N m' T" by blast
  moreover have "(case lookup T k of None \<Rightarrow> '''' | Some b \<Rightarrow> c_str (bytes_str b)) = (case f k of None \<Rightarrow> '''' | Some v \<Rightarrow> v)"
    using g by (auto simp: T(2) good_value_def pad_value_c_str split: option.split)
  ultimately show ?thesis using T(2) g by (auto simp: omap_map_def)
qed

text \<open>Batch search returns the values with their padding, in the order of the tree.\<close>

lemma omap_batchSearch_ok:
  assumes "omap_map N m f" "\<forall>k \<in> set ks. bid_wf k"
  shows "\<exists>m' vs. omap_batchSearch ks m = Inr (m', vs) \<and> omap_map N m' f \<and>
    mset vs = mset (map (\<lambda>v. bytes_str (pad_value v)) (List.map_filter f ks))"
proof -
  from assms(1) obtain T where T: "omap_rep N m T" "lookup T = (\<lambda>k. map_option pad_value (f k))"
    and g: "\<forall>k v. f k = Some v \<longrightarrow> good_key k \<and> good_value v" by (auto simp: omap_map_def)
  from omap_batchSearch_rep[OF T(1) assms(2)] obtain m' where
    m': "omap_batchSearch ks m = Inr (m', map bytes_str (collect T ks))" "omap_rep N m' T" by blast
  have "List.map_filter (lookup T) ks = map pad_value (List.map_filter f ks)"
    unfolding T(2) by (induction ks) (auto simp: map_filter_simps split: option.split)
  then have "mset (map bytes_str (collect T ks)) = mset (map (\<lambda>v. bytes_str (pad_value v)) (List.map_filter f ks))"
    using collect_lookup[OF omap_rep_ordered[OF T(1)], of ks] by (simp add: o_def multiset.map_comp)
  then show ?thesis using m' T(2) g by (auto simp: omap_map_def)
qed

lemma lookup_ins_all:
  "ordered T \<Longrightarrow> distinct (map fst ps) \<Longrightarrow>
    lookup (ins_all ps T) = (\<lambda>k. case map_of ps k of Some v \<Rightarrow> Some (pad_value v) | None \<Rightarrow> lookup T k)"
proof (induction ps arbitrary: T)
  case Nil
  then show ?case by (simp add: ins_all_def)
next
  case (Cons e ps)
  obtain k v where e: "e = (k, v)" by fastforce
  have "ins_all (e # ps) T = ins_all ps (ins k (pad_value v) T)" by (simp add: ins_all_def e)
  moreover have "map_of ps k = None" using Cons.prems(2) by (simp add: e map_of_eq_None_iff)
  ultimately show ?case
    using Cons.IH[OF ordered_ins[OF Cons.prems(1)]] Cons.prems lookup_ins[OF Cons.prems(1)]
    by (auto simp: e fun_eq_iff split: option.split)
qed

lemma omap_batchInsert_ok:
  assumes "omap_map N m Map.empty" "sm_wf ps" "\<forall>(k, v) \<in> set ps. good_key k \<and> good_value v" "length ps \<le> N"
  shows "\<exists>m'. omap_batchInsert ps m = Inr m' \<and> omap_map N m' (sm_get ps)"
proof -
  from assms(1) obtain T where T: "omap_rep N m T" "lookup T = (\<lambda>k. map_option pad_value None)" by (auto simp: omap_map_def)
  then have "keys T = {}" using dom_lookup[OF omap_rep_ordered[OF T(1)]] by simp
  then have L: "T = Leaf" by (cases T) auto
  have g: "\<forall>(k, v) \<in> set ps. bid_wf k \<and> \<not> bid_eq_int k 0 \<and> length v \<le> 16"
    using assms(3) by (auto simp: good_key_def good_value_def)
  from omap_batchInsert_rep[OF T(1)[unfolded L] g assms(4)] obtain m' where
    m': "omap_batchInsert ps m = Inr m'" "omap_rep N m' (ins_all ps Leaf)" by blast
  moreover have "lookup (ins_all ps Leaf) = (\<lambda>k. map_option pad_value (sm_get ps k))"
    using lookup_ins_all[OF _ sm_wf_distinct[OF assms(2)], of Leaf] by (auto simp: fun_eq_iff sm_wf_def split: option.split)
  ultimately show ?thesis using assms(3) by (fastforce simp: omap_map_def dest: map_of_SomeD)
qed

interpretation omap: searched_map omap_find omap_insert omap_map
proof
  fix N :: nat and s f k v
  show "\<exists>s'. omap_find k s = Inr (s', v) \<and> omap_map N s' f" if "omap_map N s f" "f k = Some v"
  proof -
    have "bid_wf k" using that by (auto simp: omap_map_def good_key_def)
    from omap_find_ok[OF that(1) this] that(2) show ?thesis by simp
  qed
  show "\<exists>s'. omap_insert k v s = Inr s' \<and> omap_map N s' (f(k \<mapsto> v))"
    if "omap_map N s f" "good_key k" "good_value v" "card (insert k (dom f)) \<le> N" by (rule omap_insert_ok[OF that])
  show "finite (dom f)" if "omap_map N s f" using that omap_map_dom(3) by (auto simp: omap_map_def)
  show "good_key k \<and> good_value v" if "omap_map N s f" "f k = Some v" using that by (simp add: omap_map_def)
  show "\<exists>s'. omap_find k s = Inr (s', []) \<and> omap_map N s' f" if "omap_map N s f" "good_key k" "f k = None"
    using omap_find_ok[OF that(1), of k] that(2,3) by (simp add: good_key_def)
qed

section \<open>Runs\<close>

datatype 'n omap_op = Insert "'n Bid" string | Find "'n Bid" | BatchSearch "'n Bid list" | BatchInsert "('n Bid, string) smap"

fun omap_do :: "'n::len omap_op \<Rightarrow> 'n omap \<Rightarrow> ('n omap \<times> string list) res" where
  "omap_do (Insert k v) m = bindE (omap_insert k v m) (\<lambda>m'. Inr (m', []))"
| "omap_do (Find k) m = bindE (omap_find k m) (\<lambda>(m', v). Inr (m', [v]))"
| "omap_do (BatchSearch ks) m = omap_batchSearch ks m"
| "omap_do (BatchInsert ps) m = bindE (omap_batchInsert ps m) (\<lambda>m'. Inr (m', []))"

fun omap_run :: "'n::len omap_op list \<Rightarrow> 'n omap \<Rightarrow> ('n omap \<times> string list list) res" where
  "omap_run [] m = Inr (m, [])"
| "omap_run (c # cs) m = bindE (omap_do c m) (\<lambda>(m1, out). bindE (omap_run cs m1) (\<lambda>(m2, outs). Inr (m2, out # outs)))"

text \<open>The same operations on a finite map of strings; a batch search pads its results to 16 characters.\<close>

definition padded :: "string \<Rightarrow> string" where
  "padded v = v @ replicate (16 - length v) (CHR 0x00)"

lemma bytes_str_zeros: "bytes_str (replicate k 0) = replicate k (CHR 0x00)"
proof -
  have "char_of (0 :: nat) = CHR 0x00" by code_simp
  then show ?thesis by (simp add: bytes_str_def)
qed

lemma stored_padded: "bytes_str (pad_value v) = padded v"
  by (simp add: pad_value_def padded_def bytes_str_zeros)

fun map_do :: "'n::len omap_op \<Rightarrow> ('n Bid \<Rightarrow> string option) \<Rightarrow> ('n Bid \<Rightarrow> string option)" where
  "map_do (Insert k v) f = f(k \<mapsto> v)"
| "map_do (BatchInsert ps) f = f ++ sm_get ps"
| "map_do _ f = f"

fun map_out :: "'n::len omap_op \<Rightarrow> ('n Bid \<Rightarrow> string option) \<Rightarrow> string multiset" where
  "map_out (Insert k v) f = {#}"
| "map_out (BatchInsert ps) f = {#}"
| "map_out (Find k) f = {#case f k of None \<Rightarrow> '''' | Some v \<Rightarrow> v#}"
| "map_out (BatchSearch ks) f = mset (map padded (List.map_filter f ks))"

fun map_run :: "'n::len omap_op list \<Rightarrow> ('n Bid \<Rightarrow> string option) \<Rightarrow> string multiset list" where
  "map_run [] f = []"
| "map_run (c # cs) f = map_out c f # map_run cs (map_do c f)"

text \<open>
  The operations considered, on the map they are made on. A batch insertion is made on a map that is still empty, as the setup phases of the
  schemes make it: it does not read the buckets that it overwrites, so on a map with entries it can lose some.
\<close>

fun omap_op_ok :: "'n::len omap_op \<Rightarrow> ('n Bid \<Rightarrow> string option) \<Rightarrow> bool" where
  "omap_op_ok (Insert k v) f \<longleftrightarrow> good_key k \<and> good_value v"
| "omap_op_ok (Find k) f \<longleftrightarrow> bid_wf k"
| "omap_op_ok (BatchSearch ks) f \<longleftrightarrow> (\<forall>k \<in> set ks. bid_wf k)"
| "omap_op_ok (BatchInsert ps) f \<longleftrightarrow> f = Map.empty \<and> sm_wf ps \<and> (\<forall>(k, v) \<in> set ps. good_key k \<and> good_value v)"

fun omap_ops_ok :: "'n::len omap_op list \<Rightarrow> ('n Bid \<Rightarrow> string option) \<Rightarrow> bool" where
  "omap_ops_ok [] f \<longleftrightarrow> True"
| "omap_ops_ok (c # cs) f \<longleftrightarrow> omap_op_ok c f \<and> omap_ops_ok cs (map_do c f)"

fun inserted :: "'n::len omap_op \<Rightarrow> 'n Bid set" where
  "inserted (Insert k v) = {k}"
| "inserted (BatchInsert ps) = fst ` set ps"
| "inserted _ = {}"

lemma omap_do_ok:
  assumes "omap_map N m f" "omap_op_ok c f" "card (inserted c \<union> dom f) \<le> N"
  shows "\<exists>m' out. omap_do c m = Inr (m', out) \<and> omap_map N m' (map_do c f) \<and> mset out = map_out c f"
proof (cases c)
  case (Insert k v)
  then show ?thesis using omap_insert_ok[OF assms(1), of k v] assms(2,3) by auto
next
  case (Find k)
  then show ?thesis using omap_find_ok[OF assms(1), of k] assms(2) by auto
next
  case (BatchSearch ks)
  then show ?thesis using omap_batchSearch_ok[OF assms(1), of ks] assms(2) by (auto simp: stored_padded)
next
  case (BatchInsert ps)
  then have p: "f = Map.empty" "sm_wf ps" "\<forall>(k, v) \<in> set ps. good_key k \<and> good_value v" using assms(2) by simp_all
  have "card (fst ` set ps) = length ps" using sm_wf_distinct[OF p(2)] distinct_card by fastforce
  then have "length ps \<le> N" using assms(3) by (simp add: BatchInsert p(1))
  then show ?thesis using omap_batchInsert_ok[of N m ps] assms(1) p by (auto simp: BatchInsert)
qed

lemma dom_map_do: "dom (map_do c f) = inserted c \<union> dom f"
  by (cases c) (auto simp: dom_map_of_conv_image_fst)

lemma omap_run_ok:
  assumes "omap_map N m f" "omap_ops_ok cs f" "card (\<Union> (inserted ` set cs) \<union> dom f) \<le> N"
  shows "\<exists>m' outs. omap_run cs m = Inr (m', outs) \<and> map mset outs = map_run cs f"
  using assms
proof (induction cs arbitrary: m f)
  case Nil
  then show ?case by simp
next
  case (Cons c cs)
  have fin: "finite (\<Union> (inserted ` set (c # cs)) \<union> dom f)"
  proof -
    have "finite (inserted c)" for c by (cases c) simp_all
    then show ?thesis using omap.entries(1)[OF Cons.prems(1)] by blast
  qed
  have "card (inserted c \<union> dom f) \<le> card (\<Union> (inserted ` set (c # cs)) \<union> dom f)" by (rule card_mono[OF fin]) auto
  with Cons.prems omap_do_ok[of N m f c] obtain m1 out where
    1: "omap_do c m = Inr (m1, out)" "omap_map N m1 (map_do c f)" "mset out = map_out c f" by auto
  have "\<Union> (inserted ` set cs) \<union> dom (map_do c f) = \<Union> (inserted ` set (c # cs)) \<union> dom f" by (auto simp: dom_map_do)
  with Cons.IH[OF 1(2)] Cons.prems(2,3) obtain m2 outs where
    "omap_run cs m1 = Inr (m2, outs)" "map mset outs = map_run cs (map_do c f)" by auto
  with 1 show ?case by simp
qed

lemma OMAP_ok:
  assumes "cbc_good A" "\<forall>i. length (ivs i) = IV" "Z \<le> maxSize" "floor_log2 (maxSize div Z) \<le> 30"
    and "\<forall>i. rnd i < 2 ^ floor_log2 (maxSize div Z)" "\<forall>i. rnd' i < 2 ^ floor_log2 (maxSize div Z)"
    and "N \<le> capacity (floor_log2 (maxSize div Z))"
  shows "\<exists>m :: 'n::len omap. OMAP A ivs rnd rnd' maxSize key = Inr m \<and> omap_map N m Map.empty"
proof -
  from OMAP_rep[OF assms, of key] obtain m :: "'n omap" where m: "OMAP A ivs rnd rnd' maxSize key = Inr m" "omap_rep N m Leaf" by blast
  moreover have "lookup Leaf = (\<lambda>k. map_option pad_value (Map.empty k))" by (simp add: fun_eq_iff)
  ultimately show ?thesis unfolding omap_map_def by blast
qed

text \<open>
  C2. The oblivious map is a map. Over any block cipher whose decryption inverts its encryption, and whatever the
  random devices deliver, a run of insertions, searches, batch searches and batch insertions on a new map never fails and
  returns what the same operations on a finite map of strings return, as long as batch insertions are made while the map
  is empty and the distinct inserted keys do not exceed the capacity: keys have a non-zero start, values at most 16 characters and no zero
  character. Batch results come padded and in the order of the tree.
\<close>

theorem omap_refines_map:
  assumes "cbc_good A" "\<forall>i. length (ivs i) = IV" "Z \<le> maxSize" "floor_log2 (maxSize div Z) \<le> 30"
    and "\<forall>i. rnd i < 2 ^ floor_log2 (maxSize div Z)" "\<forall>i. rnd' i < 2 ^ floor_log2 (maxSize div Z)"
    and "omap_ops_ok cs Map.empty" "card (\<Union> (inserted ` set cs)) \<le> capacity (floor_log2 (maxSize div Z))"
  shows "\<exists>(m :: 'n::len omap) m' outs. OMAP A ivs rnd rnd' maxSize key = Inr m \<and> omap_run cs m = Inr (m', outs) \<and>
    map mset outs = map_run cs Map.empty"
proof -
  from OMAP_ok[OF assms(1-6) order_refl, of key] obtain m :: "'n omap" where
    m: "OMAP A ivs rnd rnd' maxSize key = Inr m" "omap_map (capacity (floor_log2 (maxSize div Z))) m Map.empty" by blast
  from omap_run_ok[OF m(2) assms(7)] assms(8) m(1) show ?thesis by auto
qed

definition sample_key :: "nat \<Rightarrow> 2 Bid" where
  "sample_key i = Bid_array (replicate 12 7 @ le_bytes 4 (int i))"

lemma sample_key_good: "good_key (sample_key i)"
proof -
  have "\<not> bid_eq_int (sample_key i) 0"
    by (simp add: bid_eq_int_def sample_key_def upt_rec nth_append)
  then show ?thesis by (simp add: good_key_def sample_key_def bid_wf_def ID_SIZE_def)
qed

lemma depth_16: "floor_log2 (16 div Z) = 2"
  by (simp add: Z_def floor_log2.simps)

lemma capacity_2: "capacity 2 = 11"
  by (simp add: capacity_def Z_def numeral_eq_Suc)

theorem omap_refines_map_witness:
  "\<exists>m m' outs. OMAP pad_cbc (\<lambda>_. replicate IV 0) (\<lambda>_. 0) (\<lambda>_. 1) 16 [] = Inr m \<and>
    omap_run [BatchInsert [(sample_key 2, ''b'')], Insert (sample_key 1) ''a'', Insert (sample_key 1) ''c'', Find (sample_key 1), Find (sample_key 3)] m =
      Inr (m', outs) \<and>
    map mset outs = [{#}, {#}, {#}, {#''c''#}, {#''''#}]"
proof -
  let ?cs = "[BatchInsert [(sample_key 2, ''b'')], Insert (sample_key 1) ''a'', Insert (sample_key 1) ''c'', Find (sample_key 1), Find (sample_key 3)]"
  have d: "sample_key 1 \<noteq> sample_key 2" "sample_key 3 \<noteq> sample_key 1" "sample_key 3 \<noteq> sample_key 2" by code_simp+
  have ok: "omap_ops_ok ?cs Map.empty"
    using sample_key_good by (simp add: good_value_def good_key_def sm_wf_def)
  have "card {sample_key 1, sample_key 2} \<le> 2" by (simp add: card_insert_if)
  then have c: "card (\<Union> (inserted ` set ?cs)) \<le> capacity (floor_log2 (16 div Z))" by (simp add: depth_16 capacity_2 insert_commute)
  have r: "map_run ?cs Map.empty = [{#}, {#}, {#}, {#''c''#}, {#''''#}]" using d by simp
  have "\<forall>i::nat. length (replicate IV (0::byte)) = IV" "Z \<le> 16" "floor_log2 (16 div Z) \<le> 30"
    "\<forall>i::nat. (0::nat) < 2 ^ floor_log2 (16 div Z)" "\<forall>i::nat. (1::nat) < 2 ^ floor_log2 (16 div Z)"
    by (simp_all add: depth_16, simp add: Z_def)
  from omap_refines_map[OF pad_cbc_good this ok c, of "[]"] show ?thesis by (simp only: r)
qed

end
