(* ===== verification/OrionRep.thy ===== *)
theory OrionRep
  imports OrionIndex OmapRep
begin

text \<open>
  Orion over any maps that keep the contract of \<open>string_map\<close>: removal, proved once for the oblivious maps and for the
  ordered maps of the setup phase, then insertion, search, setup and whole runs.
\<close>

section \<open>Removal\<close>

lemma dom_upd_present: "f k \<noteq> None \<Longrightarrow> dom (f(k \<mapsto> v)) = dom f"
  by auto

locale orion_map = string_map mfind mput mrep
  for mfind :: "2 Bid \<Rightarrow> 's \<Rightarrow> ('s \<times> string) res" and mput mrep
begin

lemma remove_live:
  assumes u: "mrep N u fu" and s: "mrep N s fs" and ix: "index N L R fu fs cnt lst" and w: "good_word w" and i: "i < length (L w)"
  shows "\<exists>u' s' fu' fs' cnt' lst'. remove_with mfind mput w (L w ! i) (u, s, cnt, lst) = Inr (u', s', cnt', lst') \<and>
    mrep N u' fu' \<and> mrep N s' fs' \<and>
    index N (L(w := swap_out i (L w))) (R(w := insert (L w ! i) (R w))) fu' fs' cnt' lst'"
proof -
  define xs where "xs = L w"
  let ?n = "length xs" and ?x = "xs ! i"
  have i': "i < ?n" using i by (simp add: xs_def)
  have N: "N < 2 ^ 31 - 1" using ix by (simp add: index_def)
  have nN: "?n \<le> N" using index_length[OF ix, of w] unfolding xs_def by linarith
  have wd: "word_ok (\<lambda>x. fu (obid w x)) (\<lambda>i. fs (obid w (int i))) xs (R w) (count_of cnt w) (count_of lst w)"
    using index_word[OF ix w] by (simp add: xs_def)
  then have c: "count_of cnt w = int ?n" "count_of lst w = List.last xs" and x32: "\<And>x. x \<in> set xs \<Longrightarrow> in_int32 x"
    and fu: "\<And>j. j < ?n \<Longrightarrow> fu (obid w (xs ! j)) = Some (to_string (int j + 1))"
    and fs: "\<And>j. j < ?n \<Longrightarrow> fs (obid w (int j + 1)) = Some (to_string (xs ! j))"
    using i' by (auto simp: word_ok_def add.commute)
  have i32: "in_int32 (int i + 1)" by (rule small_int32(2)[OF _ N]) (use i' nN in simp)
  have xs0: "xs \<noteq> []" using i' by auto
  then have la: "List.last xs = xs ! (?n - 1)" "List.last xs \<in> set xs" by (simp_all add: last_conv_nth)
  note dm = index_dom[OF ix]
  from find_present[OF u fu[OF i']] obtain u1 where u1: "mfind (obid w ?x) u = Inr (u1, to_string (int i + 1))" "mrep N u1 fu" by blast
  have m1: "good_value (to_string (-1))" by (rule to_string_good) (simp add: in_int32_def)
  from put_present[OF u1(2) _ m1 dm(1)] fu[OF i'] obtain u2 where
    u2: "mput (obid w ?x) (to_string (-1)) u1 = Inr u2" "mrep N u2 (fu(obid w ?x \<mapsto> to_string (-1)))" by blast
  have c32: "int32 (count_of cnt w - 1) = Inr (int ?n - 1)" using nN N c(1) by (simp add: int32_def in_int32_def)
  have cb: "createBid w y = Inr (obid w y)" for y by (rule createBid_ok[OF w])
  note rm = index_remove[OF ix w i, folded xs_def]
  show ?thesis
  proof (cases "?n = 1")
    case True
    then have sw: "swap_out i xs = []" "Suc i = ?n" using i' by (simp_all add: swap_out_def length_0_conv[symmetric] del: length_0_conv)
    have "remove_with mfind mput w ?x (u, s, cnt, lst) = Inr (u2, s, sm_put w (int ?n - 1) cnt, sm_erase w lst)"
      using u1(1) u2(1) c32 True i32 by (simp add: remove_with_def cb)
    moreover have "index N (L(w := swap_out i xs)) (R(w := insert ?x (R w))) (fu(obid w ?x \<mapsto> to_string (-1))) fs (sm_put w (int ?n - 1) cnt) (sm_erase w lst)"
      using rm(1)[of "sm_erase w lst"] sw by (simp add: count_of_erase)
    ultimately show ?thesis using u2(2) s unfolding xs_def by blast
  next
    case False
    then have n1: "0 < ?n - 1" "int ?n - 1 > 0" "swap_out i xs \<noteq> []" using i' by (auto simp: length_0_conv[symmetric] simp del: length_0_conv)
    let ?l' = "List.last (swap_out i xs)"
    have l32: "in_int32 ?l'"
    proof -
      have "?l' \<in> set (swap_out i xs)" using n1(3) by simp
      then have "?l' \<in> set xs" using swap_out_set(2)[of xs i] wd i' by (auto simp: word_ok_def)
      then show ?thesis by (rule x32)
    qed
    define fu' where "fu' = (if Suc i = ?n then fu(obid w ?x \<mapsto> to_string (-1))
                   else fu(obid w ?x \<mapsto> to_string (-1), obid w (List.last xs) \<mapsto> to_string (int i + 1)))"
    define fs' where "fs' = (if Suc i = ?n then fs else fs(obid w (int i + 1) \<mapsto> to_string (List.last xs)))"
    have "\<exists>u3 s1. (if int ?n - 1 + 1 \<noteq> int i + 1
        then let l = count_of lst w in bindE (createBid w l) (\<lambda>curKey. bindE (mput curKey (to_string (int i + 1)) u2) (\<lambda>u3.
             bindE (createBid w (int i + 1)) (\<lambda>curKey2. bindE (mput curKey2 (to_string l) s) (\<lambda>s1. Inr (u3, s1)))))
        else Inr (u2, s)) = Inr (u3, s1) \<and> mrep N u3 fu' \<and> mrep N s1 fs'"
    proof (cases "Suc i = ?n")
      case True
      then have "\<not> int ?n - 1 + 1 \<noteq> int i + 1" by linarith
      then show ?thesis using u2(2) s True by (simp add: fu'_def fs'_def)
    next
      case False
      let ?f = "fu(obid w ?x \<mapsto> to_string (-1))"
      have d: "dom ?f = dom fu" by (rule dom_upd_present) (simp add: fu[OF i'])
      have dc: "card (dom ?f) \<le> N" using dm(1) unfolding d .
      have "?f (obid w (List.last xs)) \<noteq> None" using fu[of "?n - 1"] i' la(1) by simp
      from put_present[OF u2(2) this to_string_good[OF i32] dc] obtain u3 where
        u3: "mput (obid w (List.last xs)) (to_string (int i + 1)) u2 = Inr u3" "mrep N u3 (?f(obid w (List.last xs) \<mapsto> to_string (int i + 1)))" by blast
      from put_present[OF s _ to_string_good[OF x32[OF la(2)]] dm(2), of "obid w (int i + 1)"] fs[OF i'] obtain s1 where
        s1: "mput (obid w (int i + 1)) (to_string (List.last xs)) s = Inr s1" "mrep N s1 (fs(obid w (int i + 1) \<mapsto> to_string (List.last xs)))" by auto
      have "int ?n - 1 + 1 \<noteq> int i + 1" using False by linarith
      then show ?thesis using u3 s1 False c(2) by (simp add: cb fu'_def fs'_def)
    qed
    then obtain u3 s1 where us: "(if int ?n - 1 + 1 \<noteq> int i + 1
        then let l = count_of lst w in bindE (createBid w l) (\<lambda>curKey. bindE (mput curKey (to_string (int i + 1)) u2) (\<lambda>u3.
             bindE (createBid w (int i + 1)) (\<lambda>curKey2. bindE (mput curKey2 (to_string l) s) (\<lambda>s1. Inr (u3, s1)))))
        else Inr (u2, s)) = Inr (u3, s1)" "mrep N u3 fu'" "mrep N s1 fs'" by blast
    have ix1: "index N (L(w := swap_out i xs)) (R(w := insert ?x (R w))) fu' fs' (sm_put w (int ?n - 1) cnt) (sm_put w ?l' lst)"
      unfolding fu'_def fs'_def by (rule rm(1)) (simp_all add: count_of_put)
    have ix2: "fs' (obid w (int ?n - 1)) = Some (to_string ?l')"
      unfolding fs'_def by (rule rm(2)[of "sm_put w ?l' lst"]) (simp_all add: count_of_put n1(3))
    from find_present[OF us(3) ix2] obtain s2 where
      s2: "mfind (obid w (int ?n - 1)) s1 = Inr (s2, to_string ?l')" "mrep N s2 fs'" by blast
    have cond: "int ?n - 1 = int i \<longleftrightarrow> int ?n = int i + 1" by linarith
    have "remove_with mfind mput w ?x (u, s, cnt, lst) = Inr (u3, s2, sm_put w (int ?n - 1) cnt, sm_put w ?l' lst)"
      using u1(1) u2(1) c32 n1(2) i32 us(1) s2(1) l32 by (simp add: remove_with_def cb cond split del: if_split cong: if_cong)
    then show ?thesis using us(2) s2(2) ix1 unfolding xs_def by blast
  qed
qed

lemma remove_dead:
  assumes u: "mrep N u fu" and ix: "index N L R fu fs cnt lst" and w: "good_word w" and x: "x \<in> R w"
  shows "\<exists>u'. remove_with mfind mput w x (u, s, cnt, lst) = Inr (u', s, cnt, lst) \<and> mrep N u' fu"
proof -
  have "fu (obid w x) = Some (to_string (-1))" using index_word[OF ix w] x by (simp add: word_ok_def)
  from find_present[OF u this] obtain u' where u': "mfind (obid w x) u = Inr (u', to_string (-1))" "mrep N u' fu" by blast
  have "stoi (to_string (-1)) = Inr (-1)" by (rule stoi_to_string) (simp add: in_int32_def)
  then show ?thesis using u' by (simp add: remove_with_def createBid_ok[OF w])
qed

end

text \<open>Removing what was never inserted: the empty string is not a number.\<close>

locale searched_orion_map = searched_map mfind mput mrep
  for mfind :: "2 Bid \<Rightarrow> 's \<Rightarrow> ('s \<times> string) res" and mput mrep
begin

lemma remove_absent:
  assumes u: "mrep N u fu" and ix: "index N L R fu fs cnt lst" and w: "good_word w" and x: "in_int32 x" "x \<notin> set (L w) \<union> R w"
  shows "remove_with mfind mput w x (u, s, cnt, lst) = Inl Invalid_argument"
proof -
  have "fu (obid w x) = None" using index_word[OF ix w] x by (simp add: word_ok_def)
  from find_absent[OF u obid_good[OF w] this] show ?thesis by (auto simp: remove_with_def createBid_ok[OF w])
qed

end

sublocale searched_orion_map \<subseteq> orion_map mfind mput mrep
  by unfold_locales

interpretation index_map: searched_orion_map omap_find omap_insert omap_map
  by unfold_locales

section \<open>The ordered maps of the setup phase\<close>

definition pairs_map :: "nat \<Rightarrow> ('n::len Bid, string) smap \<Rightarrow> ('n Bid \<Rightarrow> string option) \<Rightarrow> bool" where
  "pairs_map N m f \<longleftrightarrow> sm_wf m \<and> f = sm_get m \<and> (\<forall>k v. f k = Some v \<longrightarrow> good_key k \<and> good_value v)"

interpretation pairs: string_map pairs_get pairs_put pairs_map
  by unfold_locales (auto simp: pairs_map_def pairs_get_def pairs_put_def sm_get_put sm_wf_put finite_dom_map_of split: if_splits)

interpretation setup_map: orion_map pairs_get pairs_put pairs_map
  by unfold_locales

end
