(* ===== verification/OrionRun.thy ===== *)
theory OrionRun
  imports OrionRep
begin

text \<open>
  Runs of Orion: a setup phase, then insertions, removals and searches. A search returns exactly the identifiers
  that were inserted and not removed; an identifier that was removed once is not taken back by \<open>insert\<close>.
\<close>

section \<open>Single operations\<close>

definition orion_inv :: "nat \<Rightarrow> (string \<Rightarrow> int list) \<Rightarrow> (string \<Rightarrow> int set) \<Rightarrow> orion \<Rightarrow> bool" where
  "orion_inv N L R st \<longleftrightarrow> (\<exists>fu fs. omap_map N (updt st) fu \<and> omap_map N (srch st) fs \<and> index N L R fu fs (UpdtCnt st) (LastIND st))"

lemma orion_insert_new:
  assumes inv: "orion_inv N L R st" and w: "good_word w" and x: "in_int32 x" "x \<notin> set (L w) \<union> R w"
    and room: "card (insert (w, x) (held L R)) \<le> N"
  shows "\<exists>st'. orion_insert w x st = Inr st' \<and> orion_inv N (L(w := L w @ [x])) R st'"
proof -
  from inv obtain fu fs where u: "omap_map N (updt st) fu" and s: "omap_map N (srch st) fs"
    and ix: "index N L R fu fs (UpdtCnt st) (LastIND st)" by (auto simp: orion_inv_def)
  let ?c = "count_of (UpdtCnt st) w + 1"
  have x': "x \<notin> set (L w)" using x(2) by simp
  note ap = index_append[OF ix w x(1) x' room]
  have "fu (obid w x) = None" using index_word[OF ix w] x by (simp add: word_ok_def)
  from omap.find_absent[OF u obid_good[OF w] this] obtain u1 where
    u1: "omap_find (obid w x) (updt st) = Inr (u1, [])" "omap_map N u1 fu" by blast
  from omap.put[OF u1(2) obid_good[OF w] to_string_good[OF ap(2)] ap(3)] obtain u2 where
    u2: "omap_insert (obid w x) (to_string ?c) u1 = Inr u2" "omap_map N u2 (fu(obid w x \<mapsto> to_string ?c))" by blast
  from omap.put[OF s obid_good[OF w] to_string_good[OF x(1)] ap(4)] obtain s1 where
    s1: "omap_insert (obid w ?c) (to_string x) (srch st) = Inr s1" "omap_map N s1 (fs(obid w ?c \<mapsto> to_string x))" by blast
  have R: "R(w := R w - {x}) = R" using x(2) by auto
  have "orion_insert w x st = Inr (st\<lparr>updt := u2, srch := s1, UpdtCnt := sm_put w ?c (UpdtCnt st), LastIND := sm_put w x (LastIND st)\<rparr>)"
    using u1(1) u2(1) s1(1) ap(2) by (simp add: orion_insert_def createBid_ok[OF w] int32_def)
  moreover have "orion_inv N (L(w := L w @ [x])) R
      (st\<lparr>updt := u2, srch := s1, UpdtCnt := sm_put w ?c (UpdtCnt st), LastIND := sm_put w x (LastIND st)\<rparr>)"
    using u2(2) s1(2) ap(1)[unfolded R] by (auto simp: orion_inv_def)
  ultimately show ?thesis by blast
qed

lemma orion_insert_held:
  assumes inv: "orion_inv N L R st" and w: "good_word w" and x: "x \<in> set (L w) \<union> R w"
  shows "\<exists>st'. orion_insert w x st = Inr st' \<and> orion_inv N L R st'"
proof -
  from inv obtain fu fs where u: "omap_map N (updt st) fu" and s: "omap_map N (srch st) fs"
    and ix: "index N L R fu fs (UpdtCnt st) (LastIND st)" by (auto simp: orion_inv_def)
  obtain y where y: "fu (obid w x) = Some (to_string y)"
  proof (cases "x \<in> R w")
    case True
    then have "fu (obid w x) = Some (to_string (-1))" using index_word[OF ix w] by (simp add: word_ok_def)
    then show ?thesis by (rule that)
  next
    case False
    then obtain i where "i < length (L w)" "x = L w ! i" using x by (auto simp: in_set_conv_nth)
    then have "fu (obid w x) = Some (to_string (int i + 1))" using index_word[OF ix w] by (simp add: word_ok_def)
    then show ?thesis by (rule that)
  qed
  from omap.find_present[OF u y] obtain u1 where
    "omap_find (obid w x) (updt st) = Inr (u1, to_string y)" "omap_map N u1 fu" by blast
  then show ?thesis using s ix by (auto simp: orion_insert_def createBid_ok[OF w] orion_inv_def)
qed

lemma orion_remove_live:
  assumes inv: "orion_inv N L R st" and w: "good_word w" and i: "i < length (L w)"
  shows "\<exists>st'. orion_remove w (L w ! i) st = Inr st' \<and>
    orion_inv N (L(w := swap_out i (L w))) (R(w := insert (L w ! i) (R w))) st'"
proof -
  from inv obtain fu fs where u: "omap_map N (updt st) fu" and s: "omap_map N (srch st) fs"
    and ix: "index N L R fu fs (UpdtCnt st) (LastIND st)" by (auto simp: orion_inv_def)
  from index_map.remove_live[OF u s ix w i] obtain u' s' fu' fs' cnt' lst' where
    "remove_with omap_find omap_insert w (L w ! i) (updt st, srch st, UpdtCnt st, LastIND st) = Inr (u', s', cnt', lst')"
    "omap_map N u' fu'" "omap_map N s' fs'"
    "index N (L(w := swap_out i (L w))) (R(w := insert (L w ! i) (R w))) fu' fs' cnt' lst'" by blast
  then show ?thesis by (auto simp: orion_remove_def orion_inv_def)
qed

lemma orion_remove_dead:
  assumes inv: "orion_inv N L R st" and w: "good_word w" and x: "x \<in> R w"
  shows "\<exists>st'. orion_remove w x st = Inr st' \<and> orion_inv N L R st'"
proof -
  from inv obtain fu fs where u: "omap_map N (updt st) fu" and s: "omap_map N (srch st) fs"
    and ix: "index N L R fu fs (UpdtCnt st) (LastIND st)" by (auto simp: orion_inv_def)
  from index_map.remove_dead[OF u ix w x, of "srch st"] obtain u' where
    "remove_with omap_find omap_insert w x (updt st, srch st, UpdtCnt st, LastIND st) = Inr (u', srch st, UpdtCnt st, LastIND st)"
    "omap_map N u' fu" by blast
  then show ?thesis using s ix by (auto simp: orion_remove_def orion_inv_def)
qed

lemma orion_remove_absent:
  assumes "orion_inv N L R st" "good_word w" "in_int32 x" "x \<notin> set (L w) \<union> R w"
  shows "orion_remove w x st = Inl Invalid_argument"
proof -
  from assms(1) obtain fu fs where u: "omap_map N (updt st) fu" and ix: "index N L R fu fs (UpdtCnt st) (LastIND st)"
    by (auto simp: orion_inv_def)
  show ?thesis by (simp add: orion_remove_def index_map.remove_absent[OF u ix assms(2-4)])
qed

section \<open>Search\<close>

lemma stoi_padded: "in_int32 x \<Longrightarrow> stoi (padded (to_string x)) = Inr x"
proof -
  assume x: "in_int32 x"
  have "\<not> is_digit (CHR 0x00)" by (simp add: is_digit_def)
  then show ?thesis unfolding padded_def by (intro stoi_to_string_append[OF x]) (cases "16 - length (to_string x)", simp_all)
qed

lemma orion_search_ok:
  assumes inv: "orion_inv N L R st" and w: "good_word w"
  shows "\<exists>st' res. orion_search w st = Inr (st', res) \<and> orion_inv N L R st' \<and> mset res = mset (L w)"
proof -
  from inv obtain fu fs where u: "omap_map N (updt st) fu" and s: "omap_map N (srch st) fs"
    and ix: "index N L R fu fs (UpdtCnt st) (LastIND st)" by (auto simp: orion_inv_def)
  note wd = index_word[OF ix w]
  let ?n = "length (L w)" and ?bs = "map (obid w) (map int [1..<Suc (length (L w))])"
  have cnt: "count_of (UpdtCnt st) w = int ?n" and x32: "\<And>x. x \<in> set (L w) \<Longrightarrow> in_int32 x"
    and fs: "\<And>i. i < ?n \<Longrightarrow> fs (obid w (int (Suc i))) = Some (to_string (L w ! i))" using wd by (simp_all add: word_ok_def)
  have ns: "(case sm_get (UpdtCnt st) w of None \<Rightarrow> [] | Some n \<Rightarrow> map int [1..<Suc (nat n)]) = map int [1..<Suc ?n]"
    using cnt by (auto simp: count_of_def split: option.splits)
  have "mapE (createBid w) (map int [1..<Suc ?n]) = Inr ?bs" by (rule mapE_Inr) (rule createBid_ok[OF w])
  moreover have "\<forall>k \<in> set ?bs. bid_wf k" using obid_wf[OF w] by simp
  from omap_batchSearch_ok[OF s this] obtain s' vs where
    s': "omap_batchSearch ?bs (srch st) = Inr (s', vs)" "omap_map N s' fs"
      "mset vs = mset (map (\<lambda>v. bytes_str (pad_value v)) (List.map_filter fs ?bs))" by blast
  moreover have "List.map_filter fs ?bs = map to_string (L w)"
  proof -
    have "map fs ?bs = map (\<lambda>x. Some (to_string x)) (L w)"
      by (rule nth_equalityI) (use fs in \<open>simp_all del: upt_Suc add: add.commute\<close>)
    moreover have "List.map_filter fs ks = List.map_filter (\<lambda>v. v) (map fs ks)" for ks
      by (induction ks) (simp_all add: map_filter_simps split: option.split)
    moreover have "List.map_filter (\<lambda>v. v) (map (\<lambda>x. Some (to_string x)) xs) = map to_string xs" for xs
      by (induction xs) (simp_all add: map_filter_simps)
    ultimately show ?thesis by metis
  qed
  then have vs: "mset vs = mset (map (\<lambda>x. padded (to_string x)) (L w))" using s'(3) by (simp add: stored_padded o_def multiset.map_comp)
  let ?g = "\<lambda>v. case stoi v of Inr x \<Rightarrow> x | Inl _ \<Rightarrow> 0"
  have "set vs = (\<lambda>x. padded (to_string x)) ` set (L w)" using mset_eq_setD[OF vs] by simp
  then have "mapE stoi vs = Inr (map ?g vs)" by (intro mapE_Inr) (auto simp: stoi_padded x32)
  moreover have "mset (map ?g vs) = mset (L w)"
  proof -
    have "mset (map ?g vs) = image_mset ?g (mset (map (\<lambda>x. padded (to_string x)) (L w)))" using vs by simp
    also have "\<dots> = mset (map (\<lambda>x. ?g (padded (to_string x))) (L w))" by (simp add: multiset.map_comp o_def)
    also have "map (\<lambda>x. ?g (padded (to_string x))) (L w) = L w" using x32 by (intro map_idI) (simp add: stoi_padded)
    finally show ?thesis .
  qed
  ultimately have "orion_search w st = Inr (st\<lparr>srch := s'\<rparr>, map ?g vs)" "mset (map ?g vs) = mset (L w)"
    using ns by (simp_all add: orion_search_def)
  then show ?thesis using u s'(2) ix by (auto simp: orion_inv_def)
qed

section \<open>Runs\<close>

datatype orion_op = Ins string int | Rem string int | Srch string

fun orion_do :: "orion_op \<Rightarrow> orion \<Rightarrow> (orion \<times> int list) res" where
  "orion_do (Ins w x) st = bindE (orion_insert w x st) (\<lambda>st'. Inr (st', []))"
| "orion_do (Rem w x) st = bindE (orion_remove w x st) (\<lambda>st'. Inr (st', []))"
| "orion_do (Srch w) st = orion_search w st"

fun orion_run :: "orion_op list \<Rightarrow> orion \<Rightarrow> (orion \<times> int list list) res" where
  "orion_run [] st = Inr (st, [])"
| "orion_run (c # cs) st = bindE (orion_do c st) (\<lambda>(st1, out). bindE (orion_run cs st1) (\<lambda>(st2, outs). Inr (st2, out # outs)))"

text \<open>
  What is expected of the operations, on two sets per keyword: the identifiers that are in the index and those that
  were removed from it.
\<close>

type_synonym orion_spec = "(string \<Rightarrow> int set) \<times> (string \<Rightarrow> int set)"

fun spec_do :: "orion_op \<Rightarrow> orion_spec \<Rightarrow> (orion_spec \<times> int multiset) res" where
  "spec_do (Ins w x) (A, D) = Inr ((if x \<in> D w then A else A(w := insert x (A w)), D), {#})"
| "spec_do (Rem w x) (A, D) =
     (if x \<in> A w \<union> D w then Inr ((A(w := A w - {x}), D(w := insert x (D w))), {#}) else Inl Invalid_argument)"
| "spec_do (Srch w) (A, D) = Inr ((A, D), mset_set (A w))"

fun spec_run :: "orion_op list \<Rightarrow> orion_spec \<Rightarrow> int multiset list res" where
  "spec_run [] S = Inr []"
| "spec_run (c # cs) S = bindE (spec_do c S) (\<lambda>(S1, out). bindE (spec_run cs S1) (\<lambda>outs. Inr (out # outs)))"

fun orion_op_ok :: "orion_op \<Rightarrow> bool" where
  "orion_op_ok (Ins w x) \<longleftrightarrow> good_word w \<and> in_int32 x"
| "orion_op_ok (Rem w x) \<longleftrightarrow> good_word w \<and> in_int32 x"
| "orion_op_ok (Srch w) \<longleftrightarrow> good_word w"

fun new_pairs :: "orion_op \<Rightarrow> (string \<times> int) set" where
  "new_pairs (Ins w x) = {(w, x)}"
| "new_pairs _ = {}"

text \<open>The outcome of a run: the exception, or the results of the searches, each up to order.\<close>

definition outcome :: "(orion \<times> int list list) res \<Rightarrow> int multiset list res" where
  "outcome r = (case r of Inl e \<Rightarrow> Inl e | Inr (st, os) \<Rightarrow> Inr (map mset os))"

definition spec_of :: "(string \<Rightarrow> int list) \<Rightarrow> (string \<Rightarrow> int set) \<Rightarrow> orion_spec" where
  "spec_of L R = (\<lambda>w. set (L w), R)"

lemma upd_idem: "x \<notin> set (L w) \<Longrightarrow> (\<lambda>w. set (L w))(w := set (L w) - {x}) = (\<lambda>w. set (L w))"
    "x \<in> R w \<Longrightarrow> R(w := insert x (R w)) = R"
  by (simp_all add: fun_eq_iff insert_absorb)

lemma spec_of_upd: "spec_of (L(w := ys)) (R(w := Q)) = ((\<lambda>w. set (L w))(w := set ys), R(w := Q))"
  by (simp add: spec_of_def fun_eq_iff)

lemma orion_inv_word:
  assumes "orion_inv N L R st" "good_word w"
  shows "distinct (L w)" "set (L w) \<inter> R w = {}"
  using assms index_word by (auto simp: orion_inv_def word_ok_def dest!: index_word[OF _ assms(2)])

lemma orion_do_ok:
  assumes inv: "orion_inv N L R st" and ok: "orion_op_ok c" and U: "held L R \<subseteq> U" "new_pairs c \<subseteq> U" "finite U" "card U \<le> N"
  shows "case spec_do c (spec_of L R) of
      Inl e \<Rightarrow> orion_do c st = Inl e
    | Inr (S, out) \<Rightarrow> (\<exists>st' res L' R'. orion_do c st = Inr (st', res) \<and> mset res = out \<and> S = spec_of L' R' \<and> orion_inv N L' R' st' \<and> held L' R' \<subseteq> U)"
proof (cases c)
  case (Ins w x)
  then have w: "good_word w" "in_int32 x" using ok by simp_all
  show ?thesis
  proof (cases "x \<in> set (L w) \<union> R w")
    case True
    from orion_insert_held[OF inv w(1) True] obtain st' where st': "orion_insert w x st = Inr st'" "orion_inv N L R st'" by blast
    have "(if x \<in> R w then \<lambda>w. set (L w) else (\<lambda>w. set (L w))(w := insert x (set (L w)))) = (\<lambda>w. set (L w))"
      using True by (auto simp: fun_eq_iff)
    with st' U(1) show ?thesis by (auto simp: Ins spec_of_def intro!: exI[of _ L])
  next
    case False
    have "card (insert (w, x) (held L R)) \<le> N"
      using card_mono[OF U(3), of "insert (w, x) (held L R)"] U(1,2,4) by (simp add: Ins)
    from orion_insert_new[OF inv w False this] obtain st' where
      st': "orion_insert w x st = Inr st'" "orion_inv N (L(w := L w @ [x])) R st'" by blast
    have "held (L(w := L w @ [x])) R \<subseteq> U" using U(1,2) by (auto simp: held_def Ins split: if_splits)
    with st' False show ?thesis by (auto simp: Ins spec_of_def fun_eq_iff intro!: exI[of _ "L(w := L w @ [x])"])
  qed
next
  case (Rem w x)
  then have w: "good_word w" "in_int32 x" using ok by simp_all
  note d = orion_inv_word[OF inv w(1)]
  consider "x \<in> set (L w)" | "x \<in> R w" | "x \<notin> set (L w) \<union> R w" by blast
  then show ?thesis
  proof cases
    case 1
    then obtain i where i: "i < length (L w)" "x = L w ! i" by (auto simp: in_set_conv_nth)
    from orion_remove_live[OF inv w(1) i(1)] obtain st' where
      st': "orion_remove w x st = Inr st'" "orion_inv N (L(w := swap_out i (L w))) (R(w := insert x (R w))) st'" by (auto simp: i(2))
    have s: "set (swap_out i (L w)) = set (L w) - {x}" using swap_out_set(2)[OF d(1) i(1)] i(2) by simp
    have "held (L(w := swap_out i (L w))) (R(w := insert x (R w))) \<subseteq> U" using U(1) 1 s by (auto simp: held_def split: if_splits)
    moreover have "spec_of (L(w := swap_out i (L w))) (R(w := insert x (R w))) = ((\<lambda>w. set (L w))(w := set (L w) - {x}), R(w := insert x (R w)))"
      by (simp only: spec_of_upd s)
    then have "spec_do c (spec_of L R) = Inr (spec_of (L(w := swap_out i (L w))) (R(w := insert x (R w))), {#})"
      using 1 by (simp add: Rem spec_of_def[of L R])
    ultimately show ?thesis using st' by (simp add: Rem) blast
  next
    case 2
    from orion_remove_dead[OF inv w(1) 2] obtain st' where st': "orion_remove w x st = Inr st'" "orion_inv N L R st'" by blast
    have "(\<lambda>w. set (L w))(w := set (L w) - {x}) = (\<lambda>w. set (L w))" "R(w := insert x (R w)) = R"
      using upd_idem(1)[of x L w] upd_idem(2)[of x R w] 2 d(2) by blast+
    with st' U(1) 2 show ?thesis by (auto simp: Rem spec_of_def intro!: exI[of _ L])
  next
    case 3
    with orion_remove_absent[OF inv w 3] show ?thesis by (simp add: Rem spec_of_def)
  qed
next
  case (Srch w)
  then have w: "good_word w" using ok by simp
  from orion_search_ok[OF inv w] obtain st' res where
    "orion_search w st = Inr (st', res)" "orion_inv N L R st'" "mset res = mset (L w)" by blast
  moreover have "mset (L w) = mset_set (set (L w))" using orion_inv_word(1)[OF inv w] by (simp add: mset_set_set)
  ultimately show ?thesis using U(1) by (auto simp: Srch spec_of_def intro!: exI[of _ L])
qed

lemma orion_run_ok:
  assumes "orion_inv N L R st" "\<forall>c \<in> set cs. orion_op_ok c" "held L R \<subseteq> U" "\<Union> (new_pairs ` set cs) \<subseteq> U" "finite U" "card U \<le> N"
  shows "outcome (orion_run cs st) = spec_run cs (spec_of L R)"
  using assms
proof (induction cs arbitrary: st L R)
  case Nil
  then show ?case by (simp add: outcome_def)
next
  case (Cons c cs)
  note d = orion_do_ok[OF Cons.prems(1) _ Cons.prems(3) _ Cons.prems(5,6), of c]
  show ?case
  proof (cases "spec_do c (spec_of L R)")
    case (Inl e)
    then show ?thesis using d Cons.prems(2,4) by (simp add: outcome_def)
  next
    case (Inr q)
    obtain S out where q: "q = (S, out)" by fastforce
    from d Cons.prems(2,4) Inr q obtain st1 res L' R' where
      1: "orion_do c st = Inr (st1, res)" "mset res = out" "S = spec_of L' R'" "orion_inv N L' R' st1" "held L' R' \<subseteq> U" by auto
    have "outcome (orion_run cs st1) = spec_run cs S" using Cons.IH[OF 1(4) _ 1(5)] Cons.prems(2,4-6) 1(3) by simp
    then have "spec_run cs S = outcome (orion_run cs st1)" ..
    then show ?thesis using 1(1,2) Inr q by (cases "orion_run cs st1") (auto simp: outcome_def)
  qed
qed

section \<open>Setup\<close>

datatype setup_op = SIns string int | SRem string int

fun setup_do :: "setup_op \<Rightarrow> orion \<Rightarrow> orion res" where
  "setup_do (SIns w x) st = setupInsert w x st"
| "setup_do (SRem w x) st = setupRemove w x st"

definition orion_setup :: "setup_op list \<Rightarrow> orion \<Rightarrow> orion res" where
  "orion_setup ss st = bindE (foldE setup_do ss (beginSetup st)) endSetup"

text \<open>
  Setup does not look whether an identifier is in the index, so it must not insert one twice; it must not remove
  one that was never inserted. An identifier that was removed may come back.
\<close>

fun setup_spec :: "setup_op list \<Rightarrow> orion_spec \<Rightarrow> orion_spec option" where
  "setup_spec [] S = Some S"
| "setup_spec (SIns w x # ss) (A, D) =
     (if good_word w \<and> in_int32 x \<and> x \<notin> A w then setup_spec ss (A(w := insert x (A w)), D(w := D w - {x})) else None)"
| "setup_spec (SRem w x # ss) (A, D) =
     (if good_word w \<and> x \<in> A w \<union> D w then setup_spec ss (A(w := A w - {x}), D(w := insert x (D w))) else None)"

fun setup_pairs :: "setup_op \<Rightarrow> (string \<times> int) set" where
  "setup_pairs (SIns w x) = {(w, x)}"
| "setup_pairs (SRem w x) = {}"

definition setup_inv :: "nat \<Rightarrow> (string \<Rightarrow> int list) \<Rightarrow> (string \<Rightarrow> int set) \<Rightarrow> orion \<Rightarrow> bool" where
  "setup_inv N L R st \<longleftrightarrow> (\<exists>fu fs. pairs_map N (setupPairs1 st) fu \<and> pairs_map N (setupPairs2 st) fs \<and>
     index N L R fu fs (UpdtCnt st) (LastIND st)) \<and> omap_map N (updt st) Map.empty \<and> omap_map N (srch st) Map.empty"

lemma setup_insert_ok:
  assumes inv: "setup_inv N L R st" and w: "good_word w" and x: "in_int32 x" "x \<notin> set (L w)"
    and room: "card (insert (w, x) (held L R)) \<le> N"
  shows "\<exists>st'. setupInsert w x st = Inr st' \<and> setup_inv N (L(w := L w @ [x])) (R(w := R w - {x})) st'"
proof -
  from inv obtain fu fs where u: "pairs_map N (setupPairs1 st) fu" and s: "pairs_map N (setupPairs2 st) fs"
    and ix: "index N L R fu fs (UpdtCnt st) (LastIND st)" by (auto simp: setup_inv_def)
  let ?c = "count_of (UpdtCnt st) w + 1"
  note ap = index_append[OF ix w x room]
  from pairs.put[OF u obid_good[OF w] to_string_good[OF ap(2)] ap(3)] have
    "pairs_map N (sm_put (obid w x) (to_string ?c) (setupPairs1 st)) (fu(obid w x \<mapsto> to_string ?c))" by (simp add: pairs_put_def)
  moreover from pairs.put[OF s obid_good[OF w] to_string_good[OF x(1)] ap(4)] have
    "pairs_map N (sm_put (obid w ?c) (to_string x) (setupPairs2 st)) (fs(obid w ?c \<mapsto> to_string x))" by (simp add: pairs_put_def)
  ultimately show ?thesis
    using inv ap(1,2) by (auto simp: setupInsert_def createBid_ok[OF w] int32_def setup_inv_def)
qed

lemma setup_remove_ok:
  assumes inv: "setup_inv N L R st" and w: "good_word w"
  shows "i < length (L w) \<Longrightarrow> \<exists>st'. setupRemove w (L w ! i) st = Inr st' \<and>
      setup_inv N (L(w := swap_out i (L w))) (R(w := insert (L w ! i) (R w))) st'"
    and "x \<in> R w \<Longrightarrow> \<exists>st'. setupRemove w x st = Inr st' \<and> setup_inv N L R st'"
proof -
  from inv obtain fu fs where u: "pairs_map N (setupPairs1 st) fu" and s: "pairs_map N (setupPairs2 st) fs"
    and ix: "index N L R fu fs (UpdtCnt st) (LastIND st)" by (auto simp: setup_inv_def)
  show "\<exists>st'. setupRemove w (L w ! i) st = Inr st' \<and> setup_inv N (L(w := swap_out i (L w))) (R(w := insert (L w ! i) (R w))) st'"
    if i: "i < length (L w)"
  proof -
    from setup_map.remove_live[OF u s ix w i] obtain u' s' fu' fs' cnt' lst' where
      "remove_with pairs_get pairs_put w (L w ! i) (setupPairs1 st, setupPairs2 st, UpdtCnt st, LastIND st) = Inr (u', s', cnt', lst')"
      "pairs_map N u' fu'" "pairs_map N s' fs'"
      "index N (L(w := swap_out i (L w))) (R(w := insert (L w ! i) (R w))) fu' fs' cnt' lst'" by blast
    then show ?thesis using inv by (auto simp: setupRemove_def setup_inv_def)
  qed
  show "\<exists>st'. setupRemove w x st = Inr st' \<and> setup_inv N L R st'" if x: "x \<in> R w"
  proof -
    from setup_map.remove_dead[OF u ix w x, of "setupPairs2 st"] obtain u' where
      "remove_with pairs_get pairs_put w x (setupPairs1 st, setupPairs2 st, UpdtCnt st, LastIND st) = Inr (u', setupPairs2 st, UpdtCnt st, LastIND st)"
      "pairs_map N u' fu" by blast
    then show ?thesis using inv s ix by (auto simp: setupRemove_def setup_inv_def)
  qed
qed

lemma index_disjoint: "setup_inv N L R st \<Longrightarrow> good_word w \<Longrightarrow> distinct (L w) \<and> set (L w) \<inter> R w = {}"
  by (auto simp: setup_inv_def word_ok_def dest!: index_word)

lemma setup_ops_ok:
  assumes "setup_inv N L R st" "setup_spec ss (spec_of L R) = Some S" "held L R \<subseteq> U" "\<Union> (setup_pairs ` set ss) \<subseteq> U" "finite U" "card U \<le> N"
  shows "\<exists>st' L' R'. foldE setup_do ss st = Inr st' \<and> setup_inv N L' R' st' \<and> S = spec_of L' R' \<and> held L' R' \<subseteq> U"
  using assms
proof (induction ss arbitrary: st L R)
  case Nil
  then show ?case by auto
next
  case (Cons c ss)
  show ?case
  proof (cases c)
    case (SIns w x)
    have w: "good_word w" "in_int32 x" "x \<notin> set (L w)"
      and sp: "setup_spec ss (spec_of (L(w := L w @ [x])) (R(w := R w - {x}))) = Some S"
      using Cons.prems(2) by (auto simp: SIns spec_of_def fun_upd_def split: if_splits) (simp add: if_distrib[of set] cong: if_cong)
    have "card (insert (w, x) (held L R)) \<le> N"
      using card_mono[OF Cons.prems(5), of "insert (w, x) (held L R)"] Cons.prems(3,4,6) by (simp add: SIns)
    from setup_insert_ok[OF Cons.prems(1) w this] obtain st1 where
      st1: "setupInsert w x st = Inr st1" "setup_inv N (L(w := L w @ [x])) (R(w := R w - {x})) st1" by blast
    have "held (L(w := L w @ [x])) (R(w := R w - {x})) \<subseteq> U" using Cons.prems(3,4) by (auto simp: held_def SIns split: if_splits)
    from Cons.IH[OF st1(2) sp this] Cons.prems(4-6) st1(1) show ?thesis by (simp add: SIns)
  next
    case (SRem w x)
    have w: "good_word w" "x \<in> set (L w) \<union> R w"
      and sp: "setup_spec ss ((\<lambda>w. set (L w))(w := set (L w) - {x}), R(w := insert x (R w))) = Some S"
      using Cons.prems(2) by (auto simp: SRem spec_of_def split: if_splits)
    note d = index_disjoint[OF Cons.prems(1) w(1)]
    show ?thesis
    proof (cases "x \<in> R w")
      case True
      from setup_remove_ok(2)[OF Cons.prems(1) w(1) True] obtain st1 where st1: "setupRemove w x st = Inr st1" "setup_inv N L R st1" by blast
      have "(\<lambda>w. set (L w))(w := set (L w) - {x}) = (\<lambda>w. set (L w))" "R(w := insert x (R w)) = R"
        using upd_idem(1)[of x L w] upd_idem(2)[of x R w] True d by blast+
      then have "setup_spec ss (spec_of L R) = Some S" using sp by (simp add: spec_of_def)
      from Cons.IH[OF st1(2) this Cons.prems(3)] Cons.prems(4-6) st1(1) show ?thesis by (simp add: SRem)
    next
      case False
      then obtain i where i: "i < length (L w)" "x = L w ! i" using w(2) by (auto simp: in_set_conv_nth)
      from setup_remove_ok(1)[OF Cons.prems(1) w(1) i(1)] obtain st1 where
        st1: "setupRemove w x st = Inr st1" "setup_inv N (L(w := swap_out i (L w))) (R(w := insert x (R w))) st1" by (auto simp: i(2))
      have s: "set (swap_out i (L w)) = set (L w) - {x}" using swap_out_set(2)[of "L w" i] d i by simp
      have "spec_of (L(w := swap_out i (L w))) (R(w := insert x (R w))) = ((\<lambda>w. set (L w))(w := set (L w) - {x}), R(w := insert x (R w)))"
        by (simp only: spec_of_upd s)
      then have sp': "setup_spec ss (spec_of (L(w := swap_out i (L w))) (R(w := insert x (R w)))) = Some S" using sp by simp
      have "held (L(w := swap_out i (L w))) (R(w := insert x (R w))) \<subseteq> U"
        using Cons.prems(3) s w(2) by (auto simp: held_def split: if_splits)
      from Cons.IH[OF st1(2) sp' this] Cons.prems(4-6) st1(1) show ?thesis by (simp add: SRem)
    qed
  qed
qed

lemma endSetup_ok:
  assumes "setup_inv N L R st"
  shows "\<exists>st'. endSetup st = Inr st' \<and> orion_inv N L R st'"
proof -
  from assms obtain fu fs where u: "pairs_map N (setupPairs1 st) fu" and s: "pairs_map N (setupPairs2 st) fs"
    and ix: "index N L R fu fs (UpdtCnt st) (LastIND st)" and e: "omap_map N (updt st) Map.empty" "omap_map N (srch st) Map.empty"
    by (auto simp: setup_inv_def)
  have len: "sm_wf ps" "length ps = card (dom f)" "\<forall>(k, v) \<in> set ps. good_key k \<and> good_value v" "f = sm_get ps"
    if p: "pairs_map N ps f" for ps f
  proof -
    show wf: "sm_wf ps" and f: "f = sm_get ps" using p by (simp_all add: pairs_map_def)
    show "length ps = card (dom f)" using distinct_card[OF sm_wf_distinct[OF wf]] by (simp add: f dom_map_of_conv_image_fst)
    show "\<forall>(k, v) \<in> set ps. good_key k \<and> good_value v" using p sm_in_set_iff[OF wf] by (auto simp: pairs_map_def)
  qed
  from omap_batchInsert_ok[OF e(1) len(1)[OF u] len(3)[OF u]] index_dom(1)[OF ix] len(2,4)[OF u] obtain u' where
    u': "omap_batchInsert (setupPairs1 st) (updt st) = Inr u'" "omap_map N u' fu" by auto
  from omap_batchInsert_ok[OF e(2) len(1)[OF s] len(3)[OF s]] index_dom(2)[OF ix] len(2,4)[OF s] obtain s' where
    s': "omap_batchInsert (setupPairs2 st) (srch st) = Inr s'" "omap_map N s' fs" by auto
  show ?thesis using u' s' ix by (auto simp: endSetup_def orion_inv_def)
qed

section \<open>Construction\<close>

definition devices_good :: "nat \<Rightarrow> devices \<Rightarrow> bool" where
  "devices_good depth d \<longleftrightarrow> (\<forall>i. length (d_ivs d i) = IV) \<and> (\<forall>i. d_oram d i < 2 ^ depth) \<and> (\<forall>i. d_avl d i < 2 ^ depth)"

text \<open>
  The conditions on the environment: the block cipher, the size of the index, and random devices that deliver
  initialisation vectors and leaf numbers in their range.
\<close>

definition orion_env :: "cbc \<Rightarrow> devices \<Rightarrow> devices \<Rightarrow> nat \<Rightarrow> bool" where
  "orion_env A d1 d2 maxSize \<longleftrightarrow> cbc_good A \<and> 0 < maxSize \<and> maxSize < 2 ^ 29 \<and>
     devices_good (floor_log2 maxSize) d1 \<and> devices_good (floor_log2 maxSize) d2"

lemma floor_log2_bound: "n < 2 ^ Suc k \<Longrightarrow> floor_log2 n \<le> k"
proof (induction k arbitrary: n)
  case 0
  then show ?case by (simp add: floor_log2.simps[of n])
next
  case (Suc k)
  show ?case
  proof (cases "n < 2")
    case True
    then show ?thesis by (simp add: floor_log2.simps[of n])
  next
    case False
    have "n div 2 < 2 ^ Suc k" using Suc.prems by (simp add: less_mult_imp_div_less mult.commute)
    with False Suc.IH show ?thesis by (simp add: floor_log2.simps[of n])
  qed
qed

lemma capacity_small:
  assumes "d \<le> 28"
  shows "capacity d < 2 ^ 31 - 1"
proof -
  have "(2::nat) ^ (d + 1) \<le> 2 ^ 29" using assms by (intro power_increasing) simp_all
  then have "Z * (2 ^ (d + 1) - 1) \<le> 4 * (2 ^ 29 - 1)" by (simp add: Z_def)
  then show ?thesis by (simp add: capacity_def min_def)
qed

lemma index_init: "N < 2 ^ 31 - 1 \<Longrightarrow> index N (\<lambda>_. []) (\<lambda>_. {}) Map.empty Map.empty [] []"
  by (simp add: index_def held_def word_ok_def count_of_def)

lemma Orion_ok:
  assumes "orion_env A d1 d2 maxSize"
  defines "N \<equiv> capacity (floor_log2 maxSize)"
  shows "\<exists>st. Orion A d1 d2 maxSize = Inr st \<and> orion_inv N (\<lambda>_. []) (\<lambda>_. {}) st \<and> setup_inv N (\<lambda>_. []) (\<lambda>_. {}) (beginSetup st)"
proof -
  have e: "cbc_good A" "0 < maxSize" "maxSize < 2 ^ 29" "devices_good (floor_log2 maxSize) d1" "devices_good (floor_log2 maxSize) d2"
    using assms(1) by (simp_all add: orion_env_def)
  have d: "floor_log2 maxSize \<le> 28" using floor_log2_bound[of maxSize 28] e(3) by simp
  have dz: "floor_log2 (maxSize * 4 div Z) = floor_log2 maxSize" by (simp add: Z_def)
  have m: "\<exists>m. open_map A dev (maxSize * 4) key = Inr m \<and> omap_map N m Map.empty" if g: "devices_good (floor_log2 maxSize) dev" for dev key
    unfolding open_map_def N_def
    by (rule OMAP_ok) (use e(1,2) d g in \<open>simp_all add: dz devices_good_def\<close>, simp add: Z_def)
  from m[OF e(4)] obtain s where s: "open_map A d1 (maxSize * 4) key1 = Inr s" "omap_map N s Map.empty" by blast
  from m[OF e(5)] obtain u where u: "open_map A d2 (maxSize * 4) key2 = Inr u" "omap_map N u Map.empty" by blast
  have "int32 (int maxSize * 4) = Inr (int maxSize * 4)" using e(3) by (simp add: int32_def in_int32_def)
  moreover have "index N (\<lambda>_. []) (\<lambda>_. {}) Map.empty Map.empty [] []" unfolding N_def by (rule index_init[OF capacity_small[OF d]])
  moreover have "pairs_map N [] Map.empty" by (simp add: pairs_map_def sm_wf_def)
  ultimately show ?thesis using s u by (auto simp: Orion_def orion_inv_def setup_inv_def beginSetup_def)
qed

section \<open>Properties\<close>

text \<open>
  C1. Orion answers correctly. A run of insertions, removals and searches on a new index has the outcome of the same
  operations on sets: every search returns the identifiers inserted under the keyword and not removed, each
  once (one that was removed stays removed), and a removal of something that was never inserted ends the run with \<open>invalid_argument\<close>. Keywords have 1 to
  12 characters, none of them zero; identifiers are of type \<open>int\<close>; the pairs inserted fit the capacity.
\<close>

theorem orion_run_correct:
  assumes "orion_env A d1 d2 maxSize" "\<forall>c \<in> set cs. orion_op_ok c" "card (\<Union> (new_pairs ` set cs)) \<le> capacity (floor_log2 maxSize)"
  shows "outcome (bindE (Orion A d1 d2 maxSize) (orion_run cs)) = spec_run cs (\<lambda>_. {}, \<lambda>_. {})"
proof -
  from Orion_ok[OF assms(1)] obtain st where
    st: "Orion A d1 d2 maxSize = Inr st" "orion_inv (capacity (floor_log2 maxSize)) (\<lambda>_. []) (\<lambda>_. {}) st" by blast
  have "finite (new_pairs c)" for c by (cases c) simp_all
  then have "finite (\<Union> (new_pairs ` set cs))" by simp
  from orion_run_ok[OF st(2) assms(2) _ order_refl this assms(3)] st(1) show ?thesis by (simp add: held_def spec_of_def)
qed

definition sample_devices :: devices where
  "sample_devices = \<lparr>d_ivs = \<lambda>_. replicate IV 0, d_oram = \<lambda>_. 1, d_avl = \<lambda>i. i mod 4\<rparr>"

lemma sample_env: "orion_env pad_cbc sample_devices sample_devices 4" "floor_log2 4 = 2"
proof -
  show l: "floor_log2 4 = 2" by (simp add: floor_log2.simps)
  show "orion_env pad_cbc sample_devices sample_devices 4"
    by (simp add: orion_env_def pad_cbc_good devices_good_def sample_devices_def l)
qed

theorem orion_run_correct_witness:
  "outcome (bindE (Orion pad_cbc sample_devices sample_devices 4)
     (orion_run [Ins ''test1'' 1, Ins ''test1'' 2, Ins ''test1'' 3, Srch ''test1'', Rem ''test1'' 1, Srch ''test1''])) =
   Inr [{#}, {#}, {#}, {#1, 2, 3#}, {#}, {#2, 3#}]"
proof -
  let ?cs = "[Ins ''test1'' 1, Ins ''test1'' 2, Ins ''test1'' 3, Srch ''test1'', Rem ''test1'' 1, Srch ''test1'']"
  have 1: "\<forall>c \<in> set ?cs. orion_op_ok c" by (simp add: good_word_def in_int32_def)
  have "card (\<Union> (new_pairs ` set ?cs)) \<le> 11" by (simp add: card_insert_if)
  then have 2: "card (\<Union> (new_pairs ` set ?cs)) \<le> capacity (floor_log2 4)" by (simp only: sample_env(2) capacity_2)
  have "spec_run ?cs (\<lambda>_. {}, \<lambda>_. {}) = Inr [{#}, {#}, {#}, {#1, 2, 3#}, {#}, {#2, 3#}]"
    by (simp add: insert_Diff_if)
  then show ?thesis using orion_run_correct[OF sample_env(1) 1 2] by simp
qed

text \<open>
  C26. Setup loads the index correctly. After \<open>beginSetup\<close>, insertions and removals in setup mode and \<open>endSetup\<close>, a run of insertions, removals
  and searches has the outcome of the same operations on the sets the setup operations lead to, where, other than outside setup, an identifier that is
  inserted again after its removal is in the index. In setup no identifier is inserted while it is in the index and only inserted ones are removed;
  keywords have 1 to 12 characters, none of them zero, identifiers are of type \<open>int\<close>, and the pairs fit the capacity.
\<close>

theorem orion_setup_correct:
  assumes "orion_env A d1 d2 maxSize" "setup_spec ss (\<lambda>_. {}, \<lambda>_. {}) = Some S" "\<forall>c \<in> set cs. orion_op_ok c"
    and "card (\<Union> (setup_pairs ` set ss) \<union> \<Union> (new_pairs ` set cs)) \<le> capacity (floor_log2 maxSize)"
  shows "outcome (bindE (bindE (Orion A d1 d2 maxSize) (orion_setup ss)) (orion_run cs)) = spec_run cs S"
proof -
  let ?U = "\<Union> (setup_pairs ` set ss) \<union> \<Union> (new_pairs ` set cs)" and ?N = "capacity (floor_log2 maxSize)"
  from Orion_ok[OF assms(1)] obtain st where
    st: "Orion A d1 d2 maxSize = Inr st" "setup_inv ?N (\<lambda>_. []) (\<lambda>_. {}) (beginSetup st)" by blast
  have "finite (new_pairs c)" "finite (setup_pairs a)" for c a by (cases c, simp_all) (cases a, simp_all)
  then have fin: "finite ?U" by simp
  have sp: "setup_spec ss (spec_of (\<lambda>_. []) (\<lambda>_. {})) = Some S" using assms(2) by (simp add: spec_of_def)
  have h: "held (\<lambda>_. []) (\<lambda>_. {}) \<subseteq> ?U" by (simp add: held_def)
  from setup_ops_ok[OF st(2) sp h Un_upper1 fin assms(4)] obtain st1 L R where
    s1: "foldE setup_do ss (beginSetup st) = Inr st1" "setup_inv ?N L R st1" "S = spec_of L R" "held L R \<subseteq> ?U" by blast
  from endSetup_ok[OF s1(2)] obtain st2 where s2: "endSetup st1 = Inr st2" "orion_inv ?N L R st2" by blast
  from orion_run_ok[OF s2(2) assms(3) s1(4) Un_upper2 fin assms(4)] s1 s2(1) st(1) show ?thesis by (simp add: orion_setup_def)
qed

theorem orion_setup_correct_witness:
  "outcome (bindE (bindE (Orion pad_cbc sample_devices sample_devices 4)
      (orion_setup [SIns ''w'' 1, SIns ''w'' 2, SRem ''w'' 1, SIns ''w'' 1])) (orion_run [Rem ''w'' 2, Srch ''w''])) = Inr [{#}, {#1#}]"
proof -
  let ?ss = "[SIns ''w'' 1, SIns ''w'' 2, SRem ''w'' 1, SIns ''w'' 1]" and ?cs = "[Rem ''w'' 2, Srch ''w'']"
  have w: "good_word ''w''" by (simp add: good_word_def)
  have "setup_spec ?ss (\<lambda>_. {}, \<lambda>_. {}) = Some ((\<lambda>_. {})(''w'' := {1, 2}), \<lambda>_. {})"
    using w by (auto simp: in_int32_def fun_eq_iff)
  moreover have "\<forall>c \<in> set ?cs. orion_op_ok c" using w by (simp add: in_int32_def)
  moreover have "card (\<Union> (setup_pairs ` set ?ss) \<union> \<Union> (new_pairs ` set ?cs)) \<le> 11" by (simp add: card_insert_if)
  then have "card (\<Union> (setup_pairs ` set ?ss) \<union> \<Union> (new_pairs ` set ?cs)) \<le> capacity (floor_log2 4)" by (simp only: sample_env(2) capacity_2)
  ultimately have "outcome (bindE (bindE (Orion pad_cbc sample_devices sample_devices 4) (orion_setup ?ss)) (orion_run ?cs)) =
      spec_run ?cs ((\<lambda>_. {})(''w'' := {1, 2}), \<lambda>_. {})" by (rule orion_setup_correct[OF sample_env(1)])
  then show ?thesis by (simp add: insert_Diff_if)
qed

text \<open>
  C27. An identifier that was removed cannot be inserted again: \<open>updt\<close> holds \<open>-1\<close> for it, which is not the empty string,
  so \<open>insert\<close> does nothing and the next search does not return it.
\<close>

theorem orion_reinsert_lost:
  assumes "orion_env A d1 d2 maxSize" "good_word w" "in_int32 x"
  shows "outcome (bindE (Orion A d1 d2 maxSize) (orion_run [Ins w x, Rem w x, Ins w x, Srch w])) = Inr [{#}, {#}, {#}, {#}]"
proof -
  let ?cs = "[Ins w x, Rem w x, Ins w x, Srch w]" and ?d = "floor_log2 maxSize"
  have "5 \<le> fib (?d + 5)" using fib_mono[of 5 "?d + 5"] by (simp add: numeral_eq_Suc)
  then have "1 \<le> fib (?d + 5) - 2" by linarith
  moreover have "2 \<le> (2::nat) ^ (?d + 1)" by simp
  then have "1 \<le> 4 * ((2::nat) ^ (?d + 1) - 1)" by linarith
  ultimately have "1 \<le> 4 * ((2::nat) ^ (?d + 1) - 1)" "1 \<le> fib (?d + 5) - 2" by blast+
  then have "1 \<le> capacity ?d" unfolding capacity_def Z_def by (rule min.boundedI)
  then have c: "card (\<Union> (new_pairs ` set ?cs)) \<le> capacity ?d" by simp
  have ok: "\<forall>c \<in> set ?cs. orion_op_ok c" using assms(2,3) by simp
  from Orion_ok[OF assms(1)] obtain st where
    st: "Orion A d1 d2 maxSize = Inr st" "orion_inv (capacity ?d) (\<lambda>_. []) (\<lambda>_. {}) st" by blast
  from orion_run_ok[OF st(2) ok _ order_refl _ c] st(1) show ?thesis by (simp add: held_def spec_of_def)
qed

theorem orion_reinsert_lost_witness:
  "outcome (bindE (Orion pad_cbc sample_devices sample_devices 4) (orion_run [Ins ''w'' 7, Rem ''w'' 7, Ins ''w'' 7, Srch ''w''])) =
    Inr [{#}, {#}, {#}, {#}]"
  by (rule orion_reinsert_lost[OF sample_env(1)]) (simp_all add: good_word_def in_int32_def)

end
