(* ===== verification/RocksDb.thy ===== *)
theory RocksDb
  imports StdLib
begin

text \<open>
  The parts of \<open>src/src/utils/rocksdb_wrapper.cpp\<close> and \<open>src/src/utils/rocksdb_wrapper.hpp\<close> that Janus uses, over a database that is a map from keys
  to values: the counters and the store of lists, whose elements are written one after the other by a serializer. The hexadecimal text
  of \<open>src/src/utils/utils.cpp\<close> is here as well. The status a call returns is that of the database, which is taken not to fail.
\<close>

type_synonym db = "bytes \<rightharpoonup> bytes"

section \<open>Counters\<close>

definition counter_get :: "string \<Rightarrow> db \<Rightarrow> nat option" where
  "counter_get key db = map_option (\<lambda>data. nat (le_uint (take 4 data))) (db (str_bytes key))"

definition counter_set :: "string \<Rightarrow> nat \<Rightarrow> db \<Rightarrow> db" where
  "counter_set key val db = db(str_bytes key \<mapsto> le_bytes 4 (int val))"

definition counter_get_and_increment :: "string \<Rightarrow> db \<Rightarrow> db \<times> nat" where
  "counter_get_and_increment key db =
     (let val = (case counter_get key db of Some v \<Rightarrow> (v + 1) mod 2 ^ 32 | None \<Rightarrow> 0)
      in (counter_set key val db, val))"

definition counter_increment :: "string \<Rightarrow> nat \<Rightarrow> db \<Rightarrow> db" where
  "counter_increment key default_value db =
     (let val = (case counter_get key db of Some v \<Rightarrow> (v + 1) mod 2 ^ 32 | None \<Rightarrow> default_value)
      in counter_set key val db)"

definition counter_remove_key :: "string \<Rightarrow> db \<Rightarrow> db" where
  "counter_remove_key key db = db(str_bytes key := None)"

section \<open>Lists\<close>

definition list_put :: "('a \<Rightarrow> bytes) \<Rightarrow> bytes \<Rightarrow> 'a list \<Rightarrow> db \<Rightarrow> db" where
  "list_put serialize key data db = db(key \<mapsto> concat (map serialize data))"

text \<open>
  A deserializer returns nothing at the end of the string, and otherwise an element and the rest. The loop takes at most one round per byte when
  every element takes some.
\<close>

fun deserialize_all :: "(bytes \<Rightarrow> ('a \<times> bytes) option res) \<Rightarrow> nat \<Rightarrow> bytes \<Rightarrow> 'a list res" where
  "deserialize_all deserialize 0 raw = Inl Out_of_fuel"
| "deserialize_all deserialize (Suc fuel) raw =
     bindE (deserialize raw) (\<lambda>r.
       case r of None \<Rightarrow> Inr []
       | Some (elt, rest) \<Rightarrow> bindE (deserialize_all deserialize fuel rest) (\<lambda>elts. Inr (elt # elts)))"

definition list_get :: "(bytes \<Rightarrow> ('a \<times> bytes) option res) \<Rightarrow> bytes \<Rightarrow> db \<Rightarrow> 'a list res" where
  "list_get deserialize key db =
     (case db key of None \<Rightarrow> Inr [] | Some raw \<Rightarrow> deserialize_all deserialize (Suc (length raw)) raw)"

section \<open>Hexadecimal text\<close>

definition hex_digit :: "nat \<Rightarrow> char" where
  "hex_digit d = ''0123456789abcdef'' ! d"

fun hex_digits :: "nat \<Rightarrow> nat \<Rightarrow> string" where
  "hex_digits 0 n = []"
| "hex_digits (Suc w) n = hex_digits w (n div 16) @ [hex_digit (n mod 16)]"

text \<open>\<open>hex_string\<close> of a \<open>uint64_t\<close> and of a \<open>uint32_t\<close>: sixteen and eight digits.\<close>

definition hex_string64 :: "nat \<Rightarrow> string" where
  "hex_string64 n = hex_digits 16 n"

definition hex_string32 :: "nat \<Rightarrow> string" where
  "hex_string32 n = hex_digits 8 n"

lemma length_hex_digits [simp]: "length (hex_digits w n) = w"
  by (induction w arbitrary: n) simp_all

lemma hex_digit_inj:
  assumes "a < 16" "b < 16" "hex_digit a = hex_digit b"
  shows "a = b"
proof -
  have "distinct ''0123456789abcdef''" "length ''0123456789abcdef'' = 16" by simp_all
  then show ?thesis using assms unfolding hex_digit_def by (metis nth_eq_iff_index_eq)
qed

lemma hex_digits_inj: "a < 16 ^ w \<Longrightarrow> b < 16 ^ w \<Longrightarrow> hex_digits w a = hex_digits w b \<Longrightarrow> a = b"
proof (induction w arbitrary: a b)
  case 0
  then show ?case by simp
next
  case (Suc w)
  then have "hex_digits w (a div 16) = hex_digits w (b div 16)" "hex_digit (a mod 16) = hex_digit (b mod 16)" by simp_all
  moreover have "a div 16 < 16 ^ w" "b div 16 < 16 ^ w" using Suc.prems by (simp_all add: div_less_iff_less_mult mult.commute)
  ultimately have "a div 16 = b div 16" "a mod 16 = b mod 16" using Suc.IH hex_digit_inj[of "a mod 16" "b mod 16"] by simp_all
  then show ?case by (metis div_mult_mod_eq)
qed

section \<open>Counter laws\<close>

lemma counter_get_set:
  "v < 2 ^ 32 \<Longrightarrow> counter_get k (counter_set key v db) = (if k = key then Some v else counter_get k db)"
  using inj_str_bytes by (auto simp: counter_get_def counter_set_def le_uint_le_bytes inj_eq)

text \<open>
  C19. The counter of a key that is not in the database counts its calls from zero and wraps around after \<open>2 ^ 32\<close> of them: the
  value of the call number \<open>n + 1\<close> is \<open>n\<close> modulo \<open>2 ^ 32\<close>, and other keys are not affected.
\<close>

theorem counter_counts:
  assumes "counter_get key db = None"
  shows "snd (counter_get_and_increment key (((\<lambda>d. fst (counter_get_and_increment key d)) ^^ n) db)) = n mod 2 ^ 32 \<and>
    (k \<noteq> key \<longrightarrow> counter_get k (((\<lambda>d. fst (counter_get_and_increment key d)) ^^ n) db) = counter_get k db)"
proof -
  let ?next = "\<lambda>d. fst (counter_get_and_increment key d)"
  have "counter_get key ((?next ^^ n) db) = (if n = 0 then None else Some ((n - 1) mod 2 ^ 32)) \<and>
    (k \<noteq> key \<longrightarrow> counter_get k ((?next ^^ n) db) = counter_get k db)"
  proof (induction n)
    case 0
    then show ?case using assms by simp
  next
    case (Suc n)
    then show ?case by (cases n) (auto simp: counter_get_and_increment_def Let_def counter_get_set mod_Suc_eq)
  qed
  then show ?thesis by (cases n) (auto simp: counter_get_and_increment_def Let_def mod_Suc_eq)
qed

theorem counter_counts_witness:
  "snd (counter_get_and_increment ''w'' (((\<lambda>d. fst (counter_get_and_increment ''w'' d)) ^^ (2 ^ 32)) Map.empty)) = 0"
  using counter_counts[of "''w''" Map.empty "2 ^ 32" "''w''"] by (simp add: counter_get_def)

end
