(* ===== verification/Janus.thy ===== *)
theory Janus
  imports Store RocksDb
begin

text \<open>
  Janus: \<open>src/src/janus/janus_client.cpp\<close>, \<open>src/src/janus/janus_server.cpp\<close> and \<open>src/src/janus/JanusInterface.cpp\<close>. An insertion encrypts the index under a puncturable encryption
  with a tag of keyword and index and stores it with one instance of Diana; a deletion stores the key share that punctures the tag with
  another. A search hands the server the key shares, which decrypt exactly the entries that are not deleted; the results are cached and the next
  search of the keyword uses new keys.

  Parameters: the keyed function \<open>prf\<close> by output length, key and input; the puncturable encryption \<open>crypto::PuncturableEncryption\<close> as a record, whose
  encryption also takes the blinding factor that each call draws at random; and those of Diana. The thread that filters the cache is joined before the insertions are searched, so the search is
  sequential but for the threads inside Diana.
\<close>

section \<open>Types\<close>

record punct =
  p_encrypt :: "bytes \<Rightarrow> bytes \<Rightarrow> nat \<Rightarrow> bytes \<Rightarrow> bytes"
  initial_keyshare :: "bytes \<Rightarrow> nat \<Rightarrow> bytes"
  inc_puncture :: "bytes \<Rightarrow> nat \<Rightarrow> bytes \<Rightarrow> bytes"
  p_decrypt :: "bytes list \<Rightarrow> bytes \<Rightarrow> nat option"

definition kTagSize :: nat where "kTagSize = 16"

text \<open>The reserved tag: the encryption throws on it, and the first key share carries it. The last of its 16 bytes is not listed in the source and zero.\<close>

definition NULLTAG :: bytes where
  "NULLTAG = [0x00, 0x01, 0x02, 0x03, 0x04, 0x05, 0x06, 0x07, 0x08, 0x10, 0x11, 0x12, 0x13, 0x14, 0x15, 0x00]"

definition kCiphertextSize :: nat where "kCiphertextSize = 90"

definition kKeyShareSize :: nat where "kKeyShareSize = 211"

definition extract_tag :: "bytes \<Rightarrow> bytes" where
  "extract_tag b = drop (length b - kTagSize) b"

record janus_request =
  keyword_token :: bytes
  insertion_search_request :: SearchRequest
  deletion_search_request :: SearchRequest
  first_key_share :: bytes

section \<open>Client\<close>

record janus_client =
  tag_prf :: "bytes \<Rightarrow> bytes"
  punct_enc_master_prf :: "bytes \<Rightarrow> bytes"
  janus_kw_token_prf :: "bytes \<Rightarrow> bytes"
  insertion_client :: diana_client
  deletion_client :: diana_client
  search_counter_map :: db

definition keyword_doc_string :: "string \<Rightarrow> nat \<Rightarrow> string" where
  "keyword_doc_string kw ind = hex_string64 ind @ ''||'' @ kw"

definition subkey :: "(nat \<Rightarrow> bytes \<Rightarrow> bytes \<Rightarrow> bytes) \<Rightarrow> bytes \<Rightarrow> string \<Rightarrow> bytes" where
  "subkey prf master_key name = prf 32 master_key (str_bytes name)"

definition JanusClient :: "(nat \<Rightarrow> bytes \<Rightarrow> bytes \<Rightarrow> bytes) \<Rightarrow> bytes \<Rightarrow> janus_client" where
  "JanusClient prf master_key =
     \<lparr>tag_prf = prf kTagSize (subkey prf master_key ''tag_derivation''),
      punct_enc_master_prf = prf 16 (subkey prf master_key ''punct_enc''),
      janus_kw_token_prf = prf 16 (subkey prf master_key ''keyword_token''),
      insertion_client = DianaClient (prf 16 (subkey prf master_key ''add_derivation_master_key''))
        (prf 16 (subkey prf master_key ''add_kw_token_master_key'')),
      deletion_client = DianaClient (prf 16 (subkey prf master_key ''del_derivation_master_key''))
        (prf 16 (subkey prf master_key ''del_kw_token_master_key'')),
      search_counter_map = Map.empty\<rparr>"

definition meta_keyword :: "string \<Rightarrow> nat \<Rightarrow> string" where
  "meta_keyword kw search_counter = hex_string32 search_counter @ kw"

definition search_counter :: "string \<Rightarrow> janus_client \<Rightarrow> nat" where
  "search_counter keyword c = (case counter_get keyword (search_counter_map c) of None \<Rightarrow> 0 | Some n \<Rightarrow> n)"

definition janus_search_request ::
    "punct \<Rightarrow> prg_fun \<Rightarrow> (string \<Rightarrow> bytes) \<Rightarrow> string \<Rightarrow> janus_client \<Rightarrow> (janus_client \<times> janus_request) res" where
  "janus_search_request P prg hash keyword c =
     (let cnt = search_counter keyword c;
          m_kw = meta_keyword keyword cnt
      in bindE (search_request prg hash (insertion_client c) m_kw) (\<lambda>ins.
         bindE (search_request prg hash (deletion_client c) m_kw) (\<lambda>del.
           let req = \<lparr>keyword_token = janus_kw_token_prf c (str_bytes keyword), insertion_search_request = ins,
                      deletion_search_request = del,
                      first_key_share = initial_keyshare P (punct_enc_master_prf c (str_bytes m_kw)) (add_count del)\<rparr>;
               c1 = (if add_count ins > 0 \<or> add_count del > 0
                     then c\<lparr>search_counter_map := counter_set keyword ((cnt + 1) mod 2 ^ 32) (search_counter_map c)\<rparr> else c);
               c2 = (if add_count ins > 0 then c1\<lparr>insertion_client := fst (remove_keyword m_kw (insertion_client c1))\<rparr> else c1);
               c3 = (if add_count del > 0 then c2\<lparr>deletion_client := fst (remove_keyword m_kw (deletion_client c2))\<rparr> else c2)
           in Inr (c3, req))))"

definition insertion_request ::
    "punct \<Rightarrow> prg_fun \<Rightarrow> (string \<Rightarrow> bytes) \<Rightarrow> bytes \<Rightarrow> string \<Rightarrow> nat \<Rightarrow> janus_client \<Rightarrow> janus_client \<times> UpdateRequest" where
  "insertion_request P prg hash rnd keyword index c =
     (let m_kw = meta_keyword keyword (search_counter keyword c);
          tag = tag_prf c (str_bytes (keyword_doc_string keyword index));
          ct = p_encrypt P rnd (punct_enc_master_prf c (str_bytes m_kw)) index tag;
          (ic, req, _) = update_request prg hash m_kw ct (insertion_client c)
      in (c\<lparr>insertion_client := ic\<rparr>, req))"

definition deletion_request ::
    "punct \<Rightarrow> prg_fun \<Rightarrow> (string \<Rightarrow> bytes) \<Rightarrow> string \<Rightarrow> nat \<Rightarrow> janus_client \<Rightarrow> janus_client \<times> UpdateRequest" where
  "deletion_request P prg hash keyword index c =
     (let m_kw = meta_keyword keyword (search_counter keyword c);
          n_del = get_match_count (deletion_client c) m_kw;
          tag = tag_prf c (str_bytes (keyword_doc_string keyword index));
          ks = inc_puncture P (punct_enc_master_prf c (str_bytes m_kw)) ((n_del + 1) mod 2 ^ 32) tag;
          (dc, req, _) = update_request prg hash m_kw ks (deletion_client c)
      in (c\<lparr>deletion_client := dc\<rparr>, req))"

section \<open>Server\<close>

type_synonym cached_result = "nat \<times> bytes"

definition cache_serialize :: "cached_result \<Rightarrow> bytes" where
  "cache_serialize elt = le_bytes 8 (int (fst elt)) @ snd elt"

text \<open>
  The length test uses \<open>sizeof(kTagSize)\<close>, the size of the constant's type. Then \<open>std::copy\<close> writes the eight characters to eight
  consecutive numbers from the address of \<open>ind\<close>, past the variable.
\<close>

definition cache_deserialize :: "bytes \<Rightarrow> (cached_result \<times> bytes) option res" where
  "cache_deserialize raw = (if length raw < 8 + 8 then Inr None else Inl Undefined_behaviour)"

record janus_server =
  insertion_server :: diana_server
  deletion_server :: diana_server
  cached_results_edb :: db

definition JanusServer :: "bool \<Rightarrow> janus_server" where
  "JanusServer hdd = \<lparr>insertion_server = DianaServer hdd, deletion_server = DianaServer hdd, cached_results_edb = Map.empty\<rparr>"

definition insert_entry :: "UpdateRequest \<Rightarrow> janus_server \<Rightarrow> janus_server" where
  "insert_entry req s = s\<lparr>insertion_server := diana_update req (insertion_server s)\<rparr>"

definition delete_entry :: "UpdateRequest \<Rightarrow> janus_server \<Rightarrow> janus_server" where
  "delete_entry req s = s\<lparr>deletion_server := diana_update req (deletion_server s)\<rparr>"

definition decryption :: "punct \<Rightarrow> bytes list \<Rightarrow> bytes list \<Rightarrow> cached_result list" where
  "decryption P key_shares cts =
     List.map_filter (\<lambda>ct. map_option (\<lambda>r. (r, extract_tag ct)) (p_decrypt P key_shares ct)) cts"

definition filter_cache :: "bytes list \<Rightarrow> cached_result list \<Rightarrow> cached_result list" where
  "filter_cache key_shares cached = filter (\<lambda>e. snd e \<notin> set (map extract_tag (tl key_shares))) cached"

definition janus_search :: "punct \<Rightarrow> prg_fun \<Rightarrow> janus_request \<Rightarrow> janus_server \<Rightarrow> (janus_server \<times> nat list) res" where
  "janus_search P prg req s =
     bindE (search_simple_parallel prg kCiphertextSize True (insertion_search_request req) 8 (insertion_server s)) (\<lambda>(is, insertions).
     bindE (search_simple_parallel prg kKeyShareSize True (deletion_search_request req) 8 (deletion_server s)) (\<lambda>(ds, shares).
     bindE (list_get cache_deserialize (keyword_token req) (cached_results_edb s)) (\<lambda>cached.
       let key_shares = first_key_share req # shares;
           cached_res_list = filter_cache key_shares cached;
           new = decryption P key_shares insertions
       in Inr (s\<lparr>insertion_server := is, deletion_server := ds,
                 cached_results_edb := list_put cache_serialize (keyword_token req) (cached_res_list @ new) (cached_results_edb s)\<rparr>,
               map fst cached_res_list @ map fst new))))"

text \<open>
  \<open>search_parallel\<close> with the callback that appends to the list of its thread: new results have the number 1, cached ones the last,
  and the lists are joined in the order of the numbers.
\<close>

definition janus_search_parallel ::
    "punct \<Rightarrow> prg_fun \<Rightarrow> janus_request \<Rightarrow> nat \<Rightarrow> janus_server \<Rightarrow> (janus_server \<times> nat list) res" where
  "janus_search_parallel P prg req threads_count s =
     (if \<not> threads_count > 1 then Inl Assertion_failed
      else bindE (search_simple_parallel prg kKeyShareSize True (deletion_search_request req) threads_count (deletion_server s)) (\<lambda>(ds, shares).
           bindE (list_get cache_deserialize (keyword_token req) (cached_results_edb s)) (\<lambda>cached.
             let key_shares = first_key_share req # shares;
                 filtered_cache = filter_cache key_shares cached;
                 (is, insertions) = diana_search prg kCiphertextSize False (insertion_search_request req) (insertion_server s);
                 new_cache = decryption P key_shares insertions;
                 result_lists = (replicate threads_count [])[threads_count - 1 := map fst filtered_cache];
                 result_lists' = result_lists[1 := result_lists ! 1 @ map fst new_cache]
             in Inr (s\<lparr>insertion_server := is, deletion_server := ds,
                       cached_results_edb := list_put cache_serialize (keyword_token req) (new_cache @ filtered_cache) (cached_results_edb s)\<rparr>,
                     concat result_lists'))))"

section \<open>Interface\<close>

definition janus_insertKeyword where
  "janus_insertKeyword P prg hash rnd key ind = (\<lambda>(c, s).
     let (c', req) = insertion_request P prg hash rnd key ind c in (c', insert_entry req s))"

definition janus_deleteKeyword where
  "janus_deleteKeyword P prg hash key ind = (\<lambda>(c, s).
     let (c', req) = deletion_request P prg hash key ind c in (c', delete_entry req s))"

definition janus_searchKeyword where
  "janus_searchKeyword P prg hash key = (\<lambda>(c, s).
     bindE (janus_search_request P prg hash key c) (\<lambda>(c', req).
     bindE (janus_search_parallel P prg req 8 s) (\<lambda>(s', res). Inr ((c', s'), res))))"

section \<open>Runs of updates\<close>

text \<open>An insertion comes with the blinding factor it draws.\<close>

datatype janus_op = JIns string nat bytes | JDel string nat

fun janus_step where
  "janus_step P prg hash (JIns w i r) cs = janus_insertKeyword P prg hash r w i cs"
| "janus_step P prg hash (JDel w i) cs = janus_deleteKeyword P prg hash w i cs"

fun ins_index :: "string \<Rightarrow> janus_op \<Rightarrow> (nat \<times> bytes) option" where
  "ins_index w (JIns v i r) = (if v = w then Some (i, r) else None)"
| "ins_index w (JDel v i) = None"

fun del_index :: "string \<Rightarrow> janus_op \<Rightarrow> nat option" where
  "del_index w (JIns v i r) = None"
| "del_index w (JDel v i) = (if v = w then Some i else None)"

definition tag_of :: "janus_client \<Rightarrow> string \<Rightarrow> nat \<Rightarrow> bytes" where
  "tag_of c w i = tag_prf c (str_bytes (keyword_doc_string w i))"

definition pkey :: "janus_client \<Rightarrow> string \<Rightarrow> bytes" where
  "pkey c w = punct_enc_master_prf c (str_bytes (meta_keyword w 0))"

text \<open>The entries the two instances of Diana get before the first search.\<close>

fun ins_entry :: "punct \<Rightarrow> janus_client \<Rightarrow> janus_op \<Rightarrow> (string \<times> bytes) option" where
  "ins_entry P c (JIns w i r) = Some (meta_keyword w 0, p_encrypt P r (pkey c w) i (tag_of c w i))"
| "ins_entry P c (JDel w i) = None"

definition ins_us :: "punct \<Rightarrow> janus_client \<Rightarrow> janus_op list \<Rightarrow> (string \<times> bytes) list" where
  "ins_us P c ops = List.map_filter (ins_entry P c) ops"

fun del_add :: "punct \<Rightarrow> janus_client \<Rightarrow> janus_op \<Rightarrow> (string \<times> bytes) list \<Rightarrow> (string \<times> bytes) list" where
  "del_add P c (JIns w i r) us = us"
| "del_add P c (JDel w i) us =
     us @ [(meta_keyword w 0, inc_puncture P (pkey c w) (max 1 (length (entries us (meta_keyword w 0)))) (tag_of c w i))]"

definition del_us :: "punct \<Rightarrow> janus_client \<Rightarrow> janus_op list \<Rightarrow> (string \<times> bytes) list" where
  "del_us P c ops = fold (del_add P c) ops []"

lemma us_snoc:
  "ins_us P c (ops @ [op]) = ins_us P c ops @ (case ins_entry P c op of None \<Rightarrow> [] | Some e \<Rightarrow> [e])"
  "del_us P c (ops @ [op]) = del_add P c op (del_us P c ops)"
  by (simp_all add: ins_us_def del_us_def map_filter_append List.map_filter_def split: option.splits)

lemma length_us: "length (ins_us P c ops) \<le> length ops" "length (del_us P c ops) \<le> length ops"
proof (induction ops rule: rev_induct)
  case (snoc op ops)
  case 1
  then show ?case using snoc by (cases op) (simp_all add: us_snoc)
next
  case (snoc op ops)
  case 2
  then show ?case using snoc by (cases op) (simp_all add: us_snoc)
qed (simp_all add: ins_us_def del_us_def List.map_filter_def)

text \<open>The state of client and server before the first search.\<close>

definition janus_state where
  "janus_state prg hash P c0 hdd ops cs \<longleftrightarrow> (\<exists>ic dc sv ds.
     cs = (c0\<lparr>insertion_client := ic, deletion_client := dc\<rparr>,
           \<lparr>insertion_server = sv, deletion_server = ds, cached_results_edb = Map.empty\<rparr>) \<and>
     diana_inv prg hash (root_prf (insertion_client c0)) (ins_us P c0 ops) (ic, sv) \<and>
     diana_inv prg hash (root_prf (deletion_client c0)) (del_us P c0 ops) (dc, ds))"

lemma search_counter_0:
  "search_counter_map c = Map.empty \<Longrightarrow> search_counter w c = 0"
  by (simp add: search_counter_def counter_get_def)

lemma match_count:
  assumes "diana_inv prg hash rp us (c, s)" "length us < 2 ^ 32"
  shows "(get_match_count c kw + 1) mod 2 ^ 32 = max 1 (length (entries us kw))"
  using assms length_entries[of us kw] by (cases "entries us kw") (auto simp: diana_inv_def get_match_count_def)

lemma janus_run:
  assumes c0: "c0 = JanusClient prf mk" and "length ops < 2 ^ 32"
    and "tokens_distinct prg hash (root_prf (insertion_client c0)) (ins_us P c0 ops)"
    and "tokens_distinct prg hash (root_prf (deletion_client c0)) (del_us P c0 ops)"
  shows "janus_state prg hash P c0 hdd ops (fold (janus_step P prg hash) ops (c0, JanusServer hdd))"
  using assms(2-)
proof (induction ops rule: rev_induct)
  case Nil
  have "diana_inv prg hash (root_prf (insertion_client c0)) [] (insertion_client c0, DianaServer hdd)"
    "diana_inv prg hash (root_prf (deletion_client c0)) [] (deletion_client c0, DianaServer hdd)"
    by (simp_all add: c0 JanusClient_def diana_inv_init DianaClient_def) (simp_all add: diana_inv_init flip: DianaClient_def)
  moreover have "c0 = c0\<lparr>insertion_client := insertion_client c0, deletion_client := deletion_client c0\<rparr>" by simp
  ultimately show ?case unfolding janus_state_def
    by (intro exI conjI) (simp_all add: ins_us_def del_us_def List.map_filter_def JanusServer_def)
next
  case (snoc op ops)
  have m: "search_counter_map c0 = Map.empty" by (simp add: c0 JanusClient_def)
  show ?case
  proof (cases op)
    case (JIns w i r)
    let ?e = "(meta_keyword w 0, p_encrypt P r (pkey c0 w) i (tag_of c0 w i))"
    have e: "ins_us P c0 (ops @ [op]) = ins_us P c0 ops @ [?e]" "del_us P c0 (ops @ [op]) = del_us P c0 ops"
      by (simp_all add: us_snoc JIns)
    then have "janus_state prg hash P c0 hdd ops (fold (janus_step P prg hash) ops (c0, JanusServer hdd))"
      using snoc tokens_distinct_prefix[of prg hash _ "ins_us P c0 ops"] by simp
    then obtain ic dc sv ds where st: "fold (janus_step P prg hash) ops (c0, JanusServer hdd) =
        (c0\<lparr>insertion_client := ic, deletion_client := dc\<rparr>,
           \<lparr>insertion_server = sv, deletion_server = ds, cached_results_edb = Map.empty\<rparr>)"
      and i: "diana_inv prg hash (root_prf (insertion_client c0)) (ins_us P c0 ops) (ic, sv)"
        "diana_inv prg hash (root_prf (deletion_client c0)) (del_us P c0 ops) (dc, ds)" by (auto simp: janus_state_def)
    obtain ic' sv' where d: "diana_insert prg hash ?e (ic, sv) = (ic', sv')" by force
    have "length (ins_us P c0 ops) < 2 ^ 32" using length_us(1)[of P c0 ops] snoc.prems(1) by simp
    then have "diana_inv prg hash (root_prf (insertion_client c0)) (ins_us P c0 ops @ [?e]) (ic', sv')"
      using diana_inv_insert[OF i(1), of ?e] snoc.prems(2) e d by simp
    moreover have "fold (janus_step P prg hash) (ops @ [op]) (c0, JanusServer hdd) =
        (c0\<lparr>insertion_client := ic', deletion_client := dc\<rparr>,
           \<lparr>insertion_server = sv', deletion_server = ds, cached_results_edb = Map.empty\<rparr>)"
      using d by (simp add: st JIns janus_insertKeyword_def insertion_request_def insert_entry_def search_counter_0 m
          diana_insert_def pkey_def tag_of_def case_prod_beta Let_def)
    ultimately show ?thesis using i(2) e by (auto simp: janus_state_def)
  next
    case (JDel w i)
    let ?e = "(meta_keyword w 0,
      inc_puncture P (pkey c0 w) (max 1 (length (entries (del_us P c0 ops) (meta_keyword w 0)))) (tag_of c0 w i))"
    have e: "del_us P c0 (ops @ [op]) = del_us P c0 ops @ [?e]" "ins_us P c0 (ops @ [op]) = ins_us P c0 ops"
      by (simp_all add: us_snoc JDel)
    then have "janus_state prg hash P c0 hdd ops (fold (janus_step P prg hash) ops (c0, JanusServer hdd))"
      using snoc tokens_distinct_prefix[of prg hash _ "del_us P c0 ops"] by simp
    then obtain ic dc sv ds where st: "fold (janus_step P prg hash) ops (c0, JanusServer hdd) =
        (c0\<lparr>insertion_client := ic, deletion_client := dc\<rparr>,
           \<lparr>insertion_server = sv, deletion_server = ds, cached_results_edb = Map.empty\<rparr>)"
      and i: "diana_inv prg hash (root_prf (insertion_client c0)) (ins_us P c0 ops) (ic, sv)"
        "diana_inv prg hash (root_prf (deletion_client c0)) (del_us P c0 ops) (dc, ds)" by (auto simp: janus_state_def)
    have l: "length (del_us P c0 ops) < 2 ^ 32" using length_us(2)[of P c0 ops] snoc.prems(1) by simp
    obtain dc' ds' where d: "diana_insert prg hash ?e (dc, ds) = (dc', ds')" by force
    have "diana_inv prg hash (root_prf (deletion_client c0)) (del_us P c0 ops @ [?e]) (dc', ds')"
      using diana_inv_insert[OF i(2), of ?e] snoc.prems(3) e d l by simp
    moreover have "fold (janus_step P prg hash) (ops @ [op]) (c0, JanusServer hdd) =
        (c0\<lparr>insertion_client := ic, deletion_client := dc'\<rparr>,
           \<lparr>insertion_server = sv, deletion_server = ds', cached_results_edb = Map.empty\<rparr>)"
      using d match_count[OF i(2) l, of "meta_keyword w 0"]
      by (simp add: st JDel janus_deleteKeyword_def deletion_request_def delete_entry_def search_counter_0 m
          diana_insert_def pkey_def tag_of_def case_prod_beta Let_def)
    ultimately show ?thesis using i(1) e by (auto simp: janus_state_def)
  qed
qed

section \<open>The first search\<close>

text \<open>
  What is documented of the puncturable encryption, for tags other than the reserved one: sizes and the tag at the end of a ciphertext and of a key
  share; and, for one key and the tags in use with it, that the initial share for \<open>n\<close> punctures with the shares \<open>1\<close> to \<open>n\<close> decrypts exactly the
  messages whose tag is not punctured, whatever blinding factor they were encrypted with.
\<close>

definition tag_good :: "bytes \<Rightarrow> bool" where
  "tag_good t \<longleftrightarrow> length t = kTagSize \<and> t \<noteq> NULLTAG"

definition punct_sizes :: "punct \<Rightarrow> bool" where
  "punct_sizes P \<longleftrightarrow>
     (\<forall>r k m t. tag_good t \<longrightarrow> length (p_encrypt P r k m t) = kCiphertextSize \<and> extract_tag (p_encrypt P r k m t) = t) \<and>
     (\<forall>k d t. tag_good t \<longrightarrow> length (inc_puncture P k d t) = kKeyShareSize \<and> extract_tag (inc_puncture P k d t) = t)"

definition punct_decrypts :: "punct \<Rightarrow> bytes \<Rightarrow> bytes set \<Rightarrow> bool" where
  "punct_decrypts P k T \<longleftrightarrow>
     (\<forall>r m t ts. m < 2 ^ 64 \<longrightarrow> t \<in> T \<longrightarrow> set ts \<subseteq> T \<longrightarrow>
        p_decrypt P (initial_keyshare P k (length ts) # map (\<lambda>(d, u). inc_puncture P k d u) (enumerate 1 ts)) (p_encrypt P r k m t) =
          (if t \<in> set ts then None else Some m))"

fun op_tag :: "janus_client \<Rightarrow> janus_op \<Rightarrow> bytes" where
  "op_tag c (JIns w i r) = tag_of c w i"
| "op_tag c (JDel w i) = tag_of c w i"

definition inserted_with :: "janus_op list \<Rightarrow> string \<Rightarrow> (nat \<times> bytes) list" where
  "inserted_with ops w = List.map_filter (ins_index w) ops"

definition inserted_in :: "janus_op list \<Rightarrow> string \<Rightarrow> nat list" where
  "inserted_in ops w = map fst (inserted_with ops w)"

definition deleted_in :: "janus_op list \<Rightarrow> string \<Rightarrow> nat list" where
  "deleted_in ops w = List.map_filter (del_index w) ops"

lemma indexes_snoc:
  "inserted_with (ops @ [op]) w = inserted_with ops w @ (case ins_index w op of None \<Rightarrow> [] | Some i \<Rightarrow> [i])"
  "deleted_in (ops @ [op]) w = deleted_in ops w @ (case del_index w op of None \<Rightarrow> [] | Some i \<Rightarrow> [i])"
  by (simp_all add: inserted_with_def deleted_in_def map_filter_append List.map_filter_def split: option.splits)

lemma indexes_Nil [simp]: "inserted_with [] w = []" "deleted_in [] w = []"
  by (simp_all add: inserted_with_def deleted_in_def List.map_filter_def)

lemma us_Nil [simp]: "ins_us P c [] = []" "del_us P c [] = []" "entries [] kw = []"
  by (simp_all add: ins_us_def del_us_def List.map_filter_def entries_def)

lemma meta_inj [simp]: "meta_keyword w n = meta_keyword v n \<longleftrightarrow> w = v"
  by (simp add: meta_keyword_def)

lemma meta_0_1 [simp]: "meta_keyword v 0 \<noteq> meta_keyword w 1"
proof
  assume "meta_keyword v 0 = meta_keyword w 1"
  then have "hex_digits 8 0 = hex_digits 8 1" by (simp add: meta_keyword_def hex_string32_def append_eq_append_conv)
  then have "(0::nat) = 1" by (rule hex_digits_inj[rotated 2]) simp_all
  then show False by simp
qed

lemma meta_0_Suc [simp]: "meta_keyword v 0 \<noteq> meta_keyword w (Suc 0)"
  using meta_0_1[of v w] by simp

lemma entries_ins:
  "entries (ins_us P c ops) (meta_keyword w 0) = map (\<lambda>(i, r). p_encrypt P r (pkey c w) i (tag_of c w i)) (inserted_with ops w)"
proof (induction ops rule: rev_induct)
  case (snoc op ops)
  then show ?case by (cases op) (auto simp: us_snoc indexes_snoc entries_snoc)
qed simp

lemma length_entries_del: "length (entries (del_us P c ops) (meta_keyword w 0)) = length (deleted_in ops w)"
proof (induction ops rule: rev_induct)
  case (snoc op ops)
  then show ?case by (cases op) (auto simp: us_snoc indexes_snoc entries_snoc)
qed simp

lemma entries_del:
  "length (deleted_in ops w) \<le> 1 \<Longrightarrow>
   entries (del_us P c ops) (meta_keyword w 0) = map (\<lambda>i. inc_puncture P (pkey c w) 1 (tag_of c w i)) (deleted_in ops w)"
proof (induction ops rule: rev_induct)
  case (snoc op ops)
  then show ?case using length_entries_del[of P c ops w]
    by (cases op) (auto simp: us_snoc indexes_snoc entries_snoc split: if_splits)
qed simp

lemma entries_later: "entries (ins_us P c ops) (meta_keyword w 1) = []" "entries (del_us P c ops) (meta_keyword w 1) = []"
proof (induction ops rule: rev_induct)
  case (snoc op ops)
  case 1
  then show ?case using snoc by (cases op) (auto simp: us_snoc entries_snoc)
next
  case (snoc op ops)
  case 2
  then show ?case using snoc by (cases op) (auto simp: us_snoc entries_snoc)
qed simp_all

lemma us_sizes:
  assumes "punct_sizes P" "\<forall>op\<in>set ops. tag_good (op_tag c op)"
  shows "\<forall>u\<in>set (ins_us P c ops). length (snd u) = kCiphertextSize" "\<forall>u\<in>set (del_us P c ops). length (snd u) = kKeyShareSize"
  using assms(2)
proof (induction ops rule: rev_induct)
  case (snoc op ops)
  case 1
  then show ?case using snoc assms(1) by (cases op) (auto simp: us_snoc punct_sizes_def)
next
  case (snoc op ops)
  case 2
  then show ?case using snoc assms(1) by (cases op) (auto simp: us_snoc punct_sizes_def)
qed simp_all

lemma in_indexes: "(i, r) \<in> set (inserted_with ops w) \<longleftrightarrow> JIns w i r \<in> set ops" "i \<in> set (deleted_in ops w) \<longleftrightarrow> JDel w i \<in> set ops"
proof (induction ops rule: rev_induct)
  case (snoc op ops)
  case 1
  then show ?case using snoc by (cases op) (auto simp: indexes_snoc split: if_splits)
next
  case (snoc op ops)
  case 2
  then show ?case using snoc by (cases op) (auto simp: indexes_snoc split: if_splits)
qed simp_all

lemma decryption_first:
  assumes P: "punct_sizes P" "punct_decrypts P k (tag ` (fst ` set xs \<union> set ds))"
    and t: "\<forall>x\<in>set xs. tag_good (tag (fst x))" and "length ds \<le> 1" "\<forall>x\<in>set xs. fst x < 2 ^ 64"
  shows "decryption P (initial_keyshare P k (length ds) # map (\<lambda>i. inc_puncture P k 1 (tag i)) ds) (map (\<lambda>(i, r). p_encrypt P r k i (tag i)) xs) =
    map (\<lambda>i. (i, tag i)) (filter (\<lambda>i. tag i \<notin> tag ` set ds) (map fst xs))"
proof -
  let ?ks = "initial_keyshare P k (length ds) # map (\<lambda>i. inc_puncture P k 1 (tag i)) ds"
  have e: "map (\<lambda>i. inc_puncture P k 1 (tag i)) ds = map (\<lambda>(d, u). inc_puncture P k d u) (enumerate 1 (map tag ds))"
    using assms(4) by (cases ds) simp_all
  have "p_decrypt P ?ks (p_encrypt P r k i (tag i)) = (if tag i \<in> tag ` set ds then None else Some i)" if "(i, r) \<in> set xs" for i r
  proof -
    have "i < 2 ^ 64" "tag i \<in> tag ` (fst ` set xs \<union> set ds)" "set (map tag ds) \<subseteq> tag ` (fst ` set xs \<union> set ds)"
      using that assms(5) by force+
    then have "p_decrypt P (initial_keyshare P k (length (map tag ds)) # map (\<lambda>(d, u). inc_puncture P k d u) (enumerate 1 (map tag ds)))
        (p_encrypt P r k i (tag i)) = (if tag i \<in> set (map tag ds) then None else Some i)"
      using P(2) unfolding punct_decrypts_def by blast
    then show ?thesis unfolding e by simp
  qed
  moreover have "extract_tag (p_encrypt P r k i (tag i)) = tag i" if "(i, r) \<in> set xs" for i r
    using P(1) t that by (force simp: punct_sizes_def)
  moreover define F where "F ct = map_option (\<lambda>v. (v, extract_tag ct)) (p_decrypt P ?ks ct)" for ct
  ultimately have F: "F (p_encrypt P r k i (tag i)) = (if tag i \<in> tag ` set ds then None else Some (i, tag i))" if "(i, r) \<in> set xs" for i r
    using that by simp
  have "List.map_filter F (map (\<lambda>(i, r). p_encrypt P r k i (tag i)) ys) =
      map (\<lambda>i. (i, tag i)) (filter (\<lambda>i. tag i \<notin> tag ` set ds) (map fst ys))" if "set ys \<subseteq> set xs" for ys
    using that
  proof (induction ys)
    case (Cons y ys)
    obtain i r where y: "y = (i, r)" by force
    have "F (p_encrypt P r k i (tag i)) = (if tag i \<in> tag ` set ds then None else Some (i, tag i))" using F Cons.prems y by simp
    then show ?case using Cons by (simp add: y map_filter_simps)
  qed (simp add: map_filter_simps)
  from this[of xs] show ?thesis unfolding decryption_def F_def by simp
qed

lemma result_lists_8: "concat ((replicate 8 [])[7 := [], 1 := (replicate 8 [])[7 := []] ! 1 @ xs]) = xs"
  by (simp add: numeral_eq_Suc)

lemma janus_search_request_parts:
  assumes "search_counter w c = 0"
    and "search_request prg hash (insertion_client c) (meta_keyword w 0) = Inr ri"
    and "search_request prg hash (deletion_client c) (meta_keyword w 0) = Inr rd"
  shows "\<exists>c'. janus_search_request P prg hash w c = Inr (c', \<lparr>keyword_token = janus_kw_token_prf c (str_bytes w),
      insertion_search_request = ri, deletion_search_request = rd,
      first_key_share = initial_keyshare P (pkey c w) (add_count rd)\<rparr>) \<and>
    janus_kw_token_prf c' = janus_kw_token_prf c \<and> (add_count ri > 0 \<longrightarrow> search_counter w c' = 1) \<and>
    (ramCounter (insertion_client c) k = None \<longrightarrow> ramCounter (insertion_client c') k = None) \<and>
    (ramCounter (deletion_client c) k = None \<longrightarrow> ramCounter (deletion_client c') k = None)"
  using assms
  by (auto simp: janus_search_request_def pkey_def remove_keyword_def Let_def search_counter_def counter_get_set)

lemma janus_first_search:
  assumes c0: "c0 = JanusClient prf mk" and P: "punct_sizes P" and tg: "\<forall>op\<in>set ops. tag_good (op_tag c0 op)"
    and dec: "punct_decrypts P (pkey c0 w) (tag_of c0 w ` (set (inserted_in ops w) \<union> set (deleted_in ops w)))"
    and len: "length ops < 2 ^ 32" and idx: "\<forall>i\<in>set (inserted_in ops w). i < 2 ^ 64"
    and toks: "tokens_distinct (derive_bytes aes) hash (root_prf (insertion_client c0)) (ins_us P c0 ops)"
      "tokens_distinct (derive_bytes aes) hash (root_prf (deletion_client c0)) (del_us P c0 ops)"
    and one: "length (deleted_in ops w) \<le> 1"
    and tags: "inj_on (tag_of c0 w) (set (inserted_in ops w) \<union> set (deleted_in ops w))"
    and st: "fold (janus_step P (derive_bytes aes) hash) ops (c0, JanusServer hdd) = cs"
  defines "res \<equiv> filter (\<lambda>i. i \<notin> set (deleted_in ops w)) (inserted_in ops w)"
  shows "\<exists>c' s'. janus_searchKeyword P (derive_bytes aes) hash w cs = Inr ((c', s'), res) \<and>
    janus_kw_token_prf c' = janus_kw_token_prf c0 \<and> (inserted_in ops w \<noteq> [] \<longrightarrow> search_counter w c' = 1) \<and>
    cached_results_edb s' = list_put cache_serialize (janus_kw_token_prf c0 (str_bytes w)) (map (\<lambda>i. (i, tag_of c0 w i)) res) Map.empty \<and>
    ramCounter (insertion_client c') (meta_keyword w 1) = None \<and> ramCounter (deletion_client c') (meta_keyword w 1) = None"
proof -
  let ?prg = "derive_bytes aes" and ?tag = "tag_of c0 w"
  have "janus_state ?prg hash P c0 hdd ops cs" using janus_run[OF c0 len toks, of hdd] st by simp
  then obtain ic dc sv ds where cs: "cs = (c0\<lparr>insertion_client := ic, deletion_client := dc\<rparr>,
      \<lparr>insertion_server = sv, deletion_server = ds, cached_results_edb = Map.empty\<rparr>)"
    and i: "diana_inv ?prg hash (root_prf (insertion_client c0)) (ins_us P c0 ops) (ic, sv)"
      "diana_inv ?prg hash (root_prf (deletion_client c0)) (del_us P c0 ops) (dc, ds)" by (auto simp: janus_state_def)
  let ?c = "c0\<lparr>insertion_client := ic, deletion_client := dc\<rparr>"
  note sz = us_sizes[OF P tg]
  have ul: "length (ins_us P c0 ops) < 2 ^ 32" "length (del_us P c0 ops) < 2 ^ 32"
    using length_us[of P c0 ops] len by simp_all
  obtain ri where ri: "search_request ?prg hash ic (meta_keyword w 0) = Inr ri" "add_count ri = length (inserted_in ops w)"
    "diana_search ?prg kCiphertextSize False ri sv = (sv, map (\<lambda>(i, r). p_encrypt P r (pkey c0 w) i (?tag i)) (inserted_with ops w))"
    using stream.search_after_updates[OF i(1) ul(1) sz(1), of "meta_keyword w 0"] by (auto simp: entries_ins inserted_in_def)
  obtain rd ds' where rd: "search_request ?prg hash dc (meta_keyword w 0) = Inr rd" "add_count rd = length (deleted_in ops w)"
    "search_simple_parallel ?prg kKeyShareSize True rd 8 ds = Inr (ds', map (\<lambda>i. inc_puncture P (pkey c0 w) 1 (?tag i)) (deleted_in ops w))"
    using stream.search_delete_after_updates[OF i(2) ul(2) sz(2) toks(2), of 8 "meta_keyword w 0"] one
    by (auto simp: entries_del[OF one] length_entries_del)
  have n: "ramCounter ic (meta_keyword w 1) = None" "ramCounter dc (meta_keyword w 1) = None"
    using i by (simp_all add: diana_inv_def entries_later[unfolded One_nat_def])
  have "search_counter w ?c = 0" by (simp add: search_counter_def counter_get_def c0 JanusClient_def)
  from janus_search_request_parts[OF this, of ?prg hash ri rd P "meta_keyword w 1"] ri(1) rd(1) n
  obtain c' where c': "janus_search_request P ?prg hash w ?c = Inr (c', \<lparr>keyword_token = janus_kw_token_prf c0 (str_bytes w),
      insertion_search_request = ri, deletion_search_request = rd,
      first_key_share = initial_keyshare P (pkey c0 w) (add_count rd)\<rparr>)"
    "janus_kw_token_prf c' = janus_kw_token_prf c0" "add_count ri > 0 \<longrightarrow> search_counter w c' = 1"
    "ramCounter (insertion_client c') (meta_keyword w 1) = None" "ramCounter (deletion_client c') (meta_keyword w 1) = None"
    by (auto simp: pkey_def)
  have "filter (\<lambda>i. ?tag i \<notin> ?tag ` set (deleted_in ops w)) (inserted_in ops w) = res"
    unfolding res_def using tags by (intro filter_cong) (auto simp: inj_on_def)
  moreover have tgi: "\<forall>x\<in>set (inserted_with ops w). tag_good (?tag (fst x))" using tg in_indexes(1)[of _ _ ops w] by force
  ultimately have new: "decryption P (initial_keyshare P (pkey c0 w) (add_count rd) # map (\<lambda>i. inc_puncture P (pkey c0 w) 1 (?tag i)) (deleted_in ops w))
      (map (\<lambda>(i, r). p_encrypt P r (pkey c0 w) i (?tag i)) (inserted_with ops w)) = map (\<lambda>i. (i, ?tag i)) res"
    using decryption_first[of P "pkey c0 w" ?tag "inserted_with ops w" "deleted_in ops w"] P dec one idx tgi rd(2)
    by (simp add: inserted_in_def)
  have "janus_searchKeyword P ?prg hash w cs = Inr ((c', \<lparr>insertion_server = sv, deletion_server = ds',
      cached_results_edb = list_put cache_serialize (janus_kw_token_prf c0 (str_bytes w)) (map (\<lambda>i. (i, ?tag i)) res) Map.empty\<rparr>), res)"
    using result_lists_8[of res]
    by (simp add: cs janus_searchKeyword_def c'(1) janus_search_parallel_def rd(3) ri(3) list_get_def filter_cache_def new[unfolded One_nat_def] comp_def Let_def)
  then show ?thesis using c' ri(2) by (intro exI[of _ c'] exI conjI) auto
qed

section \<open>Properties\<close>

text \<open>
  C16. After any insertions and deletions of any keywords, the first search of a keyword with at most one deletion returns the
  indexes inserted for it, in order, without the deleted one. The tokens of the two instances of Diana and the tags of the keyword's indexes are
  required not to collide, no tag in use is the reserved one, and the puncturable encryption decrypts as documented for the keyword's key and its tags
  in use.
\<close>

theorem janus_first_search_correct:
  assumes "punct_sizes P" "\<forall>op\<in>set ops. tag_good (op_tag (JanusClient prf mk) op)"
    and "punct_decrypts P (pkey (JanusClient prf mk) w) (tag_of (JanusClient prf mk) w ` (set (inserted_in ops w) \<union> set (deleted_in ops w)))"
    and "length ops < 2 ^ 32" "\<forall>i\<in>set (inserted_in ops w). i < 2 ^ 64"
    and "tokens_distinct (derive_bytes aes) hash (root_prf (insertion_client (JanusClient prf mk))) (ins_us P (JanusClient prf mk) ops)"
    and "tokens_distinct (derive_bytes aes) hash (root_prf (deletion_client (JanusClient prf mk))) (del_us P (JanusClient prf mk) ops)"
    and "length (deleted_in ops w) \<le> 1"
    and "inj_on (tag_of (JanusClient prf mk) w) (set (inserted_in ops w) \<union> set (deleted_in ops w))"
  shows "\<exists>cs'. janus_searchKeyword P (derive_bytes aes) hash w
      (fold (janus_step P (derive_bytes aes) hash) ops (JanusClient prf mk, JanusServer hdd)) =
    Inr (cs', filter (\<lambda>i. i \<notin> set (deleted_in ops w)) (inserted_in ops w))"
  using janus_first_search[OF refl assms refl, of hdd] by blast

text \<open>
  C18. After insertions and deletions of any keywords, the first search of a keyword with at least two deletions is undefined, with either store: the
  server collects the key shares with eight threads, one of which is always given a part of a subtree and derives its leaves through a dangling pointer, and
  in memory the threads also erase from one map without a lock. The tokens of the two instances of Diana are required not to collide.
\<close>

theorem janus_many_deletions_undefined:
  assumes "length ops < 2 ^ 32" "2 \<le> length (deleted_in ops w)"
    and "tokens_distinct (derive_bytes aes) hash (root_prf (insertion_client (JanusClient prf mk))) (ins_us P (JanusClient prf mk) ops)"
    and "tokens_distinct (derive_bytes aes) hash (root_prf (deletion_client (JanusClient prf mk))) (del_us P (JanusClient prf mk) ops)"
  shows "janus_searchKeyword P (derive_bytes aes) hash w
      (fold (janus_step P (derive_bytes aes) hash) ops (JanusClient prf mk, JanusServer hdd)) = Inl Undefined_behaviour"
proof -
  let ?c0 = "JanusClient prf mk" and ?prg = "derive_bytes aes"
  obtain ic dc sv ds where cs: "fold (janus_step P ?prg hash) ops (?c0, JanusServer hdd) =
      (?c0\<lparr>insertion_client := ic, deletion_client := dc\<rparr>, \<lparr>insertion_server = sv, deletion_server = ds, cached_results_edb = Map.empty\<rparr>)"
    and i: "diana_inv ?prg hash (root_prf (insertion_client ?c0)) (ins_us P ?c0 ops) (ic, sv)"
      "diana_inv ?prg hash (root_prf (deletion_client ?c0)) (del_us P ?c0 ops) (dc, ds)"
    using janus_run[OF refl assms(1,3,4), of hdd] by (auto simp: janus_state_def)
  have l: "length (ins_us P ?c0 ops) < 2 ^ 32" "length (del_us P ?c0 ops) < 2 ^ 32" using length_us[of P ?c0 ops] assms(1) by simp_all
  obtain ri where ri: "search_request ?prg hash ic (meta_keyword w 0) = Inr ri" using stream.search_request_leaves[OF i(1) l(1)] by blast
  obtain rd where rd: "search_request ?prg hash dc (meta_keyword w 0) = Inr rd"
    "search_simple_parallel ?prg kKeyShareSize True rd 8 ds = Inl Undefined_behaviour"
    using stream.eight_threads_undefined[OF i(2) l(2), of "meta_keyword w 0"] assms(2) by (auto simp: length_entries_del)
  have "search_counter w (?c0\<lparr>insertion_client := ic, deletion_client := dc\<rparr>) = 0" by (simp add: search_counter_def counter_get_def JanusClient_def)
  from janus_search_request_parts[OF this, of ?prg hash ri rd P] ri rd(1) obtain c' where
    "janus_search_request P ?prg hash w (?c0\<lparr>insertion_client := ic, deletion_client := dc\<rparr>) =
      Inr (c', \<lparr>keyword_token = janus_kw_token_prf ?c0 (str_bytes w), insertion_search_request = ri, deletion_search_request = rd,
        first_key_share = initial_keyshare P (pkey (?c0\<lparr>insertion_client := ic, deletion_client := dc\<rparr>) w) (add_count rd)\<rparr>)" by auto
  then show ?thesis using rd(2) by (simp add: cs janus_searchKeyword_def janus_search_parallel_def)
qed

lemma cache_get_undefined: "db k = Some raw \<Longrightarrow> 16 \<le> length raw \<Longrightarrow> list_get cache_deserialize k db = Inl Undefined_behaviour"
  by (simp add: list_get_def cache_deserialize_def)

text \<open>
  C17. A keyword with at most one deletion whose first search had results is searched a second time, right after the first: the second search is
  undefined, because the server deserializes the cached results and writes past a variable. Hypotheses as for the first search.
\<close>

theorem janus_second_search_undefined:
  assumes "punct_sizes P" "\<forall>op\<in>set ops. tag_good (op_tag (JanusClient prf mk) op)"
    and "punct_decrypts P (pkey (JanusClient prf mk) w) (tag_of (JanusClient prf mk) w ` (set (inserted_in ops w) \<union> set (deleted_in ops w)))"
    and "length ops < 2 ^ 32" "\<forall>i\<in>set (inserted_in ops w). i < 2 ^ 64"
    and "tokens_distinct (derive_bytes aes) hash (root_prf (insertion_client (JanusClient prf mk))) (ins_us P (JanusClient prf mk) ops)"
    and "tokens_distinct (derive_bytes aes) hash (root_prf (deletion_client (JanusClient prf mk))) (del_us P (JanusClient prf mk) ops)"
    and "length (deleted_in ops w) \<le> 1"
    and "inj_on (tag_of (JanusClient prf mk) w) (set (inserted_in ops w) \<union> set (deleted_in ops w))"
    and "janus_searchKeyword P (derive_bytes aes) hash w
      (fold (janus_step P (derive_bytes aes) hash) ops (JanusClient prf mk, JanusServer hdd)) = Inr (cs', res)" "res \<noteq> []"
  shows "janus_searchKeyword P (derive_bytes aes) hash w cs' = Inl Undefined_behaviour"
proof -
  let ?c0 = "JanusClient prf mk" and ?tok = "janus_kw_token_prf (JanusClient prf mk) (str_bytes w)"
  obtain c' s' where c: "cs' = (c', s')" "janus_kw_token_prf c' = janus_kw_token_prf ?c0" "inserted_in ops w \<noteq> [] \<longrightarrow> search_counter w c' = 1"
    "cached_results_edb s' = list_put cache_serialize ?tok (map (\<lambda>i. (i, tag_of ?c0 w i)) res) Map.empty"
    "ramCounter (insertion_client c') (meta_keyword w 1) = None" "ramCounter (deletion_client c') (meta_keyword w 1) = None"
    "res = filter (\<lambda>i. i \<notin> set (deleted_in ops w)) (inserted_in ops w)"
    using janus_first_search[OF refl assms(1-9) refl, of hdd] assms(10) by auto
  have sc: "search_counter w c' = 1" using c(3,7) assms(11) by auto
  obtain x xs where r: "res = x # xs" using assms(11) by (cases res) auto
  have "list_get cache_deserialize ?tok (cached_results_edb s') = Inl Undefined_behaviour"
  proof (rule cache_get_undefined)
    have "x \<in> set (inserted_in ops w)" using c(7) r by (metis filter_is_subset list.set_intros(1) subsetD)
    then obtain b where "JIns w x b \<in> set ops" by (auto simp: inserted_in_def in_indexes)
    then have t: "length (tag_of ?c0 w x) = 16" using assms(2) by (force simp: tag_good_def kTagSize_def)
    show "cached_results_edb s' ?tok = Some (concat (map cache_serialize (map (\<lambda>i. (i, tag_of ?c0 w i)) res)))" by (simp add: c(4) list_put_def)
    show "16 \<le> length (concat (map cache_serialize (map (\<lambda>i. (i, tag_of ?c0 w i)) res)))" using t by (simp add: r cache_serialize_def)
  qed
  then show ?thesis
    using c(2,5,6) sc by (simp add: c(1) janus_searchKeyword_def janus_search_request_def search_request_def janus_search_parallel_def
        search_simple_parallel_def Let_def)
qed

section \<open>Witnesses\<close>

definition sample_punct :: punct where
  "sample_punct = \<lparr>p_encrypt = (\<lambda>r k m t. le_bytes 8 (int m) @ replicate 66 0 @ t), initial_keyshare = (\<lambda>k d. replicate 211 0),
     inc_puncture = (\<lambda>k d t. replicate 195 0 @ t),
     p_decrypt = (\<lambda>shares ct. if extract_tag ct \<in> set (map extract_tag (tl shares)) then None else Some (nat (le_uint (take 8 ct))))\<rparr>"

definition pad_prf :: "nat \<Rightarrow> bytes \<Rightarrow> bytes \<Rightarrow> bytes" where
  "pad_prf n k x = take n (x @ replicate n 0)"

definition pad_hash :: "string \<Rightarrow> bytes" where
  "pad_hash kw = str_bytes kw @ replicate 16 0"

definition sample_ops :: "janus_op list" where
  "sample_ops = [JIns ''a'' 5 [1], JIns ''a'' 6 [2], JDel ''a'' 5]"

lemma sample_decrypt:
  "p_decrypt sample_punct shares ct =
     (if extract_tag ct \<in> set (map extract_tag (tl shares)) then None else Some (nat (le_uint (take 8 ct))))"
  by (simp add: sample_punct_def)

lemma few_tokens:
  assumes "\<And>kw. entries us kw = [] \<or> kw = meta_keyword ''a'' 0 \<and> length (entries us kw) \<le> 2"
  shows "tokens_distinct (derive_bytes xor_bytes) pad_hash (pad_prf 16 key) us"
proof -
  let ?m = "meta_keyword ''a'' 0"
  have r: "pad_prf 16 key = pad_prf 16 []" by (simp add: pad_prf_def fun_eq_iff)
  have sub: "{(kw, j). j < length (entries us kw)} \<subseteq> {?m} \<times> {..<2}"
  proof clarify
    fix kw j assume "j < length (entries us kw)"
    with assms[of kw] show "kw \<in> {?m} \<and> j \<in> {..<2}" by (cases "entries us kw") auto
  qed
  have l: "length (pad_prf 16 [] (get_keyword_index pad_hash ?m)) = 16" by (simp add: pad_prf_def)
  have "xor_bytes (pad_prf 16 [] (get_keyword_index pad_hash ?m)) (ctr_block 1) \<noteq> pad_prf 16 [] (get_keyword_index pad_hash ?m)" by code_simp
  then have "stored_token (derive_bytes xor_bytes) pad_hash (pad_prf 16 []) (?m, 0) \<noteq>
      stored_token (derive_bytes xor_bytes) pad_hash (pad_prf 16 []) (?m, 1)"
    using stored_token_xor[of "pad_prf 16 []" pad_hash ?m, OF l] by simp
  then have "inj_on (stored_token (derive_bytes xor_bytes) pad_hash (pad_prf 16 key)) ({?m} \<times> {..<2})"
    unfolding r by (auto simp: inj_on_def less_2_cases_iff)
  then show ?thesis unfolding tokens_distinct_def using sub by (rule inj_on_subset)
qed

lemma sample_punct_good:
  "punct_sizes sample_punct" "\<forall>t\<in>T. length t = kTagSize \<Longrightarrow> punct_decrypts sample_punct k T"
proof -
  have t: "extract_tag (xs @ t) = t" if "length t = kTagSize" for xs t using that by (simp add: extract_tag_def)
  show "punct_sizes sample_punct"
    by (simp add: punct_sizes_def tag_good_def sample_punct_def t kTagSize_def kCiphertextSize_def kKeyShareSize_def extract_tag_def)
  have m: "map extract_tag (map (\<lambda>(d, u). replicate 195 0 @ u) (enumerate n ts)) = ts" if "\<forall>u\<in>set ts. length u = kTagSize" for n ts
    using that by (induction ts arbitrary: n) (simp_all add: t)
  assume T: "\<forall>t\<in>T. length t = kTagSize"
  show "punct_decrypts sample_punct k T"
    unfolding punct_decrypts_def
  proof (intro allI impI)
    fix r t :: bytes and m :: nat and ts assume a: "m < 2 ^ 64" "t \<in> T" "set ts \<subseteq> T"
    have "map extract_tag (map (\<lambda>(d, u). inc_puncture sample_punct k d u) (enumerate 1 ts)) = ts"
      using m[of ts 1] T a(3) by (simp add: sample_punct_def case_prod_beta' subset_iff)
    moreover have "extract_tag (p_encrypt sample_punct r k m t) = t"
      using t[of t "le_bytes 8 (int m) @ replicate 66 0"] T a(2) by (simp add: sample_punct_def)
    moreover have "nat (le_uint (take 8 (p_encrypt sample_punct r k m t))) = m" using a(1) by (simp add: sample_punct_def le_uint_le_bytes)
    ultimately have e: "extract_tag (p_encrypt sample_punct r k m t) = t" "nat (le_uint (take 8 (p_encrypt sample_punct r k m t))) = m"
      "map extract_tag (tl (initial_keyshare sample_punct k (length ts) # map (\<lambda>(d, u). inc_puncture sample_punct k d u) (enumerate 1 ts))) = ts"
      by simp_all
    show "p_decrypt sample_punct (initial_keyshare sample_punct k (length ts) # map (\<lambda>(d, u). inc_puncture sample_punct k d u) (enumerate 1 ts))
        (p_encrypt sample_punct r k m t) = (if t \<in> set ts then None else Some m)"
      unfolding sample_decrypt e by (rule refl)
  qed
qed

lemma sample_hypotheses:
  "\<forall>op\<in>set sample_ops. tag_good (op_tag (JanusClient pad_prf []) op)"
  "punct_decrypts sample_punct (pkey (JanusClient pad_prf []) ''a'')
     (tag_of (JanusClient pad_prf []) ''a'' ` (set (inserted_in sample_ops ''a'') \<union> set (deleted_in sample_ops ''a'')))"
  "length sample_ops < 2 ^ 32" "\<forall>i\<in>set (inserted_in sample_ops ''a''). i < 2 ^ 64"
  "length (deleted_in sample_ops ''a'') \<le> 1"
  "inj_on (tag_of (JanusClient pad_prf []) ''a'') (set (inserted_in sample_ops ''a'') \<union> set (deleted_in sample_ops ''a''))"
proof -
  have s: "inserted_in sample_ops ''a'' = [5, 6]" "deleted_in sample_ops ''a'' = [5]" by code_simp+
  have "tag_of (JanusClient pad_prf []) ''a'' 5 \<noteq> tag_of (JanusClient pad_prf []) ''a'' 6" by code_simp
  then show "inj_on (tag_of (JanusClient pad_prf []) ''a'') (set (inserted_in sample_ops ''a'') \<union> set (deleted_in sample_ops ''a''))"
    by (simp add: s)
  show "\<forall>op\<in>set sample_ops. tag_good (op_tag (JanusClient pad_prf []) op)" by code_simp
  show "punct_decrypts sample_punct (pkey (JanusClient pad_prf []) ''a'')
     (tag_of (JanusClient pad_prf []) ''a'' ` (set (inserted_in sample_ops ''a'') \<union> set (deleted_in sample_ops ''a'')))"
    by (rule sample_punct_good(2)) (auto simp: tag_of_def JanusClient_def pad_prf_def)
  show "length sample_ops < 2 ^ 32" by (simp add: sample_ops_def)
  show "\<forall>i\<in>set (inserted_in sample_ops ''a''). i < 2 ^ 64" "length (deleted_in sample_ops ''a'') \<le> 1" by (simp_all add: s)
qed

lemma janus_roots:
  "\<exists>key. root_prf (insertion_client (JanusClient pad_prf mk)) = pad_prf 16 key"
  "\<exists>key. root_prf (deletion_client (JanusClient pad_prf mk)) = pad_prf 16 key"
  by (auto simp: JanusClient_def DianaClient_def)

lemma sample_tokens:
  "tokens_distinct (derive_bytes xor_bytes) pad_hash (root_prf (insertion_client (JanusClient pad_prf [])))
     (ins_us sample_punct (JanusClient pad_prf []) sample_ops)"
  "tokens_distinct (derive_bytes xor_bytes) pad_hash (root_prf (deletion_client (JanusClient pad_prf [])))
     (del_us sample_punct (JanusClient pad_prf []) sample_ops)"
proof -
  let ?c = "JanusClient pad_prf []"
  have "entries (ins_us sample_punct ?c sample_ops) kw = [] \<or>
      kw = meta_keyword ''a'' 0 \<and> length (entries (ins_us sample_punct ?c sample_ops) kw) \<le> 2" for kw
    by (simp add: ins_us_def sample_ops_def List.map_filter_def entries_def)
  then show "tokens_distinct (derive_bytes xor_bytes) pad_hash (root_prf (insertion_client ?c)) (ins_us sample_punct ?c sample_ops)"
    using janus_roots(1)[of "[]"] few_tokens by metis
  have "entries (del_us sample_punct ?c sample_ops) kw = [] \<or>
      kw = meta_keyword ''a'' 0 \<and> length (entries (del_us sample_punct ?c sample_ops) kw) \<le> 2" for kw
    by (simp add: del_us_def sample_ops_def entries_def)
  then show "tokens_distinct (derive_bytes xor_bytes) pad_hash (root_prf (deletion_client ?c)) (del_us sample_punct ?c sample_ops)"
    using janus_roots(2)[of "[]"] few_tokens by metis
qed

theorem janus_many_deletions_undefined_witness:
  "janus_searchKeyword sample_punct (derive_bytes xor_bytes) pad_hash ''a''
      (fold (janus_step sample_punct (derive_bytes xor_bytes) pad_hash) [JIns ''a'' 5 [1], JDel ''a'' 5, JDel ''a'' 6]
        (JanusClient pad_prf [], JanusServer True)) = Inl Undefined_behaviour"
proof (rule janus_many_deletions_undefined)
  let ?c = "JanusClient pad_prf []" and ?ops = "[JIns ''a'' 5 [1], JDel ''a'' 5, JDel ''a'' 6]"
  have "entries (ins_us sample_punct ?c ?ops) kw = [] \<or>
      kw = meta_keyword ''a'' 0 \<and> length (entries (ins_us sample_punct ?c ?ops) kw) \<le> 2" for kw
    by (simp add: ins_us_def List.map_filter_def entries_def)
  then show "tokens_distinct (derive_bytes xor_bytes) pad_hash (root_prf (insertion_client ?c)) (ins_us sample_punct ?c ?ops)"
    using janus_roots(1)[of "[]"] few_tokens by metis
  have "entries (del_us sample_punct ?c ?ops) kw = [] \<or>
      kw = meta_keyword ''a'' 0 \<and> length (entries (del_us sample_punct ?c ?ops) kw) \<le> 2" for kw
    by (simp add: del_us_def entries_def)
  then show "tokens_distinct (derive_bytes xor_bytes) pad_hash (root_prf (deletion_client ?c)) (del_us sample_punct ?c ?ops)"
    using janus_roots(2)[of "[]"] few_tokens by metis
qed (simp_all add: deleted_in_def List.map_filter_def)

theorem janus_first_search_correct_witness:
  "\<exists>cs'. janus_searchKeyword sample_punct (derive_bytes xor_bytes) pad_hash ''a''
      (fold (janus_step sample_punct (derive_bytes xor_bytes) pad_hash) sample_ops (JanusClient pad_prf [], JanusServer True)) = Inr (cs', [6])"
proof -
  have "filter (\<lambda>i. i \<notin> set (deleted_in sample_ops ''a'')) (inserted_in sample_ops ''a'') = [6]" by code_simp
  with janus_first_search_correct[OF sample_punct_good(1) sample_hypotheses(1-4) sample_tokens sample_hypotheses(5,6), of True] show ?thesis by simp
qed

theorem janus_second_search_undefined_witness:
  "\<exists>cs'. janus_searchKeyword sample_punct (derive_bytes xor_bytes) pad_hash ''a''
      (fold (janus_step sample_punct (derive_bytes xor_bytes) pad_hash) sample_ops (JanusClient pad_prf [], JanusServer True)) = Inr (cs', [6]) \<and>
    janus_searchKeyword sample_punct (derive_bytes xor_bytes) pad_hash ''a'' cs' = Inl Undefined_behaviour"
proof -
  have "filter (\<lambda>i. i \<notin> set (deleted_in sample_ops ''a'')) (inserted_in sample_ops ''a'') = [6]" by code_simp
  with janus_first_search[OF refl sample_punct_good(1) sample_hypotheses(1-4) sample_tokens sample_hypotheses(5,6) refl, of True]
  obtain cs' where "janus_searchKeyword sample_punct (derive_bytes xor_bytes) pad_hash ''a''
      (fold (janus_step sample_punct (derive_bytes xor_bytes) pad_hash) sample_ops (JanusClient pad_prf [], JanusServer True)) = Inr (cs', [6])"
    by auto
  with janus_second_search_undefined[OF sample_punct_good(1) sample_hypotheses(1-4) sample_tokens sample_hypotheses(5,6) this] show ?thesis by simp
qed

end
