(* ===== verification/PrfOram.thy ===== *)
theory PrfOram
  imports Oram
begin

text \<open>
  The ORAM of Horus, in which the caller chooses the position of every box: \<open>src/src/horus/PRFORAM.cpp\<close>. Boxes are written once and never moved, the
  positions come from a keyed function. Identifiers have 24 bytes.

  A \<open>Box*\<close> is in the stash under its identifier until \<open>WritePath\<close> moves the box to a bucket and deletes it; the model names it by the identifier. The
  members \<open>leafList\<close>, \<open>modified\<close>, \<open>emptyBoxs\<close>, \<open>nodePoses\<close> and \<open>deleted\<close> are never used and are left out. Positions are leaf numbers and are naturals.
\<close>

section \<open>Boxes\<close>

record box =
  bx_key :: "3 Bid"
  bx_value :: bytes
  bx_pos :: nat

text \<open>The object representation: the table pointer and the bytes of the identifier, the value, the position and four bytes of padding.\<close>

definition sizeof_Box :: nat where "sizeof_Box = 56"

definition convertBoxToBlock :: "box \<Rightarrow> bytes" where
  "convertBoxToBlock b = vptr @ bid_id (bx_key b) @ bx_value b @ le_bytes 4 (int (bx_pos b)) @ replicate 4 0"

definition convertBlockToBox :: "bytes \<Rightarrow> box res" where
  "convertBlockToBox b =
     (if length b < sizeof_Box then Inl Undefined_behaviour
      else Inr \<lparr>bx_key = Bid_array (slice 8 24 b), bx_value = slice 32 16 b, bx_pos = nat (le_uint (slice 48 4 b))\<rparr>)"

section \<open>The state\<close>

record prforam =
  p_store :: ram_store
  p_depth :: nat
  p_blockSize :: nat
  stash :: "(3 Bid, box) smap"
  viewmap :: "nat list"
  p_bucketCount :: nat
  p_key :: bytes
  p_aes :: cbc
  p_ivs :: "nat \<Rightarrow> bytes"
  p_plaintext_size :: nat
  p_clen_size :: nat

definition GetBoxOnPath :: "prforam \<Rightarrow> nat \<Rightarrow> nat \<Rightarrow> nat" where
  "GetBoxOnPath s leaf curDepth = up (p_depth s - curDepth) (leaf + p_bucketCount s div 2)"

section \<open>Buckets\<close>

definition box_SerialiseBucket :: "prforam \<Rightarrow> 3 Bucket \<Rightarrow> bytes res" where
  "box_SerialiseBucket s bucket =
     (let buffer = concat (map b_data (take Z bucket))
      in if length buffer = Z * p_blockSize s then Inr buffer else Inl Assertion_failed)"

fun box_deserialise :: "nat \<Rightarrow> nat \<Rightarrow> bytes \<Rightarrow> 3 Bucket res" where
  "box_deserialise bs 0 buffer = Inr []"
| "box_deserialise bs (Suc z) buffer =
     (let data = take bs buffer
      in bindE (convertBlockToBox data) (\<lambda>n.
         bindE (box_deserialise bs z (drop bs buffer)) (\<lambda>rest. Inr (\<lparr>b_id = bx_key n, b_data = data\<rparr> # rest))))"

definition box_DeserialiseBucket :: "prforam \<Rightarrow> bytes \<Rightarrow> 3 Bucket res" where
  "box_DeserialiseBucket s buffer =
     (if length buffer = Z * p_blockSize s then box_deserialise (p_blockSize s) Z buffer else Inl Assertion_failed)"

definition box_ReadBucket :: "prforam \<Rightarrow> nat \<Rightarrow> 3 Bucket res" where
  "box_ReadBucket s index =
     bindE (ram_Read (p_store s) index) (\<lambda>ciphertext.
     bindE (Decrypt (p_aes s) (p_key s) ciphertext (p_clen_size s)) (box_DeserialiseBucket s))"

definition box_WriteBucket :: "nat \<Rightarrow> 3 Bucket \<Rightarrow> prforam \<Rightarrow> prforam res" where
  "box_WriteBucket index bucket s =
     bindE (box_SerialiseBucket s bucket) (\<lambda>b.
       let s1 = s\<lparr>p_ivs := \<lambda>i. p_ivs s (Suc i)\<rparr>
       in bindE (Encrypt (p_aes s1) (p_ivs s 0) (p_key s1) b (p_clen_size s1) (p_plaintext_size s1)) (\<lambda>ciphertext.
          bindE (ram_Write index ciphertext (p_store s1)) (\<lambda>st. Inr (s1\<lparr>p_store := st\<rparr>))))"

definition PRFORAM :: "cbc \<Rightarrow> (nat \<Rightarrow> bytes) \<Rightarrow> nat \<Rightarrow> bytes \<Rightarrow> prforam res" where
  "PRFORAM A ivs maxSize key =
     (if maxSize < Z then Inl Undefined_behaviour
      else let depth = floor_log2 (maxSize div Z);
               count = 2 ^ (depth + 1) - 1;
               clen = GetCiphertextLength (Z * sizeof_Box);
               s = \<lparr>p_store = RAMStore (Z * count) (IV + clen), p_depth = depth, p_blockSize = sizeof_Box, stash = [],
                    viewmap = [], p_bucketCount = count, p_key = key, p_aes = A, p_ivs = ivs,
                    p_plaintext_size = sizeof_Box * Z, p_clen_size = clen\<rparr>
           in foldE (\<lambda>i. box_WriteBucket i (replicate Z (dummy_block sizeof_Box))) [0..<count] s)"

section \<open>Paths\<close>

definition stash_block :: "3 Block \<Rightarrow> prforam \<Rightarrow> prforam res" where
  "stash_block b s =
     (if bid_ne_int (b_id b) 0
      then bindE (convertBlockToBox (b_data b)) (\<lambda>n.
             Inr (if sm_get (stash s) (b_id b) = None then s\<lparr>stash := sm_put (b_id b) n (stash s)\<rparr> else s))
      else Inr s)"

definition stash_bucket :: "nat \<Rightarrow> prforam \<Rightarrow> prforam res" where
  "stash_bucket i s = bindE (box_ReadBucket s i) (\<lambda>bucket. foldE stash_block (take Z bucket) s)"

definition box_FetchPath :: "nat \<Rightarrow> bool \<Rightarrow> prforam \<Rightarrow> prforam res" where
  "box_FetchPath leaf batchRead s =
     foldE (\<lambda>d s. let i = GetBoxOnPath s leaf d
                  in if \<not> batchRead then stash_bucket i s
                     else if i \<in> set (viewmap s) then Inr s
                     else stash_bucket i (s\<lparr>viewmap := viewmap s @ [i]\<rparr>)) [0..<Suc (p_depth s)] s"

definition box_GetIntersectingBlocks :: "prforam \<Rightarrow> nat \<Rightarrow> nat \<Rightarrow> 3 Bid list" where
  "box_GetIntersectingBlocks s x curDepth =
     take Z (map fst (filter (\<lambda>b. GetBoxOnPath s (bx_pos (snd b)) curDepth = GetBoxOnPath s x curDepth) (stash s)))"

fun take_boxes :: "3 Bid list \<Rightarrow> prforam \<Rightarrow> (prforam \<times> 3 Bucket) res" where
  "take_boxes [] s = Inr (s, [])"
| "take_boxes (bid # bids) s =
     (case sm_get (stash s) bid of
        None \<Rightarrow> Inl Undefined_behaviour
      | Some n \<Rightarrow> bindE (take_boxes bids (s\<lparr>stash := sm_erase bid (stash s)\<rparr>)) (\<lambda>(s', bs).
                   Inr (s', \<lparr>b_id = bid, b_data = convertBoxToBlock n\<rparr> # bs)))"

definition box_WritePath :: "nat \<Rightarrow> nat \<Rightarrow> prforam \<Rightarrow> prforam res" where
  "box_WritePath leaf d s =
     (let i = GetBoxOnPath s leaf d
      in if i \<in> set (viewmap s) then Inr s
         else let validBlocks = box_GetIntersectingBlocks s leaf d
              in bindE (take_boxes validBlocks s) (\<lambda>(s1, bs).
                   box_WriteBucket i (bs @ replicate (Z - length validBlocks) (dummy_block (p_blockSize s1)))
                     (s1\<lparr>viewmap := viewmap s1 @ [i]\<rparr>)))"

section \<open>Access\<close>

definition box_WriteData :: "3 Bid \<Rightarrow> box \<Rightarrow> prforam \<Rightarrow> prforam res" where
  "box_WriteData bid n s =
     (if 0 < GetEmptySize (p_store s)
      then Inr (s\<lparr>stash := sm_put bid n (stash s), p_store := ReduceEmptyNumbers (p_store s)\<rparr>)
      else Inl (Runtime_error ''There is no more space in PRFORAM''))"

definition box_ReadData :: "prforam \<Rightarrow> 3 Bid \<Rightarrow> box option" where
  "box_ReadData s bid = sm_get (stash s) bid"

definition box_text :: "box option \<Rightarrow> string" where
  "box_text b = (case b of None \<Rightarrow> '''' | Some n \<Rightarrow> c_str (bytes_str (bx_value n)))"

definition levels_down :: "prforam \<Rightarrow> nat list" where
  "levels_down s = rev [0..<Suc (p_depth s)]"

text \<open>\<open>Access(Bid, Box*&, int)\<close>, which reads.\<close>

definition box_Access_read :: "3 Bid \<Rightarrow> nat \<Rightarrow> prforam \<Rightarrow> (prforam \<times> string) res" where
  "box_Access_read bid pos s =
     bindE (box_FetchPath pos False s) (\<lambda>s1.
       let res = box_text (box_ReadData s1 bid)
       in bindE (foldE (box_WritePath pos) (levels_down s1) (s1\<lparr>viewmap := []\<rparr>)) (\<lambda>s2. Inr (s2, res)))"

text \<open>
  \<open>Access(Bid, Box*&)\<close>, which writes. The loop reads \<open>box->pos\<close> in every round, also after \<open>WritePath\<close> has moved the box to a
  bucket and deleted it.
\<close>

fun write_levels :: "3 Bid \<Rightarrow> nat list \<Rightarrow> prforam \<Rightarrow> prforam res" where
  "write_levels bid [] s = Inr s"
| "write_levels bid (d # ds) s =
     (case sm_get (stash s) bid of
        None \<Rightarrow> Inl Undefined_behaviour
      | Some b \<Rightarrow> bindE (box_WritePath (bx_pos b) d s) (write_levels bid ds))"

definition box_Access_write :: "3 Bid \<Rightarrow> box \<Rightarrow> prforam \<Rightarrow> prforam res" where
  "box_Access_write bid n s =
     bindE (box_FetchPath (bx_pos n) False s) (\<lambda>s1.
     bindE (box_WriteData bid n s1) (\<lambda>s2. write_levels bid (levels_down s2) (s2\<lparr>viewmap := []\<rparr>)))"

definition new_box :: "3 Bid \<Rightarrow> string \<Rightarrow> nat \<Rightarrow> box res" where
  "new_box bid val pos =
     bindE (copy_into 0 (str_bytes val) (replicate 16 0)) (\<lambda>v. Inr \<lparr>bx_key = bid, bx_value = v, bx_pos = pos\<rparr>)"

text \<open>Returning a null pointer as a string is undefined.\<close>

definition ReadBox :: "3 Bid \<Rightarrow> nat \<Rightarrow> prforam \<Rightarrow> (prforam \<times> string) res" where
  "ReadBox bid pos s =
     (if bid_eq_int bid 0 then Inl Undefined_behaviour
      else case sm_get (stash s) bid of
             None \<Rightarrow> box_Access_read bid pos s
           | Some n \<Rightarrow> Inr (s, box_text (Some n)))"

definition WriteBox :: "3 Bid \<Rightarrow> string \<Rightarrow> nat \<Rightarrow> prforam \<Rightarrow> prforam res" where
  "WriteBox bid val pos s =
     (if bid_eq_int bid 0 then Inl (Runtime_error ''Box id is not set'')
      else bindE (new_box bid val pos) (\<lambda>n. box_Access_write bid n s))"

section \<open>Batches\<close>

text \<open>
  The batches test whether the stash has the \<^emph>\<open>position\<close>, converted to an identifier. The positions fetched are a \<open>std::set\<close>, here
  a sorted list.
\<close>

definition read_item :: "3 Bid \<times> nat \<Rightarrow> prforam \<times> nat list \<times> string list \<Rightarrow> (prforam \<times> nat list \<times> string list) res" where
  "read_item item = (\<lambda>(s, leafs, result).
     case sm_get (stash s) (Bid_int (int (snd item))) of
       None \<Rightarrow> bindE (box_FetchPath (snd item) True s) (\<lambda>s1.
                Inr (s1, insort_insert (snd item) leafs, result @ [box_text (box_ReadData s1 (fst item))]))
     | Some n \<Rightarrow> Inr (s, leafs, result @ [box_text (Some n)]))"

definition write_paths :: "nat list \<Rightarrow> prforam \<Rightarrow> prforam res" where
  "write_paths leafs s = foldE (\<lambda>d. foldE (\<lambda>leaf. box_WritePath leaf d) leafs) (levels_down s) (s\<lparr>viewmap := []\<rparr>)"

definition batchRead :: "(3 Bid \<times> nat) list \<Rightarrow> prforam \<Rightarrow> (prforam \<times> string list) res" where
  "batchRead batchQuery s =
     bindE (foldE read_item batchQuery (s\<lparr>viewmap := []\<rparr>, [], [])) (\<lambda>(s1, leafs, result).
     bindE (write_paths leafs s1) (\<lambda>s2. Inr (s2, result)))"

definition write_item :: "3 Bid \<Rightarrow> string \<Rightarrow> nat \<Rightarrow> prforam \<times> nat list \<Rightarrow> (prforam \<times> nat list) res" where
  "write_item bid val pos = (\<lambda>(s, leafs).
     bindE (if sm_get (stash s) (Bid_int (int pos)) = None
            then bindE (box_FetchPath pos True s) (\<lambda>s1. Inr (s1, insort_insert pos leafs)) else Inr (s, leafs)) (\<lambda>(s1, leafs1).
     bindE (new_box bid val pos) (\<lambda>n.
     bindE (box_WriteData bid n s1) (\<lambda>s2. Inr (s2, leafs1)))))"

text \<open>The two maps are walked in step; running past the end of the second one is undefined.\<close>

fun write_items :: "(3 Bid, string) smap \<Rightarrow> (3 Bid, nat) smap \<Rightarrow> prforam \<times> nat list \<Rightarrow> (prforam \<times> nat list) res" where
  "write_items [] poses st = Inr st"
| "write_items ((bid, val) # vals) [] st = Inl Undefined_behaviour"
| "write_items ((bid, val) # vals) ((_, pos) # poses) st = bindE (write_item bid val pos st) (write_items vals poses)"

definition box_batchWrite :: "(3 Bid, string) smap \<Rightarrow> (3 Bid, nat) smap \<Rightarrow> prforam \<Rightarrow> prforam res" where
  "box_batchWrite vals poses s =
     bindE (write_items vals poses (s\<lparr>viewmap := []\<rparr>, [])) (\<lambda>(s1, leafs). write_paths leafs s1)"

end
