(* ===== verification/Horus.thy ===== *)
theory Horus
  imports Orion PrfOram Prg
begin

text \<open>
  Horus: \<open>src/src/horus/Horus.cpp\<close>. An oblivious map \<open>OMAP_updt\<close> has under a keyword and an identifier the position of the identifier in the keyword's list and
  an access counter, and under a keyword and a position the identifier and the same counter. The ORAM \<open>ORAM_srch\<close> has a box for every position and
  access counter, at a leaf derived from keyword, position, search counter and access counter. A search finds for every position the box with the
  greatest access counter by bisection, all positions in step, and writes the results under the next search counter.

  The members \<open>useHDD\<close> and \<open>poses\<close> are not used. \<open>prg\<close> is \<open>Prg::derive\<close>. A counter that leaves the range of \<open>int\<close> is undefined.
\<close>

section \<open>State\<close>

record horus =
  h_setupPairs1 :: "(3 Bid, string) smap"
  h_setupPairs2 :: "(3 Bid, string) smap"
  setupPairsPos :: "(3 Bid, nat) smap"
  OMAP_updt :: "3 omap"
  h_UpdtCnt :: "(string, int) smap"
  SrchCnt :: "(string, int) smap"
  h_Access :: "(string, int) smap"
  h_LastIND :: "(string, int) smap"
  latestUpdatedCounter :: "(string, int) smap"
  h_maxSize :: nat
  ORAM_srch :: prforam

definition INC_FACTOR :: nat where "INC_FACTOR = 4"

definition Horus :: "cbc \<Rightarrow> devices \<Rightarrow> (nat \<Rightarrow> bytes) \<Rightarrow> nat \<Rightarrow> horus res" where
  "Horus A d ivs maxSize =
     bindE (int32 (int maxSize * int INC_FACTOR)) (\<lambda>_.
     bindE (OMAP A (d_ivs d) (d_oram d) (d_avl d) (maxSize * INC_FACTOR) key1) (\<lambda>u.
     bindE (PRFORAM A ivs (maxSize * INC_FACTOR) key2) (\<lambda>s.
       Inr \<lparr>h_setupPairs1 = [], h_setupPairs2 = [], setupPairsPos = [], OMAP_updt = u, h_UpdtCnt = [], SrchCnt = [], h_Access = [],
            h_LastIND = [], latestUpdatedCounter = [], h_maxSize = maxSize, ORAM_srch = s\<rparr>)))"

section \<open>Identifiers and positions\<close>

text \<open>\<open>createBid(byte_t, string, int)\<close>: the keyword from the second byte and the number in the last four.\<close>

definition map_bid :: "byte \<Rightarrow> string \<Rightarrow> int \<Rightarrow> 3 Bid res" where
  "map_bid prefix keyword number =
     bindE (copy_into 1 (str_bytes keyword) ((replicate (ID_SIZE TYPE(3)) 0)[0 := prefix])) (\<lambda>b.
       Inr (Bid_array (copy_at (ID_SIZE TYPE(3) - 4) (le_bytes 4 number) b)))"

text \<open>\<open>createBid(string, int, int, int)\<close>.\<close>

definition oram_bid :: "string \<Rightarrow> int \<Rightarrow> int \<Rightarrow> int \<Rightarrow> 3 Bid res" where
  "oram_bid keyword val1 val2 val3 =
     (let b = copy_at 8 (le_bytes 4 val3) (copy_at 4 (le_bytes 4 val2) (copy_at 0 (le_bytes 4 val1) (replicate (ID_SIZE TYPE(3)) 0)))
      in bindE (copy_into 12 (str_bytes keyword) b) (\<lambda>b'. Inr (Bid_array b')))"

text \<open>\<open>createBid(string, int)\<close>, which nothing calls.\<close>

definition plain_bid :: "string \<Rightarrow> int \<Rightarrow> 3 Bid res" where
  "plain_bid keyword number =
     bindE (Bid_string keyword) (\<lambda>bid :: 3 Bid. Inr (Bid_array (copy_at (ID_SIZE TYPE(3) - 4) (le_bytes 4 number) (bid_id bid))))"

text \<open>
  The leaf is the derived number modulo the number of inner buckets; \<open>(int) ((pow(2, d + 1) - 1) / 2)\<close> is \<open>2 ^ d - 1\<close>. With
  one leaf this is a division by zero.
\<close>

definition position_key :: "string \<Rightarrow> int \<Rightarrow> int \<Rightarrow> int \<Rightarrow> bytes" where
  "position_key keyword updt_cnt src_cnt acc_cnt =
     (let keyStr = str_bytes (keyword @ ''-'' @ to_string updt_cnt @ ''-'' @ to_string src_cnt @ ''-'' @ to_string acc_cnt)
      in copy_at 0 (take 31 keyStr) (replicate 32 0))"

definition leaf_modulus :: "nat \<Rightarrow> nat" where
  "leaf_modulus maxSize = (2 ^ (floor_log2 (maxSize * INC_FACTOR div Z) + 1) - 1) div 2"

definition generatePosition :: "(bytes \<Rightarrow> nat \<Rightarrow> nat \<Rightarrow> bytes) \<Rightarrow> nat \<Rightarrow> string \<Rightarrow> int \<Rightarrow> int \<Rightarrow> int \<Rightarrow> nat res" where
  "generatePosition prg maxSize keyword updt_cnt src_cnt acc_cnt =
     (if leaf_modulus maxSize = 0 then Inl Undefined_behaviour
      else Inr (nat (le_uint (take 4 (prg (position_key keyword updt_cnt src_cnt acc_cnt) 0 4))) mod leaf_modulus maxSize))"

section \<open>Updates\<close>

text \<open>\<open>count\<close> of a map, and the two numbers of an entry; a token that is missing is out of range.\<close>

definition has :: "(string, int) smap \<Rightarrow> string \<Rightarrow> bool" where
  "has m w \<longleftrightarrow> sm_get m w \<noteq> None"

definition token_int :: "nat \<Rightarrow> string \<Rightarrow> int res" where
  "token_int i str = (let ts = split_on (CHR ''#'') str in if i < length ts then stoi (ts ! i) else Inl Undefined_behaviour)"

definition pair_text :: "int \<Rightarrow> int \<Rightarrow> string" where
  "pair_text a b = to_string a @ ''#'' @ to_string b"

definition write_box :: "(bytes \<Rightarrow> nat \<Rightarrow> nat \<Rightarrow> bytes) \<Rightarrow> string \<Rightarrow> int \<Rightarrow> int \<Rightarrow> string \<Rightarrow> horus \<Rightarrow> horus res" where
  "write_box prg keyword updt_cnt acc_cnt val st =
     (let src_cnt = count_of (SrchCnt st) keyword
      in bindE (oram_bid keyword updt_cnt src_cnt acc_cnt) (\<lambda>oramID.
         bindE (generatePosition prg (h_maxSize st) keyword updt_cnt src_cnt acc_cnt) (\<lambda>pos.
         bindE (WriteBox oramID val pos (ORAM_srch st)) (\<lambda>s. Inr (st\<lparr>ORAM_srch := s\<rparr>)))))"

definition new_counters :: "string \<Rightarrow> horus \<Rightarrow> horus" where
  "new_counters keyword st =
     (let st1 = (if has (h_UpdtCnt st) keyword then st
                 else st\<lparr>h_UpdtCnt := sm_put keyword 0 (h_UpdtCnt st),
                         latestUpdatedCounter := sm_put keyword 0 (latestUpdatedCounter st), SrchCnt := sm_put keyword 0 (SrchCnt st)\<rparr>)
      in if has (h_Access st1) keyword then st1 else st1\<lparr>h_Access := sm_put keyword 1 (h_Access st1)\<rparr>)"

definition raise_access :: "string \<Rightarrow> int \<Rightarrow> horus \<Rightarrow> horus" where
  "raise_access keyword acc_cnt st =
     (if acc_cnt > count_of (h_Access st) keyword then st\<lparr>h_Access := sm_put keyword acc_cnt (h_Access st)\<rparr> else st)"

definition horus_insert :: "(bytes \<Rightarrow> nat \<Rightarrow> nat \<Rightarrow> bytes) \<Rightarrow> string \<Rightarrow> int \<Rightarrow> horus \<Rightarrow> horus res" where
  "horus_insert prg keyword ind st =
     bindE (map_bid 0 keyword ind) (\<lambda>mapKey.
     bindE (omap_find mapKey (OMAP_updt st)) (\<lambda>(u, resStr).
       let st0 = st\<lparr>OMAP_updt := u\<rparr>
       in if resStr = '''' \<or> hd (split_on (CHR ''#'') resStr) = ''-1'' then
         let st1 = new_counters keyword st0
         in bindE (int32 (count_of (h_UpdtCnt st1) keyword + 1)) (\<lambda>c.
            bindE (map_bid 1 keyword c) (\<lambda>mapKey2.
            bindE (omap_find mapKey2 (OMAP_updt st1)) (\<lambda>(u1, resStr2).
              let st2 = st1\<lparr>h_UpdtCnt := sm_put keyword c (h_UpdtCnt st1), OMAP_updt := u1\<rparr>
              in bindE (if resStr2 = '''' then Inr 1 else bindE (token_int 1 resStr2) (\<lambda>a. int32 (a + 1))) (\<lambda>acc_cnt.
                 let st3 = (if resStr2 = '''' then st2 else raise_access keyword acc_cnt st2)
                 in bindE (omap_insert mapKey (pair_text c acc_cnt) (OMAP_updt st3)) (\<lambda>u2.
                    bindE (omap_insert mapKey2 (pair_text ind acc_cnt) u2) (\<lambda>u3.
                    bindE (write_box prg keyword c acc_cnt (to_string ind) (st3\<lparr>OMAP_updt := u3\<rparr>)) (\<lambda>st4.
                      let latest = count_of (latestUpdatedCounter st4) keyword
                      in bindE (if latest < c
                                then let st5 = st4\<lparr>latestUpdatedCounter := sm_put keyword (latest + 1) (latestUpdatedCounter st4)\<rparr>
                                     in if acc_cnt > 1 then write_box prg keyword c 1 (''@'' @ to_string acc_cnt) st5 else Inr st5
                                else Inr st4) (\<lambda>st6.
                         Inr (st6\<lparr>h_LastIND := sm_put keyword ind (h_LastIND st6)\<rparr>)))))))))
       else Inr st0))"

text \<open>During setup the boxes go to two maps, one of values and one of positions. A new keyword gets no search counter.\<close>

definition setup_box :: "(bytes \<Rightarrow> nat \<Rightarrow> nat \<Rightarrow> bytes) \<Rightarrow> string \<Rightarrow> int \<Rightarrow> int \<Rightarrow> string \<Rightarrow> horus \<Rightarrow> horus res" where
  "setup_box prg keyword updt_cnt acc_cnt val st =
     (let src_cnt = count_of (SrchCnt st) keyword
      in bindE (oram_bid keyword updt_cnt src_cnt acc_cnt) (\<lambda>oramID.
         bindE (generatePosition prg (h_maxSize st) keyword updt_cnt src_cnt acc_cnt) (\<lambda>pos.
           Inr (st\<lparr>h_setupPairs2 := sm_put oramID val (h_setupPairs2 st), setupPairsPos := sm_put oramID pos (setupPairsPos st)\<rparr>))))"

definition horus_setupInsert :: "(bytes \<Rightarrow> nat \<Rightarrow> nat \<Rightarrow> bytes) \<Rightarrow> string \<Rightarrow> int \<Rightarrow> horus \<Rightarrow> horus res" where
  "horus_setupInsert prg keyword ind st =
     bindE (map_bid 0 keyword ind) (\<lambda>mapKey.
       let st1 = (if has (h_Access st) keyword then st else st\<lparr>h_Access := sm_put keyword 1 (h_Access st)\<rparr>)
       in bindE (int32 (count_of (h_UpdtCnt st1) keyword + 1)) (\<lambda>c.
          bindE (map_bid 1 keyword c) (\<lambda>mapKey2.
            let st2 = st1\<lparr>h_UpdtCnt := sm_put keyword c (h_UpdtCnt st1),
                          h_setupPairs1 := sm_put mapKey2 (pair_text ind 1) (sm_put mapKey (pair_text c 1) (h_setupPairs1 st1))\<rparr>
            in bindE (setup_box prg keyword c 1 (to_string ind) st2) (\<lambda>st3.
               Inr (st3\<lparr>h_LastIND := sm_put keyword ind (h_LastIND st3)\<rparr>)))))"

text \<open>
  The members \<open>remove\<close> and \<open>setupRemove\<close> are the same text; the first works on the oblivious map and the ORAM, the second on the maps of the
  setup phase. The body is one definition over the two operations on entries and the one on boxes.
\<close>

definition horus_remove_with ::
    "(3 Bid \<Rightarrow> horus \<Rightarrow> (horus \<times> string) res) \<Rightarrow> (3 Bid \<Rightarrow> string \<Rightarrow> horus \<Rightarrow> horus res) \<Rightarrow>
     (string \<Rightarrow> int \<Rightarrow> int \<Rightarrow> string \<Rightarrow> horus \<Rightarrow> horus res) \<Rightarrow> string \<Rightarrow> int \<Rightarrow> horus \<Rightarrow> horus res" where
  "horus_remove_with get put box keyword ind st =
     bindE (map_bid 0 keyword ind) (\<lambda>mapKey.
     bindE (get mapKey st) (\<lambda>(st1, resStr).
     bindE (token_int 0 resStr) (\<lambda>updt_cnt.
       if updt_cnt > 0 then
         bindE (token_int 1 resStr) (\<lambda>acc_cnt.
         bindE (int32 (acc_cnt + 1)) (\<lambda>acc1.
         bindE (put mapKey (pair_text (-1) acc1) st1) (\<lambda>st2.
         bindE (int32 (count_of (h_UpdtCnt st2) keyword - 1)) (\<lambda>c.
           let st3 = st2\<lparr>h_UpdtCnt := sm_put keyword c (h_UpdtCnt st2)\<rparr>
           in if c > 0 then
             bindE (if c + 1 \<noteq> updt_cnt
                    then let st4 = raise_access keyword acc1 st3;
                             l = count_of (h_LastIND st4) keyword
                         in bindE (box keyword updt_cnt acc1 (to_string l) st4) (\<lambda>st5.
                            bindE (map_bid 0 keyword l) (\<lambda>k0.
                            bindE (put k0 (pair_text updt_cnt acc1) st5) (\<lambda>st6.
                            bindE (map_bid 1 keyword updt_cnt) (\<lambda>k1. put k1 (pair_text l acc1) st6))))
                    else Inr st3) (\<lambda>st7.
             bindE (map_bid 1 keyword c) (\<lambda>mapKey2.
             bindE (get mapKey2 st7) (\<lambda>(st8, resStr2).
             bindE (token_int 0 resStr2) (\<lambda>l.
               Inr (st8\<lparr>h_LastIND := sm_put keyword l (h_LastIND st8)\<rparr>)))))
           else Inr (st3\<lparr>h_LastIND := sm_erase keyword (h_LastIND st3)\<rparr>)))))
       else Inr st1)))"

definition updt_get :: "3 Bid \<Rightarrow> horus \<Rightarrow> (horus \<times> string) res" where
  "updt_get k st = bindE (omap_find k (OMAP_updt st)) (\<lambda>(u, r). Inr (st\<lparr>OMAP_updt := u\<rparr>, r))"

definition updt_put :: "3 Bid \<Rightarrow> string \<Rightarrow> horus \<Rightarrow> horus res" where
  "updt_put k v st = bindE (omap_insert k v (OMAP_updt st)) (\<lambda>u. Inr (st\<lparr>OMAP_updt := u\<rparr>))"

definition horus_remove :: "(bytes \<Rightarrow> nat \<Rightarrow> nat \<Rightarrow> bytes) \<Rightarrow> string \<Rightarrow> int \<Rightarrow> horus \<Rightarrow> horus res" where
  "horus_remove prg = horus_remove_with updt_get updt_put (write_box prg)"

definition setup_get :: "3 Bid \<Rightarrow> horus \<Rightarrow> (horus \<times> string) res" where
  "setup_get k st = bindE (pairs_get k (h_setupPairs1 st)) (\<lambda>(m, r). Inr (st\<lparr>h_setupPairs1 := m\<rparr>, r))"

definition setup_put :: "3 Bid \<Rightarrow> string \<Rightarrow> horus \<Rightarrow> horus res" where
  "setup_put k v st = bindE (pairs_put k v (h_setupPairs1 st)) (\<lambda>m. Inr (st\<lparr>h_setupPairs1 := m\<rparr>))"

definition horus_setupRemove :: "(bytes \<Rightarrow> nat \<Rightarrow> nat \<Rightarrow> bytes) \<Rightarrow> string \<Rightarrow> int \<Rightarrow> horus \<Rightarrow> horus res" where
  "horus_setupRemove prg = horus_remove_with setup_get setup_put (setup_box prg)"

section \<open>Search\<close>

text \<open>What the search keeps for one position: the interval, the access counter it reads next, the last box it found, and whether it is done.\<close>

record srow =
  r_left :: int
  r_right :: int
  curValue :: int
  lastAcc :: int
  lastID :: string
  foundItem :: bool

definition new_row :: "int \<Rightarrow> srow" where
  "new_row acc = \<lparr>r_left = 1, r_right = acc, curValue = 1, lastAcc = 0, lastID = '''', foundItem = False\<rparr>"

definition half :: "int \<Rightarrow> int" where
  "half x = (if 0 \<le> x then x div 2 else - (- x div 2))"

text \<open>The first round looks for the marker; the result of the second is the value found, if the interval has one element.\<close>

definition first_step :: "string \<Rightarrow> srow \<Rightarrow> srow res" where
  "first_step ans r =
     (if ans \<noteq> '''' \<and> hd ans = CHR ''@'' \<and> r_left r = 1
      then bindE (stoi (tl ans)) (\<lambda>l. bindE (int32 (l + r_right r)) (\<lambda>m.
             Inr (r\<lparr>r_left := l, curValue := half m, lastAcc := half m\<rparr>)))
      else bindE (int32 (r_left r + r_right r)) (\<lambda>m. Inr (r\<lparr>curValue := half m\<rparr>)))"

definition next_step :: "string \<Rightarrow> srow \<Rightarrow> srow res" where
  "next_step ans r =
     (if ans = '''' \<or> r_left r \<ge> r_right r then
        if r_right r \<le> r_left r then
          let r1 = r\<lparr>foundItem := True\<rparr>
          in Inr (if lastID r1 = '''' then r1\<lparr>lastID := ans, lastAcc := curValue r1\<rparr> else r1)
        else if curValue r = r_right r then bindE (int32 (r_left r + r_right r)) (\<lambda>m. Inr (r\<lparr>curValue := m div 2, r_right := m div 2\<rparr>))
        else bindE (int32 (r_left r + curValue r)) (\<lambda>m. Inr (r\<lparr>r_right := curValue r, curValue := (m + 1) div 2\<rparr>))
      else let r1 = r\<lparr>lastID := ans, lastAcc := curValue r\<rparr>
           in if curValue r = r_left r then bindE (int32 (r_left r + r_right r)) (\<lambda>m. Inr (r1\<lparr>curValue := (m + 1) div 2\<rparr>))
              else bindE (int32 (curValue r + r_right r)) (\<lambda>m. Inr (r1\<lparr>r_left := curValue r, curValue := m div 2\<rparr>)))"

text \<open>\<open>insert\<close> of \<open>std::map\<close> keeps an entry that is there.\<close>

definition sm_insert :: "'k::linorder \<Rightarrow> 'v \<Rightarrow> ('k, 'v) smap \<Rightarrow> ('k, 'v) smap" where
  "sm_insert k v m = (if sm_get m k = None then sm_put k v m else m)"

record writes =
  w_result :: "int list"
  w_query :: "(3 Bid, nat) smap"
  w_queryID :: "(3 Bid, string) smap"

definition queue_box :: "(bytes \<Rightarrow> nat \<Rightarrow> nat \<Rightarrow> bytes) \<Rightarrow> nat \<Rightarrow> string \<Rightarrow> int \<Rightarrow> int \<Rightarrow> int \<Rightarrow> string \<Rightarrow> writes \<Rightarrow> writes res" where
  "queue_box prg maxSize keyword pos_no src_cnt acc_cnt val ws =
     bindE (oram_bid keyword pos_no src_cnt acc_cnt) (\<lambda>oramID.
     bindE (generatePosition prg maxSize keyword pos_no src_cnt acc_cnt) (\<lambda>pos.
       Inr (ws\<lparr>w_query := sm_insert oramID pos (w_query ws), w_queryID := sm_insert oramID val (w_queryID ws)\<rparr>)))"

definition row_found :: "(bytes \<Rightarrow> nat \<Rightarrow> nat \<Rightarrow> bytes) \<Rightarrow> nat \<Rightarrow> string \<Rightarrow> int \<Rightarrow> int \<Rightarrow> srow \<Rightarrow> writes \<Rightarrow> writes res" where
  "row_found prg maxSize keyword src_cnt pos_no r ws =
     bindE (stoi (lastID r)) (\<lambda>v.
     bindE (int32 (src_cnt + 1)) (\<lambda>src1.
     bindE (queue_box prg maxSize keyword pos_no src1 (lastAcc r) (lastID r) (ws\<lparr>w_result := w_result ws @ [v]\<rparr>)) (\<lambda>ws1.
       if lastAcc r > 1 then queue_box prg maxSize keyword pos_no src1 1 (''@'' @ to_string (lastAcc r)) ws1 else Inr ws1)))"

text \<open>The positions that are not done, with the identifiers and leaves they read, and the pass over their answers.\<close>

fun query_rows :: "(bytes \<Rightarrow> nat \<Rightarrow> nat \<Rightarrow> bytes) \<Rightarrow> nat \<Rightarrow> string \<Rightarrow> int \<Rightarrow> int \<Rightarrow> srow list \<Rightarrow> (3 Bid \<times> nat) list res" where
  "query_rows prg maxSize keyword src_cnt i [] = Inr []"
| "query_rows prg maxSize keyword src_cnt i (r # rs) =
     (if foundItem r then query_rows prg maxSize keyword src_cnt (i + 1) rs
      else bindE (generatePosition prg maxSize keyword i src_cnt (curValue r)) (\<lambda>pos.
           bindE (oram_bid keyword i src_cnt (curValue r)) (\<lambda>oramID.
           bindE (query_rows prg maxSize keyword src_cnt (i + 1) rs) (\<lambda>qs. Inr ((oramID, pos) # qs)))))"

fun answer_rows :: "(bytes \<Rightarrow> nat \<Rightarrow> nat \<Rightarrow> bytes) \<Rightarrow> nat \<Rightarrow> string \<Rightarrow> int \<Rightarrow> bool \<Rightarrow> int \<Rightarrow> srow list \<Rightarrow> string list \<Rightarrow> writes \<Rightarrow>
    (srow list \<times> writes) res" where
  "answer_rows prg maxSize keyword src_cnt firstRun i [] ids ws = Inr ([], ws)"
| "answer_rows prg maxSize keyword src_cnt firstRun i (r # rs) ids ws =
     (if foundItem r then bindE (answer_rows prg maxSize keyword src_cnt firstRun (i + 1) rs ids ws) (\<lambda>(rs', ws'). Inr (r # rs', ws'))
      else case ids of
             [] \<Rightarrow> Inl Undefined_behaviour
           | ans # ids' \<Rightarrow>
               bindE (if firstRun then first_step ans r else next_step ans r) (\<lambda>r'.
               bindE (if foundItem r' then row_found prg maxSize keyword src_cnt i r' ws else Inr ws) (\<lambda>ws1.
               bindE (answer_rows prg maxSize keyword src_cnt firstRun (i + 1) rs ids' ws1) (\<lambda>(rs', ws'). Inr (r' # rs', ws')))))"

fun search_loop :: "(bytes \<Rightarrow> nat \<Rightarrow> nat \<Rightarrow> bytes) \<Rightarrow> nat \<Rightarrow> string \<Rightarrow> int \<Rightarrow> nat \<Rightarrow> bool \<Rightarrow> srow list \<Rightarrow> writes \<Rightarrow> prforam \<Rightarrow> (writes \<times> prforam) res" where
  "search_loop prg maxSize keyword src_cnt 0 firstRun rows ws s = Inl Out_of_fuel"
| "search_loop prg maxSize keyword src_cnt (Suc fuel) firstRun rows ws s =
     (if list_all foundItem rows then Inr (ws, s)
      else bindE (query_rows prg maxSize keyword src_cnt 1 rows) (\<lambda>batchReadQuery.
           bindE (batchRead batchReadQuery s) (\<lambda>(s1, ids).
           bindE (answer_rows prg maxSize keyword src_cnt firstRun 1 rows ids ws) (\<lambda>(rows', ws').
             search_loop prg maxSize keyword src_cnt fuel False rows' ws' s1))))"

text \<open>Every round but the first and the last halves an interval or leaves its left end, so the width of the interval bounds the rounds.\<close>

definition search_fuel :: "int \<Rightarrow> nat" where
  "search_fuel acc = 2 * nat acc + 5"

text \<open>A negative counter makes \<open>new string[UpdtCnt[keyword]]\<close> throw.\<close>

definition horus_search :: "(bytes \<Rightarrow> nat \<Rightarrow> nat \<Rightarrow> bytes) \<Rightarrow> string \<Rightarrow> horus \<Rightarrow> (horus \<times> int list) res" where
  "horus_search prg keyword st =
     (let n = count_of (h_UpdtCnt st) keyword;
          acc = count_of (h_Access st) keyword;
          src = count_of (SrchCnt st) keyword
      in if n < 0 then Inl (Runtime_error ''bad_array_new_length'')
         else bindE (search_loop prg (h_maxSize st) keyword src (search_fuel acc) True (replicate (nat n) (new_row acc))
                \<lparr>w_result = [], w_query = [], w_queryID = []\<rparr> (ORAM_srch st)) (\<lambda>(ws, s).
              bindE (int32 (src + 1)) (\<lambda>src1.
              bindE (box_batchWrite (w_queryID ws) (w_query ws) s) (\<lambda>s1.
                Inr (st\<lparr>h_UpdtCnt := sm_put keyword n (h_UpdtCnt st), SrchCnt := sm_put keyword src1 (SrchCnt st), ORAM_srch := s1,
                       h_Access := (if 0 < n then sm_put keyword acc (h_Access st) else h_Access st),
                       latestUpdatedCounter := sm_put keyword (int (length (w_result ws))) (latestUpdatedCounter st)\<rparr>, w_result ws)))))"

section \<open>Setup\<close>

definition horus_beginSetup :: "horus \<Rightarrow> horus" where
  "horus_beginSetup st = st\<lparr>h_setupPairs1 := [], h_setupPairs2 := []\<rparr>"

definition horus_endSetup :: "horus \<Rightarrow> horus res" where
  "horus_endSetup st =
     bindE (omap_batchInsert (h_setupPairs1 st) (OMAP_updt st)) (\<lambda>u.
     bindE (box_batchWrite (h_setupPairs2 st) (setupPairsPos st) (ORAM_srch st)) (\<lambda>s.
       Inr (st\<lparr>OMAP_updt := u, ORAM_srch := s\<rparr>)))"

end
