(* ===== verification/HorusRow.thy ===== *)
theory HorusRow
  imports Horus
begin

text \<open>
  The bisection of a search, for one position. The box texts by access counter are a function \<open>g\<close>: there are numbers from \<open>lo\<close> to \<open>hi\<close> and nothing above, and
  when \<open>lo\<close> is not 1 a marker at 1 says where the numbers start. The search ends with the number at \<open>hi\<close>, within a number of rounds bounded by the
  width of the interval.
\<close>

definition column :: "(int \<Rightarrow> string) \<Rightarrow> int \<Rightarrow> int \<Rightarrow> int \<Rightarrow> int \<Rightarrow> bool" where
  "column g R lo hi v \<longleftrightarrow> 1 \<le> lo \<and> lo \<le> hi \<and> hi \<le> R \<and> in_int32 (2 * R) \<and> in_int32 v \<and>
     (1 < lo \<longrightarrow> g 1 = ''@'' @ to_string lo) \<and> (\<forall>a. lo \<le> a \<and> a \<le> hi \<longrightarrow> (\<exists>x. in_int32 x \<and> g a = to_string x)) \<and>
     g hi = to_string v \<and> (\<forall>a. hi < a \<and> a \<le> R \<longrightarrow> g a = '''')"

definition bisecting :: "(int \<Rightarrow> string) \<Rightarrow> int \<Rightarrow> int \<Rightarrow> int \<Rightarrow> srow \<Rightarrow> bool" where
  "bisecting g R lo hi r \<longleftrightarrow> \<not> foundItem r \<and> lo \<le> r_left r \<and> r_left r \<le> hi \<and> hi \<le> r_right r \<and> r_right r \<le> R \<and>
     r_left r \<le> curValue r \<and> curValue r \<le> r_right r \<and> (curValue r = r_right r \<longrightarrow> r_right r - r_left r \<le> 1) \<and>
     (lastID r \<noteq> '''' \<longrightarrow> lastAcc r = r_left r \<and> lastID r = g (r_left r))"

definition rounds_left :: "srow \<Rightarrow> nat" where
  "rounds_left r = 2 * nat (r_right r - r_left r) + (if curValue r = r_left r then 1 else 0)"

lemma to_string_no_at: "hd (to_string x) \<noteq> CHR ''@''" "to_string x \<noteq> ''''"
proof -
  show n: "to_string x \<noteq> ''''" by simp
  then have "hd (to_string x) \<in> set (to_string x)" by (rule hd_in_set)
  then have "is_digit (hd (to_string x)) \<or> hd (to_string x) = CHR ''-''" by (rule set_to_string)
  then show "hd (to_string x) \<noteq> CHR ''@''" by (auto simp: is_digit_def)
qed

lemma column_text:
  assumes "column g R lo hi v" "lo \<le> a" "a \<le> R"
  shows "g a = '''' \<longleftrightarrow> hi < a"
  using assms to_string_no_at(2) unfolding column_def by (metis linorder_not_less)

lemma int32_sum:
  assumes "in_int32 (2 * R)" "1 \<le> x" "x \<le> R" "1 \<le> y" "y \<le> R"
  shows "int32 (x + y) = Inr (x + y)"
  using assms by (simp add: int32_def in_int32_def)

lemma first_step_ok:
  assumes c: "column g R lo hi v"
  shows "\<exists>r. first_step (g 1) (new_row R) = Inr r \<and> bisecting g R lo hi r"
proof (cases "lo = 1")
  case True
  then obtain x where x: "g 1 = to_string x" using c unfolding column_def by blast
  have "1 \<le> R" "int32 (1 + R) = Inr (1 + R)" using c int32_sum[of R 1 R] by (simp_all add: column_def)
  moreover have "bisecting g R lo hi ((new_row R)\<lparr>curValue := (1 + R) div 2\<rparr>)"
    using c True by (auto simp: column_def bisecting_def new_row_def)
  ultimately show ?thesis using to_string_no_at[of x] by (simp add: first_step_def x new_row_def half_def)
next
  case False
  then have lo: "1 < lo" "lo \<le> R" "g 1 = ''@'' @ to_string lo" "in_int32 lo"
    using c by (auto simp: column_def in_int32_def)
  then have m: "stoi (tl (g 1)) = Inr lo" "int32 (lo + R) = Inr (lo + R)"
    using c int32_sum[of R lo R] by (simp_all add: stoi_to_string column_def)
  have "bisecting g R lo hi ((new_row R)\<lparr>r_left := lo, curValue := (lo + R) div 2, lastAcc := (lo + R) div 2\<rparr>)"
    using c lo by (auto simp: column_def bisecting_def new_row_def)
  then show ?thesis using lo m by (simp add: first_step_def new_row_def half_def)
qed

lemma next_step_ok:
  assumes c: "column g R lo hi v" and b: "bisecting g R lo hi r"
  shows "\<exists>r'. next_step (g (curValue r)) r = Inr r' \<and>
    (if foundItem r' then lastID r' = to_string v \<and> lastAcc r' = hi else bisecting g R lo hi r' \<and> rounds_left r' < rounds_left r)"
proof -
  let ?l = "r_left r" and ?r = "r_right r" and ?c = "curValue r"
  have i: "1 \<le> ?l" "?l \<le> hi" "hi \<le> ?r" "?r \<le> R" "?l \<le> ?c" "?c \<le> ?r" "lo \<le> ?l" "in_int32 (2 * R)" "\<not> foundItem r"
    "?c = ?r \<Longrightarrow> ?r - ?l \<le> 1" "lastID r \<noteq> '''' \<Longrightarrow> lastAcc r = ?l \<and> lastID r = g ?l"
    using c b by (auto simp: column_def bisecting_def)
  have m: "int32 (?l + ?r) = Inr (?l + ?r)" "int32 (?l + ?c) = Inr (?l + ?c)" "int32 (?c + ?r) = Inr (?c + ?r)"
    using i by (auto intro!: int32_sum[OF i(8)])
  have t: "g ?c = '''' \<longleftrightarrow> hi < ?c" using column_text[OF c, of ?c] i by simp
  have v: "g hi = to_string v" using c by (simp add: column_def)
  consider (fin) "?r \<le> ?l" | (last) "?l < ?r" "hi < ?c" "?c = ?r" | (right) "?l < ?r" "hi < ?c" "?c < ?r"
    | (start) "?l < ?r" "?c \<le> hi" "?c = ?l" | (left) "?l < ?r" "?c \<le> hi" "?l < ?c" using i by linarith
  then show ?thesis
  proof cases
    case fin
    then have "?c = hi" "?l = hi" using i by linarith+
    then show ?thesis using fin i(11) v by (auto simp: next_step_def Let_def)
  next
    case last
    then have "?r = ?l + 1" using i(10) by linarith
    then show ?thesis using last t m(1) i b by (auto simp: next_step_def bisecting_def rounds_left_def)
  next
    case right
    then show ?thesis using t m(2) i b by (auto simp: next_step_def bisecting_def rounds_left_def)
  next
    case start
    then show ?thesis using t m(1) i b by (auto simp: next_step_def bisecting_def rounds_left_def Let_def)
  next
    case left
    then show ?thesis using t m(3) i b by (auto simp: next_step_def bisecting_def rounds_left_def Let_def)
  qed
qed

end
