(* ===== verification/PrfOramInv.thy ===== *)
theory PrfOramInv
  imports PrfOram OramBuckets Placement StringMap
begin

text \<open>
  The ORAM of Horus refines a map from identifiers to boxes. Boxes are in the stash or in a bucket on the path of their position; fetching and
  writing back keep this, so a batch of reads returns the value of every box at its position, and a batch of writes adds its
  boxes, as long as the count of empty blocks has not run out.
\<close>

section \<open>Boxes and buckets\<close>

definition box_id :: "3 Bid \<Rightarrow> bool" where
  "box_id k \<longleftrightarrow> bid_wf k \<and> \<not> bid_eq_int k 0 \<and> drop 4 (bid_id k) \<noteq> replicate 20 0"

definition box_wf :: "box \<Rightarrow> bool" where
  "box_wf b \<longleftrightarrow> box_id (bx_key b) \<and> length (bx_value b) = 16 \<and> bx_pos b < 2 ^ 30"

lemma box_id_pos: "box_id k \<Longrightarrow> k \<noteq> Bid_int v"
  by (auto simp: box_id_def Bid_int_def ID_SIZE_def copy_at_def)

lemma length_box [simp]: "box_wf b \<Longrightarrow> length (convertBoxToBlock b) = sizeof_Box"
  by (simp add: convertBoxToBlock_def box_wf_def box_id_def bid_wf_def ID_SIZE_def sizeof_Box_def)

lemma box_round_trip:
  assumes "box_wf b"
  shows "convertBlockToBox (convertBoxToBlock b) = Inr b"
proof -
  have l: "length (bid_id (bx_key b)) = 24" "length (bx_value b) = 16"
    using assms by (simp_all add: box_wf_def box_id_def bid_wf_def ID_SIZE_def)
  have p: "nat (le_uint (le_bytes 4 (int (bx_pos b)))) = bx_pos b" using assms by (intro nat_le_uint) (simp add: box_wf_def)
  have "\<not> length (convertBoxToBlock b) < sizeof_Box" using assms by simp
  then show ?thesis
    unfolding convertBlockToBox_def
    by (simp add: convertBoxToBlock_def l slice_append[of _ 8] slice_append[of _ 24] slice_append[of _ 16] slice_prefix p)
qed

definition box_block :: "box \<Rightarrow> 3 Block" where
  "box_block b = \<lparr>b_id = bx_key b, b_data = convertBoxToBlock b\<rparr>"

definition box_bucket :: "box list \<Rightarrow> 3 Bucket" where
  "box_bucket bs = map box_block bs @ replicate (Z - length bs) (dummy_block sizeof_Box)"

lemma length_box_bucket [simp]: "length bs \<le> Z \<Longrightarrow> length (box_bucket bs) = Z"
  by (simp add: box_bucket_def)

lemma box_deserialise_data:
  assumes "\<forall>b \<in> set bs. length (b_data b) = sizeof_Box \<and> (\<exists>n. convertBlockToBox (b_data b) = Inr n \<and> b_id b = bx_key n)"
  shows "box_deserialise sizeof_Box (length bs) (concat (map b_data bs)) = Inr bs"
  using assms by (induction bs) auto

lemma box_block_data:
  assumes "\<forall>n \<in> set ns. box_wf n" "b \<in> set (box_bucket ns)"
  shows "length (b_data b) = sizeof_Box \<and> (\<exists>n. convertBlockToBox (b_data b) = Inr n \<and> b_id b = bx_key n)"
proof -
  consider n where "n \<in> set ns" "b = box_block n" | "b = dummy_block sizeof_Box"
    using assms(2) by (auto simp: box_bucket_def)
  then show ?thesis
  proof cases
    case 1
    then show ?thesis using assms(1) by (simp add: box_block_def box_round_trip)
  next
    case 2
    then show ?thesis
      by (simp add: dummy_block_def dummy_id convertBlockToBox_def sizeof_Box_def slice_def Bid0_def ID_SIZE_def min_def)
  qed
qed

lemma box_bucket_bytes:
  assumes "\<forall>n \<in> set ns. box_wf n" "length ns \<le> Z"
  shows "length (concat (map b_data (box_bucket ns))) = Z * sizeof_Box"
    and "box_deserialise sizeof_Box Z (concat (map b_data (box_bucket ns))) = Inr (box_bucket ns)"
proof -
  have "\<forall>b \<in> set (box_bucket ns). length (b_data b) = sizeof_Box" using box_block_data[OF assms(1)] by blast
  then have "map (\<lambda>b. length (b_data b)) (box_bucket ns) = map (\<lambda>_. sizeof_Box) (box_bucket ns)" by (intro map_cong) auto
  then have "sum_list (map (\<lambda>b. length (b_data b)) (box_bucket ns)) = Z * sizeof_Box"
    using assms(2) by (simp add: map_replicate_const sum_list_replicate)
  then show "length (concat (map b_data (box_bucket ns))) = Z * sizeof_Box" by (simp only: length_concat map_map comp_def)
  show "box_deserialise sizeof_Box Z (concat (map b_data (box_bucket ns))) = Inr (box_bucket ns)"
    using box_deserialise_data[of "box_bucket ns"] box_block_data[OF assms(1)] assms(2) by simp
qed

definition pgeom :: "prforam \<Rightarrow> bool" where
  "pgeom s \<longleftrightarrow> p_blockSize s = sizeof_Box \<and> p_plaintext_size s = Z * sizeof_Box \<and>
     p_clen_size s = GetCiphertextLength (Z * sizeof_Box) \<and> p_bucketCount s = 2 ^ (p_depth s + 1) - 1 \<and>
     p_bucketCount s \<le> length (rs_store (p_store s)) \<and> cbc_good (p_aes s) \<and> p_depth s \<le> 30 \<and> (\<forall>i. length (p_ivs s i) = IV)"

lemma box_WriteBucket_ok:
  assumes "pgeom s" "\<forall>n \<in> set ns. box_wf n" "length ns \<le> Z" "i < length (rs_store (p_store s))"
  shows "\<exists>st ivs. box_WriteBucket i (box_bucket ns) s = Inr (s\<lparr>p_ivs := ivs, p_store := st\<rparr>) \<and>
    pgeom (s\<lparr>p_ivs := ivs, p_store := st\<rparr>) \<and> emptyNodes st = emptyNodes (p_store s) \<and>
    length (rs_store st) = length (rs_store (p_store s)) \<and>
    (\<forall>j. box_ReadBucket (s\<lparr>p_ivs := ivs, p_store := st\<rparr>) j = (if j = i then Inr (box_bucket ns) else box_ReadBucket s j))"
proof -
  let ?p = "concat (map b_data (box_bucket ns))" and ?ivs = "\<lambda>i. p_ivs s (Suc i)"
  note p = box_bucket_bytes[OF assms(2,3)]
  have g: "length (p_ivs s 0) = IV" "cbc_good (p_aes s)" "p_blockSize s = sizeof_Box" "p_clen_size s = GetCiphertextLength (length ?p)"
    "p_plaintext_size s = length ?p"
    using assms(1) by (simp_all add: pgeom_def p)
  obtain c where c: "Encrypt (p_aes s) (p_ivs s 0) (p_key s) ?p (p_clen_size s) (p_plaintext_size s) = Inr c"
    "Decrypt (p_aes s) (p_key s) c (p_clen_size s) = Inr ?p"
    using Decrypt_after_Encrypt[OF g(2,1), of "p_key s" ?p] by (auto simp: g(4,5))
  let ?st = "(p_store s)\<lparr>rs_store := (rs_store (p_store s))[i := c]\<rparr>"
  have "box_SerialiseBucket s (box_bucket ns) = Inr ?p"
    using assms(3) p(1) g(3) by (simp add: box_SerialiseBucket_def Let_def)
  then have "box_WriteBucket i (box_bucket ns) s = Inr (s\<lparr>p_ivs := ?ivs, p_store := ?st\<rparr>)"
    using c(1) assms(4) by (simp add: box_WriteBucket_def ram_Write_def)
  moreover have "pgeom (s\<lparr>p_ivs := ?ivs, p_store := ?st\<rparr>)" using assms(1) by (simp add: pgeom_def)
  moreover have d: "box_DeserialiseBucket (s\<lparr>p_ivs := ?ivs, p_store := ?st\<rparr>) = box_DeserialiseBucket s"
    by (simp add: fun_eq_iff box_DeserialiseBucket_def)
  then have "\<forall>j. box_ReadBucket (s\<lparr>p_ivs := ?ivs, p_store := ?st\<rparr>) j = (if j = i then Inr (box_bucket ns) else box_ReadBucket s j)"
    using c(2) assms(4) p g(3) by (simp add: box_ReadBucket_def ram_Read_def) (simp add: box_DeserialiseBucket_def)
  ultimately show ?thesis by (intro exI[of _ ?st] exI[of _ ?ivs]) simp
qed

section \<open>Paths\<close>

lemma GetBoxOnPath_eq:
  assumes "pgeom s" "leaf < 2 ^ p_depth s" "d \<le> p_depth s"
  shows "GetBoxOnPath s leaf d = (leaf + 2 ^ p_depth s) div 2 ^ (p_depth s - d) - 1"
proof -
  have "p_bucketCount s div 2 = 2 ^ p_depth s - 1" using assms(1) by (simp add: pgeom_def)
  moreover have "leaf + (2 ^ p_depth s - 1) = leaf + 2 ^ p_depth s - 1" using one_le_power[of "2::nat" "p_depth s"] by simp
  moreover have "(2::nat) ^ (p_depth s - d) \<le> leaf + 2 ^ p_depth s" by (rule trans_le_add2) (simp add: power_increasing)
  moreover have "0 < leaf + 2 ^ p_depth s" by simp
  ultimately show ?thesis unfolding GetBoxOnPath_def by (metis up_shift)
qed

text \<open>The bucket at depth \<open>d\<close> is on the level \<open>d\<close> of the tree.\<close>

lemma GetBoxOnPath_level:
  assumes "pgeom s" "leaf < 2 ^ p_depth s" "d \<le> p_depth s"
  shows "2 ^ d \<le> Suc (GetBoxOnPath s leaf d)" "Suc (GetBoxOnPath s leaf d) < 2 ^ Suc d"
proof -
  let ?k = "p_depth s - d" and ?x = "leaf + 2 ^ p_depth s"
  have e: "(2::nat) ^ d * 2 ^ ?k = 2 ^ p_depth s" using assms(3) by (simp flip: power_add)
  have l: "2 ^ d \<le> ?x div 2 ^ ?k" using e by (simp add: less_eq_div_iff_mult_less_eq)
  have "(2::nat) ^ Suc d * 2 ^ ?k = 2 * 2 ^ p_depth s" using e by simp
  then have "?x < 2 ^ Suc d * 2 ^ ?k" using assms(2) by linarith
  then have u: "?x div 2 ^ ?k < 2 ^ Suc d" by (simp add: div_less_iff_less_mult)
  have "Suc (GetBoxOnPath s leaf d) = ?x div 2 ^ ?k"
    using le_trans[OF one_le_power[of "2::nat" d] l] unfolding GetBoxOnPath_eq[OF assms] by simp
  then show "2 ^ d \<le> Suc (GetBoxOnPath s leaf d)" "Suc (GetBoxOnPath s leaf d) < 2 ^ Suc d" using l u by simp_all
qed

lemma GetBoxOnPath_bound:
  assumes "pgeom s" "leaf < 2 ^ p_depth s" "d \<le> p_depth s"
  shows "GetBoxOnPath s leaf d < p_bucketCount s"
proof -
  have "(2::nat) ^ Suc d \<le> 2 ^ (p_depth s + 1)" using assms(3) by (intro power_increasing) simp_all
  with GetBoxOnPath_level(2)[OF assms] have "GetBoxOnPath s leaf d < 2 ^ (p_depth s + 1) - 1" by linarith
  then show ?thesis using assms(1) by (simp add: pgeom_def)
qed

lemma GetBoxOnPath_inj:
  assumes "pgeom s" "leaf < 2 ^ p_depth s" "d \<le> p_depth s" "e \<le> p_depth s" "GetBoxOnPath s leaf d = GetBoxOnPath s leaf e"
  shows "d = e"
proof -
  note d = GetBoxOnPath_level[OF assms(1-3)] and e = GetBoxOnPath_level[OF assms(1,2,4)]
  have "(2::nat) ^ d < 2 ^ Suc e" "(2::nat) ^ e < 2 ^ Suc d" using d e assms(5) by linarith+
  then show ?thesis by (metis le_antisym less_Suc_eq_le one_less_numeral_iff power_strict_increasing_iff semiring_norm(76))
qed

definition ppath :: "prforam \<Rightarrow> nat \<Rightarrow> nat set" where
  "ppath s leaf = GetBoxOnPath s leaf ` {..p_depth s}"

lemma ppath_bound: "pgeom s \<Longrightarrow> leaf < 2 ^ p_depth s \<Longrightarrow> i \<in> ppath s leaf \<Longrightarrow> i < p_bucketCount s"
  by (auto simp: ppath_def GetBoxOnPath_bound)

section \<open>The invariant\<close>

definition box_ok :: "prforam \<Rightarrow> box \<Rightarrow> bool" where
  "box_ok s b \<longleftrightarrow> box_wf b \<and> bx_pos b < 2 ^ p_depth s"

definition pstore_ok :: "prforam \<Rightarrow> (nat \<Rightarrow> box list) \<Rightarrow> bool" where
  "pstore_ok s B \<longleftrightarrow> (\<forall>i < p_bucketCount s. box_ReadBucket s i = Inr (box_bucket (B i)) \<and> length (B i) \<le> Z \<and>
     (\<forall>b \<in> set (B i). box_ok s b))"

definition pinv :: "prforam \<Rightarrow> (3 Bid \<Rightarrow> box option) \<Rightarrow> nat set \<Rightarrow> bool" where
  "pinv s M S \<longleftrightarrow> pgeom s \<and> sm_wf (stash s) \<and> (\<exists>B. pstore_ok s B \<and>
     placed (box_ok s) bx_key (\<lambda>b. ppath s (bx_pos b)) (p_bucketCount s) (sm_get (stash s)) B M S)"

text \<open>What fetching and writing back leave alone.\<close>

definition same_tree :: "prforam \<Rightarrow> prforam \<Rightarrow> bool" where
  "same_tree s s' \<longleftrightarrow> p_depth s' = p_depth s \<and> p_bucketCount s' = p_bucketCount s \<and>
     emptyNodes (p_store s') = emptyNodes (p_store s)"

lemma same_tree_refl [simp]: "same_tree s s"
  by (simp add: same_tree_def)

lemma same_tree_trans: "same_tree s s' \<Longrightarrow> same_tree s' s'' \<Longrightarrow> same_tree s s''"
  by (simp add: same_tree_def)

lemma same_tree_path:
  assumes "same_tree s s'"
  shows "GetBoxOnPath s' = GetBoxOnPath s" "ppath s' = ppath s" "p_depth s' = p_depth s" "p_bucketCount s' = p_bucketCount s" "box_ok s' = box_ok s"
  using assms by (simp_all add: same_tree_def fun_eq_iff GetBoxOnPath_def ppath_def box_ok_def)

lemma pinv_box: "pinv s M S \<Longrightarrow> M k = Some b \<Longrightarrow> box_ok s b \<and> bx_key b = k"
  by (auto simp: pinv_def dest: placedD(1,2))

lemma pinv_stash: "pinv s M S \<Longrightarrow> sm_get (stash s) k = Some b \<Longrightarrow> M k = Some b"
  by (auto simp: pinv_def dest: placedD(3))

lemma pinv_no_pos: "pinv s M S \<Longrightarrow> sm_get (stash s) (Bid_int v) = None"
proof (rule ccontr)
  assume i: "pinv s M S" and "sm_get (stash s) (Bid_int v) \<noteq> None"
  then obtain b where "sm_get (stash s) (Bid_int v) = Some b" by auto
  from pinv_box[OF i pinv_stash[OF i this]] show False using box_id_pos by (auto simp: box_ok_def box_wf_def)
qed

lemma pinv_viewmap [simp]: "pinv (s\<lparr>viewmap := v\<rparr>) M S = pinv s M S"
proof -
  have t: "same_tree s (s\<lparr>viewmap := v\<rparr>)" by (simp add: same_tree_def)
  have "box_DeserialiseBucket (s\<lparr>viewmap := v\<rparr>) = box_DeserialiseBucket s" by (simp add: fun_eq_iff box_DeserialiseBucket_def)
  then have "box_ReadBucket (s\<lparr>viewmap := v\<rparr>) = box_ReadBucket s" by (intro ext) (simp add: box_ReadBucket_def)
  then have "pstore_ok (s\<lparr>viewmap := v\<rparr>) = pstore_ok s" using same_tree_path[OF t] by (simp add: fun_eq_iff pstore_ok_def)
  then show ?thesis using same_tree_path[OF t] unfolding pinv_def by (simp add: pgeom_def)
qed

lemma box_ReadBucket_stash [simp]: "box_ReadBucket (s\<lparr>stash := c\<rparr>) = box_ReadBucket s" "pgeom (s\<lparr>stash := c\<rparr>) = pgeom s"
  "same_tree s (s\<lparr>stash := c\<rparr>)" "pstore_ok (s\<lparr>stash := c\<rparr>) = pstore_ok s"
proof -
  have "box_DeserialiseBucket (s\<lparr>stash := c\<rparr>) = box_DeserialiseBucket s" by (simp add: fun_eq_iff box_DeserialiseBucket_def)
  then show r: "box_ReadBucket (s\<lparr>stash := c\<rparr>) = box_ReadBucket s" by (intro ext) (simp add: box_ReadBucket_def)
  show "pgeom (s\<lparr>stash := c\<rparr>) = pgeom s" by (simp add: pgeom_def)
  show t: "same_tree s (s\<lparr>stash := c\<rparr>)" by (simp add: same_tree_def)
  show "pstore_ok (s\<lparr>stash := c\<rparr>) = pstore_ok s" using r same_tree_path[OF t] by (simp add: fun_eq_iff pstore_ok_def)
qed

section \<open>Fetching\<close>

lemma stash_blocks:
  assumes "sm_wf (stash s)" "\<forall>n \<in> set ns. box_ok s0 n \<and> M (bx_key n) = Some n" "\<forall>k n. sm_get (stash s) k = Some n \<longrightarrow> M k = Some n"
  shows "\<exists>c. foldE stash_block (box_bucket ns) s = Inr (s\<lparr>stash := c\<rparr>) \<and> sm_wf c \<and>
    sm_get c = (\<lambda>k. if k \<in> bx_key ` set ns then M k else sm_get (stash s) k)"
proof -
  have d: "foldE stash_block (replicate m (dummy_block x)) t = Inr t" for m x t
    by (induction m) (simp_all add: stash_block_def dummy_block_def dummy_id bid_ne_int_iff)
  have "\<exists>c. foldE stash_block (map box_block ns) s = Inr (s\<lparr>stash := c\<rparr>) \<and> sm_wf c \<and>
      sm_get c = (\<lambda>k. if k \<in> bx_key ` set ns then M k else sm_get (stash s) k)"
    using assms
  proof (induction ns arbitrary: s)
    case Nil
    then show ?case by (intro exI[of _ "stash s"]) simp
  next
    case (Cons n ns)
    define c1 where "c1 = (if sm_get (stash s) (bx_key n) = None then sm_put (bx_key n) n (stash s) else stash s)"
    have n: "box_wf n" "M (bx_key n) = Some n" using Cons.prems(2) by (simp_all add: box_ok_def)
    have b: "stash_block (box_block n) s = Inr (s\<lparr>stash := c1\<rparr>)"
      using n(1) by (simp add: stash_block_def box_block_def box_round_trip bid_ne_int_iff c1_def box_wf_def box_id_def)
    have g: "sm_get c1 = (sm_get (stash s))(bx_key n \<mapsto> n)"
      using Cons.prems(3) n(2) by (auto simp: c1_def sm_get_put fun_eq_iff)
    have "sm_wf (stash (s\<lparr>stash := c1\<rparr>))" using Cons.prems(1) by (simp add: c1_def sm_wf_put)
    moreover have "\<forall>k n'. sm_get (stash (s\<lparr>stash := c1\<rparr>)) k = Some n' \<longrightarrow> M k = Some n'" using Cons.prems(3) n(2) by (simp add: g)
    ultimately obtain c where "foldE stash_block (map box_block ns) (s\<lparr>stash := c1\<rparr>) = Inr (s\<lparr>stash := c\<rparr>)" "sm_wf c"
      "sm_get c = (\<lambda>k. if k \<in> bx_key ` set ns then M k else sm_get c1 k)"
      using Cons.IH[of "s\<lparr>stash := c1\<rparr>"] Cons.prems(2) by (auto cong: if_cong)
    then show ?case using n(2) by (intro exI[of _ c]) (auto simp: b g fun_eq_iff)
  qed
  then show ?thesis using d by (auto simp: box_bucket_def foldE_append)
qed

lemma stash_bucket_ok:
  assumes "pinv s M S" "i < p_bucketCount s" "i \<in> S"
  shows "\<exists>c. stash_bucket i s = Inr (s\<lparr>stash := c\<rparr>) \<and> pinv (s\<lparr>stash := c\<rparr>) M (S - {i}) \<and>
    (\<forall>k b. sm_get (stash s) k = Some b \<longrightarrow> sm_get c k = Some b)"
proof -
  obtain B where B: "pgeom s" "sm_wf (stash s)" "pstore_ok s B"
    "placed (box_ok s) bx_key (\<lambda>b. ppath s (bx_pos b)) (p_bucketCount s) (sm_get (stash s)) B M S"
    using assms(1) by (auto simp: pinv_def)
  note d = placedD[OF B(4)]
  have rb: "box_ReadBucket s i = Inr (box_bucket (B i))" "length (B i) \<le> Z" "\<forall>b \<in> set (B i). box_ok s b \<and> M (bx_key b) = Some b"
    using B(3) assms(2) d(6)[OF assms(3,2)] by (simp_all add: pstore_ok_def)
  obtain c where c: "foldE stash_block (box_bucket (B i)) s = Inr (s\<lparr>stash := c\<rparr>)" "sm_wf c"
    "sm_get c = (\<lambda>k. if k \<in> bx_key ` set (B i) then M k else sm_get (stash s) k)"
    using stash_blocks[OF B(2) rb(3)] d(3) by blast
  have "placed (box_ok s) bx_key (\<lambda>b. ppath s (bx_pos b)) (p_bucketCount s) (sm_get c) B M (S - {i})"
    by (rule placed_fetch[OF B(4) assms(2,3) c(3)])
  then have "pinv (s\<lparr>stash := c\<rparr>) M (S - {i})"
    using B c(2) same_tree_path[of s "s\<lparr>stash := c\<rparr>"] unfolding pinv_def by auto
  moreover have "\<forall>k b. sm_get (stash s) k = Some b \<longrightarrow> sm_get c k = Some b" using d(3) by (simp add: c(3))
  ultimately show ?thesis using rb(1,2) c(1) by (auto simp: stash_bucket_def)
qed

lemma fetch_batch:
  assumes "pinv s M (- set (viewmap s))" "leaf < 2 ^ p_depth s" "\<forall>d \<in> set ds. d \<le> p_depth s"
  shows "\<exists>s'. foldE (\<lambda>d s. let i = GetBoxOnPath s leaf d
                  in if \<not> True then stash_bucket i s
                     else if i \<in> set (viewmap s) then Inr s
                     else stash_bucket i (s\<lparr>viewmap := viewmap s @ [i]\<rparr>)) ds s = Inr s' \<and>
    pinv s' M (- set (viewmap s')) \<and> same_tree s s' \<and> set (viewmap s') = GetBoxOnPath s leaf ` set ds \<union> set (viewmap s)"
  using assms
proof (induction ds arbitrary: s)
  case Nil
  then show ?case by simp
next
  case (Cons d ds)
  let ?i = "GetBoxOnPath s leaf d"
  have i: "?i < p_bucketCount s" using Cons.prems by (auto simp: pinv_def intro: GetBoxOnPath_bound)
  have "\<exists>s1. (if ?i \<in> set (viewmap s) then Inr s else stash_bucket ?i (s\<lparr>viewmap := viewmap s @ [?i]\<rparr>)) = Inr s1 \<and>
    pinv s1 M (- set (viewmap s1)) \<and> same_tree s s1 \<and> set (viewmap s1) = insert ?i (set (viewmap s))"
  proof (cases "?i \<in> set (viewmap s)")
    case True
    then show ?thesis using Cons.prems(1) by (auto simp: insert_absorb)
  next
    case False
    let ?s = "s\<lparr>viewmap := viewmap s @ [?i]\<rparr>"
    obtain c where "stash_bucket ?i ?s = Inr (?s\<lparr>stash := c\<rparr>)" "pinv (?s\<lparr>stash := c\<rparr>) M (- set (viewmap s) - {?i})"
      using stash_bucket_ok[of ?s M "- set (viewmap s)" ?i] Cons.prems(1) i False by auto
    moreover have "- set (viewmap s) - {?i} = - set (viewmap (?s\<lparr>stash := c\<rparr>))" by auto
    ultimately show ?thesis using False by (auto simp: same_tree_def)
  qed
  then obtain s1 where s1: "(if ?i \<in> set (viewmap s) then Inr s else stash_bucket ?i (s\<lparr>viewmap := viewmap s @ [?i]\<rparr>)) = Inr s1"
    "pinv s1 M (- set (viewmap s1))" "same_tree s s1" "set (viewmap s1) = insert ?i (set (viewmap s))" by blast
  note t = same_tree_path[OF s1(3)]
  from Cons.IH[OF s1(2)] Cons.prems(2,3) obtain s2 where
    s2: "foldE (\<lambda>d s. let i = GetBoxOnPath s leaf d
                  in if \<not> True then stash_bucket i s
                     else if i \<in> set (viewmap s) then Inr s
                     else stash_bucket i (s\<lparr>viewmap := viewmap s @ [i]\<rparr>)) ds s1 = Inr s2"
      "pinv s2 M (- set (viewmap s2))" "same_tree s1 s2" "set (viewmap s2) = GetBoxOnPath s leaf ` set ds \<union> set (viewmap s1)"
    by (auto simp: t)
  then show ?case using s1 same_tree_trans[OF s1(3) s2(3)] by (intro exI[of _ s2]) (simp add: Let_def)
qed

lemma atMost_levels: "set [0..<Suc n] = {..n}"
  by auto

lemma box_FetchPath_batch:
  assumes "pinv s M (- set (viewmap s))" "leaf < 2 ^ p_depth s"
  shows "\<exists>s'. box_FetchPath leaf True s = Inr s' \<and> pinv s' M (- set (viewmap s')) \<and> same_tree s s' \<and>
    set (viewmap s') = ppath s leaf \<union> set (viewmap s)"
  unfolding box_FetchPath_def ppath_def atMost_levels[symmetric] by (rule fetch_batch[OF assms]) auto

lemma fetch_single:
  assumes "pinv s M S" "leaf < 2 ^ p_depth s" "\<forall>d \<in> set ds. d \<le> p_depth s \<and> GetBoxOnPath s leaf d \<in> S" "distinct ds"
  shows "\<exists>s'. foldE (\<lambda>d s. stash_bucket (GetBoxOnPath s leaf d) s) ds s = Inr s' \<and>
    pinv s' M (S - GetBoxOnPath s leaf ` set ds) \<and> same_tree s s'"
  using assms
proof (induction ds arbitrary: s S)
  case Nil
  then show ?case by simp
next
  case (Cons d ds)
  let ?i = "GetBoxOnPath s leaf d"
  have g: "pgeom s" using Cons.prems(1) by (simp add: pinv_def)
  have "?i < p_bucketCount s" using Cons.prems by (auto intro: GetBoxOnPath_bound[OF g])
  then obtain c where c: "stash_bucket ?i s = Inr (s\<lparr>stash := c\<rparr>)" "pinv (s\<lparr>stash := c\<rparr>) M (S - {?i})"
    using stash_bucket_ok[OF Cons.prems(1), of ?i] Cons.prems(3) by auto
  let ?s = "s\<lparr>stash := c\<rparr>"
  note t = same_tree_path[of s ?s, simplified]
  have "\<forall>e \<in> set ds. GetBoxOnPath s leaf e \<noteq> ?i"
    using GetBoxOnPath_inj[OF g Cons.prems(2)] Cons.prems(3,4) by (metis distinct.simps(2) list.set_intros(1,2))
  then have "\<forall>e \<in> set ds. e \<le> p_depth ?s \<and> GetBoxOnPath ?s leaf e \<in> S - {?i}" using Cons.prems(3) t by simp
  from Cons.IH[OF c(2) _ this] Cons.prems(2,4) obtain s2 where
    "foldE (\<lambda>d s. stash_bucket (GetBoxOnPath s leaf d) s) ds ?s = Inr s2"
    "pinv s2 M (S - {?i} - GetBoxOnPath s leaf ` set ds)" "same_tree ?s s2" by (auto simp: t)
  moreover have "S - {?i} - GetBoxOnPath s leaf ` set ds = S - GetBoxOnPath s leaf ` set (d # ds)" by auto
  ultimately show ?case using c(1) same_tree_trans[of s ?s s2] by (intro exI[of _ s2]) simp
qed

lemma box_FetchPath_single:
  assumes "pinv s M UNIV" "leaf < 2 ^ p_depth s"
  shows "\<exists>s'. box_FetchPath leaf False s = Inr s' \<and> pinv s' M (- ppath s leaf) \<and> same_tree s s'"
  using fetch_single[OF assms, of "[0..<Suc (p_depth s)]"]
  unfolding atMost_levels by (simp add: box_FetchPath_def ppath_def Let_def Compl_eq_Diff_UNIV del: upt_Suc)

text \<open>After the path of its position is fetched, a box is in the stash.\<close>

lemma pinv_fetched:
  assumes "pinv s M S" "ppath s pos \<inter> S = {}" "\<And>b. M k = Some b \<Longrightarrow> bx_pos b = pos"
  shows "sm_get (stash s) k = M k"
proof (cases "M k")
  case None
  then show ?thesis using pinv_stash[OF assms(1), of k] by (cases "sm_get (stash s) k") auto
next
  case (Some b)
  have "sm_get (stash s) k = Some b \<or> (\<exists>i \<in> S. i \<in> ppath s (bx_pos b))"
    using assms(1) Some unfolding pinv_def by (blast dest: placedD(4))
  then show ?thesis using assms(2) assms(3)[OF Some] Some by auto
qed

section \<open>Writing back\<close>

lemma take_boxes_ok:
  assumes "sm_wf (stash s)" "distinct ks" "\<forall>k \<in> set ks. \<exists>b. sm_get (stash s) k = Some b \<and> bx_key b = k"
  shows "\<exists>c. take_boxes ks s = Inr (s\<lparr>stash := c\<rparr>, map (\<lambda>k. box_block (the (sm_get (stash s) k))) ks) \<and> sm_wf c \<and>
    sm_get c = (\<lambda>k. if k \<in> set ks then None else sm_get (stash s) k)"
  using assms
proof (induction ks arbitrary: s)
  case Nil
  then show ?case by (intro exI[of _ "stash s"]) simp
next
  case (Cons k ks)
  let ?s = "s\<lparr>stash := sm_erase k (stash s)\<rparr>"
  have e: "sm_get (stash ?s) = (sm_get (stash s))(k := None)" by (simp add: sm_get_erase)
  from Cons.prems(3) obtain b where b: "sm_get (stash s) k = Some b" "bx_key b = k" by auto
  have "\<forall>k' \<in> set ks. \<exists>b. sm_get (stash ?s) k' = Some b \<and> bx_key b = k'" using Cons.prems(2,3) unfolding e by auto
  then obtain c where c: "take_boxes ks ?s = Inr (?s\<lparr>stash := c\<rparr>, map (\<lambda>k. box_block (the (sm_get (stash ?s) k))) ks)" "sm_wf c"
    "sm_get c = (\<lambda>k. if k \<in> set ks then None else sm_get (stash ?s) k)"
    using Cons.IH[of ?s] Cons.prems(1,2) by (auto simp: sm_wf_erase)
  have "map (\<lambda>k'. box_block (the (sm_get (stash ?s) k'))) ks = map (\<lambda>k'. box_block (the (sm_get (stash s) k'))) ks"
    using Cons.prems(2) unfolding e by auto
  then have "take_boxes (k # ks) s = Inr (s\<lparr>stash := c\<rparr>, map (\<lambda>k. box_block (the (sm_get (stash s) k))) (k # ks))"
    using c(1) b by (simp add: box_block_def)
  moreover have "sm_get c = (\<lambda>k'. if k' \<in> set (k # ks) then None else sm_get (stash s) k')" unfolding c(3) e by (auto simp: fun_eq_iff)
  ultimately show ?case using c(2) by blast
qed

lemma box_GetIntersectingBlocks_ok:
  assumes "sm_wf (stash s)"
  shows "distinct (box_GetIntersectingBlocks s x d)" "length (box_GetIntersectingBlocks s x d) \<le> Z"
    "k \<in> set (box_GetIntersectingBlocks s x d) \<Longrightarrow> \<exists>b. sm_get (stash s) k = Some b \<and> GetBoxOnPath s (bx_pos b) d = GetBoxOnPath s x d"
proof -
  let ?f = "filter (\<lambda>b. GetBoxOnPath s (bx_pos (snd b)) d = GetBoxOnPath s x d) (stash s)"
  have g: "box_GetIntersectingBlocks s x d = take Z (map fst ?f)" by (simp add: box_GetIntersectingBlocks_def)
  have "distinct (map fst ?f)" using sm_wf_distinct[OF assms] by (rule distinct_map_filter)
  then show "distinct (box_GetIntersectingBlocks s x d)" "length (box_GetIntersectingBlocks s x d) \<le> Z" by (simp_all add: g)
  assume "k \<in> set (box_GetIntersectingBlocks s x d)"
  then obtain b where "(k, b) \<in> set (stash s)" "GetBoxOnPath s (bx_pos b) d = GetBoxOnPath s x d"
    using set_take_subset[of Z "map fst ?f"] by (auto simp: g)
  then show "\<exists>b. sm_get (stash s) k = Some b \<and> GetBoxOnPath s (bx_pos b) d = GetBoxOnPath s x d"
    using sm_in_set_iff[OF assms] by blast
qed

lemma box_WritePath_ok:
  assumes "pinv s M (- P \<union> set (viewmap s))" "leaf < 2 ^ p_depth s" "d \<le> p_depth s" "GetBoxOnPath s leaf d \<in> P"
  shows "\<exists>s'. box_WritePath leaf d s = Inr s' \<and> pinv s' M (- P \<union> set (viewmap s')) \<and> same_tree s s' \<and>
    set (viewmap s') = insert (GetBoxOnPath s leaf d) (set (viewmap s)) \<and>
    (GetBoxOnPath s leaf d \<notin> set (viewmap s) \<longrightarrow>
      sm_get (stash s') = (\<lambda>k. if k \<in> set (box_GetIntersectingBlocks s leaf d) then None else sm_get (stash s) k))"
proof (cases "GetBoxOnPath s leaf d \<in> set (viewmap s)")
  case True
  then show ?thesis using assms(1) by (simp add: box_WritePath_def insert_absorb)
next
  case False
  let ?i = "GetBoxOnPath s leaf d" and ?ks = "box_GetIntersectingBlocks s leaf d" and ?S = "- P \<union> set (viewmap s)"
  let ?ns = "map (\<lambda>k. the (sm_get (stash s) k)) ?ks"
  obtain B where B: "pgeom s" "sm_wf (stash s)" "pstore_ok s B"
    "placed (box_ok s) bx_key (\<lambda>b. ppath s (bx_pos b)) (p_bucketCount s) (sm_get (stash s)) B M ?S"
    using assms(1) by (auto simp: pinv_def)
  note gi = box_GetIntersectingBlocks_ok[OF B(2), where x = leaf and d = d]
  have i: "?i < p_bucketCount s" by (rule GetBoxOnPath_bound[OF B(1) assms(2,3)])
  have ks: "\<forall>k \<in> set ?ks. \<exists>b. sm_get (stash s) k = Some b \<and> ?i \<in> ppath s (bx_pos b)"
    using gi(3) assms(3) unfolding ppath_def by (metis atMost_iff image_eqI)
  have ok: "box_ok s b \<and> bx_key b = k" if "sm_get (stash s) k = Some b" for k b
    using placedD(1-3)[OF B(4)] that by blast
  then have kn: "\<forall>k \<in> set ?ks. \<exists>b. sm_get (stash s) k = Some b \<and> bx_key b = k" using ks by blast
  have nok: "\<forall>n \<in> set ?ns. box_ok s n" using ks ok by force
  obtain c where c: "take_boxes ?ks s = Inr (s\<lparr>stash := c\<rparr>, map (\<lambda>k. box_block (the (sm_get (stash s) k))) ?ks)" "sm_wf c"
    "sm_get c = (\<lambda>k. if k \<in> set ?ks then None else sm_get (stash s) k)"
    using take_boxes_ok[OF B(2) gi(1) kn] by blast
  let ?s1 = "s\<lparr>stash := c, viewmap := viewmap s @ [?i]\<rparr>"
  have "pgeom ?s1" "?i < length (rs_store (p_store ?s1))" "\<forall>n \<in> set ?ns. box_wf n"
    using B(1) i nok by (simp_all add: pgeom_def box_ok_def)
  then obtain st ivs where w: "box_WriteBucket ?i (box_bucket ?ns) ?s1 = Inr (?s1\<lparr>p_ivs := ivs, p_store := st\<rparr>)"
    "pgeom (?s1\<lparr>p_ivs := ivs, p_store := st\<rparr>)" "emptyNodes st = emptyNodes (p_store s)"
    "\<forall>j. box_ReadBucket (?s1\<lparr>p_ivs := ivs, p_store := st\<rparr>) j = (if j = ?i then Inr (box_bucket ?ns) else box_ReadBucket ?s1 j)"
    using box_WriteBucket_ok[of ?s1 ?ns ?i] gi(2) by auto
  let ?s = "?s1\<lparr>p_ivs := ivs, p_store := st\<rparr>"
  have t: "same_tree s ?s" using w(3) by (simp add: same_tree_def)
  have "map (\<lambda>k. box_block (the (sm_get (stash s) k))) ?ks @ replicate (Z - length ?ks) (dummy_block (p_blockSize s)) = box_bucket ?ns"
    using B(1) by (simp add: box_bucket_def comp_def pgeom_def)
  then have r: "box_WritePath leaf d s = Inr ?s" using False c(1) w(1) by (simp add: box_WritePath_def Let_def)
  have rb: "box_ReadBucket ?s1 = box_ReadBucket s"
    by (intro ext) (simp add: box_ReadBucket_def box_DeserialiseBucket_def[abs_def] cong: if_cong)
  have so: "pstore_ok ?s (B(?i := ?ns))"
    using B(3) w(4) gi(2) nok same_tree_path[OF t] by (simp add: pstore_ok_def rb)
  have pl: "placed (box_ok s) bx_key (\<lambda>b. ppath s (bx_pos b)) (p_bucketCount s) (sm_get c) (B(?i := ?ns)) M (insert ?i ?S)"
    by (rule placed_write[OF B(4) _ refl ks c(3)]) (use False assms(4) in simp)
  have v: "- P \<union> set (viewmap ?s) = insert ?i ?S" by auto
  have "sm_wf (stash ?s)" "sm_get (stash ?s) = sm_get c" using c(2) by simp_all
  then have "pinv ?s M (- P \<union> set (viewmap ?s))"
    unfolding v pinv_def same_tree_path[OF t] using w(2) so pl by (intro conjI exI[of _ "B(?i := ?ns)"]) simp_all
  moreover have "sm_get (stash ?s) = (\<lambda>k. if k \<in> set ?ks then None else sm_get (stash s) k)" using c(3) by simp
  ultimately show ?thesis using r t by (intro exI[of _ ?s]) auto
qed

lemma write_level_ok:
  assumes "pinv s M (- P \<union> set (viewmap s))" "\<forall>l \<in> set ls. l < 2 ^ p_depth s \<and> GetBoxOnPath s l d \<in> P" "d \<le> p_depth s"
  shows "\<exists>s'. foldE (\<lambda>leaf. box_WritePath leaf d) ls s = Inr s' \<and> pinv s' M (- P \<union> set (viewmap s')) \<and> same_tree s s' \<and>
    set (viewmap s') = (\<lambda>l. GetBoxOnPath s l d) ` set ls \<union> set (viewmap s)"
  using assms
proof (induction ls arbitrary: s)
  case Nil
  then show ?case by simp
next
  case (Cons l ls)
  then obtain s1 where s1: "box_WritePath l d s = Inr s1" "pinv s1 M (- P \<union> set (viewmap s1))" "same_tree s s1"
    "set (viewmap s1) = insert (GetBoxOnPath s l d) (set (viewmap s))"
    using box_WritePath_ok[of s M P l d] by auto
  note t = same_tree_path[OF s1(3)]
  from Cons.IH[OF s1(2)] Cons.prems(2,3) obtain s2 where
    "foldE (\<lambda>leaf. box_WritePath leaf d) ls s1 = Inr s2" "pinv s2 M (- P \<union> set (viewmap s2))" "same_tree s1 s2"
    "set (viewmap s2) = (\<lambda>l. GetBoxOnPath s l d) ` set ls \<union> set (viewmap s1)" by (auto simp: t)
  then show ?case using s1 same_tree_trans[OF s1(3)] by (intro exI[of _ s2]) simp
qed

lemma write_levels_ok:
  assumes "pinv s M (- P \<union> set (viewmap s))" "\<forall>d \<in> set ds. d \<le> p_depth s \<and> (\<forall>l \<in> set ls. GetBoxOnPath s l d \<in> P)"
    "\<forall>l \<in> set ls. l < 2 ^ p_depth s"
  shows "\<exists>s'. foldE (\<lambda>d. foldE (\<lambda>leaf. box_WritePath leaf d) ls) ds s = Inr s' \<and> pinv s' M (- P \<union> set (viewmap s')) \<and> same_tree s s' \<and>
    set (viewmap s') = (\<Union>l \<in> set ls. GetBoxOnPath s l ` set ds) \<union> set (viewmap s)"
  using assms
proof (induction ds arbitrary: s)
  case Nil
  then show ?case by simp
next
  case (Cons d ds)
  then obtain s1 where s1: "foldE (\<lambda>leaf. box_WritePath leaf d) ls s = Inr s1" "pinv s1 M (- P \<union> set (viewmap s1))" "same_tree s s1"
    "set (viewmap s1) = (\<lambda>l. GetBoxOnPath s l d) ` set ls \<union> set (viewmap s)"
    using write_level_ok[of s M P ls d] by auto
  note t = same_tree_path[OF s1(3)]
  from Cons.IH[OF s1(2)] Cons.prems(2,3) obtain s2 where
    "foldE (\<lambda>d. foldE (\<lambda>leaf. box_WritePath leaf d) ls) ds s1 = Inr s2" "pinv s2 M (- P \<union> set (viewmap s2))" "same_tree s1 s2"
    "set (viewmap s2) = (\<Union>l \<in> set ls. GetBoxOnPath s l ` set ds) \<union> set (viewmap s1)" by (auto simp: t)
  then show ?case using s1 same_tree_trans[OF s1(3)] by (intro exI[of _ s2]) auto
qed

text \<open>Writing back the paths that were fetched makes every bucket count again.\<close>

lemma write_paths_ok:
  assumes "pinv s M (- (\<Union>l \<in> set ls. ppath s l))" "\<forall>l \<in> set ls. l < 2 ^ p_depth s"
  shows "\<exists>s'. write_paths ls s = Inr s' \<and> pinv s' M UNIV \<and> same_tree s s'"
proof -
  let ?s = "s\<lparr>viewmap := []\<rparr>" and ?P = "\<Union>l \<in> set ls. ppath s l"
  have t: "same_tree s ?s" by (simp add: same_tree_def)
  have l: "set (levels_down s) = {..p_depth s}" unfolding levels_down_def set_rev by (rule atMost_levels)
  have "\<exists>s'. foldE (\<lambda>d. foldE (\<lambda>leaf. box_WritePath leaf d) ls) (levels_down s) ?s = Inr s' \<and> pinv s' M (- ?P \<union> set (viewmap s')) \<and>
      same_tree ?s s' \<and> set (viewmap s') = (\<Union>l \<in> set ls. GetBoxOnPath ?s l ` set (levels_down s)) \<union> set (viewmap ?s)"
    by (rule write_levels_ok) (use assms in \<open>auto simp: l same_tree_path[OF t] ppath_def\<close>)
  then obtain s' where s': "write_paths ls s = Inr s'" "pinv s' M (- ?P \<union> set (viewmap s'))" "same_tree ?s s'" "set (viewmap s') = ?P"
    by (auto simp: write_paths_def l same_tree_path[OF t] ppath_def)
  have "- ?P \<union> set (viewmap s') = UNIV" unfolding s'(4) by blast
  then have "pinv s' M UNIV" using s'(2) by simp
  then show ?thesis using s'(1) same_tree_trans[OF t s'(3)] by blast
qed

section \<open>Reading\<close>

lemma read_items_ok:
  assumes "pinv s M (- set (viewmap s))" "set (viewmap s) = (\<Union>l \<in> set ls. ppath s l)" "\<forall>l \<in> set ls. l < 2 ^ p_depth s"
    and "\<forall>(k, pos) \<in> set q. pos < 2 ^ p_depth s \<and> (\<forall>b. M k = Some b \<longrightarrow> bx_pos b = pos)"
  shows "\<exists>s' ls'. foldE read_item q (s, ls, rs) = Inr (s', ls', rs @ map (\<lambda>(k, _). box_text (M k)) q) \<and>
    pinv s' M (- set (viewmap s')) \<and> set (viewmap s') = (\<Union>l \<in> set ls'. ppath s' l) \<and> (\<forall>l \<in> set ls'. l < 2 ^ p_depth s') \<and> same_tree s s'"
  using assms
proof (induction q arbitrary: s ls rs)
  case Nil
  then show ?case by simp
next
  case (Cons x q)
  obtain k pos where x: "x = (k, pos)" by force
  have p: "pos < 2 ^ p_depth s" "\<And>b. M k = Some b \<Longrightarrow> bx_pos b = pos" using Cons.prems(4) x by auto
  obtain s1 where s1: "box_FetchPath pos True s = Inr s1" "pinv s1 M (- set (viewmap s1))" "same_tree s s1"
    "set (viewmap s1) = ppath s pos \<union> set (viewmap s)"
    using box_FetchPath_batch[OF Cons.prems(1) p(1)] by blast
  note t = same_tree_path[OF s1(3)]
  have g: "box_ReadData s1 k = M k"
    unfolding box_ReadData_def by (rule pinv_fetched[OF s1(2) _ p(2)]) (use s1(4) t in auto)
  have r: "read_item x (s, ls, rs) = Inr (s1, insort_insert pos ls, rs @ [box_text (M k)])"
    using pinv_no_pos[OF Cons.prems(1)] s1(1) g by (simp add: read_item_def x)
  have "set (viewmap s1) = (\<Union>l \<in> set (insort_insert pos ls). ppath s1 l)" using Cons.prems(2) s1(4) t by (simp add: set_insort_insert)
  moreover have "\<forall>l \<in> set (insort_insert pos ls). l < 2 ^ p_depth s1" using Cons.prems(3) p(1) t by (simp add: set_insort_insert)
  ultimately obtain s2 ls2 where
    "foldE read_item q (s1, insort_insert pos ls, rs @ [box_text (M k)]) =
       Inr (s2, ls2, (rs @ [box_text (M k)]) @ map (\<lambda>(k, _). box_text (M k)) q)"
    "pinv s2 M (- set (viewmap s2))" "set (viewmap s2) = (\<Union>l \<in> set ls2. ppath s2 l)" "\<forall>l \<in> set ls2. l < 2 ^ p_depth s2" "same_tree s1 s2"
    using Cons.IH[OF s1(2), of "insort_insert pos ls" "rs @ [box_text (M k)]"] Cons.prems(4) t by auto
  then show ?case using r same_tree_trans[OF s1(3)] by (intro exI[of _ s2] exI[of _ ls2]) (simp add: x)
qed

lemma batchRead_ok:
  assumes "pinv s M UNIV" "\<forall>(k, pos) \<in> set q. pos < 2 ^ p_depth s \<and> (\<forall>b. M k = Some b \<longrightarrow> bx_pos b = pos)"
  shows "\<exists>s'. batchRead q s = Inr (s', map (\<lambda>(k, _). box_text (M k)) q) \<and> pinv s' M UNIV \<and> same_tree s s'"
proof -
  let ?s = "s\<lparr>viewmap := []\<rparr>"
  have t: "same_tree s ?s" by (simp add: same_tree_def)
  obtain s1 ls where s1: "foldE read_item q (?s, [], []) = Inr (s1, ls, map (\<lambda>(k, _). box_text (M k)) q)"
    "pinv s1 M (- set (viewmap s1))" "set (viewmap s1) = (\<Union>l \<in> set ls. ppath s1 l)" "\<forall>l \<in> set ls. l < 2 ^ p_depth s1" "same_tree ?s s1"
    using read_items_ok[of ?s M "[]" q "[]"] assms by auto
  then obtain s2 where "write_paths ls s1 = Inr s2" "pinv s2 M UNIV" "same_tree s1 s2"
    using write_paths_ok[of s1 M ls] by auto
  then show ?thesis using s1(1) same_tree_trans[OF same_tree_trans[OF t s1(5)]] by (simp add: batchRead_def)
qed

lemma ReadBox_ok:
  assumes "pinv s M UNIV" "\<not> bid_eq_int k 0" "pos < 2 ^ p_depth s" "\<And>b. M k = Some b \<Longrightarrow> bx_pos b = pos"
  shows "\<exists>s'. ReadBox k pos s = Inr (s', box_text (M k)) \<and> pinv s' M UNIV \<and> same_tree s s'"
proof (cases "sm_get (stash s) k")
  case None
  obtain s1 where s1: "box_FetchPath pos False s = Inr s1" "pinv s1 M (- ppath s pos)" "same_tree s s1"
    using box_FetchPath_single[OF assms(1,3)] by blast
  note t = same_tree_path[OF s1(3)]
  have g: "box_ReadData s1 k = M k"
    unfolding box_ReadData_def by (rule pinv_fetched[OF s1(2) _ assms(4)]) (use t in auto)
  have "foldE (\<lambda>leaf. box_WritePath leaf d) [pos] u = box_WritePath pos d u" for d u
    by (cases "box_WritePath pos d u") simp_all
  then have "(\<lambda>d. foldE (\<lambda>leaf. box_WritePath leaf d) [pos]) = box_WritePath pos" by (intro ext)
  then have w: "foldE (box_WritePath pos) (levels_down s1) (s1\<lparr>viewmap := []\<rparr>) = write_paths [pos] s1" by (simp add: write_paths_def)
  obtain s2 where "write_paths [pos] s1 = Inr s2" "pinv s2 M UNIV" "same_tree s1 s2"
    using write_paths_ok[of s1 M "[pos]"] s1(2) assms(3) t by auto
  then show ?thesis using None assms(2) s1(1) same_tree_trans[OF s1(3)] g w by (simp add: ReadBox_def box_Access_read_def Let_def)
next
  case (Some b)
  then have "M k = Some b" by (rule pinv_stash[OF assms(1)])
  then show ?thesis using Some assms(1,2) by (auto simp: ReadBox_def)
qed

section \<open>Writing\<close>

definition mk_box :: "3 Bid \<Rightarrow> string \<Rightarrow> nat \<Rightarrow> box" where
  "mk_box k v pos = \<lparr>bx_key = k, bx_value = pad_value v, bx_pos = pos\<rparr>"

lemma mk_box_simps [simp]: "bx_key (mk_box k v p) = k" "bx_pos (mk_box k v p) = p"
  "good_value v \<Longrightarrow> box_text (Some (mk_box k v p)) = v" "box_text None = []"
  by (simp_all add: mk_box_def box_text_def good_value_def pad_value_c_str)

lemma new_box_ok: "good_value v \<Longrightarrow> new_box k v pos = Inr (mk_box k v pos)"
  by (simp add: new_box_def good_value_def copy_value mk_box_def)

text \<open>An entry to write: its identifier, its value and its position.\<close>

definition entry_ok :: "prforam \<Rightarrow> 3 Bid \<Rightarrow> string \<Rightarrow> nat \<Rightarrow> bool" where
  "entry_ok s k v pos \<longleftrightarrow> box_id k \<and> good_value v \<and> pos < 2 ^ p_depth s"

lemma mk_box_ok: "pgeom s \<Longrightarrow> entry_ok s k v pos \<Longrightarrow> box_ok s (mk_box k v pos)"
proof -
  assume g: "pgeom s" and e: "entry_ok s k v pos"
  have "(2::nat) ^ p_depth s \<le> 2 ^ 30" using g by (intro power_increasing) (simp_all add: pgeom_def)
  then show ?thesis using e by (simp add: entry_ok_def box_ok_def box_wf_def mk_box_def good_value_def pad_value_def str_bytes_def)
qed

lemma box_WriteData_ok:
  assumes "pinv s M S" "entry_ok s k v pos" "sm_get (stash s) k = M k" "0 < emptyNodes (p_store s)"
  shows "\<exists>s'. box_WriteData k (mk_box k v pos) s = Inr s' \<and> pinv s' (M(k \<mapsto> mk_box k v pos)) S \<and> viewmap s' = viewmap s \<and>
    p_depth s' = p_depth s \<and> p_bucketCount s' = p_bucketCount s \<and> emptyNodes (p_store s') = emptyNodes (p_store s) - 1"
proof -
  let ?b = "mk_box k v pos"
  let ?c = "s\<lparr>stash := sm_put k ?b (stash s)\<rparr>"
  let ?s = "?c\<lparr>p_store := ReduceEmptyNumbers (p_store s)\<rparr>"
  obtain B where B: "pgeom s" "sm_wf (stash s)" "pstore_ok s B"
    "placed (box_ok s) bx_key (\<lambda>b. ppath s (bx_pos b)) (p_bucketCount s) (sm_get (stash s)) B M S"
    using assms(1) by (auto simp: pinv_def)
  have "placed (box_ok s) bx_key (\<lambda>b. ppath s (bx_pos b)) (p_bucketCount s) ((sm_get (stash s))(k \<mapsto> ?b)) B (M(k \<mapsto> ?b)) S"
    by (rule placed_set[OF B(4) mk_box_ok[OF B(1) assms(2)]]) (use assms(3) in auto)
  then have pl: "placed (box_ok s) bx_key (\<lambda>b. ppath s (bx_pos b)) (p_bucketCount s) (sm_get (stash ?s)) B (M(k \<mapsto> ?b)) S"
    by (simp add: sm_get_put)
  have f: "GetBoxOnPath ?s = GetBoxOnPath s" "box_ok ?s = box_ok s" by (simp_all add: fun_eq_iff GetBoxOnPath_def box_ok_def)
  then have p: "ppath ?s = ppath s" by (simp add: fun_eq_iff ppath_def)
  have d: "box_DeserialiseBucket ?s = box_DeserialiseBucket s" by (simp add: fun_eq_iff box_DeserialiseBucket_def)
  have rr: "ram_Read (ReduceEmptyNumbers (p_store s)) = ram_Read (p_store s)"
    by (simp add: fun_eq_iff ram_Read_def ReduceEmptyNumbers_def)
  have rb: "box_ReadBucket ?s = box_ReadBucket s" by (intro ext) (simp add: box_ReadBucket_def d rr)
  have "pstore_ok ?s B" using B(3) f by (simp add: pstore_ok_def rb)
  moreover have "pgeom ?s" using B(1) by (simp add: pgeom_def ReduceEmptyNumbers_def)
  ultimately have "pinv ?s (M(k \<mapsto> ?b)) S"
    using B(2) pl unfolding pinv_def f p by (intro conjI exI[of _ B]) (simp_all add: sm_wf_put)
  then show ?thesis
    using assms(4) by (intro exI[of _ ?s]) (simp add: box_WriteData_def GetEmptySize_def ReduceEmptyNumbers_def)
qed

section \<open>The map of values\<close>

text \<open>The position of an identifier is given by a function; a box is then determined by its identifier and its value.\<close>

definition boxes :: "(3 Bid \<Rightarrow> nat) \<Rightarrow> (3 Bid \<Rightarrow> string option) \<Rightarrow> 3 Bid \<Rightarrow> box option" where
  "boxes posf f = (\<lambda>k. map_option (\<lambda>v. mk_box k v (posf k)) (f k))"

definition prf_map :: "(3 Bid \<Rightarrow> nat) \<Rightarrow> nat \<Rightarrow> prforam \<Rightarrow> (3 Bid \<Rightarrow> string option) \<Rightarrow> bool" where
  "prf_map posf d s f \<longleftrightarrow> pinv s (boxes posf f) UNIV \<and> p_depth s = d \<and> (\<forall>k v. f k = Some v \<longrightarrow> good_value v)"

abbreviation text_at :: "(3 Bid \<Rightarrow> string option) \<Rightarrow> 3 Bid \<Rightarrow> string" where
  "text_at f k \<equiv> case f k of None \<Rightarrow> '''' | Some v \<Rightarrow> v"

lemma boxes_text: "(\<And>v. f k = Some v \<Longrightarrow> good_value v) \<Longrightarrow> box_text (boxes posf f k) = text_at f k"
  by (cases "f k") (simp_all add: boxes_def)

lemma boxes_put: "(boxes posf f)(k \<mapsto> mk_box k v (posf k)) = boxes posf (f(k \<mapsto> v))"
  by (simp add: fun_eq_iff boxes_def)

lemma boxes_pos: "boxes posf f k = Some b \<Longrightarrow> bx_pos b = posf k"
  by (auto simp: boxes_def)

lemma prf_batchRead:
  assumes "prf_map posf d s f" "\<forall>k \<in> set ks. posf k < 2 ^ d"
  shows "\<exists>s'. batchRead (map (\<lambda>k. (k, posf k)) ks) s = Inr (s', map (text_at f) ks) \<and> prf_map posf d s' f \<and>
    emptyNodes (p_store s') = emptyNodes (p_store s)"
proof -
  have "\<exists>s'. batchRead (map (\<lambda>k. (k, posf k)) ks) s = Inr (s', map (\<lambda>(k, _). box_text (boxes posf f k)) (map (\<lambda>k. (k, posf k)) ks)) \<and>
      pinv s' (boxes posf f) UNIV \<and> same_tree s s'"
    by (rule batchRead_ok) (use assms in \<open>auto simp: prf_map_def boxes_pos\<close>)
  then show ?thesis using assms(1) boxes_text[of f] by (auto simp: prf_map_def same_tree_def)
qed

lemma prf_ReadBox:
  assumes "prf_map posf d s f" "\<not> bid_eq_int k 0" "posf k < 2 ^ d"
  shows "\<exists>s'. ReadBox k (posf k) s = Inr (s', text_at f k) \<and> prf_map posf d s' f \<and> emptyNodes (p_store s') = emptyNodes (p_store s)"
proof -
  have "\<exists>s'. ReadBox k (posf k) s = Inr (s', box_text (boxes posf f k)) \<and> pinv s' (boxes posf f) UNIV \<and> same_tree s s'"
    by (rule ReadBox_ok) (use assms in \<open>auto simp: prf_map_def boxes_pos\<close>)
  then show ?thesis using assms(1) boxes_text[of f k] by (auto simp: prf_map_def same_tree_def)
qed

text \<open>A list of entries and the list of positions walked in step with it.\<close>

definition entries_ok :: "(3 Bid \<Rightarrow> nat) \<Rightarrow> nat \<Rightarrow> (3 Bid \<times> string) list \<Rightarrow> (3 Bid \<times> nat) list \<Rightarrow> bool" where
  "entries_ok posf d vals poses \<longleftrightarrow> length vals \<le> length poses \<and> (\<forall>i < length vals. snd (poses ! i) = posf (fst (vals ! i))) \<and>
     (\<forall>(k, v) \<in> set vals. box_id k \<and> good_value v \<and> posf k < 2 ^ d)"

lemma entries_ok_Cons:
  "entries_ok posf d ((k, v) # vals) poses \<longleftrightarrow> (\<exists>x ps. poses = (x, posf k) # ps \<and> box_id k \<and> good_value v \<and> posf k < 2 ^ d \<and> entries_ok posf d vals ps)"
  unfolding entries_ok_def by (cases poses) (auto simp: less_Suc_eq_0_disj nth_Cons' All_less_Suc2 split: prod.split)

text \<open>The state between two entries of a batch of writes.\<close>

definition batch_inv :: "(3 Bid \<Rightarrow> nat) \<Rightarrow> nat \<Rightarrow> prforam \<times> nat list \<Rightarrow> (3 Bid \<Rightarrow> string option) \<Rightarrow> bool" where
  "batch_inv posf d = (\<lambda>(s, ls) f. pinv s (boxes posf f) (- set (viewmap s)) \<and> set (viewmap s) = (\<Union>l \<in> set ls. ppath s l) \<and>
     (\<forall>l \<in> set ls. l < 2 ^ d) \<and> p_depth s = d)"

lemma write_item_ok:
  assumes "batch_inv posf d (s, ls) f" "box_id k" "good_value v" "posf k < 2 ^ d"
  shows "0 < emptyNodes (p_store s) \<Longrightarrow> \<exists>s' ls'. write_item k v (posf k) (s, ls) = Inr (s', ls') \<and>
      batch_inv posf d (s', ls') (f(k \<mapsto> v)) \<and> emptyNodes (p_store s') = emptyNodes (p_store s) - 1"
    and "emptyNodes (p_store s) = 0 \<Longrightarrow>
      write_item k v (posf k) (s, ls) = Inl (Runtime_error ''There is no more space in PRFORAM'')"
proof -
  have b: "pinv s (boxes posf f) (- set (viewmap s))" "set (viewmap s) = (\<Union>l \<in> set ls. ppath s l)" "\<forall>l \<in> set ls. l < 2 ^ d" "p_depth s = d"
    using assms(1) unfolding batch_inv_def by blast+
  let ?ls = "insort_insert (posf k) ls"
  obtain s1 where s1: "box_FetchPath (posf k) True s = Inr s1" "pinv s1 (boxes posf f) (- set (viewmap s1))" "same_tree s s1"
    "set (viewmap s1) = ppath s (posf k) \<union> set (viewmap s)"
    using box_FetchPath_batch[OF b(1)] assms(4) b(4) by blast
  note t = same_tree_path[OF s1(3)]
  have w: "write_item k v (posf k) (s, ls) = bindE (box_WriteData k (mk_box k v (posf k)) s1) (\<lambda>s2. Inr (s2, ?ls))"
    using pinv_no_pos[OF b(1)] s1(1) assms(3) by (simp add: write_item_def new_box_ok)
  have n: "emptyNodes (p_store s1) = emptyNodes (p_store s)" using s1(3) by (simp add: same_tree_def)
  then show "emptyNodes (p_store s) = 0 \<Longrightarrow> write_item k v (posf k) (s, ls) = Inl (Runtime_error ''There is no more space in PRFORAM'')"
    unfolding w by (simp add: box_WriteData_def GetEmptySize_def)
  assume e: "0 < emptyNodes (p_store s)"
  have g: "sm_get (stash s1) k = boxes posf f k"
    by (rule pinv_fetched[OF s1(2), of "posf k"]) (use s1(4) t boxes_pos in auto)
  have eo: "entry_ok s1 k v (posf k)" using assms(2-4) t(3) b(4) by (simp add: entry_ok_def)
  from box_WriteData_ok[OF s1(2) eo g] e n obtain s2 where
    s2: "box_WriteData k (mk_box k v (posf k)) s1 = Inr s2" "pinv s2 (boxes posf (f(k \<mapsto> v))) (- set (viewmap s1))" "viewmap s2 = viewmap s1"
      "p_depth s2 = d" "p_bucketCount s2 = p_bucketCount s" "emptyNodes (p_store s2) = emptyNodes (p_store s) - 1"
    using t b(4) by (auto simp: boxes_put)
  have "ppath s2 = ppath s" using s2(4,5) b(4) by (simp add: fun_eq_iff ppath_def GetBoxOnPath_def)
  then have "set (viewmap s2) = (\<Union>l \<in> set ?ls. ppath s2 l)" using b(2) s1(4) s2(3) by (simp add: set_insort_insert)
  moreover have "pinv s2 (boxes posf (f(k \<mapsto> v))) (- set (viewmap s2))" using s2(2,3) by simp
  moreover have "\<forall>l \<in> set ?ls. l < 2 ^ d" using b(3) assms(4) by (simp add: set_insort_insert)
  ultimately have "batch_inv posf d (s2, ?ls) (f(k \<mapsto> v))" using s2(4) unfolding batch_inv_def by blast
  then show "\<exists>s' ls'. write_item k v (posf k) (s, ls) = Inr (s', ls') \<and> batch_inv posf d (s', ls') (f(k \<mapsto> v)) \<and>
      emptyNodes (p_store s') = emptyNodes (p_store s) - 1"
    unfolding w using s2(1,6) by auto
qed

lemma write_items_ok:
  assumes "batch_inv posf d (s, ls) f" "entries_ok posf d vals poses"
  shows "if length vals \<le> emptyNodes (p_store s)
    then \<exists>s' ls'. write_items vals poses (s, ls) = Inr (s', ls') \<and>
      batch_inv posf d (s', ls') (fold (\<lambda>(k, v) f. f(k \<mapsto> v)) vals f) \<and> emptyNodes (p_store s') = emptyNodes (p_store s) - length vals
    else write_items vals poses (s, ls) = Inl (Runtime_error ''There is no more space in PRFORAM'')"
  using assms
proof (induction vals arbitrary: s ls poses f)
  case Nil
  then show ?case by simp
next
  case (Cons x vals)
  obtain k v where x: "x = (k, v)" by force
  with Cons.prems(2) obtain y ps where ps: "poses = (y, posf k) # ps" "box_id k" "good_value v" "posf k < 2 ^ d" "entries_ok posf d vals ps"
    by (auto simp: entries_ok_Cons)
  note w = write_item_ok[OF Cons.prems(1) ps(2-4)]
  show ?case
  proof (cases "emptyNodes (p_store s) = 0")
    case True
    then show ?thesis using w(2) by (simp add: x ps(1))
  next
    case False
    then obtain s' ls' where s': "write_item k v (posf k) (s, ls) = Inr (s', ls')" "batch_inv posf d (s', ls') (f(k \<mapsto> v))"
      "emptyNodes (p_store s') = emptyNodes (p_store s) - 1" using w(1) by blast
    have le: "length vals \<le> emptyNodes (p_store s') \<longleftrightarrow> length (x # vals) \<le> emptyNodes (p_store s)"
      "emptyNodes (p_store s') - length vals = emptyNodes (p_store s) - length (x # vals)" using False s'(3) by auto
    have u: "write_items (x # vals) poses (s, ls) = write_items vals ps (s', ls')"
      "fold (\<lambda>(k, v) f. f(k \<mapsto> v)) (x # vals) f = fold (\<lambda>(k, v) f. f(k \<mapsto> v)) vals (f(k \<mapsto> v))" using s'(1) by (simp_all add: x ps(1))
    show ?thesis using Cons.IH[OF s'(2) ps(5)] unfolding u le .
  qed
qed

lemma batch_start: "prf_map posf d s f \<Longrightarrow> batch_inv posf d (s\<lparr>viewmap := []\<rparr>, []) f"
  by (simp add: prf_map_def batch_inv_def)

lemma prf_batchWrite_full:
  assumes "prf_map posf d s f" "entries_ok posf d vals poses" "emptyNodes (p_store s) < length vals"
  shows "box_batchWrite vals poses s = Inl (Runtime_error ''There is no more space in PRFORAM'')"
  using write_items_ok[OF batch_start[OF assms(1)] assms(2)] assms(3) by (simp add: box_batchWrite_def)

lemma prf_batchWrite:
  assumes "prf_map posf d s f" "entries_ok posf d vals poses" "length vals \<le> emptyNodes (p_store s)" "distinct (map fst vals)"
  shows "\<exists>s'. box_batchWrite vals poses s = Inr s' \<and> prf_map posf d s' (f ++ map_of vals) \<and>
    emptyNodes (p_store s') = emptyNodes (p_store s) - length vals"
proof -
  let ?s = "s\<lparr>viewmap := []\<rparr>" and ?f = "fold (\<lambda>(k, v) f. f(k \<mapsto> v)) vals f"
  have m: "?f = f ++ map_of vals"
    using assms(4) by (induction vals arbitrary: f) (auto simp: map_add_upd_left dom_map_of_conv_image_fst)
  obtain s1 ls where s1: "write_items vals poses (?s, []) = Inr (s1, ls)" "batch_inv posf d (s1, ls) ?f"
    "emptyNodes (p_store s1) = emptyNodes (p_store s) - length vals"
    using write_items_ok[OF batch_start[OF assms(1)] assms(2)] assms(3) by auto
  obtain s2 where s2: "write_paths ls s1 = Inr s2" "pinv s2 (boxes posf ?f) UNIV" "same_tree s1 s2"
    using write_paths_ok[of s1 "boxes posf ?f" ls] s1(2) unfolding batch_inv_def by auto
  have "(f ++ map_of vals) k = Some v \<Longrightarrow> good_value v" for k v
    using assms(1,2) by (auto simp: prf_map_def entries_ok_def map_add_Some_iff dest!: map_of_SomeD)
  moreover have "p_depth s1 = d" using s1(2) by (simp add: batch_inv_def)
  ultimately show ?thesis using s1(1,3) s2 by (simp add: box_batchWrite_def prf_map_def same_tree_def m)
qed

section \<open>Construction\<close>

lemma init_box_buckets:
  assumes "pgeom s" "m \<le> p_bucketCount s"
  shows "\<exists>st ivs. foldE (\<lambda>i. box_WriteBucket i (replicate Z (dummy_block sizeof_Box))) [0..<m] s = Inr (s\<lparr>p_ivs := ivs, p_store := st\<rparr>) \<and>
    pgeom (s\<lparr>p_ivs := ivs, p_store := st\<rparr>) \<and> emptyNodes st = emptyNodes (p_store s) \<and>
    (\<forall>j < m. box_ReadBucket (s\<lparr>p_ivs := ivs, p_store := st\<rparr>) j = Inr (box_bucket []))"
  using assms(2)
proof (induction m)
  case 0
  then show ?case using assms(1) by (intro exI[of _ "p_store s"] exI[of _ "p_ivs s"]) simp
next
  case (Suc m)
  then obtain st ivs where IH: "foldE (\<lambda>i. box_WriteBucket i (replicate Z (dummy_block sizeof_Box))) [0..<m] s = Inr (s\<lparr>p_ivs := ivs, p_store := st\<rparr>)"
    "pgeom (s\<lparr>p_ivs := ivs, p_store := st\<rparr>)" "emptyNodes st = emptyNodes (p_store s)"
    "\<forall>j < m. box_ReadBucket (s\<lparr>p_ivs := ivs, p_store := st\<rparr>) j = Inr (box_bucket [])" by auto
  let ?s = "s\<lparr>p_ivs := ivs, p_store := st\<rparr>"
  have "m < length (rs_store (p_store ?s))" using Suc.prems IH(2) by (simp add: pgeom_def)
  from box_WriteBucket_ok[OF IH(2) _ _ this, of "[]"] obtain st' ivs' where
    w: "box_WriteBucket m (box_bucket []) ?s = Inr (?s\<lparr>p_ivs := ivs', p_store := st'\<rparr>)" "pgeom (?s\<lparr>p_ivs := ivs', p_store := st'\<rparr>)"
      "emptyNodes st' = emptyNodes st"
      "\<forall>j. box_ReadBucket (?s\<lparr>p_ivs := ivs', p_store := st'\<rparr>) j = (if j = m then Inr (box_bucket []) else box_ReadBucket ?s j)" by auto
  have "box_bucket [] = replicate Z (dummy_block sizeof_Box)" by (simp add: box_bucket_def)
  then have "foldE (\<lambda>i. box_WriteBucket i (replicate Z (dummy_block sizeof_Box))) [0..<Suc m] s = Inr (s\<lparr>p_ivs := ivs', p_store := st'\<rparr>)"
    using IH(1) w(1) by (simp add: foldE_append)
  moreover have "\<forall>j < Suc m. box_ReadBucket (s\<lparr>p_ivs := ivs', p_store := st'\<rparr>) j = Inr (box_bucket [])"
    using w(4) IH(4) by (simp add: less_Suc_eq)
  ultimately show ?case using w(2,3) IH(3) by (intro exI[of _ st'] exI[of _ ivs']) simp
qed

lemma PRFORAM_ok:
  assumes "cbc_good A" "\<forall>i. length (ivs i) = IV" "Z \<le> maxSize" "floor_log2 (maxSize div Z) \<le> 30"
  shows "\<exists>s. PRFORAM A ivs maxSize key = Inr s \<and> prf_map posf (floor_log2 (maxSize div Z)) s Map.empty \<and>
    emptyNodes (p_store s) = Z * (2 ^ (floor_log2 (maxSize div Z) + 1) - 1)"
proof -
  define d where "d = floor_log2 (maxSize div Z)"
  define s where "s = \<lparr>p_store = RAMStore (Z * (2 ^ (d + 1) - 1)) (IV + GetCiphertextLength (Z * sizeof_Box)), p_depth = d, p_blockSize = sizeof_Box,
    stash = [], viewmap = [], p_bucketCount = 2 ^ (d + 1) - 1, p_key = key, p_aes = A, p_ivs = ivs,
    p_plaintext_size = sizeof_Box * Z, p_clen_size = GetCiphertextLength (Z * sizeof_Box)\<rparr>"
  have g: "pgeom s" using assms by (simp add: pgeom_def s_def d_def RAMStore_def Z_def)
  from init_box_buckets[OF g, of "p_bucketCount s"] obtain st ivs' where
    i: "foldE (\<lambda>i. box_WriteBucket i (replicate Z (dummy_block sizeof_Box))) [0..<p_bucketCount s] s = Inr (s\<lparr>p_ivs := ivs', p_store := st\<rparr>)"
      "pgeom (s\<lparr>p_ivs := ivs', p_store := st\<rparr>)" "emptyNodes st = emptyNodes (p_store s)"
      "\<forall>j < p_bucketCount s. box_ReadBucket (s\<lparr>p_ivs := ivs', p_store := st\<rparr>) j = Inr (box_bucket [])" by auto
  let ?s = "s\<lparr>p_ivs := ivs', p_store := st\<rparr>"
  have r: "PRFORAM A ivs maxSize key = Inr ?s" using assms(3) i(1) by (simp add: PRFORAM_def s_def d_def Let_def)
  have "pstore_ok ?s (\<lambda>_. [])" using i(4) by (simp add: pstore_ok_def)
  moreover have "placed (box_ok ?s) bx_key (\<lambda>b. ppath ?s (bx_pos b)) (p_bucketCount ?s) (sm_get (stash ?s)) (\<lambda>_. []) (boxes posf Map.empty) UNIV"
    by (rule placedI) (simp_all add: s_def boxes_def)
  ultimately have "pinv ?s (boxes posf Map.empty) UNIV" unfolding pinv_def using i(2) by (intro conjI exI[of _ "\<lambda>_. []"]) (simp_all add: s_def)
  then show ?thesis using r i(3) by (intro exI[of _ ?s]) (simp add: prf_map_def s_def d_def RAMStore_def)
qed

section \<open>Writing one box\<close>

lemma GetBoxOnPath_leaf: "GetBoxOnPath s x (p_depth s) = x + p_bucketCount s div 2"
  by (simp add: GetBoxOnPath_def)

lemma intersecting_all:
  assumes "sm_wf (stash s)" "sm_get (stash s) k = Some b" "bx_pos b = x"
    and "finite J" "card J < Z" "\<forall>j c. sm_get (stash s) j = Some c \<and> bx_pos c = x \<and> j \<noteq> k \<longrightarrow> j \<in> J"
  shows "k \<in> set (box_GetIntersectingBlocks s x (p_depth s))"
proof -
  let ?l = "map fst (filter (\<lambda>b. bx_pos (snd b) = x) (stash s))"
  have m: "(j, c) \<in> set (stash s) \<longleftrightarrow> sm_get (stash s) j = Some c" for j c by (rule sm_in_set_iff[OF assms(1)])
  have "distinct ?l" using sm_wf_distinct[OF assms(1)] by (rule distinct_map_filter)
  then have "length ?l = card (set ?l)" by (rule distinct_card[symmetric])
  also have "\<dots> \<le> card (insert k J)" using assms(6) m by (intro card_mono) (use assms(4) in force)+
  finally have "length ?l \<le> Z" using card_insert_le_m1[of Z J k] assms(5) by linarith
  moreover have "box_GetIntersectingBlocks s x (p_depth s) = take Z ?l"
    unfolding box_GetIntersectingBlocks_def GetBoxOnPath_leaf by simp
  moreover have "k \<in> set ?l" using m[of k b] assms(2,3) by force
  ultimately show ?thesis by (simp del: set_map)
qed

end
