(* ===== verification/HorusIndex.thy ===== *)
theory HorusIndex
  imports HorusRow OrionIndex PrfOramInv
begin

text \<open>
  The identifiers of Horus: of an entry of the oblivious map, and of a box, which is determined by keyword, position, search counter and access counter, and
  determines them. The leaf of a box is then a function of its identifier, as the contract of the ORAM asks for.
\<close>

section \<open>Identifiers of entries\<close>

definition hkey :: "byte \<Rightarrow> string \<Rightarrow> int \<Rightarrow> 3 Bid" where
  "hkey b w n = Bid_array (b # str_bytes w @ replicate (19 - length w) 0 @ le_bytes 4 n)"

lemma map_bid_ok: "good_word w \<Longrightarrow> map_bid b w n = Inr (hkey b w n)"
proof -
  assume w: "good_word w"
  have "(replicate (ID_SIZE TYPE(3)) 0)[0 := b] = b # replicate 23 (0 :: byte)" by (simp add: ID_SIZE_def numeral_eq_Suc)
  then show ?thesis using w by (simp add: good_word_def map_bid_def hkey_def copy_into_def copy_at_def ID_SIZE_def drop_replicate min_def)
qed

lemma hkey_good: "good_word w \<Longrightarrow> good_key (hkey b w n)"
proof -
  assume w: "good_word w"
  then obtain c cs where c: "w = c # cs" by (cases w) (simp_all add: good_word_def)
  have "(of_char c :: byte) \<noteq> 0" using str_bytes_nonzero[of w "of_char c"] w by (auto simp: good_word_def c str_bytes_def)
  then have "uint (of_char c :: byte) \<noteq> 0" by (simp add: uint_0_iff)
  then have "\<not> bid_eq_int (hkey b w n) 0" by (auto simp: bid_eq_int_def hkey_def c str_bytes_def list_ex_iff intro!: bexI[of _ 2])
  then show ?thesis using w by (simp add: good_key_def hkey_def good_word_def bid_wf_def ID_SIZE_def)
qed

lemma hkey_inj:
  assumes "good_word w" "good_word w'" "in_int32 n" "in_int32 n'"
  shows "hkey b w n = hkey b' w' n' \<longleftrightarrow> b = b' \<and> w = w' \<and> n = n'"
proof
  assume e: "hkey b w n = hkey b' w' n'"
  let ?p = "\<lambda>w. str_bytes w @ replicate (19 - length w) 0"
  have l: "length (?p w) = length (?p w')" using assms(1,2) by (simp add: good_word_def)
  from e have e': "?p w @ le_bytes 4 n = ?p w' @ le_bytes 4 n'" "b = b'" by (simp_all add: hkey_def)
  then have p: "?p w = ?p w'" "le_bytes 4 n = le_bytes 4 n'" using append_eq_append_conv[OF disjI1[OF l]] by blast+
  show "b = b' \<and> w = w' \<and> n = n'"
    using padded_word_inj[OF assms(1,2) p(1)] le_bytes_4_int32_inj[OF assms(3,4) p(2)] e'(2) by simp
qed simp

section \<open>Identifiers of boxes\<close>

definition hbid :: "string \<Rightarrow> int \<Rightarrow> int \<Rightarrow> int \<Rightarrow> 3 Bid" where
  "hbid w p s a = Bid_array (le_bytes 4 p @ le_bytes 4 s @ le_bytes 4 a @ str_bytes w @ replicate (12 - length w) 0)"

lemma oram_bid_ok: "good_word w \<Longrightarrow> oram_bid w p s a = Inr (hbid w p s a)"
  by (simp add: good_word_def oram_bid_def hbid_def copy_into_def copy_at_def ID_SIZE_def drop_replicate Let_def)

lemma hbid_inj:
  assumes "good_word w" "good_word w'" "in_int32 p" "in_int32 p'" "in_int32 s" "in_int32 s'" "in_int32 a" "in_int32 a'"
  shows "hbid w p s a = hbid w' p' s' a' \<longleftrightarrow> w = w' \<and> p = p' \<and> s = s' \<and> a = a'"
proof
  assume "hbid w p s a = hbid w' p' s' a'"
  then have e: "le_bytes 4 p = le_bytes 4 p'" "le_bytes 4 s = le_bytes 4 s'" "le_bytes 4 a = le_bytes 4 a'"
    "str_bytes w @ replicate (12 - length w) 0 = str_bytes w' @ replicate (12 - length w') 0" by (simp_all add: hbid_def)
  show "w = w' \<and> p = p' \<and> s = s' \<and> a = a'"
    using padded_word_inj[OF assms(1,2) e(4)] le_bytes_4_int32_inj[OF assms(3,4) e(1)] le_bytes_4_int32_inj[OF assms(5,6) e(2)]
      le_bytes_4_int32_inj[OF assms(7,8) e(3)] by simp
qed simp

lemma le_bytes_nonzero: "in_int32 x \<Longrightarrow> x \<noteq> 0 \<Longrightarrow> le_bytes 4 x \<noteq> replicate 4 0"
  using le_bytes_4_int32_inj[of x 0] by (auto simp: in_int32_def numeral_eq_Suc)

text \<open>Positions and access counters start at 1, so the identifier of a box is none of the special ones.\<close>

lemma hbid_box:
  assumes "good_word w" "in_int32 p" "p \<noteq> 0" "in_int32 a" "a \<noteq> 0"
  shows "box_id (hbid w p s a)"
proof -
  have wf: "bid_wf (hbid w p s a)" using assms(1) by (simp add: hbid_def bid_wf_def ID_SIZE_def good_word_def)
  have "take 4 (bid_id (hbid w p s a)) = le_bytes 4 p" by (simp add: hbid_def)
  then have "\<not> bid_eq_int (hbid w p s a) 0" using bid_null_iff[OF wf] le_bytes_nonzero[OF assms(2,3)] by simp
  moreover have "take 4 (drop 8 (bid_id (hbid w p s a))) = le_bytes 4 a" by (simp add: hbid_def)
  then have "take 4 (drop 4 (drop 4 (bid_id (hbid w p s a)))) \<noteq> replicate 4 0" using le_bytes_nonzero[OF assms(4,5)] by simp
  then have "drop 4 (bid_id (hbid w p s a)) \<noteq> replicate 20 0" by (auto simp: drop_replicate simp del: drop_drop)
  ultimately show ?thesis using wf by (simp add: box_id_def)
qed

section \<open>Leaves\<close>

definition box_leaf :: "(bytes \<Rightarrow> nat \<Rightarrow> nat \<Rightarrow> bytes) \<Rightarrow> nat \<Rightarrow> string \<Rightarrow> int \<Rightarrow> int \<Rightarrow> int \<Rightarrow> nat" where
  "box_leaf prg m w p s a = nat (le_uint (take 4 (prg (position_key w p s a) 0 4))) mod leaf_modulus m"

definition leaf_of :: "(bytes \<Rightarrow> nat \<Rightarrow> nat \<Rightarrow> bytes) \<Rightarrow> nat \<Rightarrow> 3 Bid \<Rightarrow> nat" where
  "leaf_of prg m k = (SOME x. \<exists>w p s a. good_word w \<and> in_int32 p \<and> in_int32 s \<and> in_int32 a \<and> k = hbid w p s a \<and> x = box_leaf prg m w p s a)"

lemma leaf_of_hbid:
  assumes "good_word w" "in_int32 p" "in_int32 s" "in_int32 a"
  shows "leaf_of prg m (hbid w p s a) = box_leaf prg m w p s a"
  unfolding leaf_of_def by (rule some_equality) (use assms in \<open>auto simp: hbid_inj\<close>)

lemma leaf_modulus_eq: "leaf_modulus m = 2 ^ floor_log2 m - 1"
  by (simp add: leaf_modulus_def INC_FACTOR_def Z_def)

lemma leaf_modulus_pos: "2 \<le> m \<Longrightarrow> 0 < leaf_modulus m"
proof -
  assume "2 \<le> m"
  then have "floor_log2 m \<noteq> 0" by (simp add: floor_log2.simps[of m])
  then have "(2::nat) ^ 1 \<le> 2 ^ floor_log2 m" by (intro power_increasing) simp_all
  then show ?thesis unfolding leaf_modulus_eq by simp
qed

lemma generatePosition_ok:
  assumes "good_word w" "in_int32 p" "in_int32 s" "in_int32 a" "2 \<le> m"
  shows "generatePosition prg m w p s a = Inr (leaf_of prg m (hbid w p s a))" "leaf_of prg m (hbid w p s a) < 2 ^ floor_log2 m"
proof -
  note l = leaf_of_hbid[OF assms(1-4), of prg m] and m = leaf_modulus_pos[OF assms(5)]
  show "generatePosition prg m w p s a = Inr (leaf_of prg m (hbid w p s a))"
    using m by (simp add: generatePosition_def l box_leaf_def)
  have "box_leaf prg m w p s a < leaf_modulus m" using m by (simp add: box_leaf_def)
  then show "leaf_of prg m (hbid w p s a) < 2 ^ floor_log2 m" unfolding l leaf_modulus_eq by linarith
qed

end
