(* ===== verification/HorusWord.thy ===== *)
theory HorusWord
  imports HorusIndex
begin

text \<open>
  What the setup phase of Horus does to one keyword. There is a list of identifiers, each with the access counter its entries have, and for every position the
  column of values written under the access counters 1, 2 and so on. A removal puts the last identifier in the place of the removed one, under the next
  counter; an insertion uses counter 1, also at a position that was in use before. Columns never shrink, and a search returns
  the last value of each column.
\<close>

type_synonym hword = "(int \<times> int) list \<times> int list list"

definition put_at :: "nat \<Rightarrow> 'a \<Rightarrow> 'a list \<Rightarrow> 'a list" where
  "put_at n x xs = take n xs @ x # drop (Suc n) xs"

fun hw_insert :: "int \<Rightarrow> hword \<Rightarrow> hword" where
  "hw_insert x (live, cols) =
     (live @ [(x, 1)], if length live < length cols then cols[length live := put_at 0 x (cols ! length live)] else cols @ [[x]])"

fun hw_remove :: "nat \<Rightarrow> hword \<Rightarrow> hword" where
  "hw_remove i (live, cols) =
     (if Suc i = length live then (butlast live, cols)
      else let l = fst (List.last live); a = snd (live ! i)
           in ((butlast live)[i := (l, a + 1)], cols[i := put_at (nat a) l (cols ! i)]))"

definition hw_values :: "hword \<Rightarrow> int list" where
  "hw_values H = map List.last (take (length (fst H)) (snd H))"

lemma put_at_nth:
  assumes "n \<le> length xs"
  shows "length (put_at n x xs) = max (length xs) (Suc n)" "i < length (put_at n x xs) \<Longrightarrow> put_at n x xs ! i = (if i = n then x else xs ! i)"
    "set (put_at n x xs) \<subseteq> insert x (set xs)" "put_at n x xs \<noteq> []"
proof -
  show "length (put_at n x xs) = max (length xs) (Suc n)" using assms by (auto simp: put_at_def)
  show "i < length (put_at n x xs) \<Longrightarrow> put_at n x xs ! i = (if i = n then x else xs ! i)"
    using assms by (auto simp: put_at_def nth_append nth_Cons' min_def)
  show "set (put_at n x xs) \<subseteq> insert x (set xs)" by (auto simp: put_at_def dest: in_set_takeD in_set_dropD)
qed (simp add: put_at_def)

section \<open>What is stored\<close>

text \<open>An entry of the oblivious map has room for 16 characters: identifiers have at most eight, counters at most seven.\<close>

definition small_id :: "int \<Rightarrow> bool" where
  "small_id x \<longleftrightarrow> in_int32 x \<and> length (to_string x) \<le> 8"

definition cell :: "int list list \<Rightarrow> int \<Rightarrow> int \<Rightarrow> string option" where
  "cell cols p a = (if 1 \<le> p \<and> p \<le> int (length cols) \<and> 1 \<le> a \<and> a \<le> int (length (cols ! nat (p - 1)))
     then Some (to_string (cols ! nat (p - 1) ! nat (a - 1))) else None)"

definition hword_ok :: "(int \<Rightarrow> string option) \<Rightarrow> (int \<Rightarrow> string option) \<Rightarrow> (int \<Rightarrow> int \<Rightarrow> string option) \<Rightarrow> nat \<Rightarrow> hword \<Rightarrow> int set \<Rightarrow>
    int \<Rightarrow> int \<Rightarrow> int \<Rightarrow> bool" where
  "hword_ok U0 U1 G K H D R c l \<longleftrightarrow> (case H of (live, cols) \<Rightarrow>
     distinct (map fst live) \<and> length live \<le> length cols \<and> length cols \<le> K \<and> c = int (length live) \<and> R \<le> int K + 1 \<and>
     (live \<noteq> [] \<longrightarrow> l = fst (List.last live)) \<and> (\<forall>x \<in> fst ` set live \<union> D. small_id x) \<and> fst ` set live \<inter> D = {} \<and>
     (\<forall>i < length live. U0 (fst (live ! i)) = Some (pair_text (int i + 1) (snd (live ! i))) \<and>
        U1 (int i + 1) = Some (pair_text (fst (live ! i)) (snd (live ! i))) \<and> 1 \<le> snd (live ! i) \<and> snd (live ! i) \<le> int (length (cols ! i))) \<and>
     (\<forall>x \<in> D. \<exists>b. in_int32 b \<and> U0 x = Some (pair_text (- 1) b)) \<and>
     (\<forall>i < length cols. cols ! i \<noteq> [] \<and> int (length (cols ! i)) \<le> R \<and> (\<forall>v \<in> set (cols ! i). small_id v)) \<and>
     (\<forall>p a. in_int32 p \<longrightarrow> in_int32 a \<longrightarrow> G p a = cell cols p a))"

lemma hword_okD:
  assumes "hword_ok U0 U1 G K (live, cols) D R c l"
  shows "distinct (map fst live)" "length live \<le> length cols" "length cols \<le> K" "c = int (length live)" "R \<le> int K + 1"
    "live \<noteq> [] \<Longrightarrow> l = fst (List.last live)" "x \<in> fst ` set live \<union> D \<Longrightarrow> small_id x" "fst ` set live \<inter> D = {}"
    "i < length live \<Longrightarrow> U0 (fst (live ! i)) = Some (pair_text (int i + 1) (snd (live ! i)))"
    "i < length live \<Longrightarrow> U1 (int i + 1) = Some (pair_text (fst (live ! i)) (snd (live ! i)))"
    "i < length live \<Longrightarrow> 1 \<le> snd (live ! i)" "i < length live \<Longrightarrow> snd (live ! i) \<le> int (length (cols ! i))"
    "x \<in> D \<Longrightarrow> \<exists>b. in_int32 b \<and> U0 x = Some (pair_text (- 1) b)"
    "i < length cols \<Longrightarrow> cols ! i \<noteq> []" "i < length cols \<Longrightarrow> int (length (cols ! i)) \<le> R" "i < length cols \<Longrightarrow> v \<in> set (cols ! i) \<Longrightarrow> small_id v"
    "in_int32 p \<Longrightarrow> in_int32 a \<Longrightarrow> G p a = cell cols p a"
  using assms unfolding hword_ok_def by auto

text \<open>Writing one cell.\<close>

lemma cell_put:
  assumes "i < length cols" "n \<le> length (cols ! i)"
  shows "cell (cols[i := put_at n x (cols ! i)]) p a = (if p = int i + 1 \<and> a = int n + 1 then Some (to_string x) else cell cols p a)"
proof (cases "p = int i + 1")
  case True
  then have p: "nat (p - 1) = i" "1 \<le> p" "p \<le> int (length cols)" using assms(1) by auto
  have "nat (a - 1) = n \<longleftrightarrow> a = int n + 1" if "1 \<le> a" using that by linarith
  then show ?thesis using put_at_nth(1)[OF assms(2), of x] put_at_nth(2)[OF assms(2), of "nat (a - 1)" x] assms True p
    by (auto simp: cell_def)
next
  case False
  then have "nat (p - 1) \<noteq> i" if "1 \<le> p" using that by linarith
  then show ?thesis using False by (auto simp: cell_def)
qed

lemma cell_append: "cell (cols @ [[x]]) p a = (if p = int (length cols) + 1 \<and> a = 1 then Some (to_string x) else cell cols p a)"
proof -
  consider "p = int (length cols) + 1" | "1 \<le> p" "p \<le> int (length cols)" | "p < 1 \<or> int (length cols) + 1 < p" by linarith
  then show ?thesis
  proof cases
    case 2
    then have "nat (p - 1) < length cols" by linarith
    then show ?thesis using 2 by (auto simp: cell_def nth_append)
  qed (auto simp: cell_def nth_append)
qed

section \<open>Insertion and removal\<close>

lemma hword_ok_insert:
  assumes H: "hword_ok U0 U1 G K (live, cols) D R c l" and x: "small_id x" "x \<notin> fst ` set live" and R: "1 \<le> R'" "R \<le> R'" "R' \<le> int K + 2"
  shows "hword_ok (U0(x \<mapsto> pair_text (c + 1) 1)) (U1(c + 1 \<mapsto> pair_text x 1)) (\<lambda>p a. if p = c + 1 \<and> a = 1 then Some (to_string x) else G p a)
    (Suc K) (hw_insert x (live, cols)) (D - {x}) R' (c + 1) x"
proof -
  note h = hword_okD[OF H]
  define n where "n = length live"
  define cols' where "cols' = (if n < length cols then cols[n := put_at 0 x (cols ! n)] else cols @ [[x]])"
  have c: "c = int n" using h(4) by (simp add: n_def)
  have cell: "cell cols' p a = (if p = c + 1 \<and> a = 1 then Some (to_string x) else cell cols p a)" for p a
  proof (cases "n < length cols")
    case True
    then show ?thesis using cell_put[of n cols 0 x p a] by (simp add: cols'_def c)
  next
    case False
    then have "n = length cols" using h(2) by (simp add: n_def)
    then show ?thesis using cell_append[of cols x p a] by (simp add: cols'_def c)
  qed
  have cl: "length cols' = max (length cols) (Suc n)" using h(2) by (simp add: cols'_def n_def max_def)
  have ci: "cols' ! i = (if i = n then (if n < length cols then put_at 0 x (cols ! n) else [x]) else cols ! i)" if "i < length cols'" for i
    using that h(2) by (auto simp: cols'_def n_def nth_append)
  have new: "cols' ! i \<noteq> [] \<and> int (length (cols' ! i)) \<le> R' \<and> (\<forall>v \<in> set (cols' ! i). small_id v)" if i: "i < length cols'" for i
  proof (cases "i = n")
    case True
    show ?thesis
    proof (cases "n < length cols")
      case nl: True
      then have "1 \<le> length (cols ! n)" using h(14) by (simp add: Suc_le_eq)
      then have "length (put_at 0 x (cols ! n)) = length (cols ! n)" unfolding put_at_nth(1)[OF le0] by linarith
      then show ?thesis using ci[OF i] True nl h(15)[OF nl] h(16)[OF nl] R(2) x(1) put_at_nth(3,4)[of 0 "cols ! n" x] by auto
    next
      case False
      then show ?thesis using ci[OF i] True R(1) x(1) by simp
    qed
  next
    case False
    then have "i < length cols" using i cl h(2) by (auto simp: n_def max_def split: if_splits)
    then show ?thesis using ci[OF i] False h(14,15,16)[of i] R(2) by auto
  qed
  have keep: "length (cols ! i) \<le> length (cols' ! i)" if "i < n" for i using that ci[of i] cl by simp
  have "cols' ! n \<noteq> []" using new[of n] cl by simp
  then have n1: "1 \<le> int (length (cols' ! n))" by (simp add: Suc_le_eq)
  have e: "(live @ [(x, 1)]) ! i = (if i = n then (x, 1) else live ! i)" if "i < Suc n" for i using that by (simp add: nth_append n_def)
  have old: "fst (live ! i) \<noteq> x" if "i < n" for i using that x(2) by (auto simp: n_def)
  have "hw_insert x (live, cols) = (live @ [(x, 1)], cols')" by (simp add: cols'_def n_def)
  moreover have "hword_ok (U0(x \<mapsto> pair_text (c + 1) 1)) (U1(c + 1 \<mapsto> pair_text x 1)) (\<lambda>p a. if p = c + 1 \<and> a = 1 then Some (to_string x) else G p a)
    (Suc K) (live @ [(x, 1)], cols') (D - {x}) R' (c + 1) x"
    unfolding hword_ok_def prod.case
  proof (intro conjI allI impI ballI)
    fix i assume "i < length (live @ [(x, 1)])"
    then have i: "i < Suc n" by (simp add: n_def)
    show "(U0(x \<mapsto> pair_text (c + 1) 1)) (fst ((live @ [(x, 1)]) ! i)) = Some (pair_text (int i + 1) (snd ((live @ [(x, 1)]) ! i)))"
      "(U1(c + 1 \<mapsto> pair_text x 1)) (int i + 1) = Some (pair_text (fst ((live @ [(x, 1)]) ! i)) (snd ((live @ [(x, 1)]) ! i)))"
      "1 \<le> snd ((live @ [(x, 1)]) ! i)"
      using e[OF i] i h(9,10,11)[of i] old[of i] by (auto simp: c n_def less_Suc_eq)
    show "snd ((live @ [(x, 1)]) ! i) \<le> int (length (cols' ! i))"
      using e[OF i] i h(12)[of i] keep[of i] n1 by (auto simp: n_def less_Suc_eq)
  next
    fix p a assume "in_int32 p" "in_int32 a"
    then show "(if p = c + 1 \<and> a = 1 then Some (to_string x) else G p a) = cell cols' p a" using cell h(17) by simp
  qed (use h(1-3,5,7,8,13) x R(3) cl new in \<open>auto simp: c n_def\<close>)
  ultimately show ?thesis by simp
qed

text \<open>The shape of the lists after a removal.\<close>

lemma hw_remove_live:
  assumes "distinct (map fst live)" "i < length live" "live ! i = (x, a)"
  shows "distinct (map fst (fst (hw_remove i (live, cols))))" "fst ` set (fst (hw_remove i (live, cols))) = fst ` set live - {x}"
    "length (fst (hw_remove i (live, cols))) = length live - 1"
    "j < length live - 1 \<Longrightarrow> fst (hw_remove i (live, cols)) ! j = (if Suc i \<noteq> length live \<and> j = i then (fst (List.last live), a + 1) else live ! j)"
proof -
  have ne: "live \<noteq> []" using assms(2) by auto
  have mf: "map fst (fst (hw_remove i (live, cols))) = swap_out i (map fst live)"
    by (simp add: swap_out_def map_butlast map_update last_map[OF ne] Let_def)
  show "distinct (map fst (fst (hw_remove i (live, cols))))" unfolding mf by (rule swap_out_set(1)[OF assms(1)]) (simp add: assms(2))
  have "set (map fst (fst (hw_remove i (live, cols)))) = set (map fst live) - {x}"
    unfolding mf using swap_out_set(2)[OF assms(1), of i] assms(2,3) by simp
  then show "fst ` set (fst (hw_remove i (live, cols))) = fst ` set live - {x}" by (simp only: set_map)
  show "length (fst (hw_remove i (live, cols))) = length live - 1" by (simp add: Let_def)
  show "j < length live - 1 \<Longrightarrow> fst (hw_remove i (live, cols)) ! j = (if Suc i \<noteq> length live \<and> j = i then (fst (List.last live), a + 1) else live ! j)"
    using assms(2,3) by (auto simp: nth_butlast Let_def)
qed

lemma hw_remove_cols:
  assumes "live ! i = (x, a)" "i < length cols" "1 \<le> a" "a \<le> int (length (cols ! i))" "l = fst (List.last live)"
  shows "length (snd (hw_remove i (live, cols))) = length cols"
    "j < length cols \<Longrightarrow> snd (hw_remove i (live, cols)) ! j = (if Suc i \<noteq> length live \<and> j = i then put_at (nat a) l (cols ! i) else cols ! j)"
    "cell (snd (hw_remove i (live, cols))) p b =
      (if Suc i \<noteq> length live \<and> p = int i + 1 \<and> b = a + 1 then Some (to_string l) else cell cols p b)"
proof -
  have c: "snd (hw_remove i (live, cols)) = (if Suc i = length live then cols else cols[i := put_at (nat a) l (cols ! i)])"
    using assms(1,5) by (simp add: Let_def)
  then show "length (snd (hw_remove i (live, cols))) = length cols"
    "j < length cols \<Longrightarrow> snd (hw_remove i (live, cols)) ! j = (if Suc i \<noteq> length live \<and> j = i then put_at (nat a) l (cols ! i) else cols ! j)"
    by auto
  have "nat a \<le> length (cols ! i)" "int (nat a) = a" using assms(3,4) by linarith+
  then show "cell (snd (hw_remove i (live, cols))) p b =
      (if Suc i \<noteq> length live \<and> p = int i + 1 \<and> b = a + 1 then Some (to_string l) else cell cols p b)"
    unfolding c using cell_put[OF assms(2), of "nat a" l p b] by (cases "Suc i = length live") simp_all
qed

lemma hword_ok_remove:
  assumes H: "hword_ok U0 U1 G K (live, cols) D R c l" and i: "i < length live" and e: "live ! i = (x, a)"
    and R: "R \<le> R'" "Suc i \<noteq> length live \<longrightarrow> a + 1 \<le> R'" "R' \<le> int K + 2" and a32: "in_int32 (a + 1)"
    and l': "fst (hw_remove i (live, cols)) \<noteq> [] \<longrightarrow> l' = fst (List.last (fst (hw_remove i (live, cols))))"
  defines "at_end \<equiv> Suc i = length live"
  shows "hword_ok (if at_end then U0(x \<mapsto> pair_text (- 1) (a + 1)) else U0(x \<mapsto> pair_text (- 1) (a + 1), l \<mapsto> pair_text (int i + 1) (a + 1)))
    (if at_end then U1 else U1(int i + 1 \<mapsto> pair_text l (a + 1)))
    (\<lambda>p b. if \<not> at_end \<and> p = int i + 1 \<and> b = a + 1 then Some (to_string l) else G p b)
    (Suc K) (hw_remove i (live, cols)) (insert x D) R' (c - 1) l'"
proof -
  note h = hword_okD[OF H]
  define n where "n = length live"
  define live' where "live' = fst (hw_remove i (live, cols))"
  define cols' where "cols' = snd (hw_remove i (live, cols))"
  define U0' where "U0' = (if at_end then U0(x \<mapsto> pair_text (- 1) (a + 1)) else U0(x \<mapsto> pair_text (- 1) (a + 1), l \<mapsto> pair_text (int i + 1) (a + 1)))"
  define U1' where "U1' = (if at_end then U1 else U1(int i + 1 \<mapsto> pair_text l (a + 1)))"
  have ne: "live \<noteq> []" using i by auto
  then have l: "l = fst (live ! (n - 1))" "l = fst (List.last live)" "n - 1 < n" using h(6) by (simp_all add: last_conv_nth n_def)
  note lv = hw_remove_live[OF h(1) i e, where cols = cols, folded live'_def]
  have ids: "distinct (map fst live')" "fst ` set live' = fst ` set live - {x}" and ll: "length live' = n - 1"
    and lj: "\<And>j. j < n - 1 \<Longrightarrow> live' ! j = (if \<not> at_end \<and> j = i then (l, a + 1) else live ! j)"
    using lv l(2) by (simp_all add: at_end_def n_def)
  have ic: "i < length cols" using i h(2) by simp
  have a1: "1 \<le> a" "a \<le> int (length (cols ! i))" using h(11,12)[OF i] by (simp_all add: e)
  then have na: "nat a \<le> length (cols ! i)" "int (nat a) = a" by linarith+
  have cl: "length cols' = length cols"
    and cj: "\<And>j. j < length cols \<Longrightarrow> cols' ! j = (if \<not> at_end \<and> j = i then put_at (nat a) l (cols ! i) else cols ! j)"
    and cell: "\<And>p b. cell cols' p b = (if \<not> at_end \<and> p = int i + 1 \<and> b = a + 1 then Some (to_string l) else cell cols p b)"
    unfolding cols'_def at_end_def by (simp_all only: hw_remove_cols[OF e ic a1 l(2)])
  have lin: "l \<in> fst ` set live" "x \<in> fst ` set live" using l(2) ne i e by (auto intro: nth_mem rev_image_eqI)
  have neq: "fst (live ! j) \<noteq> fst (live ! k)" if "j < n" "k < n" "j \<noteq> k" for j k
    using that h(1) by (metis distinct_conv_nth length_map n_def nth_map)
  have col: "cols' ! j \<noteq> [] \<and> int (length (cols' ! j)) \<le> R' \<and> (\<forall>v \<in> set (cols' ! j). small_id v)" if j: "j < length cols" for j
  proof (cases "\<not> at_end \<and> j = i")
    case True
    then have "int (length (cols' ! j)) \<le> R'" using cj[OF j] put_at_nth(1)[OF na(1), of l] h(15)[OF ic] R(1,2) na(2) by (auto simp: at_end_def max_def)
    then show ?thesis using cj[OF j] True put_at_nth(3,4)[OF na(1), of l] h(16)[OF ic] h(7)[of l] lin(1) by auto
  next
    case False
    then have "cols' ! j = cols ! j" using cj[OF j] by auto
    then show ?thesis using h(14-16)[OF j] R(1) by auto
  qed
  have xl: "x \<noteq> l" if "\<not> at_end"
    using neq[of i "n - 1"] that i e l by (auto simp: at_end_def n_def)
  have "hword_ok U0' U1' (\<lambda>p b. if \<not> at_end \<and> p = int i + 1 \<and> b = a + 1 then Some (to_string l) else G p b)
    (Suc K) (live', cols') (insert x D) R' (c - 1) l'"
    unfolding hword_ok_def prod.case
  proof (intro conjI allI impI)
    fix j assume "j < length live'"
    then have j: "j < n - 1" by (simp add: ll)
    then have jn: "j < length live" "j < n" by (simp_all add: n_def)
    note u = h(9-12)[OF jn(1)]
    have jx: "fst (live ! j) \<noteq> x \<and> fst (live ! j) \<noteq> l" if "at_end \<or> j \<noteq> i"
      using that neq[of j i] neq[of j "n - 1"] j i e l jn by (auto simp: at_end_def n_def)
    show "U0' (fst (live' ! j)) = Some (pair_text (int j + 1) (snd (live' ! j)))"
      "U1' (int j + 1) = Some (pair_text (fst (live' ! j)) (snd (live' ! j)))" "1 \<le> snd (live' ! j)"
      using lj[OF j] u jx a1 xl by (auto simp: U0'_def U1'_def)
    show "snd (live' ! j) \<le> int (length (cols' ! j))"
      using lj[OF j] u cj[of j] jn h(2) put_at_nth(1)[OF na(1), of l] na(2) by auto
  next
    show "\<forall>y \<in> insert x D. \<exists>b. in_int32 b \<and> U0' y = Some (pair_text (- 1) b)"
      using h(13) h(8) lin xl a32 by (auto simp: U0'_def)
  next
    fix p b assume "in_int32 p" "in_int32 b"
    then show "(if \<not> at_end \<and> p = int i + 1 \<and> b = a + 1 then Some (to_string l) else G p b) = cell cols' p b" using cell h(17) by simp
  next
    fix j assume "j < length cols'"
    then show "cols' ! j \<noteq> []" "int (length (cols' ! j)) \<le> R'" "\<forall>v \<in> set (cols' ! j). small_id v" using col cl by simp_all
  qed (use ids ll cl h(2-4,7,8) i l' lin R(3) in \<open>auto simp: n_def live'_def\<close>)
  moreover have "(live', cols') = hw_remove i (live, cols)" by (simp add: live'_def cols'_def)
  ultimately show ?thesis unfolding U0'_def U1'_def by simp
qed

end
