(* ===== verification/HorusSearch.thy ===== *)
theory HorusSearch
  imports HorusIndex
begin

text \<open>
  The search of Horus over an ORAM that is a map of boxes: all positions are bisected in step, every one ends with its value, and the boxes
  for the next search counter are queued.
\<close>

section \<open>Queued boxes\<close>

definition queued :: "(bytes \<Rightarrow> nat \<Rightarrow> nat \<Rightarrow> bytes) \<Rightarrow> nat \<Rightarrow> int list \<Rightarrow> (3 Bid \<times> string) list \<Rightarrow> writes \<Rightarrow> bool" where
  "queued prg m vs es ws \<longleftrightarrow> w_result ws = vs \<and> sm_wf (w_query ws) \<and> sm_wf (w_queryID ws) \<and> sm_get (w_queryID ws) = map_of es \<and>
     (\<forall>k. sm_get (w_query ws) k = map_option (\<lambda>_. leaf_of prg m k) (map_of es k)) \<and> length (w_queryID ws) \<le> length es"

lemma sm_insert_ok:
  assumes "sm_wf m"
  shows "sm_wf (sm_insert k v m)" "sm_get (sm_insert k v m) = [k \<mapsto> v] ++ sm_get m" "length (sm_insert k v m) \<le> Suc (length m)"
  using assms length_sm_put[of k v m]
  by (auto simp: sm_insert_def sm_wf_put sm_get_put fun_eq_iff map_add_def split: option.splits)

lemma queue_box_ok:
  assumes "good_word w" "in_int32 p" "in_int32 s" "in_int32 a" "2 \<le> m" "queued prg m vs es ws"
  shows "\<exists>ws'. queue_box prg m w p s a val ws = Inr ws' \<and> queued prg m vs (es @ [(hbid w p s a, val)]) ws'"
proof -
  let ?k = "hbid w p s a" and ?l = "leaf_of prg m (hbid w p s a)"
  let ?ws = "ws\<lparr>w_query := sm_insert ?k ?l (w_query ws), w_queryID := sm_insert ?k val (w_queryID ws)\<rparr>"
  have q: "w_result ws = vs" "sm_wf (w_query ws)" "sm_wf (w_queryID ws)" "sm_get (w_queryID ws) = map_of es"
    "\<And>k. sm_get (w_query ws) k = map_option (\<lambda>_. leaf_of prg m k) (map_of es k)" "length (w_queryID ws) \<le> length es"
    using assms(6) by (simp_all add: queued_def)
  note i = sm_insert_ok[OF q(2), of ?k ?l] and j = sm_insert_ok[OF q(3), of ?k val]
  have "sm_get (w_queryID ?ws) = map_of (es @ [(?k, val)])" using j(2) q(4) by simp
  moreover have "sm_get (w_query ?ws) k = map_option (\<lambda>_. leaf_of prg m k) (map_of (es @ [(?k, val)]) k)" for k
    using i(2) q(5)[of k] by (auto simp: map_add_def split: option.splits)
  moreover have "length (w_queryID ?ws) \<le> length (es @ [(?k, val)])" using j(3) q(6) by simp
  ultimately have "queued prg m vs (es @ [(?k, val)]) ?ws" using q(1) i(1) j(1) unfolding queued_def by simp
  then show ?thesis using generatePosition_ok(1)[OF assms(1-5), of prg] by (simp add: queue_box_def oram_bid_ok[OF assms(1)])
qed

text \<open>What is queued for a position \<open>p\<close> whose value \<open>v\<close> was found at the access counter \<open>hi\<close>.\<close>

fun marks :: "string \<Rightarrow> int \<Rightarrow> int \<times> int \<times> int \<Rightarrow> (3 Bid \<times> string) list" where
  "marks w s (p, hi, v) = (hbid w p s hi, to_string v) # (if 1 < hi then [(hbid w p s 1, ''@'' @ to_string hi)] else [])"

definition found_rows :: "(bytes \<Rightarrow> nat \<Rightarrow> nat \<Rightarrow> bytes) \<Rightarrow> nat \<Rightarrow> string \<Rightarrow> int \<Rightarrow> (int \<times> int \<times> int) list \<Rightarrow> writes \<Rightarrow> bool" where
  "found_rows prg m w s xs ws \<longleftrightarrow> queued prg m (map (\<lambda>(_, _, v). v) xs) (concat (map (marks w s) xs)) ws"

lemma row_found_ok:
  assumes "good_word w" "in_int32 p" "in_int32 (src + 1)" "in_int32 hi" "2 \<le> m" "in_int32 v" "found_rows prg m w (src + 1) xs ws"
    and "lastID r = to_string v" "lastAcc r = hi"
  shows "\<exists>ws'. row_found prg m w src p r ws = Inr ws' \<and> found_rows prg m w (src + 1) (xs @ [(p, hi, v)]) ws'"
proof -
  let ?vs = "map (\<lambda>(_, _, v). v) (xs @ [(p, hi, v)])" and ?es = "concat (map (marks w (src + 1)) xs)"
  have "queued prg m ?vs ?es (ws\<lparr>w_result := w_result ws @ [v]\<rparr>)" using assms(7) by (simp add: found_rows_def queued_def)
  from queue_box_ok[OF assms(1-5) this, of "to_string v"] obtain ws1 where
    ws1: "queue_box prg m w p (src + 1) hi (to_string v) (ws\<lparr>w_result := w_result ws @ [v]\<rparr>) = Inr ws1"
      "queued prg m ?vs (?es @ [(hbid w p (src + 1) hi, to_string v)]) ws1" by blast
  have s: "int32 (src + 1) = Inr (src + 1)" "in_int32 1" using assms(3) by (simp_all add: int32_def in_int32_def)
  show ?thesis
  proof (cases "1 < hi")
    case True
    from queue_box_ok[OF assms(1-3) s(2) assms(5) ws1(2), of "''@'' @ to_string hi"] ws1(1) s assms(6,8,9) True
    show ?thesis by (simp add: row_found_def found_rows_def)
  next
    case False
    with ws1 s assms(6,8,9) show ?thesis by (simp add: row_found_def found_rows_def)
  qed
qed

section \<open>One round\<close>

definition col_ok :: "(3 Bid \<Rightarrow> string option) \<Rightarrow> string \<Rightarrow> int \<Rightarrow> int \<Rightarrow> int \<Rightarrow> int \<times> int \<times> int \<Rightarrow> bool" where
  "col_ok f w s R p = (\<lambda>(lo, hi, v). column (\<lambda>a. text_at f (hbid w p s a)) R lo hi v)"

definition row_ok :: "bool \<Rightarrow> (3 Bid \<Rightarrow> string option) \<Rightarrow> string \<Rightarrow> int \<Rightarrow> int \<Rightarrow> int \<Rightarrow> int \<times> int \<times> int \<Rightarrow> srow \<Rightarrow> bool" where
  "row_ok first f w s R p c r \<longleftrightarrow> col_ok f w s R p c \<and>
     (foundItem r \<or> (if first then r = new_row R else bisecting (\<lambda>a. text_at f (hbid w p s a)) R (fst c) (fst (snd c)) r))"

fun rows_ok :: "bool \<Rightarrow> (3 Bid \<Rightarrow> string option) \<Rightarrow> string \<Rightarrow> int \<Rightarrow> int \<Rightarrow> int \<Rightarrow> (int \<times> int \<times> int) list \<Rightarrow> srow list \<Rightarrow> bool" where
  "rows_ok first f w s R p [] [] = True"
| "rows_ok first f w s R p (c # cs) (r # rs) = (row_ok first f w s R p c r \<and> rows_ok first f w s R (p + 1) cs rs)"
| "rows_ok first f w s R p _ _ = False"

text \<open>The positions that are not done, with the counter and value they will end with, and the identifiers they read.\<close>

fun waiting :: "int \<Rightarrow> (int \<times> int \<times> int) list \<Rightarrow> srow list \<Rightarrow> (int \<times> int \<times> int) list" where
  "waiting p (c # cs) (r # rs) = (if foundItem r then [] else [(p, snd c)]) @ waiting (p + 1) cs rs"
| "waiting p _ _ = []"

fun reads :: "string \<Rightarrow> int \<Rightarrow> int \<Rightarrow> srow list \<Rightarrow> 3 Bid list" where
  "reads w s p [] = []"
| "reads w s p (r # rs) = (if foundItem r then [] else [hbid w p s (curValue r)]) @ reads w s (p + 1) rs"

lemma row_step:
  assumes "row_ok first f w s R p (lo, hi, v) r" "\<not> foundItem r"
  shows "\<exists>r'. (if first then first_step (text_at f (hbid w p s (curValue r))) r else next_step (text_at f (hbid w p s (curValue r))) r) = Inr r' \<and>
    row_ok False f w s R p (lo, hi, v) r' \<and> (foundItem r' \<longrightarrow> lastID r' = to_string v \<and> lastAcc r' = hi) \<and>
    (\<not> first \<longrightarrow> \<not> foundItem r' \<longrightarrow> rounds_left r' < rounds_left r)"
proof -
  let ?g = "\<lambda>a. text_at f (hbid w p s a)"
  have c: "column ?g R lo hi v" using assms(1) by (simp add: row_ok_def col_ok_def)
  show ?thesis
  proof (cases first)
    case True
    then have r: "r = new_row R" using assms by (simp add: row_ok_def)
    have cv: "curValue (new_row R) = 1" by (simp add: new_row_def)
    from first_step_ok[OF c] obtain r' where r': "first_step (?g 1) (new_row R) = Inr r'" "bisecting ?g R lo hi r'" by blast
    then have "\<not> foundItem r'" by (simp add: bisecting_def)
    with r' c True show ?thesis unfolding r cv by (intro exI[of _ r']) (simp add: row_ok_def col_ok_def)
  next
    case False
    then have "bisecting ?g R lo hi r" using assms by (simp add: row_ok_def)
    from next_step_ok[OF c this] obtain r' where r': "next_step (?g (curValue r)) r = Inr r'"
      "if foundItem r' then lastID r' = to_string v \<and> lastAcc r' = hi else bisecting ?g R lo hi r' \<and> rounds_left r' < rounds_left r" by blast
    with c False show ?thesis by (intro exI[of _ r']) (auto simp: row_ok_def col_ok_def split: if_splits)
  qed
qed

lemma row_ok_cur:
  assumes "row_ok first f w s R p (lo, hi, v) r" "\<not> foundItem r"
  shows "in_int32 (curValue r)" "in_int32 hi" "in_int32 v"
proof -
  have c: "1 \<le> lo" "lo \<le> hi" "hi \<le> R" "in_int32 (2 * R)" "in_int32 v" using assms by (simp_all add: row_ok_def col_ok_def column_def)
  then show "in_int32 hi" "in_int32 v" by (simp_all add: in_int32_def)
  show "in_int32 (curValue r)"
    using assms c by (cases first) (auto simp: row_ok_def new_row_def bisecting_def in_int32_def)
qed

lemma rows_ok_Cons: "rows_ok first f w s R p cs (r # rs) \<longleftrightarrow>
    (\<exists>lo hi v cs'. cs = (lo, hi, v) # cs' \<and> row_ok first f w s R p (lo, hi, v) r \<and> rows_ok first f w s R (p + 1) cs' rs)"
  by (cases cs) auto

lemma query_rows_ok:
  assumes "good_word w" "2 \<le> m" "in_int32 s" "rows_ok first f w s R p cs rs" "1 \<le> p" "in_int32 (p + int (length rs))"
  shows "query_rows prg m w s p rs = Inr (map (\<lambda>k. (k, leaf_of prg m k)) (reads w s p rs)) \<and>
    (\<forall>k \<in> set (reads w s p rs). leaf_of prg m k < 2 ^ floor_log2 m)"
  using assms(4-6)
proof (induction rs arbitrary: p cs)
  case Nil
  then show ?case by simp
next
  case (Cons r rs)
  from Cons.prems(1) obtain lo hi v cs' where c: "row_ok first f w s R p (lo, hi, v) r" "rows_ok first f w s R (p + 1) cs' rs"
    by (auto simp: rows_ok_Cons)
  have p: "in_int32 p" "in_int32 (p + 1 + int (length rs))" using Cons.prems(2,3) by (simp_all add: in_int32_def)
  have IH: "query_rows prg m w s (p + 1) rs = Inr (map (\<lambda>k. (k, leaf_of prg m k)) (reads w s (p + 1) rs))"
    "\<forall>k \<in> set (reads w s (p + 1) rs). leaf_of prg m k < 2 ^ floor_log2 m" using Cons.IH[OF c(2) _ p(2)] Cons.prems(2) by simp_all
  show ?case
  proof (cases "foundItem r")
    case True
    then show ?thesis using IH by simp
  next
    case False
    from generatePosition_ok[OF assms(1) p(1) assms(3) row_ok_cur(1)[OF c(1) False] assms(2), of prg] show ?thesis
      using IH False by (simp add: oram_bid_ok[OF assms(1)])
  qed
qed

lemma answer_rows_ok:
  assumes "good_word w" "2 \<le> m" "in_int32 (src + 1)"
    and "rows_ok first f w src R p cs rs" "1 \<le> p" "in_int32 (p + int (length rs))" "found_rows prg m w (src + 1) xs ws"
    and "\<not> first \<longrightarrow> (\<forall>r \<in> set rs. \<not> foundItem r \<longrightarrow> rounds_left r \<le> b)"
  shows "\<exists>rs' ws' xs'. answer_rows prg m w src first p rs (map (text_at f) (reads w src p rs)) ws = Inr (rs', ws') \<and>
    found_rows prg m w (src + 1) xs' ws' \<and> rows_ok False f w src R p cs rs' \<and> length rs' = length rs \<and>
    mset xs' + mset (waiting p cs rs') = mset xs + mset (waiting p cs rs) \<and>
    (\<not> first \<longrightarrow> (\<forall>r \<in> set rs'. \<not> foundItem r \<longrightarrow> rounds_left r < b))"
  using assms(4-8)
proof (induction rs arbitrary: p cs xs ws)
  case Nil
  then have "cs = []" by (cases cs) simp_all
  with Nil show ?case by auto
next
  case (Cons r rs)
  from Cons.prems(1) obtain lo hi v cs' where cs: "cs = (lo, hi, v) # cs'" and c: "row_ok first f w src R p (lo, hi, v) r"
    "rows_ok first f w src R (p + 1) cs' rs" by (auto simp: rows_ok_Cons)
  have p: "in_int32 p" "1 \<le> p + 1" "in_int32 (p + 1 + int (length rs))" using Cons.prems(2,3) by (simp_all add: in_int32_def)
  have b: "\<not> first \<longrightarrow> (\<forall>r \<in> set rs. \<not> foundItem r \<longrightarrow> rounds_left r \<le> b)" using Cons.prems(5) by simp
  note IH = Cons.IH[OF c(2) p(2,3) _ b]
  show ?case
  proof (cases "foundItem r")
    case True
    from IH[OF Cons.prems(4)] obtain rs' ws' xs' where
      "answer_rows prg m w src first (p + 1) rs (map (text_at f) (reads w src (p + 1) rs)) ws = Inr (rs', ws')"
      "found_rows prg m w (src + 1) xs' ws'" "rows_ok False f w src R (p + 1) cs' rs'" "length rs' = length rs"
      "mset xs' + mset (waiting (p + 1) cs' rs') = mset xs + mset (waiting (p + 1) cs' rs)"
      "\<not> first \<longrightarrow> (\<forall>r \<in> set rs'. \<not> foundItem r \<longrightarrow> rounds_left r < b)" by blast
    moreover have "row_ok False f w src R p (lo, hi, v) r" using c(1) True by (simp add: row_ok_def)
    ultimately show ?thesis using True by (intro exI[of _ "r # rs'"] exI[of _ ws'] exI[of _ xs']) (simp add: cs)
  next
    case False
    from row_step[OF c(1) False] obtain r' where
      r': "(if first then first_step (text_at f (hbid w p src (curValue r))) r else next_step (text_at f (hbid w p src (curValue r))) r) = Inr r'"
        "row_ok False f w src R p (lo, hi, v) r'" "foundItem r' \<longrightarrow> lastID r' = to_string v \<and> lastAcc r' = hi"
        "\<not> first \<longrightarrow> \<not> foundItem r' \<longrightarrow> rounds_left r' < rounds_left r" by blast
    have rb: "\<not> first \<longrightarrow> \<not> foundItem r' \<longrightarrow> rounds_left r' < b" using r'(4) Cons.prems(5) False by fastforce
    define xs1 where "xs1 = (if foundItem r' then xs @ [(p, hi, v)] else xs)"
    obtain ws1 where ws1: "(if foundItem r' then row_found prg m w src p r' ws else Inr ws) = Inr ws1" "found_rows prg m w (src + 1) xs1 ws1"
    proof (cases "foundItem r'")
      case True
      then show ?thesis
        using row_found_ok[OF assms(1) p(1) assms(3) row_ok_cur(2)[OF c(1) False] assms(2) row_ok_cur(3)[OF c(1) False] Cons.prems(4), of r'] r'(3) that
        by (auto simp: xs1_def)
    next
      case False
      then show ?thesis using Cons.prems(4) that by (simp add: xs1_def)
    qed
    from IH[OF ws1(2)] obtain rs' ws' xs' where
      "answer_rows prg m w src first (p + 1) rs (map (text_at f) (reads w src (p + 1) rs)) ws1 = Inr (rs', ws')"
      "found_rows prg m w (src + 1) xs' ws'" "rows_ok False f w src R (p + 1) cs' rs'" "length rs' = length rs"
      "mset xs' + mset (waiting (p + 1) cs' rs') = mset xs1 + mset (waiting (p + 1) cs' rs)"
      "\<not> first \<longrightarrow> (\<forall>r \<in> set rs'. \<not> foundItem r \<longrightarrow> rounds_left r < b)" by blast
    then show ?thesis using False r'(1,2) ws1(1) rb
      by (intro exI[of _ "r' # rs'"] exI[of _ ws'] exI[of _ xs']) (simp add: cs xs1_def split del: if_split, simp split: if_split)
  qed
qed

section \<open>All rounds\<close>

lemma waiting_done: "list_all foundItem rs \<Longrightarrow> waiting p cs rs = []"
  by (induction p cs rs rule: waiting.induct) auto

lemma rows_ok_bisecting:
  assumes "rows_ok False f w s R p cs rs" "r \<in> set rs" "\<not> foundItem r"
  shows "rounds_left r \<le> 2 * nat R + 1"
proof -
  obtain p' lo hi v where "row_ok False f w s R p' (lo, hi, v) r"
    using assms(1,2) by (induction rs arbitrary: p cs) (auto simp: rows_ok_Cons)
  with assms(3) have "1 \<le> lo" "lo \<le> r_left r" "r_right r \<le> R" by (auto simp: row_ok_def col_ok_def column_def bisecting_def)
  then show ?thesis by (auto simp: rounds_left_def)
qed

lemma search_round:
  assumes "prf_map (leaf_of prg m) (floor_log2 m) s f" "good_word w" "2 \<le> m" "in_int32 src" "in_int32 (src + 1)"
    and "rows_ok first f w src R 1 cs rs" "in_int32 (1 + int (length rs))" "found_rows prg m w (src + 1) xs ws"
    and "\<not> first \<longrightarrow> (\<forall>r \<in> set rs. \<not> foundItem r \<longrightarrow> rounds_left r \<le> b)" "\<not> list_all foundItem rs"
  shows "\<exists>rs' ws' xs' s'. search_loop prg m w src (Suc fuel) first rs ws s = search_loop prg m w src fuel False rs' ws' s' \<and>
    prf_map (leaf_of prg m) (floor_log2 m) s' f \<and> emptyNodes (p_store s') = emptyNodes (p_store s) \<and> found_rows prg m w (src + 1) xs' ws' \<and>
    rows_ok False f w src R 1 cs rs' \<and> length rs' = length rs \<and> mset xs' + mset (waiting 1 cs rs') = mset xs + mset (waiting 1 cs rs) \<and>
    (\<not> first \<longrightarrow> (\<forall>r \<in> set rs'. \<not> foundItem r \<longrightarrow> rounds_left r < b))"
proof -
  note q = query_rows_ok[OF assms(2-4,6) order_refl assms(7), of prg]
  from prf_batchRead[OF assms(1) conjunct2[OF q]] obtain s' where
    s': "batchRead (map (\<lambda>k. (k, leaf_of prg m k)) (reads w src 1 rs)) s = Inr (s', map (text_at f) (reads w src 1 rs))"
      "prf_map (leaf_of prg m) (floor_log2 m) s' f" "emptyNodes (p_store s') = emptyNodes (p_store s)" by blast
  from answer_rows_ok[OF assms(2,3,5,6) order_refl assms(7-9)] obtain rs' ws' xs' where
    a: "answer_rows prg m w src first 1 rs (map (text_at f) (reads w src 1 rs)) ws = Inr (rs', ws')" "found_rows prg m w (src + 1) xs' ws'"
      "rows_ok False f w src R 1 cs rs'" "length rs' = length rs"
      "mset xs' + mset (waiting 1 cs rs') = mset xs + mset (waiting 1 cs rs)"
      "\<not> first \<longrightarrow> (\<forall>r \<in> set rs'. \<not> foundItem r \<longrightarrow> rounds_left r < b)" by blast
  have "search_loop prg m w src (Suc fuel) first rs ws s = search_loop prg m w src fuel False rs' ws' s'"
    using conjunct1[OF q] s'(1) a(1) assms(10) by simp
  with s' a show ?thesis by (intro exI[of _ rs'] exI[of _ ws'] exI[of _ xs'] exI[of _ s']) blast
qed

lemma search_loop_ok:
  assumes "prf_map (leaf_of prg m) (floor_log2 m) s f" "good_word w" "2 \<le> m" "in_int32 src" "in_int32 (src + 1)"
    and "rows_ok False f w src R 1 cs rs" "in_int32 (1 + int (length rs))" "found_rows prg m w (src + 1) xs ws"
    and "\<forall>r \<in> set rs. \<not> foundItem r \<longrightarrow> Suc (rounds_left r) < fuel" "0 < fuel"
  shows "\<exists>ws' s' xs'. search_loop prg m w src fuel False rs ws s = Inr (ws', s') \<and> prf_map (leaf_of prg m) (floor_log2 m) s' f \<and>
    emptyNodes (p_store s') = emptyNodes (p_store s) \<and> found_rows prg m w (src + 1) xs' ws' \<and> mset xs' = mset xs + mset (waiting 1 cs rs)"
  using assms(1,6-10)
proof (induction fuel arbitrary: s rs ws xs)
  case 0
  then show ?case by simp
next
  case (Suc fuel)
  show ?case
  proof (cases "list_all foundItem rs")
    case True
    with Suc.prems show ?thesis by (auto simp: waiting_done)
  next
    case False
    then obtain r where "r \<in> set rs" "\<not> foundItem r" by (auto simp: list_all_iff)
    with Suc.prems(5) have f0: "0 < fuel" by fastforce
    have "\<not> False \<longrightarrow> (\<forall>r \<in> set rs. \<not> foundItem r \<longrightarrow> rounds_left r \<le> fuel - 1)" using Suc.prems(5) by fastforce
    from search_round[OF Suc.prems(1) assms(2-5) Suc.prems(2-4) this False, of fuel] obtain rs' ws' xs' s' where
      r: "search_loop prg m w src (Suc fuel) False rs ws s = search_loop prg m w src fuel False rs' ws' s'"
        "prf_map (leaf_of prg m) (floor_log2 m) s' f" "emptyNodes (p_store s') = emptyNodes (p_store s)" "found_rows prg m w (src + 1) xs' ws'"
        "rows_ok False f w src R 1 cs rs'" "length rs' = length rs" "mset xs' + mset (waiting 1 cs rs') = mset xs + mset (waiting 1 cs rs)"
        "\<forall>r \<in> set rs'. \<not> foundItem r \<longrightarrow> rounds_left r < fuel - 1" by blast
    have "\<forall>r \<in> set rs'. \<not> foundItem r \<longrightarrow> Suc (rounds_left r) < fuel" using r(8) by fastforce
    from Suc.IH[OF r(2,5) _ r(4) this f0] Suc.prems(3) r(3,6) obtain ws2 s2 xs2 where
      "search_loop prg m w src fuel False rs' ws' s' = Inr (ws2, s2)" "prf_map (leaf_of prg m) (floor_log2 m) s2 f"
      "emptyNodes (p_store s2) = emptyNodes (p_store s)" "found_rows prg m w (src + 1) xs2 ws2" "mset xs2 = mset xs' + mset (waiting 1 cs rs')" by auto
    with r(1,7) show ?thesis by auto
  qed
qed

text \<open>The positions of a keyword, counted from \<open>p\<close>, with the counter and the value of each.\<close>

fun tags :: "int \<Rightarrow> (int \<times> int \<times> int) list \<Rightarrow> (int \<times> int \<times> int) list" where
  "tags p [] = []"
| "tags p (c # cs) = (p, snd c) # tags (p + 1) cs"

lemma waiting_new: "waiting p cs (replicate (length cs) (new_row R)) = tags p cs"
  by (induction cs arbitrary: p) (simp_all add: new_row_def)

lemma rows_ok_new: "\<forall>i < length cs. col_ok f w s R (p + int i) (cs ! i) \<Longrightarrow> rows_ok True f w s R p cs (replicate (length cs) (new_row R))"
  by (induction cs arbitrary: p) (simp_all add: row_ok_def All_less_Suc2 add.assoc add.commute[of 1])

lemma search_start:
  assumes "prf_map (leaf_of prg m) (floor_log2 m) s f" "good_word w" "2 \<le> m" "in_int32 src" "in_int32 (src + 1)"
    and "\<forall>i < length cs. col_ok f w src R (1 + int i) (cs ! i)" "in_int32 (1 + int (length cs))"
  shows "\<exists>ws s' xs. search_loop prg m w src (search_fuel R) True (replicate (length cs) (new_row R)) \<lparr>w_result = [], w_query = [], w_queryID = []\<rparr> s =
      Inr (ws, s') \<and> prf_map (leaf_of prg m) (floor_log2 m) s' f \<and> emptyNodes (p_store s') = emptyNodes (p_store s) \<and>
    found_rows prg m w (src + 1) xs ws \<and> mset xs = mset (tags 1 cs)"
proof -
  let ?ws = "\<lparr>w_result = [], w_query = [], w_queryID = []\<rparr>" and ?rs = "replicate (length cs) (new_row R)"
  have q0: "found_rows prg m w (src + 1) [] ?ws" by (simp add: found_rows_def queued_def)
  show ?thesis
  proof (cases "cs = []")
    case True
    then show ?thesis using assms(1) q0 by (intro exI[of _ ?ws] exI[of _ s] exI[of _ "[]"]) (simp add: search_fuel_def numeral_eq_Suc)
  next
    case False
    then have n: "\<not> list_all foundItem ?rs" by (simp add: new_row_def list_all_iff)
    obtain k where k: "search_fuel R = Suc k" "k = 2 * nat R + 4" by (simp add: search_fuel_def)
    have l: "in_int32 (1 + int (length ?rs))" using assms(7) by simp
    from search_round[OF assms(1-5) rows_ok_new[OF assms(6)] l q0 _ n, of 0 k] obtain rs' ws' xs' s' where
      r: "search_loop prg m w src (Suc k) True ?rs ?ws s = search_loop prg m w src k False rs' ws' s'"
        "prf_map (leaf_of prg m) (floor_log2 m) s' f" "emptyNodes (p_store s') = emptyNodes (p_store s)" "found_rows prg m w (src + 1) xs' ws'"
        "rows_ok False f w src R 1 cs rs'" "length rs' = length ?rs" "mset xs' + mset (waiting 1 cs rs') = mset [] + mset (waiting 1 cs ?rs)"
      by blast
    have "\<forall>r \<in> set rs'. \<not> foundItem r \<longrightarrow> Suc (rounds_left r) < k" using rows_ok_bisecting[OF r(5)] k(2) by fastforce
    from search_loop_ok[OF r(2) assms(2-5) r(5) _ r(4) this] l r(3,6) k(2) obtain ws2 s2 xs2 where
      "search_loop prg m w src k False rs' ws' s' = Inr (ws2, s2)" "prf_map (leaf_of prg m) (floor_log2 m) s2 f"
      "emptyNodes (p_store s2) = emptyNodes (p_store s)" "found_rows prg m w (src + 1) xs2 ws2" "mset xs2 = mset xs' + mset (waiting 1 cs rs')" by auto
    with r(1,7) show ?thesis unfolding k(1) by (auto simp: waiting_new)
  qed
qed

section \<open>Writing the results back\<close>

lemma same_keys:
  assumes "sm_wf a" "sm_wf b" "\<And>k. sm_get a k = None \<longleftrightarrow> sm_get b k = None"
  shows "map fst a = map fst b"
proof -
  have "k \<in> fst ` set a \<longleftrightarrow> k \<in> fst ` set b" for k using assms(3)[of k] by (simp add: map_of_eq_None_iff)
  then have "set (map fst a) = set (map fst b)" by auto
  then show ?thesis using assms(1,2) by (intro strict_sorted_equal) (simp_all add: sm_wf_def)
qed

text \<open>Two maps with the same keys, the second with the positions, are a batch of writes.\<close>

lemma entries_okI:
  assumes "sm_wf vals" "sm_wf poses" "\<And>k. sm_get poses k = map_option (\<lambda>_. posf k) (sm_get vals k)"
    and "\<And>k v. sm_get vals k = Some v \<Longrightarrow> box_id k \<and> good_value v \<and> posf k < 2 ^ d"
  shows "entries_ok posf d vals poses"
proof -
  have k: "map fst vals = map fst poses" by (rule same_keys[OF assms(1,2)]) (simp add: assms(3))
  then have l: "length vals = length poses" by (metis length_map)
  have "snd (poses ! i) = posf (fst (vals ! i))" if i: "i < length vals" for i
  proof -
    have "fst (vals ! i) = fst (poses ! i)" using k i l by (metis nth_map)
    moreover have "(fst (poses ! i), snd (poses ! i)) \<in> set poses" using i l by simp
    then have "sm_get poses (fst (poses ! i)) = Some (snd (poses ! i))" using sm_in_set_iff[OF assms(2)] by blast
    ultimately show ?thesis using assms(3)[of "fst (poses ! i)"] by auto
  qed
  moreover have "\<forall>(k, v) \<in> set vals. box_id k \<and> good_value v \<and> posf k < 2 ^ d" using assms(4) sm_in_set_iff[OF assms(1)] by auto
  ultimately show ?thesis using l by (simp add: entries_ok_def)
qed

definition tag_ok :: "int \<times> int \<times> int \<Rightarrow> bool" where
  "tag_ok = (\<lambda>(p, hi, v). 1 \<le> p \<and> in_int32 p \<and> 1 \<le> hi \<and> in_int32 hi \<and> in_int32 v)"

lemma marks_in:
  assumes "(k, x) \<in> set (concat (map (marks w s) xs))" "\<forall>t \<in> set xs. tag_ok t"
  obtains p a where "k = hbid w p s a" "1 \<le> p" "in_int32 p" "1 \<le> a" "in_int32 a" "good_value x"
proof -
  from assms obtain p hi v where t: "(k, x) \<in> set (marks w s (p, hi, v))" "tag_ok (p, hi, v)" by auto
  then have o: "1 \<le> p" "in_int32 p" "1 \<le> hi" "in_int32 hi" "in_int32 v" "in_int32 1" by (simp_all add: tag_ok_def in_int32_def)
  have "good_value (''@'' @ to_string hi)" using to_string_good[OF o(4)] length_to_string_int32[OF o(4)] by (simp add: good_value_def)
  with t(1) to_string_good[OF o(5)] consider "k = hbid w p s hi" "good_value x" | "k = hbid w p s 1" "good_value x"
    by (auto split: if_splits)
  then show thesis by cases (use that o in \<open>blast, force\<close>)
qed

lemma marks_get:
  assumes "good_word w" "in_int32 s" "\<forall>t \<in> set xs. tag_ok t" "distinct (map fst xs)" "(p, hi, v) \<in> set xs" "in_int32 a"
  shows "map_of (concat (map (marks w s) xs)) (hbid w p s a) =
    (if a = hi then Some (to_string v) else if a = 1 then Some (''@'' @ to_string hi) else None)"
  using assms(3-5)
proof (induction xs)
  case Nil
  then show ?case by simp
next
  case (Cons t xs)
  obtain p' hi' v' where t: "t = (p', hi', v')" by (cases t)
  have o: "1 \<le> p'" "in_int32 p'" "1 \<le> hi'" "in_int32 hi'" "in_int32 1" "tag_ok (p, hi, v)" using Cons.prems(1,3)
    by (auto simp: t tag_ok_def in_int32_def)
  then have p: "in_int32 p" "1 \<le> hi" by (simp_all add: tag_ok_def)
  note inj = hbid_inj[OF assms(1,1) p(1) o(2) assms(2,2,6)]
  show ?case
  proof (cases "p = p'")
    case True
    then have e: "hi' = hi" "v' = v" using Cons.prems(2,3) by (auto simp: t image_iff)
    have "map_of (concat (map (marks w s) xs)) (hbid w p s a) = None"
    proof (rule ccontr)
      assume "\<not> ?thesis"
      then obtain x where "(hbid w p s a, x) \<in> set (concat (map (marks w s) xs))" by (auto dest: map_of_SomeD)
      then obtain q h u where q: "(q, h, u) \<in> set xs" "(hbid w p s a, x) \<in> set (marks w s (q, h, u))" by auto
      then have "tag_ok (q, h, u)" using Cons.prems(1) by simp
      then have "in_int32 q" "in_int32 h" by (simp_all add: tag_ok_def)
      with q(2) have "q = p" using hbid_inj[OF assms(1,1) p(1) _ assms(2,2,6)] o(5) by (auto split: if_splits)
      then have "p \<in> fst ` set xs" using q(1) by force
      then show False using Cons.prems(2) True by (simp add: t)
    qed
    then show ?thesis using inj[OF o(4)] inj[OF o(5)] o(3) True p(2) by (auto simp: t e map_add_def)
  next
    case False
    then have "map_of (marks w s t) (hbid w p s a) = None" using inj[OF o(4)] inj[OF o(5)] by (auto simp: t)
    moreover have "(p, hi, v) \<in> set xs" using Cons.prems(3) False by (simp add: t)
    ultimately show ?thesis using Cons.IH Cons.prems(1,2) by (simp add: map_add_def split: option.split)
  qed
qed

lemma tags_facts:
  "distinct (map fst (tags p cs))" "map (\<lambda>(_, _, v). v) (tags p cs) = map (\<lambda>(_, _, v). v) cs" "length (tags p cs) = length cs"
  "i < length cs \<Longrightarrow> (p + int i, snd (cs ! i)) \<in> set (tags p cs)" "t \<in> set (tags p cs) \<Longrightarrow> \<exists>i < length cs. t = (p + int i, snd (cs ! i))"
proof -
  have b: "p \<le> fst t" if "t \<in> set (tags p cs)" for p t cs using that by (induction cs arbitrary: p) force+
  show "distinct (map fst (tags p cs))" by (induction cs arbitrary: p) (use b in \<open>force+\<close>)
  show "map (\<lambda>(_, _, v). v) (tags p cs) = map (\<lambda>(_, _, v). v) cs" by (induction cs arbitrary: p) (auto simp: case_prod_beta)
  show "length (tags p cs) = length cs" by (induction cs arbitrary: p) simp_all
  have s: "set (tags p cs) = (\<lambda>i. (p + int i, snd (cs ! i))) ` {..<length cs}" for p
  proof (induction cs arbitrary: p)
    case (Cons c cs)
    have "{..<length (c # cs)} = insert 0 (Suc ` {..<length cs})" by (simp add: lessThan_Suc_eq_insert_0)
    then show ?case using Cons[of "p + 1"] by (simp add: image_image add.assoc)
  qed simp
  show "i < length cs \<Longrightarrow> (p + int i, snd (cs ! i)) \<in> set (tags p cs)" by (auto simp: s)
  show "t \<in> set (tags p cs) \<Longrightarrow> \<exists>i < length cs. t = (p + int i, snd (cs ! i))" by (auto simp: s)
qed

section \<open>The invariant of the search index\<close>

definition word_cols :: "(3 Bid \<Rightarrow> string option) \<Rightarrow> string \<Rightarrow> int \<Rightarrow> int \<Rightarrow> int \<Rightarrow> int list \<Rightarrow> bool" where
  "word_cols f w s R n vs \<longleftrightarrow> n = int (length vs) \<and> 0 \<le> s \<and> in_int32 s \<and> in_int32 (1 + n) \<and>
     (\<exists>cs. map (\<lambda>(_, _, v). v) cs = vs \<and> (\<forall>i < length cs. col_ok f w s R (1 + int i) (cs ! i))) \<and>
     (\<forall>p s' a. s < s' \<and> in_int32 p \<and> in_int32 s' \<and> in_int32 a \<longrightarrow> f (hbid w p s' a) = None)"

definition search_inv :: "(bytes \<Rightarrow> nat \<Rightarrow> nat \<Rightarrow> bytes) \<Rightarrow> (string \<Rightarrow> int list) \<Rightarrow> horus \<Rightarrow> bool" where
  "search_inv prg V st \<longleftrightarrow> 2 \<le> h_maxSize st \<and>
     (\<exists>f. prf_map (leaf_of prg (h_maxSize st)) (floor_log2 (h_maxSize st)) (ORAM_srch st) f \<and>
       (\<forall>w. good_word w \<longrightarrow> word_cols f w (count_of (SrchCnt st) w) (count_of (h_Access st) w) (count_of (h_UpdtCnt st) w) (V w)))"

lemma column_cong:
  assumes "column g R lo hi v" "\<And>a. 1 \<le> a \<Longrightarrow> a \<le> R \<Longrightarrow> g' a = g a"
  shows "column g' R lo hi v"
proof -
  have c: "1 \<le> lo" "lo \<le> hi" "hi \<le> R" using assms(1) by (simp_all add: column_def)
  then have "g' 1 = g 1" "\<And>a. lo \<le> a \<Longrightarrow> a \<le> R \<Longrightarrow> g' a = g a" using assms(2) by auto
  then show ?thesis using assms(1) c unfolding column_def by auto
qed

lemma column_int32: "column g R lo hi v \<Longrightarrow> 1 \<le> a \<Longrightarrow> a \<le> R \<Longrightarrow> in_int32 a"
  by (simp add: column_def in_int32_def)

lemma word_cols_cong:
  assumes "word_cols f w s R n vs" "\<And>p s a. in_int32 p \<Longrightarrow> in_int32 s \<Longrightarrow> in_int32 a \<Longrightarrow> f' (hbid w p s a) = f (hbid w p s a)"
  shows "word_cols f' w s R n vs"
proof -
  from assms(1) obtain cs where w: "n = int (length vs)" "0 \<le> s" "in_int32 s" "in_int32 (1 + n)" "map (\<lambda>(_, _, v). v) cs = vs"
    "\<forall>i < length cs. col_ok f w s R (1 + int i) (cs ! i)" "\<forall>p s' a. s < s' \<and> in_int32 p \<and> in_int32 s' \<and> in_int32 a \<longrightarrow> f (hbid w p s' a) = None"
    unfolding word_cols_def by blast
  have l: "length cs = length vs" using w(5) by auto
  have "col_ok f' w s R (1 + int i) (cs ! i)" if i: "i < length cs" for i
  proof -
    have p: "in_int32 (1 + int i)" using i w(1,4) l by (simp add: in_int32_def)
    obtain lo hi v where c: "cs ! i = (lo, hi, v)" by (cases "cs ! i")
    with w(6) i have g: "column (\<lambda>a. text_at f (hbid w (1 + int i) s a)) R lo hi v" by (auto simp: col_ok_def)
    have "text_at f' (hbid w (1 + int i) s a) = text_at f (hbid w (1 + int i) s a)" if "1 \<le> a" "a \<le> R" for a
      using assms(2)[OF p w(3) column_int32[OF g that]] by simp
    from column_cong[OF g this] show ?thesis by (simp add: col_ok_def c)
  qed
  then show ?thesis using w(1-5,7) assms(2) unfolding word_cols_def by auto
qed

text \<open>After a search the values of the keyword are at the next search counter, one box each, and a marker where the access counter is not 1.\<close>

lemma word_cols_search:
  assumes wc: "word_cols f w s R n vs" and cs: "map (\<lambda>(_, _, v). v) cs = vs" "\<forall>i < length cs. col_ok f w s R (1 + int i) (cs ! i)"
    and w: "good_word w" and s1: "in_int32 (s + 1)" and xs: "mset xs = mset (tags 1 cs)"
  shows "\<forall>t \<in> set xs. tag_ok t" "word_cols (f ++ map_of (concat (map (marks w (s + 1)) xs))) w (s + 1) R n vs"
proof -
  have k: "n = int (length vs)" "0 \<le> s" "in_int32 s" "in_int32 (1 + n)" "length cs = length vs"
    "\<And>p s' a. s < s' \<Longrightarrow> in_int32 p \<Longrightarrow> in_int32 s' \<Longrightarrow> in_int32 a \<Longrightarrow> f (hbid w p s' a) = None"
    using wc cs(1) unfolding word_cols_def by auto
  have set: "set xs = set (tags 1 cs)" using xs by (rule mset_eq_setD)
  have p32: "in_int32 (1 + int i)" if "i < length cs" for i using that k(1,4,5) by (simp add: in_int32_def)
  have c: "\<exists>lo hi v. cs ! i = (lo, hi, v) \<and> 1 \<le> hi \<and> hi \<le> R \<and> in_int32 (2 * R) \<and> in_int32 hi \<and> in_int32 v" if "i < length cs" for i
    using cs(2) that by (cases "cs ! i") (auto simp: col_ok_def column_def in_int32_def)
  show t: "\<forall>t \<in> set xs. tag_ok t"
  proof
    fix t assume "t \<in> set xs"
    then obtain i where "i < length cs" "t = (1 + int i, snd (cs ! i))" using tags_facts(5)[of t 1 cs] set by blast
    then show "tag_ok t" using c[of i] p32[of i] by (auto simp: tag_ok_def)
  qed
  let ?es = "concat (map (marks w (s + 1)) xs)" and ?f = "f ++ map_of (concat (map (marks w (s + 1)) xs))"
  have "distinct xs" using tags_facts(1)[of 1 cs] xs by (metis distinct_map mset_eq_imp_distinct_iff)
  then have d: "distinct (map fst xs)" using tags_facts(1)[of 1 cs] set by (simp add: distinct_map)
  have "\<exists>c. snd (snd c) = snd (snd (cs ! i)) \<and> col_ok ?f w (s + 1) R (1 + int i) c" if i: "i < length cs" for i
  proof -
    from c[OF i] obtain lo hi v where h: "cs ! i = (lo, hi, v)" "1 \<le> hi" "hi \<le> R" "in_int32 (2 * R)" "in_int32 hi" "in_int32 v" by blast
    then have m: "(1 + int i, hi, v) \<in> set xs" using tags_facts(4)[OF i, of 1] set by simp
    have g: "?f (hbid w (1 + int i) (s + 1) a) = (if a = hi then Some (to_string v) else if a = 1 then Some (''@'' @ to_string hi) else None)"
      if "in_int32 a" for a
      using marks_get[OF w s1 t d m that] k(6)[OF _ p32[OF i] s1 that] by (simp add: map_add_def split: option.split)
    have "in_int32 a" if "1 \<le> a" "a \<le> R" for a using that h(4) by (simp add: in_int32_def)
    then have "column (\<lambda>a. text_at ?f (hbid w (1 + int i) (s + 1) a)) R hi hi v"
      unfolding column_def using g h by auto
    then show ?thesis by (intro exI[of _ "(hi, hi, v)"]) (simp add: col_ok_def h(1))
  qed
  then obtain c' where c': "\<And>i. i < length cs \<Longrightarrow> snd (snd (c' i)) = snd (snd (cs ! i)) \<and> col_ok ?f w (s + 1) R (1 + int i) (c' i)" by metis
  have "map (\<lambda>(_, _, v). v) (map c' [0..<length cs]) = vs"
    unfolding cs(1)[symmetric] by (rule nth_equalityI) (use c' in \<open>simp_all add: case_prod_beta\<close>)
  moreover have "\<forall>i < length (map c' [0..<length cs]). col_ok ?f w (s + 1) R (1 + int i) (map c' [0..<length cs] ! i)" using c' by simp
  moreover have "?f (hbid w p s' a) = None" if o: "s + 1 < s'" "in_int32 p" "in_int32 s'" "in_int32 a" for p s' a
  proof -
    have "map_of ?es (hbid w p s' a) = None"
    proof (rule ccontr)
      assume "\<not> ?thesis"
      then obtain x where "(hbid w p s' a, x) \<in> set ?es" by (auto dest: map_of_SomeD)
      from marks_in[OF this t] obtain q b where "hbid w p s' a = hbid w q (s + 1) b" "in_int32 q" "in_int32 b" by blast
      then show False using hbid_inj[OF w w o(2) _ o(3) s1 o(4)] o(1) by simp
    qed
    then show ?thesis using k(6)[OF _ o(2-4)] o(1) by (simp add: map_add_def)
  qed
  ultimately show "word_cols ?f w (s + 1) R n vs" using k(1,2,4) s1 unfolding word_cols_def by (intro conjI exI[of _ "map c' [0..<length cs]"]) auto
qed

lemma found_entries:
  assumes "found_rows prg m w s xs ws" "\<forall>t \<in> set xs. tag_ok t" "good_word w" "in_int32 s" "2 \<le> m"
  shows "entries_ok (leaf_of prg m) (floor_log2 m) (w_queryID ws) (w_query ws)" "length (w_queryID ws) \<le> 2 * length xs"
    "distinct (map fst (w_queryID ws))" "sm_get (w_queryID ws) = map_of (concat (map (marks w s) xs))"
proof -
  have q: "sm_wf (w_query ws)" "sm_wf (w_queryID ws)" "sm_get (w_queryID ws) = map_of (concat (map (marks w s) xs))"
    "\<And>k. sm_get (w_query ws) k = map_option (\<lambda>_. leaf_of prg m k) (sm_get (w_queryID ws) k)"
    "length (w_queryID ws) \<le> length (concat (map (marks w s) xs))"
    using assms(1) by (simp_all add: found_rows_def queued_def)
  have "length (concat (map (marks w s) xs)) \<le> 2 * length xs" by (induction xs) auto
  then show "length (w_queryID ws) \<le> 2 * length xs" using q(5) by linarith
  show "distinct (map fst (w_queryID ws))" by (rule sm_wf_distinct[OF q(2)])
  show "sm_get (w_queryID ws) = map_of (concat (map (marks w s) xs))" by (rule q(3))
  show "entries_ok (leaf_of prg m) (floor_log2 m) (w_queryID ws) (w_query ws)"
  proof (rule entries_okI[OF q(2,1,4)])
    fix k v assume "sm_get (w_queryID ws) k = Some v"
    then have "(k, v) \<in> set (concat (map (marks w s) xs))" using q(3) by (auto dest: map_of_SomeD)
    from marks_in[OF this assms(2)] obtain p a where k: "k = hbid w p s a" "1 \<le> p" "in_int32 p" "1 \<le> a" "in_int32 a" "good_value v" by blast
    then show "box_id k \<and> good_value v \<and> leaf_of prg m k < 2 ^ floor_log2 m"
      using hbid_box[OF assms(3) k(3) _ k(5)] generatePosition_ok(2)[OF assms(3) k(3) assms(4) k(5) assms(5)] by simp
  qed
qed

text \<open>
  A search returns the values of the keyword, in the order in which the bisections end, and leaves the index as it was but for the search
  counter. It writes at most two boxes for every value.
\<close>

lemma horus_search_ok:
  assumes inv: "search_inv prg V st" and w: "good_word w" and s1: "in_int32 (count_of (SrchCnt st) w + 1)"
    and room: "2 * length (V w) \<le> emptyNodes (p_store (ORAM_srch st))"
  shows "\<exists>st' res. horus_search prg w st = Inr (st', res) \<and> mset res = mset (V w) \<and> search_inv prg V st' \<and>
    count_of (SrchCnt st') = (count_of (SrchCnt st))(w := count_of (SrchCnt st) w + 1) \<and>
    emptyNodes (p_store (ORAM_srch st)) \<le> emptyNodes (p_store (ORAM_srch st')) + 2 * length (V w)"
proof -
  let ?m = "h_maxSize st" and ?src = "count_of (SrchCnt st) w" and ?R = "count_of (h_Access st) w" and ?n = "count_of (h_UpdtCnt st) w"
  from inv obtain f where m: "2 \<le> ?m" and f: "prf_map (leaf_of prg ?m) (floor_log2 ?m) (ORAM_srch st) f"
    and wd: "\<And>v. good_word v \<Longrightarrow> word_cols f v (count_of (SrchCnt st) v) (count_of (h_Access st) v) (count_of (h_UpdtCnt st) v) (V v)"
    by (auto simp: search_inv_def)
  from wd[OF w] obtain cs where n: "?n = int (length (V w))" "0 \<le> ?src" "in_int32 ?src" "in_int32 (1 + ?n)"
    and cs: "map (\<lambda>(_, _, v). v) cs = V w" "\<forall>i < length cs. col_ok f w ?src ?R (1 + int i) (cs ! i)" unfolding word_cols_def by blast
  have l: "length cs = length (V w)" using cs(1) by (metis length_map)
  have "in_int32 (1 + int (length cs))" using n(1,4) l by simp
  from search_start[OF f w m n(3) s1 cs(2) this] obtain ws s' xs where
    r: "search_loop prg ?m w ?src (search_fuel ?R) True (replicate (length cs) (new_row ?R)) \<lparr>w_result = [], w_query = [], w_queryID = []\<rparr> (ORAM_srch st) = Inr (ws, s')"
      "prf_map (leaf_of prg ?m) (floor_log2 ?m) s' f" "emptyNodes (p_store s') = emptyNodes (p_store (ORAM_srch st))"
      "found_rows prg ?m w (?src + 1) xs ws" "mset xs = mset (tags 1 cs)" by blast
  note wc = word_cols_search[OF wd[OF w] cs w s1 r(5)]
  note e = found_entries[OF r(4) wc(1) w s1 m]
  have lx: "length xs = length (V w)" using r(5) tags_facts(3)[of 1 cs] l by (metis size_mset)
  have em: "length (w_queryID ws) \<le> emptyNodes (p_store s')" using e(2) room r(3) lx by linarith
  from prf_batchWrite[OF r(2) e(1) em e(3)] obtain s2 where
    s2: "box_batchWrite (w_queryID ws) (w_query ws) s' = Inr s2" "prf_map (leaf_of prg ?m) (floor_log2 ?m) s2 (f ++ map_of (w_queryID ws))"
      "emptyNodes (p_store s2) = emptyNodes (p_store s') - length (w_queryID ws)" by blast
  let ?st = "st\<lparr>h_UpdtCnt := sm_put w ?n (h_UpdtCnt st), SrchCnt := sm_put w (?src + 1) (SrchCnt st), ORAM_srch := s2,
    h_Access := (if 0 < ?n then sm_put w ?R (h_Access st) else h_Access st),
    latestUpdatedCounter := sm_put w (int (length (w_result ws))) (latestUpdatedCounter st)\<rparr>"
  let ?f = "f ++ map_of (w_queryID ws)"
  have res: "w_result ws = map (\<lambda>(_, _, v). v) xs" using r(4) by (simp add: found_rows_def queued_def)
  have ms: "mset (map (\<lambda>(_, _, v). v) xs) = mset (V w)"
    using arg_cong[OF r(5), of "image_mset (\<lambda>(_, _, v). v)"] tags_facts(2)[of 1 cs] cs(1) by (simp flip: mset_map)
  have nn: "nat ?n = length cs" "\<not> ?n < 0" using n(1) l by simp_all
  have "horus_search prg w st = Inr (?st, w_result ws)"
    using r(1) s2(1) s1 nn by (simp add: horus_search_def Let_def int32_def)
  moreover have "word_cols ?f v (count_of (SrchCnt ?st) v) (count_of (h_Access ?st) v) (count_of (h_UpdtCnt ?st) v) (V v)" if v: "good_word v" for v
  proof (cases "v = w")
    case True
    then show ?thesis using wc(2) e(4) by (simp add: count_of_put)
  next
    case False
    have "?f (hbid v p s a) = f (hbid v p s a)" if o: "in_int32 p" "in_int32 s" "in_int32 a" for p s a
    proof -
      have "sm_get (w_queryID ws) (hbid v p s a) = None"
      proof (rule ccontr)
        assume "\<not> ?thesis"
        then obtain x where "(hbid v p s a, x) \<in> set (concat (map (marks w (?src + 1)) xs))" using e(4) by (auto dest: map_of_SomeD)
        from marks_in[OF this wc(1)] obtain q b where "hbid v p s a = hbid w q (?src + 1) b" "in_int32 q" "in_int32 b" by blast
        then show False using hbid_inj[OF v w o(1) _ o(2) s1 o(3)] False by simp
      qed
      then show ?thesis by (simp add: map_add_def)
    qed
    from word_cols_cong[OF wd[OF v] this] False show ?thesis by (simp add: count_of_put)
  qed
  then have "search_inv prg V ?st" using m s2(2) unfolding search_inv_def by auto
  ultimately show ?thesis using ms res s2(3) e(2) r(3) lx
    by (intro exI[of _ ?st] exI[of _ "w_result ws"]) (auto simp: count_of_put fun_eq_iff)
qed

end
