(* ===== verification/HorusSetup.thy ===== *)
theory HorusSetup
  imports HorusWord HorusSearch OrionRun
begin

text \<open>
  The setup phase of Horus keeps the columns of every keyword in its maps, and \<open>endSetup\<close> loads them into the ORAM: from then on the searches return what
  the columns say.
\<close>

section \<open>Entries\<close>

lemma to_string_no_hash: "CHR ''#'' \<notin> set (to_string x)"
  using set_to_string[of "CHR ''#''" x] by (auto simp: is_digit_def)

lemma pair_tokens: "split_on (CHR ''#'') (pair_text a b) = [to_string a, to_string b]"
  unfolding pair_text_def by (rule split_on_pair[OF to_string_no_hash to_string_no_hash])

lemma token_int_pair: "in_int32 a \<Longrightarrow> token_int 0 (pair_text a b) = Inr a" "in_int32 b \<Longrightarrow> token_int (Suc 0) (pair_text a b) = Inr b"
  by (simp_all add: token_int_def pair_tokens)

lemma counter_digits: "0 \<le> x \<Longrightarrow> x < 10 ^ 7 \<Longrightarrow> length (to_string x) \<le> 7"
proof -
  assume "0 \<le> x" "x < 10 ^ 7"
  then have "nat x < 10 ^ Suc 6" by (simp add: nat_less_iff)
  from length_digits[OF this] \<open>0 \<le> x\<close> show ?thesis by (simp add: to_string_def)
qed

lemma pair_good: "small_id a \<Longrightarrow> 0 \<le> b \<Longrightarrow> b < 10 ^ 7 \<Longrightarrow> good_value (pair_text a b)"
  using counter_digits[of b] to_string_no_nul by (simp add: good_value_def pair_text_def small_id_def)

lemma small_counter: "- 1 \<le> x \<Longrightarrow> x < 10 ^ 7 \<Longrightarrow> small_id x"
proof (cases "x = - 1")
  case True
  have "to_string (- 1) = ''-1''" by code_simp
  then show ?thesis by (simp add: True small_id_def in_int32_def)
next
  case False
  assume "- 1 \<le> x" "x < 10 ^ 7"
  then show ?thesis using counter_digits[of x] False by (simp add: small_id_def in_int32_def)
qed

section \<open>The maps of the setup phase\<close>

definition strings_ok :: "(3 Bid, string) smap \<Rightarrow> bool" where
  "strings_ok m \<longleftrightarrow> sm_wf m \<and> (\<forall>k v. sm_get m k = Some v \<longrightarrow> good_key k \<and> good_value v)"

definition boxes_ok :: "(bytes \<Rightarrow> nat \<Rightarrow> nat \<Rightarrow> bytes) \<Rightarrow> nat \<Rightarrow> (3 Bid, string) smap \<Rightarrow> (3 Bid, nat) smap \<Rightarrow> bool" where
  "boxes_ok prg m vals poses \<longleftrightarrow> sm_wf vals \<and> sm_wf poses \<and> (\<forall>k. sm_get poses k = map_option (\<lambda>_. leaf_of prg m k) (sm_get vals k)) \<and>
     (\<forall>k v. sm_get vals k = Some v \<longrightarrow> (\<exists>w p a. k = hbid w p 0 a \<and> good_word w \<and> 1 \<le> p \<and> in_int32 p \<and> 1 \<le> a \<and> in_int32 a \<and> good_value v))"

lemma strings_ok_put: "strings_ok m \<Longrightarrow> good_word w \<Longrightarrow> good_value v \<Longrightarrow> strings_ok (sm_put (hkey b w x) v m)"
  by (auto simp: strings_ok_def sm_wf_put sm_get_put hkey_good split: if_splits)

lemma boxes_ok_put:
  assumes "boxes_ok prg m vals poses" "good_word w" "1 \<le> p" "in_int32 p" "1 \<le> a" "in_int32 a" "good_value v"
  shows "boxes_ok prg m (sm_put (hbid w p 0 a) v vals) (sm_put (hbid w p 0 a) (leaf_of prg m (hbid w p 0 a)) poses)"
  using assms unfolding boxes_ok_def by (auto simp: sm_wf_put sm_get_put)

definition setup_word :: "horus \<Rightarrow> string \<Rightarrow> nat \<Rightarrow> hword \<Rightarrow> int set \<Rightarrow> bool" where
  "setup_word st w K H D \<longleftrightarrow> hword_ok (\<lambda>x. sm_get (h_setupPairs1 st) (hkey 0 w x)) (\<lambda>p. sm_get (h_setupPairs1 st) (hkey 1 w p))
     (\<lambda>p a. sm_get (h_setupPairs2 st) (hbid w p 0 a)) K H D (count_of (h_Access st) w) (count_of (h_UpdtCnt st) w) (count_of (h_LastIND st) w)"

definition hsetup_inv :: "(bytes \<Rightarrow> nat \<Rightarrow> nat \<Rightarrow> bytes) \<Rightarrow> nat \<Rightarrow> (string \<Rightarrow> hword) \<Rightarrow> (string \<Rightarrow> int set) \<Rightarrow> horus \<Rightarrow> bool" where
  "hsetup_inv prg K H D st \<longleftrightarrow> 2 \<le> h_maxSize st \<and> SrchCnt st = [] \<and> strings_ok (h_setupPairs1 st) \<and> length (h_setupPairs1 st) \<le> 3 * K \<and>
     boxes_ok prg (h_maxSize st) (h_setupPairs2 st) (setupPairsPos st) \<and> length (h_setupPairs2 st) \<le> K \<and>
     (\<forall>w. has (h_Access st) w \<longrightarrow> 1 \<le> count_of (h_Access st) w) \<and> (\<forall>w. good_word w \<longrightarrow> setup_word st w K (H w) (D w))"

lemma hword_ok_cong:
  assumes "hword_ok U0 U1 G K H D R c l" "K \<le> 10 ^ 6" "\<And>y. in_int32 y \<Longrightarrow> U0' y = U0 y" "\<And>y. in_int32 y \<Longrightarrow> U1' y = U1 y"
    and "\<And>p a. in_int32 p \<Longrightarrow> in_int32 a \<Longrightarrow> G' p a = G p a"
  shows "hword_ok U0' U1' G' K H D R c l"
proof -
  obtain live cols where H: "H = (live, cols)" by (cases H)
  note h = hword_okD[OF assms(1)[unfolded H]]
  have "in_int32 x" if "x \<in> fst ` set live \<union> D" for x using h(7)[OF that] by (simp add: small_id_def)
  then have u: "\<And>i. i < length live \<Longrightarrow> U0' (fst (live ! i)) = U0 (fst (live ! i))" "\<And>x. x \<in> D \<Longrightarrow> U0' x = U0 x" using assms(3) by auto
  have "in_int32 (int i + 1)" if "i < length live" for i using that h(2,3) assms(2) by (simp add: in_int32_def)
  then have "\<And>i. i < length live \<Longrightarrow> U1' (int i + 1) = U1 (int i + 1)" using assms(4) by blast
  with u show ?thesis using assms(1,5) unfolding hword_ok_def H by auto
qed

lemma hword_ok_mono: "hword_ok U0 U1 G K H D R c l \<Longrightarrow> hword_ok U0 U1 G (Suc K) H D R c l"
  by (auto simp: hword_ok_def)

lemma hsetup_upd:
  assumes inv: "hsetup_inv prg K H D st" and K: "K < 10 ^ 6" and w: "good_word w"
    and keep: "h_maxSize st' = h_maxSize st" "SrchCnt st' = SrchCnt st" "strings_ok (h_setupPairs1 st')" "length (h_setupPairs1 st') \<le> length (h_setupPairs1 st) + 3"
      "boxes_ok prg (h_maxSize st) (h_setupPairs2 st') (setupPairsPos st')" "length (h_setupPairs2 st') \<le> Suc (length (h_setupPairs2 st))"
      "\<forall>v. has (h_Access st') v \<longrightarrow> 1 \<le> count_of (h_Access st') v"
    and others: "\<And>v b y. good_word v \<Longrightarrow> v \<noteq> w \<Longrightarrow> in_int32 y \<Longrightarrow> sm_get (h_setupPairs1 st') (hkey b v y) = sm_get (h_setupPairs1 st) (hkey b v y)"
      "\<And>v p a. good_word v \<Longrightarrow> v \<noteq> w \<Longrightarrow> in_int32 p \<Longrightarrow> in_int32 a \<Longrightarrow> sm_get (h_setupPairs2 st') (hbid v p 0 a) = sm_get (h_setupPairs2 st) (hbid v p 0 a)"
      "\<And>v. v \<noteq> w \<Longrightarrow> count_of (h_Access st') v = count_of (h_Access st) v \<and> count_of (h_UpdtCnt st') v = count_of (h_UpdtCnt st) v \<and>
         count_of (h_LastIND st') v = count_of (h_LastIND st) v"
    and word: "setup_word st' w (Suc K) H' D'"
  shows "hsetup_inv prg (Suc K) (H(w := H')) (D(w := D')) st'"
proof -
  have i: "2 \<le> h_maxSize st" "SrchCnt st = []" "length (h_setupPairs1 st) \<le> 3 * K" "length (h_setupPairs2 st) \<le> K"
    "\<And>v. good_word v \<Longrightarrow> setup_word st v K (H v) (D v)" using inv by (simp_all add: hsetup_inv_def)
  have "setup_word st' v (Suc K) ((H(w := H')) v) ((D(w := D')) v)" if v: "good_word v" for v
  proof (cases "v = w")
    case True
    then show ?thesis using word by simp
  next
    case False
    from i(5)[OF v] have h: "hword_ok (\<lambda>x. sm_get (h_setupPairs1 st) (hkey 0 v x)) (\<lambda>p. sm_get (h_setupPairs1 st) (hkey 1 v p))
      (\<lambda>p a. sm_get (h_setupPairs2 st) (hbid v p 0 a)) K (H v) (D v) (count_of (h_Access st) v) (count_of (h_UpdtCnt st) v) (count_of (h_LastIND st) v)"
      by (simp add: setup_word_def)
    have "hword_ok (\<lambda>x. sm_get (h_setupPairs1 st') (hkey 0 v x)) (\<lambda>p. sm_get (h_setupPairs1 st') (hkey 1 v p))
      (\<lambda>p a. sm_get (h_setupPairs2 st') (hbid v p 0 a)) K (H v) (D v) (count_of (h_Access st) v) (count_of (h_UpdtCnt st) v) (count_of (h_LastIND st) v)"
      by (rule hword_ok_cong[OF h less_imp_le[OF K] others(1)[OF v False] others(1)[OF v False] others(2)[OF v False]])
    then show ?thesis using others(3)[OF False] False hword_ok_mono by (simp add: setup_word_def)
  qed
  then show ?thesis using i(1-4) keep unfolding hsetup_inv_def by auto
qed

section \<open>Operations\<close>

lemma setup_get_present: "sm_get (h_setupPairs1 st) k = Some v \<Longrightarrow> setup_get k st = Inr (st, v)"
  by (simp add: setup_get_def pairs_get_def)

lemma setup_put_eq: "setup_put k v st = Inr (st\<lparr>h_setupPairs1 := sm_put k v (h_setupPairs1 st)\<rparr>)"
  by (simp add: setup_put_def pairs_put_def)

lemma setup_box_ok:
  assumes "good_word w" "in_int32 p" "in_int32 a" "2 \<le> h_maxSize st" "SrchCnt st = []"
  shows "setup_box prg w p a v st = Inr (st\<lparr>h_setupPairs2 := sm_put (hbid w p 0 a) v (h_setupPairs2 st),
    setupPairsPos := sm_put (hbid w p 0 a) (leaf_of prg (h_maxSize st) (hbid w p 0 a)) (setupPairsPos st)\<rparr>)"
proof -
  have "in_int32 0" by (simp add: in_int32_def)
  from generatePosition_ok(1)[OF assms(1,2) this assms(3,4), of prg] show ?thesis
    by (simp add: setup_box_def oram_bid_ok[OF assms(1)] assms(5) count_of_def)
qed

lemma has_put: "has (sm_put w x m) v \<longleftrightarrow> v = w \<or> has m v" "\<not> has m w \<Longrightarrow> count_of m w = 0"
  by (auto simp: has_def sm_get_put count_of_def)

lemma length_sm_put2: "length (sm_put k v (sm_put k' v' m)) \<le> length m + 2"
  using length_sm_put[of k v "sm_put k' v' m"] length_sm_put[of k' v' m] by linarith

lemma length_sm_put3: "length (sm_put k v (sm_put k' v' (sm_put k'' v'' m))) \<le> length m + 3"
  using length_sm_put[of k v "sm_put k' v' (sm_put k'' v'' m)"] length_sm_put2[of k' v' k'' v'' m] by linarith

lemma horus_setupInsert_ok:
  assumes inv: "hsetup_inv prg K H D st" and K: "K < 10 ^ 6" and w: "good_word w" and x: "small_id x" "x \<notin> fst ` set (fst (H w))"
  shows "\<exists>st'. horus_setupInsert prg w x st = Inr st' \<and> hsetup_inv prg (Suc K) (H(w := hw_insert x (H w))) (D(w := D w - {x})) st' \<and>
    OMAP_updt st' = OMAP_updt st \<and> ORAM_srch st' = ORAM_srch st \<and> h_maxSize st' = h_maxSize st"
proof -
  obtain live cols where H: "H w = (live, cols)" by fastforce
  have i: "2 \<le> h_maxSize st" "SrchCnt st = []" "strings_ok (h_setupPairs1 st)" "boxes_ok prg (h_maxSize st) (h_setupPairs2 st) (setupPairsPos st)"
    "\<And>v. has (h_Access st) v \<Longrightarrow> 1 \<le> count_of (h_Access st) v" "setup_word st w K (live, cols) (D w)"
    using inv w H by (auto simp: hsetup_inv_def)
  note h = hword_okD[OF i(6)[unfolded setup_word_def]]
  define c where "c = count_of (h_UpdtCnt st) w"
  have c: "0 \<le> c" "c \<le> int K" "in_int32 (c + 1)" "in_int32 c" using h(2-4) K by (simp_all add: c_def in_int32_def)
  define A where "A = (if has (h_Access st) w then h_Access st else sm_put w 1 (h_Access st))"
  have A: "count_of A v = (if v = w \<and> \<not> has (h_Access st) w then 1 else count_of (h_Access st) v)" for v by (simp add: A_def count_of_put)
  have Aw: "1 \<le> count_of A w" "count_of (h_Access st) w \<le> count_of A w" "count_of A w \<le> int K + 2"
    using A[of w] i(5)[of w] h(5) has_put(2)[of "h_Access st" w] by auto
  let ?p1 = "sm_put (hkey 1 w (c + 1)) (pair_text x 1) (sm_put (hkey 0 w x) (pair_text (c + 1) 1) (h_setupPairs1 st))"
  let ?b = "hbid w (c + 1) 0 1"
  let ?st = "st\<lparr>h_Access := A, h_UpdtCnt := sm_put w (c + 1) (h_UpdtCnt st), h_setupPairs1 := ?p1,
    h_setupPairs2 := sm_put ?b (to_string x) (h_setupPairs2 st),
    setupPairsPos := sm_put ?b (leaf_of prg (h_maxSize st) ?b) (setupPairsPos st), h_LastIND := sm_put w x (h_LastIND st)\<rparr>"
  have one: "in_int32 1" and x32: "in_int32 x" using x(1) by (simp_all add: in_int32_def small_id_def)
  have run: "horus_setupInsert prg w x st = Inr ?st"
    using c(3) i(1,2) setup_box_ok[OF w c(3) one, where prg = prg]
    by (simp add: horus_setupInsert_def map_bid_ok[OF w] int32_def A_def c_def[symmetric] Let_def)
  have gv: "good_value (pair_text (c + 1) 1)" "good_value (pair_text x 1)" "good_value (to_string x)"
    using pair_good[OF small_counter, of "c + 1" 1] pair_good[OF x(1), of 1] to_string_good[OF x32] c K by simp_all
  have word: "setup_word ?st w (Suc K) (hw_insert x (live, cols)) (D w - {x})"
  proof -
    have "x \<notin> fst ` set live" using x(2) by (simp add: H)
    note hi = hword_ok_insert[OF i(6)[unfolded setup_word_def] x(1) this Aw, folded c_def]
    have z: "in_int32 0" by (simp add: in_int32_def)
    have "hword_ok (\<lambda>y. sm_get ?p1 (hkey 0 w y)) (\<lambda>p. sm_get ?p1 (hkey 1 w p)) (\<lambda>p a. sm_get (sm_put ?b (to_string x) (h_setupPairs2 st)) (hbid w p 0 a))
      (Suc K) (hw_insert x (live, cols)) (D w - {x}) (count_of A w) (c + 1) x"
      by (rule hword_ok_cong[OF hi]) (use K in \<open>simp_all add: sm_get_put hkey_inj[OF w w] hbid_inj[OF w w] c(3) one x32 z\<close>)
    then show ?thesis by (simp add: setup_word_def count_of_put)
  qed
  have "hsetup_inv prg (Suc K) (H(w := hw_insert x (live, cols))) (D(w := D w - {x})) ?st"
  proof (rule hsetup_upd[OF inv K w _ _ _ _ _ _ _ _ _ _ word])
    show "strings_ok (h_setupPairs1 ?st)" using strings_ok_put[OF strings_ok_put[OF i(3) w gv(1)] w gv(2)] by simp
    show "length (h_setupPairs1 ?st) \<le> length (h_setupPairs1 st) + 3" by (simp, rule order_trans[OF length_sm_put2]) simp
    show "boxes_ok prg (h_maxSize st) (h_setupPairs2 ?st) (setupPairsPos ?st)" using boxes_ok_put[OF i(4) w _ c(3) _ one gv(3)] c(1) by simp
    show "length (h_setupPairs2 ?st) \<le> Suc (length (h_setupPairs2 st))" using length_sm_put by simp
    show "\<forall>v. has (h_Access ?st) v \<longrightarrow> 1 \<le> count_of (h_Access ?st) v" using i(5) A by (auto simp: A_def has_put(1) count_of_put)
  qed (use w A c x32 one in \<open>auto simp: sm_get_put hkey_inj hbid_inj count_of_put in_int32_def\<close>)
  then show ?thesis using run H by auto
qed

text \<open>What removing the identifier \<open>x\<close> at position \<open>i\<close> with counter \<open>a\<close> does to the maps; \<open>l\<close> is the last identifier.\<close>

definition removed_entries :: "bool \<Rightarrow> string \<Rightarrow> nat \<Rightarrow> int \<Rightarrow> int \<Rightarrow> int \<Rightarrow> (3 Bid, string) smap \<Rightarrow> (3 Bid, string) smap" where
  "removed_entries at_end w i x a l m =
     (let m1 = sm_put (hkey 0 w x) (pair_text (- 1) (a + 1)) m
      in if at_end then m1 else sm_put (hkey 1 w (int i + 1)) (pair_text l (a + 1)) (sm_put (hkey 0 w l) (pair_text (int i + 1) (a + 1)) m1))"

definition removed_state :: "(bytes \<Rightarrow> nat \<Rightarrow> nat \<Rightarrow> bytes) \<Rightarrow> bool \<Rightarrow> string \<Rightarrow> nat \<Rightarrow> int \<Rightarrow> int \<Rightarrow> int \<Rightarrow> (string, int) smap \<Rightarrow> horus \<Rightarrow> horus" where
  "removed_state prg at_end w i x a l lasts st =
     (let b = hbid w (int i + 1) 0 (a + 1);
          st1 = st\<lparr>h_setupPairs1 := removed_entries at_end w i x a l (h_setupPairs1 st),
                   h_UpdtCnt := sm_put w (count_of (h_UpdtCnt st) w - 1) (h_UpdtCnt st), h_LastIND := lasts\<rparr>
      in if at_end then st1
         else (raise_access w (a + 1) st1)\<lparr>h_setupPairs2 := sm_put b (to_string l) (h_setupPairs2 st),
                setupPairsPos := sm_put b (leaf_of prg (h_maxSize st) b) (setupPairsPos st)\<rparr>)"

lemma raise_access_simps [simp]:
  "h_setupPairs1 (raise_access w a st) = h_setupPairs1 st" "h_setupPairs2 (raise_access w a st) = h_setupPairs2 st"
  "setupPairsPos (raise_access w a st) = setupPairsPos st" "h_UpdtCnt (raise_access w a st) = h_UpdtCnt st"
  "h_LastIND (raise_access w a st) = h_LastIND st" "SrchCnt (raise_access w a st) = SrchCnt st" "h_maxSize (raise_access w a st) = h_maxSize st"
  "OMAP_updt (raise_access w a st) = OMAP_updt st" "ORAM_srch (raise_access w a st) = ORAM_srch st"
  "count_of (h_Access (raise_access w a st)) v = (if v = w then max a (count_of (h_Access st) w) else count_of (h_Access st) v)"
  by (simp_all add: raise_access_def count_of_put max_def)

lemma raise_access_upd [simp]:
  "raise_access w a (st\<lparr>h_setupPairs1 := m\<rparr>) = (raise_access w a st)\<lparr>h_setupPairs1 := m\<rparr>"
  "raise_access w a (st\<lparr>h_UpdtCnt := c\<rparr>) = (raise_access w a st)\<lparr>h_UpdtCnt := c\<rparr>"
  "raise_access w a (st\<lparr>h_LastIND := c\<rparr>) = (raise_access w a st)\<lparr>h_LastIND := c\<rparr>"
  by (simp_all add: raise_access_def)

lemma raise_access_has: "has (h_Access (raise_access w a st)) v \<Longrightarrow> has (h_Access st) v \<or> (v = w \<and> count_of (h_Access st) w < a)"
  by (auto simp: raise_access_def has_put split: if_splits)

lemma removed_state_simps [simp]:
  "h_setupPairs1 (removed_state prg e w i x a l lasts st) = removed_entries e w i x a l (h_setupPairs1 st)"
  "h_setupPairs2 (removed_state prg e w i x a l lasts st) =
     (if e then h_setupPairs2 st else sm_put (hbid w (int i + 1) 0 (a + 1)) (to_string l) (h_setupPairs2 st))"
  "setupPairsPos (removed_state prg e w i x a l lasts st) = (if e then setupPairsPos st
     else sm_put (hbid w (int i + 1) 0 (a + 1)) (leaf_of prg (h_maxSize st) (hbid w (int i + 1) 0 (a + 1))) (setupPairsPos st))"
  "count_of (h_UpdtCnt (removed_state prg e w i x a l lasts st)) v = (if v = w then count_of (h_UpdtCnt st) w - 1 else count_of (h_UpdtCnt st) v)"
  "h_LastIND (removed_state prg e w i x a l lasts st) = lasts" "SrchCnt (removed_state prg e w i x a l lasts st) = SrchCnt st"
  "h_maxSize (removed_state prg e w i x a l lasts st) = h_maxSize st" "OMAP_updt (removed_state prg e w i x a l lasts st) = OMAP_updt st"
  "ORAM_srch (removed_state prg e w i x a l lasts st) = ORAM_srch st"
  "count_of (h_Access (removed_state prg e w i x a l lasts st)) v =
     (if v = w \<and> \<not> e then max (a + 1) (count_of (h_Access st) w) else count_of (h_Access st) v)"
  by (simp_all add: removed_state_def Let_def count_of_put)

lemma setupRemove_state:
  assumes w: "good_word w" and m: "2 \<le> h_maxSize st" "SrchCnt st = []"
    and e: "sm_get (h_setupPairs1 st) (hkey 0 w x) = Some (pair_text (int i + 1) a)" and n: "count_of (h_UpdtCnt st) w = int n" "i < n"
    and o: "in_int32 (int n)" "0 \<le> a" "in_int32 (a + 1)" and l: "count_of (h_LastIND st) w = l"
    and l': "1 < n \<Longrightarrow> sm_get (removed_entries (Suc i = n) w i x a l (h_setupPairs1 st)) (hkey 1 w (int n - 1)) = Some (pair_text l' b)" "in_int32 l'"
  shows "horus_setupRemove prg w x st =
    Inr (removed_state prg (Suc i = n) w i x a l (if n = 1 then sm_erase w (h_LastIND st) else sm_put w l' (h_LastIND st)) st)"
proof -
  let ?p1 = "sm_put (hkey 0 w x) (pair_text (- 1) (a + 1)) (h_setupPairs1 st)"
  let ?st3 = "st\<lparr>h_setupPairs1 := ?p1, h_UpdtCnt := sm_put w (int n - 1) (h_UpdtCnt st)\<rparr>"
  have i32: "in_int32 (int i + 1)" "in_int32 a" "int32 (a + 1) = Inr (a + 1)" "int32 (int n - 1) = Inr (int n - 1)"
    using n(2) o by (simp_all add: in_int32_def int32_def)
  note t = token_int_pair[OF i32(1), of a] token_int_pair(2)[OF i32(2), of "int i + 1"]
  note r = horus_setupRemove_def horus_remove_with_def map_bid_ok[OF w] setup_get_present[OF e] t i32 setup_put_eq n(1)
  have pre: "horus_setupRemove prg w x st =
    (if 0 < int n - 1
     then bindE (if int n - 1 + 1 \<noteq> int i + 1
           then let st4 = raise_access w (a + 1) ?st3; l = count_of (h_LastIND st4) w
                in bindE (setup_box prg w (int i + 1) (a + 1) (to_string l) st4) (\<lambda>st5. bindE (map_bid 0 w l) (\<lambda>k0.
                   bindE (setup_put k0 (pair_text (int i + 1) (a + 1)) st5) (\<lambda>st6. bindE (map_bid 1 w (int i + 1)) (\<lambda>k1. setup_put k1 (pair_text l (a + 1)) st6))))
           else Inr ?st3) (\<lambda>st7.
       bindE (setup_get (hkey 1 w (int n - 1)) st7) (\<lambda>(st8, resStr2).
       bindE (token_int 0 resStr2) (\<lambda>l. Inr (st8\<lparr>h_LastIND := sm_put w l (h_LastIND st8)\<rparr>))))
     else Inr (?st3\<lparr>h_LastIND := sm_erase w (h_LastIND st)\<rparr>))"
    by (simp add: r Let_def split del: if_split cong: if_cong)
  show ?thesis
  proof (cases "n = 1")
    case True
    then have "Suc i = n" using n(2) by simp
    moreover have "\<not> 0 < int n - 1" using True by simp
    ultimately show ?thesis using n(1) True unfolding pre by (simp add: removed_state_def removed_entries_def)
  next
    case False
    then have n1: "1 < n" "0 < int n - 1" using n(2) by simp_all
    define st7 where "st7 = removed_state prg (Suc i = n) w i x a l (h_LastIND st) st"
    have "(if int n - 1 + 1 \<noteq> int i + 1
           then let st4 = raise_access w (a + 1) ?st3; l = count_of (h_LastIND st4) w
                in bindE (setup_box prg w (int i + 1) (a + 1) (to_string l) st4) (\<lambda>st5. bindE (map_bid 0 w l) (\<lambda>k0.
                   bindE (setup_put k0 (pair_text (int i + 1) (a + 1)) st5) (\<lambda>st6. bindE (map_bid 1 w (int i + 1)) (\<lambda>k1. setup_put k1 (pair_text l (a + 1)) st6))))
           else Inr ?st3) = Inr st7"
    proof (cases "Suc i = n")
      case True
      then have "int n = int i + 1" by linarith
      then show ?thesis using True n(1) by (simp add: st7_def removed_state_def removed_entries_def)
    next
      case False
      then have ne: "int n - 1 + 1 \<noteq> int i + 1" by linarith
      have "setup_box prg w (int i + 1) (a + 1) (to_string l) (raise_access w (a + 1) ?st3) =
        Inr ((raise_access w (a + 1) ?st3)\<lparr>h_setupPairs2 := sm_put (hbid w (int i + 1) 0 (a + 1)) (to_string l) (h_setupPairs2 st),
          setupPairsPos := sm_put (hbid w (int i + 1) 0 (a + 1)) (leaf_of prg (h_maxSize st) (hbid w (int i + 1) 0 (a + 1))) (setupPairsPos st)\<rparr>)"
        by (subst setup_box_ok[OF w i32(1) o(3)]) (use m in simp_all)
      then show ?thesis using ne False l n(1)
        by (simp add: map_bid_ok[OF w] setup_put_eq st7_def removed_state_def removed_entries_def Let_def)
    qed
    moreover have "setup_get (hkey 1 w (int n - 1)) st7 = Inr (st7, pair_text l' b)"
      by (rule setup_get_present) (use l'(1)[OF n1(1)] in \<open>simp add: st7_def\<close>)
    moreover have "st7\<lparr>h_LastIND := sm_put w l' (h_LastIND st7)\<rparr> = removed_state prg (Suc i = n) w i x a l (sm_put w l' (h_LastIND st)) st"
      by (simp add: st7_def removed_state_def Let_def)
    ultimately show ?thesis using n1(2) False token_int_pair(1)[OF l'(2), of b] unfolding pre by simp
  qed
qed

lemma removed_entries_get:
  assumes w: "good_word w" and o: "in_int32 x" "in_int32 l" "in_int32 (int i + 1)"
  shows "in_int32 y \<Longrightarrow> sm_get (removed_entries e w i x a l m) (hkey 0 w y) =
      (if e then (\<lambda>y. sm_get m (hkey 0 w y))(x \<mapsto> pair_text (- 1) (a + 1))
       else (\<lambda>y. sm_get m (hkey 0 w y))(x \<mapsto> pair_text (- 1) (a + 1), l \<mapsto> pair_text (int i + 1) (a + 1))) y"
    "in_int32 y \<Longrightarrow> sm_get (removed_entries e w i x a l m) (hkey 1 w y) =
      (if e then \<lambda>p. sm_get m (hkey 1 w p) else (\<lambda>p. sm_get m (hkey 1 w p))(int i + 1 \<mapsto> pair_text l (a + 1))) y"
    "in_int32 y \<Longrightarrow> good_word v \<Longrightarrow> v \<noteq> w \<Longrightarrow> sm_get (removed_entries e w i x a l m) (hkey b v y) = sm_get m (hkey b v y)"
    "length (removed_entries e w i x a l m) \<le> length m + 3"
proof -
  note k = hkey_inj[OF _ w _ o(1)] hkey_inj[OF _ w _ o(2)] hkey_inj[OF _ w _ o(3)]
  show "in_int32 y \<Longrightarrow> sm_get (removed_entries e w i x a l m) (hkey 0 w y) =
      (if e then (\<lambda>y. sm_get m (hkey 0 w y))(x \<mapsto> pair_text (- 1) (a + 1))
       else (\<lambda>y. sm_get m (hkey 0 w y))(x \<mapsto> pair_text (- 1) (a + 1), l \<mapsto> pair_text (int i + 1) (a + 1))) y"
    "in_int32 y \<Longrightarrow> sm_get (removed_entries e w i x a l m) (hkey 1 w y) =
      (if e then \<lambda>p. sm_get m (hkey 1 w p) else (\<lambda>p. sm_get m (hkey 1 w p))(int i + 1 \<mapsto> pair_text l (a + 1))) y"
    "in_int32 y \<Longrightarrow> good_word v \<Longrightarrow> v \<noteq> w \<Longrightarrow> sm_get (removed_entries e w i x a l m) (hkey b v y) = sm_get m (hkey b v y)"
    using w by (simp_all add: removed_entries_def Let_def sm_get_put k)
  have "length (sm_put k v m) \<le> length m + 3" for k v using length_sm_put[of k v m] by linarith
  then show "length (removed_entries e w i x a l m) \<le> length m + 3"
    unfolding removed_entries_def Let_def by (cases e) (simp_all only: length_sm_put3 if_True if_False)
qed

lemma live_entry:
  assumes word: "setup_word st w K (live, cols) D" and K: "K < 10 ^ 6" and i: "i < length live" "live ! i = (x, a)"
  shows "1 \<le> a" "a \<le> int K + 1" "in_int32 (a + 1)" "a + 1 < 10 ^ 7" "in_int32 (int i + 1)" "int i + 1 < 10 ^ 7" "in_int32 (int (length live))"
    "small_id x" "small_id (count_of (h_LastIND st) w)" "in_int32 x" "in_int32 (count_of (h_LastIND st) w)"
proof -
  note h = hword_okD[OF word[unfolded setup_word_def]]
  have ic: "i < length cols" using i(1) h(2) by simp
  show "1 \<le> a" "a \<le> int K + 1" "in_int32 (a + 1)" "a + 1 < 10 ^ 7" using h(11,12)[OF i(1)] h(15)[OF ic] h(5) K i(2) by (simp_all add: in_int32_def)
  show "in_int32 (int i + 1)" "int i + 1 < 10 ^ 7" "in_int32 (int (length live))" using i(1) h(2,3) K by (simp_all add: in_int32_def)
  have "x \<in> fst ` set live" using nth_mem[OF i(1)] i(2) by (auto intro: rev_image_eqI)
  then show x: "small_id x" using h(7) by blast
  have ne: "live \<noteq> []" using i(1) by auto
  then have "count_of (h_LastIND st) w \<in> fst ` set live" using h(6) by simp
  then show l: "small_id (count_of (h_LastIND st) w)" using h(7) by blast
  show "in_int32 x" "in_int32 (count_of (h_LastIND st) w)" using x l by (simp_all add: small_id_def)
qed

lemma removed_word:
  assumes word: "setup_word st w K (live, cols) D" and K: "K < 10 ^ 6" and w: "good_word w" and i: "i < length live" "live ! i = (x, a)"
    and lasts: "fst (hw_remove i (live, cols)) \<noteq> [] \<longrightarrow> count_of lasts w = fst (List.last (fst (hw_remove i (live, cols))))"
  shows "setup_word (removed_state prg (Suc i = length live) w i x a (count_of (h_LastIND st) w) lasts st) w (Suc K) (hw_remove i (live, cols)) (insert x D)"
proof -
  let ?e = "Suc i = length live" and ?l = "count_of (h_LastIND st) w"
  note v = live_entry[OF word K i]
  define R where "R = (if ?e then count_of (h_Access st) w else max (a + 1) (count_of (h_Access st) w))"
  have R: "count_of (h_Access st) w \<le> R" "Suc i \<noteq> length live \<longrightarrow> a + 1 \<le> R" "R \<le> int K + 2"
    using hword_okD(5)[OF word[unfolded setup_word_def]] v(2) by (auto simp: R_def)
  have z: "in_int32 0" by (simp add: in_int32_def)
  have "hword_ok (\<lambda>y. sm_get (removed_entries ?e w i x a ?l (h_setupPairs1 st)) (hkey 0 w y)) (\<lambda>y. sm_get (removed_entries ?e w i x a ?l (h_setupPairs1 st)) (hkey 1 w y))
      (\<lambda>p b. sm_get (if ?e then h_setupPairs2 st else sm_put (hbid w (int i + 1) 0 (a + 1)) (to_string ?l) (h_setupPairs2 st)) (hbid w p 0 b))
      (Suc K) (hw_remove i (live, cols)) (insert x D) R (count_of (h_UpdtCnt st) w - 1) (count_of lasts w)"
    by (rule hword_ok_cong[OF hword_ok_remove[OF word[unfolded setup_word_def] i R v(3) lasts]])
      (use K removed_entries_get[OF w v(10,11,5)] hbid_inj[OF w w _ v(5) z z _ v(3)] in \<open>auto simp: sm_get_put\<close>)
  then show ?thesis by (auto simp: setup_word_def R_def)
qed

text \<open>The identifier that is the last one after the removal is read back from the map.\<close>

lemma removed_last:
  assumes word: "setup_word st w K (live, cols) D" and K: "K < 10 ^ 6" and w: "good_word w" and i: "i < length live" "live ! i = (x, a)"
    and n: "1 < length live"
  defines "l' \<equiv> fst (List.last (fst (hw_remove i (live, cols))))"
  shows "\<exists>b. sm_get (removed_entries (Suc i = length live) w i x a (count_of (h_LastIND st) w) (h_setupPairs1 st)) (hkey 1 w (int (length live) - 1)) =
    Some (pair_text l' b)" "in_int32 l'"
proof -
  define live' where "live' = fst (hw_remove i (live, cols))"
  let ?n = "length live"
  have "count_of (sm_put w l' []) w = l'" by (simp add: count_of_def)
  then have "setup_word (removed_state undefined (Suc i = ?n) w i x a (count_of (h_LastIND st) w) (sm_put w l' []) st) w (Suc K)
      (live', snd (hw_remove i (live, cols))) (insert x D)"
    using removed_word[OF word K w i, of "sm_put w l' []"] by (simp add: l'_def live'_def del: hw_remove.simps)
  note h = hword_okD[OF this[unfolded setup_word_def]]
  have ll: "length live' = ?n - 1" using hw_remove_live(3)[OF _ i] hword_okD(1)[OF word[unfolded setup_word_def]] by (simp add: live'_def del: hw_remove.simps)
  then have le: "?n - 2 < length live'" "live' \<noteq> []" "int (?n - 2) + 1 = int ?n - 1" "length live' - 1 = ?n - 2" using n by auto
  then have "List.last live' = live' ! (?n - 2)" using last_conv_nth[OF le(2)] by simp
  then show "\<exists>b. sm_get (removed_entries (Suc i = ?n) w i x a (count_of (h_LastIND st) w) (h_setupPairs1 st)) (hkey 1 w (int ?n - 1)) = Some (pair_text l' b)"
    using h(10)[OF le(1)] le(3) by (auto simp: l'_def live'_def simp del: hw_remove.simps)
  have "l' \<in> fst ` set live'" using le(2) by (simp add: l'_def live'_def del: hw_remove.simps)
  then show "in_int32 l'" using h(7)[of l'] by (simp add: small_id_def)
qed

lemma removed_inv:
  assumes inv: "hsetup_inv prg K H D st" and K: "K < 10 ^ 6" and w: "good_word w" and H: "H w = (live, cols)" and i: "i < length live" "live ! i = (x, a)"
    and lasts: "fst (hw_remove i (live, cols)) \<noteq> [] \<longrightarrow> count_of lasts w = fst (List.last (fst (hw_remove i (live, cols))))"
      "\<And>v. v \<noteq> w \<Longrightarrow> count_of lasts v = count_of (h_LastIND st) v"
  defines "l \<equiv> count_of (h_LastIND st) w"
  defines "st' \<equiv> removed_state prg (Suc i = length live) w i x a l lasts st"
  shows "hsetup_inv prg (Suc K) (H(w := hw_remove i (live, cols))) (D(w := insert x (D w))) st'"
proof -
  have iv: "strings_ok (h_setupPairs1 st)" "boxes_ok prg (h_maxSize st) (h_setupPairs2 st) (setupPairsPos st)"
    "\<And>v. has (h_Access st) v \<Longrightarrow> 1 \<le> count_of (h_Access st) v" and word: "setup_word st w K (live, cols) (D w)"
    using inv w H by (auto simp: hsetup_inv_def)
  note v = live_entry[OF word K i, folded l_def]
  have a0: "0 \<le> a + 1" "- 1 \<le> int i + 1" and z: "in_int32 0" using v(1) by (simp_all add: in_int32_def)
  have gv: "good_value (pair_text (- 1) (a + 1))" "good_value (pair_text (int i + 1) (a + 1))" "good_value (pair_text l (a + 1))" "good_value (to_string l)"
    using pair_good[OF small_counter a0(1) v(4), of "- 1"] pair_good[OF small_counter[OF a0(2) v(6)] a0(1) v(4)] pair_good[OF v(9) a0(1) v(4)]
      to_string_good[OF v(11)] by simp_all
  show ?thesis
  proof (rule hsetup_upd[OF inv K w])
    show "setup_word st' w (Suc K) (hw_remove i (live, cols)) (insert x (D w))"
      unfolding st'_def l_def by (rule removed_word[OF word K w i lasts(1)])
    show "strings_ok (h_setupPairs1 st')"
      using strings_ok_put[OF iv(1) w gv(1), of 0 x] strings_ok_put[OF strings_ok_put[OF strings_ok_put[OF iv(1) w gv(1)] w gv(2)] w gv(3)]
      by (simp add: st'_def removed_entries_def Let_def)
    show "boxes_ok prg (h_maxSize st) (h_setupPairs2 st') (setupPairsPos st')"
      using boxes_ok_put[OF iv(2) w _ v(5) _ v(3) gv(4)] iv(2) v(1) by (simp add: st'_def)
    show "\<forall>v. has (h_Access st') v \<longrightarrow> 1 \<le> count_of (h_Access st') v"
      using iv(3) v(1) raise_access_has[of w "a + 1" st] by (auto simp: st'_def removed_state_def Let_def max_def)
    show "length (h_setupPairs2 st') \<le> Suc (length (h_setupPairs2 st))" by (simp add: st'_def length_sm_put)
  qed (use w lasts(2) removed_entries_get[OF w v(10,11,5)] hbid_inj[OF _ w _ v(5) z z _ v(3)] in \<open>auto simp: st'_def sm_get_put\<close>)
qed

lemma horus_setupRemove_ok:
  assumes inv: "hsetup_inv prg K H D st" and K: "K < 10 ^ 6" and w: "good_word w" and i: "i < length (fst (H w))"
  defines "x \<equiv> fst (fst (H w) ! i)"
  shows "\<exists>st'. horus_setupRemove prg w x st = Inr st' \<and> hsetup_inv prg (Suc K) (H(w := hw_remove i (H w))) (D(w := insert x (D w))) st' \<and>
    OMAP_updt st' = OMAP_updt st \<and> ORAM_srch st' = ORAM_srch st \<and> h_maxSize st' = h_maxSize st"
proof -
  obtain live cols where H: "H w = (live, cols)" by fastforce
  have m: "2 \<le> h_maxSize st" "SrchCnt st = []" and word: "setup_word st w K (live, cols) (D w)" using inv w H by (auto simp: hsetup_inv_def)
  note h = hword_okD[OF word[unfolded setup_word_def]]
  define n a l where "n = length live" and "a = snd (live ! i)" and "l = count_of (h_LastIND st) w"
  have i': "i < n" "i < length live" "live ! i = (x, a)" using i by (simp_all add: H n_def x_def a_def)
  note v = live_entry[OF word K i'(2,3)]
  define l' where "l' = (if 1 < n then fst (List.last (fst (hw_remove i (live, cols)))) else 0)"
  define lasts where "lasts = (if n = 1 then sm_erase w (h_LastIND st) else sm_put w l' (h_LastIND st))"
  have e0: "sm_get (h_setupPairs1 st) (hkey 0 w x) = Some (pair_text (int i + 1) a)" using h(9)[OF i'(2)] i'(3) by simp
  have cl: "count_of (h_UpdtCnt st) w = int n" "in_int32 (int n)" "0 \<le> a" using h(4) v(1,7) by (simp_all add: n_def)
  have l32: "in_int32 l'" using removed_last(2)[OF word K w i'(2,3)] by (simp add: l'_def n_def in_int32_def del: hw_remove.simps)
  obtain b where "1 < n \<Longrightarrow> sm_get (removed_entries (Suc i = n) w i x a l (h_setupPairs1 st)) (hkey 1 w (int n - 1)) = Some (pair_text l' b)"
    using removed_last(1)[OF word K w i'(2,3)] by (auto simp: l'_def n_def l_def simp del: hw_remove.simps)
  from setupRemove_state[OF w m e0 cl(1) i'(1) cl(2,3) v(3) l_def[symmetric] this l32, of prg] have
    run: "horus_setupRemove prg w x st = Inr (removed_state prg (Suc i = length live) w i x a l lasts st)" by (simp add: lasts_def n_def)
  have ll: "length (fst (hw_remove i (live, cols))) = n - 1" using hw_remove_live(3)[OF h(1) i'(2,3)] by (simp add: n_def)
  have "fst (hw_remove i (live, cols)) \<noteq> [] \<longrightarrow> count_of lasts w = fst (List.last (fst (hw_remove i (live, cols))))"
  proof
    assume "fst (hw_remove i (live, cols)) \<noteq> []"
    then have "1 < n" using ll by (simp flip: length_greater_0_conv del: hw_remove.simps)
    then show "count_of lasts w = fst (List.last (fst (hw_remove i (live, cols))))" by (simp add: lasts_def l'_def count_of_put del: hw_remove.simps)
  qed
  from removed_inv[OF inv K w H i'(2,3) this] have
    "hsetup_inv prg (Suc K) (H(w := hw_remove i (H w))) (D(w := insert x (D w))) (removed_state prg (Suc i = length live) w i x a l lasts st)"
    by (simp add: H l_def lasts_def count_of_put count_of_erase del: hw_remove.simps)
  then show ?thesis using run by auto
qed

lemma horus_setupRemove_dead:
  assumes inv: "hsetup_inv prg K H D st" and K: "K < 10 ^ 6" and w: "good_word w" and x: "x \<in> D w"
  shows "horus_setupRemove prg w x st = Inr st" "hsetup_inv prg (Suc K) H D st"
proof -
  obtain live cols where H: "H w = (live, cols)" by fastforce
  have word: "setup_word st w K (live, cols) (D w)" using inv w H by (auto simp: hsetup_inv_def)
  from hword_okD(13)[OF word[unfolded setup_word_def] x] obtain b where
    b: "sm_get (h_setupPairs1 st) (hkey 0 w x) = Some (pair_text (- 1) b)" by blast
  have "token_int 0 (pair_text (- 1) b) = Inr (- 1)" by (rule token_int_pair) (simp add: in_int32_def)
  then show "horus_setupRemove prg w x st = Inr st"
    by (simp add: horus_setupRemove_def horus_remove_with_def map_bid_ok[OF w] setup_get_present[OF b])
  have "hsetup_inv prg (Suc K) (H(w := H w)) (D(w := D w)) st"
    by (rule hsetup_upd[OF inv K w]) (use inv word hword_ok_mono in \<open>auto simp: hsetup_inv_def setup_word_def H\<close>)
  then show "hsetup_inv prg (Suc K) H D st" by simp
qed

end
