(* ===== verification/PrfOramRun.thy ===== *)
theory PrfOramRun
  imports PrfOramInv
begin

text \<open>
  Runs of the ORAM of Horus, and what goes wrong with it: a single write uses a box after it was deleted, and the count of empty blocks only
  ever goes down.
\<close>

section \<open>Runs\<close>

datatype prf_op = BatchRead "3 Bid list" | ReadOne "3 Bid" | BatchWrite "(3 Bid \<times> string) list"

fun prf_do :: "(3 Bid \<Rightarrow> nat) \<Rightarrow> prf_op \<Rightarrow> prforam \<Rightarrow> (prforam \<times> string list) res" where
  "prf_do posf (BatchRead ks) s = batchRead (map (\<lambda>k. (k, posf k)) ks) s"
| "prf_do posf (ReadOne k) s = bindE (ReadBox k (posf k) s) (\<lambda>(s', r). Inr (s', [r]))"
| "prf_do posf (BatchWrite vals) s = bindE (box_batchWrite vals (map (\<lambda>(k, _). (k, posf k)) vals) s) (\<lambda>s'. Inr (s', []))"

fun prf_run :: "(3 Bid \<Rightarrow> nat) \<Rightarrow> prf_op list \<Rightarrow> prforam \<Rightarrow> (prforam \<times> string list list) res" where
  "prf_run posf [] s = Inr (s, [])"
| "prf_run posf (c # cs) s = bindE (prf_do posf c s) (\<lambda>(s1, r). bindE (prf_run posf cs s1) (\<lambda>(s2, rs). Inr (s2, r # rs)))"

fun box_map_do :: "prf_op \<Rightarrow> (3 Bid \<Rightarrow> string option) \<Rightarrow> (3 Bid \<Rightarrow> string option) \<times> string list" where
  "box_map_do (BatchRead ks) f = (f, map (text_at f) ks)"
| "box_map_do (ReadOne k) f = (f, [text_at f k])"
| "box_map_do (BatchWrite vals) f = (f ++ map_of vals, [])"

fun box_map_run :: "prf_op list \<Rightarrow> (3 Bid \<Rightarrow> string option) \<Rightarrow> string list list" where
  "box_map_run [] f = []"
| "box_map_run (c # cs) f = (case box_map_do c f of (f', r) \<Rightarrow> r # box_map_run cs f')"

fun prf_writes :: "prf_op \<Rightarrow> nat" where
  "prf_writes (BatchWrite vals) = length vals"
| "prf_writes _ = 0"

fun prf_op_ok :: "(3 Bid \<Rightarrow> nat) \<Rightarrow> nat \<Rightarrow> prf_op \<Rightarrow> bool" where
  "prf_op_ok posf d (BatchRead ks) \<longleftrightarrow> (\<forall>k \<in> set ks. posf k < 2 ^ d)"
| "prf_op_ok posf d (ReadOne k) \<longleftrightarrow> \<not> bid_eq_int k 0 \<and> posf k < 2 ^ d"
| "prf_op_ok posf d (BatchWrite vals) \<longleftrightarrow> distinct (map fst vals) \<and> (\<forall>(k, v) \<in> set vals. box_id k \<and> good_value v \<and> posf k < 2 ^ d)"

lemma prf_do_ok:
  assumes "prf_map posf d s f" "prf_op_ok posf d c" "prf_writes c \<le> emptyNodes (p_store s)"
  shows "\<exists>s'. prf_do posf c s = Inr (s', snd (box_map_do c f)) \<and> prf_map posf d s' (fst (box_map_do c f)) \<and>
    emptyNodes (p_store s') = emptyNodes (p_store s) - prf_writes c"
proof (cases c)
  case (BatchRead ks)
  then show ?thesis using prf_batchRead[OF assms(1), of ks] assms(2) by auto
next
  case (ReadOne k)
  then show ?thesis using prf_ReadBox[OF assms(1), of k] assms(2) by auto
next
  case (BatchWrite vals)
  have "entries_ok posf d vals (map (\<lambda>(k, _). (k, posf k)) vals)"
    using assms(2) BatchWrite by (auto simp: entries_ok_def case_prod_beta)
  from prf_batchWrite[OF assms(1) this] show ?thesis using assms(2,3) BatchWrite by auto
qed

lemma prf_run_ok:
  assumes "prf_map posf d s f" "\<forall>c \<in> set cs. prf_op_ok posf d c" "sum_list (map prf_writes cs) \<le> emptyNodes (p_store s)"
  shows "\<exists>s' f'. prf_run posf cs s = Inr (s', box_map_run cs f) \<and> prf_map posf d s' f' \<and>
    emptyNodes (p_store s') = emptyNodes (p_store s) - sum_list (map prf_writes cs)"
  using assms
proof (induction cs arbitrary: s f)
  case Nil
  then show ?case by auto
next
  case (Cons c cs)
  then obtain s1 where s1: "prf_do posf c s = Inr (s1, snd (box_map_do c f))" "prf_map posf d s1 (fst (box_map_do c f))"
    "emptyNodes (p_store s1) = emptyNodes (p_store s) - prf_writes c"
    using prf_do_ok[of posf d s f c] by auto
  have "\<forall>c \<in> set cs. prf_op_ok posf d c" "sum_list (map prf_writes cs) \<le> emptyNodes (p_store s1)" using Cons.prems s1(3) by simp_all
  then obtain s2 f2 where "prf_run posf cs s1 = Inr (s2, box_map_run cs (fst (box_map_do c f)))" "prf_map posf d s2 f2"
    "emptyNodes (p_store s2) = emptyNodes (p_store s1) - sum_list (map prf_writes cs)"
    using Cons.IH[OF s1(2)] by blast
  then show ?case using s1(1,3) by (auto simp: case_prod_beta)
qed

section \<open>A single write\<close>

text \<open>
  Writing a single box is undefined in every tree with more than one level, unless four other boxes have the same position: the first round of the write
  back moves the box to the bucket of its leaf and deletes it, and the next round reads its position.
\<close>

lemma WriteBox_use_after_free:
  assumes "prf_map posf d s f" "0 < d" "box_id k" "good_value v" "posf k < 2 ^ d" "0 < emptyNodes (p_store s)"
    and "finite (dom f)" "card {j. j \<noteq> k \<and> f j \<noteq> None \<and> posf j = posf k} < Z"
  shows "WriteBox k v (posf k) s = Inl Undefined_behaviour"
proof -
  let ?x = "posf k" and ?b = "mk_box k v (posf k)" and ?J = "{j. j \<noteq> k \<and> f j \<noteq> None \<and> posf j = posf k}"
  have i: "pinv s (boxes posf f) UNIV" and d: "p_depth s = d" using assms(1) by (simp_all add: prf_map_def)
  obtain s1 where s1: "box_FetchPath ?x False s = Inr s1" "pinv s1 (boxes posf f) (- ppath s ?x)" "same_tree s s1"
    using box_FetchPath_single[OF i, of ?x] assms(5) d by auto
  note t = same_tree_path[OF s1(3)]
  have g: "sm_get (stash s1) k = boxes posf f k" by (rule pinv_fetched[OF s1(2), of ?x]) (use t boxes_pos in auto)
  have e: "entry_ok s1 k v ?x" "0 < emptyNodes (p_store s1)" using assms(3-6) t d s1(3) by (simp_all add: entry_ok_def same_tree_def)
  from box_WriteData_ok[OF s1(2) e(1) g e(2)] obtain s2 where
    s2: "box_WriteData k ?b s1 = Inr s2" "pinv s2 (boxes posf (f(k \<mapsto> v))) (- ppath s ?x)" "p_depth s2 = d" "p_bucketCount s2 = p_bucketCount s"
    using t d by (auto simp: boxes_put)
  let ?s = "s2\<lparr>viewmap := []\<rparr>"
  have pi: "pinv ?s (boxes posf (f(k \<mapsto> v))) (- ppath s ?x \<union> set (viewmap ?s))" using s2(2) by simp
  have pp: "GetBoxOnPath ?s = GetBoxOnPath s" using s2(3,4) d by (simp add: fun_eq_iff GetBoxOnPath_def)
  have k: "sm_get (stash ?s) k = Some ?b"
  proof -
    have "ppath ?s = ppath s" using pp s2(3) d by (simp add: fun_eq_iff ppath_def)
    then have "sm_get (stash ?s) k = boxes posf (f(k \<mapsto> v)) k"
      by (intro pinv_fetched[OF pi, of ?x]) (auto simp: boxes_pos)
    then show ?thesis by (simp add: boxes_def)
  qed
  have "GetBoxOnPath ?s ?x d \<in> ppath s ?x" using d by (simp add: pp ppath_def)
  then obtain s3 where s3: "box_WritePath ?x d ?s = Inr s3"
    "sm_get (stash s3) = (\<lambda>j. if j \<in> set (box_GetIntersectingBlocks ?s ?x d) then None else sm_get (stash ?s) j)"
    using box_WritePath_ok[OF pi, of ?x d] assms(5) s2(3) by simp blast
  have fj: "finite ?J" using assms(7) by (rule rev_finite_subset) auto
  have js: "\<forall>j c. sm_get (stash ?s) j = Some c \<and> bx_pos c = ?x \<and> j \<noteq> k \<longrightarrow> j \<in> ?J"
  proof (intro allI impI)
    fix j c assume a: "sm_get (stash ?s) j = Some c \<and> bx_pos c = ?x \<and> j \<noteq> k"
    then have "boxes posf (f(k \<mapsto> v)) j = Some c" using pinv_stash[OF pi] by blast
    then show "j \<in> ?J" using a by (auto simp: boxes_def)
  qed
  have "sm_wf (stash ?s)" using pi unfolding pinv_def by blast
  from intersecting_all[OF this k _ fj assms(8) js] have "k \<in> set (box_GetIntersectingBlocks ?s ?x (p_depth ?s))" by simp
  then have n: "sm_get (stash s3) k = None" using s3(2) s2(3) by simp
  obtain d' where d': "d = Suc d'" using assms(2) by (cases d) auto
  have "levels_down s2 = d # d' # rev [0..<d']" using s2(3) d' by (simp add: levels_down_def)
  then have "write_levels k (levels_down s2) ?s = Inl Undefined_behaviour" using k s3(1) n by (simp add: d')
  then have "box_Access_write k ?b s = Inl Undefined_behaviour" using s1(1) s2(1) by (simp add: box_Access_write_def)
  then show ?thesis using assms(3,4) by (simp add: WriteBox_def new_box_ok box_id_def)
qed

section \<open>Properties\<close>

text \<open>
  C4. The ORAM of Horus is a map. Over any block cipher whose decryption inverts its encryption and for any assignment of positions
  to identifiers, a run of batch reads, single reads and batch writes on a new ORAM never fails and returns what the same operations on a
  finite map return, as long as the number of boxes written, overwritten ones included, does not exceed the number of blocks of the store.
\<close>

theorem prforam_refines_map:
  assumes "cbc_good A" "\<forall>i. length (ivs i) = IV" "Z \<le> maxSize" "floor_log2 (maxSize div Z) \<le> 30"
    and "\<forall>c \<in> set cs. prf_op_ok posf (floor_log2 (maxSize div Z)) c"
    and "sum_list (map prf_writes cs) \<le> Z * (2 ^ (floor_log2 (maxSize div Z) + 1) - 1)"
  shows "\<exists>s s'. PRFORAM A ivs maxSize key = Inr s \<and> prf_run posf cs s = Inr (s', box_map_run cs Map.empty)"
proof -
  obtain s where s: "PRFORAM A ivs maxSize key = Inr s" "prf_map posf (floor_log2 (maxSize div Z)) s Map.empty"
    "emptyNodes (p_store s) = Z * (2 ^ (floor_log2 (maxSize div Z) + 1) - 1)"
    using PRFORAM_ok[OF assms(1-4), of key posf] by blast
  with prf_run_ok[OF s(2) assms(5)] assms(6) show ?thesis by auto
qed

text \<open>
  C34. The space of the ORAM is used up by writes, whether they add a box or replace one: after a run that has written \<open>n\<close> boxes, a batch of writes that takes the total
  over the number of blocks throws.
\<close>

theorem prforam_space_error:
  assumes "cbc_good A" "\<forall>i. length (ivs i) = IV" "Z \<le> maxSize" "floor_log2 (maxSize div Z) \<le> 30"
    and "\<forall>c \<in> set cs. prf_op_ok posf (floor_log2 (maxSize div Z)) c" "prf_op_ok posf (floor_log2 (maxSize div Z)) (BatchWrite vals)"
    and "sum_list (map prf_writes cs) \<le> Z * (2 ^ (floor_log2 (maxSize div Z) + 1) - 1)"
    and "Z * (2 ^ (floor_log2 (maxSize div Z) + 1) - 1) < sum_list (map prf_writes cs) + length vals"
  shows "\<exists>s s' outs. PRFORAM A ivs maxSize key = Inr s \<and> prf_run posf cs s = Inr (s', outs) \<and>
    prf_do posf (BatchWrite vals) s' = Inl (Runtime_error ''There is no more space in PRFORAM'')"
proof -
  obtain s where s: "PRFORAM A ivs maxSize key = Inr s" "prf_map posf (floor_log2 (maxSize div Z)) s Map.empty"
    "emptyNodes (p_store s) = Z * (2 ^ (floor_log2 (maxSize div Z) + 1) - 1)"
    using PRFORAM_ok[OF assms(1-4), of key posf] by blast
  from prf_run_ok[OF s(2) assms(5)] assms(7) s(3) obtain s' f' where
    s': "prf_run posf cs s = Inr (s', box_map_run cs Map.empty)" "prf_map posf (floor_log2 (maxSize div Z)) s' f'"
      "emptyNodes (p_store s') = emptyNodes (p_store s) - sum_list (map prf_writes cs)" by auto
  have "entries_ok posf (floor_log2 (maxSize div Z)) vals (map (\<lambda>(k, _). (k, posf k)) vals)"
    using assms(6) by (auto simp: entries_ok_def case_prod_beta)
  moreover have "emptyNodes (p_store s') < length vals" using s'(3) s(3) assms(7,8) by linarith
  ultimately have "box_batchWrite vals (map (\<lambda>(k, _). (k, posf k)) vals) s' = Inl (Runtime_error ''There is no more space in PRFORAM'')"
    by (rule prf_batchWrite_full[OF s'(2)])
  then have "prf_do posf (BatchWrite vals) s' = Inl (Runtime_error ''There is no more space in PRFORAM'')" by simp
  then show ?thesis using s(1) s'(1) by blast
qed

section \<open>Witnesses\<close>

definition sample_box :: "nat \<Rightarrow> 3 Bid" where
  "sample_box i = Bid_array (replicate 20 1 @ le_bytes 4 (int i))"

lemma sample_box_id: "box_id (sample_box i)"
proof -
  have "\<not> bid_eq_int (sample_box i) 0" by (simp add: bid_eq_int_def sample_box_def upt_rec nth_append)
  moreover have "drop 4 (bid_id (sample_box i)) \<noteq> replicate 20 0" by (simp add: sample_box_def numeral_eq_Suc)
  ultimately show ?thesis by (simp add: box_id_def bid_wf_def sample_box_def ID_SIZE_def)
qed

lemma log2_4: "floor_log2 (4 div Z) = 0" "floor_log2 (8 div Z) = 1" "Z \<le> 4" "Z \<le> 8"
  by (simp_all add: Z_def floor_log2.simps)

theorem prforam_refines_map_witness:
  "\<exists>s s'. PRFORAM pad_cbc (\<lambda>_. replicate IV 0) 8 [] = Inr s \<and>
    prf_run (\<lambda>_. 1) [BatchWrite [(sample_box 1, ''5''), (sample_box 2, ''6'')], BatchRead [sample_box 2, sample_box 3], ReadOne (sample_box 1)] s =
      Inr (s', [[], [''6'', ''''], [''5'']])"
proof -
  let ?cs = "[BatchWrite [(sample_box 1, ''5''), (sample_box 2, ''6'')], BatchRead [sample_box 2, sample_box 3], ReadOne (sample_box 1)]"
  have d: "sample_box 1 \<noteq> sample_box 2" "sample_box 3 \<noteq> sample_box 1" "sample_box 3 \<noteq> sample_box 2" by code_simp+
  have "\<not> bid_eq_int (sample_box 1) 0" using sample_box_id by (simp add: box_id_def)
  then have "\<forall>c \<in> set ?cs. prf_op_ok (\<lambda>_. 1) (floor_log2 (8 div Z)) c"
    using sample_box_id d by (simp add: log2_4 good_value_def)
  moreover have "box_map_run ?cs Map.empty = [[], [''6'', ''''], [''5'']]" using d by simp
  moreover have "\<forall>i::nat. length (replicate IV (0::byte)) = IV" "Z \<le> 8" "floor_log2 (8 div Z) \<le> 30"
    "sum_list (map prf_writes ?cs) \<le> Z * (2 ^ (floor_log2 (8 div Z) + 1) - 1)" by (simp_all add: log2_4(1-4)) (simp add: Z_def)
  ultimately show ?thesis using prforam_refines_map[OF pad_cbc_good, of "\<lambda>_. replicate IV 0" 8 ?cs "\<lambda>_. 1" "[]"] by simp
qed

theorem prforam_space_error_witness:
  "\<exists>s s' outs. PRFORAM pad_cbc (\<lambda>_. replicate IV 0) 4 [] = Inr s \<and>
    prf_run (\<lambda>_. 0) (replicate 4 (BatchWrite [(sample_box 1, ''5'')])) s = Inr (s', outs) \<and>
    prf_do (\<lambda>_. 0) (BatchWrite [(sample_box 1, ''5'')]) s' = Inl (Runtime_error ''There is no more space in PRFORAM'')"
  by (rule prforam_space_error[OF pad_cbc_good])
    (simp_all add: log2_4(1-4) sample_box_id good_value_def sum_list_replicate, simp_all add: Z_def)

end
