(* ===== verification/HorusRun.thy ===== *)
theory HorusRun
  imports HorusSetup PrfOramRun
begin

text \<open>
  Runs of Horus: a setup phase and searches after it; and what a first insertion after construction does.
\<close>

section \<open>The setup phase\<close>

fun hsetup_do :: "(bytes \<Rightarrow> nat \<Rightarrow> nat \<Rightarrow> bytes) \<Rightarrow> setup_op \<Rightarrow> horus \<Rightarrow> horus res" where
  "hsetup_do prg (SIns w x) st = horus_setupInsert prg w x st"
| "hsetup_do prg (SRem w x) st = horus_setupRemove prg w x st"

definition horus_setup :: "(bytes \<Rightarrow> nat \<Rightarrow> nat \<Rightarrow> bytes) \<Rightarrow> setup_op list \<Rightarrow> horus \<Rightarrow> horus res" where
  "horus_setup prg ss st = bindE (foldE (hsetup_do prg) ss (horus_beginSetup st)) horus_endSetup"

fun hsearches :: "(bytes \<Rightarrow> nat \<Rightarrow> nat \<Rightarrow> bytes) \<Rightarrow> string list \<Rightarrow> horus \<Rightarrow> (horus \<times> int list list) res" where
  "hsearches prg [] st = Inr (st, [])"
| "hsearches prg (w # ws) st = bindE (horus_search prg w st) (\<lambda>(st1, r). bindE (hsearches prg ws st1) (\<lambda>(st2, rs). Inr (st2, r # rs)))"

text \<open>The columns after the setup phase.\<close>

fun hstep :: "setup_op \<Rightarrow> (string \<Rightarrow> hword) \<Rightarrow> (string \<Rightarrow> hword)" where
  "hstep (SIns w x) H = H(w := hw_insert x (H w))"
| "hstep (SRem w x) H =
     (case find (\<lambda>i. fst (fst (H w) ! i) = x) [0..<length (fst (H w))] of None \<Rightarrow> H | Some i \<Rightarrow> H(w := hw_remove i (H w)))"

definition live_ids :: "(string \<Rightarrow> hword) \<Rightarrow> string \<Rightarrow> int set" where
  "live_ids H w = fst ` set (fst (H w))"

fun small_op :: "setup_op \<Rightarrow> bool" where
  "small_op (SIns w x) \<longleftrightarrow> small_id x"
| "small_op (SRem w x) \<longleftrightarrow> True"

lemma live_ids_insert: "live_ids (H(w := hw_insert x (H w))) = (live_ids H)(w := insert x (live_ids H w))"
  by (cases "H w") (auto simp: live_ids_def fun_eq_iff)

lemma live_ids_remove:
  assumes "distinct (map fst (fst (H w)))" "i < length (fst (H w))"
  shows "live_ids (H(w := hw_remove i (H w))) = (live_ids H)(w := live_ids H w - {fst (fst (H w) ! i)})"
proof -
  obtain live cols where H: "H w = (live, cols)" by fastforce
  have "live ! i = (fst (live ! i), snd (live ! i))" "distinct (map fst live)" "i < length live" using assms by (simp_all add: H)
  from hw_remove_live(2)[OF this(2,3,1)] have
    "fst ` set (fst (hw_remove i (live, cols))) = fst ` set live - {fst (live ! i)}" .
  then have "live_ids (H(w := hw_remove i (H w))) w = live_ids H w - {fst (fst (H w) ! i)}" unfolding live_ids_def H fun_upd_same fst_conv .
  then show ?thesis by (intro ext) (simp add: live_ids_def)
qed

definition setup_rest :: "horus \<Rightarrow> horus \<Rightarrow> bool" where
  "setup_rest st st' \<longleftrightarrow> OMAP_updt st' = OMAP_updt st \<and> ORAM_srch st' = ORAM_srch st \<and> h_maxSize st' = h_maxSize st"

lemma hsetup_word: "hsetup_inv prg K H D st \<Longrightarrow> good_word w \<Longrightarrow> distinct (map fst (fst (H w))) \<and> live_ids H w \<inter> D w = {}"
proof -
  assume "hsetup_inv prg K H D st" "good_word w"
  moreover obtain live cols where H: "H w = (live, cols)" by fastforce
  ultimately have "setup_word st w K (live, cols) (D w)" by (auto simp: hsetup_inv_def)
  from hword_okD(1,8)[OF this[unfolded setup_word_def]] show ?thesis by (simp add: live_ids_def H)
qed

lemma hsetup_ops_ok:
  assumes "hsetup_inv prg K H D st" "setup_spec ss (live_ids H, D) = Some (A, D')" "K + length ss \<le> 10 ^ 6" "\<forall>c \<in> set ss. small_op c"
  shows "\<exists>st'. foldE (hsetup_do prg) ss st = Inr st' \<and> hsetup_inv prg (K + length ss) (fold hstep ss H) D' st' \<and>
    A = live_ids (fold hstep ss H) \<and> setup_rest st st'"
  using assms
proof (induction ss arbitrary: K H D st)
  case Nil
  then show ?case by (simp add: setup_rest_def)
next
  case (Cons c ss)
  have K: "K < 10 ^ 6" "Suc K + length ss \<le> 10 ^ 6" using Cons.prems(3) by simp_all
  have step: "\<exists>st1 D1. hsetup_do prg c st = Inr st1 \<and> hsetup_inv prg (Suc K) (hstep c H) D1 st1 \<and> setup_rest st st1 \<and>
    setup_spec ss (live_ids (hstep c H), D1) = Some (A, D')"
  proof (cases c)
    case (SIns w x)
    have w: "good_word w" "x \<notin> live_ids H w" "small_id x"
      and sp: "setup_spec ss (live_ids (hstep c H), D(w := D w - {x})) = Some (A, D')"
      using Cons.prems(2,4) by (auto simp: SIns live_ids_insert split: if_splits)
    from horus_setupInsert_ok[OF Cons.prems(1) K(1) w(1,3)] w(2) sp show ?thesis
      by (auto simp: SIns live_ids_def setup_rest_def)
  next
    case (SRem w x)
    have w: "good_word w" "x \<in> live_ids H w \<union> D w"
      and sp: "setup_spec ss ((live_ids H)(w := live_ids H w - {x}), D(w := insert x (D w))) = Some (A, D')"
      using Cons.prems(2) by (auto simp: SRem split: if_splits)
    note d = hsetup_word[OF Cons.prems(1) w(1)]
    let ?f = "find (\<lambda>i. fst (fst (H w) ! i) = x) [0..<length (fst (H w))]"
    show ?thesis
    proof (cases ?f)
      case None
      then have "x \<notin> live_ids H w" by (fastforce simp: find_None_iff live_ids_def in_set_conv_nth)
      then have x: "x \<in> D w" "(live_ids H)(w := live_ids H w - {x}) = live_ids H" using w(2) by auto
      then have "D(w := insert x (D w)) = D" by (simp add: insert_absorb)
      with x(2) sp None horus_setupRemove_dead[OF Cons.prems(1) K(1) w(1) x(1)] show ?thesis by (auto simp: SRem setup_rest_def)
    next
      case (Some i)
      then have i: "i < length (fst (H w))" "fst (fst (H w) ! i) = x" by (auto simp: find_Some_iff)
      from horus_setupRemove_ok[OF Cons.prems(1) K(1) w(1) i(1)] i sp live_ids_remove[of H w i, OF conjunct1[OF d] i(1)] Some show ?thesis
        by (auto simp: SRem setup_rest_def)
    qed
  qed
  then obtain st1 D1 where s1: "hsetup_do prg c st = Inr st1" "hsetup_inv prg (Suc K) (hstep c H) D1 st1" "setup_rest st st1"
    "setup_spec ss (live_ids (hstep c H), D1) = Some (A, D')" by blast
  from Cons.IH[OF s1(2,4) K(2)] Cons.prems(4) obtain st' where
    "foldE (hsetup_do prg) ss st1 = Inr st'" "hsetup_inv prg (Suc K + length ss) (fold hstep ss (hstep c H)) D' st'"
    "A = live_ids (fold hstep ss (hstep c H))" "setup_rest st1 st'" by auto
  with s1(1,3) show ?case by (auto simp: setup_rest_def)
qed

section \<open>Loading\<close>

lemma hword_cols:
  assumes h: "hword_ok U0 U1 G K H D R c l" and K: "K \<le> 10 ^ 6"
    and G: "\<And>p a. in_int32 p \<Longrightarrow> in_int32 a \<Longrightarrow> G p a = f (hbid w p 0 a)"
    and z: "\<And>p s a. 0 < s \<Longrightarrow> in_int32 p \<Longrightarrow> in_int32 s \<Longrightarrow> in_int32 a \<Longrightarrow> f (hbid w p s a) = None"
  shows "word_cols f w 0 R c (hw_values H)" "length (hw_values H) \<le> K"
proof -
  obtain live cols where H: "H = (live, cols)" by (cases H)
  note d = hword_okD[OF h[unfolded H]]
  let ?cs = "map (\<lambda>col. (1, int (length col), List.last col)) (take (length live) cols)"
  have v: "hw_values H = map List.last (take (length live) cols)" "length (hw_values H) = length live" using d(2) by (simp_all add: hw_values_def H)
  show "length (hw_values H) \<le> K" using v(2) d(2,3) by simp
  have "col_ok f w 0 R (1 + int i) (?cs ! i)" if i: "i < length ?cs" for i
  proof -
    have i': "i < length cols" "i < length live" using i by simp_all
    let ?col = "cols ! i"
    have c: "?col \<noteq> []" "int (length ?col) \<le> R" using d(14,15)[OF i'(1)] by simp_all
    then have c1: "1 \<le> int (length ?col)" by (simp add: Suc_le_eq)
    have p: "in_int32 (1 + int i)" "nat (1 + int i - 1) = i" "1 + int i \<le> int (length cols)" using i'(1) d(3) K by (simp_all add: in_int32_def)
    have R: "in_int32 (2 * R)" using d(5) K c(2) by (simp add: in_int32_def)
    have g: "f (hbid w (1 + int i) 0 a) = (if 1 \<le> a \<and> a \<le> int (length ?col) then Some (to_string (?col ! nat (a - 1))) else None)"
      if "in_int32 a" for a using G[OF p(1) that] d(17)[OF p(1) that] p(3) by (simp add: cell_def cong: if_cong)
    have a32: "in_int32 a" if "1 \<le> a" "a \<le> R" for a using that R by (simp add: in_int32_def)
    have sm: "in_int32 (?col ! j)" if "j < length ?col" for j using d(16)[OF i'(1) nth_mem[OF that]] by (simp add: small_id_def)
    have "column (\<lambda>a. text_at f (hbid w (1 + int i) 0 a)) R 1 (int (length ?col)) (List.last ?col)"
      unfolding column_def
    proof (intro conjI allI impI)
      show "text_at f (hbid w (1 + int i) 0 (int (length ?col))) = to_string (List.last ?col)"
        using g[OF a32[OF c1 c(2)]] c1 last_conv_nth[OF c(1)] by (simp add: nat_diff_distrib)
      show "in_int32 (List.last ?col)" using sm[of "length ?col - 1"] c(1) by (simp add: last_conv_nth)
      fix a assume a: "1 \<le> a \<and> a \<le> int (length ?col)"
      then have "in_int32 a" "nat (a - 1) < length ?col" using a32 c(2) by auto
      with g[of a] sm a show "\<exists>x. in_int32 x \<and> text_at f (hbid w (1 + int i) 0 a) = to_string x" by auto
    next
      fix a assume a: "int (length ?col) < a \<and> a \<le> R"
      then have "in_int32 a" using a32 c1 by auto
      with g[of a] a show "text_at f (hbid w (1 + int i) 0 a) = ''''" by simp
    qed (use c c1 R in simp_all)
    then show ?thesis using i' by (simp add: col_ok_def)
  qed
  moreover have "map (\<lambda>(_, _, v). v) ?cs = hw_values H" by (simp add: v o_def)
  moreover have "in_int32 (1 + c)" "in_int32 0" using d(2-4) K by (simp_all add: in_int32_def)
  ultimately show "word_cols f w 0 R c (hw_values H)"
    using d(4) v(2) z unfolding word_cols_def by (intro conjI exI[of _ ?cs]) auto
qed

lemma horus_endSetup_ok:
  assumes inv: "hsetup_inv prg K H D st" and K: "K \<le> 10 ^ 6" "3 * K \<le> N" "K \<le> emptyNodes (p_store (ORAM_srch st))"
    and u: "omap_map N (OMAP_updt st) Map.empty" and f: "prf_map (leaf_of prg (h_maxSize st)) (floor_log2 (h_maxSize st)) (ORAM_srch st) Map.empty"
  shows "\<exists>st'. horus_endSetup st = Inr st' \<and> search_inv prg (\<lambda>w. hw_values (H w)) st' \<and> SrchCnt st' = [] \<and>
    emptyNodes (p_store (ORAM_srch st)) \<le> emptyNodes (p_store (ORAM_srch st')) + K"
proof -
  let ?m = "h_maxSize st" and ?vals = "h_setupPairs2 st"
  have i: "2 \<le> ?m" "SrchCnt st = []" "strings_ok (h_setupPairs1 st)" "length (h_setupPairs1 st) \<le> 3 * K" "boxes_ok prg ?m ?vals (setupPairsPos st)"
    "length ?vals \<le> K" "\<And>w. good_word w \<Longrightarrow> setup_word st w K (H w) (D w)" using inv by (simp_all add: hsetup_inv_def)
  have "\<forall>(k, v) \<in> set (h_setupPairs1 st). good_key k \<and> good_value v" using i(3) by (auto simp: strings_ok_def sm_in_set_iff)
  from omap_batchInsert_ok[OF u _ this] i(3,4) K(2) obtain u' where u': "omap_batchInsert (h_setupPairs1 st) (OMAP_updt st) = Inr u'"
    by (auto simp: strings_ok_def)
  have z: "in_int32 0" by (simp add: in_int32_def)
  have b: "sm_wf ?vals" "sm_wf (setupPairsPos st)" "\<And>k. sm_get (setupPairsPos st) k = map_option (\<lambda>_. leaf_of prg ?m k) (sm_get ?vals k)"
    and bk: "\<And>k v. sm_get ?vals k = Some v \<Longrightarrow> \<exists>w p a. k = hbid w p 0 a \<and> good_word w \<and> 1 \<le> p \<and> in_int32 p \<and> 1 \<le> a \<and> in_int32 a \<and> good_value v"
    using i(5) by (simp_all add: boxes_ok_def)
  have "entries_ok (leaf_of prg ?m) (floor_log2 ?m) ?vals (setupPairsPos st)"
  proof (rule entries_okI[OF b])
    fix k v assume "sm_get ?vals k = Some v"
    from bk[OF this] obtain w p a where k: "k = hbid w p 0 a" "good_word w" "1 \<le> p" "in_int32 p" "1 \<le> a" "in_int32 a" "good_value v" by blast
    then show "box_id k \<and> good_value v \<and> leaf_of prg ?m k < 2 ^ floor_log2 ?m"
      using hbid_box[OF k(2,4) _ k(6)] generatePosition_ok(2)[OF k(2,4) z k(6) i(1)] by simp
  qed
  from prf_batchWrite[OF f this _ sm_wf_distinct[OF b(1)]] i(6) K(3) obtain s' where
    s': "box_batchWrite ?vals (setupPairsPos st) (ORAM_srch st) = Inr s'" "prf_map (leaf_of prg ?m) (floor_log2 ?m) s' (sm_get ?vals)"
      "emptyNodes (p_store s') = emptyNodes (p_store (ORAM_srch st)) - length ?vals" by auto
  have "word_cols (sm_get ?vals) w (count_of (SrchCnt st) w) (count_of (h_Access st) w) (count_of (h_UpdtCnt st) w) (hw_values (H w))"
    if w: "good_word w" for w
  proof -
    have "sm_get ?vals (hbid w p s a) = None" if o: "0 < s" "in_int32 p" "in_int32 s" "in_int32 a" for p s a
    proof (rule ccontr)
      assume "\<not> ?thesis"
      then obtain v where "sm_get ?vals (hbid w p s a) = Some v" by auto
      from bk[OF this] obtain w' p' a' where "hbid w p s a = hbid w' p' 0 a'" "good_word w'" "in_int32 p'" "in_int32 a'" by blast
      then show False using hbid_inj[OF w _ o(2) _ o(3) z o(4)] o(1) by simp
    qed
    then have "word_cols (sm_get ?vals) w 0 (count_of (h_Access st) w) (count_of (h_UpdtCnt st) w) (hw_values (H w))"
      by (intro hword_cols(1)[OF i(7)[OF w, unfolded setup_word_def] K(1)]) simp_all
    then show ?thesis by (simp add: i(2) count_of_def[of "[]"])
  qed
  then have "search_inv prg (\<lambda>w. hw_values (H w)) (st\<lparr>OMAP_updt := u', ORAM_srch := s'\<rparr>)" using i(1) s'(2) by (auto simp: search_inv_def)
  then show ?thesis using u' s'(1,3) i(2,6) K(3) by (intro exI[of _ "st\<lparr>OMAP_updt := u', ORAM_srch := s'\<rparr>"]) (simp add: horus_endSetup_def)
qed

lemma hsearches_ok:
  assumes "search_inv prg V st" "\<forall>w \<in> set ws. good_word w" "\<forall>w. count_of (SrchCnt st) w + int (length ws) < 2 ^ 31"
    and "\<forall>w. good_word w \<longrightarrow> length (V w) \<le> K" "2 * K * length ws \<le> emptyNodes (p_store (ORAM_srch st))"
  shows "\<exists>st' rs. hsearches prg ws st = Inr (st', rs) \<and> map mset rs = map (\<lambda>w. mset (V w)) ws"
  using assms
proof (induction ws arbitrary: st)
  case Nil
  then show ?case by simp
next
  case (Cons w ws)
  have w: "good_word w" using Cons.prems(2) by simp
  have "0 \<le> count_of (SrchCnt st) w" using Cons.prems(1) w by (auto simp: search_inv_def word_cols_def)
  then have s1: "in_int32 (count_of (SrchCnt st) w + 1)" using spec[OF Cons.prems(3), of w] by (simp add: in_int32_def)
  have l: "length (V w) \<le> K" using Cons.prems(4) w by blast
  have e: "2 * K + 2 * K * length ws \<le> emptyNodes (p_store (ORAM_srch st))" using Cons.prems(5) by (simp add: algebra_simps)
  then have "2 * length (V w) \<le> emptyNodes (p_store (ORAM_srch st))" using l by linarith
  from horus_search_ok[OF Cons.prems(1) w s1 this] obtain st1 r where
    r: "horus_search prg w st = Inr (st1, r)" "mset r = mset (V w)" "search_inv prg V st1"
      "count_of (SrchCnt st1) = (count_of (SrchCnt st))(w := count_of (SrchCnt st) w + 1)"
      "emptyNodes (p_store (ORAM_srch st)) \<le> emptyNodes (p_store (ORAM_srch st1)) + 2 * length (V w)" by blast
  have "\<forall>v. count_of (SrchCnt st1) v + int (length ws) < 2 ^ 31"
  proof
    fix v
    show "count_of (SrchCnt st1) v + int (length ws) < 2 ^ 31" using spec[OF Cons.prems(3), of v] by (auto simp: r(4))
  qed
  moreover have "2 * K * length ws \<le> emptyNodes (p_store (ORAM_srch st1))" using r(5) e l by linarith
  ultimately obtain st2 rs where "hsearches prg ws st1 = Inr (st2, rs)" "map mset rs = map (\<lambda>w. mset (V w)) ws"
    using Cons.IH[OF r(3) _ _ Cons.prems(4)] Cons.prems(2) by auto
  with r(1,2) show ?case by auto
qed

section \<open>Construction\<close>

definition horus_env :: "cbc \<Rightarrow> devices \<Rightarrow> (nat \<Rightarrow> bytes) \<Rightarrow> nat \<Rightarrow> bool" where
  "horus_env A d ivs maxSize \<longleftrightarrow> cbc_good A \<and> 2 \<le> maxSize \<and> maxSize < 2 ^ 29 \<and> devices_good (floor_log2 maxSize) d \<and> (\<forall>i. length (ivs i) = IV)"

definition box_space :: "nat \<Rightarrow> nat" where
  "box_space maxSize = Z * (2 ^ (floor_log2 maxSize + 1) - 1)"

lemma Horus_ok:
  assumes "horus_env A d ivs maxSize"
  defines "N \<equiv> capacity (floor_log2 maxSize)"
  shows "\<exists>u s. Horus A d ivs maxSize = Inr \<lparr>h_setupPairs1 = [], h_setupPairs2 = [], setupPairsPos = [], OMAP_updt = u, h_UpdtCnt = [], SrchCnt = [],
      h_Access = [], h_LastIND = [], latestUpdatedCounter = [], h_maxSize = maxSize, ORAM_srch = s\<rparr> \<and> omap_map N u Map.empty \<and>
    prf_map (leaf_of prg maxSize) (floor_log2 maxSize) s Map.empty \<and> emptyNodes (p_store s) = box_space maxSize"
proof -
  have e: "cbc_good A" "2 \<le> maxSize" "maxSize < 2 ^ 29" "devices_good (floor_log2 maxSize) d" "\<forall>i. length (ivs i) = IV"
    using assms(1) by (simp_all add: horus_env_def)
  have d: "floor_log2 maxSize \<le> 28" using floor_log2_bound[of maxSize 28] e(3) by simp
  have dz: "floor_log2 (maxSize * INC_FACTOR div Z) = floor_log2 maxSize" by (simp add: Z_def INC_FACTOR_def)
  have zm: "Z \<le> maxSize * INC_FACTOR" using e(2) by (simp add: Z_def INC_FACTOR_def)
  have "\<exists>m :: 3 omap. OMAP A (d_ivs d) (d_oram d) (d_avl d) (maxSize * INC_FACTOR) key1 = Inr m \<and> omap_map N m Map.empty"
    unfolding N_def by (rule OMAP_ok) (use e d zm in \<open>simp_all add: dz devices_good_def\<close>)
  then obtain u :: "3 omap" where u: "OMAP A (d_ivs d) (d_oram d) (d_avl d) (maxSize * INC_FACTOR) key1 = Inr u" "omap_map N u Map.empty" by blast
  have d30: "floor_log2 (maxSize * INC_FACTOR div Z) \<le> 30" using d dz by simp
  from PRFORAM_ok[OF e(1,5) zm d30, of key2 "leaf_of prg maxSize"] obtain s where
    s: "PRFORAM A ivs (maxSize * INC_FACTOR) key2 = Inr s" "prf_map (leaf_of prg maxSize) (floor_log2 maxSize) s Map.empty"
      "emptyNodes (p_store s) = box_space maxSize" unfolding dz box_space_def by blast
  have "int32 (int maxSize * int INC_FACTOR) = Inr (int maxSize * int INC_FACTOR)" using e(3) by (simp add: int32_def in_int32_def INC_FACTOR_def)
  then have "Horus A d ivs maxSize = Inr \<lparr>h_setupPairs1 = [], h_setupPairs2 = [], setupPairsPos = [], OMAP_updt = u, h_UpdtCnt = [], SrchCnt = [],
      h_Access = [], h_LastIND = [], latestUpdatedCounter = [], h_maxSize = maxSize, ORAM_srch = s\<rparr>" using u(1) s(1) by (simp add: Horus_def)
  then show ?thesis using u(2) s(2,3) by blast
qed

lemma horus_new_setup:
  assumes "2 \<le> h_maxSize st" "SrchCnt st = []" "setupPairsPos st = []" "h_Access st = []" "h_UpdtCnt st = []" "h_LastIND st = []"
  shows "hsetup_inv prg 0 (\<lambda>_. ([], [])) (\<lambda>_. {}) (horus_beginSetup st)"
proof -
  have "cell [] p a = None" for p a by (simp add: cell_def)
  then show ?thesis
    using assms by (simp add: hsetup_inv_def horus_beginSetup_def strings_ok_def boxes_ok_def has_def setup_word_def hword_ok_def count_of_def)
qed

lemma horus_setup_columns:
  assumes env: "horus_env A d ivs maxSize" and sp: "setup_spec ss (\<lambda>_. {}, \<lambda>_. {}) = Some (S, D)" and small: "\<forall>c \<in> set ss. small_op c"
    and room: "length ss \<le> 10 ^ 6" "3 * length ss \<le> capacity (floor_log2 maxSize)" "length ss \<le> box_space maxSize"
  defines "H \<equiv> fold hstep ss (\<lambda>_. ([], []))"
  shows "\<exists>st0 st. Horus A d ivs maxSize = Inr st0 \<and> horus_setup prg ss st0 = Inr st \<and> search_inv prg (\<lambda>w. hw_values (H w)) st \<and> SrchCnt st = [] \<and>
      box_space maxSize \<le> emptyNodes (p_store (ORAM_srch st)) + length ss" "S = live_ids H"
    "good_word w \<Longrightarrow> length (hw_values (H w)) \<le> length ss" "good_word w \<Longrightarrow> distinct (map fst (fst (H w)))"
proof -
  let ?N = "capacity (floor_log2 maxSize)"
  from Horus_ok[OF env, of prg] obtain u s where
    st: "Horus A d ivs maxSize = Inr \<lparr>h_setupPairs1 = [], h_setupPairs2 = [], setupPairsPos = [], OMAP_updt = u, h_UpdtCnt = [], SrchCnt = [],
      h_Access = [], h_LastIND = [], latestUpdatedCounter = [], h_maxSize = maxSize, ORAM_srch = s\<rparr>" (is "_ = Inr ?st")
    and u: "omap_map ?N u Map.empty" and f: "prf_map (leaf_of prg maxSize) (floor_log2 maxSize) s Map.empty" and e: "emptyNodes (p_store s) = box_space maxSize"
    by blast
  have i0: "hsetup_inv prg 0 (\<lambda>_. ([], [])) (\<lambda>_. {}) (horus_beginSetup ?st)" by (rule horus_new_setup) (use env in \<open>simp_all add: horus_env_def\<close>)
  have "live_ids (\<lambda>_. ([], [])) = (\<lambda>_. {})" by (simp add: fun_eq_iff live_ids_def)
  then have sp': "setup_spec ss (live_ids (\<lambda>_. ([], [])), \<lambda>_. {}) = Some (S, D)" using sp by (simp only:)
  from hsetup_ops_ok[OF i0 sp' _ small] room(1) obtain st1 where
    s1: "foldE (hsetup_do prg) ss (horus_beginSetup ?st) = Inr st1" "hsetup_inv prg (length ss) H D st1" "S = live_ids H" "setup_rest (horus_beginSetup ?st) st1"
    unfolding H_def by auto
  have m: "OMAP_updt st1 = u" "ORAM_srch st1 = s" "h_maxSize st1 = maxSize" using s1(4) by (simp_all add: setup_rest_def horus_beginSetup_def)
  have "length ss \<le> emptyNodes (p_store (ORAM_srch st1))" using room(3) e m(2) by simp
  from horus_endSetup_ok[OF s1(2) room(1,2) this] u f m e obtain st2 where
    s2: "horus_endSetup st1 = Inr st2" "search_inv prg (\<lambda>w. hw_values (H w)) st2" "SrchCnt st2 = []"
      "box_space maxSize \<le> emptyNodes (p_store (ORAM_srch st2)) + length ss" by auto
  have "horus_setup prg ss ?st = Inr st2" using s1(1) s2(1) by (simp add: horus_setup_def)
  then show "\<exists>st0 st. Horus A d ivs maxSize = Inr st0 \<and> horus_setup prg ss st0 = Inr st \<and> search_inv prg (\<lambda>w. hw_values (H w)) st \<and> SrchCnt st = [] \<and>
      box_space maxSize \<le> emptyNodes (p_store (ORAM_srch st)) + length ss" using st s2(2-4) by blast
  show "S = live_ids H" by (rule s1(3))
  show "good_word w \<Longrightarrow> distinct (map fst (fst (H w)))" using hsetup_word[OF s1(2)] by blast
  assume "good_word w"
  then have "setup_word st1 w (length ss) (H w) (D w)" using s1(2) by (simp add: hsetup_inv_def)
  then show "length (hw_values (H w)) \<le> length ss" by (cases "H w") (auto simp: setup_word_def hword_ok_def hw_values_def)
qed

text \<open>A setup phase and the searches after it, on a new index.\<close>

definition horus_run :: "cbc \<Rightarrow> devices \<Rightarrow> (nat \<Rightarrow> bytes) \<Rightarrow> nat \<Rightarrow> (bytes \<Rightarrow> nat \<Rightarrow> nat \<Rightarrow> bytes) \<Rightarrow> setup_op list \<Rightarrow> string list \<Rightarrow> int multiset list res" where
  "horus_run A d ivs maxSize prg ss ws =
     bindE (Horus A d ivs maxSize) (\<lambda>st. bindE (horus_setup prg ss st) (\<lambda>st1. bindE (hsearches prg ws st1) (\<lambda>(_, rs). Inr (map mset rs))))"

lemma horus_run_columns:
  assumes env: "horus_env A d ivs maxSize" and sp: "setup_spec ss (\<lambda>_. {}, \<lambda>_. {}) = Some (S, D)" and small: "\<forall>c \<in> set ss. small_op c"
    and ws: "\<forall>w \<in> set ws. good_word w" "length ws < 2 ^ 31"
    and room: "length ss \<le> 10 ^ 6" "3 * length ss \<le> capacity (floor_log2 maxSize)" "length ss * (1 + 2 * length ws) \<le> box_space maxSize"
  shows "horus_run A d ivs maxSize prg ss ws = Inr (map (\<lambda>w. mset (hw_values (fold hstep ss (\<lambda>_. ([], [])) w))) ws)"
proof -
  have sum: "length ss + 2 * length ss * length ws \<le> box_space maxSize" using room(3) by (simp add: algebra_simps)
  then have "length ss \<le> box_space maxSize" by simp
  note c = horus_setup_columns[OF env sp small room(1,2) this]
  from c(1)[of prg] obtain st0 st where
    st: "Horus A d ivs maxSize = Inr st0" "horus_setup prg ss st0 = Inr st" "search_inv prg (\<lambda>w. hw_values (fold hstep ss (\<lambda>_. ([], [])) w)) st"
      "SrchCnt st = []" "box_space maxSize \<le> emptyNodes (p_store (ORAM_srch st)) + length ss" by blast
  have "\<forall>w. count_of (SrchCnt st) w + int (length ws) < 2 ^ 31" using ws(2) by (simp add: st(4) count_of_def)
  moreover have "2 * length ss * length ws \<le> emptyNodes (p_store (ORAM_srch st))" using st(5) sum by linarith
  ultimately obtain st3 rs where "hsearches prg ws st = Inr (st3, rs)" "map mset rs = map (\<lambda>w. mset (hw_values (fold hstep ss (\<lambda>_. ([], [])) w))) ws"
    using hsearches_ok[OF st(3) ws(1) _ _] c(3) by blast
  then show ?thesis using st(1,2) by (simp add: horus_run_def)
qed

section \<open>Setup without reuse of positions\<close>

text \<open>No identifier is inserted under a keyword after one was removed from it.\<close>

fun inserts_first :: "setup_op list \<Rightarrow> bool" where
  "inserts_first [] \<longleftrightarrow> True"
| "inserts_first (SIns w x # ss) \<longleftrightarrow> inserts_first ss"
| "inserts_first (SRem w x # ss) \<longleftrightarrow> (\<forall>c \<in> set ss. \<forall>y. c \<noteq> SIns w y) \<and> inserts_first ss"

fun tidy :: "hword \<Rightarrow> bool" where
  "tidy (live, cols) \<longleftrightarrow> length live \<le> length cols \<and> (\<forall>i < length live. cols ! i \<noteq> [] \<and> live ! i = (List.last (cols ! i), int (length (cols ! i))))"

lemma tidy_insert:
  assumes "tidy (live, cols)" "length live = length cols"
  shows "tidy (hw_insert x (live, cols))" "length (fst (hw_insert x (live, cols))) = length (snd (hw_insert x (live, cols)))"
  using assms by (auto simp: nth_append)

lemma tidy_remove:
  assumes "tidy (live, cols)" "i < length live"
  shows "tidy (hw_remove i (live, cols))"
proof -
  have ic: "i < length cols" using assms by simp
  have "put_at (length (cols ! i)) l (cols ! i) = cols ! i @ [l]" for l by (simp add: put_at_def)
  moreover have "snd (live ! i) = int (length (cols ! i))" using assms by simp
  ultimately show ?thesis using assms by (auto simp: nth_butlast nth_list_update Let_def)
qed

lemma tidy_values: "tidy H \<Longrightarrow> hw_values H = map fst (fst H)"
  by (cases H) (auto simp: hw_values_def intro: nth_equalityI)

lemma tidy_fold:
  assumes "\<And>w. tidy (H w)" "inserts_first ss" "\<And>w. (\<exists>x. SIns w x \<in> set ss) \<Longrightarrow> length (fst (H w)) = length (snd (H w))"
  shows "tidy (fold hstep ss H w)"
  using assms
proof (induction ss arbitrary: H)
  case Nil
  then show ?case by simp
next
  case (Cons c ss)
  have "(\<forall>v. tidy (hstep c H v)) \<and> (\<forall>v. (\<exists>x. SIns v x \<in> set ss) \<longrightarrow> length (fst (hstep c H v)) = length (snd (hstep c H v)))"
  proof (cases c)
    case (SIns v x)
    have l: "length (fst (H v)) = length (snd (H v))" using Cons.prems(3)[of v] by (auto simp: SIns)
    have "tidy (hw_insert x (H v)) \<and> length (fst (hw_insert x (H v))) = length (snd (hw_insert x (H v)))"
      using tidy_insert[of "fst (H v)" "snd (H v)"] Cons.prems(1)[of v] l by simp
    then show ?thesis using Cons.prems(1,3) by (auto simp: SIns)
  next
    case (SRem v x)
    have "tidy (hw_remove i (H v))" if "i < length (fst (H v))" for i
      using tidy_remove[of "fst (H v)" "snd (H v)" i] Cons.prems(1)[of v] that by simp
    then show ?thesis using Cons.prems by (auto simp: SRem find_Some_iff split: option.split)
  qed
  moreover have "inserts_first ss" using Cons.prems(2) by (cases c) simp_all
  ultimately have "tidy (fold hstep ss (hstep c H) w)" using Cons.IH by blast
  then show ?case by simp
qed

section \<open>Bounds\<close>

lemma capacity_two: "2 \<le> capacity d"
proof -
  have "5 \<le> fib (d + 5)" using fib_mono[of 5 "d + 5"] by (simp add: numeral_eq_Suc)
  then have "2 \<le> fib (d + 5) - 2" by linarith
  moreover have "2 \<le> (2::nat) ^ (d + 1)" by simp
  then have "2 \<le> 4 * ((2::nat) ^ (d + 1) - 1)" by linarith
  ultimately show ?thesis unfolding capacity_def Z_def by (intro min.boundedI)
qed

text \<open>A greater budget does not change the result of a search.\<close>

lemma search_loop_mono:
  assumes "search_loop prg m w src fuel first rows ws s = Inr r" "fuel \<le> fuel'"
  shows "search_loop prg m w src fuel' first rows ws s = Inr r"
  using assms
proof (induction prg m w src fuel first rows ws s arbitrary: fuel' rule: search_loop.induct)
  case (2 prg m w src fuel first rows ws s)
  then obtain k where k: "fuel' = Suc k" "fuel \<le> k" by (cases fuel') auto
  show ?case
  proof (cases "list_all foundItem rows")
    case True
    then show ?thesis using "2.prems" k by simp
  next
    case False
    with "2.prems"(1) obtain q s1 ids rows' ws' where
      q: "query_rows prg m w src 1 rows = Inr q" "batchRead q s = Inr (s1, ids)" "answer_rows prg m w src first 1 rows ids ws = Inr (rows', ws')"
        "search_loop prg m w src fuel False rows' ws' s1 = Inr r" by (auto simp: bindE_Inr_iff)
    with "2.IH"[OF False q(1,2) refl q(3) refl q(4) k(2)] k(1) False show ?thesis by simp
  qed
qed simp

section \<open>Properties\<close>

text \<open>
  C3. Horus answers correctly after setup. On a new index, over any block cipher whose decryption inverts its encryption and any derivation of positions, a setup
  phase that inserts no identifier under a keyword after it removed one from it (and inserts none twice) is followed by searches that return exactly the
  identifiers inserted and not removed, each once, however often they are repeated, as long as the entries and the boxes written fit.
  Keywords have at most 12 characters and identifiers at most 8 digits.
\<close>

theorem horus_setup_correct:
  assumes "horus_env A d ivs maxSize" "setup_spec ss (\<lambda>_. {}, \<lambda>_. {}) = Some (S, D)" "inserts_first ss" "\<forall>c \<in> set ss. small_op c"
    and "\<forall>w \<in> set ws. good_word w" "length ws < 2 ^ 31" "length ss \<le> 10 ^ 6" "3 * length ss \<le> capacity (floor_log2 maxSize)"
    and "length ss * (1 + 2 * length ws) \<le> box_space maxSize"
  shows "horus_run A d ivs maxSize prg ss ws = Inr (map (\<lambda>w. mset_set (S w)) ws)"
proof -
  let ?H = "fold hstep ss (\<lambda>_. ([], []))"
  have room: "length ss \<le> box_space maxSize" using assms(9) by (simp add: algebra_simps)
  note c = horus_setup_columns[OF assms(1,2,4,7,8) room]
  have t: "tidy (?H w)" for w using assms(3) by (intro tidy_fold) auto
  have d: "distinct (map fst (fst (?H w)))" if "good_word w" for w by (rule c(4)[OF that])
  have "mset (hw_values (?H w)) = mset_set (S w)" if "good_word w" for w
    using tidy_values[OF t] d[OF that] by (simp add: c(2) live_ids_def mset_set_set flip: set_map)
  then have "map (\<lambda>w. mset (hw_values (?H w))) ws = map (\<lambda>w. mset_set (S w)) ws" using assms(5) by simp
  then show ?thesis using horus_run_columns[OF assms(1,2,4-9), of prg] by simp
qed

lemma sample_horus: "horus_env pad_cbc sample_devices (\<lambda>_. replicate IV 0) 8" "capacity (floor_log2 8) = 19" "box_space 8 = 60"
proof -
  have l: "floor_log2 8 = 3" by (simp add: floor_log2.simps)
  show "horus_env pad_cbc sample_devices (\<lambda>_. replicate IV 0) 8"
    by (auto simp: horus_env_def pad_cbc_good devices_good_def sample_devices_def l intro: order.strict_trans[of _ 4])
  have "capacity 3 = 19" by code_simp
  then show "capacity (floor_log2 8) = 19" by (simp only: l)
  show "box_space 8 = 60" by (simp add: l box_space_def Z_def)
qed

definition zero_prg :: "bytes \<Rightarrow> nat \<Rightarrow> nat \<Rightarrow> bytes" where
  "zero_prg k off n = replicate n 0"

lemma sample_small: "good_word ''w''" "small_id 1" "small_id 2" "small_id 3"
  by (simp_all add: good_word_def small_counter)

theorem horus_setup_correct_witness:
  "horus_run pad_cbc sample_devices (\<lambda>_. replicate IV 0) 8 zero_prg [SIns ''w'' 1, SIns ''w'' 2, SIns ''w'' 3, SRem ''w'' 1] [''w'', ''v'', ''w''] =
    Inr [{#2, 3#}, {#}, {#2, 3#}]"
proof -
  let ?ss = "[SIns ''w'' 1, SIns ''w'' 2, SIns ''w'' 3, SRem ''w'' 1]"
  have sp: "setup_spec ?ss (\<lambda>_. {}, \<lambda>_. {}) = Some ((\<lambda>_. {})(''w'' := {2, 3}), (\<lambda>_. {})(''w'' := {1}))"
    using sample_small(1) by (auto simp: in_int32_def fun_eq_iff)
  have gw: "\<forall>w \<in> set [''w'', ''v'', ''w'']. good_word w" by (simp add: good_word_def)
  have "horus_run pad_cbc sample_devices (\<lambda>_. replicate IV 0) 8 zero_prg ?ss [''w'', ''v'', ''w''] =
      Inr (map (\<lambda>w. mset_set (((\<lambda>_. {})(''w'' := {2, 3})) w)) [''w'', ''v'', ''w''])"
    by (rule horus_setup_correct[OF sample_horus(1) sp _ _ gw]) (simp_all add: sample_small sample_horus(2,3))
  then show ?thesis by simp
qed

text \<open>
  C33. Setup can lose an identifier and return a removed one. When all identifiers of a keyword are removed during setup, one of them after it took the
  place of another, and a new one is inserted, \<open>setupInsert\<close> writes it under access counter 1, while the search finds the greatest
  counter of the position: it returns the removed identifier \<open>y\<close> in place of \<open>z\<close>, the only one that is in the index.
\<close>

theorem horus_setup_stale:
  assumes "horus_env A d ivs maxSize" "good_word w" "small_id x" "small_id y" "small_id z" "distinct [x, y, z]" "15 \<le> capacity (floor_log2 maxSize)"
  defines "ss \<equiv> [SIns w x, SIns w y, SRem w x, SRem w y, SIns w z]"
  shows "(\<exists>S D. setup_spec ss (\<lambda>_. {}, \<lambda>_. {}) = Some (S, D) \<and> S w = {z}) \<and> horus_run A d ivs maxSize prg ss [w] = Inr [{#y#}]"
proof -
  have b: "15 \<le> box_space maxSize" using assms(7) by (simp add: capacity_def box_space_def)
  have i: "in_int32 x" "in_int32 y" "in_int32 z" using assms(3-5) by (simp_all add: small_id_def)
  have sp: "\<exists>S D. setup_spec ss (\<lambda>_. {}, \<lambda>_. {}) = Some (S, D) \<and> S w = {z}"
    using assms(2,6) i by (auto simp: ss_def)
  then obtain S D where "setup_spec ss (\<lambda>_. {}, \<lambda>_. {}) = Some (S, D)" by blast
  from horus_run_columns[OF assms(1) this, of "[w]" prg] assms(2-5,7) b have
    "horus_run A d ivs maxSize prg ss [w] = Inr [mset (hw_values (fold hstep ss (\<lambda>_. ([], [])) w))]" by (simp add: ss_def)
  moreover have "hw_values (fold hstep ss (\<lambda>_. ([], [])) w) = [y]"
    using assms(6) by (simp add: ss_def hw_values_def put_at_def upt_rec)
  ultimately show ?thesis using sp by simp
qed

theorem horus_setup_stale_witness:
  "horus_run pad_cbc sample_devices (\<lambda>_. replicate IV 0) 8 zero_prg [SIns ''w'' 1, SIns ''w'' 2, SRem ''w'' 1, SRem ''w'' 2, SIns ''w'' 3] [''w''] = Inr [{#2#}]"
  using horus_setup_stale[OF sample_horus(1) sample_small, of zero_prg] by (simp add: sample_horus(2))

text \<open>
  C32. A first insertion into an index of size at least two is undefined behaviour: the single write of the ORAM reads the position of the box after the
  box was moved to its bucket and deleted.
\<close>

theorem horus_insert_undefined:
  assumes "horus_env A d ivs maxSize" "good_word w" "small_id x"
  shows "bindE (Horus A d ivs maxSize) (horus_insert prg w x) = Inl Undefined_behaviour"
proof -
  let ?N = "capacity (floor_log2 maxSize)"
  from Horus_ok[OF assms(1), of prg] obtain u s where
    st: "Horus A d ivs maxSize = Inr \<lparr>h_setupPairs1 = [], h_setupPairs2 = [], setupPairsPos = [], OMAP_updt = u, h_UpdtCnt = [], SrchCnt = [],
      h_Access = [], h_LastIND = [], latestUpdatedCounter = [], h_maxSize = maxSize, ORAM_srch = s\<rparr>" (is "_ = Inr ?st")
    and u: "omap_map ?N u Map.empty" and f: "prf_map (leaf_of prg maxSize) (floor_log2 maxSize) s Map.empty" and e: "emptyNodes (p_store s) = box_space maxSize"
    by blast
  have m: "2 \<le> maxSize" using assms(1) by (simp add: horus_env_def)
  then have d: "0 < floor_log2 maxSize" by (simp add: floor_log2.simps[of maxSize])
  have N: "2 \<le> ?N" by (rule capacity_two)
  have i: "in_int32 x" "in_int32 1" "in_int32 0" using assms(3) by (simp_all add: small_id_def in_int32_def)
  note k = hkey_good[OF assms(2)]
  from omap.find_absent[OF u k[of 0 x]] obtain u1 where u1: "omap_find (hkey 0 w x) u = Inr (u1, [])" "omap_map ?N u1 Map.empty" by auto
  from omap.find_absent[OF u1(2) k[of 1 1]] obtain u2 where u2: "omap_find (hkey 1 w 1) u1 = Inr (u2, [])" "omap_map ?N u2 Map.empty" by auto
  have gv: "good_value (pair_text 1 1)" "good_value (pair_text x 1)" "good_value (to_string x)"
    using pair_good[OF small_counter, of 1 1] pair_good[OF assms(3), of 1] to_string_good[OF i(1)] by simp_all
  from omap.put[OF u2(2) k[of 0 x] gv(1)] N obtain u3 where u3: "omap_insert (hkey 0 w x) (pair_text 1 1) u2 = Inr u3" "omap_map ?N u3 [hkey 0 w x \<mapsto> pair_text 1 1]"
    by auto
  have "card (insert (hkey 1 w 1) (dom [hkey 0 w x \<mapsto> pair_text 1 1])) \<le> ?N" using N by (simp add: card_insert_if)
  from omap.put[OF u3(2) k[of 1 1] gv(2) this] obtain u4 where u4: "omap_insert (hkey 1 w 1) (pair_text x 1) u3 = Inr u4" by blast
  note g = generatePosition_ok[OF assms(2) i(2,3,2) m, of prg]
  have "2 \<le> (2::nat) ^ (floor_log2 maxSize + 1)" by simp
  then have "0 < emptyNodes (p_store s)" unfolding e box_space_def Z_def by linarith
  from WriteBox_use_after_free[OF f d hbid_box[OF assms(2) i(2) _ i(2), of 0] gv(3) g(2) this] have
    "WriteBox (hbid w 1 0 1) (to_string x) (leaf_of prg maxSize (hbid w 1 0 1)) s = Inl Undefined_behaviour" by (simp add: Z_def)
  moreover have "int32 1 = Inr 1" by (simp add: int32_def i)
  ultimately have "horus_insert prg w x ?st = Inl Undefined_behaviour"
    using u1(1) u2(1) u3(1) u4 g(1)
    by (simp add: horus_insert_def map_bid_ok[OF assms(2)] new_counters_def has_def count_of_def write_box_def oram_bid_ok[OF assms(2)])
  then show ?thesis using st by simp
qed

theorem horus_insert_undefined_witness:
  "bindE (Horus pad_cbc sample_devices (\<lambda>_. replicate IV 0) 8) (horus_insert zero_prg ''w'' 1) = Inl Undefined_behaviour"
  by (rule horus_insert_undefined[OF sample_horus(1) sample_small(1,2)])

text \<open>
  C31. The loop of a search ends. In every state of the index in which the boxes of the keyword are columns (as after setup and after any search), the number of rounds
  is at most twice the greatest access counter plus five: with this budget or any greater one the loop returns the same result, every value
  of the keyword once.
\<close>

theorem search_loop_terminates:
  assumes "search_inv prg V st" "good_word w" "in_int32 (count_of (SrchCnt st) w + 1)"
  shows "\<exists>ws s. mset (w_result ws) = mset (V w) \<and> (\<forall>fuel \<ge> 2 * nat (count_of (h_Access st) w) + 5.
    search_loop prg (h_maxSize st) w (count_of (SrchCnt st) w) fuel True (replicate (length (V w)) (new_row (count_of (h_Access st) w)))
      \<lparr>w_result = [], w_query = [], w_queryID = []\<rparr> (ORAM_srch st) = Inr (ws, s))"
proof -
  let ?m = "h_maxSize st" and ?src = "count_of (SrchCnt st) w" and ?R = "count_of (h_Access st) w"
  from assms(1,2) obtain f where m: "2 \<le> ?m" and f: "prf_map (leaf_of prg ?m) (floor_log2 ?m) (ORAM_srch st) f"
    and wd: "word_cols f w ?src ?R (count_of (h_UpdtCnt st) w) (V w)" by (auto simp: search_inv_def)
  from wd have "count_of (h_UpdtCnt st) w = int (length (V w))" "in_int32 (1 + count_of (h_UpdtCnt st) w)" unfolding word_cols_def by blast+
  then have n2: "in_int32 (1 + int (length (V w)))" by simp
  from wd obtain cs where n: "in_int32 ?src"
    and cs: "map (\<lambda>(_, _, v). v) cs = V w" "\<forall>i < length cs. col_ok f w ?src ?R (1 + int i) (cs ! i)" unfolding word_cols_def by blast
  have l: "length cs = length (V w)" using cs(1) by (metis length_map)
  have "in_int32 (1 + int (length cs))" using n2 l by simp
  from search_start[OF f assms(2) m n assms(3) cs(2) this] obtain ws s xs where
    r: "search_loop prg ?m w ?src (search_fuel ?R) True (replicate (length cs) (new_row ?R)) \<lparr>w_result = [], w_query = [], w_queryID = []\<rparr> (ORAM_srch st) = Inr (ws, s)"
      "found_rows prg ?m w (?src + 1) xs ws" "mset xs = mset (tags 1 cs)" by blast
  have "mset (map (\<lambda>(_, _, v). v) xs) = mset (V w)"
    using arg_cong[OF r(3), of "image_mset (\<lambda>(_, _, v). v)"] tags_facts(2)[of 1 cs] cs(1) by (simp flip: mset_map)
  then have "mset (w_result ws) = mset (V w)" using r(2) by (simp add: found_rows_def queued_def)
  moreover have "search_loop prg ?m w ?src fuel True (replicate (length (V w)) (new_row ?R)) \<lparr>w_result = [], w_query = [], w_queryID = []\<rparr> (ORAM_srch st) = Inr (ws, s)"
    if "2 * nat ?R + 5 \<le> fuel" for fuel using search_loop_mono[OF r(1)] that l by (simp add: search_fuel_def)
  ultimately show ?thesis by blast
qed

theorem search_loop_terminates_witness:
  "\<exists>st0 st. Horus pad_cbc sample_devices (\<lambda>_. replicate IV 0) 8 = Inr st0 \<and> horus_setup zero_prg [SIns ''w'' 1, SIns ''w'' 2, SRem ''w'' 1] st0 = Inr st \<and>
    (\<exists>ws s. mset (w_result ws) = {#2#} \<and> (\<forall>fuel \<ge> 2 * nat (count_of (h_Access st) ''w'') + 5.
      search_loop zero_prg (h_maxSize st) ''w'' (count_of (SrchCnt st) ''w'') fuel True (replicate 1 (new_row (count_of (h_Access st) ''w'')))
        \<lparr>w_result = [], w_query = [], w_queryID = []\<rparr> (ORAM_srch st) = Inr (ws, s)))"
proof -
  let ?ss = "[SIns ''w'' 1, SIns ''w'' 2, SRem ''w'' 1]"
  have sp: "setup_spec ?ss (\<lambda>_. {}, \<lambda>_. {}) = Some ((\<lambda>_. {})(''w'' := {2}), (\<lambda>_. {})(''w'' := {1}))"
    using sample_small(1) by (auto simp: in_int32_def fun_eq_iff)
  have "\<forall>c \<in> set ?ss. small_op c" by (simp add: sample_small)
  from horus_setup_columns(1)[OF sample_horus(1) sp this, of zero_prg] obtain st0 st where
    st: "Horus pad_cbc sample_devices (\<lambda>_. replicate IV 0) 8 = Inr st0" "horus_setup zero_prg ?ss st0 = Inr st"
      "search_inv zero_prg (\<lambda>w. hw_values (fold hstep ?ss (\<lambda>_. ([], [])) w)) st" "SrchCnt st = []" by (auto simp: sample_horus(2,3))
  have v: "hw_values (fold hstep ?ss (\<lambda>_. ([], [])) ''w'') = [2]" by (simp add: hw_values_def put_at_def upt_rec)
  have "in_int32 (count_of (SrchCnt st) ''w'' + 1)" by (simp add: st(4) count_of_def in_int32_def)
  note search_loop_terminates[OF st(3) sample_small(1) this, unfolded v]
  with st(1,2) show ?thesis by simp
qed

end
