(* ===== verification/Spec2Isabelle.thy ===== *)
theory Spec2Isabelle
  imports MitraNet DianaInterface FidesParallel OrionRun Janus HorusRun
begin

text \<open>
  \<^bold>\<open>What the program is.\<close> The repository implements dynamic searchable encryption schemes: a client keeps a small state
  and a server keeps an encrypted index of pairs of a keyword and a document identifier. Every scheme offers the
  insertion and the removal of a pair and the search of a keyword; the schemes differ in what the server learns. This
  development models the schemes Mitra, Diana, Fides, Orion, Horus and Janus with the code they rest on, and shows when a search
  returns the identifiers it should and when it does not.

  \<^bold>\<open>Shared theories.\<close>
  \<^item> \<open>Prelude\<close>: errors (\<open>res\<close> is a sum of an error and a value, \<open>bindE\<close> its sequencing), generic lemmas on lists, maps and
    words, the collections of rewrite rules.
  \<^item> \<open>StdLib\<close>: what the sources use of the C++ library: \<open>std::map\<close> as a sorted association list, \<open>stoi\<close>, \<open>to_string\<close>,
    \<open>std::copy\<close> into an array, \<open>memcpy\<close> of integers in little-endian order.
  \<^item> \<open>UpdateLog\<close>: what a search of Mitra and of Fides is to return, as a function of the log of updates of the keyword, and that the
    sums the clients keep in a \<open>std::map\<close> compute it.
  \<^item> \<open>Store\<close>: the locale \<open>token_store\<close>, what Diana, Fides and Janus rely on of a server's store of tokens (memory or disk), interpreted on
    the stores of Diana and Fides.
  \<^item> \<open>Placement\<close>: the invariant the two ORAMs share, that a block is in the stash or in a bucket on the path of its position, and what keeps it.

  \<^bold>\<open>Mitra\<close> (\<open>src/src/mitra\<close>). \<open>Mitra\<close> models \<open>Client.cpp\<close> and \<open>Server.cpp\<close>: the client counts the updates of each keyword, derives an
  address and a mask from the keyword and the counter, and the server is a map from addresses to masked values. The
  generator is a parameter, assumed without collisions on the addresses of the keywords of the run. \<open>MitraNet\<close> models the gRPC client and the handlers of the
  server. Results: a run whose keywords fit the derivation block answers every search by the identifiers inserted more often than deleted; without cleaning
  the network client refines the local one for every generator and all keywords, errors included; keywords with a common prefix collide; a keyword longer
  than the block is undefined behaviour. With cleaning the network client can answer wrongly; a lemma of \<open>MitraNet\<close> has a run in which it does.

  \<^bold>\<open>Diana\<close> (\<open>src/src/diana\<close>). \<open>Prg\<close> models the generator of \<open>third_party/crypto/src/prg.cpp\<close> over a block cipher that is a parameter;
  \<open>TokenTree\<close> models \<open>token_tree.cpp\<close>, the constrained tree of tokens and its covering lists; \<open>Diana\<close> models \<open>diana_client.hpp\<close> and \<open>diana_server.hpp\<close>,
  with the searches split over threads; \<open>Utilities\<close> models the text codings of \<open>src/src/utils/Utilities.cpp\<close>; \<open>DianaInterface\<close> models
  \<open>DianaInterface.cpp\<close> and the gRPC runners, which combine an insertion and a deletion instance. \<open>decode\<close> reads bytes of a buffer it has not written; they are a
  parameter of the model, and \<open>buffer_ends_numbers\<close> is the hypothesis that they are no digits, separate from the documented behaviour of the cipher. The range
  derivation of the tree recurses on pointers to arrays whose block has ended; this is undefined behaviour in the model, so a parallel search is defined
  only where the ranges of its threads coincide with subtrees, as with the one thread the interface asks for. Results: covering lists cover
  exactly the leaves they should (with deletions for at most \<open>2 ^ 30\<close> leaves, the numbers an \<open>int\<close> holds); a parallel search equals the sequential one when no subtree is
  cut and is undefined otherwise; a search through the interface returns the identifiers inserted and not deleted; the remote interface refines the local one.

  \<^bold>\<open>Fides\<close> (\<open>src/src/fides\<close>). \<open>Fides\<close> models
  \<open>sophos_client.cpp\<close>, \<open>sophos_server.cpp\<close>, \<open>FidesClient.cpp\<close> and the runners. The trapdoor permutation is a parameter with its inversion law.
  Results: a run answers each search by the identifiers inserted more often than deleted, where a search with cleaning replaces the log of the keyword by one
  insertion of each of them; the remote client refines the local one. The server's trapdoor permutation is that of the client's key: the setup message does not carry a public key.

  \<^bold>\<open>Threads\<close> (\<open>src/src/utils/thread_pool.hpp\<close> and the parallel searches of \<open>sophos_server.cpp\<close>). \<open>Runs\<close> has runs of labelled steps and a locale that
  derives termination and completion from an invariant and a measure. \<open>ThreadPool\<close> models the pool as a step relation whose steps are the regions
  executed under the lock, the notifications and the returns; it shows that tasks are taken in order and exactly once, that
  no wake-up is lost and that \<open>join\<close> completes. \<open>Pipeline\<close> composes threads and pools; \<open>FidesParallel\<close> models the parallel and the callback searches
  over it. Results hold in every interleaving, with the database as the store: the searches end, reject no job, and give a permutation of the sequential result. In memory mode a
  token that is found leads to the use of an uninitialised variable, which is undefined behaviour in the model. \<open>search_parallel_full\<close> joins its last pool after the returned
  list is constructed, so its result is defined when the list is constructed in place. The number of steps is bounded up to spurious wake-ups.

  \<^bold>\<open>Janus\<close> (\<open>src/src/janus\<close>). \<open>RocksDb\<close> models the counters and the lists of \<open>rocksdb_wrapper\<close> over a map of keys to values; \<open>Janus\<close> models the client, the
  server and the interface over two instances of Diana. The puncturable encryption is a parameter, a function of its randomness, key, message and tag, assumed
  to have its documented sizes and, for the tags in use, which exclude the reserved one, to decrypt what is not punctured. Results: the first search of a keyword with at most one
  deletion is correct; a second search after results is undefined behaviour, because the cache is read back with a copy of the wrong type; the search of a keyword with two or more
  deletions is undefined, because the eight threads that collect the key shares cut a subtree.

  \<^bold>\<open>Orion\<close> (\<open>src/src/orion\<close>). From the bottom up:
  \<^item> \<open>Bid\<close>: the identifiers of \<open>Bid.cpp\<close> with all their operators; they are instances of \<open>linorder\<close>. Their length is eight times a type parameter, because Horus
    has a copy of the same files with longer identifiers: Orion uses \<open>2 Bid\<close> (16 bytes), Horus \<open>3 Bid\<close> (24 bytes), and the theories up to \<open>OmapRep\<close> hold for both.
  \<^item> \<open>Aes\<close>: the block functions of \<open>AES.cpp\<close> over the padded cipher of OpenSSL, a parameter with its round trip.
  \<^item> \<open>Oram\<close>: \<open>RAMStore.cpp\<close> and \<open>ORAM.cpp\<close>, with the cache of nodes; \<open>OramBuckets\<close>, \<open>OramInv\<close>, \<open>OramWrite\<close> and \<open>OramFinish\<close> show that fetching
    a path, accessing a node and writing back keep the invariant that each live node is in the cache or on the path of its position.
  \<^item> \<open>AvlTree\<close>: \<open>AVLTree.cpp\<close>. \<open>AvlSpec\<close> has an abstract AVL tree with its balance and order; \<open>AvlRefine\<close>, \<open>AvlInsert\<close>, \<open>AvlOps\<close>
    and \<open>AvlFinish\<close> show that the operations on nodes in the ORAM implement it.
  \<^item> \<open>Omap\<close>: \<open>OMAP.cpp\<close>. \<open>StringMap\<close> states the interface of a map from identifiers to strings as locales; \<open>OmapRep\<close> interprets
    them on the oblivious map. A batch insertion does not read the paths it writes back, so the interface has it for the empty map only, where the schemes use it.
  \<^item> \<open>Orion\<close>: \<open>Orion.cpp\<close>, the scheme over two oblivious maps. \<open>OrionIndex\<close> has the abstract index, \<open>OrionRep\<close> the relation between the two maps and
    the index, \<open>OrionRun\<close> the correctness of runs and of the setup phase.

  \<^bold>\<open>Horus\<close> (\<open>src/src/horus\<close>). The scheme keeps the positions of identifiers in an oblivious map and the identifiers in an ORAM whose positions are derived from
  keyword and counters.
  \<^item> \<open>PrfOram\<close>: \<open>PRFORAM.cpp\<close>; a deleted \<open>Box*\<close> is an identifier that is no longer in the stash. \<open>PrfOramInv\<close> shows that reads and batches of writes
    refine a finite map of boxes, \<open>PrfOramRun\<close> has runs, the exhaustion of space by overwriting and the use of a box after its deletion by a single write.
  \<^item> \<open>Horus\<close>: \<open>Horus.cpp\<close>, all operations. \<open>HorusIndex\<close> has the identifiers, which are injective in keyword and counters, and their leaves; \<open>HorusRow\<close> the
    bisection of one position, \<open>HorusSearch\<close> the loop over all positions and the write back of the results.
  \<^item> \<open>HorusWord\<close>: the abstract state of a keyword, a column of values for each position; \<open>HorusSetup\<close> shows that the setup operations implement it, \<open>HorusRun\<close>
    that the searches after setup return the identifiers in the index when no position is reused, that they may return a removed one otherwise, and that a first
    insertion outside setup is undefined.

  \<^bold>\<open>Fuel and bounds.\<close> The recursion of the AVL tree runs over nodes of a store, so its definitions take a depth;
  they are called with \<open>tree_fuel\<close>, which is \<open>2 ^ (depth + 3)\<close> and exceeds the height of any tree of the admitted size, and the
  theorems show that the operations return. The oblivious map is used within \<open>capacity\<close>, the least of the number of blocks of the
  store and the number of nodes that keeps the height at most \<open>depth + 2\<close>, the heights the write back handles. The loop of a Horus search
  has the budget \<open>search_fuel\<close>, twice the greatest access counter plus five: after the first round every round shortens an interval or leaves its left
  end, and \<open>HorusRun\<close> shows that the loop ends within it. Entries of Horus are texts of at most 16 characters, so its theorems ask for identifiers of at
  most 8 digits and at most a million updates in a setup phase.

  \<^bold>\<open>Not modelled.\<close> Timers, console output, log files, memory statistics and the files of keys are input and output. The transport of
  gRPC is a direct call of the handler. The database generator and the test programs are not modelled. Third-party
  code other than the generator is a parameter. Of the RocksDB wrapper, opening and flushing are left out and calls of the database do not fail.
\<close>

end
